(* ===== verification/Prelude.thy ===== *)
theory Prelude
  imports Main "HOL-Library.Word"
begin

text \<open>
  What every component of the development shares: the names of the machine types, the lists of
  consecutive counters the \<open>for\<close> loops of the code run over, the view of a byte string as a list of
  bits (most significant bit first, the order of TS 38.323 and TS 38.322), and the facts about
  words the component proofs use again and again.
\<close>

unbundle bit_operations_syntax

section \<open>Machine types\<close>

type_synonym byte = "8 word"
type_synonym bytes = "byte list"
type_synonym u16 = "16 word"
type_synonym u32 = "32 word"
type_synonym u64 = "64 word"

text \<open>Facts about the byte codecs, about word comparisons, and definitions of step functions.\<close>

named_theorems codec_simps
named_theorems window_simps
named_theorems frame_simps

section \<open>Ranges of counters\<close>

text \<open>
  The counters \<open>lo, lo + 1, \<dots>, hi - 1\<close>: what \<open>for (uint32_t c = lo; c < hi; c++)\<close> visits.
\<close>

definition word_range :: "'a::len word \<Rightarrow> 'a word \<Rightarrow> 'a word list" where
  "word_range lo hi = map word_of_nat [unat lo ..< unat hi]"

lemma word_range_empty [simp]: "hi \<le> lo \<Longrightarrow> word_range lo hi = []"
  by (simp add: word_range_def word_le_nat_alt)

lemma word_range_Cons:
  assumes "lo < hi"
  shows "word_range lo hi = lo # word_range (lo + 1) hi"
proof -
  have lt: "unat lo < unat hi" using assms by (simp add: word_less_nat_alt)
  have "lo + 1 \<noteq> 0"
  proof
    assume "lo + 1 = 0"
    then have "lo = - 1" by (simp add: eq_neg_iff_add_eq_0)
    with assms show False by (metis word_n1_ge word_not_simps(3) leD)
  qed
  then have "unat (lo + 1) = Suc (unat lo)" by (metis add.commute unatSuc)
  with lt show ?thesis by (simp add: word_range_def upt_conv_Cons)
qed

lemma set_word_range [simp]: "set (word_range lo hi) = {c. lo \<le> c \<and> c < hi}"
proof -
  have "c \<in> word_of_nat ` {unat lo ..< unat hi} \<longleftrightarrow> lo \<le> c \<and> c < hi" for c :: "'a word"
  proof
    assume "c \<in> word_of_nat ` {unat lo ..< unat hi}"
    then obtain n where n: "c = word_of_nat n" "unat lo \<le> n" "n < unat hi" by auto
    then have "unat c = n" by (metis le_unat_uoi less_or_eq_imp_le)
    with n show "lo \<le> c \<and> c < hi" by (simp add: word_le_nat_alt word_less_nat_alt)
  next
    assume "lo \<le> c \<and> c < hi"
    then show "c \<in> word_of_nat ` {unat lo ..< unat hi}"
      by (intro image_eqI [of _ _ "unat c"]) (auto simp: word_le_nat_alt word_less_nat_alt)
  qed
  then show ?thesis by (auto simp: word_range_def)
qed

lemma distinct_word_range [simp]: "distinct (word_range lo hi)"
proof -
  have "inj_on (word_of_nat :: nat \<Rightarrow> 'a word) {unat lo ..< unat hi}"
    by (rule inj_onI) (metis atLeastLessThan_iff le_unat_uoi less_or_eq_imp_le)
  then show ?thesis by (simp add: word_range_def distinct_map)
qed

lemma length_word_range [simp]: "length (word_range lo hi) = unat hi - unat lo"
  by (simp add: word_range_def)

lemma unat_add_of_nat:
  fixes lo hi :: "'a::len word"
  assumes "lo \<le> hi" "n \<le> unat hi - unat lo"
  shows "unat (lo + word_of_nat n) = unat lo + n"
proof -
  have "unat hi < 2 ^ LENGTH('a)" by (rule unsigned_less)
  moreover have "unat lo \<le> unat hi" using assms(1) by (simp only: word_le_nat_alt)
  ultimately have "unat lo + n < 2 ^ LENGTH('a)" using assms(2) by linarith
  then show ?thesis by (simp add: unat_word_ariths unat_of_nat)
qed

lemma take_word_range:
  fixes lo hi :: "'a::len word"
  assumes "lo \<le> hi" "n \<le> unat hi - unat lo"
  shows "take n (word_range lo hi) = word_range lo (lo + word_of_nat n)"
  using unat_add_of_nat [OF assms] assms by (simp add: word_range_def take_map take_upt word_le_nat_alt)

lemma word_range_append:
  fixes a b c :: "'a::len word"
  assumes "a \<le> b" "b \<le> c"
  shows "word_range a b @ word_range b c = word_range a c"
proof -
  have "[unat a..<unat c] = [unat a..<unat b] @ [unat b..<unat c]"
    using assms upt_add_eq_append [of "unat a" "unat b" "unat c - unat b"] by (simp add: word_le_nat_alt)
  then show ?thesis by (simp add: word_range_def)
qed

section \<open>Word facts\<close>

lemma word_no_wrap_Suc:
  fixes x :: "'a::len word"
  assumes "x < y"
  shows "unat (x + 1) = Suc (unat x)"
proof -
  have "x + 1 \<noteq> 0"
  proof
    assume "x + 1 = 0"
    then have "x = - 1" by (simp add: eq_neg_iff_add_eq_0)
    with assms show False by (metis word_n1_ge leD)
  qed
  then show ?thesis by (metis add.commute unatSuc)
qed

lemma word_Suc_le:
  fixes x :: "'a::len word"
  assumes "x < y"
  shows "x + 1 \<le> y" and "x < x + 1"
  using word_no_wrap_Suc [OF assms] assms
  by (simp_all add: word_le_nat_alt word_less_nat_alt)

lemma word_less_Suc_iff:
  fixes x :: "'a::len word"
  assumes "x < y"
  shows "z < x + 1 \<longleftrightarrow> z \<le> x"
  using word_no_wrap_Suc [OF assms] by (simp add: word_le_nat_alt word_less_nat_alt less_Suc_eq_le)

lemma word_Suc_le_iff:
  fixes x :: "'a::len word"
  assumes "x < y"
  shows "x + 1 \<le> z \<longleftrightarrow> x < z"
  using word_no_wrap_Suc [OF assms] by (simp add: word_le_nat_alt word_less_nat_alt Suc_le_eq)

text \<open>The distance of two different counters shrinks when the lower one is incremented, wrap-around included.\<close>

lemma word_dist_decreases:
  fixes x y :: "'a::len word"
  assumes "x \<noteq> y"
  shows "unat (y - (x + 1)) < unat (y - x)"
proof -
  have nz: "y - x \<noteq> 0" using assms by simp
  have eq: "y - (x + 1) = (y - x) - 1" by simp
  have "unat ((y - x) - 1) = unat (y - x) - 1"
    using nz by (metis unat_minus_one)
  moreover have "0 < unat (y - x)" using nz by (simp add: unat_gt_0)
  ultimately show ?thesis unfolding eq by linarith
qed

lemma uint_less_add_iff: "uint x < uint y + int n \<longleftrightarrow> unat x < unat y + n"
  using of_nat_less_iff [of "unat x" "unat y + n", where 'a = int] by simp

lemma uint_le_add_iff: "uint x \<le> uint y + int n \<longleftrightarrow> unat x \<le> unat y + n"
  using of_nat_le_iff [of "unat x" "unat y + n", where 'a = int] by simp

lemma uint_lt_exp_bits:
  fixes w :: "'a::len word"
  assumes "\<And>m. n \<le> m \<Longrightarrow> \<not> bit w m"
  shows "uint w < 2 ^ n"
proof -
  have "bit w m \<Longrightarrow> m < n" for m using assms by (meson leI)
  then have "w = take_bit n w" by (intro bit_eqI) (auto simp: bit_take_bit_iff)
  then have "uint w = take_bit n (uint w)" by (metis unsigned_take_bit_eq)
  then show ?thesis by (metis take_bit_int_less_exp)
qed

lemma and_low_mask: "w AND (2 ^ n - 1) = take_bit n (w :: 'a::len word)"
  by (simp add: take_bit_eq_mask mask_eq_exp_minus_1)

end
