(* ===== verification/Zuc.thy ===== *)
theory Zuc
  imports Prelude
begin

text \<open>
  The ZUC stream cipher of \<open>lib/security/zuc.cpp\<close>, which NEA3 and NIA3 are built on: the linear feedback
  shift register over the integers modulo \<open>2^31 - 1\<close>, the bit reorganisation, the nonlinear function \<open>F\<close>
  with its two S-boxes, initialisation and keystream generation.

  The sixteen cells \<open>LFSR_S0 \<dots> LFSR_S15\<close> are a list of length 16, and shifting them down is
  dropping the head.
\<close>

section \<open>The cipher\<close>

record zuc_state =
  LFSR_S :: "u32 list"
  F_R1 :: u32
  F_R2 :: u32
  BRC_X0 :: u32
  BRC_X1 :: u32
  BRC_X2 :: u32
  BRC_X3 :: u32

definition zuc_S0 :: "byte list" where
  "zuc_S0 = [
    0x3e, 0x72, 0x5b, 0x47, 0xca, 0xe0, 0x00, 0x33, 0x04, 0xd1, 0x54, 0x98, 0x09, 0xb9, 0x6d, 0xcb,
    0x7b, 0x1b, 0xf9, 0x32, 0xaf, 0x9d, 0x6a, 0xa5, 0xb8, 0x2d, 0xfc, 0x1d, 0x08, 0x53, 0x03, 0x90,
    0x4d, 0x4e, 0x84, 0x99, 0xe4, 0xce, 0xd9, 0x91, 0xdd, 0xb6, 0x85, 0x48, 0x8b, 0x29, 0x6e, 0xac,
    0xcd, 0xc1, 0xf8, 0x1e, 0x73, 0x43, 0x69, 0xc6, 0xb5, 0xbd, 0xfd, 0x39, 0x63, 0x20, 0xd4, 0x38,
    0x76, 0x7d, 0xb2, 0xa7, 0xcf, 0xed, 0x57, 0xc5, 0xf3, 0x2c, 0xbb, 0x14, 0x21, 0x06, 0x55, 0x9b,
    0xe3, 0xef, 0x5e, 0x31, 0x4f, 0x7f, 0x5a, 0xa4, 0x0d, 0x82, 0x51, 0x49, 0x5f, 0xba, 0x58, 0x1c,
    0x4a, 0x16, 0xd5, 0x17, 0xa8, 0x92, 0x24, 0x1f, 0x8c, 0xff, 0xd8, 0xae, 0x2e, 0x01, 0xd3, 0xad,
    0x3b, 0x4b, 0xda, 0x46, 0xeb, 0xc9, 0xde, 0x9a, 0x8f, 0x87, 0xd7, 0x3a, 0x80, 0x6f, 0x2f, 0xc8,
    0xb1, 0xb4, 0x37, 0xf7, 0x0a, 0x22, 0x13, 0x28, 0x7c, 0xcc, 0x3c, 0x89, 0xc7, 0xc3, 0x96, 0x56,
    0x07, 0xbf, 0x7e, 0xf0, 0x0b, 0x2b, 0x97, 0x52, 0x35, 0x41, 0x79, 0x61, 0xa6, 0x4c, 0x10, 0xfe,
    0xbc, 0x26, 0x95, 0x88, 0x8a, 0xb0, 0xa3, 0xfb, 0xc0, 0x18, 0x94, 0xf2, 0xe1, 0xe5, 0xe9, 0x5d,
    0xd0, 0xdc, 0x11, 0x66, 0x64, 0x5c, 0xec, 0x59, 0x42, 0x75, 0x12, 0xf5, 0x74, 0x9c, 0xaa, 0x23,
    0x0e, 0x86, 0xab, 0xbe, 0x2a, 0x02, 0xe7, 0x67, 0xe6, 0x44, 0xa2, 0x6c, 0xc2, 0x93, 0x9f, 0xf1,
    0xf6, 0xfa, 0x36, 0xd2, 0x50, 0x68, 0x9e, 0x62, 0x71, 0x15, 0x3d, 0xd6, 0x40, 0xc4, 0xe2, 0x0f,
    0x8e, 0x83, 0x77, 0x6b, 0x25, 0x05, 0x3f, 0x0c, 0x30, 0xea, 0x70, 0xb7, 0xa1, 0xe8, 0xa9, 0x65,
    0x8d, 0x27, 0x1a, 0xdb, 0x81, 0xb3, 0xa0, 0xf4, 0x45, 0x7a, 0x19, 0xdf, 0xee, 0x78, 0x34, 0x60]"

definition zuc_S1 :: "byte list" where
  "zuc_S1 = [
    0x55, 0xc2, 0x63, 0x71, 0x3b, 0xc8, 0x47, 0x86, 0x9f, 0x3c, 0xda, 0x5b, 0x29, 0xaa, 0xfd, 0x77,
    0x8c, 0xc5, 0x94, 0x0c, 0xa6, 0x1a, 0x13, 0x00, 0xe3, 0xa8, 0x16, 0x72, 0x40, 0xf9, 0xf8, 0x42,
    0x44, 0x26, 0x68, 0x96, 0x81, 0xd9, 0x45, 0x3e, 0x10, 0x76, 0xc6, 0xa7, 0x8b, 0x39, 0x43, 0xe1,
    0x3a, 0xb5, 0x56, 0x2a, 0xc0, 0x6d, 0xb3, 0x05, 0x22, 0x66, 0xbf, 0xdc, 0x0b, 0xfa, 0x62, 0x48,
    0xdd, 0x20, 0x11, 0x06, 0x36, 0xc9, 0xc1, 0xcf, 0xf6, 0x27, 0x52, 0xbb, 0x69, 0xf5, 0xd4, 0x87,
    0x7f, 0x84, 0x4c, 0xd2, 0x9c, 0x57, 0xa4, 0xbc, 0x4f, 0x9a, 0xdf, 0xfe, 0xd6, 0x8d, 0x7a, 0xeb,
    0x2b, 0x53, 0xd8, 0x5c, 0xa1, 0x14, 0x17, 0xfb, 0x23, 0xd5, 0x7d, 0x30, 0x67, 0x73, 0x08, 0x09,
    0xee, 0xb7, 0x70, 0x3f, 0x61, 0xb2, 0x19, 0x8e, 0x4e, 0xe5, 0x4b, 0x93, 0x8f, 0x5d, 0xdb, 0xa9,
    0xad, 0xf1, 0xae, 0x2e, 0xcb, 0x0d, 0xfc, 0xf4, 0x2d, 0x46, 0x6e, 0x1d, 0x97, 0xe8, 0xd1, 0xe9,
    0x4d, 0x37, 0xa5, 0x75, 0x5e, 0x83, 0x9e, 0xab, 0x82, 0x9d, 0xb9, 0x1c, 0xe0, 0xcd, 0x49, 0x89,
    0x01, 0xb6, 0xbd, 0x58, 0x24, 0xa2, 0x5f, 0x38, 0x78, 0x99, 0x15, 0x90, 0x50, 0xb8, 0x95, 0xe4,
    0xd0, 0x91, 0xc7, 0xce, 0xed, 0x0f, 0xb4, 0x6f, 0xa0, 0xcc, 0xf0, 0x02, 0x4a, 0x79, 0xc3, 0xde,
    0xa3, 0xef, 0xea, 0x51, 0xe6, 0x6b, 0x18, 0xec, 0x1b, 0x2c, 0x80, 0xf7, 0x74, 0xe7, 0xff, 0x21,
    0x5a, 0x6a, 0x54, 0x1e, 0x41, 0x31, 0x92, 0x35, 0xc4, 0x33, 0x07, 0x0a, 0xba, 0x7e, 0x0e, 0x34,
    0x88, 0xb1, 0x98, 0x7c, 0xf3, 0x3d, 0x60, 0x6c, 0x7b, 0xca, 0xd3, 0x1f, 0x32, 0x65, 0x04, 0x28,
    0x64, 0xbe, 0x85, 0x9b, 0x2f, 0x59, 0x8a, 0xd7, 0xb0, 0x25, 0xac, 0xaf, 0x12, 0x03, 0xe2, 0xf2]"

definition EK_d :: "u32 list" where
  "EK_d = [0x44d7, 0x26bc, 0x626b, 0x135e, 0x5789, 0x35e2, 0x7135, 0x09af,
    0x4d78, 0x2f13, 0x6bc4, 0x1af1, 0x5e26, 0x3c4d, 0x789a, 0x47ac]"

definition MAKEU32 :: "byte \<Rightarrow> byte \<Rightarrow> byte \<Rightarrow> byte \<Rightarrow> u32" where
  "MAKEU32 a b c d = push_bit 24 (ucast a) OR push_bit 16 (ucast b) OR push_bit 8 (ucast c) OR ucast d"

definition MulByPow2 :: "u32 \<Rightarrow> nat \<Rightarrow> u32" where
  "MulByPow2 x k = (push_bit k x OR drop_bit (31 - k) x) AND 0x7fffffff"

definition MAKEU31 :: "byte \<Rightarrow> u32 \<Rightarrow> byte \<Rightarrow> u32" where
  "MAKEU31 a b c = push_bit 23 (ucast a) OR push_bit 8 b OR ucast c"

definition ROT :: "u32 \<Rightarrow> nat \<Rightarrow> u32" where
  "ROT a k = push_bit k a OR drop_bit (32 - k) a"

definition AddM :: "u32 \<Rightarrow> u32 \<Rightarrow> u32" where
  "AddM a b = (let c = a + b in (c AND 0x7fffffff) + drop_bit 31 c)"

definition LFSRWithWorkMode :: "zuc_state \<Rightarrow> zuc_state" where
  "LFSRWithWorkMode st =
    (let s = LFSR_S st;
         f = s ! 0;
         f = AddM f (MulByPow2 (s ! 0) 8);
         f = AddM f (MulByPow2 (s ! 4) 20);
         f = AddM f (MulByPow2 (s ! 10) 21);
         f = AddM f (MulByPow2 (s ! 13) 17);
         f = AddM f (MulByPow2 (s ! 15) 15)
     in st\<lparr>LFSR_S := tl s @ [f]\<rparr>)"

definition LFSRWithInitialisationMode :: "zuc_state \<Rightarrow> u32 \<Rightarrow> zuc_state" where
  "LFSRWithInitialisationMode st u =
    (let s = LFSR_S st;
         f = s ! 0;
         f = AddM f (MulByPow2 (s ! 0) 8);
         f = AddM f (MulByPow2 (s ! 4) 20);
         f = AddM f (MulByPow2 (s ! 10) 21);
         f = AddM f (MulByPow2 (s ! 13) 17);
         f = AddM f (MulByPow2 (s ! 15) 15);
         f = AddM f u
     in st\<lparr>LFSR_S := tl s @ [f]\<rparr>)"

definition BitReorganization :: "zuc_state \<Rightarrow> zuc_state" where
  "BitReorganization st =
    (let s = LFSR_S st
     in st\<lparr>BRC_X0 := push_bit 1 (s ! 15 AND 0x7fff8000) OR (s ! 14 AND 0xffff),
           BRC_X1 := push_bit 16 (s ! 11 AND 0xffff) OR drop_bit 15 (s ! 9),
           BRC_X2 := push_bit 16 (s ! 7 AND 0xffff) OR drop_bit 15 (s ! 5),
           BRC_X3 := push_bit 16 (s ! 2 AND 0xffff) OR drop_bit 15 (s ! 0)\<rparr>)"

definition zuc_L1 :: "u32 \<Rightarrow> u32" where
  "zuc_L1 x = x XOR ROT x 2 XOR ROT x 10 XOR ROT x 18 XOR ROT x 24"

definition zuc_L2 :: "u32 \<Rightarrow> u32" where
  "zuc_L2 x = x XOR ROT x 8 XOR ROT x 14 XOR ROT x 22 XOR ROT x 30"

text \<open>\<open>S0[u >> 24]\<close> and its companions: a table lookup by one byte of a word.\<close>

definition sbox :: "byte list \<Rightarrow> u32 \<Rightarrow> nat \<Rightarrow> byte" where
  "sbox tab w sh = tab ! unat (drop_bit sh w AND 0xff)"

definition zuc_F :: "zuc_state \<Rightarrow> u32 \<times> zuc_state" where
  "zuc_F st =
    (let W = (BRC_X0 st XOR F_R1 st) + F_R2 st;
         W1 = F_R1 st + BRC_X1 st;
         W2 = F_R2 st XOR BRC_X2 st;
         u = zuc_L1 (push_bit 16 W1 OR drop_bit 16 W2);
         v = zuc_L2 (push_bit 16 W2 OR drop_bit 16 W1)
     in (W, st\<lparr>
        F_R1 := MAKEU32 (sbox zuc_S0 u 24) (sbox zuc_S1 u 16) (sbox zuc_S0 u 8) (sbox zuc_S1 u 0),
        F_R2 := MAKEU32 (sbox zuc_S0 v 24) (sbox zuc_S1 v 16) (sbox zuc_S0 v 8) (sbox zuc_S1 v 0)\<rparr>))"

text \<open>The body of the loop of \<open>zuc_initialize\<close>, run 32 times.\<close>

definition zuc_init_round :: "zuc_state \<Rightarrow> zuc_state" where
  "zuc_init_round st =
    (let (w, st1) = zuc_F (BitReorganization st) in LFSRWithInitialisationMode st1 (drop_bit 1 w))"

definition zuc_initialize :: "bytes \<Rightarrow> bytes \<Rightarrow> zuc_state" where
  "zuc_initialize k iv =
    (let st = \<lparr>LFSR_S = map (\<lambda>i. MAKEU31 (k ! i) (EK_d ! i) (iv ! i)) [0..<16], F_R1 = 0, F_R2 = 0,
               BRC_X0 = 0, BRC_X1 = 0, BRC_X2 = 0, BRC_X3 = 0\<rparr>
     in (zuc_init_round ^^ 32) st)"

fun zuc_keystream_loop :: "nat \<Rightarrow> zuc_state \<Rightarrow> u32 list \<times> zuc_state" where
  "zuc_keystream_loop 0 st = ([], st)"
| "zuc_keystream_loop (Suc n) st =
    (let st1 = BitReorganization st;
         (f, st2) = zuc_F st1;
         (ks, st3) = zuc_keystream_loop n (LFSRWithWorkMode st2)
     in ((f XOR BRC_X3 st2) # ks, st3))"

definition zuc_generate_keystream :: "zuc_state \<Rightarrow> nat \<Rightarrow> u32 list \<times> zuc_state" where
  "zuc_generate_keystream st key_stream_len =
    zuc_keystream_loop key_stream_len (LFSRWithWorkMode (snd (zuc_F (BitReorganization st))))"

section \<open>Arithmetic modulo \<open>2^31 - 1\<close>\<close>

abbreviation zuc_mod :: nat where "zuc_mod \<equiv> 2 ^ 31 - 1"

lemma and_0x7fffffff: "w AND 0x7fffffff = take_bit 31 (w :: u32)"
  using and_low_mask [of w 31] by simp

lemma AddM_unat:
  assumes "unat a < 2 ^ 31" "unat b < 2 ^ 31"
  shows "unat (AddM a b) = (unat a + unat b) mod 2 ^ 31 + (unat a + unat b) div 2 ^ 31"
proof -
  let ?s = "unat a + unat b"
  have s: "unat (a + b) = ?s" using assms by (simp add: unat_word_ariths)
  have lo: "unat (take_bit 31 (a + b)) = ?s mod 2 ^ 31"
    by (simp only: unsigned_take_bit_eq s take_bit_eq_mod [of 31 ?s])
  have hi: "unat (drop_bit 31 (a + b)) = ?s div 2 ^ 31"
    by (simp only: unat_drop_bit_eq s drop_bit_eq_div [of 31 ?s])
  have "?s mod 2 ^ 31 + ?s div 2 ^ 31 < 2 ^ 32"
    using assms by simp
  then show ?thesis by (simp only: AddM_def Let_def and_0x7fffffff unat_word_ariths lo hi) simp
qed

lemma carry_fold_mod: "(s mod 2 ^ n + s div 2 ^ n) mod (2 ^ n - 1) = s mod (2 ^ n - 1 :: nat)"
proof -
  define m where "m = 2 ^ n - (1 :: nat)"
  have m: "2 ^ n = Suc m" by (simp add: m_def)
  have "Suc m * (s div Suc m) = s div Suc m + m * (s div Suc m)" by (rule mult_Suc)
  with mod_mult_div_eq [of s "Suc m"] have "s = (s mod Suc m + s div Suc m) + m * (s div Suc m)" by linarith
  then have "s mod m = (s mod Suc m + s div Suc m) mod m" by (metis mod_mult_self2)
  then show ?thesis by (simp only: m diff_Suc_1)
qed

lemma AddM_mod:
  assumes "unat a < 2 ^ 31" "unat b < 2 ^ 31"
  shows "unat (AddM a b) mod zuc_mod = (unat a + unat b) mod zuc_mod"
  by (simp only: AddM_unat [OF assms] carry_fold_mod)

lemma AddM_bound:
  assumes "unat a < 2 ^ 31" "unat b < 2 ^ 31"
  shows "unat (AddM a b) < 2 ^ 31"
proof -
  have "(unat a + unat b) div 2 ^ 31 \<le> 1" using assms by simp
  moreover have "(unat a + unat b) mod 2 ^ 31 < 2 ^ 31 - 1" if "(unat a + unat b) div 2 ^ 31 = 1"
    using that assms mod_mult_div_eq [of "unat a + unat b" "2 ^ 31"] by simp
  moreover have "(unat a + unat b) mod 2 ^ 31 < 2 ^ 31" by simp
  ultimately show ?thesis unfolding AddM_unat [OF assms] by linarith
qed

lemma AddM_nonzero:
  assumes "unat a < 2 ^ 31" "unat b < 2 ^ 31" "a \<noteq> 0"
  shows "AddM a b \<noteq> 0"
proof
  assume "AddM a b = 0"
  then have "(unat a + unat b) mod 2 ^ 31 = 0" "(unat a + unat b) div 2 ^ 31 = 0"
    using AddM_unat [OF assms(1,2)] by simp_all
  then have "unat a + unat b = 0" by (metis div_mult_mod_eq mult_0 add_0)
  then have "unat a = 0" by simp
  with assms(3) show False by (simp add: unat_eq_0)
qed

lemma MulByPow2_unat:
  assumes "unat x < 2 ^ 31" "k \<le> 31"
  shows "unat (MulByPow2 x k) = 2 ^ k * (unat x mod 2 ^ (31 - k)) + unat x div 2 ^ (31 - k)"
proof -
  let ?x = "unat x"
  have dlt: "?x div 2 ^ (31 - k) < 2 ^ k"
    using assms by (simp add: less_mult_imp_div_less flip: power_add)
  have t: "take_bit 31 (push_bit k ?x) = push_bit k (take_bit (31 - k) ?x)"
    using assms(2) by (simp add: take_bit_push_bit)
  have "unat (MulByPow2 x k) = take_bit 31 (push_bit k ?x) OR take_bit 31 (drop_bit (31 - k) ?x)"
    by (simp only: MulByPow2_def and_0x7fffffff unsigned_take_bit_eq unsigned_or_eq unsigned_push_bit_eq
        unat_drop_bit_eq take_bit_or take_bit_take_bit) simp
  also have "take_bit 31 (drop_bit (31 - k) ?x) = ?x div 2 ^ (31 - k)"
    using assms by (simp add: drop_bit_eq_div take_bit_nat_eq_self div_le_dividend [THEN le_less_trans])
  also have "take_bit 31 (push_bit k ?x) OR ?x div 2 ^ (31 - k) =
      push_bit k (take_bit (31 - k) ?x) + ?x div 2 ^ (31 - k)"
    unfolding t
  proof (rule disjunctive_add_eq_or [symmetric], rule bit_eqI)
    fix n
    have "?x div 2 ^ (31 - k) = take_bit k (?x div 2 ^ (31 - k))" using dlt by (simp add: take_bit_nat_eq_self)
    then have "bit (?x div 2 ^ (31 - k)) n \<Longrightarrow> n < k" by (metis bit_take_bit_iff)
    then show "bit (push_bit k (take_bit (31 - k) ?x) AND ?x div 2 ^ (31 - k)) n = bit 0 n"
      by (auto simp: bit_and_iff bit_push_bit_iff)
  qed
  finally show ?thesis by (simp add: push_bit_eq_mult take_bit_eq_mod mult.commute)
qed

lemma MulByPow2_bound: "unat (MulByPow2 x k) < 2 ^ 31"
  by (simp only: MulByPow2_def and_0x7fffffff unsigned_take_bit_eq take_bit_nat_less_exp)

lemma MulByPow2_mod:
  assumes "unat x < 2 ^ 31" "k \<le> 31"
  shows "unat (MulByPow2 x k) mod zuc_mod = (2 ^ k * unat x) mod zuc_mod"
proof -
  let ?x = "unat x" and ?d = "2 ^ (31 - k) :: nat"
  have pw: "2 ^ k * ?d = (2 ^ 31 :: nat)" using assms(2) by (simp flip: power_add)
  have "2 ^ k * ?x = 2 ^ k * (?x mod ?d + ?d * (?x div ?d))" by simp
  also have "\<dots> = 2 ^ k * (?x mod ?d) + 2 ^ k * ?d * (?x div ?d)" by (simp only: distrib_left mult.assoc)
  also have "\<dots> = (2 ^ k * (?x mod ?d) + ?x div ?d) + zuc_mod * (?x div ?d)"
    unfolding pw by simp
  finally show ?thesis unfolding MulByPow2_unat [OF assms] by (metis mod_mult_self2)
qed

section \<open>The shift register\<close>

text \<open>Every cell holds a nonzero residue: the representation of zero is \<open>2^31 - 1\<close>, never 0.\<close>

definition zuc_cell_ok :: "u32 \<Rightarrow> bool" where
  "zuc_cell_ok c \<longleftrightarrow> c \<noteq> 0 \<and> unat c < 2 ^ 31"

definition zuc_wf :: "zuc_state \<Rightarrow> bool" where
  "zuc_wf st \<longleftrightarrow> length (LFSR_S st) = 16 \<and> list_all zuc_cell_ok (LFSR_S st)"

text \<open>The feedback of the specification: \<open>2^15 s15 + 2^17 s13 + 2^21 s10 + 2^20 s4 + (1 + 2^8) s0\<close>.\<close>

definition zuc_feedback :: "u32 list \<Rightarrow> nat" where
  "zuc_feedback s =
    2 ^ 15 * unat (s ! 15) + 2 ^ 17 * unat (s ! 13) + 2 ^ 21 * unat (s ! 10) + 2 ^ 20 * unat (s ! 4) +
    (1 + 2 ^ 8) * unat (s ! 0)"

lemma zuc_wf_nth: "zuc_wf st \<Longrightarrow> i < 16 \<Longrightarrow> unat (LFSR_S st ! i) < 2 ^ 31 \<and> LFSR_S st ! i \<noteq> 0"
  by (auto simp: zuc_wf_def list_all_length zuc_cell_ok_def)

text \<open>Adding one more tap keeps the sum below \<open>2^31\<close>, nonzero, and right modulo \<open>2^31 - 1\<close>.\<close>

definition zuc_sum :: "u32 \<Rightarrow> nat \<Rightarrow> bool" where
  "zuc_sum f n \<longleftrightarrow> unat f < 2 ^ 31 \<and> f \<noteq> 0 \<and> unat f mod zuc_mod = n mod zuc_mod"

lemma zuc_sum_AddM:
  assumes "zuc_sum f n" "unat u < 2 ^ 31" "unat u mod zuc_mod = m mod zuc_mod"
  shows "zuc_sum (AddM f u) (n + m)"
proof -
  have f: "unat f < 2 ^ 31" "f \<noteq> 0" "unat f mod zuc_mod = n mod zuc_mod" using assms(1) by (simp_all add: zuc_sum_def)
  have "unat (AddM f u) mod zuc_mod = (n + m) mod zuc_mod"
    using AddM_mod [OF f(1) assms(2)] f(3) assms(3) by (metis mod_add_cong)
  then show ?thesis
    using AddM_bound [OF f(1) assms(2)] AddM_nonzero [OF f(1) assms(2) f(2)] by (simp add: zuc_sum_def)
qed

lemma zuc_sum_tap:
  assumes "zuc_sum f n" "unat x < 2 ^ 31" "k \<le> 31"
  shows "zuc_sum (AddM f (MulByPow2 x k)) (n + 2 ^ k * unat x)"
  by (rule zuc_sum_AddM [OF assms(1) MulByPow2_bound MulByPow2_mod [OF assms(2,3)]])

lemma zuc_feedback_sum:
  assumes "zuc_wf st"
  defines "s \<equiv> LFSR_S st"
  shows "zuc_sum (AddM (AddM (AddM (AddM (AddM (s ! 0) (MulByPow2 (s ! 0) 8)) (MulByPow2 (s ! 4) 20))
      (MulByPow2 (s ! 10) 21)) (MulByPow2 (s ! 13) 17)) (MulByPow2 (s ! 15) 15)) (zuc_feedback s)"
proof -
  note nth = zuc_wf_nth [OF assms(1), folded s_def]
  have z: "zuc_sum (s ! 0) (unat (s ! 0))" using nth [of 0] by (simp add: zuc_sum_def)
  have "zuc_sum (AddM (AddM (AddM (AddM (AddM (s ! 0) (MulByPow2 (s ! 0) 8)) (MulByPow2 (s ! 4) 20))
      (MulByPow2 (s ! 10) 21)) (MulByPow2 (s ! 13) 17)) (MulByPow2 (s ! 15) 15))
      (unat (s ! 0) + 2 ^ 8 * unat (s ! 0) + 2 ^ 20 * unat (s ! 4) + 2 ^ 21 * unat (s ! 10) +
       2 ^ 17 * unat (s ! 13) + 2 ^ 15 * unat (s ! 15))"
    by (intro zuc_sum_tap z conjunct1 [OF nth]) simp_all
  then show ?thesis by (simp add: zuc_feedback_def algebra_simps)
qed

lemma zuc_wf_shift:
  assumes "zuc_wf st" "zuc_cell_ok f"
  shows "zuc_wf (st\<lparr>LFSR_S := tl (LFSR_S st) @ [f]\<rparr>)"
  using assms by (cases "LFSR_S st") (auto simp: zuc_wf_def)

lemma zuc_sum_cell_ok: "zuc_sum f n \<Longrightarrow> zuc_cell_ok f"
  by (simp add: zuc_sum_def zuc_cell_ok_def)

lemma work_mode_wf: "zuc_wf st \<Longrightarrow> zuc_wf (LFSRWithWorkMode st)"
  unfolding LFSRWithWorkMode_def Let_def
  by (intro zuc_wf_shift) (auto intro: zuc_sum_cell_ok zuc_feedback_sum)

lemma init_mode_wf:
  assumes "zuc_wf st" "unat u < 2 ^ 31"
  shows "zuc_wf (LFSRWithInitialisationMode st u)"
  unfolding LFSRWithInitialisationMode_def Let_def
  by (intro zuc_wf_shift assms(1) zuc_sum_cell_ok
      [OF zuc_sum_AddM [OF zuc_feedback_sum [OF assms(1)] assms(2) refl]])

lemma zuc_reorg_wf [simp]: "zuc_wf (BitReorganization st) = zuc_wf st"
  by (simp add: zuc_wf_def BitReorganization_def Let_def)

lemma zuc_F_wf [simp]: "zuc_wf (snd (zuc_F st)) = zuc_wf st"
  by (simp add: zuc_wf_def zuc_F_def Let_def)

lemma unat_half_word: "unat (drop_bit 1 w :: u32) < 2 ^ 31"
proof -
  have "unat w < 2 ^ 32" using unsigned_less [of w, where 'a = nat] by simp
  then show ?thesis by (simp only: unat_drop_bit_eq drop_bit_eq_div [of 1 "unat w"]) simp
qed

lemma zuc_init_round_wf: "zuc_wf st \<Longrightarrow> zuc_wf (zuc_init_round st)"
  unfolding zuc_init_round_def case_prod_beta Let_def
  by (rule init_mode_wf [OF _ unat_half_word]) simp

lemma MAKEU31_ok:
  assumes "d \<noteq> 0" "unat d < 2 ^ 15"
  shows "zuc_cell_ok (MAKEU31 k d iv)"
proof -
  let ?a = "push_bit 23 (ucast k) :: u32" and ?b = "push_bit 8 d" and ?c = "ucast iv :: u32"
  obtain n where n: "bit d n" using assms(1) by (metis bit_eqI bit_0_eq bot_apply bot_bool_def)
  have dn: "\<not> bit d m" if "15 \<le> m" for m
  proof -
    have "d = take_bit 15 d"
      by (simp only: word_unat_eq_iff unsigned_take_bit_eq take_bit_nat_eq_self [OF assms(2)])
    then show ?thesis using that by (metis bit_take_bit_iff not_less)
  qed
  have "n < 15" using n dn by (meson not_less)
  then have "bit (MAKEU31 k d iv) (n + 8)"
    using n by (simp add: MAKEU31_def bit_or_iff bit_push_bit_iff)
  then have nz: "MAKEU31 k d iv \<noteq> 0" by (metis bit_0_eq bot_apply bot_bool_def)
  have "\<not> bit (MAKEU31 k d iv) m" if "31 \<le> m" for m
    using that dn by (auto simp: MAKEU31_def bit_or_iff bit_push_bit_iff bit_ucast_iff dest: bit_imp_le_length)
  then have "bit (MAKEU31 k d iv) m \<Longrightarrow> m < 31" for m by (meson leI)
  then have "MAKEU31 k d iv = take_bit 31 (MAKEU31 k d iv)"
    by (intro bit_eqI) (auto simp: bit_take_bit_iff)
  then have "unat (MAKEU31 k d iv) < 2 ^ 31" by (metis unsigned_take_bit_eq take_bit_nat_less_exp)
  with nz show ?thesis by (simp add: zuc_cell_ok_def)
qed

lemma EK_d_ok: "list_all (\<lambda>d. d \<noteq> 0 \<and> unat d < 2 ^ 15) EK_d"
  by (simp add: EK_d_def)

lemma zuc_initialize_wf: "zuc_wf (zuc_initialize k iv)"
proof -
  have funpow: "zuc_wf ((zuc_init_round ^^ n) st)" if "zuc_wf st" for n st
    by (induction n) (auto simp: that zuc_init_round_wf)
  have "length EK_d = 16" by (simp add: EK_d_def)
  then have "zuc_wf \<lparr>LFSR_S = map (\<lambda>i. MAKEU31 (k ! i) (EK_d ! i) (iv ! i)) [0..<16], F_R1 = 0, F_R2 = 0,
      BRC_X0 = 0, BRC_X1 = 0, BRC_X2 = 0, BRC_X3 = 0\<rparr>"
    using EK_d_ok by (simp only: zuc_wf_def zuc_state.simps list_all_length)
      (auto simp: MAKEU31_ok)
  then show ?thesis unfolding zuc_initialize_def Let_def by (rule funpow)
qed

section \<open>The keystream\<close>

lemma keystream_loop_length: "length (fst (zuc_keystream_loop n st)) = n"
  by (induction n arbitrary: st) (simp_all add: Let_def split: prod.splits, metis fst_conv)

lemma keystream_loop_prefix: "fst (zuc_keystream_loop n st) = take n (fst (zuc_keystream_loop (n + m) st))"
  by (induction n arbitrary: st) (simp_all add: Let_def split: prod.splits, metis fst_conv)

lemma keystream_loop_wf: "zuc_wf st \<Longrightarrow> zuc_wf (snd (zuc_keystream_loop n st))"
proof (induction n arbitrary: st)
  case (Suc n)
  have "zuc_wf (snd (zuc_F (BitReorganization st)))" using Suc.prems by simp
  from Suc.IH [OF work_mode_wf [OF this]] show ?case by (simp add: Let_def case_prod_beta)
qed simp


lemma generate_keystream_length [simp]: "length (fst (zuc_generate_keystream st n)) = n"
  by (simp add: zuc_generate_keystream_def keystream_loop_length)

section \<open>Properties\<close>

text \<open>C40. The shift register implements the linear recurrence of the ZUC specification over the
  integers modulo \<open>2^31 - 1\<close>: both clocking modes drop the oldest cell and append one that is congruent to
  \<open>2^15 s15 + 2^17 s13 + 2^21 s10 + 2^20 s4 + (1 + 2^8) s0\<close> (plus the input in initialisation mode), is below
  \<open>2^31\<close> and is never 0, so the zero test of the specification, which the code does not have, is not needed.\<close>

theorem zuc_lfsr_recurrence:
  assumes "zuc_wf st" "unat u < 2 ^ 31"
  shows "\<exists>f g. LFSR_S (LFSRWithWorkMode st) = tl (LFSR_S st) @ [f] \<and>
      unat f mod (2 ^ 31 - 1) = zuc_feedback (LFSR_S st) mod (2 ^ 31 - 1) \<and>
      LFSR_S (LFSRWithInitialisationMode st u) = tl (LFSR_S st) @ [g] \<and>
      unat g mod (2 ^ 31 - 1) = (zuc_feedback (LFSR_S st) + unat u) mod (2 ^ 31 - 1) \<and>
      zuc_cell_ok f \<and> zuc_cell_ok g"
proof -
  note f = zuc_feedback_sum [OF assms(1)]
  note g = zuc_sum_AddM [OF f assms(2) refl]
  show ?thesis
    using f g zuc_sum_cell_ok [OF f] zuc_sum_cell_ok [OF g]
    by (simp add: LFSRWithWorkMode_def LFSRWithInitialisationMode_def Let_def zuc_sum_def)
qed

lemma zuc_lfsr_recurrence_witness:
  "zuc_cell_ok (last (LFSR_S (LFSRWithWorkMode (zuc_initialize (replicate 16 0) (replicate 16 0)))))"
  using zuc_lfsr_recurrence [OF zuc_initialize_wf [of "replicate 16 0" "replicate 16 0"], of 5] by auto

text \<open>Whatever key and initial vector: after initialisation, and after any amount of keystream, the
  register has 16 cells, each nonzero and below \<open>2^31\<close>.\<close>

theorem zuc_states_well_formed:
  "zuc_wf (zuc_initialize k iv) \<and> zuc_wf (snd (zuc_generate_keystream (zuc_initialize k iv) n))"
  unfolding zuc_generate_keystream_def
  by (intro conjI keystream_loop_wf work_mode_wf) (simp_all add: zuc_initialize_wf)

text \<open>Keystream generation yields exactly the requested number of words, and a longer request only
  extends a shorter one: the first words do not depend on how many follow.\<close>

theorem zuc_keystream_prefix:
  "length (fst (zuc_generate_keystream st n)) = n \<and>
   fst (zuc_generate_keystream st n) = take n (fst (zuc_generate_keystream st (n + m)))"
  unfolding zuc_generate_keystream_def
  by (intro conjI keystream_loop_length keystream_loop_prefix)

end
