(* ===== verification/Snow3g.thy ===== *)
theory Snow3g
  imports Prelude
begin

text \<open>
  The SNOW 3G cipher of \<open>lib/security/s3g.cpp\<close>, which NEA1 and NIA1 are built on: arithmetic in
  \<open>GF(2^8)\<close> and \<open>GF(2^64)\<close>, the two 32-bit S-boxes, the shift register and the finite state machine,
  initialisation, keystream generation, and the integrity function \<open>s3g_f9\<close>.
\<close>

section \<open>The cipher\<close>

definition s3g_SQ :: "byte list" where
  "s3g_SQ = [
    0x25, 0x24, 0x73, 0x67, 0xd7, 0xae, 0x5c, 0x30, 0xa4, 0xee, 0x6e, 0xcb, 0x7d, 0xb5, 0x82, 0xdb,
    0xe4, 0x8e, 0x48, 0x49, 0x4f, 0x5d, 0x6a, 0x78, 0x70, 0x88, 0xe8, 0x5f, 0x5e, 0x84, 0x65, 0xe2,
    0xd8, 0xe9, 0xcc, 0xed, 0x40, 0x2f, 0x11, 0x28, 0x57, 0xd2, 0xac, 0xe3, 0x4a, 0x15, 0x1b, 0xb9,
    0xb2, 0x80, 0x85, 0xa6, 0x2e, 0x02, 0x47, 0x29, 0x07, 0x4b, 0x0e, 0xc1, 0x51, 0xaa, 0x89, 0xd4,
    0xca, 0x01, 0x46, 0xb3, 0xef, 0xdd, 0x44, 0x7b, 0xc2, 0x7f, 0xbe, 0xc3, 0x9f, 0x20, 0x4c, 0x64,
    0x83, 0xa2, 0x68, 0x42, 0x13, 0xb4, 0x41, 0xcd, 0xba, 0xc6, 0xbb, 0x6d, 0x4d, 0x71, 0x21, 0xf4,
    0x8d, 0xb0, 0xe5, 0x93, 0xfe, 0x8f, 0xe6, 0xcf, 0x43, 0x45, 0x31, 0x22, 0x37, 0x36, 0x96, 0xfa,
    0xbc, 0x0f, 0x08, 0x52, 0x1d, 0x55, 0x1a, 0xc5, 0x4e, 0x23, 0x69, 0x7a, 0x92, 0xff, 0x5b, 0x5a,
    0xeb, 0x9a, 0x1c, 0xa9, 0xd1, 0x7e, 0x0d, 0xfc, 0x50, 0x8a, 0xb6, 0x62, 0xf5, 0x0a, 0xf8, 0xdc,
    0x03, 0x3c, 0x0c, 0x39, 0xf1, 0xb8, 0xf3, 0x3d, 0xf2, 0xd5, 0x97, 0x66, 0x81, 0x32, 0xa0, 0x00,
    0x06, 0xce, 0xf6, 0xea, 0xb7, 0x17, 0xf7, 0x8c, 0x79, 0xd6, 0xa7, 0xbf, 0x8b, 0x3f, 0x1f, 0x53,
    0x63, 0x75, 0x35, 0x2c, 0x60, 0xfd, 0x27, 0xd3, 0x94, 0xa5, 0x7c, 0xa1, 0x05, 0x58, 0x2d, 0xbd,
    0xd9, 0xc7, 0xaf, 0x6b, 0x54, 0x0b, 0xe0, 0x38, 0x04, 0xc8, 0x9d, 0xe7, 0x14, 0xb1, 0x87, 0x9c,
    0xdf, 0x6f, 0xf9, 0xda, 0x2a, 0xc4, 0x59, 0x16, 0x74, 0x91, 0xab, 0x26, 0x61, 0x76, 0x34, 0x2b,
    0xad, 0x99, 0xfb, 0x72, 0xec, 0x33, 0x12, 0xde, 0x98, 0x3b, 0xc0, 0x9b, 0x3e, 0x18, 0x10, 0x3a,
    0x56, 0xe1, 0x77, 0xc9, 0x1e, 0x9e, 0x95, 0xa3, 0x90, 0x19, 0xa8, 0x6c, 0x09, 0xd0, 0xf0, 0x86]"

definition s3g_S :: "byte list" where
  "s3g_S = [
    99, 124, 119, 123, 242, 107, 111, 197, 48, 1, 103, 43, 254, 215, 171, 118,
    202, 130, 201, 125, 250, 89, 71, 240, 173, 212, 162, 175, 156, 164, 114, 192,
    183, 253, 147, 38, 54, 63, 247, 204, 52, 165, 229, 241, 113, 216, 49, 21,
    4, 199, 35, 195, 24, 150, 5, 154, 7, 18, 128, 226, 235, 39, 178, 117,
    9, 131, 44, 26, 27, 110, 90, 160, 82, 59, 214, 179, 41, 227, 47, 132,
    83, 209, 0, 237, 32, 252, 177, 91, 106, 203, 190, 57, 74, 76, 88, 207,
    208, 239, 170, 251, 67, 77, 51, 133, 69, 249, 2, 127, 80, 60, 159, 168,
    81, 163, 64, 143, 146, 157, 56, 245, 188, 182, 218, 33, 16, 255, 243, 210,
    205, 12, 19, 236, 95, 151, 68, 23, 196, 167, 126, 61, 100, 93, 25, 115,
    96, 129, 79, 220, 34, 42, 144, 136, 70, 238, 184, 20, 222, 94, 11, 219,
    224, 50, 58, 10, 73, 6, 36, 92, 194, 211, 172, 98, 145, 149, 228, 121,
    231, 200, 55, 109, 141, 213, 78, 169, 108, 86, 244, 234, 101, 122, 174, 8,
    186, 120, 37, 46, 28, 166, 180, 198, 232, 221, 116, 31, 75, 189, 139, 138,
    112, 62, 181, 102, 72, 3, 246, 14, 97, 53, 87, 185, 134, 193, 29, 158,
    225, 248, 152, 17, 105, 217, 142, 148, 155, 30, 135, 233, 206, 85, 40, 223,
    140, 161, 137, 13, 191, 230, 66, 104, 65, 153, 45, 15, 176, 84, 187, 22]"

definition s3g_mul_x :: "byte \<Rightarrow> byte \<Rightarrow> byte" where
  "s3g_mul_x v c = (if v AND 0x80 \<noteq> 0 then push_bit 1 v XOR c else push_bit 1 v)"

fun s3g_mul_x_pow :: "byte \<Rightarrow> nat \<Rightarrow> byte \<Rightarrow> byte" where
  "s3g_mul_x_pow v 0 c = v"
| "s3g_mul_x_pow v (Suc i) c = s3g_mul_x (s3g_mul_x_pow v i c) c"

text \<open>Four bytes, the first the most significant: \<open>(uint32_t)r0 << 24 | \<dots> | (uint32_t)r3\<close>.\<close>

definition s3g_word :: "byte \<Rightarrow> byte \<Rightarrow> byte \<Rightarrow> byte \<Rightarrow> u32" where
  "s3g_word r0 r1 r2 r3 =
    push_bit 24 (ucast r0) OR push_bit 16 (ucast r1) OR push_bit 8 (ucast r2) OR ucast r3"

definition s3g_mul_alpha :: "byte \<Rightarrow> u32" where
  "s3g_mul_alpha c = s3g_word (s3g_mul_x_pow c 23 0xa9) (s3g_mul_x_pow c 245 0xa9)
    (s3g_mul_x_pow c 48 0xa9) (s3g_mul_x_pow c 239 0xa9)"

definition s3g_div_alpha :: "byte \<Rightarrow> u32" where
  "s3g_div_alpha c = s3g_word (s3g_mul_x_pow c 16 0xa9) (s3g_mul_x_pow c 39 0xa9)
    (s3g_mul_x_pow c 6 0xa9) (s3g_mul_x_pow c 64 0xa9)"

text \<open>The common shape of \<open>s3g_s1\<close> (table \<open>S\<close>, constant \<open>0x1b\<close>) and \<open>s3g_s2\<close> (table \<open>SQ\<close>, constant \<open>0x69\<close>).\<close>

definition s3g_sbox :: "byte list \<Rightarrow> byte \<Rightarrow> u32 \<Rightarrow> u32" where
  "s3g_sbox tab c w =
    (let w0 = tab ! unat (drop_bit 24 w AND 0xff);
         w1 = tab ! unat (drop_bit 16 w AND 0xff);
         w2 = tab ! unat (drop_bit 8 w AND 0xff);
         w3 = tab ! unat (w AND 0xff);
         r0 = s3g_mul_x w0 c XOR w1 XOR w2 XOR (s3g_mul_x w3 c XOR w3);
         r1 = (s3g_mul_x w0 c XOR w0) XOR s3g_mul_x w1 c XOR w2 XOR w3;
         r2 = w0 XOR (s3g_mul_x w1 c XOR w1) XOR s3g_mul_x w2 c XOR w3;
         r3 = w0 XOR w1 XOR (s3g_mul_x w2 c XOR w2) XOR s3g_mul_x w3 c
     in s3g_word r0 r1 r2 r3)"

definition s3g_s1 :: "u32 \<Rightarrow> u32" where
  "s3g_s1 w = s3g_sbox s3g_S 0x1b w"

definition s3g_s2 :: "u32 \<Rightarrow> u32" where
  "s3g_s2 w = s3g_sbox s3g_SQ 0x69 w"

record s3g_state =
  lfsr :: "u32 list"
  fsm :: "u32 list"

definition s3g_clock_lfsr :: "s3g_state \<Rightarrow> u32 \<Rightarrow> s3g_state" where
  "s3g_clock_lfsr st f =
    (let l = lfsr st;
         v = (push_bit 8 (l ! 0) AND 0xffffff00) XOR s3g_mul_alpha (ucast (drop_bit 24 (l ! 0) AND 0xff)) XOR
             l ! 2 XOR (drop_bit 8 (l ! 11) AND 0x00ffffff) XOR s3g_div_alpha (ucast (l ! 11 AND 0xff)) XOR f
     in st\<lparr>lfsr := tl l @ [v]\<rparr>)"

definition s3g_clock_fsm :: "s3g_state \<Rightarrow> u32 \<times> s3g_state" where
  "s3g_clock_fsm st =
    (let l = lfsr st; m = fsm st;
         f = (l ! 15 + m ! 0) XOR m ! 1;
         r = m ! 1 + (m ! 2 XOR l ! 5)
     in (f, st\<lparr>fsm := [r, s3g_s1 (m ! 0), s3g_s2 (m ! 1)]\<rparr>))"

definition s3g_init_round :: "s3g_state \<Rightarrow> s3g_state" where
  "s3g_init_round st = (let (f, st1) = s3g_clock_fsm st in s3g_clock_lfsr st1 f)"

definition s3g_initialize :: "u32 list \<Rightarrow> u32 list \<Rightarrow> s3g_state" where
  "s3g_initialize k iv =
    (let ones = 0xffffffff;
         l = [k ! 0 XOR ones, k ! 1 XOR ones, k ! 2 XOR ones, k ! 3 XOR ones,
              k ! 0, k ! 1, k ! 2, k ! 3,
              k ! 0 XOR ones, k ! 1 XOR ones XOR iv ! 3, k ! 2 XOR ones XOR iv ! 2, k ! 3 XOR ones,
              k ! 0 XOR iv ! 1, k ! 1, k ! 2, k ! 3 XOR iv ! 0]
     in (s3g_init_round ^^ 32) \<lparr>lfsr = l, fsm = [0, 0, 0]\<rparr>)"

fun s3g_keystream_loop :: "nat \<Rightarrow> s3g_state \<Rightarrow> u32 list \<times> s3g_state" where
  "s3g_keystream_loop 0 st = ([], st)"
| "s3g_keystream_loop (Suc n) st =
    (let (f, st1) = s3g_clock_fsm st;
         k = f XOR lfsr st1 ! 0;
         (ks, st2) = s3g_keystream_loop n (s3g_clock_lfsr st1 0)
     in (k # ks, st2))"

definition s3g_generate_keystream :: "s3g_state \<Rightarrow> nat \<Rightarrow> u32 list \<times> s3g_state" where
  "s3g_generate_keystream st n = s3g_keystream_loop n (s3g_clock_lfsr (snd (s3g_clock_fsm st)) 0)"

section \<open>The integrity function\<close>

definition s3g_MUL64x :: "u64 \<Rightarrow> u64 \<Rightarrow> u64" where
  "s3g_MUL64x V c = (if V AND 0x8000000000000000 \<noteq> 0 then push_bit 1 V XOR c else push_bit 1 V)"

fun s3g_MUL64xPOW :: "u64 \<Rightarrow> nat \<Rightarrow> u64 \<Rightarrow> u64" where
  "s3g_MUL64xPOW V 0 c = V"
| "s3g_MUL64xPOW V (Suc i) c = s3g_MUL64x (s3g_MUL64xPOW V i c) c"

definition s3g_MUL64 :: "u64 \<Rightarrow> u64 \<Rightarrow> u64 \<Rightarrow> u64" where
  "s3g_MUL64 V P c =
    fold (\<lambda>i result. if drop_bit i P AND 1 \<noteq> 0 then result XOR s3g_MUL64xPOW V i c else result) [0..<64] 0"

definition mask8bit :: "nat \<Rightarrow> byte" where
  "mask8bit n = 0xff XOR (push_bit (8 - n) 1 - 1)"

text \<open>The eight bytes of one 64-bit block, the first the most significant.\<close>

definition s3g_block64 :: "bytes \<Rightarrow> nat \<Rightarrow> u64" where
  "s3g_block64 dat off = fold (\<lambda>j v. v OR push_bit (56 - 8 * j) (ucast (dat ! (off + j)))) [0..<8] 0"

text \<open>The loop over the remaining bits of the last block: \<open>i\<close> is the byte, \<open>rem\<close> the bits left.\<close>

function s3g_last_block :: "bytes \<Rightarrow> nat \<Rightarrow> nat \<Rightarrow> nat \<Rightarrow> u64 \<Rightarrow> u64" where
  "s3g_last_block dat off rem i m =
    (if rem > 7 then s3g_last_block dat off (rem - 8) (Suc i) (m OR push_bit (8 * (7 - i)) (ucast (dat ! (off + i))))
     else if rem > 0 then m OR push_bit (8 * (7 - i)) (ucast (dat ! (off + i) AND mask8bit rem))
     else m)"
  by pat_completeness auto
termination
  by (relation "measure (\<lambda>(dat, off, rem, i, m). rem)") auto

declare s3g_last_block.simps [simp del]

definition s3g_eval :: "u64 \<Rightarrow> u64 list \<Rightarrow> u64" where
  "s3g_eval P blocks = fold (\<lambda>M EVAL. s3g_MUL64 (EVAL XOR M) P 0x1b) blocks 0"

text \<open>
  \<open>s3g_f9\<close>. The keystream words \<open>z\<close> are the five words after initialisation. A message of no bits makes the
  bound \<open>D - 2\<close> of the block loop wrap around and the loop read past the data: no result there.
\<close>

definition s3g_f9 :: "bytes \<Rightarrow> u32 \<Rightarrow> u32 \<Rightarrow> u32 \<Rightarrow> bytes \<Rightarrow> nat \<Rightarrow> bytes option" where
  "s3g_f9 key count fresh dir dat len =
    (if len = 0 then None
     else
       let K = map (\<lambda>j. let i = 3 - j in
                 push_bit 24 (ucast (key ! (4 * i))) XOR push_bit 16 (ucast (key ! (4 * i + 1))) XOR
                 push_bit 8 (ucast (key ! (4 * i + 2))) XOR ucast (key ! (4 * i + 3))) [0..<4];
           IV = [fresh XOR push_bit 15 dir, count XOR push_bit 31 dir, fresh, count];
           z = fst (s3g_generate_keystream (s3g_initialize K IV) 5);
           P = push_bit 32 (ucast (z ! 0)) OR ucast (z ! 1);
           Q = push_bit 32 (ucast (z ! 2)) OR ucast (z ! 3);
           D = (if len mod 64 = 0 then len div 64 + 1 else len div 64 + 2);
           blocks = map (\<lambda>i. s3g_block64 dat (8 * i)) [0..<D - 2];
           rem = (if len mod 64 = 0 then 64 else len mod 64);
           M = s3g_last_block dat (8 * (D - 2)) rem 0 0;
           EVAL = s3g_eval P (blocks @ [M]);
           EVAL = s3g_MUL64 (EVAL XOR word_of_nat len) Q 0x1b
       in Some (map (\<lambda>i. ucast (drop_bit (56 - i * 8) EVAL) XOR ucast (drop_bit (24 - i * 8) (z ! 4))) [0..<4]))"

section \<open>Arithmetic in characteristic two\<close>

lemma and_bit_iff: "w AND 2 ^ n \<noteq> 0 \<longleftrightarrow> bit w n" for w :: "'a::len word"
  by (simp add: and_exp_eq_0_iff_not_bit)

lemma drop_bit_and_1: "drop_bit i w AND 1 \<noteq> 0 \<longleftrightarrow> bit w i" for w :: "'a::len word"
  by (simp add: bit_iff_odd_drop_bit and_one_eq odd_iff_mod_2_eq_one)

lemma mul_x_bit: "s3g_mul_x v c = (if bit v 7 then push_bit 1 v XOR c else push_bit 1 v)"
  using and_bit_iff [of v 7] by (simp add: s3g_mul_x_def)

lemma MUL64x_bit: "s3g_MUL64x v c = (if bit v 63 then push_bit 1 v XOR c else push_bit 1 v)"
  using and_bit_iff [of v 63] by (simp add: s3g_MUL64x_def)

lemma mul_x_xor: "s3g_mul_x (a XOR b) c = s3g_mul_x a c XOR s3g_mul_x b c"
  by (auto simp: mul_x_bit bit_xor_iff push_bit_xor ac_simps xor.assoc xor_self_eq)

lemma MUL64x_xor: "s3g_MUL64x (a XOR b) c = s3g_MUL64x a c XOR s3g_MUL64x b c"
  by (auto simp: MUL64x_bit bit_xor_iff push_bit_xor ac_simps)

lemma MUL64x_0 [simp]: "s3g_MUL64x 0 c = 0"
  by (simp add: MUL64x_bit)

lemma mul_x_pow_xor: "s3g_mul_x_pow (a XOR b) i c = s3g_mul_x_pow a i c XOR s3g_mul_x_pow b i c"
  by (induction i) (simp_all add: mul_x_xor)

lemma MUL64xPOW_xor: "s3g_MUL64xPOW (a XOR b) i c = s3g_MUL64xPOW a i c XOR s3g_MUL64xPOW b i c"
  by (induction i) (simp_all add: MUL64x_xor)

lemma MUL64xPOW_0 [simp]: "s3g_MUL64xPOW 0 i c = 0"
  by (induction i) simp_all

lemma MUL64xPOW_add: "s3g_MUL64xPOW (s3g_MUL64xPOW a i c) j c = s3g_MUL64xPOW a (i + j) c"
  by (induction j) simp_all

lemma MUL64xPOW_MUL64x: "s3g_MUL64xPOW (s3g_MUL64x a c) i c = s3g_MUL64x (s3g_MUL64xPOW a i c) c"
  using MUL64xPOW_add [of a 1 c i] by simp

text \<open>The product as an exclusive or over the bits of \<open>P\<close>.\<close>

primrec mul_sum :: "u64 \<Rightarrow> u64 \<Rightarrow> u64 \<Rightarrow> nat list \<Rightarrow> u64" where
  "mul_sum V P c [] = 0"
| "mul_sum V P c (i # is) = (if bit P i then s3g_MUL64xPOW V i c else 0) XOR mul_sum V P c is"

lemma MUL64_mul_sum: "s3g_MUL64 V P c = mul_sum V P c [0..<64]"
proof -
  have "fold (\<lambda>i result. if bit P i then result XOR s3g_MUL64xPOW V i c else result) is r =
      r XOR mul_sum V P c is" for "is" r
    by (induction "is" arbitrary: r) (auto simp: ac_simps)
  then show ?thesis unfolding s3g_MUL64_def drop_bit_and_1 by simp
qed

lemma mul_sum_xor_left: "mul_sum (a XOR b) P c is = mul_sum a P c is XOR mul_sum b P c is"
  by (induction "is") (auto simp: MUL64xPOW_xor ac_simps)

lemma mul_sum_xor_right: "mul_sum V (p XOR q) c is = mul_sum V p c is XOR mul_sum V q c is"
  by (induction "is") (auto simp: bit_xor_iff ac_simps)

lemma mul_sum_MUL64x: "mul_sum (s3g_MUL64x a c) P c is = s3g_MUL64x (mul_sum a P c is) c"
  by (induction "is") (auto simp: MUL64x_xor MUL64xPOW_MUL64x)


lemma MUL64_xor: "s3g_MUL64 (a XOR b) P c = s3g_MUL64 a P c XOR s3g_MUL64 b P c"
  by (simp add: MUL64_mul_sum mul_sum_xor_left)

lemma MUL64_0 [simp]: "s3g_MUL64 0 P c = 0"
  using MUL64_xor [of 0 0 P c] by simp

lemma eval_acc: "fold (\<lambda>M e. s3g_MUL64 (e XOR M) P c) ms (a XOR b) =
    fold (\<lambda>M e. s3g_MUL64 (e XOR M) P c) ms a XOR ((\<lambda>v. s3g_MUL64 v P c) ^^ length ms) b"
proof (induction ms arbitrary: a b)
  case (Cons m ms)
  have "s3g_MUL64 ((a XOR b) XOR m) P c = s3g_MUL64 (a XOR m) P c XOR s3g_MUL64 b P c"
    by (simp add: ac_simps flip: MUL64_xor)
  then show ?case using Cons.IH by (simp add: funpow_Suc_right del: funpow.simps)
qed simp

text \<open>The message as a polynomial: each block is multiplied by \<open>P\<close> once for itself and every block behind it.\<close>

primrec eval_poly :: "u64 \<Rightarrow> u64 list \<Rightarrow> u64" where
  "eval_poly P [] = 0"
| "eval_poly P (m # ms) = ((\<lambda>v. s3g_MUL64 v P 0x1b) ^^ Suc (length ms)) m XOR eval_poly P ms"

lemma s3g_eval_poly: "s3g_eval P ms = eval_poly P ms"
proof (induction ms)
  case (Cons m ms)
  have "s3g_eval P (m # ms) = s3g_eval P ms XOR ((\<lambda>v. s3g_MUL64 v P 0x1b) ^^ length ms) (s3g_MUL64 m P 0x1b)"
    using eval_acc [of P "0x1b" ms 0 "s3g_MUL64 m P 0x1b"] by (simp add: s3g_eval_def)
  then show ?case by (simp add: Cons funpow_Suc_right ac_simps del: funpow.simps)
qed (simp add: s3g_eval_def)

lemma s3g_keystream_loop_length: "length (fst (s3g_keystream_loop n st)) = n"
  by (induction n arbitrary: st) (simp_all add: Let_def case_prod_beta)

lemma s3g_keystream_loop_prefix: "fst (s3g_keystream_loop n st) = take n (fst (s3g_keystream_loop (n + m) st))"
  by (induction n arbitrary: st) (simp_all add: Let_def case_prod_beta)

lemma s3g_generate_keystream_length [simp]: "length (fst (s3g_generate_keystream st n)) = n"
  by (simp add: s3g_generate_keystream_def s3g_keystream_loop_length)

section \<open>Properties\<close>

text \<open>\<open>s3g_MUL64\<close> is the product of a ring in which addition is exclusive or: it distributes over
  exclusive or in both factors, 1 and \<open>x\<close> (the number 2) act as they should, and multiplying the first
  factor by \<open>x\<close> multiplies the product by \<open>x\<close>.\<close>

theorem MUL64_bilinear:
  "s3g_MUL64 (a XOR b) P c = s3g_MUL64 a P c XOR s3g_MUL64 b P c \<and>
   s3g_MUL64 a (P XOR Q) c = s3g_MUL64 a P c XOR s3g_MUL64 a Q c \<and>
   s3g_MUL64 a 1 c = a \<and> s3g_MUL64 a 2 c = s3g_MUL64x a c \<and>
   s3g_MUL64 (s3g_MUL64x a c) P c = s3g_MUL64x (s3g_MUL64 a P c) c"
proof -
  have none: "mul_sum a p c is = 0" if "\<forall>i \<in> set is. \<not> bit p i" for p "is"
    using that by (induction "is") auto
  have "mul_sum a 1 c [0..<64] = a"
    using none [of "[1..<64]" 1] by (simp add: upt_conv_Cons [of 0 64] bit_1_iff)
  moreover have "mul_sum a 2 c [0..<64] = s3g_MUL64x a c"
  proof -
    have b: "bit (2 :: u64) i \<longleftrightarrow> i = 1" for i
      using bit_exp_iff [of 1 i, where 'a = u64] by auto
    have "[0..<64] = 0 # 1 # [2..<64]" by (simp add: upt_conv_Cons)
    then show ?thesis using none [of "[2..<64]" 2] by (simp add: b)
  qed
  ultimately show ?thesis
    by (simp add: MUL64_mul_sum mul_sum_xor_left mul_sum_xor_right mul_sum_MUL64x)
qed

text \<open>The block loop of \<open>s3g_f9\<close> evaluates a polynomial: the value it leaves in \<open>EVAL\<close> is the exclusive
  or of every block times the power of \<open>P\<close> its position asks for (Horner's rule over \<open>GF(2)\<close>).\<close>

theorem s3g_eval_horner: "s3g_eval P ms = eval_poly P ms"
  by (rule s3g_eval_poly)

end
