(* ===== verification/Security_Engine.thy ===== *)
theory Security_Engine
  imports Zuc Snow3g
begin

text \<open>
  The security layer PDCP calls (\<open>lib/security/\<close>, \<open>include/srsran/security/\<close>): algorithms and AS
  configurations, the ciphering functions NEA1 to NEA3, the integrity functions NIA0 to NIA3, the engines
  that wrap them and \<open>security_engine_impl\<close>, which combines one of each; algorithm selection and key
  derivation.

  The mbedtls library is the argument \<open>ssl_lib\<close>. A result \<open>None\<close> is a run that does not return: a failed
  \<open>srsran_assert\<close> or an access outside a buffer.
\<close>

section \<open>Algorithms and configurations\<close>

datatype ciphering_algorithm = nea0 | nea1 | nea2 | nea3

datatype integrity_algorithm = nia0 | nia1 | nia2 | nia3

fun ciphering_to_number :: "ciphering_algorithm \<Rightarrow> nat" where
  "ciphering_to_number nea0 = 0"
| "ciphering_to_number nea1 = 1"
| "ciphering_to_number nea2 = 2"
| "ciphering_to_number nea3 = 3"

definition ciphering_algorithm_from_number :: "nat \<Rightarrow> ciphering_algorithm option" where
  "ciphering_algorithm_from_number n = (if n < 4 then Some ([nea0, nea1, nea2, nea3] ! n) else None)"

fun integrity_to_number :: "integrity_algorithm \<Rightarrow> nat" where
  "integrity_to_number nia0 = 0"
| "integrity_to_number nia1 = 1"
| "integrity_to_number nia2 = 2"
| "integrity_to_number nia3 = 3"

definition integrity_algorithm_from_number :: "nat \<Rightarrow> integrity_algorithm option" where
  "integrity_algorithm_from_number n = (if n < 4 then Some ([nia0, nia1, nia2, nia3] ! n) else None)"

datatype security_direction = sec_uplink | sec_downlink

fun direction_to_number :: "security_direction \<Rightarrow> byte" where
  "direction_to_number sec_uplink = 0"
| "direction_to_number sec_downlink = 1"

datatype integrity_enabled = integ_off | integ_on

datatype ciphering_enabled = ciph_off | ciph_on

datatype sec_domain = dom_rrc | dom_up

definition sec_mac_len :: nat where
  "sec_mac_len = 4"

definition sec_max_pdu_size :: nat where
  "sec_max_pdu_size = 9100"

record sec_128_as_config =
  s128_domain :: sec_domain
  k_128_int :: "bytes option"
  k_128_enc :: bytes
  s128_integ_algo :: "integrity_algorithm option"
  s128_cipher_algo :: ciphering_algorithm

record sec_as_config =
  as_domain :: sec_domain
  k_int :: "bytes option"
  k_enc :: bytes
  as_integ_algo :: "integrity_algorithm option"
  as_cipher_algo :: ciphering_algorithm

datatype security_error = buffer_failure | integrity_failure | ciphering_failure

type_synonym security_result = "(security_error + bytes) \<times> u32"

text \<open>
  What the code calls of mbedtls: the AES-128 block cipher; CTR mode, which combines its input by
  exclusive or with a stream determined by key and nonce (\<open>ctr_ok\<close> is a return code of 0); CMAC, present when the
  library is built with \<open>MBEDTLS_CMAC_C\<close>; HMAC-SHA-256.
\<close>

record ssl_lib =
  aes_ecb :: "bytes \<Rightarrow> bytes \<Rightarrow> bytes"
  ctr_stream :: "bytes \<Rightarrow> bytes \<Rightarrow> nat \<Rightarrow> byte"
  ctr_ok :: "bytes \<Rightarrow> bytes \<Rightarrow> nat \<Rightarrow> bool"
  aes_cmac :: "(bytes \<Rightarrow> bytes \<Rightarrow> bytes option) option"
  hmac_sha256 :: "bytes \<Rightarrow> bytes \<Rightarrow> bytes"

text \<open>The four bytes of a word, most significant first, as \<open>(count >> 24) & 0xff, \<dots>, count & 0xff\<close>.\<close>

definition be32 :: "u32 \<Rightarrow> bytes" where
  "be32 w = map (\<lambda>i. ucast (drop_bit (24 - 8 * i) w AND 0xff)) [0..<4]"

section \<open>Ciphering\<close>

definition zero_tailing_bits :: "byte \<Rightarrow> nat \<Rightarrow> byte" where
  "zero_tailing_bits tail_byte length_bits =
    (let bits = (8 - (length_bits mod 256) mod 8) mod 8 in tail_byte AND push_bit bits 0xff)"

definition ks_byte :: "u32 list \<Rightarrow> nat \<Rightarrow> byte" where
  "ks_byte ks i = ucast (drop_bit ((3 - i mod 4) * 8) (ks ! (i div 4)) AND 0xff)"

text \<open>The loops of NEA1 and NEA3 over whole keystream words, and over the bytes of the last one.\<close>

definition xor_words :: "u32 list \<Rightarrow> nat \<Rightarrow> bytes \<Rightarrow> bytes" where
  "xor_words ks n msg =
    fold (\<lambda>i m.
      let m = m[4 * i := m ! (4 * i) XOR ucast (drop_bit 24 (ks ! i) AND 0xff)];
          m = m[4 * i + 1 := m ! (4 * i + 1) XOR ucast (drop_bit 16 (ks ! i) AND 0xff)];
          m = m[4 * i + 2 := m ! (4 * i + 2) XOR ucast (drop_bit 8 (ks ! i) AND 0xff)]
      in m[4 * i + 3 := m ! (4 * i + 3) XOR ucast (ks ! i AND 0xff)]) [0..<n] msg"

definition xor_bytes :: "u32 list \<Rightarrow> nat \<Rightarrow> nat \<Rightarrow> bytes \<Rightarrow> bytes" where
  "xor_bytes ks a b msg = fold (\<lambda>i m. m[i := m ! i XOR ks_byte ks i]) [a..<b] msg"

definition security_nea1 ::
  "bytes \<Rightarrow> u32 \<Rightarrow> byte \<Rightarrow> security_direction \<Rightarrow> bytes \<Rightarrow> nat \<Rightarrow> bytes option" where
  "security_nea1 key count bearer direction msg msg_len =
    (let n8 = (msg_len + 7) div 8; n32 = (msg_len + 31) div 32 in
     if n8 > length msg then Some msg
     else if n32 = 0 then None
     else
       let k = map (\<lambda>j. let i = 3 - j in
                 push_bit 24 (ucast (key ! (4 * i))) OR push_bit 16 (ucast (key ! (4 * i + 1))) OR
                 push_bit 8 (ucast (key ! (4 * i + 2))) OR ucast (key ! (4 * i + 3))) [0..<4];
           b = push_bit 27 (ucast bearer AND 0x1f) OR push_bit 26 (ucast (direction_to_number direction) AND 1);
           iv = [b, count, b, count];
           ks = fst (s3g_generate_keystream (s3g_initialize k iv) n32);
           m = xor_bytes ks ((n32 - 1) * 4) n8 (xor_words ks (n32 - 1) msg)
       in Some (m[n8 - 1 := zero_tailing_bits (m ! (n8 - 1)) msg_len]))"

definition security_nea3 ::
  "bytes \<Rightarrow> u32 \<Rightarrow> byte \<Rightarrow> security_direction \<Rightarrow> bytes \<Rightarrow> nat \<Rightarrow> bytes option" where
  "security_nea3 key count bearer direction msg msg_len =
    (let n8 = (msg_len + 7) div 8; n32 = (msg_len + 31) div 32 in
     if n8 > length msg then Some msg
     else if n32 = 0 then None
     else
       let h = be32 count @
               [push_bit 3 (bearer AND 0x1f) OR push_bit 2 (direction_to_number direction AND 1), 0, 0, 0];
           iv = h @ h;
           ks = fst (zuc_generate_keystream (zuc_initialize key iv) n32);
           m = xor_bytes ks ((n32 - 1) * 4) n8 (xor_words ks (n32 - 1) msg)
       in Some (m[length msg - 1 := zero_tailing_bits (m ! (length msg - 1)) msg_len]))"

text \<open>The three ciphering engines, each with its key, bearer and direction.\<close>

datatype ciphering_engine =
    Ciph_nea1 bytes byte security_direction
  | Ciph_nea2 bytes byte security_direction
  | Ciph_nea3 bytes byte security_direction

definition nea2_nonce :: "u32 \<Rightarrow> byte \<Rightarrow> security_direction \<Rightarrow> bytes" where
  "nea2_nonce count bearer direction =
    be32 count @ [push_bit 3 (bearer AND 0x1f) OR push_bit 2 (direction_to_number direction AND 1)] @ replicate 11 0"

text \<open>\<open>apply_ciphering\<close> works on the view from \<open>offset\<close> to the end of the buffer.\<close>

definition apply_ciphering ::
  "ssl_lib \<Rightarrow> ciphering_engine \<Rightarrow> bytes \<Rightarrow> nat \<Rightarrow> u32 \<Rightarrow> security_result option" where
  "apply_ciphering lib e buf offset count =
    (let hdr = take offset buf; msg = drop offset buf in
     if offset > length buf then None
     else case e of
       Ciph_nea1 key bearer direction \<Rightarrow>
         map_option (\<lambda>m. (Inr (hdr @ m), count)) (security_nea1 key count bearer direction msg (length msg * 8))
     | Ciph_nea2 key bearer direction \<Rightarrow>
         (let nonce = nea2_nonce count bearer direction in
          if \<not> ctr_ok lib key nonce (length msg) then Some (Inl ciphering_failure, count)
          else Some (Inr (hdr @ map (\<lambda>i. msg ! i XOR ctr_stream lib key nonce i) [0..<length msg]), count))
     | Ciph_nea3 key bearer direction \<Rightarrow>
         map_option (\<lambda>m. (Inr (hdr @ m), count)) (security_nea3 key count bearer direction msg (length msg * 8)))"

section \<open>Integrity\<close>

definition security_nia1 :: "bytes \<Rightarrow> u32 \<Rightarrow> byte \<Rightarrow> security_direction \<Rightarrow> bytes \<Rightarrow> nat \<Rightarrow> bytes option" where
  "security_nia1 key count bearer direction msg msg_len =
    (if (msg_len + 7) div 8 \<le> length msg
     then s3g_f9 key count (push_bit 27 (ucast bearer)) (ucast (direction_to_number direction)) msg msg_len
     else Some [0, 0, 0, 0])"

definition GET_WORD :: "u32 list \<Rightarrow> nat \<Rightarrow> u32" where
  "GET_WORD DATA i =
    (let ti = i mod 32 in
     if ti = 0 then DATA ! (i div 32)
     else push_bit ti (DATA ! (i div 32)) OR drop_bit (32 - ti) (DATA ! (i div 32 + 1)))"

definition security_nia3 :: "bytes \<Rightarrow> u32 \<Rightarrow> byte \<Rightarrow> security_direction \<Rightarrow> bytes \<Rightarrow> nat \<Rightarrow> bytes" where
  "security_nia3 key count bearer direction msg msg_len =
    (if (msg_len + 7) div 8 \<le> length msg then
       let c = be32 count;
           b = push_bit 3 bearer AND 0xf8;
           d = push_bit 7 (direction_to_number direction AND 1);
           iv = c @ [b, 0, 0, 0] @ [c ! 0 XOR d, c ! 1, c ! 2, c ! 3] @ [b, 0, 0 XOR d, 0];
           N = msg_len + 64;
           L = (N + 31) div 32;
           ks = fst (zuc_generate_keystream (zuc_initialize key iv) L);
           T = fold (\<lambda>i T. if msg ! (i div 8) AND push_bit (7 - i mod 8) 1 \<noteq> 0 then T XOR GET_WORD ks i else T)
                 [0..<msg_len] 0;
           T = T XOR GET_WORD ks msg_len
       in be32 (T XOR ks ! (L - 1))
     else [0, 0, 0, 0])"

text \<open>\<open>integrity_engine_nia2_non_cmac\<close>: AES-CMAC spelt out over the block cipher.\<close>

definition cmac_subkey :: "bytes \<Rightarrow> bytes" where
  "cmac_subkey l =
    (let k = map (\<lambda>i. push_bit 1 (l ! i) OR (drop_bit 7 (l ! (i + 1)) AND 1)) [0..<15] @ [push_bit 1 (l ! 15)]
     in if l ! 0 AND 0x80 \<noteq> 0 then k[15 := k ! 15 XOR 0x87] else k)"

definition nia2_preamble :: "u32 \<Rightarrow> byte \<Rightarrow> security_direction \<Rightarrow> bytes" where
  "nia2_preamble count bearer direction =
    be32 count @ [push_bit 3 bearer OR push_bit 2 (direction_to_number direction), 0, 0, 0]"

definition nia2_non_cmac_compute_mac ::
  "ssl_lib \<Rightarrow> bytes \<Rightarrow> byte \<Rightarrow> security_direction \<Rightarrow> bytes \<Rightarrow> u32 \<Rightarrow> bytes option" where
  "nia2_non_cmac_compute_mac lib key bearer direction v count =
    (let aes = aes_ecb lib key;
         k1 = cmac_subkey (aes (replicate 16 0));
         k2 = cmac_subkey k1;
         len = length v in
     if len + 8 + 16 > sec_max_pdu_size then None
     else
       let msg = nia2_preamble count bearer direction @ v @ replicate 16 0;
           n = (len + 8 + 15) div 16;
           T = fold (\<lambda>i T. aes (map (\<lambda>j. T ! j XOR msg ! (i * 16 + j)) [0..<16])) [0..<n - 1] (replicate 16 0);
           pad_bits = (len * 8 + 64) mod 128;
           T = (if pad_bits = 0
                then aes (map (\<lambda>j. T ! j XOR k1 ! j XOR msg ! ((n - 1) * 16 + j)) [0..<16])
                else let pad = (128 - pad_bits) - 1;
                         at = (n - 1) * 16 + (15 - pad div 8);
                         m = msg[at := msg ! at OR push_bit (pad mod 8) 1]
                     in aes (map (\<lambda>j. T ! j XOR k2 ! j XOR m ! ((n - 1) * 16 + j)) [0..<16]))
       in Some (map (\<lambda>i. T ! i) [0..<4]))"

definition nia2_cmac_compute_mac ::
  "(bytes \<Rightarrow> bytes \<Rightarrow> bytes option) \<Rightarrow> bytes \<Rightarrow> byte \<Rightarrow> security_direction \<Rightarrow> bytes \<Rightarrow> u32 \<Rightarrow> security_error + bytes" where
  "nia2_cmac_compute_mac cmac key bearer direction v count =
    (case cmac key (nia2_preamble count bearer direction @ v) of
       None \<Rightarrow> Inl integrity_failure
     | Some t \<Rightarrow> Inr (map (\<lambda>i. t ! i) [0..<4]))"

text \<open>The integrity engines: the one for NIA2 with or without library support, and the generic one.\<close>

datatype integrity_engine =
    Integ_nia2_cmac "bytes \<Rightarrow> bytes \<Rightarrow> bytes option" bytes byte security_direction
  | Integ_nia2_non_cmac bytes byte security_direction
  | Integ_generic bytes byte security_direction integrity_algorithm

text \<open>\<open>security_nia2\<close> of \<open>integrity.h\<close>, which only the generic engine would call for NIA2.\<close>

definition security_nia2 ::
  "ssl_lib \<Rightarrow> bytes \<Rightarrow> u32 \<Rightarrow> byte \<Rightarrow> security_direction \<Rightarrow> bytes \<Rightarrow> bytes option" where
  "security_nia2 lib key count bearer direction msg =
    (case aes_cmac lib of
       Some cmac \<Rightarrow> (case nia2_cmac_compute_mac cmac key bearer direction msg count of
                       Inr mac \<Rightarrow> Some mac | Inl _ \<Rightarrow> Some [0, 0, 0, 0])
     | None \<Rightarrow> nia2_non_cmac_compute_mac lib key bearer direction msg count)"

definition generic_mac ::
  "ssl_lib \<Rightarrow> bytes \<Rightarrow> byte \<Rightarrow> security_direction \<Rightarrow> integrity_algorithm \<Rightarrow> bytes \<Rightarrow> u32 \<Rightarrow> bytes option" where
  "generic_mac lib key bearer direction algo v count =
    (case algo of
       nia0 \<Rightarrow> Some [0, 0, 0, 0]
     | nia1 \<Rightarrow> security_nia1 key count bearer direction v (length v * 8)
     | nia2 \<Rightarrow> security_nia2 lib key count bearer direction v
     | nia3 \<Rightarrow> Some (security_nia3 key count bearer direction v (length v * 8)))"

definition compute_mac :: "ssl_lib \<Rightarrow> integrity_engine \<Rightarrow> bytes \<Rightarrow> u32 \<Rightarrow> (security_error + bytes) option" where
  "compute_mac lib e v count =
    (case e of
       Integ_nia2_cmac cmac key bearer direction \<Rightarrow> Some (nia2_cmac_compute_mac cmac key bearer direction v count)
     | Integ_nia2_non_cmac key bearer direction \<Rightarrow>
         map_option Inr (nia2_non_cmac_compute_mac lib key bearer direction v count)
     | Integ_generic key bearer direction algo \<Rightarrow>
         map_option Inr (generic_mac lib key bearer direction algo v count))"

text \<open>\<open>append_ok\<close> says whether appending the MAC to the byte buffer finds memory.\<close>

definition protect_integrity ::
  "ssl_lib \<Rightarrow> bool \<Rightarrow> integrity_engine \<Rightarrow> bytes \<Rightarrow> u32 \<Rightarrow> security_result option" where
  "protect_integrity lib append_ok e buf count =
    (case compute_mac lib e buf count of
       None \<Rightarrow> None
     | Some (Inl err) \<Rightarrow> Some (Inl err, count)
     | Some (Inr mac) \<Rightarrow> Some (if \<not> append_ok then Inl buffer_failure else Inr (buf @ mac), count))"

definition verify_integrity :: "ssl_lib \<Rightarrow> integrity_engine \<Rightarrow> bytes \<Rightarrow> u32 \<Rightarrow> security_result option" where
  "verify_integrity lib e buf count =
    (if length buf \<le> sec_mac_len then Some (Inl integrity_failure, count)
     else
       let v = take (length buf - sec_mac_len) buf; m = drop (length buf - sec_mac_len) buf
       in case compute_mac lib e v count of
            None \<Rightarrow> None
          | Some (Inl err) \<Rightarrow> Some (Inl err, count)
          | Some (Inr mac) \<Rightarrow> Some (if mac \<noteq> m then Inl integrity_failure else Inr v, count))"

section \<open>\<open>security_engine_impl\<close>\<close>

record security_engine =
  integ_eng :: "integrity_engine option"
  cipher_eng :: "ciphering_engine option"

text \<open>The constructor; \<open>None\<close> when integrity is enabled without algorithm or key.\<close>

definition security_engine_impl ::
  "ssl_lib \<Rightarrow> sec_128_as_config \<Rightarrow> byte \<Rightarrow> security_direction \<Rightarrow> integrity_enabled \<Rightarrow> ciphering_enabled \<Rightarrow>
   security_engine option" where
  "security_engine_impl lib cfg bearer_id direction integ ciph =
    (let cipher = (if ciph = ciph_on
                   then (case s128_cipher_algo cfg of
                           nea1 \<Rightarrow> Some (Ciph_nea1 (k_128_enc cfg) bearer_id direction)
                         | nea2 \<Rightarrow> Some (Ciph_nea2 (k_128_enc cfg) bearer_id direction)
                         | nea3 \<Rightarrow> Some (Ciph_nea3 (k_128_enc cfg) bearer_id direction)
                         | nea0 \<Rightarrow> None)
                   else None) in
     if integ = integ_on then
       (case (s128_integ_algo cfg, k_128_int cfg) of
          (Some algo, Some key) \<Rightarrow>
            Some \<lparr>integ_eng = Some
                    (if algo = nia2
                     then (case aes_cmac lib of
                             Some cmac \<Rightarrow> Integ_nia2_cmac cmac key bearer_id direction
                           | None \<Rightarrow> Integ_nia2_non_cmac key bearer_id direction)
                     else Integ_generic key bearer_id direction algo),
                  cipher_eng = cipher\<rparr>
        | _ \<Rightarrow> None)
     else Some \<lparr>integ_eng = None, cipher_eng = cipher\<rparr>)"

definition encrypt_and_protect_integrity ::
  "ssl_lib \<Rightarrow> bool \<Rightarrow> security_engine \<Rightarrow> bytes \<Rightarrow> nat \<Rightarrow> u32 \<Rightarrow> security_result option" where
  "encrypt_and_protect_integrity lib append_ok eng buf offset count =
    (case (case integ_eng eng of
             None \<Rightarrow> Some (Inr buf, count)
           | Some e \<Rightarrow> protect_integrity lib append_ok e buf count) of
       None \<Rightarrow> None
     | Some (Inl err, c) \<Rightarrow> Some (Inl err, c)
     | Some (Inr b, c) \<Rightarrow>
         (case cipher_eng eng of
            None \<Rightarrow> Some (Inr b, c)
          | Some e \<Rightarrow> apply_ciphering lib e b offset c))"

definition decrypt_and_verify_integrity ::
  "ssl_lib \<Rightarrow> security_engine \<Rightarrow> bytes \<Rightarrow> nat \<Rightarrow> u32 \<Rightarrow> security_result option" where
  "decrypt_and_verify_integrity lib eng buf offset count =
    (case (case cipher_eng eng of
             None \<Rightarrow> Some (Inr buf, count)
           | Some e \<Rightarrow> apply_ciphering lib e buf offset count) of
       None \<Rightarrow> None
     | Some (Inl err, c) \<Rightarrow> Some (Inl err, c)
     | Some (Inr b, c) \<Rightarrow>
         (case integ_eng eng of
            None \<Rightarrow> Some (Inr b, c)
          | Some e \<Rightarrow> verify_integrity lib e b c))"

section \<open>Algorithm selection and key derivation\<close>

record sec_selected_algos =
  algos_selected :: bool
  sel_integ_algo :: integrity_algorithm
  sel_cipher_algo :: ciphering_algorithm

record sec_as_keys =
  k_rrc_int :: bytes
  k_rrc_enc :: bytes
  k_up_int :: bytes
  k_up_enc :: bytes

record security_context =
  ctx_k :: bytes
  supported_int_algos :: "bool list"
  supported_enc_algos :: "bool list"
  sel_algos :: sec_selected_algos
  as_keys :: sec_as_keys

text \<open>
  The two loops of \<open>select_algorithms\<close>: the integrity loop stops without a result at NIA0, the ciphering
  loop accepts NEA0; index \<open>algo_id - 1\<close> of the support table belongs to algorithm \<open>algo_id\<close>.
\<close>

fun select_integrity :: "bool list \<Rightarrow> integrity_algorithm list \<Rightarrow> integrity_algorithm option" where
  "select_integrity supported [] = None"
| "select_integrity supported (a # as) =
    (if integrity_to_number a = 0 then None
     else if supported ! (integrity_to_number a - 1) then integrity_algorithm_from_number (integrity_to_number a)
     else select_integrity supported as)"

fun select_ciphering :: "bool list \<Rightarrow> ciphering_algorithm list \<Rightarrow> ciphering_algorithm option" where
  "select_ciphering supported [] = None"
| "select_ciphering supported (a # as) =
    (if ciphering_to_number a = 0 then Some nea0
     else if supported ! (ciphering_to_number a - 1) then ciphering_algorithm_from_number (ciphering_to_number a)
     else select_ciphering supported as)"

definition select_algorithms ::
  "integrity_algorithm list \<Rightarrow> ciphering_algorithm list \<Rightarrow> security_context \<Rightarrow> bool \<times> security_context" where
  "select_algorithms pref_inte_list pref_ciph_list ctx =
    (case select_integrity (supported_int_algos ctx) pref_inte_list of
       None \<Rightarrow> (False, ctx)
     | Some i \<Rightarrow>
         (let ctx1 = ctx\<lparr>sel_algos := (sel_algos ctx)\<lparr>sel_integ_algo := i\<rparr>\<rparr> in
          case select_ciphering (supported_enc_algos ctx1) pref_ciph_list of
            None \<Rightarrow> (False, ctx1)
          | Some c \<Rightarrow>
              (True, ctx1\<lparr>sel_algos := (sel_algos ctx1)\<lparr>sel_cipher_algo := c, algos_selected := True\<rparr>\<rparr>)))"

text \<open>\<open>generic_kdf\<close> feeds HMAC-SHA-256 with \<open>FC || P0 || L0 || P1 || L1\<close>, lengths in network byte order.\<close>

definition be16 :: "nat \<Rightarrow> bytes" where
  "be16 n = [word_of_nat (n div 256), word_of_nat n]"

definition kdf_input :: "byte \<Rightarrow> bytes \<Rightarrow> bytes \<Rightarrow> bytes" where
  "kdf_input fc p0 p1 = [fc] @ p0 @ be16 (length p0) @ p1 @ be16 (length p1)"

definition generic_kdf :: "ssl_lib \<Rightarrow> bytes \<Rightarrow> byte \<Rightarrow> bytes \<Rightarrow> bytes \<Rightarrow> bytes" where
  "generic_kdf lib key_in fc p0 p1 = hmac_sha256 lib key_in (kdf_input fc p0 p1)"

definition generate_k_rrc ::
  "ssl_lib \<Rightarrow> bytes \<Rightarrow> ciphering_algorithm \<Rightarrow> integrity_algorithm \<Rightarrow> bytes \<times> bytes" where
  "generate_k_rrc lib k_gnb enc_alg int_alg =
    (generic_kdf lib k_gnb 0x69 [0x03] [word_of_nat (ciphering_to_number enc_alg)],
     generic_kdf lib k_gnb 0x69 [0x04] [word_of_nat (integrity_to_number int_alg)])"

definition generate_k_up ::
  "ssl_lib \<Rightarrow> bytes \<Rightarrow> ciphering_algorithm \<Rightarrow> integrity_algorithm \<Rightarrow> bytes \<times> bytes" where
  "generate_k_up lib k_gnb enc_alg int_alg =
    (generic_kdf lib k_gnb 0x69 [0x05] [word_of_nat (ciphering_to_number enc_alg)],
     generic_kdf lib k_gnb 0x69 [0x06] [word_of_nat (integrity_to_number int_alg)])"

text \<open>\<open>None\<close> is \<open>report_error\<close>, for a frequency number of more than three bytes.\<close>

definition generate_k_ng_ran_star :: "ssl_lib \<Rightarrow> bytes \<Rightarrow> u16 \<Rightarrow> u32 \<Rightarrow> bytes option" where
  "generate_k_ng_ran_star lib k target_pci target_ssb_arfcn =
    (let pci = [ucast (drop_bit 8 target_pci AND 0xff), ucast (target_pci AND 0xff)];
         lo = ucast (target_ssb_arfcn AND 0xff);
         mid = ucast (drop_bit 8 target_ssb_arfcn AND 0xff);
         hi = ucast (drop_bit 16 target_ssb_arfcn AND 0xff) in
     if unat target_ssb_arfcn < 2 ^ 16 then Some (generic_kdf lib k 0x70 pci [mid, lo])
     else if unat target_ssb_arfcn < 2 ^ 24 then Some (generic_kdf lib k 0x70 pci [hi, mid, lo])
     else None)"

definition generate_as_keys :: "ssl_lib \<Rightarrow> security_context \<Rightarrow> security_context" where
  "generate_as_keys lib ctx =
    (let s = sel_algos ctx;
         (rrc_enc, rrc_int) = generate_k_rrc lib (ctx_k ctx) (sel_cipher_algo s) (sel_integ_algo s);
         (up_enc, up_int) = generate_k_up lib (ctx_k ctx) (sel_cipher_algo s) (sel_integ_algo s)
     in ctx\<lparr>as_keys := \<lparr>k_rrc_int = rrc_int, k_rrc_enc = rrc_enc, k_up_int = up_int, k_up_enc = up_enc\<rparr>\<rparr>)"

definition horizontal_key_derivation :: "ssl_lib \<Rightarrow> u16 \<Rightarrow> u32 \<Rightarrow> security_context \<Rightarrow> security_context option" where
  "horizontal_key_derivation lib target_pci target_ssb_arfcn ctx =
    map_option (\<lambda>k. generate_as_keys lib (ctx\<lparr>ctx_k := k\<rparr>))
      (generate_k_ng_ran_star lib (ctx_k ctx) target_pci target_ssb_arfcn)"

definition get_as_config :: "security_context \<Rightarrow> sec_domain \<Rightarrow> sec_as_config" where
  "get_as_config ctx domain =
    \<lparr>as_domain = domain,
     k_int = Some (case domain of dom_rrc \<Rightarrow> k_rrc_int (as_keys ctx) | dom_up \<Rightarrow> k_up_int (as_keys ctx)),
     k_enc = (case domain of dom_rrc \<Rightarrow> k_rrc_enc (as_keys ctx) | dom_up \<Rightarrow> k_up_enc (as_keys ctx)),
     as_integ_algo = Some (sel_integ_algo (sel_algos ctx)),
     as_cipher_algo = sel_cipher_algo (sel_algos ctx)\<rparr>"

definition truncate_key :: "bytes \<Rightarrow> bytes" where
  "truncate_key key_in = drop (32 - 16) key_in"

definition truncate_config :: "sec_as_config \<Rightarrow> sec_128_as_config" where
  "truncate_config cfg_in =
    \<lparr>s128_domain = as_domain cfg_in, k_128_int = map_option truncate_key (k_int cfg_in),
     k_128_enc = truncate_key (k_enc cfg_in), s128_integ_algo = as_integ_algo cfg_in,
     s128_cipher_algo = as_cipher_algo cfg_in\<rparr>"

definition get_128_as_config :: "security_context \<Rightarrow> sec_domain \<Rightarrow> sec_128_as_config" where
  "get_128_as_config ctx domain = truncate_config (get_as_config ctx domain)"

end
