(* ===== verification/Security_Laws.thy ===== *)
theory Security_Laws
  imports Security_Engine
begin

text \<open>
  What the security layer guarantees: the ciphering functions are exclusive or with a keystream, the
  NIA2 engine computes AES-CMAC, the engine that decrypts undoes the engine that encrypts. The locale
  \<open>security_engine_laws\<close> is the interface PDCP relies on, interpreted here on \<open>security_engine_impl\<close>.
\<close>

section \<open>Ciphering is exclusive or with a keystream\<close>

definition xor_stream :: "(nat \<Rightarrow> byte) \<Rightarrow> bytes \<Rightarrow> bytes" where
  "xor_stream g msg = map (\<lambda>i. msg ! i XOR g i) [0..<length msg]"

lemma length_xor_stream [simp]: "length (xor_stream g msg) = length msg"
  by (simp add: xor_stream_def)

lemma xor_stream_twice [simp]: "xor_stream g (xor_stream g msg) = msg"
  by (rule nth_equalityI) (simp_all add: xor_stream_def xor.assoc)

lemma xor_stream_cong: "(\<And>i. i < length msg \<Longrightarrow> g i = h i) \<Longrightarrow> xor_stream g msg = xor_stream h msg"
  by (simp add: xor_stream_def)

lemma xor_bytes_map:
  "b \<le> length msg \<Longrightarrow> xor_bytes ks a b msg =
    map (\<lambda>i. if a \<le> i \<and> i < b then msg ! i XOR ks_byte ks i else msg ! i) [0..<length msg]"
proof (induction b)
  case 0
  then show ?case by (simp add: xor_bytes_def map_nth)
next
  case (Suc b)
  show ?case
  proof (cases "a \<le> b")
    case True
    have eq: "xor_bytes ks a (Suc b) msg = (let m = xor_bytes ks a b msg in m[b := m ! b XOR ks_byte ks b])"
      using True by (simp add: xor_bytes_def Let_def)
    show ?thesis
      unfolding eq using Suc True by (auto simp: Let_def intro!: nth_equalityI simp: nth_list_update less_Suc_eq)
  next
    case False
    then show ?thesis by (auto simp: xor_bytes_def intro!: nth_equalityI)
  qed
qed

lemma ks_byte_word:
  assumes "j < 4"
  shows "ks_byte ks (4 * i + j) = ucast (drop_bit ((3 - j) * 8) (ks ! i) AND 0xff)"
proof -
  have "(4 * i + j) mod 4 = j" "(4 * i + j) div 4 = i" using assms by simp_all
  then show ?thesis by (simp only: ks_byte_def)
qed

lemma upt_four: "[4 * n..<4 * Suc n] = [4 * n, 4 * n + 1, 4 * n + 2, 4 * n + 3]"
proof -
  have "[0..<4] = [0, 1, 2, 3 :: nat]" by (simp add: upt_conv_Cons)
  then have "map (\<lambda>i. i + 4 * n) [0..<4] = [4 * n, 4 * n + 1, 4 * n + 2, 4 * n + 3]"
    by (simp add: ac_simps)
  then show ?thesis by (simp add: map_add_upt)
qed

lemma xor_words_bytes: "xor_words ks n msg = xor_bytes ks 0 (4 * n) msg"
proof (induction n)
  case 0
  then show ?case by (simp add: xor_words_def xor_bytes_def)
next
  case (Suc n)
  have split: "[0..<4 * Suc n] = [0..<4 * n] @ [4 * n, 4 * n + 1, 4 * n + 2, 4 * n + 3]"
    unfolding upt_four [symmetric] using upt_add_eq_append [of 0 "4 * n" 4] by (simp add: ac_simps)
  have "xor_bytes ks 0 (4 * Suc n) msg =
    fold (\<lambda>i m. m[i := m ! i XOR ks_byte ks i]) [4 * n, 4 * n + 1, 4 * n + 2, 4 * n + 3] (xor_bytes ks 0 (4 * n) msg)"
    unfolding xor_bytes_def split by simp
  moreover have "ks_byte ks (4 * n) = ucast (drop_bit 24 (ks ! n) AND 0xff)"
    "ks_byte ks (4 * n + 1) = ucast (drop_bit 16 (ks ! n) AND 0xff)"
    "ks_byte ks (4 * n + 2) = ucast (drop_bit 8 (ks ! n) AND 0xff)"
    "ks_byte ks (4 * n + 3) = ucast (ks ! n AND 0xff)"
    using ks_byte_word [of 0 ks n] ks_byte_word [of 1 ks n] ks_byte_word [of 2 ks n] ks_byte_word [of 3 ks n]
    by simp_all
  ultimately have "xor_bytes ks 0 (4 * Suc n) msg =
    (let m = xor_bytes ks 0 (4 * n) msg;
         m = m[4 * n := m ! (4 * n) XOR ucast (drop_bit 24 (ks ! n) AND 0xff)];
         m = m[4 * n + 1 := m ! (4 * n + 1) XOR ucast (drop_bit 16 (ks ! n) AND 0xff)];
         m = m[4 * n + 2 := m ! (4 * n + 2) XOR ucast (drop_bit 8 (ks ! n) AND 0xff)]
     in m[4 * n + 3 := m ! (4 * n + 3) XOR ucast (ks ! n AND 0xff)])"
    by (simp only: fold_simps comp_apply id_apply Let_def)
  moreover have "xor_words ks (Suc n) msg =
    (let m = xor_words ks n msg;
         m = m[4 * n := m ! (4 * n) XOR ucast (drop_bit 24 (ks ! n) AND 0xff)];
         m = m[4 * n + 1 := m ! (4 * n + 1) XOR ucast (drop_bit 16 (ks ! n) AND 0xff)];
         m = m[4 * n + 2 := m ! (4 * n + 2) XOR ucast (drop_bit 8 (ks ! n) AND 0xff)]
     in m[4 * n + 3 := m ! (4 * n + 3) XOR ucast (ks ! n AND 0xff)])"
    by (simp only: xor_words_def upt_Suc fold_append fold_simps comp_apply id_apply Let_def if_True zero_le)
  ultimately show ?case by (simp only: Suc.IH)
qed

lemma zero_tailing_bytes [simp]: "zero_tailing_bits b (n * 8) = b"
proof -
  have "n * 8 mod 256 mod 8 = 0" by (simp add: mod_mod_cancel)
  then have "zero_tailing_bits b (n * 8) = b AND 0xff" by (simp add: zero_tailing_bits_def)
  also have "\<dots> = b" using and_low_mask [of b 8] take_bit_length_eq [of b] by simp
  finally show ?thesis .
qed


lemma xor_loops:
  assumes "msg \<noteq> []" "n32 = (length msg * 8 + 31) div 32"
  shows "xor_bytes ks ((n32 - 1) * 4) (length msg) (xor_words ks (n32 - 1) msg) = xor_stream (ks_byte ks) msg"
proof -
  have le: "(n32 - 1) * 4 \<le> length msg" using assms(2) by linarith
  have "xor_bytes ks ((n32 - 1) * 4) (length msg) (xor_words ks (n32 - 1) msg) =
      xor_bytes ks 0 (length msg) msg"
  proof -
    have "[0..<length msg] = [0..<(n32 - 1) * 4] @ [(n32 - 1) * 4..<length msg]"
      using upt_add_eq_append [of 0 "(n32 - 1) * 4" "length msg - (n32 - 1) * 4"] le by simp
    then have "fold f [0..<length msg] m = fold f [(n32 - 1) * 4..<length msg] (fold f [0..<(n32 - 1) * 4] m)"
      for f :: "nat \<Rightarrow> bytes \<Rightarrow> bytes" and m
      by (simp del: upt_Suc)
    then show ?thesis unfolding xor_words_bytes by (simp only: xor_bytes_def mult.commute)
  qed
  then show ?thesis by (simp add: xor_bytes_map xor_stream_def)
qed

text \<open>The keystream words of NEA1 and NEA3 for a message of \<open>n\<close> words.\<close>

definition nea1_keystream :: "bytes \<Rightarrow> u32 \<Rightarrow> byte \<Rightarrow> security_direction \<Rightarrow> nat \<Rightarrow> u32 list" where
  "nea1_keystream key count bearer direction n =
    (let k = map (\<lambda>j. let i = 3 - j in
               push_bit 24 (ucast (key ! (4 * i))) OR push_bit 16 (ucast (key ! (4 * i + 1))) OR
               push_bit 8 (ucast (key ! (4 * i + 2))) OR ucast (key ! (4 * i + 3))) [0..<4];
         b = push_bit 27 (ucast bearer AND 0x1f) OR push_bit 26 (ucast (direction_to_number direction) AND 1)
     in fst (s3g_generate_keystream (s3g_initialize k [b, count, b, count]) n))"

definition nea3_keystream :: "bytes \<Rightarrow> u32 \<Rightarrow> byte \<Rightarrow> security_direction \<Rightarrow> nat \<Rightarrow> u32 list" where
  "nea3_keystream key count bearer direction n =
    (let h = be32 count @
             [push_bit 3 (bearer AND 0x1f) OR push_bit 2 (direction_to_number direction AND 1), 0, 0, 0]
     in fst (zuc_generate_keystream (zuc_initialize key (h @ h)) n))"

lemma nea_sizes: "(length msg * 8 + 7) div 8 = length msg" "msg \<noteq> [] \<Longrightarrow> (length msg * 8 + 31) div 32 \<noteq> 0"
  by (auto simp: div_eq_0_iff)

lemma security_nea1_stream:
  assumes "msg \<noteq> []"
  shows "security_nea1 key count bearer direction msg (length msg * 8) =
    Some (xor_stream (ks_byte (nea1_keystream key count bearer direction ((length msg * 8 + 31) div 32))) msg)"
  using xor_loops [OF assms refl] nea_sizes(2) [OF assms]
  by (simp only: security_nea1_def nea1_keystream_def Let_def nea_sizes(1) zero_tailing_bytes list_update_id) simp

lemma security_nea3_stream:
  assumes "msg \<noteq> []"
  shows "security_nea3 key count bearer direction msg (length msg * 8) =
    Some (xor_stream (ks_byte (nea3_keystream key count bearer direction ((length msg * 8 + 31) div 32))) msg)"
  using xor_loops [OF assms refl] nea_sizes(2) [OF assms]
  by (simp only: security_nea3_def nea3_keystream_def Let_def nea_sizes(1) zero_tailing_bytes list_update_id) simp

text \<open>On an empty message the loops over the last word start at index \<open>-4\<close>.\<close>

lemma security_nea_empty:
  "security_nea1 key count bearer direction [] 0 = None"
  "security_nea3 key count bearer direction [] 0 = None"
  by (simp_all add: security_nea1_def security_nea3_def)


text \<open>The stream an engine combines a message of a given length with, where it produces one.\<close>

fun engine_stream :: "ssl_lib \<Rightarrow> ciphering_engine \<Rightarrow> u32 \<Rightarrow> nat \<Rightarrow> nat \<Rightarrow> byte" where
  "engine_stream lib (Ciph_nea1 key bearer direction) count n =
    ks_byte (nea1_keystream key count bearer direction ((n * 8 + 31) div 32))"
| "engine_stream lib (Ciph_nea2 key bearer direction) count n =
    ctr_stream lib key (nea2_nonce count bearer direction)"
| "engine_stream lib (Ciph_nea3 key bearer direction) count n =
    ks_byte (nea3_keystream key count bearer direction ((n * 8 + 31) div 32))"

text \<open>Whether ciphering a message of \<open>n\<close> bytes gives a result.\<close>

fun engine_works :: "ssl_lib \<Rightarrow> ciphering_engine \<Rightarrow> u32 \<Rightarrow> nat \<Rightarrow> bool" where
  "engine_works lib (Ciph_nea1 key bearer direction) count n \<longleftrightarrow> 0 < n"
| "engine_works lib (Ciph_nea2 key bearer direction) count n \<longleftrightarrow>
    ctr_ok lib key (nea2_nonce count bearer direction) n"
| "engine_works lib (Ciph_nea3 key bearer direction) count n \<longleftrightarrow> 0 < n"

lemma apply_ciphering_iff:
  "apply_ciphering lib e buf off count = Some (Inr x, c) \<longleftrightarrow>
    off \<le> length buf \<and> c = count \<and> engine_works lib e count (length buf - off) \<and>
    x = take off buf @ xor_stream (engine_stream lib e count (length buf - off)) (drop off buf)"
proof (cases "off \<le> length buf")
  case True
  show ?thesis
  proof (cases e)
    case (Ciph_nea1 key bearer direction)
    show ?thesis
    proof (cases "drop off buf = []")
      case True
      then show ?thesis using Ciph_nea1 by (simp add: apply_ciphering_def Let_def security_nea_empty)
    next
      case False
      then show ?thesis
        using True Ciph_nea1 security_nea1_stream [OF False] by (auto simp: apply_ciphering_def Let_def)
    qed
  next
    case (Ciph_nea3 key bearer direction)
    show ?thesis
    proof (cases "drop off buf = []")
      case True
      then show ?thesis using Ciph_nea3 by (simp add: apply_ciphering_def Let_def security_nea_empty)
    next
      case False
      then show ?thesis
        using True Ciph_nea3 security_nea3_stream [OF False] by (auto simp: apply_ciphering_def Let_def)
    qed
  next
    case (Ciph_nea2 key bearer direction)
    then show ?thesis using True by (auto simp: apply_ciphering_def Let_def xor_stream_def)
  qed
qed (simp add: apply_ciphering_def Let_def)

lemma apply_ciphering_result:
  assumes "apply_ciphering lib e buf off count = Some (Inr x, c)"
  shows "apply_ciphering lib e x off count = Some (Inr buf, count)"
    and "length x = length buf" "take off x = take off buf" "c = count" "off \<le> length buf"
  using assms unfolding apply_ciphering_iff by auto

section \<open>MACs\<close>

lemma length_be32 [simp]: "length (be32 w) = 4"
  by (simp add: be32_def)

lemma s3g_f9_length: "s3g_f9 key count fresh dir dat n = Some mac \<Longrightarrow> length mac = 4"
  by (auto simp: s3g_f9_def Let_def split: if_splits)

lemma generic_mac_length: "generic_mac lib key bearer direction algo v count = Some mac \<Longrightarrow> length mac = 4"
  by (auto simp: generic_mac_def security_nia1_def security_nia2_def security_nia3_def Let_def
      nia2_non_cmac_compute_mac_def nia2_cmac_compute_mac_def s3g_f9_length
      split: integrity_algorithm.splits if_splits option.splits sum.splits)

lemma compute_mac_length: "compute_mac lib e v count = Some (Inr mac) \<Longrightarrow> length mac = 4"
  by (auto simp: compute_mac_def nia2_non_cmac_compute_mac_def nia2_cmac_compute_mac_def Let_def generic_mac_length
      split: integrity_engine.splits if_splits option.splits)

lemma protect_integrity_iff:
  "protect_integrity lib ok e buf count = Some (Inr x, c) \<longleftrightarrow>
    ok \<and> c = count \<and> (\<exists>mac. compute_mac lib e buf count = Some (Inr mac) \<and> x = buf @ mac)"
  by (auto simp: protect_integrity_def split: option.splits sum.splits)

lemma verify_integrity_iff:
  "verify_integrity lib e buf count = Some (Inr x, c) \<longleftrightarrow>
    c = count \<and> x \<noteq> [] \<and> (\<exists>mac. compute_mac lib e x count = Some (Inr mac) \<and> buf = x @ mac)"
proof
  assume v: "verify_integrity lib e buf count = Some (Inr x, c)"
  let ?n = "length buf - sec_mac_len"
  have "sec_mac_len < length buf" and x: "x = take ?n buf" "c = count"
    and "compute_mac lib e (take ?n buf) count = Some (Inr (drop ?n buf))"
    using v by (auto simp: verify_integrity_def Let_def split: option.splits sum.splits if_splits)
  then show "c = count \<and> x \<noteq> [] \<and> (\<exists>mac. compute_mac lib e x count = Some (Inr mac) \<and> buf = x @ mac)"
    by (intro conjI exI [of _ "drop ?n buf"]) (auto simp: x)
next
  assume "c = count \<and> x \<noteq> [] \<and> (\<exists>mac. compute_mac lib e x count = Some (Inr mac) \<and> buf = x @ mac)"
  then obtain mac where m: "compute_mac lib e x count = Some (Inr mac)" "buf = x @ mac" "c = count" "x \<noteq> []" by blast
  then show "verify_integrity lib e buf count = Some (Inr x, c)"
    using compute_mac_length [OF m(1)] by (simp add: verify_integrity_def Let_def sec_mac_len_def)
qed

section \<open>The interface of the security engine\<close>

text \<open>
  PDCP protects what it sends with \<open>protect\<close> and checks what it receives with \<open>check\<close>, passing the
  length of the header that stays in clear.
\<close>

locale security_engine_laws =
  fixes protect :: "bytes \<Rightarrow> nat \<Rightarrow> u32 \<Rightarrow> security_result option"
    and check :: "bytes \<Rightarrow> nat \<Rightarrow> u32 \<Rightarrow> security_result option"
    and overhead :: nat
  assumes check_protect: "protect b off c = Some (Inr x, c') \<Longrightarrow> b \<noteq> [] \<Longrightarrow> off \<le> length b \<Longrightarrow>
      check x off c = Some (Inr b, c)"
    and protect_header: "protect b off c = Some (Inr x, c') \<Longrightarrow> off \<le> length b \<Longrightarrow> take off x = take off b"
    and protect_length: "protect b off c = Some (Inr x, c') \<Longrightarrow> length x = length b + overhead"
    and check_length: "check x off c = Some (Inr b, c') \<Longrightarrow> length x = length b + overhead"
    and check_header: "check x off c = Some (Inr b, c') \<Longrightarrow> off \<le> length b \<Longrightarrow> take off b = take off x"
begin

text \<open>Two payloads that protect to the same bytes under the same COUNT are the same payload.\<close>

lemma protect_inj:
  assumes "protect a off c = Some (Inr x, c1)" "protect b off c = Some (Inr x, c2)"
    and "a \<noteq> []" "b \<noteq> []" "off \<le> length a" "off \<le> length b"
  shows "a = b"
  using check_protect [OF assms(1,3,5)] check_protect [OF assms(2,4,6)] by simp

lemma header_of_protected:
  assumes "protect (h @ b) (length h) c = Some (Inr x, c')"
  shows "\<exists>y. x = h @ y \<and> length y = length b + overhead"
proof -
  have "take (length h) x = h" using protect_header [OF assms] by simp
  then have "x = h @ drop (length h) x" by (metis append_take_drop_id)
  then show ?thesis using protect_length [OF assms] by (intro exI [of _ "drop (length h) x"]) auto
qed

end


definition engine_overhead :: "security_engine \<Rightarrow> nat" where
  "engine_overhead eng = (if integ_eng eng = None then 0 else sec_mac_len)"

text \<open>What the engine produces, and what it accepts, step by step.\<close>

lemma result_bind_iff:
  "(case P of None \<Rightarrow> None | Some (Inl err, c) \<Rightarrow> Some (Inl err, c) | Some (Inr b, c) \<Rightarrow> F b c) = Some (Inr x, d) \<longleftrightarrow>
    (\<exists>b c. P = Some (Inr b, c) \<and> F b c = Some (Inr x, d))" for P :: "security_result option"
  by (auto split: option.splits sum.splits)

lemma protect_count: "protect_integrity lib ok e b c = Some (Inr y, d) \<Longrightarrow> d = c"
  by (simp add: protect_integrity_iff)

lemma verify_count: "verify_integrity lib e b c = Some (Inr y, d) \<Longrightarrow> d = c"
  by (simp add: verify_integrity_iff)

lemma encrypt_iff:
  "encrypt_and_protect_integrity lib ok eng b off c = Some (Inr x, c') \<longleftrightarrow>
    c' = c \<and> (\<exists>y. (case integ_eng eng of None \<Rightarrow> y = b | Some e \<Rightarrow> protect_integrity lib ok e b c = Some (Inr y, c)) \<and>
      (case cipher_eng eng of None \<Rightarrow> x = y | Some e \<Rightarrow> apply_ciphering lib e y off c = Some (Inr x, c)))"
  unfolding encrypt_and_protect_integrity_def result_bind_iff
  by (cases "integ_eng eng"; cases "cipher_eng eng") (auto dest: apply_ciphering_result(4) protect_count)

lemma decrypt_iff:
  "decrypt_and_verify_integrity lib eng x off c = Some (Inr b, c') \<longleftrightarrow>
    c' = c \<and> (\<exists>y. (case cipher_eng eng of None \<Rightarrow> y = x | Some e \<Rightarrow> apply_ciphering lib e x off c = Some (Inr y, c)) \<and>
      (case integ_eng eng of None \<Rightarrow> b = y | Some e \<Rightarrow> verify_integrity lib e y c = Some (Inr b, c)))"
  unfolding decrypt_and_verify_integrity_def result_bind_iff
  by (cases "integ_eng eng"; cases "cipher_eng eng") (auto dest: apply_ciphering_result(4) verify_count)

lemma decrypt_encrypt:
  assumes "encrypt_and_protect_integrity lib ok eng b off c = Some (Inr x, c')" "b \<noteq> []"
  shows "decrypt_and_verify_integrity lib eng x off c = Some (Inr b, c)"
proof -
  from assms(1) obtain y where
    i: "case integ_eng eng of None \<Rightarrow> y = b | Some e \<Rightarrow> protect_integrity lib ok e b c = Some (Inr y, c)" and
    e: "case cipher_eng eng of None \<Rightarrow> x = y | Some e \<Rightarrow> apply_ciphering lib e y off c = Some (Inr x, c)"
    unfolding encrypt_iff by blast
  have "case integ_eng eng of None \<Rightarrow> b = y | Some e \<Rightarrow> verify_integrity lib e y c = Some (Inr b, c)"
    using i assms(2) by (auto simp: protect_integrity_iff verify_integrity_iff split: option.splits)
  moreover have "case cipher_eng eng of None \<Rightarrow> y = x | Some e \<Rightarrow> apply_ciphering lib e x off c = Some (Inr y, c)"
    using e apply_ciphering_result(1) by (cases "cipher_eng eng") auto
  ultimately show ?thesis unfolding decrypt_iff by blast
qed

lemma encrypt_length_header:
  assumes "encrypt_and_protect_integrity lib ok eng b off c = Some (Inr x, c')"
  shows "length x = length b + engine_overhead eng" and "off \<le> length b \<Longrightarrow> take off x = take off b"
proof -
  from assms obtain y where
    i: "case integ_eng eng of None \<Rightarrow> y = b | Some e \<Rightarrow> protect_integrity lib ok e b c = Some (Inr y, c)" and
    e: "case cipher_eng eng of None \<Rightarrow> x = y | Some e \<Rightarrow> apply_ciphering lib e y off c = Some (Inr x, c)"
    unfolding encrypt_iff by blast
  have 1: "length y = length b + engine_overhead eng \<and> (off \<le> length b \<longrightarrow> take off y = take off b)"
    using i by (cases "integ_eng eng")
      (auto simp: engine_overhead_def protect_integrity_iff compute_mac_length sec_mac_len_def)
  have 2: "length x = length y \<and> take off x = take off y"
    using e by (cases "cipher_eng eng") (auto dest: apply_ciphering_result(2,3))
  show "length x = length b + engine_overhead eng" using 1 2 by simp
  show "off \<le> length b \<Longrightarrow> take off x = take off b" using 1 2 by simp
qed

lemma decrypt_length_header:
  assumes "decrypt_and_verify_integrity lib eng x off c = Some (Inr b, c')"
  shows "length x = length b + engine_overhead eng" and "off \<le> length b \<Longrightarrow> take off b = take off x"
proof -
  from assms obtain y where
    e: "case cipher_eng eng of None \<Rightarrow> y = x | Some e \<Rightarrow> apply_ciphering lib e x off c = Some (Inr y, c)" and
    i: "case integ_eng eng of None \<Rightarrow> b = y | Some e \<Rightarrow> verify_integrity lib e y c = Some (Inr b, c)"
    unfolding decrypt_iff by blast
  have 1: "length y = length b + engine_overhead eng \<and> (off \<le> length b \<longrightarrow> take off b = take off y)"
    using i by (cases "integ_eng eng")
      (auto simp: engine_overhead_def verify_integrity_iff compute_mac_length sec_mac_len_def)
  have 2: "length y = length x \<and> take off y = take off x"
    using e by (cases "cipher_eng eng") (auto dest: apply_ciphering_result(2,3))
  show "length x = length b + engine_overhead eng" using 1 2 by simp
  show "off \<le> length b \<Longrightarrow> take off b = take off x" using 1 2 by simp
qed

interpretation sec: security_engine_laws
  "encrypt_and_protect_integrity lib ok eng" "decrypt_and_verify_integrity lib eng" "engine_overhead eng"
  for lib ok eng
  by unfold_locales
    (simp_all add: decrypt_encrypt encrypt_length_header decrypt_length_header)


section \<open>AES-CMAC\<close>

text \<open>The reference: RFC 4493 over byte blocks of 16, for a message of at least one byte.\<close>

definition xor_block :: "bytes \<Rightarrow> bytes \<Rightarrow> bytes" where
  "xor_block a b = map2 (XOR) a b"

definition cmac_blocks :: "bytes \<Rightarrow> bytes list" where
  "cmac_blocks M = map (\<lambda>i. take 16 (drop (16 * i) M)) [0..<(length M + 15) div 16]"

definition cmac_last :: "bytes \<Rightarrow> bytes \<Rightarrow> bytes \<Rightarrow> bytes" where
  "cmac_last k1 k2 b =
    (if length b = 16 then xor_block b k1
     else xor_block (b @ [0x80] @ replicate (15 - length b) 0) k2)"

definition cmac_reference :: "(bytes \<Rightarrow> bytes) \<Rightarrow> bytes \<Rightarrow> bytes" where
  "cmac_reference aes M =
    (let k1 = cmac_subkey (aes (replicate 16 0));
         k2 = cmac_subkey k1;
         X = fold (\<lambda>b X. aes (xor_block X b)) (butlast (cmac_blocks M)) (replicate 16 0)
     in aes (xor_block X (cmac_last k1 k2 (last (cmac_blocks M)))))"

lemma cmac_subkey_length [simp]: "length (cmac_subkey l) = 16"
  by (simp add: cmac_subkey_def Let_def)

lemma xor_block_nth: "length a = 16 \<Longrightarrow> length b = 16 \<Longrightarrow> xor_block a b = map (\<lambda>j. a ! j XOR b ! j) [0..<16]"
  by (rule nth_equalityI) (simp_all add: xor_block_def)

lemma cmac_fold:
  assumes len: "\<And>b. length (aes b) = 16"
    and n: "16 * n \<le> length M" and T: "length T = 16"
  shows "fold (\<lambda>i T. aes (map (\<lambda>j. T ! j XOR (M @ pad) ! (i * 16 + j)) [0..<16])) [0..<n] T =
      fold (\<lambda>b X. aes (xor_block X b)) (map (\<lambda>i. take 16 (drop (16 * i) M)) [0..<n]) T"
  using n
proof (induction n)
  case (Suc n)
  let ?X = "fold (\<lambda>b X. aes (xor_block X b)) (map (\<lambda>i. take 16 (drop (16 * i) M)) [0..<n]) T"
  have "length ?X = 16" using T by (cases n) (simp_all add: len)
  then have "map (\<lambda>j. ?X ! j XOR (M @ pad) ! (n * 16 + j)) [0..<16] = xor_block ?X (take 16 (drop (16 * n) M))"
    using Suc.prems by (subst xor_block_nth) (auto simp: nth_append mult.commute)
  then show ?case using Suc by simp
qed simp

lemma cmac_padding:
  assumes "0 < length M" "n = (length M + 15) div 16" "length X = 16" "length k1 = 16" "length k2 = 16"
    and "pad_bits = (length M * 8) mod 128"
  shows "(if pad_bits = 0
          then map (\<lambda>j. X ! j XOR k1 ! j XOR (M @ replicate 16 0) ! ((n - 1) * 16 + j)) [0..<16]
          else let pad = (128 - pad_bits) - 1; at = (n - 1) * 16 + (15 - pad div 8);
                   m = (M @ replicate 16 0)[at := (M @ replicate 16 0) ! at OR push_bit (pad mod 8) 1]
               in map (\<lambda>j. X ! j XOR k2 ! j XOR m ! ((n - 1) * 16 + j)) [0..<16])
      = xor_block X (cmac_last k1 k2 (take 16 (drop (16 * (n - 1)) M)))"
proof -
  let ?b = "take 16 (drop (16 * (n - 1)) M)" and ?msg = "M @ replicate 16 (0 :: byte)"
  have pb: "pad_bits = 8 * (length M mod 16)"
    using assms(6) by (simp add: mult.commute mult_mod_right)
  show ?thesis
  proof (cases "length M mod 16 = 0")
    case True
    from True obtain q where q: "length M = 16 * q" by (metis mod_eq_0_iff_dvd dvdE)
    have n: "16 * n = length M" unfolding assms(2) q by simp
    have "0 < n" using n assms(1) by linarith
    note n = n this
    then have "length ?b = 16" by simp
    then show ?thesis
      using True n assms(3,4) by (auto simp: pb cmac_last_def xor_block_nth nth_append ac_simps intro!: nth_equalityI)
  next
    case False
    define r where "r = length M mod 16"
    have r: "0 < r" "r < 16" using False by (simp_all add: r_def)
    define q where "q = length M div 16"
    have q: "length M = 16 * q + r" by (simp add: q_def r_def)
    have "(16 * q + (r + 15)) div 16 = q + (r + 15) div 16" by simp
    moreover have "(r + 15) div 16 = 1" using r by linarith
    ultimately have "n = q + 1" unfolding assms(2) q by (simp add: add.assoc)
    then have n: "16 * (n - 1) + r = length M" using q by simp
    then have b: "length ?b = r" using r by simp
    have pad: "128 - 8 * r - 1 = 8 * (15 - r) + 7" using r by linarith
    have at: "15 - (128 - 8 * r - 1) div 8 = r" "(128 - 8 * r - 1) mod 8 = 7" unfolding pad using r by simp_all
    have m: "(?msg[(n - 1) * 16 + r := ?msg ! ((n - 1) * 16 + r) OR push_bit 7 1]) ! ((n - 1) * 16 + j) =
        (?b @ [0x80] @ replicate (15 - r) 0) ! j" if "j < 16" for j
      using that r n b by (auto simp: nth_list_update nth_append nth_Cons' mult.commute)
    have l: "length (?b @ [0x80] @ replicate (15 - r) 0) = 16" using b r by simp
    have "pad_bits \<noteq> 0" "pad_bits = 8 * r" using pb r by (simp_all add: r_def)
    then show ?thesis
      using b r l m assms(3,5) at by (auto simp: Let_def cmac_last_def xor_block_nth ac_simps intro!: nth_equalityI)
  qed
qed


lemma nia2_cmac:
  assumes len: "\<And>b. length (aes_ecb lib key b) = 16"
    and v: "length v + 8 + 16 \<le> sec_max_pdu_size"
  shows "nia2_non_cmac_compute_mac lib key bearer direction v count =
    Some (take 4 (cmac_reference (aes_ecb lib key) (nia2_preamble count bearer direction @ v)))"
proof -
  let ?aes = "aes_ecb lib key" and ?M = "nia2_preamble count bearer direction @ v"
  let ?k1 = "cmac_subkey (?aes (replicate 16 0))"
  let ?k2 = "cmac_subkey ?k1"
  let ?n = "(length v + 8 + 15) div 16" and ?pb = "(length v * 8 + 64) mod 128"
  let ?X = "fold (\<lambda>b X. ?aes (xor_block X b)) (map (\<lambda>i. take 16 (drop (16 * i) ?M)) [0..<?n - 1]) (replicate 16 0)"
  have lM: "length ?M = length v + 8" by (simp add: nia2_preamble_def)
  have blocks: "cmac_blocks ?M = map (\<lambda>i. take 16 (drop (16 * i) ?M)) [0..<?n]"
    unfolding cmac_blocks_def lM ..
  have pos: "0 < ?n" by (simp add: div_greater_zero_iff)
  then have nn: "[0..<?n] = [0..<?n - 1] @ [?n - 1]" by (metis Suc_pred' upt_Suc_append zero_le)
  have lX: "length ?X = 16" by (cases "?n - 1") (simp_all add: len)
  have bound: "16 * (?n - 1) \<le> length ?M" unfolding lM by linarith
  have fold: "fold (\<lambda>i T. ?aes (map (\<lambda>j. T ! j XOR (?M @ replicate 16 0) ! (i * 16 + j)) [0..<16])) [0..<?n - 1]
      (replicate 16 0) = ?X"
    by (rule cmac_fold [OF len bound]) simp
  have ref: "cmac_reference ?aes ?M =
      ?aes (xor_block ?X (cmac_last ?k1 ?k2 (take 16 (drop (16 * (?n - 1)) ?M))))"
    unfolding cmac_reference_def Let_def blocks nn by simp
  have pb: "?pb = (length ?M * 8) mod 128" unfolding lM by (simp add: algebra_simps)
  have n: "?n = (length ?M + 15) div 16" unfolding lM ..
  have "0 < length ?M" unfolding lM by simp
  note pad = cmac_padding [OF this n lX cmac_subkey_length cmac_subkey_length pb, of "?aes (replicate 16 0)" ?k1]
  have take4: "map (\<lambda>i. t ! i) [0..<4] = take 4 t" if "length t = 16" for t :: bytes
    using that by (intro nth_equalityI) simp_all
  have "nia2_non_cmac_compute_mac lib key bearer direction v count =
    Some (map (\<lambda>i. ?aes (xor_block ?X (cmac_last ?k1 ?k2 (take 16 (drop (16 * (?n - 1)) ?M)))) ! i) [0..<4])"
    using v fold pad
    by (simp only: nia2_non_cmac_compute_mac_def Let_def append_assoc [symmetric] not_less [symmetric] if_False
        if_distrib [of ?aes, symmetric])
  then show ?thesis unfolding ref take4 [OF len] .
qed


section \<open>Selection and key derivation\<close>

lemma integrity_number_inverse [simp]: "integrity_algorithm_from_number (integrity_to_number a) = Some a"
  by (cases a) (simp_all add: integrity_algorithm_from_number_def numeral_eq_Suc)

lemma ciphering_number_inverse [simp]: "ciphering_algorithm_from_number (ciphering_to_number a) = Some a"
  by (cases a) (simp_all add: ciphering_algorithm_from_number_def numeral_eq_Suc)

text \<open>An algorithm is usable when the support table has it.\<close>

definition integ_usable :: "bool list \<Rightarrow> integrity_algorithm \<Rightarrow> bool" where
  "integ_usable supported a \<longleftrightarrow> a \<noteq> nia0 \<and> supported ! (integrity_to_number a - 1)"

definition ciph_usable :: "bool list \<Rightarrow> ciphering_algorithm \<Rightarrow> bool" where
  "ciph_usable supported a \<longleftrightarrow> a = nea0 \<or> supported ! (ciphering_to_number a - 1)"

lemma integrity_to_number_0 [simp]: "integrity_to_number a = 0 \<longleftrightarrow> a = nia0"
  by (cases a) simp_all

lemma ciphering_to_number_0 [simp]: "ciphering_to_number a = 0 \<longleftrightarrow> a = nea0"
  by (cases a) simp_all

lemma select_integrity_find:
  "select_integrity supported as = List.find (integ_usable supported) (takeWhile (\<lambda>a. a \<noteq> nia0) as)"
  by (induction supported as rule: select_integrity.induct) (auto simp: integ_usable_def)

lemma select_ciphering_find: "select_ciphering supported as = List.find (ciph_usable supported) as"
  by (induction supported as rule: select_ciphering.induct) (auto simp: ciph_usable_def)

lemma be16_inj: "be16 m = be16 n \<Longrightarrow> m < 2 ^ 16 \<Longrightarrow> n < 2 ^ 16 \<Longrightarrow> m = n"
proof -
  assume eq: "be16 m = be16 n" and m: "m < 2 ^ 16" and n: "n < 2 ^ 16"
  have "unat (word_of_nat k :: byte) = k mod 256" for k
    by (simp add: unat_of_nat)
  then have "m mod 256 = n mod 256" "(m div 256) mod 256 = (n div 256) mod 256"
    using eq by (simp_all add: be16_def) metis+
  moreover have "m div 256 < 256" "n div 256 < 256" using m n by simp_all
  ultimately show "m = n" by (metis div_mult_mod_eq mod_less)
qed

lemma length_be16 [simp]: "length (be16 n) = 2"
  by (simp add: be16_def)

lemma append_same_tail: "length b = length d \<Longrightarrow> a @ b = c @ d \<Longrightarrow> a = c \<and> b = d"
  by (metis append_eq_append_conv)

lemma kdf_input_inj:
  assumes "kdf_input fc p0 p1 = kdf_input fc' q0 q1"
    and "length p0 < 2 ^ 16" "length p1 < 2 ^ 16" "length q0 < 2 ^ 16" "length q1 < 2 ^ 16"
  shows "fc = fc' \<and> p0 = q0 \<and> p1 = q1"
proof -
  have eq: "(p0 @ be16 (length p0) @ p1) @ be16 (length p1) = (q0 @ be16 (length q0) @ q1) @ be16 (length q1)"
    and fc: "fc = fc'"
    using assms(1) by (simp_all add: kdf_input_def)
  have 1: "p0 @ be16 (length p0) @ p1 = q0 @ be16 (length q0) @ q1" "be16 (length p1) = be16 (length q1)"
    using append_same_tail [OF _ eq] by simp_all
  have l1: "length p1 = length q1" using be16_inj [OF 1(2) assms(3,5)] .
  have "(p0 @ be16 (length p0)) @ p1 = (q0 @ be16 (length q0)) @ q1" using 1(1) by simp
  then have 2: "p0 @ be16 (length p0) = q0 @ be16 (length q0)" "p1 = q1"
    using append_same_tail [OF l1] by blast+
  then have "p0 = q0" using append_same_tail [OF _ 2(1)] by simp
  with 2 fc show ?thesis by simp
qed


section \<open>Properties\<close>

text \<open>A library for the concrete instances below: a toy block cipher, stream and MAC.\<close>

definition toy_lib :: ssl_lib where
  "toy_lib = \<lparr>aes_ecb = (\<lambda>k b. replicate 16 (foldr (XOR) b 7)), ctr_stream = (\<lambda>k n i. word_of_nat (i + 3)),
    ctr_ok = (\<lambda>k n l. True), aes_cmac = None, hmac_sha256 = (\<lambda>k b. k)\<rparr>"

definition toy_cfg :: "sec_domain \<Rightarrow> sec_128_as_config" where
  "toy_cfg d = \<lparr>s128_domain = d, k_128_int = Some (replicate 16 1), k_128_enc = replicate 16 2,
    s128_integ_algo = Some nia2, s128_cipher_algo = nea2\<rparr>"

text \<open>NEA1 and NEA3 change nothing but by exclusive or with a keystream that depends on key, COUNT,
  bearer and direction only: the loops over words and over the bytes of the last word together touch every
  byte of the message once.\<close>

theorem nea_is_keystream_xor:
  assumes "msg \<noteq> []"
  shows "security_nea1 key count bearer direction msg (length msg * 8) =
      Some (xor_stream (ks_byte (nea1_keystream key count bearer direction ((length msg * 8 + 31) div 32))) msg) \<and>
    security_nea3 key count bearer direction msg (length msg * 8) =
      Some (xor_stream (ks_byte (nea3_keystream key count bearer direction ((length msg * 8 + 31) div 32))) msg)"
  using security_nea1_stream [OF assms] security_nea3_stream [OF assms] by blast

lemma nea_is_keystream_xor_witness:
  "security_nea1 [] 5 1 sec_uplink [1, 2, 3, 4, 5] 40 =
    Some (xor_stream (ks_byte (nea1_keystream [] 5 1 sec_uplink 2)) [1, 2, 3, 4, 5])"
  using nea_is_keystream_xor [of "[1, 2, 3, 4, 5]" "[]" 5 1 sec_uplink] by simp

text \<open>C6. What the engine for one side protects, the engine for the other side (same keys, algorithms,
  bearer and direction) turns back into the buffer, with the same COUNT; the header stays in clear and the
  length grows by the four bytes of the MAC exactly when integrity is enabled.\<close>

theorem security_engine_roundtrip:
  assumes "security_engine_impl lib cfg bearer direction integ ciph = Some eng"
    and "encrypt_and_protect_integrity lib ok eng buf offset count = Some (Inr x, count')"
    and "buf \<noteq> []" "offset \<le> length buf"
  shows "decrypt_and_verify_integrity lib eng x offset count = Some (Inr buf, count) \<and>
    take offset x = take offset buf \<and> length x = length buf + (if integ = integ_on then 4 else 0)"
proof -
  have "engine_overhead eng = (if integ = integ_on then 4 else 0)"
    using assms(1) by (auto simp: security_engine_impl_def engine_overhead_def sec_mac_len_def Let_def
        split: if_splits option.splits)
  then show ?thesis
    using sec.check_protect [OF assms(2-4)] sec.protect_header [OF assms(2,4)] sec.protect_length [OF assms(2)]
    by simp
qed

lemma toy_engine:
  "security_engine_impl toy_lib (toy_cfg d) 3 sec_uplink integ_on ciph_on =
    Some \<lparr>integ_eng = Some (Integ_nia2_non_cmac (replicate 16 1) 3 sec_uplink),
          cipher_eng = Some (Ciph_nea2 (replicate 16 2) 3 sec_uplink)\<rparr>"
  by (simp add: security_engine_impl_def toy_cfg_def toy_lib_def Let_def)

lemma toy_engine_encrypts:
  assumes "length buf \<le> 100" "off \<le> length buf"
  shows "\<exists>x. encrypt_and_protect_integrity toy_lib True
    \<lparr>integ_eng = Some (Integ_nia2_non_cmac (replicate 16 1) 3 sec_uplink),
     cipher_eng = Some (Ciph_nea2 (replicate 16 2) 3 sec_uplink)\<rparr> buf off c = Some (Inr x, c)"
proof -
  have "length buf + 8 + 16 \<le> sec_max_pdu_size" using assms(1) by (simp add: sec_max_pdu_size_def)
  then obtain mac where m: "nia2_non_cmac_compute_mac toy_lib (replicate 16 1) 3 sec_uplink buf c = Some mac"
    using nia2_cmac [of toy_lib "replicate 16 1" buf 3 sec_uplink c] by (auto simp: toy_lib_def)
  have "apply_ciphering toy_lib (Ciph_nea2 (replicate 16 2) 3 sec_uplink) (buf @ mac) off c = Some (Inr y, c)"
    if "y = take off (buf @ mac) @ xor_stream
      (engine_stream toy_lib (Ciph_nea2 (replicate 16 2) 3 sec_uplink) c (length (buf @ mac) - off)) (drop off (buf @ mac))"
    for y
    unfolding apply_ciphering_iff using assms(2) by (simp add: that toy_lib_def)
  then show ?thesis
    unfolding encrypt_iff by (auto simp: protect_integrity_iff compute_mac_def m)
qed

lemma security_engine_roundtrip_witness:
  "\<exists>eng x. decrypt_and_verify_integrity toy_lib eng x 2 7 = Some (Inr [0x80, 1, 2, 3], 7)"
proof -
  obtain x where x: "encrypt_and_protect_integrity toy_lib True
    \<lparr>integ_eng = Some (Integ_nia2_non_cmac (replicate 16 1) 3 sec_uplink),
     cipher_eng = Some (Ciph_nea2 (replicate 16 2) 3 sec_uplink)\<rparr> [0x80, 1, 2, 3] 2 7 = Some (Inr x, 7)"
    using toy_engine_encrypts [of "[0x80, 1, 2, 3]" 2 7] by auto
  show ?thesis using security_engine_roundtrip [OF toy_engine [of dom_up] x] by auto
qed

text \<open>C7. With integrity enabled the receiving engine accepts a buffer only if, after deciphering, it ends
  in the MAC of what precedes it; it returns exactly what precedes the MAC.\<close>

theorem security_engine_accepts_only_valid_mac:
  assumes "integ_eng eng = Some e"
    and "decrypt_and_verify_integrity lib eng x offset count = Some (Inr buf, count')"
  shows "\<exists>mac. compute_mac lib e buf count = Some (Inr mac) \<and> length mac = 4 \<and> buf \<noteq> [] \<and>
    (case cipher_eng eng of None \<Rightarrow> x = buf @ mac
     | Some ce \<Rightarrow> apply_ciphering lib ce x offset count = Some (Inr (buf @ mac), count))"
proof -
  from assms(2) obtain y where
    y: "case cipher_eng eng of None \<Rightarrow> y = x | Some e \<Rightarrow> apply_ciphering lib e x offset count = Some (Inr y, count)"
    and "verify_integrity lib e y count = Some (Inr buf, count)"
    unfolding decrypt_iff using assms(1) by auto
  then obtain mac where "compute_mac lib e buf count = Some (Inr mac)" "y = buf @ mac" "buf \<noteq> []"
    unfolding verify_integrity_iff by blast
  then show ?thesis
    using y compute_mac_length by (intro exI [of _ mac]) (auto split: option.splits)
qed

lemma security_engine_accepts_only_valid_mac_witness:
  "\<exists>mac. compute_mac toy_lib (Integ_generic [] 0 sec_uplink nia0) [9] 1 = Some (Inr mac) \<and> length mac = 4"
  using security_engine_accepts_only_valid_mac
    [of "\<lparr>integ_eng = Some (Integ_generic [] 0 sec_uplink nia0), cipher_eng = None\<rparr>"
      "Integ_generic [] 0 sec_uplink nia0" toy_lib "[9, 0, 0, 0, 0]" 0 1 "[9]" 1]
  by (simp add: decrypt_and_verify_integrity_def verify_integrity_def compute_mac_def generic_mac_def sec_mac_len_def)



text \<open>Algorithm selection succeeds exactly when both lists offer something usable, and then picks the
  first usable entry of each: integrity entries behind NIA0 do not count and NIA0 is never selected, NEA0 is
  always usable.\<close>

theorem select_algorithms_first_usable:
  "(fst (select_algorithms pi pc ctx) \<longleftrightarrow>
     List.find (integ_usable (supported_int_algos ctx)) (takeWhile (\<lambda>a. a \<noteq> nia0) pi) \<noteq> None \<and>
     List.find (ciph_usable (supported_enc_algos ctx)) pc \<noteq> None) \<and>
   (\<forall>ctx'. select_algorithms pi pc ctx = (True, ctx') \<longrightarrow>
     List.find (integ_usable (supported_int_algos ctx)) (takeWhile (\<lambda>a. a \<noteq> nia0) pi) = Some (sel_integ_algo (sel_algos ctx')) \<and>
     List.find (ciph_usable (supported_enc_algos ctx)) pc = Some (sel_cipher_algo (sel_algos ctx')) \<and>
     algos_selected (sel_algos ctx') \<and> sel_integ_algo (sel_algos ctx') \<noteq> nia0)"
proof -
  have "a \<noteq> nia0" if "List.find (integ_usable sup) xs = Some a" for a sup xs
    using that by (auto simp: find_Some_iff integ_usable_def)
  then show ?thesis
    by (auto simp: select_algorithms_def select_integrity_find select_ciphering_find Let_def split: option.splits)
qed

definition toy_ctx :: security_context where
  "toy_ctx = \<lparr>ctx_k = replicate 32 0, supported_int_algos = [False, True, False],
    supported_enc_algos = [False, False, True],
    sel_algos = \<lparr>algos_selected = False, sel_integ_algo = nia0, sel_cipher_algo = nea0\<rparr>,
    as_keys = \<lparr>k_rrc_int = [], k_rrc_enc = [], k_up_int = [], k_up_enc = []\<rparr>\<rparr>"

lemma select_algorithms_first_usable_witness:
  "fst (select_algorithms [nia1, nia2, nia3, nia0] [nea1, nea3, nea2, nea0] toy_ctx) \<and>
   sel_integ_algo (sel_algos (snd (select_algorithms [nia1, nia2, nia3, nia0] [nea1, nea3, nea2, nea0] toy_ctx))) \<noteq> nia0"
  using select_algorithms_first_usable [of "[nia1, nia2, nia3, nia0]" "[nea1, nea3, nea2, nea0]" toy_ctx]
  by (cases "select_algorithms [nia1, nia2, nia3, nia0] [nea1, nea3, nea2, nea0] toy_ctx")
    (auto simp: toy_ctx_def integ_usable_def ciph_usable_def)

text \<open>The string fed to the key derivation function determines function code and both parameters, so
  no two derivations (RRC or UP, encryption or integrity, any algorithm, handover) share an input.\<close>

theorem kdf_input_injective:
  assumes "kdf_input fc p0 p1 = kdf_input fc' q0 q1"
    and "length p0 < 2 ^ 16" "length p1 < 2 ^ 16" "length q0 < 2 ^ 16" "length q1 < 2 ^ 16"
  shows "fc = fc' \<and> p0 = q0 \<and> p1 = q1"
  by (rule kdf_input_inj [OF assms])

lemma kdf_input_injective_witness:
  "kdf_input 0x69 [0x03] [1] \<noteq> kdf_input 0x69 [0x04] [1]"
proof
  assume "kdf_input 0x69 [0x03] [1] = kdf_input 0x69 [0x04] [1]"
  from kdf_input_injective [OF this] show False by simp
qed

end
