(* ===== verification/Bit_Codec.thy ===== *)
theory Bit_Codec
  imports Prelude
begin

text \<open>
  The bit encoder and decoder of \<open>lib/support/bit_encoding.cpp\<close> (declared in
  \<open>include/srsran/support/bit_encoding.h\<close>), which every header codec of the user plane is built on.
  The encoder appends the \<open>n\<close> low bits of a value to a byte buffer, most significant bit first; the
  decoder reads them back. Appending a byte to the buffer can fail when the segment pool is
  exhausted: \<open>ok i\<close> says whether the append that grows a buffer of \<open>i\<close> bytes succeeds.

  The lemmas show that both sides work on the same abstraction, the list of bits of the buffer:
  packing appends to it, unpacking takes from its front.
\<close>

section \<open>Byte strings as lists of bits\<close>

definition byte_bits :: "byte \<Rightarrow> bool list" where
  "byte_bits b = map (\<lambda>i. bit b (7 - i)) [0..<8]"

definition bytes_bits :: "bytes \<Rightarrow> bool list" where
  "bytes_bits bs = concat (map byte_bits bs)"

text \<open>The \<open>n\<close> low bits of a word, most significant first, and the word a list of bits denotes.\<close>

definition to_bits :: "nat \<Rightarrow> 'a::len word \<Rightarrow> bool list" where
  "to_bits n w = map (\<lambda>i. bit w (n - 1 - i)) [0..<n]"

definition bits_val :: "bool list \<Rightarrow> 'a::len word" where
  "bits_val bs = horner_sum of_bool 2 (rev bs)"

lemma length_byte_bits [simp]: "length (byte_bits b) = 8"
  by (simp add: byte_bits_def)

lemma nth_byte_bits: "i < 8 \<Longrightarrow> byte_bits b ! i = bit b (7 - i)"
  by (simp add: byte_bits_def)

lemma bytes_bits_simps [simp]:
  "bytes_bits [] = []"
  "bytes_bits (b # bs) = byte_bits b @ bytes_bits bs"
  "bytes_bits (xs @ ys) = bytes_bits xs @ bytes_bits ys"
  by (simp_all add: bytes_bits_def)

lemma length_bytes_bits [simp]: "length (bytes_bits bs) = 8 * length bs"
  by (induction bs) auto

lemma length_to_bits [simp]: "length (to_bits n w) = n"
  by (simp add: to_bits_def)

lemma nth_to_bits: "i < n \<Longrightarrow> to_bits n w ! i = bit w (n - 1 - i)"
  by (simp add: to_bits_def)

lemma to_bits_0 [simp]: "to_bits 0 w = []"
  by (simp add: to_bits_def)

lemma to_bits_split:
  assumes "m \<le> n"
  shows "to_bits n w = to_bits m (drop_bit (n - m) w) @ to_bits (n - m) w"
proof (rule nth_equalityI)
  fix i
  assume i: "i < length (to_bits n w)"
  show "to_bits n w ! i = (to_bits m (drop_bit (n - m) w) @ to_bits (n - m) w) ! i"
  proof (cases "i < m")
    case True
    have "n - m + (m - Suc i) = n - Suc i" using True assms by simp
    with True assms show ?thesis by (simp add: nth_append nth_to_bits bit_drop_bit_eq)
  next
    case False
    with i assms show ?thesis by (simp add: nth_append nth_to_bits)
  qed
qed (use assms in simp)

lemma to_bits_cong:
  assumes "\<And>i. i < n \<Longrightarrow> bit v i = bit w i"
  shows "to_bits n v = to_bits n w"
  using assms by (auto simp: to_bits_def)

lemma bits_val_append:
  "(bits_val (xs @ ys) :: 'a::len word) = 2 ^ length ys * bits_val xs + bits_val ys"
  by (simp add: bits_val_def horner_sum_append algebra_simps)

lemma bits_val_Nil [simp]: "bits_val [] = 0"
  by (simp add: bits_val_def)

lemma bit_bits_val:
  "bit (bits_val bs :: 'a::len word) i \<longleftrightarrow> i < LENGTH('a) \<and> i < length bs \<and> bs ! (length bs - 1 - i)"
  by (auto simp: bits_val_def bit_horner_sum_bit_word_iff rev_nth)

lemma bits_val_to_bits: "bits_val (to_bits n w) = take_bit n w"
  by (rule bit_word_eqI) (auto simp: bit_bits_val nth_to_bits bit_take_bit_iff)

lemma bits_val_to_bits_ucast:
  "(bits_val (to_bits n w) :: 'b::len word) = ucast (take_bit n (w :: 'a::len word))"
  by (rule bit_word_eqI)
    (auto simp: bit_bits_val nth_to_bits bit_take_bit_iff bit_ucast_iff dest: bit_imp_le_length)

lemma byte_bits_eq_to_bits: "byte_bits b = to_bits 8 b"
  by (simp add: byte_bits_def to_bits_def)

section \<open>The encoder\<close>

record bit_encoder =
  be_bytes :: bytes
  be_offset :: nat

definition bit_encoder_init :: bit_encoder where
  "bit_encoder_init = \<lparr>be_bytes = [], be_offset = 0\<rparr>"

definition be_add_back :: "byte \<Rightarrow> bit_encoder \<Rightarrow> bit_encoder" where
  "be_add_back v e = e\<lparr>be_bytes := butlast (be_bytes e) @ [last (be_bytes e) + v]\<rparr>"

function pack :: "(nat \<Rightarrow> bool) \<Rightarrow> u64 \<Rightarrow> nat \<Rightarrow> bit_encoder \<Rightarrow> bool \<times> bit_encoder" where
  "pack ok val n e =
    (if 0 < n then
       if be_offset e = 0 \<and> \<not> ok (length (be_bytes e)) then (False, e)
       else
         let e1 = (if be_offset e = 0 then e\<lparr>be_bytes := be_bytes e @ [0]\<rparr> else e);
             val1 = (if n < 64 then val AND (push_bit n 1 - 1) else val)
         in if 8 - be_offset e > n
            then (True, (be_add_back (ucast (push_bit (8 - be_offset e - n) val1)) e1)
                          \<lparr>be_offset := be_offset e + n\<rparr>)
            else pack ok val1 (n - (8 - be_offset e))
                   ((be_add_back (ucast (drop_bit (n + be_offset e - 8) val1)) e1)\<lparr>be_offset := 0\<rparr>)
     else (True, e))"
  by pat_completeness auto
termination
  by (relation "measures [\<lambda>(ok, val, n, e). n, \<lambda>(ok, val, n, e). be_offset e]") auto

declare pack.simps [simp del]

fun pack_all :: "(nat \<Rightarrow> bool) \<Rightarrow> bytes \<Rightarrow> bit_encoder \<Rightarrow> bool \<times> bit_encoder" where
  "pack_all ok [] e = (True, e)"
| "pack_all ok (b # bs) e =
     (case pack ok (ucast b) 8 e of
        (False, e1) \<Rightarrow> (False, e1)
      | (True, e1) \<Rightarrow> pack_all ok bs e1)"

definition pack_bytes :: "(nat \<Rightarrow> bool) \<Rightarrow> bytes \<Rightarrow> bit_encoder \<Rightarrow> bool \<times> bit_encoder" where
  "pack_bytes ok bs e =
    (if bs = [] then (True, e)
     else if be_offset e = 0 then
       (if ok (length (be_bytes e)) then (True, e\<lparr>be_bytes := be_bytes e @ bs\<rparr>) else (False, e))
     else pack_all ok bs e)"

definition align_bytes_zero :: "bit_encoder \<Rightarrow> bit_encoder" where
  "align_bytes_zero e = e\<lparr>be_offset := 0\<rparr>"

definition be_nof_bytes :: "bit_encoder \<Rightarrow> nat" where
  "be_nof_bytes e = length (be_bytes e)"

definition be_nof_bits :: "bit_encoder \<Rightarrow> nat" where
  "be_nof_bits e = 8 * (length (be_bytes e) - (if be_offset e = 0 then 0 else 1)) + be_offset e"

text \<open>
  The encoder's invariant: the offset stays in its byte, and the bits of the last byte that are not
  yet written are zero.
\<close>

definition enc_wf :: "bit_encoder \<Rightarrow> bool" where
  "enc_wf e \<longleftrightarrow> be_offset e < 8 \<and>
    (be_offset e \<noteq> 0 \<longrightarrow> be_bytes e \<noteq> [] \<and>
       (\<forall>i < 8 - be_offset e. \<not> bit (last (be_bytes e)) i))"

definition enc_bits :: "bit_encoder \<Rightarrow> bool list" where
  "enc_bits e = take (be_nof_bits e) (bytes_bits (be_bytes e))"

lemma enc_wf_init [simp]: "enc_wf bit_encoder_init" "enc_bits bit_encoder_init = []"
  by (simp_all add: enc_wf_def bit_encoder_init_def enc_bits_def be_nof_bits_def)

text \<open>
  One iteration writes \<open>k\<close> bits into the last byte, whose low \<open>8 - off\<close> bits are zero: adding the
  shifted value is setting these bits.
\<close>

lemma byte_bits_add:
  fixes b x :: byte
  assumes clear: "\<forall>i < r. \<not> bit b i" and x: "\<forall>i \<ge> r. \<not> bit x i"
  shows "bit (b + x) i \<longleftrightarrow> bit b i \<or> bit x i"
proof -
  have "b AND x = 0"
    by (rule bit_word_eqI) (use assms in \<open>metis bit_0_eq bit_and_iff bot_apply bot_bool_def not_le\<close>)
  then have "b + x = b OR x" by (rule disjunctive_add_eq_or)
  then show ?thesis by (simp add: bit_or_iff)
qed


lemma enc_bits_eq:
  "enc_wf e \<Longrightarrow> enc_bits e =
    (if be_offset e = 0 then bytes_bits (be_bytes e)
     else bytes_bits (butlast (be_bytes e)) @ take (be_offset e) (byte_bits (last (be_bytes e))))"
  by (cases "be_bytes e" rule: rev_cases)
    (auto simp: enc_wf_def enc_bits_def be_nof_bits_def)

lemma take_byte_bits_add:
  fixes b x :: byte
  assumes "off + k \<le> 8" and "\<forall>i < 8 - off. \<not> bit b i"
    and "\<forall>i. bit x i \<longrightarrow> 8 - off - k \<le> i \<and> i < 8 - off"
  shows "take (off + k) (byte_bits (b + x)) = take off (byte_bits b) @ map (\<lambda>j. bit x (7 - off - j)) [0..<k]"
    and "\<forall>i < 8 - off - k. \<not> bit (b + x) i"
proof -
  have add: "bit (b + x) i \<longleftrightarrow> bit b i \<or> bit x i" for i
    by (rule byte_bits_add [of "8 - off"]) (use assms in \<open>auto simp: not_less\<close>)
  show "take (off + k) (byte_bits (b + x)) = take off (byte_bits b) @ map (\<lambda>j. bit x (7 - off - j)) [0..<k]"
  proof (rule nth_equalityI)
    fix i
    assume "i < length (take (off + k) (byte_bits (b + x)))"
    then have i: "i < off + k" "i < 8" using assms(1) by auto
    show "take (off + k) (byte_bits (b + x)) ! i =
      (take off (byte_bits b) @ map (\<lambda>j. bit x (7 - off - j)) [0..<k]) ! i"
    proof (cases "i < off")
      case True
      have "\<not> bit x (7 - i)" using True i assms(3) by auto
      with True i show ?thesis by (simp add: nth_append nth_byte_bits add)
    next
      case False
      have "\<not> bit b (7 - i)" using False i assms(2) by auto
      moreover have "7 - off - (i - off) = 7 - i" using False by simp
      ultimately show ?thesis using False i assms(1) by (simp add: nth_append nth_byte_bits add)
    qed
  qed (use assms(1) in simp)
  show "\<forall>i < 8 - off - k. \<not> bit (b + x) i"
    using assms by (auto simp: add)
qed

lemma enc_step:
  assumes wf: "enc_wf e" and k: "0 < k" "k \<le> 8 - be_offset e"
    and x: "\<forall>i. bit x i \<longrightarrow> 8 - be_offset e - k \<le> i \<and> i < 8 - be_offset e"
    and e1: "e1 = (if be_offset e = 0 then e\<lparr>be_bytes := be_bytes e @ [0]\<rparr> else e)"
    and off: "off' = (be_offset e + k) mod 8"
  shows "enc_wf ((be_add_back x e1)\<lparr>be_offset := off'\<rparr>)"
    and "enc_bits ((be_add_back x e1)\<lparr>be_offset := off'\<rparr>) =
      enc_bits e @ map (\<lambda>j. bit x (7 - be_offset e - j)) [0..<k]"
proof -
  let ?off = "be_offset e" and ?e2 = "(be_add_back x e1)\<lparr>be_offset := off'\<rparr>"
  have o8: "?off < 8" using wf by (simp add: enc_wf_def)
  obtain pre b where pb: "be_bytes e1 = pre @ [b]"
    and clear: "\<forall>i < 8 - ?off. \<not> bit b i"
    and old: "enc_bits e = bytes_bits pre @ take ?off (byte_bits b)"
  proof (cases "?off = 0")
    case True
    with wf e1 show ?thesis by (intro that [of "be_bytes e" 0]) (auto simp: enc_bits_eq)
  next
    case False
    with wf e1 show ?thesis
      by (intro that [of "butlast (be_bytes e)" "last (be_bytes e)"]) (auto simp: enc_wf_def enc_bits_eq)
  qed
  have okk: "?off + k \<le> 8" using k o8 by simp
  note new = take_byte_bits_add [OF okk clear x]
  have bytes2: "be_bytes ?e2 = pre @ [b + x]" by (simp add: be_add_back_def pb)
  show wf2: "enc_wf ?e2"
    unfolding enc_wf_def bytes2 using new(2) off okk
    by (auto simp: mod_if split: if_splits)
  show "enc_bits ?e2 = enc_bits e @ map (\<lambda>j. bit x (7 - ?off - j)) [0..<k]"
  proof (cases "?off + k = 8")
    case True
    then show ?thesis using enc_bits_eq [OF wf2] bytes2 new(1) off old by simp
  next
    case False
    then have o: "off' = ?off + k" and nz: "off' \<noteq> 0" using off okk k by auto
    have "enc_bits ?e2 = bytes_bits pre @ take off' (byte_bits (b + x))"
      using enc_bits_eq [OF wf2] bytes2 nz by simp
    then show ?thesis using new(1) old o by simp
  qed
qed

lemma bit_low_mask: "bit (val AND (2 ^ n - 1) :: u64) i \<longleftrightarrow> bit val i \<and> i < n"
  by (simp only: and_low_mask bit_take_bit_iff) auto

text \<open>Packing \<open>n\<close> bits appends exactly these \<open>n\<close> bits, when every append to the buffer succeeds.\<close>

lemma pack_appends:
  assumes "enc_wf e" and "n \<le> 64" and "\<forall>i. ok i"
  shows "\<exists>e'. pack ok val n e = (True, e') \<and> enc_wf e' \<and> enc_bits e' = enc_bits e @ to_bits n val"
  using assms
proof (induction ok val n e rule: pack.induct)
  case (1 ok val n e)
  let ?off = "be_offset e"
  define val1 where "val1 = (if n < 64 then val AND (push_bit n 1 - 1) else val)"
  define e1 where "e1 = (if ?off = 0 then e\<lparr>be_bytes := be_bytes e @ [0]\<rparr> else e)"
  have o8: "?off < 8" using "1.prems" by (simp add: enc_wf_def)
  have v1: "bit val1 i \<longleftrightarrow> bit val i \<and> i < n" for i
    using "1.prems"(2) bit_low_mask [of val n i] by (auto simp: val1_def dest: bit_imp_le_length)
  show ?case
  proof (cases "0 < n")
    case False
    with "1.prems" show ?thesis by (simp add: pack.simps)
  next
    case n: True
    show ?thesis
    proof (cases "8 - ?off > n")
      case True
      define x :: byte where "x = ucast (push_bit (8 - ?off - n) val1)"
      have bx: "bit x i \<longleftrightarrow> i < 8 - ?off \<and> 8 - ?off - n \<le> i \<and> bit val (i - (8 - ?off - n))" for i
        using True o8 by (auto simp: x_def bit_ucast_iff bit_push_bit_iff v1)
      have pk: "pack ok val n e = (True, (be_add_back x e1)\<lparr>be_offset := ?off + n\<rparr>)"
        using n True "1.prems"(3) by (simp add: pack.simps [of ok val n e] x_def e1_def val1_def Let_def)
      have st: "enc_wf ((be_add_back x e1)\<lparr>be_offset := ?off + n\<rparr>)"
        "enc_bits ((be_add_back x e1)\<lparr>be_offset := ?off + n\<rparr>) =
          enc_bits e @ map (\<lambda>j. bit x (7 - ?off - j)) [0..<n]"
        by (rule enc_step [OF "1.prems"(1) n _ _ e1_def]; use True o8 in \<open>auto simp: bx\<close>)+
      have "map (\<lambda>j. bit x (7 - ?off - j)) [0..<n] = to_bits n val"
        using True by (auto simp: to_bits_def bx intro!: arg_cong [of _ _ "bit val"])
      with pk st show ?thesis by simp
    next
      case False
      define k where "k = 8 - ?off"
      define x :: byte where "x = ucast (drop_bit (n + ?off - 8) val1)"
      define e2 where "e2 = (be_add_back x e1)\<lparr>be_offset := 0\<rparr>"
      have kn: "k \<le> n" "0 < k" "n + ?off - 8 = n - k" using False o8 by (auto simp: k_def)
      have bx: "bit x i \<longleftrightarrow> i < 8 - ?off \<and> bit val (n - k + i)" for i
        using kn o8 by (auto simp: x_def bit_ucast_iff bit_drop_bit_eq v1 k_def)
      have pk: "pack ok val n e = pack ok val1 (n - k) e2"
        using n False "1.prems"(3)
        by (subst pack.simps) (simp add: x_def e1_def e2_def val1_def k_def Let_def)
      have st: "enc_wf e2" "enc_bits e2 = enc_bits e @ map (\<lambda>j. bit x (7 - ?off - j)) [0..<k]"
        unfolding e2_def
        by (rule enc_step [OF "1.prems"(1) kn(2) _ _ e1_def]; use o8 in \<open>auto simp: bx k_def\<close>)+
      have ih: "\<exists>e'. pack ok val1 (n - k) e2 = (True, e') \<and> enc_wf e' \<and>
          enc_bits e' = enc_bits e2 @ to_bits (n - k) val1"
        unfolding k_def x_def e2_def
        by (rule "1.IH" [OF n _ e1_def val1_def False])
          (use st(1) "1.prems"(2,3) in \<open>simp_all add: x_def e2_def\<close>)
      have a: "map (\<lambda>j. bit x (7 - ?off - j)) [0..<k] = to_bits k (drop_bit (n - k) val)"
        using kn by (auto simp: to_bits_def bx bit_drop_bit_eq k_def)
      have b: "to_bits (n - k) val1 = to_bits (n - k) val"
        by (rule to_bits_cong) (auto simp: v1)
      show ?thesis using ih st(2) pk a b to_bits_split [OF kn(1), of val] by auto
    qed
  qed
qed


section \<open>The decoder\<close>

record bit_decoder =
  bd_buffer :: bytes
  bd_it :: nat
  bd_offset :: nat

definition bit_decoder_init :: "bytes \<Rightarrow> bit_decoder" where
  "bit_decoder_init bs = \<lparr>bd_buffer = bs, bd_it = 0, bd_offset = 0\<rparr>"

function unpack_loop :: "nat \<Rightarrow> 'a::len word \<Rightarrow> bit_decoder \<Rightarrow> bool \<times> 'a word \<times> bit_decoder" where
  "unpack_loop n val d =
    (if 0 < n then
       if bd_it d = length (bd_buffer d) then (False, val, d)
       else
         let b = bd_buffer d ! bd_it d
         in if 8 - bd_offset d > n
            then (True,
                  val + ucast (drop_bit (8 - bd_offset d - n)
                    (b AND (push_bit (8 - bd_offset d) 1 - push_bit (8 - bd_offset d - n) 1))),
                  d\<lparr>bd_offset := bd_offset d + n\<rparr>)
            else unpack_loop (n - (8 - bd_offset d))
                  (val + push_bit (n + bd_offset d - 8)
                     (ucast (b AND (push_bit (8 - bd_offset d) 1 - 1))))
                  (d\<lparr>bd_offset := 0, bd_it := bd_it d + 1\<rparr>)
     else (True, val, d))"
  by pat_completeness auto
termination
  by (relation "measures [\<lambda>(n, val, d). n, \<lambda>(n, val, d). bd_offset d]") auto

declare unpack_loop.simps [simp del]

definition unpack :: "nat \<Rightarrow> bit_decoder \<Rightarrow> bool \<times> 'a::len word \<times> bit_decoder" where
  "unpack n d = unpack_loop n 0 d"

definition advance_bits :: "nat \<Rightarrow> bit_decoder \<Rightarrow> bool \<times> bit_decoder" where
  "advance_bits n d =
    (let extra_bits = (bd_offset d + n) mod 8;
         bytes_required = (bd_offset d + n + 7) div 8;
         bytes_offset = (bd_offset d + n) div 8
     in if bytes_required > length (bd_buffer d) - bd_it d then (False, d)
        else (True, d\<lparr>bd_it := bd_it d + bytes_offset, bd_offset := extra_bits\<rparr>))"

fun unpack_all :: "nat \<Rightarrow> bit_decoder \<Rightarrow> bytes option \<times> bit_decoder" where
  "unpack_all 0 d = (Some [], d)"
| "unpack_all (Suc m) d =
     (case unpack 8 d of
        (False, _, d1) \<Rightarrow> (None, d1)
      | (True, b, d1) \<Rightarrow>
          (case unpack_all m d1 of
             (None, d2) \<Rightarrow> (None, d2)
           | (Some bs, d2) \<Rightarrow> (Some (b # bs), d2)))"

definition unpack_bytes :: "nat \<Rightarrow> bit_decoder \<Rightarrow> bytes option \<times> bit_decoder" where
  "unpack_bytes m d =
    (if m = 0 then (Some [], d)
     else if m > length (bd_buffer d) - bd_it d then (None, d)
     else if bd_offset d = 0
       then (Some (take m (drop (bd_it d) (bd_buffer d))), d\<lparr>bd_it := bd_it d + m\<rparr>)
     else unpack_all m d)"

definition align_bytes :: "bit_decoder \<Rightarrow> bit_decoder" where
  "align_bytes d = (if bd_offset d \<noteq> 0 then d\<lparr>bd_it := bd_it d + 1, bd_offset := 0\<rparr> else d)"

definition unpack_aligned_bytes :: "nat \<Rightarrow> bit_decoder \<Rightarrow> bytes \<times> bit_decoder" where
  "unpack_aligned_bytes m d =
    (let d1 = align_bytes d
     in if m = 0 then ([], d1)
        else if m > length (bd_buffer d1) - bd_it d1 then ([], d1)
        else (take m (drop (bd_it d1) (bd_buffer d1)), d1\<lparr>bd_it := bd_it d1 + m\<rparr>))"

definition bd_nof_bits :: "bit_decoder \<Rightarrow> nat" where
  "bd_nof_bits d = bd_offset d + 8 * bd_it d"

definition bd_nof_bytes :: "bit_decoder \<Rightarrow> nat" where
  "bd_nof_bytes d = bd_it d + (if bd_offset d \<noteq> 0 then 1 else 0)"

text \<open>The bits still to be read, and the position after reading \<open>n\<close> of them.\<close>

definition dec_bits :: "bit_decoder \<Rightarrow> bool list" where
  "dec_bits d = drop (8 * bd_it d + bd_offset d) (bytes_bits (bd_buffer d))"

definition dec_advance :: "nat \<Rightarrow> bit_decoder \<Rightarrow> bit_decoder" where
  "dec_advance n d = d\<lparr>bd_it := bd_it d + (bd_offset d + n) div 8, bd_offset := (bd_offset d + n) mod 8\<rparr>"

definition dec_wf :: "bit_decoder \<Rightarrow> bool" where
  "dec_wf d \<longleftrightarrow> bd_offset d < 8 \<and> bd_it d \<le> length (bd_buffer d) \<and>
    (bd_offset d \<noteq> 0 \<longrightarrow> bd_it d < length (bd_buffer d))"

lemma dec_wf_init [simp]: "dec_wf (bit_decoder_init bs)" "dec_bits (bit_decoder_init bs) = bytes_bits bs"
  by (simp_all add: dec_wf_def bit_decoder_init_def dec_bits_def)

lemma dec_bits_advance [simp]: "dec_bits (dec_advance n d) = drop n (dec_bits d)"
proof -
  have "drop (8 * (bd_it d + (bd_offset d + n) div 8) + (bd_offset d + n) mod 8) (bytes_bits (bd_buffer d)) =
      drop n (drop (8 * bd_it d + bd_offset d) (bytes_bits (bd_buffer d)))"
    by (simp add: ac_simps)
  then show ?thesis by (simp add: dec_bits_def dec_advance_def)
qed

lemma length_dec_bits: "dec_wf d \<Longrightarrow> length (dec_bits d) = 8 * length (bd_buffer d) - (8 * bd_it d + bd_offset d)"
  by (simp add: dec_bits_def)

lemma dec_wf_advance:
  assumes "dec_wf d" and "n \<le> length (dec_bits d)"
  shows "dec_wf (dec_advance n d)"
proof -
  have le: "bd_offset d + n \<le> 8 * (length (bd_buffer d) - bd_it d)" and "bd_it d \<le> length (bd_buffer d)"
    using assms by (auto simp: length_dec_bits dec_wf_def)
  moreover have "bd_offset d + n = 8 * ((bd_offset d + n) div 8) + (bd_offset d + n) mod 8" by simp
  ultimately have "bd_it d + (bd_offset d + n) div 8 \<le> length (bd_buffer d)"
    and "(bd_offset d + n) mod 8 \<noteq> 0 \<Longrightarrow> bd_it d + (bd_offset d + n) div 8 < length (bd_buffer d)"
    by linarith+
  then show ?thesis by (simp add: dec_wf_def dec_advance_def)
qed


text \<open>The piece of the current byte one iteration reads is the value of the corresponding bits.\<close>

lemma byte_bits_take_drop:
  "off + k \<le> 8 \<Longrightarrow> take k (drop off (byte_bits b)) = to_bits k (drop_bit (8 - off - k) b)"
  by (rule nth_equalityI) (auto simp: nth_byte_bits nth_to_bits bit_drop_bit_eq intro!: arg_cong [of _ _ "bit b"])

lemma masked_piece:
  fixes b :: byte
  assumes "off + k \<le> 8"
  shows "drop_bit (8 - off - k) (b AND (push_bit (8 - off) 1 - push_bit (8 - off - k) 1)) =
    take_bit k (drop_bit (8 - off - k) b)"
proof -
  let ?c = "8 - off - k"
  have "(push_bit (8 - off) 1 - push_bit ?c 1 :: byte) = push_bit ?c (mask k)"
  proof -
    have "8 - off = ?c + k" using assms by simp
    then show ?thesis by (simp add: push_bit_eq_mult mask_eq_exp_minus_1 power_add algebra_simps)
  qed
  then show ?thesis
    by (intro bit_word_eqI) (auto simp: bit_simps dest: bit_imp_le_length)
qed

lemma ucast_take_bits_val:
  "off + k \<le> 8 \<Longrightarrow> ucast (take_bit k (drop_bit (8 - off - k) b)) =
    (bits_val (take k (drop off (byte_bits b))) :: 'a::len word)"
  by (simp add: byte_bits_take_drop bits_val_to_bits_ucast)

lemma dec_bits_step:
  assumes "dec_wf d" and "bd_it d < length (bd_buffer d)"
  shows "dec_bits d = drop (bd_offset d) (byte_bits (bd_buffer d ! bd_it d)) @
    bytes_bits (drop (Suc (bd_it d)) (bd_buffer d))"
proof -
  have "bd_buffer d = take (bd_it d) (bd_buffer d) @ bd_buffer d ! bd_it d # drop (Suc (bd_it d)) (bd_buffer d)"
    using assms(2) by (rule id_take_nth_drop)
  then have "bytes_bits (bd_buffer d) = bytes_bits (take (bd_it d) (bd_buffer d)) @
      byte_bits (bd_buffer d ! bd_it d) @ bytes_bits (drop (Suc (bd_it d)) (bd_buffer d))"
    by (metis bytes_bits_simps(2,3))
  moreover have "length (bytes_bits (take (bd_it d) (bd_buffer d))) = 8 * bd_it d"
    using assms(2) by simp
  ultimately show ?thesis using assms(1)
    by (simp add: dec_bits_def dec_wf_def)
qed

text \<open>
  Reading \<open>n\<close> bits: success exactly when that many are left, the value of these bits, and the
  position behind them.
\<close>

lemma unpack_loop_correct:
  assumes "dec_wf d" and "n \<le> length (dec_bits d)"
  shows "unpack_loop n val d = (True, val + bits_val (take n (dec_bits d)), dec_advance n d)"
  using assms
proof (induction n val d rule: unpack_loop.induct)
  case (1 n val d)
  let ?off = "bd_offset d" and ?b = "bd_buffer d ! bd_it d"
  have o8: "?off < 8" using "1.prems" by (simp add: dec_wf_def)
  show ?case
  proof (cases "n = 0")
    case True
    then show ?thesis using o8 by (simp add: unpack_loop.simps dec_advance_def)
  next
    case n: False
    have lt: "bd_it d < length (bd_buffer d)"
      using n "1.prems" by (auto simp: length_dec_bits dec_wf_def)
    note bits = dec_bits_step [OF "1.prems"(1) lt]
    show ?thesis
    proof (cases "8 - ?off > n")
      case True
      have "take n (dec_bits d) = take n (drop ?off (byte_bits ?b))" using True by (simp add: bits)
      then have v: "(bits_val (take n (dec_bits d)) :: 'a word) =
          ucast (drop_bit (8 - ?off - n) (?b AND (push_bit (8 - ?off) 1 - push_bit (8 - ?off - n) 1)))"
        by (subst masked_piece) (use True ucast_take_bits_val [of ?off n ?b, where ?'a = 'a] in simp_all)
      have "dec_advance n d = d\<lparr>bd_offset := ?off + n\<rparr>" using True by (simp add: dec_advance_def)
      with n lt True v show ?thesis by (simp only: unpack_loop.simps [of n val d] Let_def) simp
    next
      case False
      define k where "k = 8 - ?off"
      define d1 where "d1 = d\<lparr>bd_offset := 0, bd_it := bd_it d + 1\<rparr>"
      define v1 where "v1 = val + push_bit (n + ?off - 8) (ucast (?b AND (push_bit (8 - ?off) 1 - 1)))"
      have kn: "k \<le> n" "n + ?off - 8 = n - k" "?off + k = 8" using False o8 by (auto simp: k_def)
      have d1: "dec_wf d1" "d1 = dec_advance k d"
        using lt kn by (auto simp: d1_def dec_wf_def dec_advance_def)
      have len: "n - k \<le> length (dec_bits d1)" using "1.prems"(2) kn by (simp add: d1)
      have un: "unpack_loop n val d = unpack_loop (n - k) v1 d1"
        using n lt False by (subst unpack_loop.simps) (simp add: k_def d1_def v1_def Let_def)
      have ih: "unpack_loop (n - k) v1 d1 =
          (True, v1 + bits_val (take (n - k) (dec_bits d1)), dec_advance (n - k) d1)"
        unfolding k_def d1_def v1_def
        by (rule "1.IH" [OF _ _ refl]) (use n lt False len d1(1) in \<open>simp_all add: k_def d1_def\<close>)
      have "take n (dec_bits d) = drop ?off (byte_bits ?b) @ take (n - k) (dec_bits d1)"
        using kn by (simp add: bits d1(2) k_def)
      moreover have "(bits_val (drop ?off (byte_bits ?b)) :: 'a word) = ucast (?b AND (push_bit (8 - ?off) 1 - 1))"
        using ucast_take_bits_val [of ?off k ?b, where ?'a = 'a] kn(3)
        by (simp add: and_low_mask k_def)
      moreover have "length (take (n - k) (dec_bits d1)) = n - k" using len by simp
      ultimately have "val + bits_val (take n (dec_bits d)) = v1 + bits_val (take (n - k) (dec_bits d1))"
        using kn(2) by (simp only: v1_def bits_val_append push_bit_eq_mult) (simp add: mult.commute)
      moreover have "dec_advance (n - k) d1 = dec_advance n d"
      proof -
        have "?off + n = 8 + (n - k)" using kn by simp
        then show ?thesis by (simp add: d1_def dec_advance_def)
      qed
      ultimately show ?thesis using un ih by simp
    qed
  qed
qed

lemma unpack_loop_short:
  assumes "dec_wf d" and "length (dec_bits d) < n"
  shows "fst (unpack_loop n val d) = False"
  using assms
proof (induction n val d rule: unpack_loop.induct)
  case (1 n val d)
  let ?off = "bd_offset d" and ?b = "bd_buffer d ! bd_it d"
  show ?case
  proof (cases "bd_it d = length (bd_buffer d)")
    case True
    then show ?thesis using "1.prems" by (simp add: unpack_loop.simps)
  next
    case False
    then have lt: "bd_it d < length (bd_buffer d)" and o8: "?off < 8" using "1.prems" by (simp_all add: dec_wf_def)
    have big: "\<not> 8 - ?off > n" using "1.prems" lt by (auto simp: length_dec_bits)
    define d1 where "d1 = d\<lparr>bd_offset := 0, bd_it := bd_it d + 1\<rparr>"
    have d1: "dec_wf d1" "d1 = dec_advance (8 - ?off) d"
      using lt o8 by (auto simp: d1_def dec_wf_def dec_advance_def)
    have "length (dec_bits d1) < n - (8 - ?off)"
      using "1.prems" big lt by (auto simp: d1(2) length_dec_bits)
    then have "fst (unpack_loop (n - (8 - ?off)) (val + push_bit (n + ?off - 8)
        (ucast (?b AND (push_bit (8 - ?off) 1 - 1)))) d1) = False"
      unfolding d1_def
      by (intro "1.IH" [OF _ _ refl]) (use "1.prems" lt big d1(1) in \<open>simp_all add: d1_def\<close>)
    then show ?thesis using "1.prems" lt big by (subst unpack_loop.simps) (simp add: d1_def Let_def)
  qed
qed


lemma unpack_correct [codec_simps]:
  assumes "dec_wf d" and "n \<le> length (dec_bits d)"
  shows "unpack n d = (True, bits_val (take n (dec_bits d)), dec_advance n d)"
  by (simp add: unpack_def unpack_loop_correct [OF assms])

lemma fst_unpack [codec_simps]:
  assumes "dec_wf d"
  shows "fst (unpack n d :: bool \<times> 'a::len word \<times> bit_decoder) \<longleftrightarrow> n \<le> length (dec_bits d)"
  using unpack_loop_correct [OF assms, of n "0 :: 'a word"] unpack_loop_short [OF assms, of n "0 :: 'a word"]
  by (cases "n \<le> length (dec_bits d)") (simp_all add: unpack_def)

lemma dec_advance_advance: "dec_advance m (dec_advance n d) = dec_advance (n + m) d"
proof -
  have "bd_offset d + (n + m) = ((bd_offset d + n) mod 8 + m) + (bd_offset d + n) div 8 * 8" by simp
  then have "(bd_offset d + (n + m)) div 8 = (bd_offset d + n) div 8 + ((bd_offset d + n) mod 8 + m) div 8"
    by (metis div_mult_self1 zero_neq_numeral)
  moreover have "(bd_offset d + (n + m)) mod 8 = ((bd_offset d + n) mod 8 + m) mod 8"
    by (simp add: mod_simps add.assoc)
  ultimately show ?thesis by (simp add: dec_advance_def)
qed

lemma bd_buffer_advance [simp]: "bd_buffer (dec_advance n d) = bd_buffer d"
  by (simp add: dec_advance_def)

lemma bits_val_byte_bits [simp]: "bits_val (byte_bits b) = b"
  by (simp add: byte_bits_eq_to_bits bits_val_to_bits take_bit_word_eq_self)

lemma byte_bits_bits_val: "length bs = 8 \<Longrightarrow> byte_bits (bits_val bs) = bs"
  by (rule nth_equalityI) (auto simp: nth_byte_bits bit_bits_val)

lemma unpack_all_correct:
  assumes "dec_wf d" and "8 * m \<le> length (dec_bits d)"
  shows "\<exists>bs. unpack_all m d = (Some bs, dec_advance (8 * m) d) \<and> length bs = m \<and>
    bytes_bits bs = take (8 * m) (dec_bits d)"
  using assms
proof (induction m arbitrary: d)
  case 0
  then show ?case by (simp add: dec_advance_def dec_wf_def)
next
  case (Suc m)
  let ?d1 = "dec_advance 8 d"
  have u: "unpack 8 d = (True, bits_val (take 8 (dec_bits d)) :: byte, ?d1)"
    using Suc.prems by (intro unpack_correct) auto
  obtain bs where bs: "unpack_all m ?d1 = (Some bs, dec_advance (8 * m) ?d1)" "length bs = m"
    "bytes_bits bs = take (8 * m) (drop 8 (dec_bits d))"
    using Suc.IH [of ?d1] Suc.prems dec_wf_advance [of d 8] by fastforce
  have "take 8 (dec_bits d) @ take (8 * m) (drop 8 (dec_bits d)) = take (8 + 8 * m) (dec_bits d)"
    by (simp add: take_add)
  moreover have "dec_advance (8 * m) ?d1 = dec_advance (8 * Suc m) d"
    using Suc.prems(1) by (simp add: dec_advance_advance dec_wf_def)
  ultimately show ?case
    using u bs Suc.prems(2)
    by (intro exI [of _ "bits_val (take 8 (dec_bits d)) # bs"]) (simp add: byte_bits_bits_val)
qed

lemma bytes_bits_take_drop:
  "bytes_bits (take m (drop i bs)) = take (8 * m) (drop (8 * i) (bytes_bits bs))"
proof (induction bs arbitrary: i m)
  case (Cons b bs)
  show ?case
  proof (cases i)
    case 0
    then show ?thesis
    proof (cases m)
      case (Suc m')
      with 0 Cons.IH [of m' 0] show ?thesis by simp
    qed simp
  next
    case (Suc i')
    with Cons.IH [of m i'] show ?thesis by simp
  qed
qed simp

lemma unpack_bytes_correct:
  assumes "dec_wf d" and "8 * m \<le> length (dec_bits d)"
  shows "\<exists>bs. unpack_bytes m d = (Some bs, dec_advance (8 * m) d) \<and> length bs = m \<and>
    bytes_bits bs = take (8 * m) (dec_bits d)"
proof (cases "m = 0 \<or> bd_offset d \<noteq> 0")
  case True
  moreover have "m \<le> length (bd_buffer d) - bd_it d" using assms by (auto simp: length_dec_bits)
  ultimately show ?thesis
    using unpack_all_correct [OF assms] assms(1)
    by (auto simp: unpack_bytes_def dec_advance_def dec_wf_def)
next
  case False
  have "m \<le> length (bd_buffer d) - bd_it d" using assms by (auto simp: length_dec_bits)
  with False show ?thesis
    by (auto simp: unpack_bytes_def dec_advance_def dec_bits_def bytes_bits_take_drop)
qed

lemma pack_all_appends:
  assumes "enc_wf e" and "\<And>i. ok i"
  shows "\<exists>e'. pack_all ok bs e = (True, e') \<and> enc_wf e' \<and> enc_bits e' = enc_bits e @ bytes_bits bs"
  using assms(1)
proof (induction bs arbitrary: e)
  case (Cons b bs)
  obtain e1 where e1: "pack ok (ucast b) 8 e = (True, e1)" "enc_wf e1"
    "enc_bits e1 = enc_bits e @ to_bits 8 (ucast b :: u64)"
    using pack_appends [OF Cons.prems, of 8 ok "ucast b"] assms(2) by auto
  have "to_bits 8 (ucast b :: u64) = byte_bits b"
    by (auto simp: byte_bits_eq_to_bits to_bits_def bit_ucast_iff)
  with e1 Cons.IH [OF e1(2)] show ?case by auto
qed simp

lemma pack_bytes_appends:
  assumes "enc_wf e" and "\<And>i. ok i"
  shows "\<exists>e'. pack_bytes ok bs e = (True, e') \<and> enc_wf e' \<and> enc_bits e' = enc_bits e @ bytes_bits bs"
proof (cases "bs = [] \<or> be_offset e \<noteq> 0")
  case True
  then show ?thesis using pack_all_appends [OF assms] assms(1) by (auto simp: pack_bytes_def)
next
  case False
  then show ?thesis using assms by (auto simp: pack_bytes_def enc_wf_def enc_bits_def be_nof_bits_def)
qed

lemma length_enc_bits: "enc_wf e \<Longrightarrow> length (enc_bits e) = be_nof_bits e"
  by (cases "be_bytes e") (auto simp: enc_bits_def be_nof_bits_def enc_wf_def)

lemma enc_bits_prefix: "bytes_bits (be_bytes e) = enc_bits e @ drop (be_nof_bits e) (bytes_bits (be_bytes e))"
  by (simp add: enc_bits_def)

text \<open>What is not yet written of the last byte reads as zero bits.\<close>

lemma enc_padding:
  assumes "enc_wf e"
  shows "bytes_bits (be_bytes e) = enc_bits e @ replicate (8 * length (be_bytes e) - length (enc_bits e)) False"
proof (cases "be_offset e = 0")
  case True
  then show ?thesis using assms by (simp add: enc_bits_eq)
next
  case False
  then obtain bs b where e: "be_bytes e = bs @ [b]" using assms by (cases "be_bytes e" rule: rev_cases) (auto simp: enc_wf_def)
  have off: "be_offset e < 8" and clear: "\<And>i. i < 8 - be_offset e \<Longrightarrow> \<not> bit b i"
    using assms False e by (auto simp: enc_wf_def)
  have "drop (be_offset e) (byte_bits b) = replicate (8 - be_offset e) False"
    by (rule nth_equalityI) (use off clear in \<open>simp_all add: nth_byte_bits\<close>)
  then have "byte_bits b = take (be_offset e) (byte_bits b) @ replicate (8 - be_offset e) False"
    by (metis append_take_drop_id)
  then show ?thesis using assms False off by (simp add: enc_bits_eq e)
qed

end
