(* ===== verification/Sdu_Window.thy ===== *)
theory Sdu_Window
  imports Prelude
begin

text \<open>
  \<open>circular_map\<close> (\<open>include/srsran/adt/circular_map.h\<close>) and the SDU window built on it
  (\<open>lib/support/sdu_window_impl.h\<close>, interface \<open>include/srsran/support/sdu_window.h\<close>): the container
  that PDCP and RLC entities keep their SDUs in, indexed by COUNT or sequence number. An element with
  key \<open>k\<close> lives in slot \<open>k mod N\<close>; two keys that agree modulo \<open>N\<close> exclude each other.

  The locale \<open>sdu_window\<close> is the interface the entities use; its last section interprets it on
  the model of the container.
\<close>

section \<open>The circular map\<close>

text \<open>
  The arrays \<open>buffer\<close> and \<open>present\<close> are one function from slot indices to optional pairs of key and
  object: an object exists exactly where \<open>present\<close> holds. \<open>cm_size\<close> is the template parameter \<open>N\<close>.
\<close>

record ('k, 'a) circular_map =
  cm_slots :: "nat \<Rightarrow> ('k \<times> 'a) option"
  cm_count :: nat
  cm_size :: nat

definition cm_new :: "nat \<Rightarrow> ('k, 'a) circular_map" where
  "cm_new n = \<lparr>cm_slots = (\<lambda>_. None), cm_count = 0, cm_size = n\<rparr>"

definition cm_idx :: "('k::len word, 'a) circular_map \<Rightarrow> 'k word \<Rightarrow> nat" where
  "cm_idx m k = unat k mod cm_size m"

definition cm_contains :: "('k::len word, 'a) circular_map \<Rightarrow> 'k word \<Rightarrow> bool" where
  "cm_contains m k = (case cm_slots m (cm_idx m k) of None \<Rightarrow> False | Some (k', _) \<Rightarrow> k' = k)"

definition cm_insert :: "('k::len word, 'a) circular_map \<Rightarrow> 'k word \<Rightarrow> 'a \<Rightarrow> bool \<times> ('k word, 'a) circular_map" where
  "cm_insert m k v =
    (let idx = cm_idx m k
     in case cm_slots m idx of
          Some _ \<Rightarrow> (False, m)
        | None \<Rightarrow> (True, m\<lparr>cm_slots := (cm_slots m)(idx := Some (k, v)), cm_count := cm_count m + 1\<rparr>))"

definition cm_erase :: "('k::len word, 'a) circular_map \<Rightarrow> 'k word \<Rightarrow> bool \<times> ('k word, 'a) circular_map" where
  "cm_erase m k =
    (if \<not> cm_contains m k then (False, m)
     else (True, m\<lparr>cm_slots := (cm_slots m)(cm_idx m k := None), cm_count := cm_count m - 1\<rparr>))"

definition cm_overwrite :: "('k::len word, 'a) circular_map \<Rightarrow> 'k word \<Rightarrow> 'a \<Rightarrow> ('k word, 'a) circular_map" where
  "cm_overwrite m k v =
    (let m1 = (case cm_slots m (cm_idx m k) of Some (k', _) \<Rightarrow> snd (cm_erase m k') | None \<Rightarrow> m)
     in snd (cm_insert m1 k v))"

definition cm_clear :: "('k, 'a) circular_map \<Rightarrow> ('k, 'a) circular_map" where
  "cm_clear m = m\<lparr>cm_slots := (\<lambda>i. if i < cm_size m then None else cm_slots m i), cm_count := 0\<rparr>"

text \<open>
  \<open>operator[]\<close> asserts that the key is contained and hands out a reference: reading through it is
  \<open>cm_at\<close> (\<open>None\<close> where the assertion fails), writing through it is \<open>cm_assign\<close>.
\<close>

definition cm_at :: "('k::len word, 'a) circular_map \<Rightarrow> 'k word \<Rightarrow> 'a option" where
  "cm_at m k = (case cm_slots m (cm_idx m k) of None \<Rightarrow> None | Some (k', v) \<Rightarrow> if k' = k then Some v else None)"

definition cm_assign :: "('k::len word, 'a) circular_map \<Rightarrow> 'k word \<Rightarrow> 'a \<Rightarrow> ('k word, 'a) circular_map" where
  "cm_assign m k v =
    (if cm_contains m k then m\<lparr>cm_slots := (cm_slots m)(cm_idx m k := Some (k, v))\<rparr> else m)"

definition cm_empty :: "('k, 'a) circular_map \<Rightarrow> bool" where
  "cm_empty m \<longleftrightarrow> cm_count m = 0"

definition cm_full :: "('k, 'a) circular_map \<Rightarrow> bool" where
  "cm_full m \<longleftrightarrow> cm_count m = cm_size m"

definition cm_has_space :: "('k::len word, 'a) circular_map \<Rightarrow> 'k word \<Rightarrow> bool" where
  "cm_has_space m k \<longleftrightarrow> cm_slots m (cm_idx m k) = None"

text \<open>
  Iterators are slot indices: \<open>cm_next\<close> is \<open>operator++\<close>, which skips absent slots, \<open>cm_begin\<close> starts at
  slot 0 or the first present slot behind it, and \<open>cm_size\<close> is the end.
\<close>

function cm_next :: "('k, 'a) circular_map \<Rightarrow> nat \<Rightarrow> nat" where
  "cm_next m idx =
    (if Suc idx < cm_size m \<and> cm_slots m (Suc idx) = None then cm_next m (Suc idx) else Suc idx)"
  by pat_completeness auto
termination
  by (relation "measure (\<lambda>(m, idx). cm_size m - idx)") auto

declare cm_next.simps [simp del]

definition cm_begin :: "('k, 'a) circular_map \<Rightarrow> nat" where
  "cm_begin m = (if 0 < cm_size m \<and> cm_slots m 0 = None then cm_next m 0 else 0)"

definition cm_find :: "('k::len word, 'a) circular_map \<Rightarrow> 'k word \<Rightarrow> nat" where
  "cm_find m k = (if cm_contains m k then cm_idx m k else cm_size m)"

definition cm_erase_it :: "('k, 'a) circular_map \<Rightarrow> nat \<Rightarrow> nat \<times> ('k, 'a) circular_map" where
  "cm_erase_it m idx =
    (cm_next m idx, m\<lparr>cm_slots := (cm_slots m)(idx := None), cm_count := cm_count m - 1\<rparr>)"

text \<open>Every present slot holds a key that belongs there, and the counter is the number of present slots.\<close>

definition cm_wf :: "('k::len word, 'a) circular_map \<Rightarrow> bool" where
  "cm_wf m \<longleftrightarrow> 0 < cm_size m \<and>
    (\<forall>i k v. cm_slots m i = Some (k, v) \<longrightarrow> i = cm_idx m k) \<and>
    cm_count m = card {i. cm_slots m i \<noteq> None}"

lemma cm_idx_less: "0 < cm_size m \<Longrightarrow> cm_idx m k < cm_size m"
  by (simp add: cm_idx_def)

lemma cm_idx_update [simp]:
  "cm_idx (m\<lparr>cm_slots := f\<rparr>) k = cm_idx m k"
  "cm_idx (m\<lparr>cm_slots := f, cm_count := n\<rparr>) k = cm_idx m k"
  by (simp_all add: cm_idx_def)

lemma cm_wf_slot: "cm_wf m \<Longrightarrow> cm_slots m i = Some (k, v) \<Longrightarrow> i = cm_idx m k"
  by (simp add: cm_wf_def)

lemma cm_wf_size: "cm_wf m \<Longrightarrow> 0 < cm_size m"
  by (simp add: cm_wf_def)

lemma cm_wf_dom: "cm_wf m \<Longrightarrow> {i. cm_slots m i \<noteq> None} \<subseteq> {..< cm_size m}"
  using cm_wf_slot [of m] cm_idx_less [OF cm_wf_size, of m] by fastforce

lemma cm_wf_finite: "cm_wf m \<Longrightarrow> finite {i. cm_slots m i \<noteq> None}"
  using cm_wf_dom finite_subset by blast

lemma cm_contains_at: "cm_contains m k \<longleftrightarrow> cm_at m k \<noteq> None"
  by (auto simp: cm_contains_def cm_at_def split: option.splits prod.splits)

lemma cm_at_slots: "cm_wf m \<Longrightarrow> cm_at m k = Some v \<longleftrightarrow> cm_slots m (cm_idx m k) = Some (k, v)"
  by (auto simp: cm_at_def split: option.splits prod.splits)

lemma cm_wf_new [simp]: "0 < n \<Longrightarrow> cm_wf (cm_new n)"
  by (simp add: cm_wf_def cm_new_def)

lemma cm_at_new [simp]: "cm_at (cm_new n) k = None"
  by (simp add: cm_at_def cm_new_def)

lemma cm_size_ops [simp]:
  "cm_size (cm_new n) = n"
  "cm_size (snd (cm_insert m k v)) = cm_size m"
  "cm_size (snd (cm_erase m k)) = cm_size m"
  "cm_size (cm_overwrite m k v) = cm_size m"
  "cm_size (cm_clear m) = cm_size m"
  "cm_size (cm_assign m k v) = cm_size m"
  by (auto simp: cm_new_def cm_insert_def cm_erase_def cm_overwrite_def cm_clear_def cm_assign_def Let_def
      split: option.splits prod.splits)

lemma cm_wf_erase:
  assumes "cm_wf m"
  shows "cm_wf (snd (cm_erase m k))"
proof (cases "cm_contains m k")
  case True
  let ?i = "cm_idx m k"
  have "?i \<in> {i. cm_slots m i \<noteq> None}" using True by (auto simp: cm_contains_def split: option.splits)
  moreover have "{i. ((cm_slots m)(?i := None)) i \<noteq> None} = {i. cm_slots m i \<noteq> None} - {?i}" by auto
  ultimately have "card {i. ((cm_slots m)(?i := None)) i \<noteq> None} = cm_count m - 1"
    using assms cm_wf_finite [OF assms] by (simp add: cm_wf_def)
  with True assms show ?thesis by (auto simp: cm_wf_def cm_erase_def cm_idx_def split: if_splits)
qed (use assms in \<open>simp add: cm_erase_def\<close>)

lemma cm_wf_insert:
  assumes "cm_wf m"
  shows "cm_wf (snd (cm_insert m k v))"
proof (cases "cm_slots m (cm_idx m k)")
  case None
  let ?i = "cm_idx m k"
  have "{i. ((cm_slots m)(?i := Some (k, v))) i \<noteq> None} = insert ?i {i. cm_slots m i \<noteq> None}" by auto
  moreover have "?i \<notin> {i. cm_slots m i \<noteq> None}" using None by simp
  ultimately have "card {i. ((cm_slots m)(?i := Some (k, v))) i \<noteq> None} = Suc (cm_count m)"
    using assms cm_wf_finite [OF assms] by (simp add: cm_wf_def)
  with None assms show ?thesis
    by (auto simp: cm_wf_def cm_insert_def cm_idx_def Let_def split: if_splits)
qed (use assms in \<open>simp add: cm_insert_def Let_def\<close>)

lemma cm_wf_overwrite: "cm_wf m \<Longrightarrow> cm_wf (cm_overwrite m k v)"
  by (auto simp: cm_overwrite_def Let_def cm_wf_erase cm_wf_insert split: option.splits)

lemma cm_slots_clear: "cm_wf m \<Longrightarrow> cm_slots (cm_clear m) = (\<lambda>_. None)"
  using cm_wf_dom [of m] by (fastforce simp: cm_clear_def)

lemma cm_wf_clear: "cm_wf m \<Longrightarrow> cm_wf (cm_clear m)"
  using cm_slots_clear [of m] by (simp add: cm_wf_def) (simp add: cm_clear_def)

lemma cm_wf_assign:
  assumes "cm_wf m"
  shows "cm_wf (cm_assign m k v)"
proof (cases "cm_contains m k")
  case True
  then have "{i. ((cm_slots m)(cm_idx m k := Some (k, v))) i \<noteq> None} = {i. cm_slots m i \<noteq> None}"
    by (auto simp: cm_contains_def split: option.splits)
  with True assms show ?thesis by (auto simp: cm_wf_def cm_assign_def cm_idx_def split: if_splits)
qed (use assms in \<open>simp add: cm_assign_def\<close>)

lemma cm_at_erase:
  "cm_wf m \<Longrightarrow> cm_at (snd (cm_erase m k)) j = (if j = k then None else cm_at m j)"
  by (auto simp: cm_erase_def cm_at_def cm_contains_def cm_idx_def split: option.splits if_splits)

lemma cm_at_overwrite:
  assumes "cm_wf m"
  shows "cm_at (cm_overwrite m k v) j =
    (if j = k then Some v else if cm_idx m j = cm_idx m k then None else cm_at m j)"
proof (cases "cm_slots m (cm_idx m k)")
  case None
  then show ?thesis
    by (auto simp: cm_overwrite_def cm_insert_def Let_def cm_at_def cm_idx_def)
next
  case (Some p)
  obtain k' v' where p: "p = (k', v')" by (cases p)
  have "cm_idx m k' = cm_idx m k" using cm_wf_slot [OF assms] Some p by metis
  then have er: "snd (cm_erase m k') = m\<lparr>cm_slots := (cm_slots m)(cm_idx m k := None), cm_count := cm_count m - 1\<rparr>"
    using Some p by (simp add: cm_erase_def cm_contains_def)
  show ?thesis
    using Some p by (auto simp: cm_overwrite_def er cm_insert_def Let_def cm_at_def cm_idx_def)
qed

lemma cm_at_clear: "cm_wf m \<Longrightarrow> cm_at (cm_clear m) j = None"
  by (simp add: cm_at_def cm_slots_clear)

lemma cm_at_assign:
  "cm_wf m \<Longrightarrow> cm_at (cm_assign m k v) j = (if j = k \<and> cm_at m k \<noteq> None then Some v else cm_at m j)"
  by (auto simp: cm_assign_def cm_at_def cm_contains_def cm_idx_def split: option.splits if_splits)

lemma cm_at_same_slot:
  "cm_wf m \<Longrightarrow> cm_at m j \<noteq> None \<Longrightarrow> cm_at m k \<noteq> None \<Longrightarrow> cm_idx m j = cm_idx m k \<Longrightarrow> j = k"
  by (auto simp: cm_at_def split: option.splits if_splits)

section \<open>Iteration\<close>

text \<open>The present slots from \<open>idx\<close> on, in the order the iterator visits them.\<close>

definition cm_present_from :: "('k, 'a) circular_map \<Rightarrow> nat \<Rightarrow> nat list" where
  "cm_present_from m idx = filter (\<lambda>i. cm_slots m i \<noteq> None) [idx ..< cm_size m]"

text \<open>What a range-based \<open>for\<close> loop visits: from \<open>begin()\<close>, by \<open>operator++\<close>, up to \<open>end()\<close>.\<close>

function cm_visit :: "('k, 'a) circular_map \<Rightarrow> nat \<Rightarrow> nat list" where
  "cm_visit m idx = (if idx < cm_size m then idx # cm_visit m (cm_next m idx) else [])"
  by pat_completeness auto

lemma cm_next_greater: "idx < cm_next m idx"
  by (induction m idx rule: cm_next.induct) (subst cm_next.simps, auto)

termination cm_visit
  by (relation "measure (\<lambda>(m, idx). cm_size m - idx)") (auto simp: cm_next_greater diff_less_mono2)

declare cm_visit.simps [simp del]

definition cm_iterate :: "('k, 'a) circular_map \<Rightarrow> nat list" where
  "cm_iterate m = cm_visit m (cm_begin m)"

lemma cm_next_present: "cm_present_from m (Suc idx) = cm_present_from m (cm_next m idx)"
proof (induction m idx rule: cm_next.induct)
  case (1 m idx)
  then show ?case by (subst cm_next.simps) (auto simp: cm_present_from_def upt_conv_Cons)
qed

lemma cm_next_is_present: "cm_next m idx < cm_size m \<Longrightarrow> cm_slots m (cm_next m idx) \<noteq> None"
proof (induction m idx rule: cm_next.induct)
  case (1 m idx)
  then show ?case by (subst (asm) (2) cm_next.simps, subst cm_next.simps) (auto split: if_splits)
qed

lemma cm_visit_present:
  "idx < cm_size m \<Longrightarrow> cm_slots m idx \<noteq> None \<Longrightarrow> cm_visit m idx = cm_present_from m idx"
proof (induction m idx rule: cm_visit.induct)
  case (1 m idx)
  have eq: "cm_present_from m idx = idx # cm_present_from m (cm_next m idx)"
    using 1(2,3) cm_next_present [of m idx] by (simp add: cm_present_from_def upt_conv_Cons)
  show ?case
  proof (cases "cm_next m idx < cm_size m")
    case True
    then have "cm_visit m (cm_next m idx) = cm_present_from m (cm_next m idx)"
      using 1(1) [OF 1(2)] cm_next_is_present by blast
    then show ?thesis using 1(2) eq by (subst cm_visit.simps) simp
  next
    case False
    then show ?thesis using 1(2) eq
      by (subst cm_visit.simps) (simp add: cm_visit.simps [of m "cm_next m idx"] cm_present_from_def)
  qed
qed

lemma cm_visit_end: "\<not> idx < cm_size m \<Longrightarrow> cm_visit m idx = []"
  by (subst cm_visit.simps) simp

text \<open>A loop over the container visits every present slot once, in slot order.\<close>

lemma cm_iterate_present:
  assumes "0 < cm_size m"
  shows "cm_iterate m = cm_present_from m 0"
proof (cases "cm_slots m 0 = None")
  case True
  have "cm_present_from m 0 = cm_present_from m (cm_next m 0)"
    using True assms cm_next_present [of m 0] by (simp add: cm_present_from_def upt_conv_Cons)
  moreover have "cm_visit m (cm_next m 0) = cm_present_from m (cm_next m 0)"
    by (cases "cm_next m 0 < cm_size m")
      (simp_all add: cm_visit_present cm_next_is_present cm_visit_end cm_present_from_def)
  ultimately show ?thesis using True assms by (simp add: cm_iterate_def cm_begin_def)
next
  case False
  then have "cm_begin m = 0" by (auto simp: cm_begin_def)
  then show ?thesis using assms False by (simp add: cm_iterate_def cm_visit_present)
qed

section \<open>The SDU window interface\<close>

text \<open>
  What PDCP and RLC entities rely on: \<open>look\<close> is \<open>has_sn\<close> followed by \<open>operator[]\<close>, and an element
  only displaces what shares its slot.
\<close>

locale sdu_window =
  fixes ok :: "'w \<Rightarrow> bool"
    and look :: "'w \<Rightarrow> 'k::len word \<Rightarrow> 'a option"
    and add :: "'w \<Rightarrow> 'k word \<Rightarrow> 'a \<Rightarrow> 'w"
    and remove :: "'w \<Rightarrow> 'k word \<Rightarrow> 'w"
    and clear :: "'w \<Rightarrow> 'w"
    and slot :: "'w \<Rightarrow> 'k word \<Rightarrow> nat"
  assumes ok_add: "ok w \<Longrightarrow> ok (add w k v)"
    and ok_remove: "ok w \<Longrightarrow> ok (remove w k)"
    and ok_clear: "ok w \<Longrightarrow> ok (clear w)"
    and slot_add: "slot (add w k v) = slot w"
    and slot_remove: "slot (remove w k) = slot w"
    and slot_clear: "slot (clear w) = slot w"
    and look_add: "ok w \<Longrightarrow> look (add w k v) j =
      (if j = k then Some v else if slot w j = slot w k then None else look w j)"
    and look_remove: "ok w \<Longrightarrow> look (remove w k) j = (if j = k then None else look w j)"
    and look_clear: "ok w \<Longrightarrow> look (clear w) j = None"
    and slot_unique: "ok w \<Longrightarrow> look w j \<noteq> None \<Longrightarrow> look w k \<noteq> None \<Longrightarrow> slot w j = slot w k \<Longrightarrow> j = k"
begin

definition remove_all :: "'k word list \<Rightarrow> 'w \<Rightarrow> 'w" where
  "remove_all ks w = fold (\<lambda>k w. remove w k) ks w"

lemma remove_all_ok: "ok w \<Longrightarrow> ok (remove_all ks w)"
  by (induction ks arbitrary: w) (simp_all add: remove_all_def ok_remove)

lemma look_remove_all: "ok w \<Longrightarrow> look (remove_all ks w) j = (if j \<in> set ks then None else look w j)"
  by (induction ks arbitrary: w) (auto simp: remove_all_def ok_remove look_remove)

text \<open>Keys that are in the window never share a slot with a new key that is alone in its slot.\<close>

lemma look_add_free:
  assumes "ok w" and "\<And>j. look w j \<noteq> None \<Longrightarrow> slot w j = slot w k \<Longrightarrow> j = k"
  shows "look (add w k v) = (look w)(k \<mapsto> v)"
proof
  fix j
  show "look (add w k v) j = ((look w)(k \<mapsto> v)) j"
    using assms(2) [of j] by (cases "look w j") (auto simp: look_add [OF assms(1)])
qed

end

text \<open>The slot of a key is the key modulo the capacity: keys that span less than the capacity never collide.\<close>

locale modular_window = sdu_window ok look add remove clear slot
  for ok :: "'w \<Rightarrow> bool"
    and look :: "'w \<Rightarrow> 'k::len word \<Rightarrow> 'a option"
    and add :: "'w \<Rightarrow> 'k word \<Rightarrow> 'a \<Rightarrow> 'w"
    and remove :: "'w \<Rightarrow> 'k word \<Rightarrow> 'w"
    and clear :: "'w \<Rightarrow> 'w"
    and slot :: "'w \<Rightarrow> 'k word \<Rightarrow> nat" +
  fixes cap :: "'w \<Rightarrow> nat"
  assumes slot_mod: "slot w k = unat k mod cap w"
    and cap_add: "cap (add w k v) = cap w"
    and cap_remove: "cap (remove w k) = cap w"
    and cap_clear: "cap (clear w) = cap w"
begin

lemma span_no_collision:
  assumes "slot w j = slot w k" "lo \<le> j" "lo \<le> k" "unat j < unat lo + cap w" "unat k < unat lo + cap w"
  shows "j = k"
proof (rule ccontr)
  have aux: False
    if "unat a < unat b" "unat lo \<le> unat a" "unat b < unat lo + cap w" "unat a mod cap w = unat b mod cap w"
    for a b :: "'k word"
  proof -
    have "(unat b - unat a) mod cap w = 0"
      using that by (metis mod_eq_dvd_iff_nat less_imp_le dvd_imp_mod_0)
    moreover have "0 < unat b - unat a" "unat b - unat a < cap w" using that by linarith+
    ultimately show False by simp
  qed
  assume "j \<noteq> k"
  then have "unat j < unat k \<or> unat k < unat j" by (metis nat_neq_iff word_unat_eq_iff)
  with aux [of j k] aux [of k j] assms show False by (auto simp: slot_mod word_le_nat_alt)
qed

lemma look_add_span:
  assumes "ok w"
    and "\<And>j. look w j \<noteq> None \<Longrightarrow> lo \<le> j \<and> unat j < unat lo + cap w"
    and "lo \<le> k" "unat k < unat lo + cap w"
  shows "look (add w k v) = (look w)(k \<mapsto> v)"
  using assms(1)
proof (rule look_add_free)
  fix j
  assume "look w j \<noteq> None" "slot w j = slot w k"
  then show "j = k" using span_no_collision [of w j k lo] assms(2) [of j] assms(3,4) by blast
qed

end

section \<open>\<open>sdu_window_impl\<close>\<close>

text \<open>
  \<open>add_sn\<close> hands out a reference to a fresh object which every caller fills in at once, so the model
  takes the object. Its assertion on a key that is already present is logged and the element is
  overwritten; \<open>remove_sn\<close> of an absent key changes nothing.
\<close>

definition add_sn :: "('k::len word, 'a) circular_map \<Rightarrow> 'k word \<Rightarrow> 'a \<Rightarrow> ('k word, 'a) circular_map" where
  "add_sn w sn v = cm_overwrite w sn v"

definition remove_sn :: "('k::len word, 'a) circular_map \<Rightarrow> 'k word \<Rightarrow> ('k word, 'a) circular_map" where
  "remove_sn w sn = (if \<not> cm_contains w sn then w else snd (cm_erase w sn))"

definition has_sn :: "('k::len word, 'a) circular_map \<Rightarrow> 'k word \<Rightarrow> bool" where
  "has_sn w sn = cm_contains w sn"

definition win_size :: "('k, 'a) circular_map \<Rightarrow> nat" where
  "win_size w = cm_count w"

lemma cm_at_remove_sn: "cm_wf w \<Longrightarrow> cm_at (remove_sn w k) j = (if j = k then None else cm_at w j)"
  using cm_at_erase [of w k j] by (auto simp: remove_sn_def cm_contains_at)

lemma cm_wf_add_sn: "cm_wf w \<Longrightarrow> cm_wf (add_sn w k v)"
  by (simp add: add_sn_def cm_wf_overwrite)

lemma cm_at_add_sn: "cm_wf w \<Longrightarrow> cm_at (add_sn w k v) j =
    (if j = k then Some v else if cm_idx w j = cm_idx w k then None else cm_at w j)"
  by (simp add: add_sn_def cm_at_overwrite)

lemma cm_wf_remove_sn: "cm_wf w \<Longrightarrow> cm_wf (remove_sn w k)"
  by (simp add: remove_sn_def cm_wf_erase)

lemma cm_size_sn [simp]:
  "cm_size (add_sn w k v) = cm_size w"
  "cm_size (remove_sn w k) = cm_size w"
  by (simp_all add: add_sn_def remove_sn_def)

lemma has_sn_at: "has_sn w k \<longleftrightarrow> cm_at w k \<noteq> None"
  by (simp add: has_sn_def cm_contains_at)

lemma cm_idx_sn:
  "cm_idx (add_sn w k v) = cm_idx w"
  "cm_idx (remove_sn w k) = cm_idx w"
  "cm_idx (cm_clear w) = cm_idx w"
  by (rule ext, simp add: cm_idx_def)+

interpretation sw: modular_window cm_wf cm_at add_sn remove_sn cm_clear cm_idx cm_size
  by unfold_locales
    (auto simp: cm_wf_add_sn cm_wf_remove_sn cm_wf_clear cm_at_add_sn
      cm_at_remove_sn cm_at_clear cm_idx_sn cm_idx_def intro: cm_at_same_slot)

text \<open>Writing through the reference of a present element.\<close>

lemma cm_at_assign_present: "cm_wf w \<Longrightarrow> cm_at w k \<noteq> None \<Longrightarrow> cm_at (cm_assign w k v) = (cm_at w)(k \<mapsto> v)"
  by (rule ext) (simp add: cm_at_assign)

lemmas window_wf [window_simps] = sw.ok_add sw.ok_remove sw.ok_clear cm_wf_assign
lemmas window_look [window_simps] = sw.look_remove sw.look_clear cm_at_assign has_sn_at

lemma cm_count_zero: "cm_wf w \<Longrightarrow> cm_count w = 0 \<longleftrightarrow> (\<forall>k. cm_at w k = None)"
proof
  assume wf: "cm_wf w" and "cm_count w = 0"
  then have "{i. cm_slots w i \<noteq> None} = {}" using cm_wf_finite [OF wf] by (simp add: cm_wf_def)
  then have "cm_slots w i = None" for i by blast
  then show "\<forall>k. cm_at w k = None" by (simp add: cm_at_def)
next
  assume wf: "cm_wf w" and none: "\<forall>k. cm_at w k = None"
  have "cm_slots w i = None" for i
  proof (cases "cm_slots w i")
    case (Some p)
    obtain k v where "p = (k, v)" by (cases p)
    then have "cm_at w k = Some v" using Some cm_wf_slot [OF wf, of i k v] cm_at_slots [OF wf, of k v] by simp
    with none show ?thesis by simp
  qed
  with wf show "cm_count w = 0" by (simp add: cm_wf_def)
qed

end
