(* ===== verification/Pdcp_Base.thy ===== *)
theory Pdcp_Base
  imports Security_Laws Bit_Codec Sdu_Window
begin

text \<open>
  What the transmitting and the receiving PDCP entity share: configuration
  (\<open>include/srsran/pdcp/pdcp_config.h\<close>), COUNT, HFN and SN arithmetic (\<open>lib/pdcp/pdcp_sn.h\<close>), header and
  window sizes (\<open>lib/pdcp/pdcp_entity_tx_rx_base.h\<close>), the estimation of a COUNT from a received SN, the
  fields of PDU headers (\<open>lib/pdcp/pdcp_pdu.h\<close>) and the metrics counters.
\<close>

section \<open>Configuration\<close>

datatype pdcp_sn_size = size12bits | size18bits | sn_size_invalid

fun pdcp_sn_size_to_uint :: "pdcp_sn_size \<Rightarrow> nat" where
  "pdcp_sn_size_to_uint size12bits = 12"
| "pdcp_sn_size_to_uint size18bits = 18"
| "pdcp_sn_size_to_uint sn_size_invalid = 19"

definition pdcp_sn_size_from_uint :: "nat \<Rightarrow> pdcp_sn_size option" where
  "pdcp_sn_size_from_uint num = (if num = 12 then Some size12bits else if num = 18 then Some size18bits else None)"

text \<open>Timer enumerations are their underlying integers; \<open>-1\<close> is infinity.\<close>

type_synonym pdcp_t_reordering = int

type_synonym pdcp_discard_timer = int

definition pdcp_t_reordering_values :: "int list" where
  "pdcp_t_reordering_values =
    [0, 1, 2, 4, 5, 8, 10, 15, 20, 30, 40, 50, 60, 80, 100, 120, 140, 160, 180, 200, 220, 240, 260, 280, 300,
     500, 750, 1000, 1250, 1500, 1750, 2000, 2250, 2500, 2750, 3000, -1]"

definition pdcp_t_reordering_from_int :: "int \<Rightarrow> pdcp_t_reordering option" where
  "pdcp_t_reordering_from_int num = (if num \<in> set pdcp_t_reordering_values then Some num else None)"

definition pdcp_discard_timer_values :: "int list" where
  "pdcp_discard_timer_values = [10, 20, 30, 40, 50, 60, 75, 100, 150, 200, 250, 300, 500, 750, 1500, -1]"

definition pdcp_discard_timer_from_int :: "int \<Rightarrow> pdcp_discard_timer option" where
  "pdcp_discard_timer_from_int num = (if num \<in> set pdcp_discard_timer_values then Some num else None)"

definition t_reordering_ms0 :: pdcp_t_reordering where
  "t_reordering_ms0 = 0"

definition t_reordering_infinity :: pdcp_t_reordering where
  "t_reordering_infinity = -1"

definition discard_timer_infinity :: pdcp_discard_timer where
  "discard_timer_infinity = -1"

datatype pdcp_rb_type = rb_srb | rb_drb

datatype pdcp_rlc_mode = rlc_um | rlc_am

datatype pdcp_security_direction = pdcp_uplink | pdcp_downlink

datatype rb_id = Srb_id nat | Drb_id nat

definition pdcp_tx_default_max_count_notify :: u32 where
  "pdcp_tx_default_max_count_notify = 0xc0000000"

definition pdcp_tx_default_max_count_hard :: u32 where
  "pdcp_tx_default_max_count_hard = 0xffffffff - 1"

definition pdcp_rx_default_max_count_hard :: u32 where
  "pdcp_rx_default_max_count_hard = 0xd0000000"

record pdcp_max_count =
  mc_notify :: u32
  mc_hard :: u32

text \<open>The default of \<open>pdcp_custom_config_base\<close>, which both directions inherit.\<close>

definition pdcp_default_max_count :: pdcp_max_count where
  "pdcp_default_max_count =
    \<lparr>mc_notify = pdcp_tx_default_max_count_notify, mc_hard = pdcp_tx_default_max_count_hard\<rparr>"

record pdcp_custom_config_tx =
  tx_max_count :: pdcp_max_count
  rlc_sdu_queue :: u16
  warn_on_drop :: bool
  test_mode :: bool

record pdcp_custom_config_rx =
  rx_max_count :: pdcp_max_count

definition pdcp_default_custom_tx :: pdcp_custom_config_tx where
  "pdcp_default_custom_tx =
    \<lparr>tx_max_count = pdcp_default_max_count, rlc_sdu_queue = 4096, warn_on_drop = False, test_mode = False\<rparr>"

definition pdcp_default_custom_rx :: pdcp_custom_config_rx where
  "pdcp_default_custom_rx = \<lparr>rx_max_count = pdcp_default_max_count\<rparr>"

record pdcp_config_common =
  rb_type :: pdcp_rb_type
  rlc_mode :: pdcp_rlc_mode
  sn_size :: pdcp_sn_size
  direction :: pdcp_security_direction
  integrity_protection_required :: bool

record pdcp_tx_config = pdcp_config_common +
  discard_timer :: "pdcp_discard_timer option"
  status_report_required :: bool
  custom_tx :: pdcp_custom_config_tx

record pdcp_rx_config = pdcp_config_common +
  out_of_order_delivery :: bool
  t_reordering :: pdcp_t_reordering
  custom_rx :: pdcp_custom_config_rx

text \<open>\<open>pdcp_config\<close> with its two nested structs flattened.\<close>

record pdcp_config =
  cfg_rb_type :: pdcp_rb_type
  cfg_rlc_mode :: pdcp_rlc_mode
  cfg_integrity_protection_required :: bool
  cfg_ciphering_required :: bool
  cfg_tx_sn_size :: pdcp_sn_size
  cfg_tx_direction :: pdcp_security_direction
  cfg_tx_discard_timer :: "pdcp_discard_timer option"
  cfg_tx_status_report_required :: bool
  cfg_rx_sn_size :: pdcp_sn_size
  cfg_rx_direction :: pdcp_security_direction
  cfg_rx_out_of_order_delivery :: bool
  cfg_rx_t_reordering :: pdcp_t_reordering
  cfg_custom_tx :: pdcp_custom_config_tx
  cfg_custom_rx :: pdcp_custom_config_rx

text \<open>Neither conversion copies \<open>ciphering_required\<close>, which no entity reads.\<close>

definition get_tx_config :: "pdcp_config \<Rightarrow> pdcp_tx_config" where
  "get_tx_config c =
    \<lparr>rb_type = cfg_rb_type c, rlc_mode = cfg_rlc_mode c, sn_size = cfg_tx_sn_size c,
     direction = cfg_tx_direction c, integrity_protection_required = cfg_integrity_protection_required c,
     discard_timer = cfg_tx_discard_timer c, status_report_required = cfg_tx_status_report_required c,
     custom_tx = cfg_custom_tx c\<rparr>"

definition get_rx_config :: "pdcp_config \<Rightarrow> pdcp_rx_config" where
  "get_rx_config c =
    \<lparr>rb_type = cfg_rb_type c, rlc_mode = cfg_rlc_mode c, sn_size = cfg_rx_sn_size c,
     direction = cfg_rx_direction c, integrity_protection_required = cfg_integrity_protection_required c,
     out_of_order_delivery = cfg_rx_out_of_order_delivery c, t_reordering = cfg_rx_t_reordering c,
     custom_rx = cfg_custom_rx c\<rparr>"

definition pdcp_make_default_srb_config :: pdcp_config where
  "pdcp_make_default_srb_config =
    \<lparr>cfg_rb_type = rb_srb, cfg_rlc_mode = rlc_am, cfg_integrity_protection_required = True,
     cfg_ciphering_required = True, cfg_tx_sn_size = size12bits, cfg_tx_direction = pdcp_downlink,
     cfg_tx_discard_timer = None, cfg_tx_status_report_required = False, cfg_rx_sn_size = size12bits,
     cfg_rx_direction = pdcp_uplink, cfg_rx_out_of_order_delivery = False,
     cfg_rx_t_reordering = t_reordering_infinity,
     cfg_custom_tx = pdcp_default_custom_tx\<lparr>rlc_sdu_queue := 512\<rparr>, cfg_custom_rx = pdcp_default_custom_rx\<rparr>"

section \<open>COUNT, HFN and SN\<close>

definition pdcp_compute_sn :: "u32 \<Rightarrow> pdcp_sn_size \<Rightarrow> u32" where
  "pdcp_compute_sn count sz = count AND drop_bit (32 - pdcp_sn_size_to_uint sz) 0xffffffff"

definition pdcp_compute_hfn :: "u32 \<Rightarrow> pdcp_sn_size \<Rightarrow> u32" where
  "pdcp_compute_hfn count sz = drop_bit (pdcp_sn_size_to_uint sz) count"

definition pdcp_compute_count :: "u32 \<Rightarrow> u32 \<Rightarrow> pdcp_sn_size \<Rightarrow> u32" where
  "pdcp_compute_count hfn sn sz = push_bit (pdcp_sn_size_to_uint sz) hfn OR sn"

definition pdcp_sn_cardinality :: "pdcp_sn_size \<Rightarrow> u32" where
  "pdcp_sn_cardinality sz = push_bit (pdcp_sn_size_to_uint sz) 1"

text \<open>The capacity of the SDU windows: \<open>pdcp_window_size(uint16_t)\<close>.\<close>

definition pcdp_sn_cardinality :: "nat \<Rightarrow> nat" where
  "pcdp_sn_cardinality n = 2 ^ n"

definition pdcp_window_capacity :: "nat \<Rightarrow> nat" where
  "pdcp_window_capacity n = pcdp_sn_cardinality (n - 1)"

text \<open>For the size \<open>invalid\<close> an assertion fails; a build without assertions goes on with the 12-bit values.\<close>

definition pdcp_data_pdu_header_size :: "pdcp_sn_size \<Rightarrow> nat" where
  "pdcp_data_pdu_header_size sz = (case sz of size12bits \<Rightarrow> 2 | size18bits \<Rightarrow> 3 | sn_size_invalid \<Rightarrow> 2)"

definition pdcp_window_size :: "pdcp_sn_size \<Rightarrow> u32" where
  "pdcp_window_size sz = (case sz of size12bits \<Rightarrow> 2048 | size18bits \<Rightarrow> 131072 | sn_size_invalid \<Rightarrow> 2048)"

fun pdcp_bearer_id :: "rb_id \<Rightarrow> byte" where
  "pdcp_bearer_id (Drb_id n) = word_of_nat n - 1"
| "pdcp_bearer_id (Srb_id n) = word_of_nat n - 1"

text \<open>
  The COUNT a received SN stands for, relative to a lower window edge: \<open>RCVD_COUNT\<close> of the receiver
  (\<open>pdcp_entity_rx::handle_data_pdu\<close>) and \<open>NOTIFICATION_COUNT\<close> of the transmitter.
\<close>

definition count_estimation :: "pdcp_sn_size \<Rightarrow> u32 \<Rightarrow> u32 \<Rightarrow> u32" where
  "count_estimation sz lower sn =
    (let ws = pdcp_window_size sz;
         hfn = (if uint sn < uint (pdcp_compute_sn lower sz) - uint ws
                then pdcp_compute_hfn lower sz + 1
                else if sn \<ge> pdcp_compute_sn lower sz + ws then pdcp_compute_hfn lower sz - 1
                else pdcp_compute_hfn lower sz)
     in pdcp_compute_count hfn sn sz)"

section \<open>PDU headers\<close>

datatype pdcp_dc_field = dc_control | dc_data

fun dc_to_number :: "pdcp_dc_field \<Rightarrow> u32" where
  "dc_to_number dc_control = 0"
| "dc_to_number dc_data = 1"

definition pdcp_pdu_get_dc :: "byte \<Rightarrow> pdcp_dc_field" where
  "pdcp_pdu_get_dc first_byte = (if drop_bit 7 first_byte AND 1 = 0 then dc_control else dc_data)"

text \<open>A control PDU type is its three-bit number; only the status report is handled.\<close>

definition cpt_status_report :: byte where
  "cpt_status_report = 0"

definition pdcp_control_pdu_get_cpt :: "byte \<Rightarrow> byte" where
  "pdcp_control_pdu_get_cpt first_byte = drop_bit 4 first_byte AND 7"

definition pdcp_control_pdu_max_size :: nat where
  "pdcp_control_pdu_max_size = 9000"

text \<open>\<open>get_pdcp_sn\<close> (\<open>include/srsran/pdcp/pdcp_sn_util.h\<close>), which RLC uses to find the SN of an SDU.\<close>

definition get_pdcp_sn :: "bytes \<Rightarrow> pdcp_sn_size \<Rightarrow> bool \<Rightarrow> u32 option" where
  "get_pdcp_sn pdu sn_len is_srb =
    (if pdu = [] then None
     else if is_srb \<and> sn_len \<noteq> size12bits then None
     else
       let (ok, dc_field :: byte, d) = unpack 1 (bit_decoder_init pdu) in
       if \<not> ok then None
       else if \<not> is_srb \<and> dc_field = 0 then None
       else if is_srb \<and> dc_field = 1 then None
       else
         (case sn_len of
            sn_size_invalid \<Rightarrow> None
          | _ \<Rightarrow>
            (let (r, s) = (if sn_len = size12bits then (3, 12) else (5, 18));
                 (ok1, reserved :: byte, d1) = unpack r d;
                 (ok2, pdcp_sn :: u32, d2) = unpack s d1
             in if \<not> (ok1 \<and> ok2) then None
                else if reserved \<noteq> 0 then None
                else Some pdcp_sn)))"

section \<open>Metrics\<close>

record pdcp_rx_metrics =
  rx_num_pdus :: u32
  rx_num_pdu_bytes :: u32
  rx_num_dropped_pdus :: u32
  rx_num_sdus :: u32
  rx_num_sdu_bytes :: u32
  num_integrity_verified_pdus :: u32
  num_integrity_failed_pdus :: u32
  num_t_reordering_timeouts :: u32

definition rx_metrics_zero :: pdcp_rx_metrics where
  "rx_metrics_zero =
    \<lparr>rx_num_pdus = 0, rx_num_pdu_bytes = 0, rx_num_dropped_pdus = 0, rx_num_sdus = 0, rx_num_sdu_bytes = 0,
     num_integrity_verified_pdus = 0, num_integrity_failed_pdus = 0, num_t_reordering_timeouts = 0\<rparr>"

record pdcp_tx_metrics =
  tx_num_sdus :: u32
  tx_num_sdu_bytes :: u32
  tx_num_pdus :: u32
  tx_num_pdu_bytes :: u32
  num_discard_timeouts :: u32

definition tx_metrics_zero :: pdcp_tx_metrics where
  "tx_metrics_zero =
    \<lparr>tx_num_sdus = 0, tx_num_sdu_bytes = 0, tx_num_pdus = 0, tx_num_pdu_bytes = 0, num_discard_timeouts = 0\<rparr>"


section \<open>Laws of COUNT arithmetic\<close>

abbreviation sn_bits :: "pdcp_sn_size \<Rightarrow> nat" where
  "sn_bits \<equiv> pdcp_sn_size_to_uint"

definition sn_size_ok :: "pdcp_sn_size \<Rightarrow> bool" where
  "sn_size_ok sz \<longleftrightarrow> sz \<noteq> sn_size_invalid"

lemma sn_bits_le [simp]: "sn_bits sz \<le> 32" "sn_bits sz < 32"
  by (cases sz; simp)+

lemma compute_sn_take_bit: "pdcp_compute_sn c sz = take_bit (sn_bits sz) c"
proof -
  have "drop_bit (32 - sn_bits sz) (0xffffffff :: u32) = 2 ^ sn_bits sz - 1"
    by (cases sz) simp_all
  then show ?thesis by (simp add: pdcp_compute_sn_def and_low_mask)
qed

lemma unat_compute_sn: "unat (pdcp_compute_sn c sz) = unat c mod 2 ^ sn_bits sz"
  unfolding compute_sn_take_bit unsigned_take_bit_eq by (rule take_bit_eq_mod)

lemma unat_compute_hfn: "unat (pdcp_compute_hfn c sz) = unat c div 2 ^ sn_bits sz"
  unfolding pdcp_compute_hfn_def unat_drop_bit_eq by (rule drop_bit_eq_div)

lemma unat_compute_count:
  assumes "unat sn < 2 ^ sn_bits sz"
  shows "unat (pdcp_compute_count hfn sn sz) = (unat hfn * 2 ^ sn_bits sz + unat sn) mod 2 ^ 32"
proof -
  let ?n = "sn_bits sz"
  have sn: "sn = take_bit ?n sn"
    by (simp only: word_unat_eq_iff unsigned_take_bit_eq take_bit_nat_eq_self [OF assms])
  have "push_bit ?n hfn AND sn = 0"
    by (subst sn) (rule bit_eqI, auto simp: bit_and_iff bit_push_bit_iff bit_take_bit_iff)
  then have "pdcp_compute_count hfn sn sz = push_bit ?n hfn + sn"
    by (simp add: pdcp_compute_count_def disjunctive_add_eq_or)
  then have "unat (pdcp_compute_count hfn sn sz) = (unat (push_bit ?n hfn) + unat sn) mod 2 ^ 32"
    by (simp only: unat_word_ariths) simp
  also have "unat (push_bit ?n hfn) = (unat hfn * 2 ^ ?n) mod 2 ^ 32"
    by (simp only: unsigned_push_bit_eq push_bit_eq_mult [of ?n "unat hfn"] take_bit_eq_mod [of _ "unat hfn * 2 ^ ?n"]) simp
  finally show ?thesis by (simp only: mod_add_left_eq)
qed

lemma count_split [simp]: "pdcp_compute_count (pdcp_compute_hfn c sz) (pdcp_compute_sn c sz) sz = c"
proof -
  have lt: "unat (pdcp_compute_sn c sz) < 2 ^ sn_bits sz" by (simp add: unat_compute_sn)
  have "unat c < 2 ^ 32" using unsigned_less [of c, where 'a = nat] by simp
  then show ?thesis
    by (simp only: word_unat_eq_iff unat_compute_count [OF lt] unat_compute_hfn unat_compute_sn div_mult_mod_eq) simp
qed

lemma sn_of_count:
  assumes "unat sn < 2 ^ sn_bits sz"
  shows "pdcp_compute_sn (pdcp_compute_count hfn sn sz) sz = sn"
proof -
  have "(2 :: nat) ^ sn_bits sz dvd 2 ^ 32" by (rule le_imp_power_dvd) simp
  then have "unat (pdcp_compute_sn (pdcp_compute_count hfn sn sz) sz) = (unat hfn * 2 ^ sn_bits sz + unat sn) mod 2 ^ sn_bits sz"
    by (simp only: unat_compute_sn unat_compute_count [OF assms] mod_mod_cancel)
  also have "\<dots> = unat sn" using assms by simp
  finally show ?thesis by (simp add: word_unat_eq_iff)
qed

lemma window_facts:
  assumes "sn_size_ok sz"
  shows "(2 :: int) ^ sn_bits sz = 2 * uint (pdcp_window_size sz)" and "0 < uint (pdcp_window_size sz)"
    and "unat (pdcp_window_size sz) = pdcp_window_capacity (sn_bits sz)"
    and "uint (pdcp_window_size sz) \<le> 131072"
  using assms by (cases sz; simp add: sn_size_ok_def pdcp_window_size_def pdcp_window_capacity_def pcdp_sn_cardinality_def)+

lemma uint_compute_sn: "uint (pdcp_compute_sn c sz) = uint c mod 2 ^ sn_bits sz"
  by (simp only: uint_nat unat_compute_sn zmod_int) simp

lemma uint_compute_hfn: "uint (pdcp_compute_hfn c sz) = uint c div 2 ^ sn_bits sz"
  by (simp only: uint_nat unat_compute_hfn zdiv_int) simp

lemma mod_cong_linear: "a mod m = b mod m \<Longrightarrow> (a * n + s) mod m = (b * n + s) mod (m :: int)"
  by (rule mod_add_cong [OF mod_mult_cong]) simp_all

lemma uint_compute_count:
  assumes "uint sn < 2 ^ sn_bits sz" "uint hfn mod 2 ^ 32 = k mod 2 ^ 32"
  shows "uint (pdcp_compute_count hfn sn sz) = (k * 2 ^ sn_bits sz + uint sn) mod 2 ^ 32"
proof -
  have "int (unat sn) < int (2 ^ sn_bits sz)" using assms(1) by simp
  then have "unat sn < 2 ^ sn_bits sz" by (simp only: of_nat_less_iff)
  then have "int (unat (pdcp_compute_count hfn sn sz)) = int ((unat hfn * 2 ^ sn_bits sz + unat sn) mod 2 ^ 32)"
    by (simp only: unat_compute_count)
  then have "uint (pdcp_compute_count hfn sn sz) = (uint hfn * 2 ^ sn_bits sz + uint sn) mod 2 ^ 32"
    by (simp only: uint_nat of_nat_mod of_nat_add of_nat_mult of_nat_power of_nat_numeral)
  also have "\<dots> = (k * 2 ^ sn_bits sz + uint sn) mod 2 ^ 32"
    by (rule mod_cong_linear [OF assms(2)])
  finally show ?thesis .
qed

lemma mod_unique:
  fixes x y k n :: int
  assumes "x = y + k * n" "0 \<le> y" "y < n"
  shows "x mod n = y"
proof -
  have "x mod n = y mod n" unfolding assms(1) by (rule mod_mult_self1)
  then show ?thesis using assms(2,3) by simp
qed

text \<open>
  The estimate is, modulo \<open>2^32\<close>, the number in \<open>[lower - W, lower + W)\<close> that agrees with the SN modulo
  the SN cardinality \<open>2 W\<close>.
\<close>

definition count_offset :: "pdcp_sn_size \<Rightarrow> u32 \<Rightarrow> u32 \<Rightarrow> int" where
  "count_offset sz lower sn =
    (let w = uint (pdcp_window_size sz) in (uint sn - uint lower + w) mod (2 * w) - w)"

lemma count_offset_range:
  assumes "sn_size_ok sz"
  shows "- uint (pdcp_window_size sz) \<le> count_offset sz lower sn"
    "count_offset sz lower sn < uint (pdcp_window_size sz)"
proof -
  let ?w = "uint (pdcp_window_size sz)"
  have "0 < 2 * ?w" using window_facts(2) [OF assms] by simp
  from pos_mod_bound [OF this, of "uint sn - uint lower + ?w"]
    pos_mod_sign [OF this, of "uint sn - uint lower + ?w"]
  show "- ?w \<le> count_offset sz lower sn" "count_offset sz lower sn < ?w"
    by (simp_all add: count_offset_def Let_def)
qed

lemma count_estimation_offset:
  assumes "sn_size_ok sz" "uint sn < 2 ^ sn_bits sz"
  shows "uint (count_estimation sz lower sn) = (uint lower + count_offset sz lower sn) mod 2 ^ 32"
proof -
  define w where "w = uint (pdcp_window_size sz)"
  define N where "N = (2 :: int) ^ sn_bits sz"
  define S where "S = uint lower mod N"
  define H where "H = uint lower div N"
  have W: "N = 2 * w" "0 < w" "w \<le> 131072" using window_facts [OF assms(1)] by (simp_all add: N_def w_def)
  have D: "uint lower = H * N + S" unfolding H_def S_def by (rule div_mult_mod_eq [symmetric])
  have S: "0 \<le> S" "S < N" using W unfolding S_def by simp_all
  have uS: "uint (pdcp_compute_sn lower sz) = S" by (simp add: uint_compute_sn S_def N_def)
  have uH: "uint (pdcp_compute_hfn lower sz) = H" by (simp add: uint_compute_hfn H_def N_def)
  have sn: "0 \<le> uint sn" "uint sn < N" using assms(2) by (simp_all add: N_def)
  have cmp: "pdcp_compute_sn lower sz + pdcp_window_size sz \<le> sn \<longleftrightarrow> S + w \<le> uint sn"
  proof -
    have "uint (pdcp_compute_sn lower sz + pdcp_window_size sz) = (S + w) mod 2 ^ 32"
      by (simp add: uint_word_ariths uS w_def)
    also have "\<dots> = S + w" using S W by simp
    finally show ?thesis by (simp add: word_le_def)
  qed
  note count = uint_compute_count [OF assms(2), folded N_def]
  have hp: "uint (pdcp_compute_hfn lower sz + 1) mod 2 ^ 32 = (H + 1) mod 2 ^ 32"
    by (simp add: uint_word_ariths uH)
  have hm: "uint (pdcp_compute_hfn lower sz - 1) mod 2 ^ 32 = (H - 1) mod 2 ^ 32"
    by (simp add: uint_word_ariths uH)
  have hz: "uint (pdcp_compute_hfn lower sz) mod 2 ^ 32 = H mod 2 ^ 32" by (simp only: uH)
  have off: "count_offset sz lower sn = y - w" if "uint sn - uint lower + w = y + k * N" "0 \<le> y" "y < N" for y k
    unfolding count_offset_def Let_def w_def [symmetric] W(1) [symmetric] using mod_unique [OF that] by simp
  consider "uint sn < S - w" | "S + w \<le> uint sn" | "S - w \<le> uint sn" "uint sn < S + w" by linarith
  then show ?thesis
  proof cases
    case 1
    then have e: "count_estimation sz lower sn = pdcp_compute_count (pdcp_compute_hfn lower sz + 1) sn sz"
      by (simp add: count_estimation_def Let_def uS flip: w_def)
    have "count_offset sz lower sn = N + uint sn - S"
      using off [of "N + uint sn - S + w" "- (H + 1)"] 1 D S sn W by (simp add: algebra_simps)
    then have "(H + 1) * N + uint sn = uint lower + count_offset sz lower sn" unfolding D by (simp add: algebra_simps)
    then show ?thesis unfolding e count [OF hp] by (rule arg_cong)
  next
    case 2
    then have e: "count_estimation sz lower sn = pdcp_compute_count (pdcp_compute_hfn lower sz - 1) sn sz"
      using W(2) by (simp add: count_estimation_def Let_def uS cmp flip: w_def)
    have "count_offset sz lower sn = uint sn - S - N"
      using off [of "uint sn - S - N + w" "- (H - 1)"] 2 D S sn W by (simp add: algebra_simps)
    then have "(H - 1) * N + uint sn = uint lower + count_offset sz lower sn" unfolding D by (simp add: algebra_simps)
    then show ?thesis unfolding e count [OF hm] by (rule arg_cong)
  next
    case 3
    then have e: "count_estimation sz lower sn = pdcp_compute_count (pdcp_compute_hfn lower sz) sn sz"
      by (simp add: count_estimation_def Let_def uS cmp flip: w_def)
    have "count_offset sz lower sn = uint sn - S"
      using off [of "uint sn - S + w" "- H"] 3 D S sn W by (simp add: algebra_simps)
    then have "H * N + uint sn = uint lower + count_offset sz lower sn" unfolding D by (simp add: algebra_simps)
    then show ?thesis unfolding e count [OF hz] by (rule arg_cong)
  qed
qed


text \<open>Every COUNT inside the window around \<open>lower\<close> is recovered from its SN.\<close>

lemma count_estimation_exact:
  assumes "sn_size_ok sz"
    and "uint lower \<le> uint c + uint (pdcp_window_size sz)" "uint c < uint lower + uint (pdcp_window_size sz)"
  shows "count_estimation sz lower (pdcp_compute_sn c sz) = c"
proof -
  define w where "w = uint (pdcp_window_size sz)"
  have W: "(2 :: int) ^ sn_bits sz = 2 * w" "0 < w" using window_facts [OF assms(1)] by (simp_all add: w_def)
  have sn: "uint (pdcp_compute_sn c sz) = uint c mod (2 * w)" by (simp add: uint_compute_sn W)
  have lt: "uint (pdcp_compute_sn c sz) < 2 ^ sn_bits sz" by (simp add: uint_compute_sn)
  have "uint (pdcp_compute_sn c sz) - uint lower + w = (uint c - uint lower + w) + - (uint c div (2 * w)) * (2 * w)"
    unfolding sn using div_mult_mod_eq [of "uint c" "2 * w"] by (simp add: algebra_simps)
  then have "(uint (pdcp_compute_sn c sz) - uint lower + w) mod (2 * w) = uint c - uint lower + w"
    by (rule mod_unique) (use assms(2,3) in \<open>simp_all add: w_def\<close>)
  then have "count_offset sz lower (pdcp_compute_sn c sz) = uint c - uint lower"
    by (simp add: count_offset_def Let_def flip: w_def)
  then have "uint (count_estimation sz lower (pdcp_compute_sn c sz)) = uint c mod 2 ^ 32"
    using count_estimation_offset [OF assms(1) lt] by simp
  moreover have "uint c < 2 ^ 32" using unsigned_less [of c, where 'a = int] by simp
  ultimately show ?thesis by (simp add: word_uint_eq_iff)
qed

text \<open>
  An estimate at or above the lower edge lies in the window, unless the HFN went below zero; that needs a
  lower edge below the window size and gives an estimate in the last window of the number range.
\<close>

lemma count_estimation_in_window:
  assumes "sn_size_ok sz" "uint sn < 2 ^ sn_bits sz" "lower \<le> count_estimation sz lower sn"
    and safe: "uint (count_estimation sz lower sn) + uint (pdcp_window_size sz) < 2 ^ 32 \<or>
      uint (pdcp_window_size sz) \<le> uint lower"
  shows "uint (count_estimation sz lower sn) < uint lower + uint (pdcp_window_size sz)"
proof -
  define w where "w = uint (pdcp_window_size sz)"
  define c where "c = count_estimation sz lower sn"
  define d where "d = count_offset sz lower sn"
  have d: "- w \<le> d" "d < w" using count_offset_range [OF assms(1)] by (simp_all add: w_def d_def)
  have w: "w \<le> 131072" using window_facts(4) [OF assms(1)] by (simp add: w_def)
  have big: "(131072 :: int) < 2 ^ 32" by simp
  have c: "uint c = (uint lower + d) mod 2 ^ 32"
    unfolding c_def d_def by (rule count_estimation_offset [OF assms(1,2)])
  have lo: "0 \<le> uint lower" "uint lower < 2 ^ 32" using unsigned_less [of lower, where 'a = int] by simp_all
  have le: "uint lower \<le> uint c" using assms(3) by (simp add: c_def word_le_def)
  have hi: "uint lower + d < 2 ^ 32"
  proof (rule ccontr)
    assume over: "\<not> uint lower + d < 2 ^ 32"
    have "0 \<le> uint lower + d - 2 ^ 32" "uint lower + d - 2 ^ 32 < 2 ^ 32" using over d w lo big by linarith+
    then have "uint c = uint lower + d - 2 ^ 32" unfolding c by (intro mod_unique [where k = 1]) simp_all
    with le d w big show False by linarith
  qed
  have "0 \<le> uint lower + d"
  proof (rule ccontr)
    assume neg: "\<not> 0 \<le> uint lower + d"
    have "0 \<le> uint lower + d + 2 ^ 32" using lo d w big by linarith
    moreover have "uint lower + d + 2 ^ 32 < 2 ^ 32" using neg by linarith
    ultimately have "uint c = uint lower + d + 2 ^ 32"
      unfolding c by (intro mod_unique [where k = "- 1"]) simp_all
    then show False using safe [folded c_def w_def] d lo neg by linarith
  qed
  with hi c have "uint c = uint lower + d" by simp
  with d show ?thesis by (simp add: c_def w_def)
qed

end
