(* ===== verification/Pdcp_Rx.thy ===== *)
theory Pdcp_Rx
  imports Pdcp_Base
begin

text \<open>
  The receiving PDCP entity (\<open>lib/pdcp/pdcp_entity_rx.cpp\<close>): state, operations, and the invariant that
  ties RX_DELIV, RX_NEXT, RX_REORD, the receive window and the reordering timer together.

  The entity is a record and every handler a function on it. Calls of the notifiers are appended to
  \<open>rx_out\<close> in the order they are made. A failed assertion is the event \<open>Rx_abort\<close>; nothing of the handler
  runs behind it. Logging and tracing are left out.
\<close>

section \<open>State\<close>

record pdcp_rx_sdu_info =
  ri_sdu :: bytes
  ri_count :: u32

text \<open>\<open>on_new_sdu\<close> only passes the SDU; its COUNT is kept beside it for the statements below.\<close>

datatype rx_event =
    On_new_sdu u32 bytes
  | Rx_on_max_count_reached
  | Rx_on_protocol_failure
  | On_integrity_failure
  | On_status_report bytes
  | Rx_abort

record pdcp_rx =
  rx_rb_id :: rb_id
  rx_cfg :: pdcp_rx_config
  rx_sec_engine :: "security_engine option"
  rx_integrity_enabled :: integrity_enabled
  rx_ciphering_enabled :: ciphering_enabled
  rx_next :: u32
  rx_deliv :: u32
  rx_reord :: u32
  rx_window :: "(32 word, pdcp_rx_sdu_info) circular_map"
  reordering_timer_running :: bool
  rx_max_count_notified :: bool
  rx_max_count_overflow :: bool
  rx_metrics :: pdcp_rx_metrics
  rx_out :: "rx_event list"

definition rx_is_srb :: "pdcp_rx \<Rightarrow> bool" where
  "rx_is_srb s \<longleftrightarrow> rb_type (rx_cfg s) = rb_srb"

definition rx_is_um :: "pdcp_rx \<Rightarrow> bool" where
  "rx_is_um s \<longleftrightarrow> rlc_mode (rx_cfg s) = rlc_um"

definition rx_hdr_len :: "pdcp_rx \<Rightarrow> nat" where
  "rx_hdr_len s = pdcp_data_pdu_header_size (sn_size (rx_cfg s))"

definition rx_emit :: "rx_event \<Rightarrow> pdcp_rx \<Rightarrow> pdcp_rx" where
  "rx_emit e s = s\<lparr>rx_out := rx_out s @ [e]\<rparr>"

definition create_rx_window :: "pdcp_sn_size \<Rightarrow> (32 word, pdcp_rx_sdu_info) circular_map option" where
  "create_rx_window sz =
    (case sz of
       size12bits \<Rightarrow> Some (cm_new (pdcp_window_capacity (pdcp_sn_size_to_uint size12bits)))
     | size18bits \<Rightarrow> Some (cm_new (pdcp_window_capacity (pdcp_sn_size_to_uint size18bits)))
     | sn_size_invalid \<Rightarrow> None)"

text \<open>The constructor; the reordering timer is created, and set up, only for a finite positive duration.\<close>

definition pdcp_entity_rx :: "rb_id \<Rightarrow> pdcp_rx_config \<Rightarrow> pdcp_rx option" where
  "pdcp_entity_rx rb cfg =
    (case create_rx_window (sn_size cfg) of
       None \<Rightarrow> None
     | Some w \<Rightarrow> Some
        \<lparr>rx_rb_id = rb, rx_cfg = cfg, rx_sec_engine = None, rx_integrity_enabled = integ_off,
         rx_ciphering_enabled = ciph_off, rx_next = 0, rx_deliv = 0, rx_reord = 0, rx_window = w,
         reordering_timer_running = False, rx_max_count_notified = False, rx_max_count_overflow = False,
         rx_metrics = rx_metrics_zero, rx_out = []\<rparr>)"

definition rx_timer_created :: "pdcp_rx_config \<Rightarrow> bool" where
  "rx_timer_created cfg \<longleftrightarrow> t_reordering cfg \<noteq> t_reordering_ms0 \<and> t_reordering cfg \<noteq> t_reordering_infinity"

section \<open>Metrics\<close>

definition rx_add_sdus :: "u32 \<Rightarrow> nat \<Rightarrow> pdcp_rx \<Rightarrow> pdcp_rx" where
  "rx_add_sdus n b s = s\<lparr>rx_metrics := (rx_metrics s)
    \<lparr>rx_num_sdus := rx_num_sdus (rx_metrics s) + n,
     rx_num_sdu_bytes := rx_num_sdu_bytes (rx_metrics s) + word_of_nat b\<rparr>\<rparr>"

definition rx_add_pdus :: "u32 \<Rightarrow> nat \<Rightarrow> pdcp_rx \<Rightarrow> pdcp_rx" where
  "rx_add_pdus n b s = s\<lparr>rx_metrics := (rx_metrics s)
    \<lparr>rx_num_pdus := rx_num_pdus (rx_metrics s) + n,
     rx_num_pdu_bytes := rx_num_pdu_bytes (rx_metrics s) + word_of_nat b\<rparr>\<rparr>"

definition rx_add_dropped_pdus :: "u32 \<Rightarrow> pdcp_rx \<Rightarrow> pdcp_rx" where
  "rx_add_dropped_pdus n s =
    s\<lparr>rx_metrics := (rx_metrics s)\<lparr>rx_num_dropped_pdus := rx_num_dropped_pdus (rx_metrics s) + n\<rparr>\<rparr>"

definition rx_add_integrity_verified :: "u32 \<Rightarrow> pdcp_rx \<Rightarrow> pdcp_rx" where
  "rx_add_integrity_verified n s =
    s\<lparr>rx_metrics := (rx_metrics s)\<lparr>num_integrity_verified_pdus := num_integrity_verified_pdus (rx_metrics s) + n\<rparr>\<rparr>"

definition rx_add_integrity_failed :: "u32 \<Rightarrow> pdcp_rx \<Rightarrow> pdcp_rx" where
  "rx_add_integrity_failed n s =
    s\<lparr>rx_metrics := (rx_metrics s)\<lparr>num_integrity_failed_pdus := num_integrity_failed_pdus (rx_metrics s) + n\<rparr>\<rparr>"

definition rx_add_t_reordering_timeouts :: "u32 \<Rightarrow> pdcp_rx \<Rightarrow> pdcp_rx" where
  "rx_add_t_reordering_timeouts n s =
    s\<lparr>rx_metrics := (rx_metrics s)\<lparr>num_t_reordering_timeouts := num_t_reordering_timeouts (rx_metrics s) + n\<rparr>\<rparr>"

definition rx_get_metrics_and_reset :: "pdcp_rx \<Rightarrow> pdcp_rx_metrics \<times> pdcp_rx" where
  "rx_get_metrics_and_reset s = (rx_metrics s, s\<lparr>rx_metrics := rx_metrics_zero\<rparr>)"

section \<open>Delivery\<close>

text \<open>What the three delivery loops do with the SDU they find at \<open>count\<close>.\<close>

definition deliver_sdu :: "u32 \<Rightarrow> pdcp_rx_sdu_info \<Rightarrow> pdcp_rx \<Rightarrow> pdcp_rx" where
  "deliver_sdu count info s =
    (let s = rx_add_sdus 1 (length (ri_sdu info)) s;
         s = rx_emit (On_new_sdu count (ri_sdu info)) s
     in s\<lparr>rx_window := remove_sn (rx_window s) count\<rparr>)"

lemma deliver_sdu_frame [frame_simps]:
  "rx_next (deliver_sdu c i s) = rx_next s"
  "rx_deliv (deliver_sdu c i s) = rx_deliv s"
  "rx_reord (deliver_sdu c i s) = rx_reord s"
  "rx_cfg (deliver_sdu c i s) = rx_cfg s"
  "reordering_timer_running (deliver_sdu c i s) = reordering_timer_running s"
  "rx_window (deliver_sdu c i s) = remove_sn (rx_window s) c"
  "rx_out (deliver_sdu c i s) = rx_out s @ [On_new_sdu c (ri_sdu i)]"
  by (simp_all add: deliver_sdu_def rx_add_sdus_def rx_emit_def Let_def)

function deliver_all_consecutive_counts :: "pdcp_rx \<Rightarrow> pdcp_rx" where
  "deliver_all_consecutive_counts s =
    (if rx_deliv s \<noteq> rx_next s
     then (case cm_at (rx_window s) (rx_deliv s) of
             None \<Rightarrow> s
           | Some info \<Rightarrow>
               deliver_all_consecutive_counts ((deliver_sdu (rx_deliv s) info s)\<lparr>rx_deliv := rx_deliv s + 1\<rparr>))
     else s)"
  by pat_completeness auto
termination
  by (relation "measure (\<lambda>s. unat (rx_next s - rx_deliv s))") (auto simp: frame_simps word_dist_decreases)

declare deliver_all_consecutive_counts.simps [simp del]

definition deliver_all_sdus :: "pdcp_rx \<Rightarrow> pdcp_rx" where
  "deliver_all_sdus s =
    fold (\<lambda>count s. case cm_at (rx_window s) count of None \<Rightarrow> s | Some info \<Rightarrow> deliver_sdu count info s)
      (word_range (rx_deliv s) (rx_next s)) s"

function discard_all_sdus :: "pdcp_rx \<Rightarrow> pdcp_rx" where
  "discard_all_sdus s =
    (if rx_deliv s \<noteq> rx_next s
     then discard_all_sdus
            (s\<lparr>rx_window := (if has_sn (rx_window s) (rx_deliv s) then remove_sn (rx_window s) (rx_deliv s) else rx_window s),
               rx_deliv := rx_deliv s + 1\<rparr>)
     else s)"
  by pat_completeness auto
termination
  by (relation "measure (\<lambda>s. unat (rx_next s - rx_deliv s))") (auto simp: word_dist_decreases)

declare discard_all_sdus.simps [simp del]

text \<open>The first loop of \<open>handle_t_reordering_expire\<close>: everything below RX_REORD.\<close>

function deliver_until_reord :: "pdcp_rx \<Rightarrow> pdcp_rx" where
  "deliver_until_reord s =
    (if rx_deliv s \<noteq> rx_reord s
     then deliver_until_reord
            ((case cm_at (rx_window s) (rx_deliv s) of None \<Rightarrow> s | Some info \<Rightarrow> deliver_sdu (rx_deliv s) info s)
              \<lparr>rx_deliv := rx_deliv s + 1\<rparr>)
     else s)"
  by pat_completeness auto
termination
  by (relation "measure (\<lambda>s. unat (rx_reord s - rx_deliv s))")
    (auto simp: frame_simps word_dist_decreases split: option.splits)

declare deliver_until_reord.simps [simp del]

definition handle_t_reordering_expire :: "pdcp_rx \<Rightarrow> pdcp_rx" where
  "handle_t_reordering_expire s =
    (let s = rx_add_t_reordering_timeouts 1 s;
         s = deliver_until_reord s;
         s = deliver_all_consecutive_counts s
     in if rx_deliv s < rx_next s then
          (if t_reordering (rx_cfg s) = t_reordering_ms0 then s
           else s\<lparr>rx_reord := rx_next s, reordering_timer_running := True\<rparr>)
        else s)"

text \<open>The timer callback: the timer has stopped running when it is invoked.\<close>

definition reordering_timer_expired :: "pdcp_rx \<Rightarrow> pdcp_rx" where
  "reordering_timer_expired s = handle_t_reordering_expire (s\<lparr>reordering_timer_running := False\<rparr>)"

section \<open>Data PDUs\<close>

definition read_data_pdu_header :: "pdcp_rx \<Rightarrow> bytes \<Rightarrow> u32 option" where
  "read_data_pdu_header s buf =
    (if length buf \<le> rx_hdr_len s then None
     else case sn_size (rx_cfg s) of
       size12bits \<Rightarrow> Some (push_bit 8 (ucast (buf ! 0) AND 0x0f) OR (ucast (buf ! 1) AND 0xff))
     | size18bits \<Rightarrow> Some ((push_bit 16 (ucast (buf ! 0) AND 0x03) OR push_bit 8 (ucast (buf ! 1) AND 0xff))
                         OR (ucast (buf ! 2) AND 0xff))
     | sn_size_invalid \<Rightarrow> None)"

definition sec_hdr_size :: "pdcp_sn_size \<Rightarrow> nat" where
  "sec_hdr_size sz = (if sz = size12bits then 2 else 3)"

text \<open>The outer option is a run that does not return, \<open>Inl ()\<close> the unexpected value of the result.\<close>

definition apply_deciphering_and_integrity_check ::
  "ssl_lib \<Rightarrow> bytes \<Rightarrow> u32 \<Rightarrow> pdcp_rx \<Rightarrow> (unit + bytes) option \<times> pdcp_rx" where
  "apply_deciphering_and_integrity_check lib buf count s =
    (case rx_sec_engine s of
       None \<Rightarrow>
         if rx_is_srb s then
           (if length buf \<le> sec_mac_len then (Some (Inl ()), s)
            else (Some (Inr (take (length buf - sec_mac_len) buf)), s))
         else (Some (Inr buf), s)
     | Some eng \<Rightarrow>
         (case decrypt_and_verify_integrity lib eng buf (sec_hdr_size (sn_size (rx_cfg s))) count of
            None \<Rightarrow> (None, s)
          | Some (Inl integrity_failure, _) \<Rightarrow>
              (Some (Inl ()), rx_emit On_integrity_failure (rx_add_integrity_failed 1 s))
          | Some (Inl ciphering_failure, _) \<Rightarrow> (Some (Inl ()), rx_emit Rx_on_protocol_failure s)
          | Some (Inl buffer_failure, _) \<Rightarrow> (Some (Inl ()), rx_emit Rx_on_protocol_failure s)
          | Some (Inr b, _) \<Rightarrow> (Some (Inr b), rx_add_integrity_verified 1 s)))"

text \<open>The notification of a COUNT close to exhaustion, and the refusal to receive beyond the hard limit.\<close>

definition rx_check_max_count :: "u32 \<Rightarrow> pdcp_rx \<Rightarrow> bool \<times> pdcp_rx" where
  "rx_check_max_count rcvd_count s =
    (let mc = rx_max_count (custom_rx (rx_cfg s));
         s = (if rcvd_count > mc_notify mc \<and> \<not> rx_max_count_notified s
              then (rx_emit Rx_on_max_count_reached s)\<lparr>rx_max_count_notified := True\<rparr> else s)
     in if rcvd_count \<ge> mc_hard mc then
          (False, if \<not> rx_max_count_overflow s
                  then (rx_emit Rx_on_protocol_failure s)\<lparr>rx_max_count_overflow := True\<rparr> else s)
        else (True, s))"

text \<open>Stopping and starting t-Reordering at the end of \<open>handle_data_pdu\<close>.\<close>

definition rx_update_reordering :: "pdcp_rx \<Rightarrow> pdcp_rx" where
  "rx_update_reordering s =
    (let s = (if reordering_timer_running s \<and> rx_deliv s \<ge> rx_reord s
              then s\<lparr>reordering_timer_running := False\<rparr> else s)
     in if t_reordering (rx_cfg s) \<noteq> t_reordering_infinity then
          (if t_reordering (rx_cfg s) = t_reordering_ms0
           then handle_t_reordering_expire (s\<lparr>rx_reord := rx_next s\<rparr>)
           else if \<not> reordering_timer_running s \<and> rx_deliv s < rx_next s
           then s\<lparr>rx_reord := rx_next s, reordering_timer_running := True\<rparr>
           else s)
        else s)"

text \<open>Storing an SDU that passed all checks, delivering what has become deliverable.\<close>

definition rx_store_and_deliver :: "u32 \<Rightarrow> bytes \<Rightarrow> pdcp_rx \<Rightarrow> pdcp_rx" where
  "rx_store_and_deliver rcvd_count sdu s =
    (let s = s\<lparr>rx_window := add_sn (rx_window s) rcvd_count \<lparr>ri_sdu = sdu, ri_count = rcvd_count\<rparr>\<rparr>;
         s = (if rcvd_count \<ge> rx_next s then s\<lparr>rx_next := rcvd_count + 1\<rparr> else s);
         s = (if rcvd_count = rx_deliv s then deliver_all_consecutive_counts s else s)
     in rx_update_reordering s)"

definition rx_process_sdu :: "u32 \<Rightarrow> bytes \<Rightarrow> pdcp_rx \<Rightarrow> pdcp_rx" where
  "rx_process_sdu rcvd_count sdu s =
    (if rcvd_count < rx_deliv s then s
     else case cm_at (rx_window s) rcvd_count of
       Some info \<Rightarrow>
         if ri_count info = rcvd_count then s
         else rx_store_and_deliver rcvd_count sdu (s\<lparr>rx_window := remove_sn (rx_window s) rcvd_count\<rparr>)
     | None \<Rightarrow> rx_store_and_deliver rcvd_count sdu s)"

definition handle_data_pdu :: "ssl_lib \<Rightarrow> bytes \<Rightarrow> pdcp_rx \<Rightarrow> pdcp_rx" where
  "handle_data_pdu lib pdu s =
    (if length pdu \<le> rx_hdr_len s then rx_add_dropped_pdus 1 s
     else case read_data_pdu_header s pdu of
       None \<Rightarrow> rx_add_dropped_pdus 1 s
     | Some sn \<Rightarrow>
         (let rcvd_count = count_estimation (sn_size (rx_cfg s)) (rx_deliv s) sn;
              (go_on, s) = rx_check_max_count rcvd_count s
          in if \<not> go_on then s
             else case apply_deciphering_and_integrity_check lib pdu rcvd_count s of
               (None, s) \<Rightarrow> rx_emit Rx_abort s
             | (Some (Inl _), s) \<Rightarrow> s
             | (Some (Inr buf), s) \<Rightarrow> rx_process_sdu rcvd_count (drop (sec_hdr_size (sn_size (rx_cfg s))) buf) s))"

section \<open>Control PDUs, re-establishment, security\<close>

definition handle_control_pdu :: "bytes \<Rightarrow> pdcp_rx \<Rightarrow> pdcp_rx" where
  "handle_control_pdu pdu s =
    (if pdcp_pdu_get_dc (hd pdu) \<noteq> dc_control then rx_emit Rx_abort s
     else if pdcp_control_pdu_get_cpt (hd pdu) = cpt_status_report then rx_emit (On_status_report pdu) s
     else s)"

text \<open>\<open>copy_ok\<close>: the deep copy of the PDU finds memory.\<close>

definition handle_pdu :: "ssl_lib \<Rightarrow> bool \<Rightarrow> bytes \<Rightarrow> pdcp_rx \<Rightarrow> pdcp_rx" where
  "handle_pdu lib copy_ok buf s =
    (let s = rx_add_pdus 1 (length buf) s
     in if length buf = 0 then rx_add_dropped_pdus 1 s
        else if \<not> copy_ok then rx_add_dropped_pdus 1 s
        else if rx_is_srb s \<or> pdcp_pdu_get_dc (hd buf) = dc_data then handle_data_pdu lib buf s
        else handle_control_pdu buf s)"

definition sec_direction_of :: "pdcp_security_direction \<Rightarrow> security_direction" where
  "sec_direction_of d = (if d = pdcp_uplink then sec_uplink else sec_downlink)"

definition rx_configure_security ::
  "ssl_lib \<Rightarrow> sec_128_as_config \<Rightarrow> integrity_enabled \<Rightarrow> ciphering_enabled \<Rightarrow> pdcp_rx \<Rightarrow> pdcp_rx" where
  "rx_configure_security lib sec_cfg integ ciph s =
    (if \<not> (rx_is_srb s \<and> s128_domain sec_cfg = dom_rrc \<or> \<not> rx_is_srb s \<and> s128_domain sec_cfg = dom_up)
     then rx_emit Rx_abort s
     else if integ = integ_on \<and> k_128_int sec_cfg = None then s
     else if integ = integ_on \<and> s128_integ_algo sec_cfg = None then s
     else if integ \<noteq> integ_on \<and> rx_is_srb s then rx_emit Rx_abort s
     else
       let s = s\<lparr>rx_integrity_enabled := integ, rx_ciphering_enabled := ciph\<rparr>
       in case security_engine_impl lib sec_cfg (pdcp_bearer_id (rx_rb_id s))
                 (sec_direction_of (direction (rx_cfg s))) integ ciph of
            None \<Rightarrow> rx_emit Rx_abort s
          | Some eng \<Rightarrow> s\<lparr>rx_sec_engine := Some eng\<rparr>)"

definition rx_reestablish :: "ssl_lib \<Rightarrow> sec_128_as_config \<Rightarrow> pdcp_rx \<Rightarrow> pdcp_rx" where
  "rx_reestablish lib sec_cfg s =
    (let s = (if rx_is_srb s then discard_all_sdus s else s);
         s = (if rx_is_srb s \<or> rx_is_um s
              then let s = (if reordering_timer_running s then s\<lparr>reordering_timer_running := False\<rparr> else s)
                   in if rx_is_um s then deliver_all_sdus s else s
              else s);
         s = (if rx_is_srb s \<or> rx_is_um s then s\<lparr>rx_next := 0, rx_deliv := 0, rx_reord := 0\<rparr> else s)
     in rx_configure_security lib sec_cfg (rx_integrity_enabled s) (rx_ciphering_enabled s) s)"

section \<open>Status reports\<close>

text \<open>
  The results of the \<open>pack\<close> calls are ignored, so a failed append leaves bits out; \<open>ok\<close> is the
  memory of the buffer, as in \<open>pack\<close>.
\<close>

definition status_report_bitmap_end :: "pdcp_rx \<Rightarrow> u32" where
  "status_report_bitmap_end s =
    (let max_bits = word_of_nat ((pdcp_control_pdu_max_size - 5) * 8);
         bitmap_begin = rx_deliv s + 1;
         bitmap_end = rx_next s
     in if bitmap_begin < bitmap_end \<and> bitmap_end - bitmap_begin > max_bits
        then bitmap_begin + max_bits else bitmap_end)"

definition compile_status_report :: "(nat \<Rightarrow> bool) \<Rightarrow> pdcp_rx \<Rightarrow> bytes" where
  "compile_status_report ok s =
    (let enc = bit_encoder_init;
         enc = snd (pack ok (ucast (dc_to_number dc_control)) 1 enc);
         enc = snd (pack ok (ucast cpt_status_report) 3 enc);
         enc = snd (pack ok 0 4 enc);
         enc = snd (pack ok (ucast (rx_deliv s)) 32 enc);
         enc = fold (\<lambda>i enc. snd (pack ok (if has_sn (rx_window s) i then 1 else 0) 1 enc))
                 (word_range (rx_deliv s + 1) (status_report_bitmap_end s)) enc
     in be_bytes enc)"

end
