(* ===== verification/Pdcp_Rx_Inv.thy ===== *)
theory Pdcp_Rx_Inv
  imports Pdcp_Rx
begin

text \<open>
  What the receiving PDCP entity does, stated and proved: the delivery loops as one function on lists
  of COUNTs, the invariant of the entity and its preservation by every handler, delivery in ascending
  order and at most once, and what a status report says.
\<close>

section \<open>The delivery loops\<close>

definition deliver_counts :: "u32 list \<Rightarrow> pdcp_rx \<Rightarrow> pdcp_rx" where
  "deliver_counts ks s =
    fold (\<lambda>k s. case cm_at (rx_window s) k of None \<Rightarrow> s | Some info \<Rightarrow> deliver_sdu k info s) ks s"

lemma deliver_counts_simps [simp]:
  "deliver_counts [] s = s"
  "deliver_counts (k # ks) s =
    deliver_counts ks (case cm_at (rx_window s) k of None \<Rightarrow> s | Some info \<Rightarrow> deliver_sdu k info s)"
  by (simp_all add: deliver_counts_def)

lemma deliver_counts_append: "deliver_counts (xs @ ys) s = deliver_counts ys (deliver_counts xs s)"
  by (simp add: deliver_counts_def)

lemma deliver_all_sdus_counts: "deliver_all_sdus s = deliver_counts (word_range (rx_deliv s) (rx_next s)) s"
  by (simp add: deliver_all_sdus_def deliver_counts_def)

lemma deliver_sdu_update_deliv [simp]:
  "deliver_sdu k i (s\<lparr>rx_deliv := d\<rparr>) = (deliver_sdu k i s)\<lparr>rx_deliv := d\<rparr>"
  by (simp add: deliver_sdu_def rx_add_sdus_def rx_emit_def Let_def)

lemma deliver_counts_update_deliv [simp]:
  "deliver_counts ks (s\<lparr>rx_deliv := d\<rparr>) = (deliver_counts ks s)\<lparr>rx_deliv := d\<rparr>"
proof (induction ks arbitrary: s)
  case (Cons k ks)
  show ?case by (cases "cm_at (rx_window s) k") (simp_all add: Cons.IH)
qed simp

lemma deliver_counts_frame [frame_simps]:
  "rx_next (deliver_counts ks s) = rx_next s"
  "rx_deliv (deliver_counts ks s) = rx_deliv s"
  "rx_reord (deliver_counts ks s) = rx_reord s"
  "rx_cfg (deliver_counts ks s) = rx_cfg s"
  "reordering_timer_running (deliver_counts ks s) = reordering_timer_running s"
  "cm_size (rx_window (deliver_counts ks s)) = cm_size (rx_window s)"
proof (induction ks arbitrary: s)
  case (Cons k ks)
  { case 1 show ?case by (cases "cm_at (rx_window s) k") (simp_all add: Cons frame_simps) }
  { case 2 show ?case by (cases "cm_at (rx_window s) k") (simp_all add: Cons frame_simps) }
  { case 3 show ?case by (cases "cm_at (rx_window s) k") (simp_all add: Cons frame_simps) }
  { case 4 show ?case by (cases "cm_at (rx_window s) k") (simp_all add: Cons frame_simps) }
  { case 5 show ?case by (cases "cm_at (rx_window s) k") (simp_all add: Cons frame_simps) }
  { case 6 show ?case by (cases "cm_at (rx_window s) k") (simp_all add: Cons frame_simps) }
qed simp_all

lemma deliver_counts_window:
  assumes "cm_wf (rx_window s)"
  shows "cm_wf (rx_window (deliver_counts ks s)) \<and>
    cm_at (rx_window (deliver_counts ks s)) j = (if j \<in> set ks then None else cm_at (rx_window s) j)"
  using assms
proof (induction ks arbitrary: s)
  case (Cons k ks)
  show ?case
  proof (cases "cm_at (rx_window s) k")
    case None
    then show ?thesis using Cons.IH [OF Cons.prems] by auto
  next
    case (Some info)
    have "cm_wf (rx_window (deliver_sdu k info s))" using Cons.prems by (simp add: frame_simps window_simps)
    from Cons.IH [OF this] show ?thesis using Some Cons.prems by (simp add: frame_simps window_simps)
  qed
qed simp

text \<open>The SDUs found at the given COUNTs, in the order of the list.\<close>

definition sdus_at :: "(u32 \<Rightarrow> pdcp_rx_sdu_info option) \<Rightarrow> u32 list \<Rightarrow> rx_event list" where
  "sdus_at A ks = List.map_filter (\<lambda>k. map_option (\<lambda>i. On_new_sdu k (ri_sdu i)) (A k)) ks"

lemma sdus_at_simps [simp]:
  "sdus_at A [] = []"
  "sdus_at A (k # ks) = (case A k of None \<Rightarrow> [] | Some i \<Rightarrow> [On_new_sdu k (ri_sdu i)]) @ sdus_at A ks"
  by (auto simp: sdus_at_def map_filter_simps split: option.splits)

lemma sdus_at_cong: "(\<And>k. k \<in> set ks \<Longrightarrow> A k = B k) \<Longrightarrow> sdus_at A ks = sdus_at B ks"
  by (induction ks) auto

lemma deliver_counts_out:
  assumes "cm_wf (rx_window s)" "distinct ks"
  shows "rx_out (deliver_counts ks s) = rx_out s @ sdus_at (cm_at (rx_window s)) ks"
  using assms
proof (induction ks arbitrary: s)
  case (Cons k ks)
  show ?case
  proof (cases "cm_at (rx_window s) k")
    case None
    then show ?thesis using Cons.IH [OF Cons.prems(1)] Cons.prems(2) by simp
  next
    case (Some info)
    have wf: "cm_wf (rx_window (deliver_sdu k info s))" using Cons.prems by (simp add: frame_simps window_simps)
    have "sdus_at (cm_at (rx_window (deliver_sdu k info s))) ks = sdus_at (cm_at (rx_window s)) ks"
      using Cons.prems by (intro sdus_at_cong) (auto simp: frame_simps window_simps)
    then show ?thesis using Some Cons.IH [OF wf] Cons.prems(2) by (simp add: frame_simps)
  qed
qed simp

lemma deliver_until_reord_counts:
  assumes "rx_deliv s \<le> rx_reord s"
  shows "deliver_until_reord s =
    (deliver_counts (word_range (rx_deliv s) (rx_reord s)) s)\<lparr>rx_deliv := rx_reord s\<rparr>"
  using assms
proof (induction s rule: deliver_until_reord.induct)
  case (1 s)
  show ?case
  proof (cases "rx_deliv s = rx_reord s")
    case True
    then show ?thesis by (simp add: deliver_until_reord.simps [of s])
  next
    case False
    let ?s1 = "case cm_at (rx_window s) (rx_deliv s) of None \<Rightarrow> s | Some info \<Rightarrow> deliver_sdu (rx_deliv s) info s"
    have lt: "rx_deliv s < rx_reord s" using "1.prems" False by simp
    have r1: "rx_reord ?s1 = rx_reord s" by (simp add: frame_simps split: option.splits)
    have "deliver_until_reord (?s1\<lparr>rx_deliv := rx_deliv s + 1\<rparr>) =
      (deliver_counts (word_range (rx_deliv s + 1) (rx_reord s)) ?s1)\<lparr>rx_deliv := rx_reord s\<rparr>"
      using "1.IH" [OF False] word_Suc_le(1) [OF lt] r1 by simp
    then show ?thesis
      using False by (simp add: deliver_until_reord.simps [of s] word_range_Cons [OF lt])
  qed
qed

definition consecutive :: "pdcp_rx \<Rightarrow> u32 list" where
  "consecutive s = takeWhile (\<lambda>k. cm_at (rx_window s) k \<noteq> None) (word_range (rx_deliv s) (rx_next s))"

lemma deliver_consecutive_counts:
  assumes "cm_wf (rx_window s)" "rx_deliv s \<le> rx_next s"
  shows "deliver_all_consecutive_counts s =
    (deliver_counts (consecutive s) s)\<lparr>rx_deliv := rx_deliv s + word_of_nat (length (consecutive s))\<rparr>"
  using assms
proof (induction s rule: deliver_all_consecutive_counts.induct)
  case (1 s)
  show ?case
  proof (cases "rx_deliv s = rx_next s \<or> cm_at (rx_window s) (rx_deliv s) = None")
    case True
    then have "consecutive s = []"
    proof
      assume n: "cm_at (rx_window s) (rx_deliv s) = None"
      show ?thesis
      proof (cases "rx_deliv s < rx_next s")
        case True
        then show ?thesis using n by (simp add: consecutive_def word_range_Cons)
      qed (simp add: consecutive_def)
    qed (simp add: consecutive_def)
    then show ?thesis using True by (auto simp: deliver_all_consecutive_counts.simps [of s] split: option.splits)
  next
    case False
    then obtain info where ne: "rx_deliv s \<noteq> rx_next s" and info: "cm_at (rx_window s) (rx_deliv s) = Some info" by auto
    let ?s1 = "(deliver_sdu (rx_deliv s) info s)\<lparr>rx_deliv := rx_deliv s + 1\<rparr>"
    have lt: "rx_deliv s < rx_next s" using "1.prems"(2) ne by simp
    have wf1: "cm_wf (rx_window ?s1)" using "1.prems"(1) by (simp add: frame_simps window_simps)
    have c1: "consecutive ?s1 = takeWhile (\<lambda>k. cm_at (rx_window s) k \<noteq> None) (word_range (rx_deliv s + 1) (rx_next s))"
      using "1.prems"(1) word_Suc_le(2) [OF lt]
      by (auto simp: consecutive_def frame_simps window_simps intro!: takeWhile_cong)
    have c: "consecutive s = rx_deliv s # consecutive ?s1"
      unfolding c1 using info by (simp add: consecutive_def word_range_Cons [OF lt])
    have "deliver_all_consecutive_counts ?s1 =
      (deliver_counts (consecutive ?s1) ?s1)\<lparr>rx_deliv := rx_deliv ?s1 + word_of_nat (length (consecutive ?s1))\<rparr>"
      using "1.IH" [OF ne info wf1] word_Suc_le(1) [OF lt] by (simp add: frame_simps)
    then show ?thesis
      using ne info by (simp add: deliver_all_consecutive_counts.simps [of s] c add.assoc)
  qed
qed

lemma consecutive_facts:
  fixes s :: pdcp_rx
  defines "n \<equiv> length (consecutive s)" and "d \<equiv> rx_deliv s + word_of_nat (length (consecutive s))"
  assumes le: "rx_deliv s \<le> rx_next s"
  shows "consecutive s = word_range (rx_deliv s) d" "rx_deliv s \<le> d" "d \<le> rx_next s"
    and "\<And>k. rx_deliv s \<le> k \<Longrightarrow> k < d \<Longrightarrow> cm_at (rx_window s) k \<noteq> None"
    and "d = rx_next s \<or> cm_at (rx_window s) d = None"
proof -
  let ?P = "\<lambda>k. cm_at (rx_window s) k \<noteq> None" and ?r = "word_range (rx_deliv s) (rx_next s)"
  have n: "n \<le> unat (rx_next s) - unat (rx_deliv s)"
    using length_takeWhile_le [of ?P ?r] by (simp add: n_def consecutive_def)
  have ud: "unat d = unat (rx_deliv s) + n" using unat_add_of_nat [OF le n] by (simp add: d_def n_def)
  have "consecutive s = take n ?r" unfolding n_def consecutive_def by (rule takeWhile_eq_take)
  then show c: "consecutive s = word_range (rx_deliv s) d"
    using take_word_range [OF le n] by (simp add: d_def n_def)
  show "rx_deliv s \<le> d" using ud by (simp add: word_le_nat_alt)
  show dn: "d \<le> rx_next s" using ud n le by (simp add: word_le_nat_alt)
  show "cm_at (rx_window s) k \<noteq> None" if "rx_deliv s \<le> k" "k < d" for k
  proof -
    have "k \<in> set (consecutive s)" unfolding c using that by simp
    then show ?thesis unfolding consecutive_def by (metis (mono_tags, lifting) set_takeWhileD)
  qed
  show "d = rx_next s \<or> cm_at (rx_window s) d = None"
  proof (cases "d = rx_next s")
    case False
    then have "d < rx_next s" using dn by simp
    then have "n < length ?r" using ud by (simp add: word_less_nat_alt)
    then have "\<not> ?P (?r ! n)" using nth_length_takeWhile [of ?P ?r] by (simp add: n_def consecutive_def)
    moreover have "?r ! n = d"
      using \<open>n < length ?r\<close> by (simp add: word_range_def d_def n_def [symmetric] add.commute)
    ultimately show ?thesis by simp
  qed simp
qed

text \<open>What the loops do to the entity, in one statement each.\<close>

definition delivered :: "pdcp_rx \<Rightarrow> u32 \<Rightarrow> pdcp_rx \<Rightarrow> bool" where
  "delivered s d s' \<longleftrightarrow>
    rx_deliv s' = d \<and> rx_deliv s \<le> d \<and>
    rx_next s' = rx_next s \<and> rx_cfg s' = rx_cfg s \<and> cm_wf (rx_window s') \<and>
    cm_size (rx_window s') = cm_size (rx_window s) \<and>
    cm_at (rx_window s') = (\<lambda>j. if rx_deliv s \<le> j \<and> j < d then None else cm_at (rx_window s) j) \<and>
    rx_out s' = rx_out s @ sdus_at (cm_at (rx_window s)) (word_range (rx_deliv s) d)"

lemma delivered_counts:
  assumes "cm_wf (rx_window s)" "rx_deliv s \<le> d"
  shows "delivered s d ((deliver_counts (word_range (rx_deliv s) d) s)\<lparr>rx_deliv := d\<rparr>)"
  using assms deliver_counts_window [OF assms(1)] deliver_counts_out [OF assms(1)]
  by (auto simp: delivered_def frame_simps)

lemma sdus_at_append: "sdus_at A (xs @ ys) = sdus_at A xs @ sdus_at A ys"
  by (induction xs) simp_all

lemma delivered_trans:
  assumes "delivered s d s1" "delivered s1 e s2"
  shows "delivered s e s2"
proof -
  have a: "rx_deliv s \<le> d" "rx_deliv s1 = d" "d \<le> e" using assms by (auto simp: delivered_def)
  have "sdus_at (cm_at (rx_window s1)) (word_range d e) = sdus_at (cm_at (rx_window s)) (word_range d e)"
    using assms(1) by (intro sdus_at_cong) (auto simp: delivered_def)
  then show ?thesis
    using assms a word_range_append [OF a(1,3)]
    by (auto simp: delivered_def fun_eq_iff simp flip: sdus_at_append)
qed

lemma deliver_all_consecutive_spec:
  assumes "cm_wf (rx_window s)" "rx_deliv s \<le> rx_next s"
  obtains d where "delivered s d (deliver_all_consecutive_counts s)" "d \<le> rx_next s"
    "\<And>k. rx_deliv s \<le> k \<Longrightarrow> k < d \<Longrightarrow> cm_at (rx_window s) k \<noteq> None"
    "d = rx_next s \<or> cm_at (rx_window s) d = None"
    "rx_reord (deliver_all_consecutive_counts s) = rx_reord s"
    "reordering_timer_running (deliver_all_consecutive_counts s) = reordering_timer_running s"
proof -
  note f = consecutive_facts [OF assms(2)]
  show ?thesis
    using delivered_counts [OF assms(1) f(2)] f
    by (intro that [of "rx_deliv s + word_of_nat (length (consecutive s))"])
      (auto simp: deliver_consecutive_counts [OF assms] frame_simps simp flip: f(1))
qed

lemma delivered_cong:
  assumes "delivered s d s'" "rx_deliv t = rx_deliv s" "rx_next t = rx_next s" "rx_cfg t = rx_cfg s"
    "rx_window t = rx_window s" "rx_out t = rx_out s"
    "rx_deliv t' = rx_deliv s'" "rx_next t' = rx_next s'" "rx_cfg t' = rx_cfg s'" "rx_window t' = rx_window s'"
    "rx_out t' = rx_out s'"
  shows "delivered t d t'"
  using assms by (simp add: delivered_def cong: if_cong)

lemma timeouts_frame [frame_simps]:
  "rx_next (rx_add_t_reordering_timeouts n s) = rx_next s"
  "rx_deliv (rx_add_t_reordering_timeouts n s) = rx_deliv s"
  "rx_reord (rx_add_t_reordering_timeouts n s) = rx_reord s"
  "rx_cfg (rx_add_t_reordering_timeouts n s) = rx_cfg s"
  "rx_window (rx_add_t_reordering_timeouts n s) = rx_window s"
  "rx_out (rx_add_t_reordering_timeouts n s) = rx_out s"
  "reordering_timer_running (rx_add_t_reordering_timeouts n s) = reordering_timer_running s"
  by (simp_all add: rx_add_t_reordering_timeouts_def)

lemma expire_spec:
  assumes "cm_wf (rx_window s)" "rx_deliv s \<le> rx_reord s" "rx_reord s \<le> rx_next s"
  obtains d where "delivered s d (handle_t_reordering_expire s)" "rx_reord s \<le> d" "d \<le> rx_next s"
    "d = rx_next s \<or> cm_at (rx_window s) d = None"
    "if d < rx_next s \<and> t_reordering (rx_cfg s) \<noteq> t_reordering_ms0
     then reordering_timer_running (handle_t_reordering_expire s) \<and> rx_reord (handle_t_reordering_expire s) = rx_next s
     else reordering_timer_running (handle_t_reordering_expire s) = reordering_timer_running s \<and>
          rx_reord (handle_t_reordering_expire s) = rx_reord s"
proof -
  let ?s1 = "rx_add_t_reordering_timeouts 1 s"
  let ?s2 = "deliver_until_reord ?s1"
  let ?s3 = "deliver_all_consecutive_counts ?s2"
  have s2: "?s2 = (deliver_counts (word_range (rx_deliv s) (rx_reord s)) ?s1)\<lparr>rx_deliv := rx_reord s\<rparr>"
    using deliver_until_reord_counts [of ?s1] assms(2) by (simp add: frame_simps)
  have d1: "delivered ?s1 (rx_reord s) ?s2"
    unfolding s2 using delivered_counts [of ?s1 "rx_reord s"] assms(1,2) by (simp add: frame_simps)
  have "cm_wf (rx_window ?s2)" "rx_deliv ?s2 \<le> rx_next ?s2"
    using d1 assms(3) by (simp_all add: delivered_def frame_simps)
  then obtain d where d: "delivered ?s2 d ?s3" "d \<le> rx_next ?s2"
    "d = rx_next ?s2 \<or> cm_at (rx_window ?s2) d = None"
    "rx_reord ?s3 = rx_reord ?s2" "reordering_timer_running ?s3 = reordering_timer_running ?s2"
    by (metis deliver_all_consecutive_spec)
  have r: "rx_reord ?s3 = rx_reord s" "reordering_timer_running ?s3 = reordering_timer_running s"
    using d(4,5) unfolding s2 by (simp_all add: frame_simps)
  have del: "delivered s d ?s3"
    using delivered_trans [OF d1 d(1)] by (rule delivered_cong) (simp_all add: frame_simps)
  have ge: "rx_reord s \<le> d" using d(1) d1 by (simp add: delivered_def)
  have n3: "rx_next ?s3 = rx_next s" "rx_deliv ?s3 = d" "rx_cfg ?s3 = rx_cfg s" using del by (simp_all add: delivered_def)
  have none: "d = rx_next s \<or> cm_at (rx_window s) d = None"
    using d(3) d1 ge by (auto simp: delivered_def frame_simps cong: if_cong split: if_splits)
  have dn: "d \<le> rx_next s" using d(2) d1 by (simp add: delivered_def frame_simps)
  have e: "handle_t_reordering_expire s =
    (if d < rx_next s then (if t_reordering (rx_cfg s) = t_reordering_ms0 then ?s3
       else ?s3\<lparr>rx_reord := rx_next s, reordering_timer_running := True\<rparr>) else ?s3)"
    by (simp add: handle_t_reordering_expire_def Let_def n3)
  show ?thesis
  proof (rule that [of d])
    show "delivered s d (handle_t_reordering_expire s)"
      unfolding e using del by (auto intro: delivered_cong)
  qed (use ge dn none r in \<open>auto simp: e\<close>)
qed

section \<open>The invariant\<close>

abbreviation rx_ws :: "pdcp_rx \<Rightarrow> u32" where
  "rx_ws s \<equiv> pdcp_window_size (sn_size (rx_cfg s))"

text \<open>
  RX_DELIV and RX_NEXT are in order and at most a window apart, and the window holds SDUs strictly
  between them (the SDU at RX_DELIV is missing), each under its own COUNT.
\<close>

definition rx_core :: "pdcp_rx \<Rightarrow> bool" where
  "rx_core s \<longleftrightarrow>
    sn_size_ok (sn_size (rx_cfg s)) \<and> cm_wf (rx_window s) \<and> cm_size (rx_window s) = unat (rx_ws s) \<and>
    rx_deliv s \<le> rx_next s \<and> uint (rx_next s) \<le> uint (rx_deliv s) + uint (rx_ws s) \<and>
    (\<forall>k i. cm_at (rx_window s) k = Some i \<longrightarrow> rx_deliv s < k \<and> k < rx_next s \<and> ri_count i = k)"

text \<open>
  t-Reordering runs exactly while an SDU is awaited, for the gap below RX_REORD; with a duration of zero
  nothing is ever awaited.
\<close>

definition rx_timer_inv :: "pdcp_rx \<Rightarrow> bool" where
  "rx_timer_inv s \<longleftrightarrow>
    (reordering_timer_running s \<longrightarrow> rx_timer_created (rx_cfg s) \<and> rx_deliv s < rx_reord s \<and> rx_reord s \<le> rx_next s) \<and>
    (rx_timer_created (rx_cfg s) \<and> rx_deliv s < rx_next s \<longrightarrow> reordering_timer_running s) \<and>
    (t_reordering (rx_cfg s) = t_reordering_ms0 \<longrightarrow> rx_deliv s = rx_next s)"

definition rx_inv :: "pdcp_rx \<Rightarrow> bool" where
  "rx_inv s \<longleftrightarrow> rx_core s \<and> rx_timer_inv s"

lemma delivered_core:
  assumes "delivered s d s'" "d \<le> rx_next s" "d = rx_next s \<or> cm_at (rx_window s) d = None"
    and "sn_size_ok (sn_size (rx_cfg s))" "cm_size (rx_window s) = unat (rx_ws s)"
    and "uint (rx_next s) \<le> uint (rx_deliv s) + uint (rx_ws s)"
    and "\<And>k i. cm_at (rx_window s) k = Some i \<Longrightarrow> rx_deliv s \<le> k \<and> k < rx_next s \<and> ri_count i = k"
  shows "rx_core s'"
proof -
  have dd: "rx_deliv s \<le> d" using assms(1) by (simp add: delivered_def)
  have key: "d < k \<and> k < rx_next s \<and> ri_count i = k"
    if "\<not> (rx_deliv s \<le> k \<and> k < d)" "cm_at (rx_window s) k = Some i" for k i
  proof -
    have "d \<le> k" using that assms(7) [OF that(2)] by auto
    moreover have "k \<noteq> d" using that(2) assms(3) assms(7) [OF that(2)] by auto
    ultimately show ?thesis using assms(7) [OF that(2)] by simp
  qed
  have "uint (rx_next s) \<le> uint d + uint (rx_ws s)" using assms(6) dd by (simp add: word_le_def)
  then show ?thesis
    using assms(1,2,4,5) key by (auto simp: rx_core_def delivered_def split: if_splits)
qed


lemma rx_inv_initial:
  assumes "pdcp_entity_rx rb cfg = Some s"
  shows "rx_inv s"
  using assms
  by (auto simp: pdcp_entity_rx_def create_rx_window_def rx_inv_def rx_core_def rx_timer_inv_def sn_size_ok_def
      pdcp_window_size_def pdcp_window_capacity_def pcdp_sn_cardinality_def
      split: option.splits pdcp_sn_size.splits)

text \<open>Events that carry no SDU, and metrics, leave the invariant alone.\<close>

definition rx_same :: "pdcp_rx \<Rightarrow> pdcp_rx \<Rightarrow> bool" where
  "rx_same s t \<longleftrightarrow> rx_cfg t = rx_cfg s \<and> rx_next t = rx_next s \<and> rx_deliv t = rx_deliv s \<and> rx_reord t = rx_reord s \<and>
    rx_window t = rx_window s \<and> reordering_timer_running t = reordering_timer_running s"

lemma rx_same_inv: "rx_same s t \<Longrightarrow> rx_inv s \<Longrightarrow> rx_inv t"
  by (simp add: rx_same_def rx_inv_def rx_core_def rx_timer_inv_def)

lemma rx_same_refl [simp]: "rx_same s s"
  by (simp add: rx_same_def)

lemma rx_same_trans: "rx_same s t \<Longrightarrow> rx_same t u \<Longrightarrow> rx_same s u"
  by (simp add: rx_same_def)

lemma rx_same_ops [simp]:
  "rx_same s (rx_emit e s)"
  "rx_same s (rx_add_pdus n b s)"
  "rx_same s (rx_add_dropped_pdus n s)"
  "rx_same s (rx_add_integrity_verified n s)"
  "rx_same s (rx_add_integrity_failed n s)"
  "rx_same s (rx_emit e (rx_add_integrity_failed n s))"
  by (simp_all add: rx_same_def rx_emit_def rx_add_pdus_def rx_add_dropped_pdus_def
      rx_add_integrity_verified_def rx_add_integrity_failed_def)

lemma rx_same_check: "rx_same s (snd (rx_check_max_count c s))"
  by (simp add: rx_check_max_count_def Let_def rx_same_def rx_emit_def)

lemma rx_check_max_count_limit: "fst (rx_check_max_count c s) \<longleftrightarrow> c < mc_hard (rx_max_count (custom_rx (rx_cfg s)))"
  by (auto simp: rx_check_max_count_def Let_def rx_emit_def)

lemma rx_same_decipher: "rx_same s (snd (apply_deciphering_and_integrity_check lib buf c s))"
  by (auto simp: apply_deciphering_and_integrity_check_def
      split: option.splits sum.splits security_error.splits)

section \<open>Storing an SDU\<close>

text \<open>
  A COUNT that passed the checks: not below RX_DELIV, less than a window above it, not the largest
  number, not stored yet.
\<close>

definition rx_acceptable :: "pdcp_rx \<Rightarrow> u32 \<Rightarrow> bool" where
  "rx_acceptable s c \<longleftrightarrow>
    rx_deliv s \<le> c \<and> uint c < uint (rx_deliv s) + uint (rx_ws s) \<and> c < - 1 \<and> cm_at (rx_window s) c = None"

lemma rx_core_add:
  assumes "rx_core s" "rx_acceptable s c"
  shows "cm_at (add_sn (rx_window s) c i) = (cm_at (rx_window s))(c \<mapsto> i)"
proof (rule sw.look_add_span [of _ "rx_deliv s"])
  have sz: "int (cm_size (rx_window s)) = uint (rx_ws s)" using assms(1) by (simp add: rx_core_def)
  show "cm_wf (rx_window s)" using assms(1) by (simp add: rx_core_def)
  show "rx_deliv s \<le> c" using assms(2) by (simp add: rx_acceptable_def)
  have "uint c < uint (rx_deliv s) + int (cm_size (rx_window s))" using assms(2) sz by (simp add: rx_acceptable_def)
  then show "unat c < unat (rx_deliv s) + cm_size (rx_window s)" by (simp only: uint_less_add_iff)
  show "rx_deliv s \<le> j \<and> unat j < unat (rx_deliv s) + cm_size (rx_window s)"
    if "cm_at (rx_window s) j \<noteq> None" for j
  proof -
    have "rx_deliv s < j" "j < rx_next s" using that assms(1) by (auto simp: rx_core_def)
    moreover have "uint (rx_next s) \<le> uint (rx_deliv s) + int (cm_size (rx_window s))"
      using assms(1) sz by (simp add: rx_core_def)
    ultimately have "rx_deliv s \<le> j" "uint j < uint (rx_deliv s) + int (cm_size (rx_window s))"
      by (simp_all add: word_less_def word_le_def)
    then show ?thesis by (simp only: uint_less_add_iff simp_thms)
  qed
qed


lemma rx_core_delivered:
  assumes "rx_core s" "delivered s d s'" "d \<le> rx_next s" "d = rx_next s \<or> cm_at (rx_window s) d = None"
  shows "rx_core s'"
proof (rule delivered_core [OF assms(2-4)])
  show "rx_deliv s \<le> k \<and> k < rx_next s \<and> ri_count i = k" if "cm_at (rx_window s) k = Some i" for k i
    using that assms(1) by (auto simp: rx_core_def intro: less_imp_le)
qed (use assms(1) in \<open>simp_all add: rx_core_def\<close>)

text \<open>COUNTs are delivered in ascending order, each between the old and the new RX_DELIV.\<close>

fun sdu_count :: "rx_event \<Rightarrow> u32 option" where
  "sdu_count (On_new_sdu c _) = Some c"
| "sdu_count _ = None"

definition sdu_counts :: "rx_event list \<Rightarrow> u32 list" where
  "sdu_counts es = List.map_filter sdu_count es"

lemma sdu_counts_simps [simp]:
  "sdu_counts [] = []"
  "sdu_counts (e # es) = (case sdu_count e of None \<Rightarrow> [] | Some c \<Rightarrow> [c]) @ sdu_counts es"
  "sdu_counts (xs @ ys) = sdu_counts xs @ sdu_counts ys"
  by (simp_all add: sdu_counts_def map_filter_def split: option.splits)

lemma sdu_counts_sdus_at: "sdu_counts (sdus_at A ks) = filter (\<lambda>k. A k \<noteq> None) ks"
  by (induction ks) (auto split: option.splits)

lemma sorted_word_range: "sorted_wrt (<) (word_range lo hi)"
proof (induction "unat hi - unat lo" arbitrary: lo)
  case 0
  then have "hi \<le> lo" by (simp add: word_le_nat_alt)
  then show ?case by simp
next
  case (Suc n)
  then have lt: "lo < hi" by (simp add: word_less_nat_alt)
  have "n = unat hi - unat (lo + 1)" using Suc.hyps(2) word_no_wrap_Suc [OF lt] by linarith
  from Suc.hyps(1) [OF this] show ?case
    using word_Suc_le(2) [OF lt] by (auto simp: word_range_Cons [OF lt])
qed

definition rx_extends :: "pdcp_rx \<Rightarrow> pdcp_rx \<Rightarrow> bool" where
  "rx_extends s t \<longleftrightarrow> rx_deliv s \<le> rx_deliv t \<and> rx_cfg t = rx_cfg s \<and>
    (\<exists>new. rx_out t = rx_out s @ new \<and> sorted_wrt (<) (sdu_counts new) \<and>
       (\<forall>c \<in> set (sdu_counts new). rx_deliv s \<le> c \<and> c < rx_deliv t))"

lemma rx_extends_trans:
  assumes "rx_extends s t" "rx_extends t u"
  shows "rx_extends s u"
proof -
  obtain xs where xs: "rx_out t = rx_out s @ xs" "sorted_wrt (<) (sdu_counts xs)"
    "\<forall>c \<in> set (sdu_counts xs). rx_deliv s \<le> c \<and> c < rx_deliv t" and d1: "rx_deliv s \<le> rx_deliv t" "rx_cfg t = rx_cfg s"
    using assms(1) by (auto simp: rx_extends_def)
  obtain ys where ys: "rx_out u = rx_out t @ ys" "sorted_wrt (<) (sdu_counts ys)"
    "\<forall>c \<in> set (sdu_counts ys). rx_deliv t \<le> c \<and> c < rx_deliv u" and d2: "rx_deliv t \<le> rx_deliv u" "rx_cfg u = rx_cfg t"
    using assms(2) by (auto simp: rx_extends_def)
  have "sorted_wrt (<) (sdu_counts (xs @ ys))" using xs ys by (fastforce simp: sorted_wrt_append)
  then show ?thesis using xs ys d1 d2 unfolding rx_extends_def by (intro conjI exI [of _ "xs @ ys"]) fastforce+
qed

lemma rx_extends_delivered: "delivered s d s' \<Longrightarrow> rx_extends s s'"
  unfolding rx_extends_def delivered_def
  by (auto simp: sdu_counts_sdus_at sorted_word_range sorted_wrt_filter)

lemma rx_extends_refl [simp]: "rx_extends s s"
  by (simp add: rx_extends_def)

lemma rx_extends_update:
  assumes "rx_deliv t = rx_deliv s" "rx_cfg t = rx_cfg s" "rx_out t = rx_out s @ new" "sdu_counts new = []"
  shows "rx_extends s t"
  using assms by (auto simp: rx_extends_def)

text \<open>
  No stored SDU is lost or changed: what \<open>A\<close> holds is still in the window or has been delivered, and
  nothing else is delivered.
\<close>

definition rx_conserves :: "(u32 \<Rightarrow> pdcp_rx_sdu_info option) \<Rightarrow> pdcp_rx \<Rightarrow> pdcp_rx \<Rightarrow> bool" where
  "rx_conserves A s t \<longleftrightarrow>
    (\<exists>new. rx_out t = rx_out s @ new \<and>
      (\<forall>k i. A k = Some i \<longrightarrow> cm_at (rx_window t) k = Some i \<or> On_new_sdu k (ri_sdu i) \<in> set new) \<and>
      (\<forall>k b. On_new_sdu k b \<in> set new \<longrightarrow> (\<exists>i. A k = Some i \<and> ri_sdu i = b)) \<and>
      (\<forall>k i. cm_at (rx_window t) k = Some i \<longrightarrow> A k = Some i))"

lemma sdus_at_mem: "On_new_sdu k b \<in> set (sdus_at A ks) \<longleftrightarrow> k \<in> set ks \<and> (\<exists>i. A k = Some i \<and> ri_sdu i = b)"
proof (induction ks)
  case (Cons c ks)
  then show ?case by (cases "A c"; cases "k = c") auto
qed simp

lemma conserves_delivered: "delivered s d t \<Longrightarrow> rx_conserves (cm_at (rx_window s)) s t"
  unfolding rx_conserves_def delivered_def
  by (intro exI [of _ "sdus_at (cm_at (rx_window s)) (word_range (rx_deliv s) d)"]) (auto simp: sdus_at_mem)

lemma conserves_same: "rx_window t = rx_window s \<Longrightarrow> rx_out t = rx_out s \<Longrightarrow> rx_conserves (cm_at (rx_window s)) s t"
  by (auto simp: rx_conserves_def)

lemma conserves_trans:
  assumes "rx_conserves A s t" "rx_conserves (cm_at (rx_window t)) t u"
  shows "rx_conserves A s u"
proof -
  obtain xs where xs: "rx_out t = rx_out s @ xs"
    "\<And>k i. A k = Some i \<Longrightarrow> cm_at (rx_window t) k = Some i \<or> On_new_sdu k (ri_sdu i) \<in> set xs"
    "\<And>k b. On_new_sdu k b \<in> set xs \<Longrightarrow> \<exists>i. A k = Some i \<and> ri_sdu i = b"
    "\<And>k i. cm_at (rx_window t) k = Some i \<Longrightarrow> A k = Some i"
    using assms(1) by (auto simp: rx_conserves_def)
  obtain ys where ys: "rx_out u = rx_out t @ ys"
    "\<And>k i. cm_at (rx_window t) k = Some i \<Longrightarrow> cm_at (rx_window u) k = Some i \<or> On_new_sdu k (ri_sdu i) \<in> set ys"
    "\<And>k b. On_new_sdu k b \<in> set ys \<Longrightarrow> \<exists>i. cm_at (rx_window t) k = Some i \<and> ri_sdu i = b"
    "\<And>k i. cm_at (rx_window u) k = Some i \<Longrightarrow> cm_at (rx_window t) k = Some i"
    using assms(2) by (auto simp: rx_conserves_def)
  show ?thesis
    unfolding rx_conserves_def
  proof (intro exI [of _ "xs @ ys"] conjI allI impI)
    show "rx_out u = rx_out s @ xs @ ys" using xs ys by simp
    show "cm_at (rx_window u) k = Some i \<or> On_new_sdu k (ri_sdu i) \<in> set (xs @ ys)" if "A k = Some i" for k i
      using xs(2) [OF that] ys(2) by auto
    show "\<exists>i. A k = Some i \<and> ri_sdu i = b" if "On_new_sdu k b \<in> set (xs @ ys)" for k b
    proof (cases "On_new_sdu k b \<in> set xs")
      case True
      then show ?thesis using xs(3) by blast
    next
      case False
      then have "On_new_sdu k b \<in> set ys" using that by simp
      then show ?thesis using xs(4) ys(3) by blast
    qed
    show "A k = Some i" if "cm_at (rx_window u) k = Some i" for k i
      using that xs(4) ys(4) by blast
  qed
qed

lemma update_reordering_inv:
  assumes "rx_core s" "reordering_timer_running s \<longrightarrow> rx_timer_created (rx_cfg s) \<and> rx_reord s \<le> rx_next s"
  shows "rx_inv (rx_update_reordering s) \<and> rx_extends s (rx_update_reordering s) \<and>
    rx_conserves (cm_at (rx_window s)) s (rx_update_reordering s)"
proof -
  let ?s1 = "if reordering_timer_running s \<and> rx_deliv s \<ge> rx_reord s then s\<lparr>reordering_timer_running := False\<rparr> else s"
  have core1: "rx_core ?s1" using assms(1) by (simp add: rx_core_def)
  show ?thesis
  proof (cases "t_reordering (rx_cfg s) = t_reordering_ms0")
    case True
    let ?s2 = "?s1\<lparr>rx_reord := rx_next s\<rparr>"
    have upd: "rx_update_reordering s = handle_t_reordering_expire ?s2"
      using True by (auto simp: rx_update_reordering_def Let_def t_reordering_ms0_def t_reordering_infinity_def)
    have core2: "rx_core ?s2" using assms(1) by (simp add: rx_core_def)
    have nr: "\<not> reordering_timer_running ?s2" using assms(2) True by (auto simp: rx_timer_created_def)
    have "cm_wf (rx_window ?s2)" "rx_deliv ?s2 \<le> rx_reord ?s2" "rx_reord ?s2 \<le> rx_next ?s2"
      using assms(1) by (simp_all add: rx_core_def)
    then obtain d where d: "delivered ?s2 d (handle_t_reordering_expire ?s2)" "rx_reord ?s2 \<le> d" "d \<le> rx_next ?s2"
      "d = rx_next ?s2 \<or> cm_at (rx_window ?s2) d = None"
      "if d < rx_next ?s2 \<and> t_reordering (rx_cfg ?s2) \<noteq> t_reordering_ms0
       then reordering_timer_running (handle_t_reordering_expire ?s2) \<and> rx_reord (handle_t_reordering_expire ?s2) = rx_next ?s2
       else reordering_timer_running (handle_t_reordering_expire ?s2) = reordering_timer_running ?s2 \<and>
            rx_reord (handle_t_reordering_expire ?s2) = rx_reord ?s2"
      by (rule expire_spec)
    have "d = rx_next s" using d(2,3) by (auto split: if_splits)
    moreover have "rx_core (handle_t_reordering_expire ?s2)" by (rule rx_core_delivered [OF core2 d(1,3,4)])
    ultimately have "rx_inv (handle_t_reordering_expire ?s2)"
      using d(1,5) nr True by (auto simp: rx_inv_def rx_timer_inv_def delivered_def rx_timer_created_def)
    moreover have "rx_extends s (handle_t_reordering_expire ?s2)"
      by (rule rx_extends_trans [OF _ rx_extends_delivered [OF d(1)]]) (auto intro: rx_extends_update)
    moreover have "rx_conserves (cm_at (rx_window s)) s (handle_t_reordering_expire ?s2)"
      using conserves_trans [OF conserves_same conserves_delivered [OF d(1)], of s] by simp
    ultimately show ?thesis unfolding upd by blast
  next
    case False
    have "rx_conserves (cm_at (rx_window s)) s (rx_update_reordering s)"
      using False by (auto simp: rx_update_reordering_def Let_def intro!: conserves_same)
    then show ?thesis
      using False assms core1
      by (auto simp: rx_update_reordering_def Let_def rx_inv_def rx_timer_inv_def rx_timer_created_def rx_core_def
          intro!: rx_extends_update [where new = "[]"])
  qed
qed


lemma uint_Suc_of_less: "c < - 1 \<Longrightarrow> uint (c + 1 :: u32) = uint c + 1"
proof -
  assume "c < - 1"
  then have "int (unat (c + 1)) = int (unat c) + 1" by (simp only: word_no_wrap_Suc of_nat_Suc)
  then show ?thesis by simp
qed

lemma store_and_deliver_inv:
  assumes "rx_inv s" "rx_acceptable s c"
  shows "rx_inv (rx_store_and_deliver c sdu s) \<and> rx_extends s (rx_store_and_deliver c sdu s) \<and>
    rx_conserves ((cm_at (rx_window s))(c \<mapsto> \<lparr>ri_sdu = sdu, ri_count = c\<rparr>)) s (rx_store_and_deliver c sdu s)"
proof -
  let ?i = "\<lparr>ri_sdu = sdu, ri_count = c\<rparr>"
  define s2 where "s2 = s\<lparr>rx_window := add_sn (rx_window s) c ?i, rx_next := (if c \<ge> rx_next s then c + 1 else rx_next s)\<rparr>"
  define s3 where "s3 = (if c = rx_deliv s then deliver_all_consecutive_counts s2 else s2)"
  have core: "rx_core s" and tim: "rx_timer_inv s" using assms(1) by (simp_all add: rx_inv_def)
  have A: "cm_at (rx_window s2) = (cm_at (rx_window s))(c \<mapsto> ?i)"
    using rx_core_add [OF core assms(2)] by (simp add: s2_def)
  have acc: "rx_deliv s \<le> c" "uint c < uint (rx_deliv s) + uint (rx_ws s)" "c < - 1"
    using assms(2) by (simp_all add: rx_acceptable_def)
  have c1: "c < c + 1" "uint (c + 1) = uint c + 1"
    using word_Suc_le(2) [OF acc(3)] uint_Suc_of_less [OF acc(3)] by simp_all
  have next2: "rx_next s \<le> rx_next s2" "c < rx_next s2"
    using c1 by (auto simp: s2_def not_le)
  have wf2: "cm_wf (rx_window s2)" using core by (simp add: s2_def rx_core_def window_simps)
  have same: "rx_deliv s2 = rx_deliv s" "rx_cfg s2 = rx_cfg s" "rx_reord s2 = rx_reord s" "rx_out s2 = rx_out s"
    "reordering_timer_running s2 = reordering_timer_running s" "cm_size (rx_window s2) = cm_size (rx_window s)"
    by (simp_all add: s2_def)
  have bound: "uint (rx_next s2) \<le> uint (rx_deliv s2) + uint (rx_ws s2)"
    using core acc(2) c1(2) by (auto simp: s2_def rx_core_def)
  have le2: "rx_deliv s2 \<le> rx_next s2" using core next2(1) by (auto simp: same rx_core_def intro: order_trans)
  have keys: "rx_deliv s \<le> k \<and> k < rx_next s2 \<and> ri_count i = k \<and> (k = rx_deliv s \<longrightarrow> c = rx_deliv s)"
    if "cm_at (rx_window s2) k = Some i" for k i
  proof (cases "k = c")
    case True
    then show ?thesis using that A acc next2 by auto
  next
    case False
    then have "cm_at (rx_window s) k = Some i" using that A by simp
    then have "rx_deliv s < k" "k < rx_next s" "ri_count i = k" using core by (auto simp: rx_core_def)
    then show ?thesis using next2(1) by auto
  qed
  have s3: "rx_core s3 \<and> rx_extends s s3 \<and> rx_next s3 = rx_next s2 \<and> rx_reord s3 = rx_reord s \<and>
      reordering_timer_running s3 = reordering_timer_running s \<and> rx_cfg s3 = rx_cfg s \<and>
      rx_conserves ((cm_at (rx_window s))(c \<mapsto> ?i)) s2 s3"
  proof (cases "c = rx_deliv s")
    case True
    obtain d where d: "delivered s2 d (deliver_all_consecutive_counts s2)" "d \<le> rx_next s2"
      "d = rx_next s2 \<or> cm_at (rx_window s2) d = None"
      "rx_reord (deliver_all_consecutive_counts s2) = rx_reord s2"
      "reordering_timer_running (deliver_all_consecutive_counts s2) = reordering_timer_running s2"
      by (rule deliver_all_consecutive_spec [OF wf2 le2])
    have "rx_core (deliver_all_consecutive_counts s2)"
      using core bound keys
      by (intro delivered_core [OF d(1-3)]) (auto simp: same rx_core_def)
    moreover have "rx_extends s (deliver_all_consecutive_counts s2)"
      by (rule rx_extends_trans [OF _ rx_extends_delivered [OF d(1)]]) (auto simp: same intro: rx_extends_update)
    moreover have "rx_conserves ((cm_at (rx_window s))(c \<mapsto> ?i)) s2 (deliver_all_consecutive_counts s2)"
      using conserves_delivered [OF d(1)] by (simp only: A)
    ultimately show ?thesis using d True by (simp add: s3_def same delivered_def)
  next
    case False
    have "rx_core s2"
      using core bound wf2 le2 keys False unfolding rx_core_def same by (force simp: order_less_le)
    moreover have "rx_conserves ((cm_at (rx_window s))(c \<mapsto> ?i)) s2 s2"
      using conserves_same [of s2 s2] by (simp only: A)
    ultimately show ?thesis
      using False by (auto simp: s3_def same intro: rx_extends_update [where new = "[]"])
  qed
  have "reordering_timer_running s3 \<longrightarrow> rx_timer_created (rx_cfg s3) \<and> rx_reord s3 \<le> rx_next s3"
    using s3 tim next2(1) by (auto simp: rx_timer_inv_def)
  from update_reordering_inv [OF _ this] s3
  have u: "rx_inv (rx_update_reordering s3) \<and> rx_extends s3 (rx_update_reordering s3) \<and>
    rx_conserves (cm_at (rx_window s3)) s3 (rx_update_reordering s3)" by blast
  have "rx_conserves ((cm_at (rx_window s))(c \<mapsto> ?i)) s2 (rx_update_reordering s3)"
    using conserves_trans s3 u by blast
  then have "rx_conserves ((cm_at (rx_window s))(c \<mapsto> ?i)) s (rx_update_reordering s3)"
    by (simp add: rx_conserves_def same)
  moreover have "rx_store_and_deliver c sdu s = rx_update_reordering s3"
    by (simp add: rx_store_and_deliver_def Let_def s3_def s2_def)
  ultimately show ?thesis using s3 u rx_extends_trans by metis
qed


section \<open>Every handler\<close>

text \<open>
  The HFN cannot be computed below zero: either the hard limit of the COUNT excludes the top window of
  the number range, or RX_DELIV has left the first window.
\<close>

definition rx_hfn_safe :: "pdcp_rx \<Rightarrow> bool" where
  "rx_hfn_safe s \<longleftrightarrow>
    uint (mc_hard (rx_max_count (custom_rx (rx_cfg s)))) + uint (rx_ws s) \<le> 2 ^ 32 \<or> uint (rx_ws s) \<le> uint (rx_deliv s)"

lemma u32_masks:
  "(w :: u32) AND 0x0f = take_bit 4 w" "w AND 0x03 = take_bit 2 w" "w AND 0xff = take_bit 8 w"
  using and_low_mask [of w 4] and_low_mask [of w 2] and_low_mask [of w 8] by simp_all

lemma read_header_sn:
  assumes "read_data_pdu_header s buf = Some sn"
  shows "uint sn < 2 ^ sn_bits (sn_size (rx_cfg s))"
proof (rule uint_lt_exp_bits)
  fix k
  assume "sn_bits (sn_size (rx_cfg s)) \<le> k"
  then show "\<not> bit sn k"
    using assms unfolding read_data_pdu_header_def u32_masks
    by (cases "sn_size (rx_cfg s)")
      (auto simp: bit_or_iff bit_push_bit_iff bit_take_bit_iff split: if_splits)
qed

lemma process_sdu_inv:
  assumes "rx_inv s" "uint c < uint (rx_deliv s) + uint (rx_ws s) \<or> c < rx_deliv s" "c < - 1"
  shows "rx_inv (rx_process_sdu c sdu s) \<and> rx_extends s (rx_process_sdu c sdu s)"
proof (cases "c < rx_deliv s")
  case True
  then show ?thesis using assms(1) by (simp add: rx_process_sdu_def)
next
  case False
  show ?thesis
  proof (cases "cm_at (rx_window s) c")
    case None
    then have "rx_acceptable s c" using False assms by (simp add: rx_acceptable_def)
    then show ?thesis using False None store_and_deliver_inv [OF assms(1)] by (simp add: rx_process_sdu_def)
  next
    case (Some info)
    then have "ri_count info = c" using assms(1) by (simp add: rx_inv_def rx_core_def)
    then show ?thesis using False Some assms(1) by (simp add: rx_process_sdu_def)
  qed
qed

lemma rx_same_hfn_safe: "rx_same s t \<Longrightarrow> rx_hfn_safe s \<Longrightarrow> rx_hfn_safe t"
  by (simp add: rx_same_def rx_hfn_safe_def)

text \<open>Events and metrics only: no SDU is delivered.\<close>

definition rx_quiet :: "pdcp_rx \<Rightarrow> pdcp_rx \<Rightarrow> bool" where
  "rx_quiet s t \<longleftrightarrow> rx_same s t \<and> (\<exists>new. rx_out t = rx_out s @ new \<and> sdu_counts new = [])"

lemma rx_quiet_extends: "rx_quiet s t \<Longrightarrow> rx_extends s t"
  by (auto simp: rx_quiet_def rx_same_def intro: rx_extends_update)

lemma rx_quiet_trans: "rx_quiet s t \<Longrightarrow> rx_quiet t u \<Longrightarrow> rx_quiet s u"
  by (auto simp: rx_quiet_def intro: rx_same_trans)

lemma rx_quiet_ops [simp]:
  "rx_quiet s s"
  "rx_quiet s (rx_add_pdus n b s)"
  "rx_quiet s (rx_add_dropped_pdus n s)"
  "rx_quiet s (rx_add_integrity_verified n s)"
  "rx_quiet s (rx_add_integrity_failed n s)"
  by (simp_all add: rx_quiet_def) (simp_all add: rx_add_pdus_def rx_add_dropped_pdus_def
      rx_add_integrity_verified_def rx_add_integrity_failed_def)

lemma rx_quiet_emit: "sdu_count e = None \<Longrightarrow> rx_quiet s (rx_emit e s)"
  by (simp add: rx_quiet_def) (simp add: rx_emit_def)

lemma rx_quiet_check: "rx_quiet s (snd (rx_check_max_count c s))"
  using rx_same_check [of s c] by (auto simp: rx_quiet_def rx_check_max_count_def Let_def rx_emit_def)

lemma rx_quiet_decipher: "rx_quiet s (snd (apply_deciphering_and_integrity_check lib buf c s))"
  by (auto simp: apply_deciphering_and_integrity_check_def intro: rx_quiet_emit rx_quiet_trans [OF _ rx_quiet_emit]
      split: option.splits sum.splits security_error.splits)

lemma rx_quiet_inv: "rx_quiet s t \<Longrightarrow> rx_inv s \<Longrightarrow> rx_inv t \<and> rx_extends s t"
  using rx_same_inv rx_quiet_extends by (auto simp: rx_quiet_def)


lemma estimate_acceptable:
  assumes "rx_inv s" "rx_hfn_safe s" "uint sn < 2 ^ sn_bits (sn_size (rx_cfg s))"
    and "c = count_estimation (sn_size (rx_cfg s)) (rx_deliv s) sn"
    and "c < mc_hard (rx_max_count (custom_rx (rx_cfg s)))"
  shows "uint c < uint (rx_deliv s) + uint (rx_ws s) \<or> c < rx_deliv s" and "c < - 1"
proof -
  have ok: "sn_size_ok (sn_size (rx_cfg s))" using assms(1) by (simp add: rx_inv_def rx_core_def)
  show "c < - 1" using assms(5) by (metis less_le_trans word_n1_ge)
  show "uint c < uint (rx_deliv s) + uint (rx_ws s) \<or> c < rx_deliv s"
  proof (cases "c < rx_deliv s")
    case False
    have "uint c + uint (rx_ws s) < 2 ^ 32 \<or> uint (rx_ws s) \<le> uint (rx_deliv s)"
      using assms(2,5) by (auto simp: rx_hfn_safe_def word_less_def)
    then show ?thesis
      using count_estimation_in_window [OF ok assms(3), of "rx_deliv s"] False assms(4) by simp
  qed simp
qed

text \<open>Where the content of a data PDU can end up: the branches of \<open>handle_data_pdu\<close>.\<close>

lemma handle_data_pdu_cases:
  assumes "rx_inv s" "rx_hfn_safe s"
  obtains (quiet) "rx_quiet s (handle_data_pdu lib pdu s)"
  | (process) sn c s2 buf where
      "read_data_pdu_header s pdu = Some sn" "c = count_estimation (sn_size (rx_cfg s)) (rx_deliv s) sn"
      "rx_quiet s s2" "c < - 1" "uint c < uint (rx_deliv s) + uint (rx_ws s) \<or> c < rx_deliv s"
      "c < mc_hard (rx_max_count (custom_rx (rx_cfg s)))"
      "fst (apply_deciphering_and_integrity_check lib pdu c (snd (rx_check_max_count c s))) = Some (Inr buf)"
      "handle_data_pdu lib pdu s = rx_process_sdu c (drop (sec_hdr_size (sn_size (rx_cfg s))) buf) s2"
proof (cases "length pdu \<le> rx_hdr_len s \<or> read_data_pdu_header s pdu = None")
  case True
  then have "handle_data_pdu lib pdu s = rx_add_dropped_pdus 1 s" by (auto simp: handle_data_pdu_def)
  then show ?thesis using quiet by simp
next
  case False
  then obtain sn where sn: "read_data_pdu_header s pdu = Some sn" and len: "\<not> length pdu \<le> rx_hdr_len s" by auto
  define c where "c = count_estimation (sn_size (rx_cfg s)) (rx_deliv s) sn"
  obtain go s1 where chk: "rx_check_max_count c s = (go, s1)" by fastforce
  obtain r s2 where dec: "apply_deciphering_and_integrity_check lib pdu c s1 = (r, s2)" by fastforce
  have q1: "rx_quiet s s1" using rx_quiet_check [of s c] chk by simp
  have q2: "rx_quiet s1 s2" using rx_quiet_decipher [of s1 lib pdu c] dec by simp
  note q = rx_quiet_trans [OF q1 q2]
  have same: "rx_same s s1" "rx_same s s2" using q1 q by (simp_all add: rx_quiet_def)
  have h: "handle_data_pdu lib pdu s =
    (if \<not> go then s1 else case r of None \<Rightarrow> rx_emit Rx_abort s2 | Some (Inl _) \<Rightarrow> s2
     | Some (Inr buf) \<Rightarrow> rx_process_sdu c (drop (sec_hdr_size (sn_size (rx_cfg s))) buf) s2)"
    using len sn chk dec same
    by (auto simp: handle_data_pdu_def Let_def rx_same_def simp flip: c_def split: option.splits sum.splits)
  show ?thesis
  proof (cases "go \<and> (\<exists>buf. r = Some (Inr buf))")
    case True
    then obtain buf where r: "r = Some (Inr buf)" and go by blast
    then have lim: "c < mc_hard (rx_max_count (custom_rx (rx_cfg s)))"
      using rx_check_max_count_limit [of c s] chk by simp
    note acc = estimate_acceptable [OF assms read_header_sn [OF sn] c_def lim]
    show ?thesis
      by (rule process [OF sn c_def q acc(2,1) lim]) (use True chk dec r in \<open>simp_all add: h\<close>)
  next
    case False
    have "rx_quiet s (rx_emit Rx_abort s2)" using rx_quiet_trans [OF q rx_quiet_emit] by simp
    then have "rx_quiet s (handle_data_pdu lib pdu s)"
      using False q1 q by (auto simp: h split: option.splits sum.splits)
    then show ?thesis by (rule quiet)
  qed
qed

lemma handle_data_pdu_inv:
  assumes "rx_inv s" "rx_hfn_safe s"
  shows "rx_inv (handle_data_pdu lib pdu s) \<and> rx_extends s (handle_data_pdu lib pdu s)"
proof (rule handle_data_pdu_cases [OF assms, of lib pdu])
  assume "rx_quiet s (handle_data_pdu lib pdu s)"
  then show ?thesis using rx_quiet_inv assms(1) by blast
next
  fix sn c s2 buf
  assume a: "rx_quiet s s2" "c < - 1" "uint c < uint (rx_deliv s) + uint (rx_ws s) \<or> c < rx_deliv s"
    "handle_data_pdu lib pdu s = rx_process_sdu c (drop (sec_hdr_size (sn_size (rx_cfg s))) buf) s2"
  have "rx_inv s2" using rx_quiet_inv [OF a(1) assms(1)] by blast
  moreover have "uint c < uint (rx_deliv s2) + uint (rx_ws s2) \<or> c < rx_deliv s2"
    using a(1,3) by (simp add: rx_quiet_def rx_same_def)
  ultimately show ?thesis
    unfolding a(4) using process_sdu_inv a(2) rx_extends_trans [OF rx_quiet_extends [OF a(1)]] by blast
qed

lemma rx_quiet_control: "rx_quiet s (handle_control_pdu pdu s)"
  by (simp add: handle_control_pdu_def rx_quiet_emit)

lemma handle_pdu_inv:
  assumes "rx_inv s" "rx_hfn_safe s"
  shows "rx_inv (handle_pdu lib copy_ok buf s) \<and> rx_extends s (handle_pdu lib copy_ok buf s)"
proof -
  let ?s1 = "rx_add_pdus 1 (length buf) s"
  have q: "rx_quiet s ?s1" by simp
  have i: "rx_inv ?s1" "rx_hfn_safe ?s1"
    using rx_quiet_inv [OF q assms(1)] rx_same_hfn_safe [OF _ assms(2)] by simp_all
  have quiet: "rx_inv t \<and> rx_extends s t" if "rx_quiet ?s1 t" for t
    using rx_quiet_inv [OF rx_quiet_trans [OF q that] assms(1)] .
  show ?thesis
    using quiet rx_quiet_control handle_data_pdu_inv [OF i] rx_extends_trans [OF rx_quiet_extends [OF q]]
    by (auto simp: handle_pdu_def Let_def)
qed

lemma timer_expiry_inv:
  assumes "rx_inv s" "reordering_timer_running s"
  shows "rx_inv (reordering_timer_expired s) \<and> rx_extends s (reordering_timer_expired s)"
proof -
  let ?s1 = "s\<lparr>reordering_timer_running := False\<rparr>"
  have core: "rx_core ?s1" using assms(1) by (simp add: rx_inv_def rx_core_def)
  have t: "rx_timer_created (rx_cfg s)" "rx_deliv s < rx_reord s" "rx_reord s \<le> rx_next s"
    using assms by (auto simp: rx_inv_def rx_timer_inv_def)
  have "cm_wf (rx_window ?s1)" "rx_deliv ?s1 \<le> rx_reord ?s1" "rx_reord ?s1 \<le> rx_next ?s1"
    using core t by (simp_all add: rx_core_def)
  then obtain d where d: "delivered ?s1 d (handle_t_reordering_expire ?s1)" "rx_reord ?s1 \<le> d" "d \<le> rx_next ?s1"
    "d = rx_next ?s1 \<or> cm_at (rx_window ?s1) d = None"
    "if d < rx_next ?s1 \<and> t_reordering (rx_cfg ?s1) \<noteq> t_reordering_ms0
     then reordering_timer_running (handle_t_reordering_expire ?s1) \<and> rx_reord (handle_t_reordering_expire ?s1) = rx_next ?s1
     else reordering_timer_running (handle_t_reordering_expire ?s1) = reordering_timer_running ?s1 \<and>
          rx_reord (handle_t_reordering_expire ?s1) = rx_reord ?s1"
    by (rule expire_spec)
  have "rx_core (handle_t_reordering_expire ?s1)" by (rule rx_core_delivered [OF core d(1,3,4)])
  moreover have "rx_timer_inv (handle_t_reordering_expire ?s1)"
    using d(1,3,5) t(1) by (auto simp: rx_timer_inv_def delivered_def rx_timer_created_def split: if_splits)
  moreover have "rx_extends s (handle_t_reordering_expire ?s1)"
    by (rule rx_extends_trans [OF _ rx_extends_delivered [OF d(1)]]) (auto intro: rx_extends_update)
  ultimately show ?thesis by (simp add: reordering_timer_expired_def rx_inv_def)
qed


lemma rx_quiet_security: "rx_quiet s (rx_configure_security lib cfg i c s)"
  by (auto simp: rx_configure_security_def Let_def rx_quiet_def rx_same_def rx_emit_def split: option.splits)

lemma rx_out_security_integrity:
  "rx_sec_engine (rx_configure_security lib cfg i c s) \<noteq> rx_sec_engine s \<Longrightarrow>
    \<exists>eng. security_engine_impl lib cfg (pdcp_bearer_id (rx_rb_id s)) (sec_direction_of (direction (rx_cfg s))) i c = Some eng \<and>
      rx_sec_engine (rx_configure_security lib cfg i c s) = Some eng"
  by (auto simp: rx_configure_security_def Let_def rx_emit_def split: option.splits if_splits)

lemma discard_all_spec:
  assumes "cm_wf (rx_window s)" "rx_deliv s \<le> rx_next s"
  shows "rx_deliv (discard_all_sdus s) = rx_next s \<and> rx_next (discard_all_sdus s) = rx_next s \<and>
    rx_cfg (discard_all_sdus s) = rx_cfg s \<and> rx_out (discard_all_sdus s) = rx_out s \<and>
    reordering_timer_running (discard_all_sdus s) = reordering_timer_running s \<and>
    cm_wf (rx_window (discard_all_sdus s)) \<and> cm_size (rx_window (discard_all_sdus s)) = cm_size (rx_window s) \<and>
    (\<forall>j. cm_at (rx_window (discard_all_sdus s)) j =
      (if rx_deliv s \<le> j \<and> j < rx_next s then None else cm_at (rx_window s) j))"
  using assms
proof (induction s rule: discard_all_sdus.induct)
  case (1 s)
  show ?case
  proof (cases "rx_deliv s = rx_next s")
    case True
    then show ?thesis using "1.prems" by (auto simp: discard_all_sdus.simps [of s])
  next
    case False
    let ?s1 = "s\<lparr>rx_window := (if has_sn (rx_window s) (rx_deliv s) then remove_sn (rx_window s) (rx_deliv s) else rx_window s),
      rx_deliv := rx_deliv s + 1\<rparr>"
    have lt: "rx_deliv s < rx_next s" using "1.prems" False by simp
    have wf1: "cm_wf (rx_window ?s1)" using "1.prems" by (simp add: window_simps)
    have at1: "cm_at (rx_window ?s1) j = (if j = rx_deliv s then None else cm_at (rx_window s) j)" for j
      using "1.prems" by (auto simp: window_simps)
    have step: "discard_all_sdus s = discard_all_sdus ?s1" using False by (simp add: discard_all_sdus.simps [of s])
    have le: "rx_deliv s \<le> j \<longleftrightarrow> j = rx_deliv s \<or> rx_deliv s + 1 \<le> j" for j
      using word_Suc_le_iff [OF lt, of j] by auto
    have "rx_deliv ?s1 \<le> rx_next ?s1" using word_Suc_le(1) [OF lt] by simp
    note IH = "1.IH" [OF False wf1 this]
    show ?thesis unfolding step using IH at1 le lt by (auto simp: window_simps)
  qed
qed

text \<open>Re-establishment of an SRB or a UM bearer leaves an empty window and the initial state.\<close>

lemma reestablish_reset:
  fixes lib cfg
  assumes "rx_core s" "rx_is_srb s \<or> rx_is_um s"
  defines "s' \<equiv> rx_reestablish lib cfg s"
  shows "rx_inv s' \<and> rx_next s' = 0 \<and> rx_deliv s' = 0 \<and> rx_reord s' = 0 \<and> \<not> reordering_timer_running s' \<and>
    (\<forall>k. cm_at (rx_window s') k = None) \<and>
    (\<exists>es. rx_out s' = rx_out s @ (if rx_is_um s \<and> \<not> rx_is_srb s
       then sdus_at (cm_at (rx_window s)) (word_range (rx_deliv s) (rx_next s)) else []) @ es \<and> sdu_counts es = [])"
proof -
  define s1 where "s1 = (if rx_is_srb s then discard_all_sdus s else s)"
  define s2 where "s2 = s1\<lparr>reordering_timer_running := False\<rparr>"
  define s3 where "s3 = (if rx_is_um s then deliver_all_sdus s2 else s2)"
  define s4 where "s4 = s3\<lparr>rx_next := 0, rx_deliv := 0, rx_reord := 0\<rparr>"
  have wf: "cm_wf (rx_window s)" and le: "rx_deliv s \<le> rx_next s" using assms(1) by (simp_all add: rx_core_def)
  note disc = discard_all_spec [OF wf le]
  have c1: "rx_cfg s1 = rx_cfg s" "cm_wf (rx_window s1)" "cm_size (rx_window s1) = cm_size (rx_window s)" "rx_out s1 = rx_out s"
    using disc wf by (auto simp: s1_def)
  have kind: "rx_is_srb t = rx_is_srb s" "rx_is_um t = rx_is_um s" if "rx_cfg t = rx_cfg s" for t
    using that by (simp_all add: rx_is_srb_def rx_is_um_def)
  have key: "rx_deliv s \<le> k \<and> k < rx_next s" if "cm_at (rx_window s) k \<noteq> None" for k
    using that assms(1) by (auto simp: rx_core_def intro: less_imp_le)
  have empty1: "cm_at (rx_window s1) k = None" if "rx_is_srb s" for k
  proof -
    have "cm_at (rx_window s1) k = (if rx_deliv s \<le> k \<and> k < rx_next s then None else cm_at (rx_window s) k)"
      using disc that by (simp add: s1_def)
    then show ?thesis using key [of k] by (cases "cm_at (rx_window s) k") (auto split: if_splits)
  qed
  have d3: "cm_wf (rx_window (deliver_all_sdus s2)) \<and> cm_at (rx_window (deliver_all_sdus s2)) k =
      (if k \<in> set (word_range (rx_deliv s2) (rx_next s2)) then None else cm_at (rx_window s2) k)" for k
    unfolding deliver_all_sdus_counts using c1 by (intro deliver_counts_window) (simp add: s2_def)
  have o3: "rx_out (deliver_all_sdus s2) = rx_out s2 @ sdus_at (cm_at (rx_window s2)) (word_range (rx_deliv s2) (rx_next s2))"
    unfolding deliver_all_sdus_counts using c1 by (intro deliver_counts_out) (simp_all add: s2_def)
  have c3: "rx_cfg s3 = rx_cfg s" "cm_wf (rx_window s3)" "cm_size (rx_window s3) = cm_size (rx_window s)"
    "\<not> reordering_timer_running s3"
    using c1 d3 by (auto simp: s3_def s2_def deliver_all_sdus_counts frame_simps)
  have empty3: "cm_at (rx_window s3) k = None" for k
  proof (cases "rx_is_srb s")
    case True
    then show ?thesis using empty1 [OF True] d3 by (auto simp: s3_def s2_def)
  next
    case False
    then have um: "rx_is_um s" using assms(2) by simp
    show ?thesis using key [of k] False um d3 [of k]
      by (cases "cm_at (rx_window s) k") (auto simp: s3_def s2_def s1_def split: if_splits)
  qed
  have none: "sdus_at A ks = []" if "\<And>k. A k = None" for A ks using that by (induction ks) auto
  have o4: "rx_out s4 = rx_out s @ (if rx_is_um s \<and> \<not> rx_is_srb s
       then sdus_at (cm_at (rx_window s)) (word_range (rx_deliv s) (rx_next s)) else [])"
    using o3 c1 empty1 none by (auto simp: s4_def s3_def s2_def s1_def)
  have "rx_core s4"
    using assms(1) c3 empty3 by (auto simp: s4_def rx_core_def)
  then have inv4: "rx_inv s4" using c3(4) by (auto simp: rx_inv_def rx_timer_inv_def s4_def)
  have s': "s' = rx_configure_security lib cfg (rx_integrity_enabled s4) (rx_ciphering_enabled s4) s4"
  proof -
    have r: "(if reordering_timer_running s1 then s1\<lparr>reordering_timer_running := False\<rparr> else s1) = s2"
      by (simp add: s2_def)
    have "rx_reestablish lib cfg s =
      (let s = s3\<lparr>rx_next := 0, rx_deliv := 0, rx_reord := 0\<rparr>
       in rx_configure_security lib cfg (rx_integrity_enabled s) (rx_ciphering_enabled s) s)"
      unfolding rx_reestablish_def Let_def s1_def [symmetric] kind [OF c1(1)]
      using assms(2) kind [of s2] kind [OF c3(1)] c1(1)
      by (simp only: if_True r if_P s3_def [symmetric]) (simp add: s2_def s3_def [symmetric])
    then show ?thesis by (simp only: s'_def s4_def Let_def)
  qed
  have q: "rx_quiet s4 s'" unfolding s' by (rule rx_quiet_security)
  then show ?thesis
    using rx_quiet_inv [OF q inv4] c3(4) empty3 o4
    by (auto simp: rx_quiet_def rx_same_def s4_def)
qed

lemma reestablish_inv:
  assumes "rx_inv s"
  shows "rx_inv (rx_reestablish lib cfg s)"
proof (cases "rx_is_srb s \<or> rx_is_um s")
  case True
  then show ?thesis using reestablish_reset [of s lib cfg] assms by (simp add: rx_inv_def)
next
  case False
  then have "rx_reestablish lib cfg s = rx_configure_security lib cfg (rx_integrity_enabled s) (rx_ciphering_enabled s) s"
    by (simp add: rx_reestablish_def Let_def)
  then show ?thesis using rx_quiet_inv [OF rx_quiet_security assms] by simp
qed

end
