(* ===== verification/Pdcp_Rx_Props.thy ===== *)
theory Pdcp_Rx_Props
  imports Pdcp_Rx_Inv
begin

text \<open>
  Runs of the receiving PDCP entity and its correctness: the invariant on every reachable state, in-order
  delivery without duplicates over a run, conservation of accepted SDUs, what the expiry of t-Reordering
  delivers, that only authenticated payloads reach the upper layer, re-establishment, and the content of
  status reports.
\<close>

section \<open>Runs\<close>

datatype rx_op =
    Op_pdu bool bytes
  | Op_timer
  | Op_security sec_128_as_config integrity_enabled ciphering_enabled
  | Op_reestablish sec_128_as_config
  | Op_metrics

fun rx_enabled :: "rx_op \<Rightarrow> pdcp_rx \<Rightarrow> bool" where
  "rx_enabled Op_timer s \<longleftrightarrow> reordering_timer_running s"
| "rx_enabled _ _ \<longleftrightarrow> True"

fun rx_exec :: "ssl_lib \<Rightarrow> rx_op \<Rightarrow> pdcp_rx \<Rightarrow> pdcp_rx" where
  "rx_exec lib (Op_pdu copy_ok buf) s = handle_pdu lib copy_ok buf s"
| "rx_exec lib Op_timer s = reordering_timer_expired s"
| "rx_exec lib (Op_security cfg i c) s = rx_configure_security lib cfg i c s"
| "rx_exec lib (Op_reestablish cfg) s = rx_reestablish lib cfg s"
| "rx_exec lib Op_metrics s = snd (rx_get_metrics_and_reset s)"

inductive rx_run :: "ssl_lib \<Rightarrow> pdcp_rx \<Rightarrow> rx_op list \<Rightarrow> pdcp_rx \<Rightarrow> bool" for lib where
  rx_run_Nil: "rx_run lib s [] s"
| rx_run_Cons: "rx_enabled op s \<Longrightarrow> rx_run lib (rx_exec lib op s) ops t \<Longrightarrow> rx_run lib s (op # ops) t"

inductive_cases rx_run_NilE: "rx_run lib s [] t"
inductive_cases rx_run_ConsE: "rx_run lib s (op # ops) t"

fun is_reestablish :: "rx_op \<Rightarrow> bool" where
  "is_reestablish (Op_reestablish _) \<longleftrightarrow> True"
| "is_reestablish _ \<longleftrightarrow> False"

lemma rx_quiet_metrics: "rx_quiet s (snd (rx_get_metrics_and_reset s))"
  by (simp add: rx_get_metrics_and_reset_def rx_quiet_def rx_same_def)

lemma rx_exec_inv:
  assumes "rx_inv s" "rx_hfn_safe s" "rx_enabled op s" "\<not> is_reestablish op"
  shows "rx_inv (rx_exec lib op s) \<and> rx_extends s (rx_exec lib op s)"
  using assms handle_pdu_inv timer_expiry_inv rx_quiet_inv [OF rx_quiet_security assms(1)]
    rx_quiet_inv [OF rx_quiet_metrics assms(1)]
  by (cases op) auto

lemma rx_extends_hfn_safe:
  assumes "rx_extends s t" "rx_hfn_safe s"
  shows "rx_hfn_safe t"
  using assms by (auto simp: rx_extends_def rx_hfn_safe_def word_le_def)

lemma reestablish_cfg: "rx_core s \<Longrightarrow> rx_cfg (rx_reestablish lib cfg s) = rx_cfg s"
proof -
  assume core: "rx_core s"
  have sec: "rx_cfg (rx_configure_security lib cfg i c t) = rx_cfg t" for t i c
    using rx_quiet_security [of t lib cfg i c] by (simp add: rx_quiet_def rx_same_def)
  have disc: "rx_cfg (discard_all_sdus s) = rx_cfg s"
    using discard_all_spec [of s] core by (simp add: rx_core_def)
  show ?thesis
    by (simp add: rx_reestablish_def Let_def sec disc deliver_all_sdus_counts frame_simps)
qed

text \<open>The hard limit keeps COUNTs out of the last window of the number range.\<close>

definition rx_limit_ok :: "pdcp_rx_config \<Rightarrow> bool" where
  "rx_limit_ok cfg \<longleftrightarrow>
    uint (mc_hard (rx_max_count (custom_rx cfg))) + uint (pdcp_window_size (sn_size cfg)) \<le> 2 ^ 32"

lemma rx_limit_hfn_safe: "rx_limit_ok (rx_cfg s) \<Longrightarrow> rx_hfn_safe s"
  by (simp add: rx_limit_ok_def rx_hfn_safe_def)

lemma rx_exec_inv_all:
  assumes "rx_inv s" "rx_limit_ok (rx_cfg s)" "rx_enabled op s"
  shows "rx_inv (rx_exec lib op s) \<and> rx_cfg (rx_exec lib op s) = rx_cfg s"
proof (cases "is_reestablish op")
  case True
  then obtain cfg where "op = Op_reestablish cfg" by (cases op) auto
  then show ?thesis using reestablish_inv reestablish_cfg assms(1) by (auto simp: rx_inv_def)
next
  case False
  then show ?thesis using rx_exec_inv [OF assms(1) rx_limit_hfn_safe [OF assms(2)] assms(3)] by (auto simp: rx_extends_def)
qed

lemma rx_run_inv:
  assumes "rx_run lib s ops t" "rx_inv s" "rx_limit_ok (rx_cfg s)"
  shows "rx_inv t \<and> rx_cfg t = rx_cfg s"
  using assms by induction (use rx_exec_inv_all in auto)

lemma rx_run_extends:
  assumes "rx_run lib s ops t" "rx_inv s" "rx_hfn_safe s" "\<not> list_ex is_reestablish ops"
  shows "rx_inv t \<and> rx_extends s t"
  using assms
proof induction
  case (rx_run_Cons op s ops t)
  have step: "rx_inv (rx_exec lib op s)" "rx_extends s (rx_exec lib op s)"
    using rx_exec_inv rx_run_Cons by auto
  then show ?case
    using rx_run_Cons.IH rx_extends_hfn_safe rx_extends_trans rx_run_Cons.prems by auto
qed simp

lemma rx_initial_cfg: "pdcp_entity_rx rb cfg = Some s \<Longrightarrow> rx_cfg s = cfg \<and> rx_out s = []"
  by (auto simp: pdcp_entity_rx_def split: option.splits)

section \<open>A bearer for the witnesses\<close>

definition demo_rx_cfg :: pdcp_rx_config where
  "demo_rx_cfg =
    \<lparr>rb_type = rb_drb, rlc_mode = rlc_um, sn_size = size12bits, direction = pdcp_uplink,
     integrity_protection_required = False, out_of_order_delivery = False, t_reordering = 10,
     custom_rx = \<lparr>rx_max_count = \<lparr>mc_notify = 0xc0000000, mc_hard = pdcp_rx_default_max_count_hard\<rparr>\<rparr>\<rparr>"

definition demo_rx :: pdcp_rx where
  "demo_rx = the (pdcp_entity_rx (Drb_id 1) demo_rx_cfg)"

text \<open>The PDU with COUNT 1 has arrived, the one with COUNT 0 has not.\<close>

definition demo_gap :: pdcp_rx where
  "demo_gap = handle_pdu toy_lib True [0x80, 1, 7] demo_rx"

lemma demo_rx_facts:
  "pdcp_entity_rx (Drb_id 1) demo_rx_cfg = Some demo_rx"
  "rx_cfg demo_rx = demo_rx_cfg" "rx_next demo_rx = 0" "rx_deliv demo_rx = 0" "rx_reord demo_rx = 0"
  "rx_window demo_rx = cm_new 2048" "rx_out demo_rx = []" "rx_sec_engine demo_rx = None"
  "\<not> reordering_timer_running demo_rx"
  by (simp_all add: demo_rx_def pdcp_entity_rx_def demo_rx_cfg_def create_rx_window_def
      pdcp_window_capacity_def pcdp_sn_cardinality_def)

lemma demo_rx_inv: "rx_inv demo_rx" "rx_limit_ok demo_rx_cfg" "rx_hfn_safe demo_rx"
  using rx_inv_initial [OF demo_rx_facts(1)]
  by (simp_all add: rx_limit_ok_def rx_hfn_safe_def demo_rx_facts demo_rx_cfg_def
      pdcp_rx_default_max_count_hard_def pdcp_window_size_def)

lemma demo_gap_step:
  "demo_gap = rx_process_sdu 1 [7] (rx_add_pdus 1 3 demo_rx)"
proof -
  let ?s = "rx_add_pdus 1 3 demo_rx"
  have f: "rx_hdr_len ?s = 2" "rx_is_srb ?s = False" "rx_deliv ?s = 0" "rx_cfg ?s = demo_rx_cfg" "rx_sec_engine ?s = None"
    by (simp_all add: rx_hdr_len_def rx_is_srb_def demo_rx_facts rx_add_pdus_def demo_rx_cfg_def pdcp_data_pdu_header_size_def)
  have c: "count_estimation size12bits 0 1 = 1"
    by (simp add: count_estimation_def Let_def pdcp_window_size_def pdcp_compute_sn_def pdcp_compute_hfn_def pdcp_compute_count_def
        word_le_nat_alt)
  have sn: "read_data_pdu_header ?s [0x80, 1, 7] = Some 1"
    by (simp add: read_data_pdu_header_def f) (simp add: demo_rx_cfg_def)
  have chk: "rx_check_max_count 1 ?s = (True, ?s)"
    by (simp add: rx_check_max_count_def f) (simp add: demo_rx_cfg_def pdcp_rx_default_max_count_hard_def word_le_nat_alt word_less_nat_alt)
  have dc: "pdcp_pdu_get_dc 0x80 = dc_data" by (simp add: pdcp_pdu_get_dc_def)
  have sz: "sn_size demo_rx_cfg = size12bits" by (simp add: demo_rx_cfg_def)
  have dec: "apply_deciphering_and_integrity_check toy_lib [0x80, 1, 7] 1 ?s = (Some (Inr [0x80, 1, 7]), ?s)"
    by (simp add: apply_deciphering_and_integrity_check_def f)
  show ?thesis
    using f c sn chk dc sz dec
    by (simp add: demo_gap_def handle_pdu_def Let_def handle_data_pdu_def sec_hdr_size_def eval_nat_numeral)
qed

lemma demo_gap_facts:
  "rx_inv demo_gap" "rx_cfg demo_gap = demo_rx_cfg" "rx_hfn_safe demo_gap"
  "rx_deliv demo_gap = 0" "rx_next demo_gap = 2" "rx_reord demo_gap = 2" "reordering_timer_running demo_gap"
  "cm_at (rx_window demo_gap) = [1 \<mapsto> \<lparr>ri_sdu = [7], ri_count = 1\<rparr>]"
  "rx_out demo_gap = []" "rx_sec_engine demo_gap = None"
proof -
  let ?s = "rx_add_pdus 1 3 demo_rx"
  have e: "demo_gap = rx_update_reordering (?s\<lparr>rx_window := add_sn (cm_new 2048) 1 \<lparr>ri_sdu = [7], ri_count = 1\<rparr>, rx_next := 2\<rparr>)"
    by (simp add: demo_gap_step rx_process_sdu_def rx_store_and_deliver_def Let_def rx_add_pdus_def demo_rx_facts)
  show g: "rx_inv demo_gap" "rx_cfg demo_gap = demo_rx_cfg" "rx_hfn_safe demo_gap"
    using handle_pdu_inv [OF demo_rx_inv(1,3), of toy_lib True "[0x80, 1, 7]"]
      rx_extends_hfn_safe [OF _ demo_rx_inv(3)]
    by (auto simp: rx_extends_def demo_rx_facts demo_gap_def)
  have w: "cm_at (add_sn (cm_new 2048) (1 :: u32) i) = [1 \<mapsto> i]" for i :: pdcp_rx_sdu_info
  proof -
    have "(1 :: u32) < - 1" by (simp add: word_less_def unsigned_minus_1_eq_mask mask_eq_exp_minus_1)
    then have "rx_acceptable demo_rx 1" by (simp add: rx_acceptable_def demo_rx_facts pdcp_window_size_def demo_rx_cfg_def)
    moreover have "rx_core demo_rx" using demo_rx_inv(1) by (simp add: rx_inv_def)
    ultimately show ?thesis using rx_core_add [of demo_rx 1 i]
      by (auto simp: demo_rx_facts fun_eq_iff)
  qed
  show "rx_deliv demo_gap = 0" "rx_next demo_gap = 2" "rx_reord demo_gap = 2" "reordering_timer_running demo_gap"
    "cm_at (rx_window demo_gap) = [1 \<mapsto> \<lparr>ri_sdu = [7], ri_count = 1\<rparr>]"
    "rx_out demo_gap = []" "rx_sec_engine demo_gap = None"
    by (simp_all add: e rx_update_reordering_def Let_def rx_add_pdus_def demo_rx_facts w)
      (simp_all add: demo_rx_cfg_def t_reordering_infinity_def t_reordering_ms0_def)
qed


section \<open>Correctness\<close>






text \<open>A received SDU whose COUNT is below RX_DELIV or already stored is dropped without any change. Any
  other SDU in the window is conserved together with all stored ones: each is delivered to the upper layer or
  still stored under its COUNT, unchanged, and nothing else is delivered or stored.\<close>

theorem rx_accepted_sdu_conserved:
  assumes "rx_inv s"
  shows "(c < rx_deliv s \<or> cm_at (rx_window s) c \<noteq> None \<longrightarrow> rx_process_sdu c sdu s = s) \<and>
    (rx_acceptable s c \<longrightarrow>
      rx_conserves ((cm_at (rx_window s))(c \<mapsto> \<lparr>ri_sdu = sdu, ri_count = c\<rparr>)) s (rx_process_sdu c sdu s))"
proof (intro conjI impI)
  assume d: "c < rx_deliv s \<or> cm_at (rx_window s) c \<noteq> None"
  show "rx_process_sdu c sdu s = s"
  proof (cases "cm_at (rx_window s) c")
    case None
    then show ?thesis using d by (simp add: rx_process_sdu_def)
  next
    case (Some i)
    then have "ri_count i = c" using assms by (simp add: rx_inv_def rx_core_def)
    then show ?thesis using Some by (simp add: rx_process_sdu_def)
  qed
next
  assume a: "rx_acceptable s c"
  then have "rx_process_sdu c sdu s = rx_store_and_deliver c sdu s"
    by (auto simp: rx_acceptable_def rx_process_sdu_def)
  then show "rx_conserves ((cm_at (rx_window s))(c \<mapsto> \<lparr>ri_sdu = sdu, ri_count = c\<rparr>)) s (rx_process_sdu c sdu s)"
    using store_and_deliver_inv [OF assms a] by simp
qed

theorem rx_accepted_sdu_conserved_witness:
  "rx_process_sdu 1 [9] demo_gap = demo_gap"
  using rx_accepted_sdu_conserved [OF demo_gap_facts(1), of 1 "[9]"] by (simp add: demo_gap_facts)

lemma expire_first_missing:
  assumes "cm_wf (rx_window s)" "rx_deliv s \<le> rx_reord s" "rx_reord s \<le> rx_next s"
    and "rx_reord s \<le> k" "k < rx_deliv (handle_t_reordering_expire s)"
  shows "cm_at (rx_window s) k \<noteq> None"
proof -
  let ?s1 = "rx_add_t_reordering_timeouts 1 s"
  let ?s2 = "deliver_until_reord ?s1"
  have "?s2 = (deliver_counts (word_range (rx_deliv s) (rx_reord s)) ?s1)\<lparr>rx_deliv := rx_reord s\<rparr>"
    using deliver_until_reord_counts [of ?s1] assms(2) by (simp add: frame_simps)
  then have d1: "delivered ?s1 (rx_reord s) ?s2"
    using delivered_counts [of ?s1 "rx_reord s"] assms(1,2) by (simp add: frame_simps)
  have w: "cm_wf (rx_window ?s2)" "rx_deliv ?s2 \<le> rx_next ?s2"
    using d1 assms(3) by (simp_all add: delivered_def frame_simps)
  obtain d where d: "delivered ?s2 d (deliver_all_consecutive_counts ?s2)"
    "\<And>k. rx_deliv ?s2 \<le> k \<Longrightarrow> k < d \<Longrightarrow> cm_at (rx_window ?s2) k \<noteq> None"
    by (metis deliver_all_consecutive_spec [OF w])
  have "rx_deliv (handle_t_reordering_expire s) = d"
    using d(1) by (simp add: handle_t_reordering_expire_def Let_def delivered_def)
  then have "cm_at (rx_window ?s2) k \<noteq> None" using d(2) [of k] assms(4,5) d1 by (simp add: delivered_def)
  then show ?thesis using d1 by (auto simp: delivered_def frame_simps split: if_splits)
qed

text \<open>C38. When t-Reordering expires, everything stored below RX_REORD and the unbroken run of COUNTs that
  starts there is delivered in order; RX_DELIV becomes the first COUNT from RX_REORD on that is missing, and
  the timer runs again, for RX_NEXT, exactly if SDUs remain awaited.\<close>

theorem rx_timer_expiry_delivers:
  fixes s
  assumes "rx_inv s" "reordering_timer_running s"
  defines "t \<equiv> reordering_timer_expired s"
  shows "rx_out t = rx_out s @ sdus_at (cm_at (rx_window s)) (word_range (rx_deliv s) (rx_deliv t)) \<and>
    rx_reord s \<le> rx_deliv t \<and> rx_deliv t \<le> rx_next s \<and>
    (rx_deliv t < rx_next s \<longrightarrow> cm_at (rx_window s) (rx_deliv t) = None) \<and>
    (\<forall>k. rx_reord s \<le> k \<and> k < rx_deliv t \<longrightarrow> cm_at (rx_window s) k \<noteq> None) \<and>
    reordering_timer_running t = (rx_deliv t < rx_next t) \<and>
    (reordering_timer_running t \<longrightarrow> rx_reord t = rx_next s)"
proof -
  let ?s1 = "s\<lparr>reordering_timer_running := False\<rparr>"
  have t: "rx_timer_created (rx_cfg s)" "rx_deliv s < rx_reord s" "rx_reord s \<le> rx_next s" "cm_wf (rx_window s)"
    using assms(1,2) by (auto simp: rx_inv_def rx_timer_inv_def rx_core_def)
  then have pre: "cm_wf (rx_window ?s1)" "rx_deliv ?s1 \<le> rx_reord ?s1" "rx_reord ?s1 \<le> rx_next ?s1" by simp_all
  have e: "t = handle_t_reordering_expire ?s1" by (simp add: t_def reordering_timer_expired_def)
  obtain d where d: "delivered ?s1 d t" "rx_reord ?s1 \<le> d" "d \<le> rx_next ?s1"
    "d = rx_next ?s1 \<or> cm_at (rx_window ?s1) d = None"
    "if d < rx_next ?s1 \<and> t_reordering (rx_cfg ?s1) \<noteq> t_reordering_ms0
     then reordering_timer_running t \<and> rx_reord t = rx_next ?s1
     else reordering_timer_running t = reordering_timer_running ?s1 \<and> rx_reord t = rx_reord ?s1"
    unfolding e by (rule expire_spec [OF pre])
  have m: "cm_at (rx_window s) k \<noteq> None" if "rx_reord s \<le> k" "k < rx_deliv t" for k
    using expire_first_missing [OF pre, of k] that by (simp add: e)
  show ?thesis
    using d m t(1) by (auto simp: delivered_def rx_timer_created_def split: if_splits)
qed

theorem rx_timer_expiry_delivers_witness:
  "rx_out (reordering_timer_expired demo_gap) = [On_new_sdu 1 [7]]"
proof -
  let ?t = "reordering_timer_expired demo_gap"
  note e = rx_timer_expiry_delivers [OF demo_gap_facts(1,7)]
  have "2 \<le> rx_deliv ?t \<and> rx_deliv ?t \<le> 2" using e by (simp add: demo_gap_facts)
  then have "rx_deliv ?t = 2" by (rule conjE) (rule order.antisym)
  moreover have "word_range 0 (2 :: u32) = [0, 1]" by (simp add: word_range_def upt_rec)
  ultimately show ?thesis using e by (simp add: demo_gap_facts)
qed


lemma no_sdu: "sdu_counts es = [] \<Longrightarrow> On_new_sdu k b \<notin> set es"
  by (induction es) (auto split: option.splits)

lemma conserves_quiet: "rx_quiet s u \<Longrightarrow> rx_conserves A u t \<Longrightarrow> rx_conserves A s t"
  unfolding rx_quiet_def rx_conserves_def
proof (elim conjE exE)
  fix xs ys
  assume a: "rx_out u = rx_out s @ xs" "sdu_counts xs = []" "rx_out t = rx_out u @ ys"
    "\<forall>k i. A k = Some i \<longrightarrow> cm_at (rx_window t) k = Some i \<or> On_new_sdu k (ri_sdu i) \<in> set ys"
    "\<forall>k b. On_new_sdu k b \<in> set ys \<longrightarrow> (\<exists>i. A k = Some i \<and> ri_sdu i = b)"
    "\<forall>k i. cm_at (rx_window t) k = Some i \<longrightarrow> A k = Some i"
  show "\<exists>new. rx_out t = rx_out s @ new \<and>
      (\<forall>k i. A k = Some i \<longrightarrow> cm_at (rx_window t) k = Some i \<or> On_new_sdu k (ri_sdu i) \<in> set new) \<and>
      (\<forall>k b. On_new_sdu k b \<in> set new \<longrightarrow> (\<exists>i. A k = Some i \<and> ri_sdu i = b)) \<and>
      (\<forall>k i. cm_at (rx_window t) k = Some i \<longrightarrow> A k = Some i)"
    using a no_sdu [OF a(2)] by (intro exI [of _ "xs @ ys"]) auto
qed

lemma rx_same_conserves: "rx_quiet s t \<Longrightarrow> rx_conserves (cm_at (rx_window s)) s t"
  using conserves_quiet [of s t _ t] conserves_same [of t t] by (simp add: rx_quiet_def rx_same_def)

lemma conserves_source:
  assumes "rx_conserves A s t" "\<And>k i. A k = Some i \<Longrightarrow> Q k (ri_sdu i)"
  shows "\<exists>new. rx_out t = rx_out s @ new \<and>
    (\<forall>k b. On_new_sdu k b \<in> set new \<or> (\<exists>i. cm_at (rx_window t) k = Some i \<and> ri_sdu i = b) \<longrightarrow> Q k b)"
proof -
  obtain new where n: "rx_out t = rx_out s @ new"
    "\<And>k b. On_new_sdu k b \<in> set new \<Longrightarrow> \<exists>i. A k = Some i \<and> ri_sdu i = b"
    "\<And>k i. cm_at (rx_window t) k = Some i \<Longrightarrow> A k = Some i"
    using assms(1) by (auto simp: rx_conserves_def)
  show ?thesis
  proof (intro exI [of _ new] conjI allI impI)
    show "Q k b" if "On_new_sdu k b \<in> set new \<or> (\<exists>i. cm_at (rx_window t) k = Some i \<and> ri_sdu i = b)" for k b
      using that n(2,3) assms(2) by blast
  qed (rule n(1))
qed

lemma rx_check_engine: "rx_sec_engine (snd (rx_check_max_count c s)) = rx_sec_engine s"
  by (simp add: rx_check_max_count_def Let_def rx_emit_def)

lemma deciphered_by_engine:
  assumes "rx_sec_engine s = Some eng"
    and "fst (apply_deciphering_and_integrity_check lib pdu c s) = Some (Inr buf)"
  shows "\<exists>c'. decrypt_and_verify_integrity lib eng pdu (sec_hdr_size (sn_size (rx_cfg s))) c = Some (Inr buf, c')"
  using assms
  by (auto simp: apply_deciphering_and_integrity_check_def split: option.splits sum.splits security_error.splits prod.splits)



definition demo_secure :: pdcp_rx where
  "demo_secure = rx_configure_security toy_lib (toy_cfg dom_up) integ_on ciph_on demo_rx"

lemma demo_secure_facts: "rx_inv demo_secure" "rx_hfn_safe demo_secure" "rx_sec_engine demo_secure \<noteq> None" "rx_out demo_secure = []"
  "rx_window demo_secure = cm_new 2048"
proof -
  have q: "rx_quiet demo_rx demo_secure" unfolding demo_secure_def by (rule rx_quiet_security)
  show "rx_inv demo_secure" using rx_quiet_inv [OF q demo_rx_inv(1)] by blast
  show "rx_hfn_safe demo_secure" using rx_same_hfn_safe [OF _ demo_rx_inv(3)] q by (simp add: rx_quiet_def)
  obtain eng where e: "security_engine_impl toy_lib (toy_cfg dom_up) (pdcp_bearer_id (rx_rb_id demo_rx)) sec_uplink integ_on ciph_on = Some eng"
    by (simp add: security_engine_impl_def toy_cfg_def toy_lib_def Let_def)
  have srb: "\<not> rx_is_srb demo_rx" by (simp add: rx_is_srb_def demo_rx_facts) (simp add: demo_rx_cfg_def)
  have k: "k_128_int (toy_cfg dom_up) \<noteq> None" "s128_integ_algo (toy_cfg dom_up) \<noteq> None" "s128_domain (toy_cfg dom_up) = dom_up"
    by (simp_all add: toy_cfg_def)
  have d: "sec_direction_of (direction (rx_cfg demo_rx)) = sec_uplink"
    by (simp add: demo_rx_facts sec_direction_of_def) (simp add: demo_rx_cfg_def)
  have s: "demo_secure = demo_rx\<lparr>rx_integrity_enabled := integ_on, rx_ciphering_enabled := ciph_on, rx_sec_engine := Some eng\<rparr>"
    using e srb k d by (auto simp: demo_secure_def rx_configure_security_def Let_def)
  show "rx_sec_engine demo_secure \<noteq> None" "rx_out demo_secure = []" "rx_window demo_secure = cm_new 2048"
    by (simp_all add: s demo_rx_facts)
qed


text \<open>Re-establishing an SRB or a UM bearer resets RX_NEXT, RX_DELIV and RX_REORD to 0, stops
  t-Reordering and empties the window. On the way a UM bearer that is no SRB delivers all stored SDUs in order
  of COUNT; an SRB delivers none.\<close>

theorem rx_reestablish_resets:
  fixes lib cfg
  assumes "rx_inv s" "rx_is_srb s \<or> rx_is_um s"
  defines "t \<equiv> rx_reestablish lib cfg s"
  shows "rx_next t = 0 \<and> rx_deliv t = 0 \<and> rx_reord t = 0 \<and> \<not> reordering_timer_running t \<and>
    (\<forall>k. cm_at (rx_window t) k = None) \<and>
    (\<exists>es. rx_out t = rx_out s @ (if rx_is_um s \<and> \<not> rx_is_srb s
       then sdus_at (cm_at (rx_window s)) (word_range (rx_deliv s) (rx_next s)) else []) @ es \<and> sdu_counts es = [])"
  using reestablish_reset [of s lib cfg] assms by (simp add: rx_inv_def)

theorem rx_reestablish_resets_witness:
  "\<exists>es. rx_out (rx_reestablish toy_lib (toy_cfg dom_up) demo_gap) = On_new_sdu 1 [7] # es \<and> sdu_counts es = []"
proof -
  have k: "rx_is_um demo_gap" "\<not> rx_is_srb demo_gap"
    by (simp_all add: rx_is_um_def rx_is_srb_def demo_gap_facts) (simp_all add: demo_rx_cfg_def)
  have "word_range 0 (2 :: u32) = [0, 1]" by (simp add: word_range_def upt_rec)
  then show ?thesis
    using rx_reestablish_resets [OF demo_gap_facts(1), of toy_lib "toy_cfg dom_up"] k by (simp add: demo_gap_facts)
qed


section \<open>Status reports\<close>

abbreviation always :: "nat \<Rightarrow> bool" where
  "always \<equiv> \<lambda>_. True"

lemma pack_result:
  assumes "enc_wf e" "n \<le> 64"
  shows "enc_wf (snd (pack always v n e))" "enc_bits (snd (pack always v n e)) = enc_bits e @ to_bits n v"
  using pack_appends [OF assms, of always v] by auto

lemma pack_bit_list:
  assumes "enc_wf e"
  shows "enc_wf (fold (\<lambda>i enc. snd (pack always (if P i then 1 else 0) 1 enc)) ks e) \<and>
    enc_bits (fold (\<lambda>i enc. snd (pack always (if P i then 1 else 0) 1 enc)) ks e) = enc_bits e @ map P ks"
  using assms
proof (induction ks arbitrary: e)
  case (Cons k ks)
  have "to_bits 1 (if P k then 1 else 0 :: u64) = [P k]" by (simp add: to_bits_def)
  then show ?case
    using Cons.IH [OF pack_result(1) [OF Cons.prems, of 1 "if P k then 1 else 0"]]
      pack_result(2) [OF Cons.prems, of 1 "if P k then 1 else 0"] by simp
qed simp

lemma enc_length: "enc_wf e \<Longrightarrow> length (be_bytes e) = (length (enc_bits e) + 7) div 8"
  by (cases "be_bytes e"; cases "be_offset e") (auto simp: length_enc_bits be_nof_bits_def enc_wf_def)

definition report_counts :: "pdcp_rx \<Rightarrow> u32 list" where
  "report_counts s = word_range (rx_deliv s + 1) (status_report_bitmap_end s)"

lemma bitmap_end_cases:
  obtains "rx_next s \<le> rx_deliv s + 1" "status_report_bitmap_end s = rx_next s"
  | "rx_deliv s + 1 < rx_next s" "unat (rx_next s) - unat (rx_deliv s + 1) \<le> 71960" "status_report_bitmap_end s = rx_next s"
  | "rx_deliv s + 1 < rx_next s" "71960 < unat (rx_next s) - unat (rx_deliv s + 1)"
    "unat (status_report_bitmap_end s) = unat (rx_deliv s + 1) + 71960"
proof (cases "rx_deliv s + 1 < rx_next s")
  case False
  then show ?thesis
    by (intro that(1)) (simp_all add: status_report_bitmap_end_def Let_def)
next
  case True
  let ?b = "rx_deliv s + 1"
  have d: "unat (rx_next s - ?b) = unat (rx_next s) - unat ?b"
    using True by (intro unat_sub) simp
  show ?thesis
  proof (cases "unat (rx_next s) - unat ?b \<le> 71960")
    case le: True
    then have "\<not> rx_next s - ?b > 71960" using d by (simp add: word_less_nat_alt)
    then show ?thesis
      by (intro that(2) True le) (simp add: status_report_bitmap_end_def Let_def pdcp_control_pdu_max_size_def)
  next
    case False
    then have "rx_next s - ?b > 71960" using d by (simp add: word_less_nat_alt)
    then have "status_report_bitmap_end s = ?b + word_of_nat 71960"
      using True by (simp add: status_report_bitmap_end_def Let_def pdcp_control_pdu_max_size_def)
    then show ?thesis
      using unat_add_of_nat [of ?b "rx_next s" 71960] True False by (intro that(3)) simp_all
  qed
qed

lemma length_report_counts: "length (report_counts s) \<le> 71960"
  by (rule bitmap_end_cases [of s]) (simp_all add: report_counts_def word_le_nat_alt)

lemma status_report_bits:
  "length (compile_status_report always s) = 5 + (length (report_counts s) + 7) div 8 \<and>
   bytes_bits (compile_status_report always s) =
     replicate 8 False @ to_bits 32 (rx_deliv s) @ map (\<lambda>k. cm_at (rx_window s) k \<noteq> None) (report_counts s) @
     replicate (8 * length (compile_status_report always s) - (40 + length (report_counts s))) False"
proof -
  define e1 where "e1 = snd (pack always (ucast (dc_to_number dc_control)) 1 bit_encoder_init)"
  define e2 where "e2 = snd (pack always (ucast cpt_status_report) 3 e1)"
  define e3 where "e3 = snd (pack always 0 4 e2)"
  define e4 where "e4 = snd (pack always (ucast (rx_deliv s)) 32 e3)"
  define e5 where "e5 = fold (\<lambda>i enc. snd (pack always (if has_sn (rx_window s) i then 1 else 0) 1 enc)) (report_counts s) e4"
  have w: "enc_wf e1" "enc_wf e2" "enc_wf e3" "enc_wf e4"
    unfolding e4_def e3_def e2_def e1_def by (simp_all add: pack_result)
  have ub: "to_bits 32 (ucast (rx_deliv s) :: u64) = to_bits 32 (rx_deliv s)"
    by (auto simp: to_bits_def bit_ucast_iff dest: bit_imp_le_length)
  have "enc_bits e4 = to_bits 1 (ucast (dc_to_number dc_control) :: u64) @ to_bits 3 (ucast cpt_status_report :: u64) @
      to_bits 4 (0 :: u64) @ to_bits 32 (ucast (rx_deliv s) :: u64)"
    using w(1-3) unfolding e4_def e3_def e2_def by (simp add: pack_result) (simp add: e1_def pack_result)
  then have b4: "enc_bits e4 = replicate 8 False @ to_bits 32 (rx_deliv s)"
    by (simp add: ub) (simp add: to_bits_def cpt_status_report_def eval_nat_numeral)
  have e5: "enc_wf e5" "enc_bits e5 = enc_bits e4 @ map (\<lambda>k. cm_at (rx_window s) k \<noteq> None) (report_counts s)"
    using pack_bit_list [OF w(4), of "has_sn (rx_window s)" "report_counts s"]
    by (auto simp: e5_def has_sn_at)
  have r: "compile_status_report always s = be_bytes e5"
    by (simp add: compile_status_report_def Let_def e5_def e4_def e3_def e2_def e1_def report_counts_def)
  have len: "length (compile_status_report always s) = 5 + (length (report_counts s) + 7) div 8"
    using enc_length [OF e5(1)] by (simp add: r e5(2) b4)
  have "length (enc_bits e5) = 40 + length (report_counts s)" by (simp add: e5(2) b4)
  then show ?thesis using len enc_padding [OF e5(1)] by (simp add: r e5(2) b4)
qed

text \<open>A status report fits a control PDU. Its bits are the header of a status report, RX_DELIV as first
  missing COUNT, then for the COUNTs that follow whether the SDU is stored; every stored SDU among the next
  71960 COUNTs is reported.\<close>

theorem rx_status_report_content:
  assumes "rx_inv s"
  shows "length (compile_status_report always s) \<le> pdcp_control_pdu_max_size \<and>
    take (40 + length (report_counts s)) (bytes_bits (compile_status_report always s)) =
      replicate 8 False @ to_bits 32 (rx_deliv s) @ map (\<lambda>k. cm_at (rx_window s) k \<noteq> None) (report_counts s) \<and>
    length (compile_status_report always s) = 5 + (length (report_counts s) + 7) div 8 \<and>
    (\<forall>k. cm_at (rx_window s) k \<noteq> None \<and> unat k \<le> unat (rx_deliv s) + 71960 \<longrightarrow> k \<in> set (report_counts s))"
proof -
  have cover: "k \<in> set (report_counts s)"
    if k: "cm_at (rx_window s) k \<noteq> None" "unat k \<le> unat (rx_deliv s) + 71960" for k
  proof -
    have lt: "rx_deliv s < k" "k < rx_next s" using k(1) assms by (auto simp: rx_inv_def rx_core_def)
    have S: "rx_deliv s + 1 \<le> k" "unat (rx_deliv s + 1) = Suc (unat (rx_deliv s))"
      using word_Suc_le(1) [OF lt(1)] word_no_wrap_Suc [OF lt(1)] by simp_all
    have "k < status_report_bitmap_end s"
      using lt(2) S k(2) by (cases rule: bitmap_end_cases [of s]) (simp_all add: word_less_nat_alt)
    then show ?thesis using S by (simp add: report_counts_def)
  qed
  have bits: "length (compile_status_report always s) = 5 + (length (report_counts s) + 7) div 8"
    "take (40 + length (report_counts s)) (bytes_bits (compile_status_report always s)) =
      replicate 8 False @ to_bits 32 (rx_deliv s) @ map (\<lambda>k. cm_at (rx_window s) k \<noteq> None) (report_counts s)"
    using status_report_bits [of s] by simp_all
  show ?thesis
    using bits cover length_report_counts [of s] by (simp add: pdcp_control_pdu_max_size_def)
qed

theorem rx_status_report_content_witness:
  "take 41 (bytes_bits (compile_status_report always demo_gap)) = replicate 40 False @ [True] \<and>
   length (compile_status_report always demo_gap) = 6"
proof -
  have e: "status_report_bitmap_end demo_gap = 2"
    by (simp add: status_report_bitmap_end_def Let_def demo_gap_facts pdcp_control_pdu_max_size_def)
  have "word_range 1 (2 :: u32) = [1]" by (simp add: word_range_def upt_rec)
  then have c: "report_counts demo_gap = [1]" by (simp add: report_counts_def e demo_gap_facts)
  have "to_bits 32 (0 :: u32) = replicate 32 False" by (simp add: to_bits_def map_replicate_const)
  then show ?thesis
    using rx_status_report_content [OF demo_gap_facts(1)] by (simp add: c demo_gap_facts flip: replicate_add)
qed


section \<open>The default limit\<close>

definition default_rx_cfg :: pdcp_rx_config where
  "default_rx_cfg = demo_rx_cfg\<lparr>custom_rx := pdcp_default_custom_rx\<rparr>"

lemma wrapped_estimate: "count_estimation size12bits 0 4000 = 0xffffffa0"
proof -
  have h: "count_estimation size12bits 0 4000 = pdcp_compute_count (- 1) 4000 size12bits"
    by (simp add: count_estimation_def Let_def pdcp_window_size_def pdcp_compute_sn_def pdcp_compute_hfn_def word_le_nat_alt)
  have "uint (- 1 :: u32) mod 2 ^ 32 = (- 1) mod 2 ^ 32"
    by (simp add: unsigned_minus_1_eq_mask mask_eq_exp_minus_1)
  then have "uint (pdcp_compute_count (- 1) 4000 size12bits) = ((- 1) * 2 ^ 12 + 4000) mod 2 ^ 32"
    by (subst uint_compute_count [where k = "- 1"]) simp_all
  also have "\<dots> = uint (0xffffffa0 :: u32)" by simp
  finally show ?thesis unfolding h by (simp only: word_uint_eq_iff)
qed

text \<open>The defaults that a receiving entity gets from the configuration inherit the limit of the
  transmitter, 2^32 - 2, not the constant the receiver has for it. In the initial state a data PDU with a
  sequence number above the window then passes as a COUNT of the last window of the number range: RX_NEXT
  becomes 0xffffffa1 while RX_DELIV is 0, and the window invariant is gone.\<close>

theorem rx_default_limit_accepts_wrapped_count:
  "let t = handle_pdu lib True [0x8f, 0xa0, 7] (the (pdcp_entity_rx (Drb_id 1) default_rx_cfg))
   in rx_deliv t = 0 \<and> rx_next t = 0xffffffa1 \<and> \<not> rx_inv t"
proof -
  define s where "s = the (pdcp_entity_rx (Drb_id 1) default_rx_cfg)"
  define t where "t = handle_pdu lib True [0x8f, 0xa0, 7] s"
  let ?s = "rx_add_pdus 1 3 s"
  have cfg: "sn_size default_rx_cfg = size12bits" "rb_type default_rx_cfg = rb_drb"
    "custom_rx default_rx_cfg = pdcp_default_custom_rx" "t_reordering default_rx_cfg = 10"
    by (simp_all add: default_rx_cfg_def demo_rx_cfg_def)
  have s: "rx_cfg s = default_rx_cfg" "rx_next s = 0" "rx_deliv s = 0" "rx_window s = cm_new 2048" "rx_sec_engine s = None"
    by (simp_all add: s_def pdcp_entity_rx_def cfg create_rx_window_def pdcp_window_capacity_def pcdp_sn_cardinality_def)
  then have f: "rx_hdr_len ?s = 2" "rx_is_srb ?s = False" "rx_deliv ?s = 0" "rx_cfg ?s = default_rx_cfg" "rx_sec_engine ?s = None"
    "rx_next ?s = 0" "rx_window ?s = cm_new 2048"
    by (simp_all add: rx_hdr_len_def rx_is_srb_def rx_add_pdus_def cfg pdcp_data_pdu_header_size_def)
  have sn: "read_data_pdu_header ?s [0x8f, 0xa0, 7] = Some 4000"
    by (simp add: read_data_pdu_header_def f cfg)
  obtain u where chk: "rx_check_max_count 0xffffffa0 ?s = (True, u)"
    using rx_check_max_count_limit [of "0xffffffa0" ?s]
    by (cases "rx_check_max_count 0xffffffa0 ?s")
      (simp add: f cfg pdcp_default_custom_rx_def pdcp_default_max_count_def pdcp_tx_default_max_count_hard_def word_less_nat_alt)
  have u: "rx_same ?s u" "rx_sec_engine u = None"
    using rx_same_check [of ?s "0xffffffa0"] chk f(5) by (auto simp: rx_check_max_count_def Let_def rx_emit_def split: if_splits)
  have uc: "rx_cfg u = default_rx_cfg" using u(1) f(4) by (simp add: rx_same_def)
  have dec: "apply_deciphering_and_integrity_check lib [0x8f, 0xa0, 7] 0xffffffa0 u = (Some (Inr [0x8f, 0xa0, 7]), u)"
    using u f by (simp add: apply_deciphering_and_integrity_check_def rx_same_def rx_is_srb_def cfg)
  have dc: "pdcp_pdu_get_dc 0x8f = dc_data" by (simp add: pdcp_pdu_get_dc_def)
  have "t = rx_process_sdu 0xffffffa0 [7] u"
    using f(1-6) sn chk dc dec wrapped_estimate uc
    by (simp add: t_def handle_pdu_def Let_def handle_data_pdu_def sec_hdr_size_def eval_nat_numeral cfg)
  also have "\<dots> = rx_update_reordering (u\<lparr>rx_window := add_sn (cm_new 2048) 0xffffffa0 \<lparr>ri_sdu = [7], ri_count = 0xffffffa0\<rparr>,
      rx_next := 0xffffffa1\<rparr>)"
    using u(1) f by (simp add: rx_same_def rx_process_sdu_def rx_store_and_deliver_def Let_def)
  finally have t: "rx_deliv t = 0" "rx_next t = 0xffffffa1" "rx_cfg t = default_rx_cfg"
    using u(1) f by (auto simp: rx_update_reordering_def Let_def rx_same_def cfg t_reordering_ms0_def)
  then have "\<not> rx_inv t" by (simp add: rx_inv_def rx_core_def cfg pdcp_window_size_def)
  with t show ?thesis by (simp add: t_def s_def)
qed

end
