(* ===== verification/Pdcp_Tx.thy ===== *)
theory Pdcp_Tx
  imports Pdcp_Base
begin

text \<open>
  The transmitting PDCP entity (\<open>lib/pdcp/pdcp_entity_tx.cpp\<close>): state and operations.

  As in the receiving entity every handler is a function on the entity's record and the notifiers' calls are
  appended to \<open>tx_out\<close>. Allocations that can fail are answered by \<open>tx_mem\<close>. A failed assertion, and an
  engine that does not return, is the event \<open>Tx_abort\<close>, behind which nothing runs.
\<close>

section \<open>State\<close>

text \<open>A discard timer is the flag that it runs; a timer that was never created does not run.\<close>

record pdcp_tx_sdu_info =
  ti_count :: u32
  ti_sdu :: bytes
  ti_timer :: bool

text \<open>\<open>on_new_pdu\<close> of a data PDU; its COUNT is kept beside it for the statements, \<open>None\<close> for control PDUs.\<close>

datatype tx_event =
    On_new_pdu "u32 option" bytes bool
  | On_discard_pdu u32
  | Tx_on_max_count_reached
  | Tx_on_protocol_failure
  | Tx_abort

text \<open>For each COUNT: the deep copy of the SDU, the space for the header and for the MAC-I.\<close>

record tx_mem =
  mem_copy :: "u32 \<Rightarrow> bool"
  mem_prepend :: "u32 \<Rightarrow> bool"
  mem_append :: "u32 \<Rightarrow> bool"

record pdcp_tx =
  tx_rb_id :: rb_id
  tx_cfg :: pdcp_tx_config
  tx_sec_engine :: "security_engine option"
  tx_integrity_enabled :: integrity_enabled
  tx_ciphering_enabled :: ciphering_enabled
  tx_next :: u32
  tx_trans :: u32
  tx_next_ack :: u32
  tx_window :: "(32 word, pdcp_tx_sdu_info) circular_map"
  tx_max_count_notified :: bool
  tx_max_count_overflow :: bool
  tx_metrics :: pdcp_tx_metrics
  tx_out :: "tx_event list"

definition tx_is_srb :: "pdcp_tx \<Rightarrow> bool" where
  "tx_is_srb s \<longleftrightarrow> rb_type (tx_cfg s) = rb_srb"

definition tx_is_um :: "pdcp_tx \<Rightarrow> bool" where
  "tx_is_um s \<longleftrightarrow> rlc_mode (tx_cfg s) = rlc_um"

definition tx_is_am :: "pdcp_tx \<Rightarrow> bool" where
  "tx_is_am s \<longleftrightarrow> rlc_mode (tx_cfg s) = rlc_am"

definition tx_SN :: "pdcp_tx \<Rightarrow> u32 \<Rightarrow> u32" where
  "tx_SN s count = pdcp_compute_sn count (sn_size (tx_cfg s))"

definition tx_emit :: "tx_event \<Rightarrow> pdcp_tx \<Rightarrow> pdcp_tx" where
  "tx_emit e s = s\<lparr>tx_out := tx_out s @ [e]\<rparr>"

definition create_tx_window :: "pdcp_sn_size \<Rightarrow> (32 word, pdcp_tx_sdu_info) circular_map option" where
  "create_tx_window sz =
    (case sz of
       size12bits \<Rightarrow> Some (cm_new (pdcp_window_capacity (pdcp_sn_size_to_uint size12bits)))
     | size18bits \<Rightarrow> Some (cm_new (pdcp_window_capacity (pdcp_sn_size_to_uint size18bits)))
     | sn_size_invalid \<Rightarrow> None)"

text \<open>The constructor; \<open>None\<close> is \<open>report_error\<close> or the failed assertion of the window.\<close>

definition pdcp_entity_tx :: "rb_id \<Rightarrow> pdcp_tx_config \<Rightarrow> pdcp_tx option" where
  "pdcp_entity_tx rb cfg =
    (case create_tx_window (sn_size cfg) of
       None \<Rightarrow> None
     | Some w \<Rightarrow>
         if rb_type cfg = rb_srb \<and> sn_size cfg \<noteq> size12bits then None
         else if rb_type cfg = rb_srb \<and> rlc_mode cfg = rlc_um then None
         else Some
           \<lparr>tx_rb_id = rb, tx_cfg = cfg, tx_sec_engine = None, tx_integrity_enabled = integ_off,
            tx_ciphering_enabled = ciph_off, tx_next = 0, tx_trans = 0, tx_next_ack = 0, tx_window = w,
            tx_max_count_notified = False, tx_max_count_overflow = False, tx_metrics = tx_metrics_zero, tx_out = []\<rparr>)"

section \<open>Metrics\<close>

definition tx_add_sdus :: "u32 \<Rightarrow> nat \<Rightarrow> pdcp_tx \<Rightarrow> pdcp_tx" where
  "tx_add_sdus n b s = s\<lparr>tx_metrics := (tx_metrics s)
    \<lparr>tx_num_sdus := tx_num_sdus (tx_metrics s) + n,
     tx_num_sdu_bytes := tx_num_sdu_bytes (tx_metrics s) + word_of_nat b\<rparr>\<rparr>"

definition tx_add_pdus :: "u32 \<Rightarrow> nat \<Rightarrow> pdcp_tx \<Rightarrow> pdcp_tx" where
  "tx_add_pdus n b s = s\<lparr>tx_metrics := (tx_metrics s)
    \<lparr>tx_num_pdus := tx_num_pdus (tx_metrics s) + n,
     tx_num_pdu_bytes := tx_num_pdu_bytes (tx_metrics s) + word_of_nat b\<rparr>\<rparr>"

definition tx_add_discard_timeouts :: "u32 \<Rightarrow> pdcp_tx \<Rightarrow> pdcp_tx" where
  "tx_add_discard_timeouts n s =
    s\<lparr>tx_metrics := (tx_metrics s)\<lparr>num_discard_timeouts := num_discard_timeouts (tx_metrics s) + n\<rparr>\<rparr>"

definition tx_get_metrics_and_reset :: "pdcp_tx \<Rightarrow> pdcp_tx_metrics \<times> pdcp_tx" where
  "tx_get_metrics_and_reset s = (tx_metrics s, s\<lparr>tx_metrics := tx_metrics_zero\<rparr>)"

section \<open>PDU helpers\<close>

text \<open>
  The header is prepended to the SDU. The outer option is the assertion on the SN size of an SRB, the inner
  one the function's return value.
\<close>

definition write_data_pdu_header :: "bool \<Rightarrow> bytes \<Rightarrow> u32 \<Rightarrow> pdcp_tx \<Rightarrow> bytes option option" where
  "write_data_pdu_header prepend_ok buf sn s =
    (let d = (if \<not> tx_is_srb s then 0x80 else 0x00) in
     if tx_is_srb s \<and> sn_size (tx_cfg s) = size18bits then None
     else if \<not> prepend_ok then Some None
     else case sn_size (tx_cfg s) of
       size12bits \<Rightarrow>
         Some (Some ([d OR ucast (drop_bit 8 (sn AND 0x00000f00)), ucast (sn AND 0x000000ff)] @ buf))
     | size18bits \<Rightarrow>
         Some (Some ([d OR ucast (drop_bit 16 (sn AND 0x00030000)), ucast (drop_bit 8 (sn AND 0x0000ff00)),
                      ucast (sn AND 0x000000ff)] @ buf))
     | sn_size_invalid \<Rightarrow> Some None)"

definition tx_sec_hdr_size :: "pdcp_tx \<Rightarrow> nat" where
  "tx_sec_hdr_size s = (if sn_size (tx_cfg s) = size12bits then 2 else 3)"

text \<open>
  The outer option is a run that does not return, \<open>Inl ()\<close> the unexpected value. When the engine fails, the
  code logs it and then takes the value of the failed result all the same.
\<close>

definition apply_ciphering_and_integrity_protection ::
  "ssl_lib \<Rightarrow> bool \<Rightarrow> bytes \<Rightarrow> u32 \<Rightarrow> pdcp_tx \<Rightarrow> (unit + bytes) option" where
  "apply_ciphering_and_integrity_protection lib append_ok buf count s =
    (case tx_sec_engine s of
       None \<Rightarrow>
         if tx_is_srb s then (if \<not> append_ok then Some (Inl ()) else Some (Inr (buf @ replicate sec_mac_len 0)))
         else Some (Inr buf)
     | Some eng \<Rightarrow>
         (case encrypt_and_protect_integrity lib append_ok eng buf (tx_sec_hdr_size s) count of
            None \<Rightarrow> None
          | Some (Inl _, _) \<Rightarrow> None
          | Some (Inr b, _) \<Rightarrow> Some (Inr b)))"

definition write_data_pdu_to_lower_layers :: "u32 \<Rightarrow> bytes \<Rightarrow> bool \<Rightarrow> pdcp_tx \<Rightarrow> pdcp_tx" where
  "write_data_pdu_to_lower_layers count buf is_retx s =
    tx_emit (On_new_pdu (Some count) buf is_retx) (tx_add_pdus 1 (length buf) s)"

definition write_control_pdu_to_lower_layers :: "bytes \<Rightarrow> pdcp_tx \<Rightarrow> pdcp_tx" where
  "write_control_pdu_to_lower_layers buf s =
    tx_emit (On_new_pdu None buf False) (tx_add_pdus 1 (length buf) s)"


section \<open>Discarding\<close>

function tx_advance_ack :: "pdcp_tx \<Rightarrow> pdcp_tx" where
  "tx_advance_ack s =
    (if tx_next_ack s < tx_next s \<and> \<not> has_sn (tx_window s) (tx_next_ack s)
     then tx_advance_ack (s\<lparr>tx_next_ack := tx_next_ack s + 1\<rparr>) else s)"
  by pat_completeness auto
termination
  by (relation "measure (\<lambda>s. unat (tx_next s - tx_next_ack s))") (auto intro!: word_dist_decreases)

declare tx_advance_ack.simps [simp del]

text \<open>TX_TRANS does not fall behind the lower edge of the window.\<close>

definition tx_clamp_trans :: "pdcp_tx \<Rightarrow> pdcp_tx" where
  "tx_clamp_trans s = (if tx_trans s < tx_next_ack s then s\<lparr>tx_trans := tx_next_ack s\<rparr> else s)"

definition discard_pdu :: "u32 \<Rightarrow> pdcp_tx \<Rightarrow> pdcp_tx" where
  "discard_pdu count s =
    (if discard_timer (tx_cfg s) = None then s
     else if count < tx_next_ack s \<or> count \<ge> tx_next s then s
     else if \<not> has_sn (tx_window s) count then s
     else
       let s = tx_emit (On_discard_pdu (tx_SN s count)) s;
           s = s\<lparr>tx_window := remove_sn (tx_window s) count\<rparr>
       in tx_clamp_trans (tx_advance_ack s))"

text \<open>The callback of the discard timer of \<open>count\<close>: the timer has stopped running when it is invoked.\<close>

definition discard_timer_expired :: "u32 \<Rightarrow> pdcp_tx \<Rightarrow> pdcp_tx" where
  "discard_timer_expired count s =
    (let s = (case cm_at (tx_window s) count of
                None \<Rightarrow> s
              | Some i \<Rightarrow> s\<lparr>tx_window := cm_assign (tx_window s) count (i\<lparr>ti_timer := False\<rparr>)\<rparr>)
     in discard_pdu count (tx_add_discard_timeouts 1 s))"

function tx_remove_upto :: "u32 \<Rightarrow> pdcp_tx \<Rightarrow> pdcp_tx" where
  "tx_remove_upto highest s =
    (if tx_next_ack s \<le> highest \<and> highest < tx_next s
     then tx_remove_upto highest
            (s\<lparr>tx_window := (if has_sn (tx_window s) (tx_next_ack s) then remove_sn (tx_window s) (tx_next_ack s) else tx_window s),
               tx_next_ack := tx_next_ack s + 1\<rparr>)
     else s)"
  by pat_completeness auto
termination
  by (relation "measure (\<lambda>(h, s). unat (tx_next s - tx_next_ack s))") (auto intro!: word_dist_decreases)

declare tx_remove_upto.simps [simp del]

text \<open>
  The loop runs while TX_NEXT_ACK does not exceed \<open>highest_count\<close>; the guard before it, which the loop keeps,
  is repeated in the condition of \<open>tx_remove_upto\<close> so that the recursion is seen to end.
\<close>

definition stop_discard_timer :: "u32 \<Rightarrow> pdcp_tx \<Rightarrow> pdcp_tx" where
  "stop_discard_timer highest s =
    (if discard_timer (tx_cfg s) = None then s
     else if highest < tx_next_ack s \<or> highest \<ge> tx_next s then s
     else tx_clamp_trans (tx_remove_upto highest s))"

section \<open>Notifications from the lower layer\<close>

definition notification_count_estimation :: "u32 \<Rightarrow> pdcp_tx \<Rightarrow> u32" where
  "notification_count_estimation sn s =
    count_estimation (sn_size (tx_cfg s))
      (if discard_timer (tx_cfg s) \<noteq> None then tx_next_ack s else tx_trans s) sn"

definition handle_transmit_notification :: "u32 \<Rightarrow> pdcp_tx \<Rightarrow> pdcp_tx" where
  "handle_transmit_notification notif_sn s =
    (if notif_sn \<ge> pdcp_sn_cardinality (sn_size (tx_cfg s)) then s
     else
       let notif_count = notification_count_estimation notif_sn s in
       if notif_count < tx_trans s then s
       else if notif_count \<ge> tx_next s then s
       else
         let s = s\<lparr>tx_trans := notif_count + 1\<rparr> in
         if discard_timer (tx_cfg s) = None then s
         else if tx_is_um s then stop_discard_timer notif_count s
         else s)"

definition handle_delivery_notification :: "u32 \<Rightarrow> pdcp_tx \<Rightarrow> pdcp_tx" where
  "handle_delivery_notification notif_sn s =
    (if notif_sn \<ge> pdcp_sn_cardinality (sn_size (tx_cfg s)) then s
     else
       let notif_count = notification_count_estimation notif_sn s in
       if notif_count \<ge> tx_next s then s
       else if discard_timer (tx_cfg s) = None then s
       else if tx_is_am s then stop_discard_timer notif_count s
       else s)"

definition handle_retransmit_notification :: "u32 \<Rightarrow> pdcp_tx \<Rightarrow> pdcp_tx" where
  "handle_retransmit_notification notif_sn s = s"

definition handle_delivery_retransmitted_notification :: "u32 \<Rightarrow> pdcp_tx \<Rightarrow> pdcp_tx" where
  "handle_delivery_retransmitted_notification notif_sn s = s"

section \<open>SDUs from the upper layer\<close>

text \<open>The discard timer and, for AM, the SDU are put into the window; an element found there goes first.\<close>

definition tx_store_sdu :: "bytes \<Rightarrow> pdcp_tx \<Rightarrow> pdcp_tx" where
  "tx_store_sdu sdu s =
    (case discard_timer (tx_cfg s) of
       None \<Rightarrow> s
     | Some t \<Rightarrow>
         (let s = (case cm_at (tx_window s) (tx_next s) of
                     Some old \<Rightarrow> discard_pdu (ti_count old) s
                   | None \<Rightarrow> s)
          in s\<lparr>tx_window := add_sn (tx_window s) (tx_next s)
                 \<lparr>ti_count = tx_next s, ti_sdu = (if tx_is_am s then sdu else []),
                  ti_timer = (t \<noteq> discard_timer_infinity)\<rparr>\<rparr>))"

definition tx_check_notify :: "pdcp_tx \<Rightarrow> pdcp_tx" where
  "tx_check_notify s =
    (if tx_next s \<ge> mc_notify (tx_max_count (custom_tx (tx_cfg s))) \<and> \<not> tx_max_count_notified s
     then (tx_emit Tx_on_max_count_reached s)\<lparr>tx_max_count_notified := True\<rparr> else s)"

text \<open>From the protected PDU on: window, lower layer, TX_NEXT, and the notification of the test mode.\<close>

definition tx_send_pdu :: "bytes \<Rightarrow> bytes \<Rightarrow> pdcp_tx \<Rightarrow> pdcp_tx" where
  "tx_send_pdu sdu protected_buf s =
    (let s = tx_store_sdu sdu s;
         s = write_data_pdu_to_lower_layers (tx_next s) protected_buf False s;
         tx_count = tx_next s;
         s = s\<lparr>tx_next := tx_next s + 1\<rparr>
     in if test_mode (custom_tx (tx_cfg s)) then handle_transmit_notification (tx_SN s tx_count) s else s)"

definition tx_protect_and_send :: "ssl_lib \<Rightarrow> tx_mem \<Rightarrow> bytes \<Rightarrow> pdcp_tx \<Rightarrow> pdcp_tx" where
  "tx_protect_and_send lib mem buf s =
    (if discard_timer (tx_cfg s) \<noteq> None \<and> tx_is_am s \<and> \<not> mem_copy mem (tx_next s)
     then tx_emit Tx_on_protocol_failure s
     else case write_data_pdu_header (mem_prepend mem (tx_next s)) buf (tx_SN s (tx_next s)) s of
       None \<Rightarrow> tx_emit Tx_abort s
     | Some None \<Rightarrow> tx_emit Tx_on_protocol_failure s
     | Some (Some pdu) \<Rightarrow>
         (case apply_ciphering_and_integrity_protection lib (mem_append mem (tx_next s)) pdu (tx_next s) s of
            None \<Rightarrow> tx_emit Tx_abort s
          | Some (Inl _) \<Rightarrow> tx_emit Tx_on_protocol_failure s
          | Some (Inr protected_buf) \<Rightarrow> tx_send_pdu buf protected_buf s))"

definition handle_sdu :: "ssl_lib \<Rightarrow> tx_mem \<Rightarrow> bytes \<Rightarrow> pdcp_tx \<Rightarrow> pdcp_tx" where
  "handle_sdu lib mem buf s =
    (if tx_trans s > tx_next s then s
     else if tx_next s - tx_trans s \<ge> ucast (rlc_sdu_queue (custom_tx (tx_cfg s))) then s
     else if tx_next s - tx_trans s \<ge> pdcp_window_size (sn_size (tx_cfg s)) - 1 then s
     else
       let s = tx_add_sdus 1 (length buf) s in
       if tx_next s \<ge> mc_hard (tx_max_count (custom_tx (tx_cfg s))) then
         (if \<not> tx_max_count_overflow s
          then (tx_emit Tx_on_protocol_failure s)\<lparr>tx_max_count_overflow := True\<rparr> else s)
       else tx_protect_and_send lib mem buf (tx_check_notify s))"


section \<open>Security, re-establishment, data recovery\<close>

text \<open>The flag is whether the function returns; without integrity key or algorithm it returns early.\<close>

definition tx_configure_security ::
  "ssl_lib \<Rightarrow> sec_128_as_config \<Rightarrow> integrity_enabled \<Rightarrow> ciphering_enabled \<Rightarrow> pdcp_tx \<Rightarrow> bool \<times> pdcp_tx" where
  "tx_configure_security lib sec_cfg integ ciph s =
    (if \<not> (tx_is_srb s \<and> s128_domain sec_cfg = dom_rrc \<or> \<not> tx_is_srb s \<and> s128_domain sec_cfg = dom_up)
     then (False, tx_emit Tx_abort s)
     else if integ = integ_on \<and> k_128_int sec_cfg = None then (True, s)
     else if integ = integ_on \<and> s128_integ_algo sec_cfg = None then (True, s)
     else if integ \<noteq> integ_on \<and> tx_is_srb s then (False, tx_emit Tx_abort s)
     else
       let s = s\<lparr>tx_integrity_enabled := integ, tx_ciphering_enabled := ciph\<rparr>
       in case security_engine_impl lib sec_cfg (pdcp_bearer_id (tx_rb_id s))
                 (if direction (tx_cfg s) = pdcp_uplink then sec_uplink else sec_downlink) integ ciph of
            None \<Rightarrow> (False, tx_emit Tx_abort s)
          | Some eng \<Rightarrow> (True, s\<lparr>tx_sec_engine := Some eng\<rparr>))"

definition tx_reset :: "pdcp_tx \<Rightarrow> pdcp_tx" where
  "tx_reset s = s\<lparr>tx_next := 0, tx_trans := 0, tx_next_ack := 0, tx_window := cm_clear (tx_window s)\<rparr>"

text \<open>The loop of \<open>retransmit_all_pdus\<close> over the COUNTs that are left.\<close>

fun tx_retransmit_loop :: "ssl_lib \<Rightarrow> tx_mem \<Rightarrow> u32 list \<Rightarrow> pdcp_tx \<Rightarrow> pdcp_tx" where
  "tx_retransmit_loop lib mem [] s = s"
| "tx_retransmit_loop lib mem (count # counts) s =
    (case cm_at (tx_window s) count of
       None \<Rightarrow> tx_retransmit_loop lib mem counts s
     | Some i \<Rightarrow>
         if \<not> mem_copy mem count then tx_emit Tx_on_protocol_failure s
         else case write_data_pdu_header (mem_prepend mem count) (ti_sdu i) (tx_SN s (ti_count i)) s of
           None \<Rightarrow> tx_emit Tx_abort s
         | Some None \<Rightarrow> tx_emit Tx_on_protocol_failure s
         | Some (Some pdu) \<Rightarrow>
             (case apply_ciphering_and_integrity_protection lib (mem_append mem count) pdu (ti_count i) s of
                None \<Rightarrow> tx_emit Tx_abort s
              | Some (Inl _) \<Rightarrow> tx_emit Tx_on_protocol_failure s
              | Some (Inr protected_buf) \<Rightarrow>
                  tx_retransmit_loop lib mem counts
                    (write_data_pdu_to_lower_layers (ti_count i) protected_buf True s)))"

definition retransmit_all_pdus :: "ssl_lib \<Rightarrow> tx_mem \<Rightarrow> pdcp_tx \<Rightarrow> pdcp_tx" where
  "retransmit_all_pdus lib mem s =
    (if discard_timer (tx_cfg s) = None then s
     else if \<not> tx_is_am s then s
     else
       let s = s\<lparr>tx_trans := tx_next_ack s\<rparr>
       in tx_retransmit_loop lib mem (word_range (tx_next_ack s) (tx_next s)) s)"

definition tx_reestablish :: "ssl_lib \<Rightarrow> tx_mem \<Rightarrow> sec_128_as_config \<Rightarrow> pdcp_tx \<Rightarrow> pdcp_tx" where
  "tx_reestablish lib mem sec_cfg s =
    (let s = (if tx_is_srb s \<or> tx_is_um s then tx_reset s else s);
         (returned, s) = tx_configure_security lib sec_cfg (tx_integrity_enabled s) (tx_ciphering_enabled s) s
     in if \<not> returned then s
        else if tx_is_am s then retransmit_all_pdus lib mem s
        else s)"

text \<open>\<open>report\<close> is what the receiving entity compiles.\<close>

definition send_status_report :: "bytes \<Rightarrow> pdcp_tx \<Rightarrow> pdcp_tx" where
  "send_status_report report s =
    (if status_report_required (tx_cfg s) then write_control_pdu_to_lower_layers report s else s)"

definition data_recovery :: "ssl_lib \<Rightarrow> tx_mem \<Rightarrow> bytes \<Rightarrow> pdcp_tx \<Rightarrow> pdcp_tx" where
  "data_recovery lib mem report s =
    (if \<not> (\<not> tx_is_srb s \<and> rlc_mode (tx_cfg s) = rlc_am) then tx_emit Tx_abort s
     else
       let s = (if status_report_required (tx_cfg s) then send_status_report report s else s)
       in retransmit_all_pdus lib mem s)"

section \<open>Status reports of the peer\<close>

text \<open>
  The loop over the bitmap reads one bit per round until the decoder is exhausted. \<open>n\<close> bounds the rounds;
  the caller passes the number of bits of the buffer, which the loop cannot exceed.
\<close>

fun tx_bitmap_loop :: "nat \<Rightarrow> bit_decoder \<Rightarrow> u32 \<Rightarrow> pdcp_tx \<Rightarrow> pdcp_tx" where
  "tx_bitmap_loop 0 d fmc s = s"
| "tx_bitmap_loop (Suc n) d fmc s =
    (case unpack 1 d of
       (False, _, _) \<Rightarrow> s
     | (True, bit1 :: u32, d) \<Rightarrow>
         (let fmc = fmc + 1;
              s = (if bit1 = 1 then discard_pdu fmc s else s)
          in tx_bitmap_loop n d fmc s))"

definition handle_status_report :: "bool \<Rightarrow> bytes \<Rightarrow> pdcp_tx \<Rightarrow> pdcp_tx" where
  "handle_status_report create_ok status s =
    (if \<not> create_ok then s
     else
       let (ok1, dc :: u32, d) = unpack 1 (bit_decoder_init status) in
       if dc \<noteq> dc_to_number dc_control then s
       else
         let (ok2, cpt :: u32, d) = unpack 3 d in
         if cpt \<noteq> ucast cpt_status_report then s
         else
           let (ok3, reserved :: u32, d) = unpack 4 d in
           if reserved \<noteq> 0 then s
           else
             let (ok4, fmc :: u32, d) = unpack 32 d;
                 s = fold discard_pdu (word_range (tx_next_ack s) fmc) s
             in tx_bitmap_loop (8 * length status) d fmc s)"

end
