(* ===== verification/Pdcp_Tx_Inv.thy ===== *)
theory Pdcp_Tx_Inv
  imports Pdcp_Tx
begin

text \<open>
  The invariant of the transmitting PDCP entity, its preservation by every handler, and the laws of the
  loops that move the lower edge of the window.
\<close>

section \<open>The invariant\<close>

text \<open>
  TX_NEXT_ACK, TX_TRANS and TX_NEXT are in this order; the window holds SDUs from TX_NEXT_ACK on and below
  TX_NEXT, each under its own COUNT; without a discard timer it stays empty and TX_NEXT_ACK at 0.
\<close>

definition tx_inv :: "pdcp_tx \<Rightarrow> bool" where
  "tx_inv s \<longleftrightarrow>
    sn_size_ok (sn_size (tx_cfg s)) \<and> \<not> (tx_is_srb s \<and> sn_size (tx_cfg s) = size18bits) \<and>
    cm_wf (tx_window s) \<and> cm_size (tx_window s) = unat (pdcp_window_size (sn_size (tx_cfg s))) \<and>
    tx_next_ack s \<le> tx_trans s \<and> tx_trans s \<le> tx_next s \<and>
    (\<forall>k i. cm_at (tx_window s) k = Some i \<longrightarrow> tx_next_ack s \<le> k \<and> k < tx_next s \<and> ti_count i = k) \<and>
    (discard_timer (tx_cfg s) = None \<longrightarrow> tx_next_ack s = 0 \<and> (\<forall>k. cm_at (tx_window s) k = None))"

lemma tx_inv_initial:
  assumes "pdcp_entity_tx rb cfg = Some s"
  shows "tx_inv s"
  using assms
  by (auto simp: pdcp_entity_tx_def create_tx_window_def tx_inv_def sn_size_ok_def tx_is_srb_def
      pdcp_window_size_def pdcp_window_capacity_def pcdp_sn_cardinality_def
      split: option.splits pdcp_sn_size.splits if_splits)

text \<open>The COUNTs of data PDUs sent for the first time.\<close>

fun fresh_count :: "tx_event \<Rightarrow> u32 option" where
  "fresh_count (On_new_pdu c _ is_retx) = (if is_retx then None else c)"
| "fresh_count _ = None"

definition fresh_counts :: "tx_event list \<Rightarrow> u32 list" where
  "fresh_counts es = List.map_filter fresh_count es"

lemma fresh_counts_simps [simp]:
  "fresh_counts [] = []"
  "fresh_counts (e # es) = (case fresh_count e of None \<Rightarrow> [] | Some c \<Rightarrow> [c]) @ fresh_counts es"
  "fresh_counts (xs @ ys) = fresh_counts xs @ fresh_counts ys"
  by (simp_all add: fresh_counts_def map_filter_def split: option.splits)

text \<open>A step that keeps the invariant and sends nothing new.\<close>

definition tx_quiet :: "pdcp_tx \<Rightarrow> pdcp_tx \<Rightarrow> bool" where
  "tx_quiet s t \<longleftrightarrow> (tx_inv s \<longrightarrow> tx_inv t) \<and> tx_cfg t = tx_cfg s \<and> tx_next t = tx_next s \<and>
    (\<exists>new. tx_out t = tx_out s @ new \<and> fresh_counts new = [])"

lemma tx_quiet_refl [simp]: "tx_quiet s s"
  by (simp add: tx_quiet_def)

lemma tx_quiet_trans: "tx_quiet s t \<Longrightarrow> tx_quiet t u \<Longrightarrow> tx_quiet s u"
  by (auto simp: tx_quiet_def)

lemma tx_quiet_events [simp]:
  "tx_quiet s (tx_emit Tx_on_protocol_failure s)"
  "tx_quiet s (tx_emit Tx_abort s)"
  "tx_quiet s (tx_emit Tx_on_max_count_reached s)"
  "tx_quiet s (tx_emit (On_discard_pdu c) s)"
  "tx_quiet s (tx_add_sdus n b s)"
  "tx_quiet s (tx_add_pdus n b s)"
  "tx_quiet s (tx_add_discard_timeouts n s)"
  "tx_quiet s (write_data_pdu_to_lower_layers c buf True s)"
  "tx_quiet s (write_control_pdu_to_lower_layers buf s)"
  by (simp_all add: tx_quiet_def tx_inv_def tx_is_srb_def tx_emit_def tx_add_sdus_def tx_add_pdus_def
      tx_add_discard_timeouts_def write_data_pdu_to_lower_layers_def write_control_pdu_to_lower_layers_def)

section \<open>The lower edge of the window\<close>

lemma advance_ack_spec:
  assumes "tx_next_ack s \<le> tx_next s"
  obtains a where "tx_advance_ack s = s\<lparr>tx_next_ack := a\<rparr>" "tx_next_ack s \<le> a" "a \<le> tx_next s"
    "\<And>k. tx_next_ack s \<le> k \<Longrightarrow> k < a \<Longrightarrow> cm_at (tx_window s) k = None"
    "a = tx_next s \<or> cm_at (tx_window s) a \<noteq> None"
  using assms
proof (induction s arbitrary: thesis rule: tx_advance_ack.induct)
  case (1 s)
  show ?case
  proof (cases "tx_next_ack s < tx_next s \<and> \<not> has_sn (tx_window s) (tx_next_ack s)")
    case False
    then show ?thesis
      using "1.prems"(2) by (intro "1.prems"(1) [of "tx_next_ack s"]) (auto simp: tx_advance_ack.simps [of s] has_sn_at)
  next
    case True
    let ?s1 = "s\<lparr>tx_next_ack := tx_next_ack s + 1\<rparr>"
    have lt: "tx_next_ack s < tx_next s" using True by simp
    have "tx_next_ack ?s1 \<le> tx_next ?s1" using word_Suc_le(1) [OF lt] by simp
    then obtain a where a: "tx_advance_ack ?s1 = ?s1\<lparr>tx_next_ack := a\<rparr>" "tx_next_ack ?s1 \<le> a" "a \<le> tx_next ?s1"
      "\<And>k. tx_next_ack ?s1 \<le> k \<Longrightarrow> k < a \<Longrightarrow> cm_at (tx_window ?s1) k = None"
      "a = tx_next ?s1 \<or> cm_at (tx_window ?s1) a \<noteq> None"
      using "1.IH" [OF True] by blast
    show ?thesis
    proof (rule "1.prems"(1) [of a])
      show "tx_advance_ack s = s\<lparr>tx_next_ack := a\<rparr>" using True a(1) by (simp add: tx_advance_ack.simps [of s])
      show "tx_next_ack s \<le> a" using a(2) word_Suc_le(2) [OF lt] by simp
      show "cm_at (tx_window s) k = None" if "tx_next_ack s \<le> k" "k < a" for k
      proof (cases "k = tx_next_ack s")
        case True
        then show ?thesis using \<open>_ \<and> \<not> has_sn _ _\<close> by (simp add: has_sn_at)
      next
        case False
        then show ?thesis using that a(4) [of k] word_Suc_le_iff [OF lt, of k] by simp
      qed
    qed (use a in simp_all)
  qed
qed

lemma remove_upto_spec:
  assumes "tx_next_ack s \<le> h" "h < tx_next s" "cm_wf (tx_window s)"
  obtains w where "tx_remove_upto h s = s\<lparr>tx_window := w, tx_next_ack := h + 1\<rparr>" "cm_wf w"
    "cm_size w = cm_size (tx_window s)"
    "cm_at w = (\<lambda>j. if tx_next_ack s \<le> j \<and> j \<le> h then None else cm_at (tx_window s) j)"
  using assms
proof (induction h s arbitrary: thesis rule: tx_remove_upto.induct)
  case (1 h s)
  let ?w = "if has_sn (tx_window s) (tx_next_ack s) then remove_sn (tx_window s) (tx_next_ack s) else tx_window s"
  let ?s1 = "s\<lparr>tx_window := ?w, tx_next_ack := tx_next_ack s + 1\<rparr>"
  have c: "tx_next_ack s \<le> h \<and> h < tx_next s" using "1.prems" by simp
  have step: "tx_remove_upto h s = tx_remove_upto h ?s1" using c by (simp add: tx_remove_upto.simps [of h s])
  have lt: "tx_next_ack s < tx_next s" using c le_less_trans by blast
  have wf1: "cm_wf ?w" "cm_size ?w = cm_size (tx_window s)" using "1.prems"(4) by (simp_all add: window_simps)
  have at1: "cm_at ?w = (\<lambda>j. if j = tx_next_ack s then None else cm_at (tx_window s) j)"
    using "1.prems"(4) by (auto simp: window_simps)
  show ?case
  proof (cases "tx_next_ack s = h")
    case True
    have stop: "tx_remove_upto h t = t" if "h < tx_next_ack t" for t
      using that by (subst tx_remove_upto.simps) auto
    have "h < h + 1" using word_Suc_le(2) [OF lt] True by simp
    then have "tx_remove_upto h ?s1 = ?s1" using True by (intro stop) simp
    then show ?thesis
      using step wf1 at1 True by (intro "1.prems"(1) [of ?w]) (auto simp: fun_eq_iff)
  next
    case False
    then have lt2: "tx_next_ack s < h" using c order_le_imp_less_or_eq by blast
    have "tx_next_ack ?s1 \<le> h" "h < tx_next ?s1" "cm_wf (tx_window ?s1)"
      using word_Suc_le(1) [OF lt2] c wf1 by simp_all
    then obtain w where w: "tx_remove_upto h ?s1 = ?s1\<lparr>tx_window := w, tx_next_ack := h + 1\<rparr>" "cm_wf w"
      "cm_size w = cm_size (tx_window ?s1)"
      "cm_at w = (\<lambda>j. if tx_next_ack ?s1 \<le> j \<and> j \<le> h then None else cm_at (tx_window ?s1) j)"
      using "1.IH" [OF c] by blast
    have le: "tx_next_ack s \<le> j \<longleftrightarrow> j = tx_next_ack s \<or> tx_next_ack s + 1 \<le> j" for j
      using word_Suc_le_iff [OF lt, of j] by auto
    show ?thesis
    proof (rule "1.prems"(1) [of w])
      have w4: "cm_at w j = (if tx_next_ack s + 1 \<le> j \<and> j \<le> h then None else cm_at ?w j)" for j
        using w(4) by (simp cong: if_cong)
      have "cm_at w j = (if tx_next_ack s \<le> j \<and> j \<le> h then None else cm_at (tx_window s) j)" for j
        using w4 [of j] at1 c le [of j] by (cases "j = tx_next_ack s") (auto simp: fun_eq_iff)
      then show "cm_at w = (\<lambda>j. if tx_next_ack s \<le> j \<and> j \<le> h then None else cm_at (tx_window s) j)" ..
    qed (use step w wf1 in simp_all)
  qed
qed


text \<open>Discarding a PDU: notification, removal, the lower edge moves to the oldest element left.\<close>

lemma discard_pdu_ignored:
  assumes "tx_inv s" "cm_at (tx_window s) c = None"
  shows "discard_pdu c s = s"
  using assms by (simp add: discard_pdu_def has_sn_at)

lemma discard_pdu_spec:
  assumes "tx_inv s" "cm_at (tx_window s) c \<noteq> None"
  obtains a where "discard_pdu c s =
      s\<lparr>tx_out := tx_out s @ [On_discard_pdu (tx_SN s c)], tx_window := remove_sn (tx_window s) c,
        tx_next_ack := a, tx_trans := max (tx_trans s) a\<rparr>"
    "tx_next_ack s \<le> a" "a \<le> tx_next s"
    "\<And>k. k < a \<Longrightarrow> cm_at (remove_sn (tx_window s) c) k = None"
    "a = tx_next s \<or> cm_at (remove_sn (tx_window s) c) a \<noteq> None"
proof -
  let ?s1 = "s\<lparr>tx_out := tx_out s @ [On_discard_pdu (tx_SN s c)], tx_window := remove_sn (tx_window s) c\<rparr>"
  have wf: "cm_wf (tx_window s)" and le: "tx_next_ack s \<le> tx_next s" and dt: "discard_timer (tx_cfg s) \<noteq> None"
    and c: "tx_next_ack s \<le> c" "c < tx_next s"
    using assms by (auto simp: tx_inv_def)
  have key: "tx_next_ack s \<le> k" if "cm_at (tx_window s) k \<noteq> None" for k
    using that assms(1) by (auto simp: tx_inv_def)
  have "tx_next_ack ?s1 \<le> tx_next ?s1" using le by simp
  then obtain a where a: "tx_advance_ack ?s1 = ?s1\<lparr>tx_next_ack := a\<rparr>" "tx_next_ack ?s1 \<le> a" "a \<le> tx_next ?s1"
    "\<And>k. tx_next_ack ?s1 \<le> k \<Longrightarrow> k < a \<Longrightarrow> cm_at (tx_window ?s1) k = None"
    "a = tx_next ?s1 \<or> cm_at (tx_window ?s1) a \<noteq> None"
    by (rule advance_ack_spec) blast
  have low: "cm_at (remove_sn (tx_window s) c) k = None" if "k < a" for k
  proof (cases "tx_next_ack s \<le> k")
    case True
    then show ?thesis using a(4) [of k] that by simp
  next
    case False
    then have "cm_at (tx_window s) k = None" using key by blast
    then show ?thesis using wf by (simp add: window_simps)
  qed
  have "discard_pdu c s = tx_clamp_trans (tx_advance_ack ?s1)"
    using dt c assms(2) by (auto simp: discard_pdu_def has_sn_at tx_emit_def Let_def)
  also have "\<dots> = ?s1\<lparr>tx_next_ack := a, tx_trans := max (tx_trans s) a\<rparr>"
    unfolding a(1) by (auto simp: tx_clamp_trans_def max_def)
  finally show ?thesis using a low by (intro that [of a]) simp_all
qed

lemma discard_pdu_quiet: "tx_inv s \<Longrightarrow> tx_quiet s (discard_pdu c s)"
proof (cases "cm_at (tx_window s) c = None")
  case True
  assume "tx_inv s"
  then show ?thesis using True by (simp add: discard_pdu_ignored)
next
  case False
  assume inv: "tx_inv s"
  obtain a where a: "discard_pdu c s =
      s\<lparr>tx_out := tx_out s @ [On_discard_pdu (tx_SN s c)], tx_window := remove_sn (tx_window s) c,
        tx_next_ack := a, tx_trans := max (tx_trans s) a\<rparr>"
    "tx_next_ack s \<le> a" "a \<le> tx_next s"
    "\<And>k. k < a \<Longrightarrow> cm_at (remove_sn (tx_window s) c) k = None"
    "a = tx_next s \<or> cm_at (remove_sn (tx_window s) c) a \<noteq> None"
    by (rule discard_pdu_spec [OF inv False]) blast
  have wf: "cm_wf (tx_window s)" and le: "tx_trans s \<le> tx_next s" and dt: "discard_timer (tx_cfg s) \<noteq> None"
    using inv False by (auto simp: tx_inv_def)
  have "a \<le> k \<and> k < tx_next s \<and> ti_count i = k" if "cm_at (remove_sn (tx_window s) c) k = Some i" for k i
  proof -
    have "\<not> k < a" using a(4) [of k] that by auto
    moreover have "cm_at (tx_window s) k = Some i" using that wf by (auto simp: window_simps split: if_splits)
    ultimately show ?thesis using inv by (auto simp: tx_inv_def)
  qed
  then show ?thesis
    using inv a(2,3) wf le dt unfolding a(1) by (auto simp: tx_quiet_def tx_inv_def tx_is_srb_def window_simps)
qed

text \<open>Stopping the discard timers up to a COUNT.\<close>

lemma stop_discard_timer_spec:
  assumes "tx_inv s" "discard_timer (tx_cfg s) \<noteq> None" "tx_next_ack s \<le> h" "h < tx_next s"
  obtains w where "stop_discard_timer h s = s\<lparr>tx_window := w, tx_next_ack := h + 1, tx_trans := max (tx_trans s) (h + 1)\<rparr>"
    "cm_wf w" "cm_size w = cm_size (tx_window s)"
    "cm_at w = (\<lambda>j. if j \<le> h then None else cm_at (tx_window s) j)"
proof -
  have "cm_wf (tx_window s)" using assms(1) by (simp add: tx_inv_def)
  with assms(3,4) obtain w where w: "tx_remove_upto h s = s\<lparr>tx_window := w, tx_next_ack := h + 1\<rparr>" "cm_wf w"
    "cm_size w = cm_size (tx_window s)"
    "cm_at w = (\<lambda>j. if tx_next_ack s \<le> j \<and> j \<le> h then None else cm_at (tx_window s) j)"
    by (rule remove_upto_spec)
  have "cm_at (tx_window s) j = None" if "\<not> tx_next_ack s \<le> j" for j
    using that assms(1) by (cases "cm_at (tx_window s) j") (auto simp: tx_inv_def)
  then have "cm_at w = (\<lambda>j. if j \<le> h then None else cm_at (tx_window s) j)" unfolding w(4) by auto
  moreover have "stop_discard_timer h s = s\<lparr>tx_window := w, tx_next_ack := h + 1, tx_trans := max (tx_trans s) (h + 1)\<rparr>"
    using assms(2-4) by (auto simp: stop_discard_timer_def w(1) tx_clamp_trans_def max_def)
  ultimately show ?thesis using w by (intro that) simp_all
qed

lemma stop_discard_timer_quiet: "tx_inv s \<Longrightarrow> tx_quiet s (stop_discard_timer h s)"
proof (cases "discard_timer (tx_cfg s) = None \<or> h < tx_next_ack s \<or> h \<ge> tx_next s")
  case True
  then show ?thesis by (auto simp: stop_discard_timer_def)
next
  case False
  assume inv: "tx_inv s"
  from False have c: "discard_timer (tx_cfg s) \<noteq> None" "tx_next_ack s \<le> h" "h < tx_next s" by auto
  obtain w where w: "stop_discard_timer h s = s\<lparr>tx_window := w, tx_next_ack := h + 1, tx_trans := max (tx_trans s) (h + 1)\<rparr>"
    "cm_wf w" "cm_size w = cm_size (tx_window s)"
    "cm_at w = (\<lambda>j. if j \<le> h then None else cm_at (tx_window s) j)"
    by (rule stop_discard_timer_spec [OF inv c])
  have "h + 1 \<le> k" if "\<not> k \<le> h" for k using word_Suc_le(1) [of h k] that by simp
  then show ?thesis
    using inv c word_Suc_le(1) [OF c(3)] w(2-4) unfolding w(1)
    by (auto simp: tx_quiet_def tx_inv_def tx_is_srb_def split: if_splits)
qed


section \<open>Every handler\<close>

lemma transmit_notification_quiet: "tx_inv s \<Longrightarrow> tx_quiet s (handle_transmit_notification n s)"
proof -
  assume inv: "tx_inv s"
  let ?c = "notification_count_estimation n s"
  let ?s1 = "s\<lparr>tx_trans := ?c + 1\<rparr>"
  show ?thesis
  proof (cases "n \<ge> pdcp_sn_cardinality (sn_size (tx_cfg s)) \<or> ?c < tx_trans s \<or> ?c \<ge> tx_next s")
    case True
    then show ?thesis by (auto simp: handle_transmit_notification_def Let_def)
  next
    case False
    then have c: "tx_trans s \<le> ?c" "?c < tx_next s" by auto
    have "?c + 1 \<le> tx_next s" "?c < ?c + 1" using word_Suc_le [OF c(2)] by simp_all
    moreover have "tx_next_ack s \<le> tx_trans s" using inv by (simp add: tx_inv_def)
    ultimately have "tx_next_ack s \<le> ?c + 1" "?c + 1 \<le> tx_next s" using c(1) by auto
    then have q: "tx_quiet s ?s1" using inv by (auto simp: tx_quiet_def tx_inv_def tx_is_srb_def)
    then have inv1: "tx_inv ?s1" using inv by (simp add: tx_quiet_def)
    have "handle_transmit_notification n s =
      (if discard_timer (tx_cfg s) = None \<or> \<not> tx_is_um s then ?s1 else stop_discard_timer ?c ?s1)"
      using False by (auto simp: handle_transmit_notification_def Let_def tx_is_um_def)
    then show ?thesis using q tx_quiet_trans [OF q stop_discard_timer_quiet [OF inv1]] by simp
  qed
qed

lemma delivery_notification_quiet: "tx_inv s \<Longrightarrow> tx_quiet s (handle_delivery_notification n s)"
  by (simp add: handle_delivery_notification_def Let_def stop_discard_timer_quiet)

lemma cm_assign_quiet:
  assumes "cm_at (tx_window s) c = Some i" "ti_count j = ti_count i"
  shows "tx_quiet s (s\<lparr>tx_window := cm_assign (tx_window s) c j\<rparr>)"
proof -
  have "cm_at (cm_assign (tx_window s) c j) = (cm_at (tx_window s))(c \<mapsto> j)" if "cm_wf (tx_window s)"
    using that assms(1) by (intro cm_at_assign_present) simp_all
  then show ?thesis
    using assms by (auto simp: tx_quiet_def tx_inv_def tx_is_srb_def window_wf split: if_splits)
qed

lemma discard_timer_expired_quiet: "tx_inv s \<Longrightarrow> tx_quiet s (discard_timer_expired c s)"
proof -
  assume inv: "tx_inv s"
  define s1 where "s1 = (case cm_at (tx_window s) c of None \<Rightarrow> s
    | Some i \<Rightarrow> s\<lparr>tx_window := cm_assign (tx_window s) c (i\<lparr>ti_timer := False\<rparr>)\<rparr>)"
  have q1: "tx_quiet s s1" using cm_assign_quiet by (auto simp: s1_def split: option.splits)
  have q2: "tx_quiet s (tx_add_discard_timeouts 1 s1)" using tx_quiet_trans [OF q1] by simp
  then have "tx_inv (tx_add_discard_timeouts 1 s1)" using inv by (simp add: tx_quiet_def)
  then show ?thesis
    using tx_quiet_trans [OF q2 discard_pdu_quiet] by (simp add: discard_timer_expired_def Let_def s1_def)
qed

lemma retransmit_loop_quiet: "tx_quiet s (tx_retransmit_loop lib mem ks s)"
proof (induction ks arbitrary: s)
  case (Cons c ks)
  show ?case
    using tx_quiet_trans [OF _ Cons.IH]
    by (auto split: option.splits sum.splits)
qed simp

lemma retransmit_all_quiet: "tx_quiet s (retransmit_all_pdus lib mem s)"
proof -
  have "tx_quiet s (s\<lparr>tx_trans := tx_next_ack s\<rparr>)"
    by (auto simp: tx_quiet_def tx_inv_def tx_is_srb_def)
  then show ?thesis
    using tx_quiet_trans [OF _ retransmit_loop_quiet] by (auto simp: retransmit_all_pdus_def Let_def)
qed

lemma configure_security_quiet: "tx_quiet s (snd (tx_configure_security lib cfg i c s))"
  by (auto simp: tx_configure_security_def Let_def tx_quiet_def tx_inv_def tx_is_srb_def tx_emit_def split: option.splits)

lemma data_recovery_quiet: "tx_quiet s (data_recovery lib mem report s)"
proof -
  have "tx_quiet s (send_status_report report s)" by (simp add: send_status_report_def)
  then show ?thesis
    using tx_quiet_trans [OF _ retransmit_all_quiet] by (auto simp: data_recovery_def Let_def)
qed

lemma fold_discard_quiet: "tx_inv s \<Longrightarrow> tx_quiet s (fold discard_pdu ks s)"
proof (induction ks arbitrary: s)
  case (Cons k ks)
  have q: "tx_quiet s (discard_pdu k s)" using discard_pdu_quiet Cons.prems by blast
  then have "tx_inv (discard_pdu k s)" using Cons.prems by (simp add: tx_quiet_def)
  then show ?case using tx_quiet_trans [OF q Cons.IH] by simp
qed simp

lemma bitmap_loop_quiet: "tx_inv s \<Longrightarrow> tx_quiet s (tx_bitmap_loop n d fmc s)"
proof (induction n d fmc s rule: tx_bitmap_loop.induct)
  case (2 n d fmc s)
  obtain ok b d1 where u: "unpack 1 d = (ok, b :: u32, d1)" by (cases "unpack 1 d :: bool \<times> u32 \<times> bit_decoder") auto
  let ?s1 = "if b = 1 then discard_pdu (fmc + 1) s else s"
  have q: "tx_quiet s ?s1" using discard_pdu_quiet "2.prems" by simp
  then have inv: "tx_inv ?s1" using "2.prems" by (simp add: tx_quiet_def)
  show ?case
  proof (cases ok)
    case True
    then show ?thesis
      using "2.IH" [of True "(b, d1)" b d1 "fmc + 1" ?s1] u inv tx_quiet_trans [OF q] by (simp add: Let_def)
  qed (use u in simp)
qed simp

lemma status_report_quiet: "tx_inv s \<Longrightarrow> tx_quiet s (handle_status_report create_ok status s)"
proof -
  assume inv: "tx_inv s"
  have "tx_quiet s (tx_bitmap_loop n d fmc (fold discard_pdu ks s))" for n d fmc ks
  proof -
    have q: "tx_quiet s (fold discard_pdu ks s)" by (rule fold_discard_quiet [OF inv])
    then show ?thesis using inv tx_quiet_trans [OF q bitmap_loop_quiet] by (simp add: tx_quiet_def)
  qed
  then show ?thesis by (simp add: handle_status_report_def Let_def split: prod.split)
qed


section \<open>Sending\<close>

text \<open>Every COUNT from TX_NEXT on is used once, in ascending order, and below the hard limit.\<close>

definition tx_extends :: "pdcp_tx \<Rightarrow> pdcp_tx \<Rightarrow> bool" where
  "tx_extends s t \<longleftrightarrow> tx_cfg t = tx_cfg s \<and> tx_next s \<le> tx_next t \<and>
    (\<exists>new. tx_out t = tx_out s @ new \<and> fresh_counts new = word_range (tx_next s) (tx_next t) \<and>
      (\<forall>c \<in> set (fresh_counts new). c < mc_hard (tx_max_count (custom_tx (tx_cfg s)))))"

lemma tx_extends_trans:
  assumes "tx_extends s t" "tx_extends t u"
  shows "tx_extends s u"
proof -
  obtain xs where xs: "tx_out t = tx_out s @ xs" "fresh_counts xs = word_range (tx_next s) (tx_next t)"
    "\<forall>c \<in> set (fresh_counts xs). c < mc_hard (tx_max_count (custom_tx (tx_cfg s)))"
    and s: "tx_cfg t = tx_cfg s" "tx_next s \<le> tx_next t" using assms(1) by (auto simp: tx_extends_def)
  obtain ys where ys: "tx_out u = tx_out t @ ys" "fresh_counts ys = word_range (tx_next t) (tx_next u)"
    "\<forall>c \<in> set (fresh_counts ys). c < mc_hard (tx_max_count (custom_tx (tx_cfg t)))"
    and t: "tx_cfg u = tx_cfg t" "tx_next t \<le> tx_next u" using assms(2) by (auto simp: tx_extends_def)
  have "fresh_counts (xs @ ys) = word_range (tx_next s) (tx_next u)"
    using xs(2) ys(2) word_range_append [OF s(2) t(2)] by simp
  moreover have "\<forall>c \<in> set (fresh_counts (xs @ ys)). c < mc_hard (tx_max_count (custom_tx (tx_cfg s)))"
    using xs(3) ys(3) s(1) by auto
  ultimately show ?thesis
    using s t xs(1) ys(1) unfolding tx_extends_def by (intro conjI exI [of _ "xs @ ys"]) auto
qed

lemma tx_quiet_extends: "tx_quiet s t \<Longrightarrow> tx_extends s t"
  by (auto simp: tx_quiet_def tx_extends_def)

lemma tx_quiet_inv: "tx_quiet s t \<Longrightarrow> tx_inv s \<Longrightarrow> tx_inv t"
  by (simp add: tx_quiet_def)

lemma tx_next_free: "tx_inv s \<Longrightarrow> cm_at (tx_window s) (tx_next s) = None"
  by (cases "cm_at (tx_window s) (tx_next s)") (auto simp: tx_inv_def)

lemma store_sdu_eq:
  assumes "tx_inv s"
  shows "tx_store_sdu sdu s = (case discard_timer (tx_cfg s) of None \<Rightarrow> s
    | Some t \<Rightarrow> s\<lparr>tx_window := add_sn (tx_window s) (tx_next s)
        \<lparr>ti_count = tx_next s, ti_sdu = (if tx_is_am s then sdu else []), ti_timer = (t \<noteq> discard_timer_infinity)\<rparr>\<rparr>)"
  by (simp add: tx_store_sdu_def tx_next_free [OF assms] split: option.split)

lemma store_sdu_frame:
  assumes "tx_inv s"
  shows "tx_next (tx_store_sdu sdu s) = tx_next s" "tx_cfg (tx_store_sdu sdu s) = tx_cfg s"
    "tx_out (tx_store_sdu sdu s) = tx_out s" "tx_trans (tx_store_sdu sdu s) = tx_trans s"
    "tx_next_ack (tx_store_sdu sdu s) = tx_next_ack s"
  by (simp_all add: store_sdu_eq [OF assms] split: option.split)

lemma store_sdu_next_inv:
  assumes "tx_inv s" "tx_next s < - 1"
  shows "tx_inv ((tx_store_sdu sdu s)\<lparr>tx_next := tx_next s + 1\<rparr>)"
proof -
  have n: "tx_next s < tx_next s + 1" using word_Suc_le(2) [OF assms(2)] by simp
  have key: "tx_next_ack s \<le> k \<and> k < tx_next s + 1 \<and> ti_count i = k"
    if "cm_at (tx_window s) k = Some i" for k i
  proof -
    have "tx_next_ack s \<le> k" "k < tx_next s" "ti_count i = k" using that assms(1) by (auto simp: tx_inv_def)
    then show ?thesis using n by (auto dest: less_trans)
  qed
  have ack: "tx_next_ack s \<le> tx_next s" using assms(1) by (auto simp: tx_inv_def)
  have trans: "tx_trans s \<le> tx_next s + 1" using assms(1) n by (auto simp: tx_inv_def)
  show ?thesis
  proof (cases "discard_timer (tx_cfg s)")
    case None
    then show ?thesis using assms(1) trans by (simp add: store_sdu_eq tx_inv_def tx_is_srb_def)
  next
    case (Some t)
    then show ?thesis
      using assms(1) trans n ack key
      by (auto simp: store_sdu_eq tx_inv_def tx_is_srb_def window_wf sw.look_add split: if_splits)
  qed
qed

lemma write_pdu_frame [frame_simps]:
  "tx_next (write_data_pdu_to_lower_layers c b r s) = tx_next s"
  "tx_cfg (write_data_pdu_to_lower_layers c b r s) = tx_cfg s"
  "tx_window (write_data_pdu_to_lower_layers c b r s) = tx_window s"
  "tx_out (write_data_pdu_to_lower_layers c b r s) = tx_out s @ [On_new_pdu (Some c) b r]"
  "tx_trans (write_data_pdu_to_lower_layers c b r s) = tx_trans s"
  "tx_next_ack (write_data_pdu_to_lower_layers c b r s) = tx_next_ack s"
  by (simp_all add: write_data_pdu_to_lower_layers_def tx_emit_def tx_add_pdus_def)

lemma send_pdu_spec:
  assumes "tx_inv s" "tx_next s < - 1"
  shows "tx_inv (tx_send_pdu sdu p s) \<and> tx_cfg (tx_send_pdu sdu p s) = tx_cfg s \<and>
    tx_next (tx_send_pdu sdu p s) = tx_next s + 1 \<and>
    (\<exists>new. tx_out (tx_send_pdu sdu p s) = tx_out s @ On_new_pdu (Some (tx_next s)) p False # new \<and> fresh_counts new = [])"
proof -
  define s1 where "s1 = (write_data_pdu_to_lower_layers (tx_next s) p False (tx_store_sdu sdu s))\<lparr>tx_next := tx_next s + 1\<rparr>"
  have f: "tx_cfg s1 = tx_cfg s" "tx_next s1 = tx_next s + 1" "tx_out s1 = tx_out s @ [On_new_pdu (Some (tx_next s)) p False]"
    by (simp_all add: s1_def frame_simps store_sdu_frame [OF assms(1)])
  have inv: "tx_inv s1"
    using store_sdu_next_inv [OF assms, of sdu]
    by (simp add: s1_def tx_inv_def tx_is_srb_def frame_simps)
  have e: "tx_send_pdu sdu p s =
      (if test_mode (custom_tx (tx_cfg s)) then handle_transmit_notification (tx_SN s1 (tx_next s)) s1 else s1)"
    by (simp add: tx_send_pdu_def Let_def s1_def frame_simps store_sdu_frame [OF assms(1)])
  have "tx_quiet s1 (tx_send_pdu sdu p s)" unfolding e using transmit_notification_quiet [OF inv] by simp
  then show ?thesis using inv f by (auto simp: tx_quiet_def)
qed

lemma check_notify_quiet: "tx_quiet s (tx_check_notify s)"
  by (auto simp: tx_check_notify_def tx_quiet_def tx_inv_def tx_is_srb_def tx_emit_def)

lemma below_limit: "c < (m :: u32) \<Longrightarrow> c < - 1"
  by (metis less_le_trans word_n1_ge)

definition tx_same_sec :: "pdcp_tx \<Rightarrow> pdcp_tx \<Rightarrow> bool" where
  "tx_same_sec s t \<longleftrightarrow> tx_cfg t = tx_cfg s \<and> tx_sec_engine t = tx_sec_engine s"

lemma same_sec_frame:
  assumes "tx_same_sec s t"
  shows "write_data_pdu_header p b n t = write_data_pdu_header p b n s"
    "apply_ciphering_and_integrity_protection lib a b c t = apply_ciphering_and_integrity_protection lib a b c s"
    "tx_SN t c = tx_SN s c"
  using assms by (simp_all add: tx_same_sec_def write_data_pdu_header_def tx_is_srb_def
      apply_ciphering_and_integrity_protection_def tx_sec_hdr_size_def tx_SN_def
      cong: if_cong option.case_cong)

lemma same_sec_start: "tx_same_sec s (tx_check_notify (tx_add_sdus 1 n s))"
  by (simp add: tx_same_sec_def tx_check_notify_def tx_add_sdus_def tx_emit_def)

text \<open>Either nothing is sent, or the PDU that header and engine make of the SDU is.\<close>

lemma handle_sdu_cases:
  assumes "tx_inv s"
  obtains (quiet) "tx_quiet s (handle_sdu lib mem buf s)"
  | (sent) s1 pdu b where "tx_quiet s s1" "tx_next s < mc_hard (tx_max_count (custom_tx (tx_cfg s)))"
      "write_data_pdu_header (mem_prepend mem (tx_next s)) buf (tx_SN s (tx_next s)) s = Some (Some pdu)"
      "apply_ciphering_and_integrity_protection lib (mem_append mem (tx_next s)) pdu (tx_next s) s = Some (Inr b)"
      "handle_sdu lib mem buf s = tx_send_pdu buf b s1"
proof -
  define s0 where "s0 = tx_add_sdus 1 (length buf) s"
  define s1 where "s1 = tx_check_notify s0"
  have q0: "tx_quiet s s0" by (simp add: s0_def)
  have q1: "tx_quiet s s1" unfolding s1_def by (rule tx_quiet_trans [OF q0 check_notify_quiet])
  have n: "tx_next s1 = tx_next s" using q1 by (simp add: tx_quiet_def)
  have same: "tx_same_sec s s1" using same_sec_start by (simp add: s1_def s0_def)
  have f: "tx_next s0 = tx_next s" "tx_cfg s0 = tx_cfg s" using q0 by (simp_all add: tx_quiet_def)
  let ?over = "if \<not> tx_max_count_overflow s0
    then (tx_emit Tx_on_protocol_failure s0)\<lparr>tx_max_count_overflow := True\<rparr> else s0"
  have "tx_quiet s0 ((tx_emit Tx_on_protocol_failure s0)\<lparr>tx_max_count_overflow := True\<rparr>)"
    by (simp add: tx_quiet_def tx_inv_def tx_is_srb_def tx_emit_def)
  then have over: "tx_quiet s ?over" using tx_quiet_trans [OF q0] q0 by simp
  have ev: "tx_quiet s (tx_emit Tx_on_protocol_failure s1)" "tx_quiet s (tx_emit Tx_abort s1)"
    using tx_quiet_trans [OF q1] by simp_all
  have eq: "handle_sdu lib mem buf s = s \<or> handle_sdu lib mem buf s = ?over \<or>
    tx_next s < mc_hard (tx_max_count (custom_tx (tx_cfg s))) \<and> handle_sdu lib mem buf s = tx_protect_and_send lib mem buf s1"
    unfolding handle_sdu_def Let_def s0_def [symmetric] s1_def [symmetric] f by (simp add: not_le)
  have pas: "tx_protect_and_send lib mem buf s1 = tx_emit Tx_on_protocol_failure s1 \<or>
    tx_protect_and_send lib mem buf s1 = tx_emit Tx_abort s1 \<or>
    (\<exists>pdu b. write_data_pdu_header (mem_prepend mem (tx_next s)) buf (tx_SN s (tx_next s)) s = Some (Some pdu) \<and>
      apply_ciphering_and_integrity_protection lib (mem_append mem (tx_next s)) pdu (tx_next s) s = Some (Inr b) \<and>
      tx_protect_and_send lib mem buf s1 = tx_send_pdu buf b s1)"
    by (auto simp: tx_protect_and_send_def n same_sec_frame [OF same] split: option.splits sum.splits)
  from eq show ?thesis
  proof (elim disjE conjE)
    assume "handle_sdu lib mem buf s = s"
    then show ?thesis by (intro quiet) simp
  next
    assume "handle_sdu lib mem buf s = ?over"
    with over show ?thesis by (intro quiet) simp
  next
    assume lt: "tx_next s < mc_hard (tx_max_count (custom_tx (tx_cfg s)))"
      and e: "handle_sdu lib mem buf s = tx_protect_and_send lib mem buf s1"
    from pas show ?thesis
    proof (elim disjE exE conjE)
      assume "tx_protect_and_send lib mem buf s1 = tx_emit Tx_on_protocol_failure s1"
      with e ev(1) show ?thesis by (intro quiet) simp
    next
      assume "tx_protect_and_send lib mem buf s1 = tx_emit Tx_abort s1"
      with e ev(2) show ?thesis by (intro quiet) simp
    next
      fix pdu b
      assume "write_data_pdu_header (mem_prepend mem (tx_next s)) buf (tx_SN s (tx_next s)) s = Some (Some pdu)"
        "apply_ciphering_and_integrity_protection lib (mem_append mem (tx_next s)) pdu (tx_next s) s = Some (Inr b)"
        "tx_protect_and_send lib mem buf s1 = tx_send_pdu buf b s1"
      with e show ?thesis by (intro sent [OF q1 lt]) simp_all
    qed
  qed
qed

lemma handle_sdu_inv:
  assumes "tx_inv s"
  shows "tx_inv (handle_sdu lib mem buf s) \<and> tx_extends s (handle_sdu lib mem buf s)"
proof (rule handle_sdu_cases [OF assms, of lib mem buf])
  assume "tx_quiet s (handle_sdu lib mem buf s)"
  then show ?thesis using assms tx_quiet_inv tx_quiet_extends by blast
next
  fix s1 pdu b
  assume h: "tx_quiet s s1" "tx_next s < mc_hard (tx_max_count (custom_tx (tx_cfg s)))"
    "handle_sdu lib mem buf s = tx_send_pdu buf b s1"
  have n1: "tx_next s1 = tx_next s" "tx_cfg s1 = tx_cfg s" using h(1) by (simp_all add: tx_quiet_def)
  have lt: "tx_next s1 < - 1" using below_limit [OF h(2)] n1 by simp
  note sp = send_pdu_spec [OF tx_quiet_inv [OF h(1) assms] lt, of buf b]
  have w: "word_range (tx_next s) (tx_next s + 1) = [tx_next s]"
    using word_range_Cons [OF word_Suc_le(2), of "tx_next s" "- 1"] lt n1 by simp
  have "tx_next s \<le> tx_next s + 1" using word_Suc_le(2) [of "tx_next s" "- 1"] lt n1 by simp
  then have "tx_extends s1 (tx_send_pdu buf b s1)"
    using sp h(2) n1 w by (auto simp: tx_extends_def)
  then show ?thesis using sp h(3) tx_extends_trans [OF tx_quiet_extends [OF h(1)]] by simp
qed

section \<open>Reset and re-establishment\<close>

lemma tx_reset_inv: "tx_inv s \<Longrightarrow> tx_inv (tx_reset s)"
  by (auto simp: tx_inv_def tx_reset_def tx_is_srb_def window_simps)

lemma reestablish_quiet:
  "tx_quiet (if tx_is_srb s \<or> tx_is_um s then tx_reset s else s) (tx_reestablish lib mem cfg s)"
proof -
  define s1 where "s1 = (if tx_is_srb s \<or> tx_is_um s then tx_reset s else s)"
  obtain ok s2 where c: "tx_configure_security lib cfg (tx_integrity_enabled s1) (tx_ciphering_enabled s1) s1 = (ok, s2)"
    by fastforce
  have q: "tx_quiet s1 s2"
    using configure_security_quiet [of s1 lib cfg "tx_integrity_enabled s1" "tx_ciphering_enabled s1"] by (simp add: c)
  have "tx_reestablish lib mem cfg s = (if \<not> ok then s2 else if tx_is_am s2 then retransmit_all_pdus lib mem s2 else s2)"
    unfolding tx_reestablish_def s1_def [symmetric] by (simp add: Let_def c)
  then show ?thesis using q tx_quiet_trans [OF q retransmit_all_quiet] by (simp add: s1_def [symmetric])
qed

lemma tx_reestablish_inv: "tx_inv s \<Longrightarrow> tx_inv (tx_reestablish lib mem cfg s)"
  using tx_quiet_inv [OF reestablish_quiet] tx_reset_inv by auto

end
