(* ===== verification/Pdcp_Tx_Props.thy ===== *)
theory Pdcp_Tx_Props
  imports Pdcp_Tx_Inv
begin

text \<open>
  Runs of the transmitting PDCP entity and its correctness: the invariant on every reachable state, every
  COUNT used once, what discarding and stopping of discard timers do to the window, retransmission in
  order, and two situations in which the window does not behave as its comments say.
\<close>

section \<open>Runs\<close>

datatype tx_op =
    Tx_sdu tx_mem bytes
  | Tx_transmit u32
  | Tx_delivery u32
  | Tx_retransmit u32
  | Tx_delivery_retransmitted u32
  | Tx_discard_timer u32
  | Tx_status_report bool bytes
  | Tx_security sec_128_as_config integrity_enabled ciphering_enabled
  | Tx_reestablish tx_mem sec_128_as_config
  | Tx_data_recovery tx_mem bytes
  | Tx_send_status_report bytes
  | Tx_metrics

fun tx_enabled :: "tx_op \<Rightarrow> pdcp_tx \<Rightarrow> bool" where
  "tx_enabled (Tx_discard_timer c) s \<longleftrightarrow> (case cm_at (tx_window s) c of None \<Rightarrow> False | Some i \<Rightarrow> ti_timer i)"
| "tx_enabled _ _ \<longleftrightarrow> True"

fun tx_exec :: "ssl_lib \<Rightarrow> tx_op \<Rightarrow> pdcp_tx \<Rightarrow> pdcp_tx" where
  "tx_exec lib (Tx_sdu mem buf) s = handle_sdu lib mem buf s"
| "tx_exec lib (Tx_transmit n) s = handle_transmit_notification n s"
| "tx_exec lib (Tx_delivery n) s = handle_delivery_notification n s"
| "tx_exec lib (Tx_retransmit n) s = handle_retransmit_notification n s"
| "tx_exec lib (Tx_delivery_retransmitted n) s = handle_delivery_retransmitted_notification n s"
| "tx_exec lib (Tx_discard_timer c) s = discard_timer_expired c s"
| "tx_exec lib (Tx_status_report create_ok status) s = handle_status_report create_ok status s"
| "tx_exec lib (Tx_security cfg i c) s = snd (tx_configure_security lib cfg i c s)"
| "tx_exec lib (Tx_reestablish mem cfg) s = tx_reestablish lib mem cfg s"
| "tx_exec lib (Tx_data_recovery mem report) s = data_recovery lib mem report s"
| "tx_exec lib (Tx_send_status_report report) s = send_status_report report s"
| "tx_exec lib Tx_metrics s = snd (tx_get_metrics_and_reset s)"

inductive tx_run :: "ssl_lib \<Rightarrow> pdcp_tx \<Rightarrow> tx_op list \<Rightarrow> pdcp_tx \<Rightarrow> bool" for lib where
  tx_run_Nil: "tx_run lib s [] s"
| tx_run_Cons: "tx_enabled op s \<Longrightarrow> tx_run lib (tx_exec lib op s) ops t \<Longrightarrow> tx_run lib s (op # ops) t"

fun is_tx_reestablish :: "tx_op \<Rightarrow> bool" where
  "is_tx_reestablish (Tx_reestablish _ _) \<longleftrightarrow> True"
| "is_tx_reestablish _ \<longleftrightarrow> False"

fun is_tx_sdu :: "tx_op \<Rightarrow> bool" where
  "is_tx_sdu (Tx_sdu _ _) \<longleftrightarrow> True"
| "is_tx_sdu _ \<longleftrightarrow> False"

lemma other_quiet:
  "tx_quiet s (send_status_report report s)"
  "tx_quiet s (snd (tx_get_metrics_and_reset s))"
  by (simp_all add: send_status_report_def) (simp add: tx_get_metrics_and_reset_def tx_quiet_def tx_inv_def tx_is_srb_def)

lemma tx_exec_quiet:
  assumes "tx_inv s" "\<not> is_tx_reestablish op" "\<not> is_tx_sdu op"
  shows "tx_quiet s (tx_exec lib op s)"
  using assms
  by (cases op)
    (simp_all add: transmit_notification_quiet delivery_notification_quiet handle_retransmit_notification_def
      handle_delivery_retransmitted_notification_def discard_timer_expired_quiet status_report_quiet
      configure_security_quiet data_recovery_quiet other_quiet)

lemma tx_exec_inv:
  assumes "tx_inv s" "\<not> is_tx_reestablish op"
  shows "tx_inv (tx_exec lib op s) \<and> tx_extends s (tx_exec lib op s)"
proof (cases "is_tx_sdu op")
  case True
  then show ?thesis using handle_sdu_inv [OF assms(1)] by (cases op) auto
next
  case False
  then have "tx_quiet s (tx_exec lib op s)" using tx_exec_quiet assms by blast
  then show ?thesis using tx_quiet_inv tx_quiet_extends assms(1) by blast
qed

lemma tx_run_inv:
  assumes "tx_run lib s ops t" "tx_inv s"
  shows "tx_inv t"
  using assms
proof induction
  case (tx_run_Cons op s ops t)
  have "tx_inv (tx_exec lib op s)"
  proof (cases "is_tx_reestablish op")
    case True
    then show ?thesis using tx_reestablish_inv tx_run_Cons.prems by (cases op) auto
  next
    case False
    then show ?thesis using tx_exec_inv tx_run_Cons.prems by blast
  qed
  then show ?case by (rule tx_run_Cons.IH)
qed

lemma tx_run_extends:
  assumes "tx_run lib s ops t" "tx_inv s" "\<not> list_ex is_tx_reestablish ops"
  shows "tx_extends s t"
  using assms
proof induction
  case (tx_run_Nil s)
  show ?case by (simp add: tx_quiet_extends)
next
  case (tx_run_Cons op s ops t)
  have e: "tx_inv (tx_exec lib op s) \<and> tx_extends s (tx_exec lib op s)"
    using tx_exec_inv [OF tx_run_Cons.prems(1), of op] tx_run_Cons.prems(2) by simp
  then show ?case using tx_run_Cons.IH tx_run_Cons.prems(2) tx_extends_trans by auto
qed

section \<open>A bearer for the witnesses\<close>

definition demo_tx_cfg :: pdcp_tx_config where
  "demo_tx_cfg =
    \<lparr>rb_type = rb_drb, rlc_mode = rlc_am, sn_size = size12bits, direction = pdcp_uplink,
     integrity_protection_required = False, discard_timer = Some 10, status_report_required = True,
     custom_tx = pdcp_default_custom_tx\<rparr>"

definition demo_tx :: pdcp_tx where
  "demo_tx = the (pdcp_entity_tx (Drb_id 1) demo_tx_cfg)"

definition mem_ok :: tx_mem where
  "mem_ok = \<lparr>mem_copy = (\<lambda>_. True), mem_prepend = (\<lambda>_. True), mem_append = (\<lambda>_. True)\<rparr>"

definition demo_sent :: pdcp_tx where
  "demo_sent = handle_sdu toy_lib mem_ok [7] demo_tx"

lemma demo_tx_facts:
  "pdcp_entity_tx (Drb_id 1) demo_tx_cfg = Some demo_tx"
  "tx_cfg demo_tx = demo_tx_cfg" "tx_next demo_tx = 0" "tx_trans demo_tx = 0" "tx_next_ack demo_tx = 0"
  "tx_window demo_tx = cm_new 2048" "tx_out demo_tx = []" "tx_sec_engine demo_tx = None" "tx_rb_id demo_tx = Drb_id 1"
  by (simp_all add: demo_tx_def pdcp_entity_tx_def demo_tx_cfg_def create_tx_window_def
      pdcp_window_capacity_def pcdp_sn_cardinality_def)

lemma demo_tx_inv: "tx_inv demo_tx"
  by (rule tx_inv_initial [OF demo_tx_facts(1)])

lemma demo_tx_cfg_facts:
  "sn_size demo_tx_cfg = size12bits" "rb_type demo_tx_cfg = rb_drb" "rlc_mode demo_tx_cfg = rlc_am"
  "discard_timer demo_tx_cfg = Some 10" "custom_tx demo_tx_cfg = pdcp_default_custom_tx" "direction demo_tx_cfg = pdcp_uplink"
  by (simp_all add: demo_tx_cfg_def)

lemma demo_sent_eq:
  "demo_sent = tx_send_pdu [7] [0x80, 0, 7] (tx_add_sdus 1 (length [7::byte]) demo_tx)"
proof -
  define s where "s = tx_add_sdus 1 (length [7::byte]) demo_tx"
  have f: "tx_cfg s = demo_tx_cfg" "tx_next s = 0" "tx_sec_engine s = None"
    by (simp_all add: s_def tx_add_sdus_def demo_tx_facts)
  have n: "tx_check_notify s = s"
    by (simp add: tx_check_notify_def f demo_tx_cfg_facts pdcp_default_custom_tx_def pdcp_default_max_count_def
        pdcp_tx_default_max_count_notify_def)
  have h: "write_data_pdu_header True [7] (tx_SN s 0) s = Some (Some [0x80, 0, 7])"
    by (simp add: write_data_pdu_header_def Let_def tx_is_srb_def f demo_tx_cfg_facts tx_SN_def pdcp_compute_sn_def)
  have p: "apply_ciphering_and_integrity_protection toy_lib True [0x80, 0, 7] 0 s = Some (Inr [0x80, 0, 7])"
    by (simp add: apply_ciphering_and_integrity_protection_def f tx_is_srb_def demo_tx_cfg_facts)
  have "tx_protect_and_send toy_lib mem_ok [7] s = tx_send_pdu [7] [0x80, 0, 7] s"
    using h p by (simp add: tx_protect_and_send_def f mem_ok_def)
  moreover have "handle_sdu toy_lib mem_ok [7] demo_tx = tx_protect_and_send toy_lib mem_ok [7] (tx_check_notify s)"
    using f unfolding handle_sdu_def s_def [symmetric]
    by (simp add: Let_def demo_tx_facts demo_tx_cfg_facts pdcp_default_custom_tx_def
        pdcp_window_size_def pdcp_default_max_count_def pdcp_tx_default_max_count_hard_def)
  ultimately show ?thesis using n by (simp only: demo_sent_def s_def)
qed

lemma demo_sent_facts:
  "tx_inv demo_sent" "tx_cfg demo_sent = demo_tx_cfg" "tx_next demo_sent = 1" "tx_trans demo_sent = 0" "tx_next_ack demo_sent = 0"
  "cm_at (tx_window demo_sent) = [0 \<mapsto> \<lparr>ti_count = 0, ti_sdu = [7], ti_timer = True\<rparr>]"
  "tx_out demo_sent = [On_new_pdu (Some 0) [0x80, 0, 7] False]" "tx_sec_engine demo_sent = None"
proof -
  show "tx_inv demo_sent" using handle_sdu_inv [OF demo_tx_inv] by (simp add: demo_sent_def)
  have w: "cm_at (add_sn (cm_new 2048) (0 :: u32) i) = [0 \<mapsto> i]" for i :: pdcp_tx_sdu_info
    by (subst sw.look_add_free) (simp_all add: fun_eq_iff)
  show "tx_cfg demo_sent = demo_tx_cfg" "tx_next demo_sent = 1" "tx_trans demo_sent = 0" "tx_next_ack demo_sent = 0"
    "cm_at (tx_window demo_sent) = [0 \<mapsto> \<lparr>ti_count = 0, ti_sdu = [7], ti_timer = True\<rparr>]"
    "tx_out demo_sent = [On_new_pdu (Some 0) [0x80, 0, 7] False]" "tx_sec_engine demo_sent = None"
    by (simp_all add: demo_sent_eq tx_send_pdu_def Let_def tx_store_sdu_def tx_add_sdus_def demo_tx_facts demo_tx_cfg_facts
        write_data_pdu_to_lower_layers_def tx_emit_def tx_add_pdus_def pdcp_default_custom_tx_def w tx_is_am_def
        discard_timer_infinity_def)
qed


section \<open>Correctness\<close>

text \<open>C9. In every run of a transmitting entity, with re-establishments, notifications, status reports and expiring
  timers in any order: TX_NEXT_ACK <= TX_TRANS <= TX_NEXT, the window holds only SDUs between TX_NEXT_ACK and
  TX_NEXT, each under its own COUNT, and a bearer without discard timer keeps an empty window.\<close>

theorem tx_run_preserves_invariant:
  assumes "pdcp_entity_tx rb cfg = Some s" "tx_run lib s ops t"
  shows "tx_next_ack t \<le> tx_trans t \<and> tx_trans t \<le> tx_next t \<and> cm_wf (tx_window t) \<and>
    (\<forall>k i. cm_at (tx_window t) k = Some i \<longrightarrow> tx_next_ack t \<le> k \<and> k < tx_next t \<and> ti_count i = k) \<and>
    (discard_timer (tx_cfg t) = None \<longrightarrow> (\<forall>k. cm_at (tx_window t) k = None))"
  using tx_run_inv [OF assms(2) tx_inv_initial [OF assms(1)]] by (simp add: tx_inv_def)

lemma demo_tx_run: "tx_run toy_lib demo_tx [Tx_sdu mem_ok [7]] demo_sent"
  by (auto intro!: tx_run_Cons tx_run_Nil simp: demo_sent_def)

theorem tx_run_preserves_invariant_witness:
  "cm_wf (tx_window demo_sent) \<and> tx_trans demo_sent \<le> tx_next demo_sent \<and> cm_at (tx_window demo_sent) 0 \<noteq> None"
  using tx_run_preserves_invariant [OF demo_tx_facts(1) demo_tx_run] by (simp add: demo_sent_facts)

text \<open>C4. Between two re-establishments no COUNT protects two PDUs: the data PDUs sent for the first time
  carry exactly the COUNTs from the first TX_NEXT to the last, each once and in ascending order, and none
  reaches the hard limit.\<close>

theorem tx_run_uses_each_count_once:
  assumes "tx_run lib s ops t" "tx_inv s" "\<not> list_ex is_tx_reestablish ops"
  shows "\<exists>new. tx_out t = tx_out s @ new \<and> fresh_counts new = word_range (tx_next s) (tx_next t) \<and>
    distinct (fresh_counts new) \<and> (\<forall>c \<in> set (fresh_counts new). c < mc_hard (tx_max_count (custom_tx (tx_cfg s))))"
  using tx_run_extends [OF assms] by (auto simp: tx_extends_def)

theorem tx_run_uses_each_count_once_witness:
  "fresh_counts (tx_out demo_sent) = word_range 0 1 \<and> word_range 0 1 = [0 :: u32]"
  using tx_run_uses_each_count_once [OF demo_tx_run demo_tx_inv]
  by (simp add: demo_tx_facts demo_sent_facts word_range_def)

text \<open>Discarding a stored PDU tells the lower layer its sequence number, removes it and nothing else, and
  moves TX_NEXT_ACK to the oldest PDU left, or to TX_NEXT if none is; discarding any other COUNT has no effect.\<close>

theorem tx_discard_pdu_effect:
  assumes "tx_inv s"
  shows "if cm_at (tx_window s) c = None then discard_pdu c s = s
    else tx_out (discard_pdu c s) = tx_out s @ [On_discard_pdu (tx_SN s c)] \<and>
      cm_at (tx_window (discard_pdu c s)) = (cm_at (tx_window s))(c := None) \<and>
      tx_next (discard_pdu c s) = tx_next s \<and>
      (if \<forall>k. k \<noteq> c \<longrightarrow> cm_at (tx_window s) k = None then tx_next_ack (discard_pdu c s) = tx_next s
       else cm_at (tx_window (discard_pdu c s)) (tx_next_ack (discard_pdu c s)) \<noteq> None \<and>
         (\<forall>k < tx_next_ack (discard_pdu c s). cm_at (tx_window (discard_pdu c s)) k = None))"
proof (cases "cm_at (tx_window s) c = None")
  case True
  then show ?thesis using discard_pdu_ignored [OF assms] by simp
next
  case False
  obtain a where a: "discard_pdu c s =
      s\<lparr>tx_out := tx_out s @ [On_discard_pdu (tx_SN s c)], tx_window := remove_sn (tx_window s) c,
        tx_next_ack := a, tx_trans := max (tx_trans s) a\<rparr>"
    "\<And>k. k < a \<Longrightarrow> cm_at (remove_sn (tx_window s) c) k = None"
    "a = tx_next s \<or> cm_at (remove_sn (tx_window s) c) a \<noteq> None"
    by (rule discard_pdu_spec [OF assms False]) blast
  have wf: "cm_wf (tx_window s)" and key: "\<And>k. cm_at (tx_window s) k \<noteq> None \<Longrightarrow> k < tx_next s"
    using assms by (auto simp: tx_inv_def)
  have at: "cm_at (remove_sn (tx_window s) c) = (cm_at (tx_window s))(c := None)"
    using wf by (auto simp: window_simps)
  show ?thesis
  proof (cases "\<forall>k. k \<noteq> c \<longrightarrow> cm_at (tx_window s) k = None")
    case True
    then have "a = tx_next s" using a(3) by (auto simp: at split: if_splits)
    then show ?thesis using False a(1) at True by auto
  next
    case ex: False
    then obtain k where k: "k \<noteq> c" "cm_at (tx_window s) k \<noteq> None" by blast
    then have "\<not> k < a" using a(2) [of k] by (auto simp: at)
    then have "a \<noteq> tx_next s" using key [OF k(2)] by auto
    then show ?thesis using False a ex at by auto
  qed
qed

theorem tx_discard_pdu_effect_witness:
  "tx_out (discard_pdu 0 demo_sent) = [On_new_pdu (Some 0) [0x80, 0, 7] False, On_discard_pdu 0] \<and>
   tx_next_ack (discard_pdu 0 demo_sent) = 1"
  using tx_discard_pdu_effect [OF demo_sent_facts(1), of 0]
  by (simp add: demo_sent_facts tx_SN_def demo_tx_cfg_facts pdcp_compute_sn_def)


text \<open>A delivery notification for a COUNT in the window, on an AM bearer with discard timer, drops all SDUs
  up to this COUNT and no others; TX_NEXT_ACK moves behind it and TX_TRANS follows if it was lower.\<close>

theorem tx_delivery_clears_upto:
  assumes "tx_inv s" "tx_is_am s" "discard_timer (tx_cfg s) \<noteq> None"
    and "tx_next_ack s \<le> c" "c < tx_next s" "uint c < uint (tx_next_ack s) + uint (pdcp_window_size (sn_size (tx_cfg s)))"
  shows "tx_next_ack (handle_delivery_notification (tx_SN s c) s) = c + 1 \<and>
    tx_trans (handle_delivery_notification (tx_SN s c) s) = max (tx_trans s) (c + 1) \<and>
    tx_next (handle_delivery_notification (tx_SN s c) s) = tx_next s \<and>
    cm_at (tx_window (handle_delivery_notification (tx_SN s c) s)) =
      (\<lambda>j. if j \<le> c then None else cm_at (tx_window s) j)"
proof -
  have ok: "sn_size_ok (sn_size (tx_cfg s))" using assms(1) by (simp add: tx_inv_def)
  have "notification_count_estimation (tx_SN s c) s = c"
    unfolding notification_count_estimation_def tx_SN_def using assms(3)
    by (simp, intro count_estimation_exact [OF ok]) (use assms(4,6) in \<open>auto simp: word_le_def\<close>)
  moreover have "tx_SN s c < pdcp_sn_cardinality (sn_size (tx_cfg s))"
  proof -
    have "unat (tx_SN s c) < 2 ^ sn_bits (sn_size (tx_cfg s))" by (simp add: tx_SN_def unat_compute_sn)
    moreover have "unat (pdcp_sn_cardinality (sn_size (tx_cfg s))) = 2 ^ sn_bits (sn_size (tx_cfg s))"
      by (cases "sn_size (tx_cfg s)") (simp_all add: pdcp_sn_cardinality_def)
    ultimately show ?thesis by (simp add: word_less_nat_alt)
  qed
  ultimately have e: "handle_delivery_notification (tx_SN s c) s = stop_discard_timer c s"
    using assms(2,3,5) by (auto simp: handle_delivery_notification_def not_le)
  show ?thesis unfolding e
    by (rule stop_discard_timer_spec [OF assms(1,3,4,5)]) simp
qed

theorem tx_delivery_clears_upto_witness:
  "tx_next_ack (handle_delivery_notification 0 demo_sent) = 1 \<and>
   (\<forall>k. cm_at (tx_window (handle_delivery_notification 0 demo_sent)) k = None)"
proof -
  have "tx_SN demo_sent 0 = 0" by (simp add: tx_SN_def pdcp_compute_sn_def)
  then show ?thesis
    using tx_delivery_clears_upto [OF demo_sent_facts(1), of 0]
    by (simp add: demo_sent_facts tx_is_am_def demo_tx_cfg_facts pdcp_window_size_def)
qed

text \<open>What a retransmission of all stored SDUs sends.\<close>

definition protected_pdu :: "ssl_lib \<Rightarrow> pdcp_tx \<Rightarrow> u32 \<Rightarrow> bytes \<Rightarrow> bytes" where
  "protected_pdu lib s count sdu =
    (case write_data_pdu_header True sdu (tx_SN s count) s of
       Some (Some pdu) \<Rightarrow>
         (case apply_ciphering_and_integrity_protection lib True pdu count s of Some (Inr b) \<Rightarrow> b | _ \<Rightarrow> [])
     | _ \<Rightarrow> [])"

definition can_protect :: "ssl_lib \<Rightarrow> pdcp_tx \<Rightarrow> bool" where
  "can_protect lib s \<longleftrightarrow> (\<forall>count i pdu. cm_at (tx_window s) count = Some i \<longrightarrow>
     write_data_pdu_header True (ti_sdu i) (tx_SN s count) s = Some (Some pdu) \<longrightarrow>
     (\<exists>b. apply_ciphering_and_integrity_protection lib True pdu count s = Some (Inr b)))"

definition retx_events :: "ssl_lib \<Rightarrow> pdcp_tx \<Rightarrow> u32 list \<Rightarrow> tx_event list" where
  "retx_events lib s ks = List.map_filter (\<lambda>k. map_option
     (\<lambda>i. On_new_pdu (Some k) (protected_pdu lib s k (ti_sdu i)) True) (cm_at (tx_window s) k)) ks"

lemma retx_events_simps [simp]:
  "retx_events lib s [] = []"
  "retx_events lib s (k # ks) = (case cm_at (tx_window s) k of None \<Rightarrow> []
     | Some i \<Rightarrow> [On_new_pdu (Some k) (protected_pdu lib s k (ti_sdu i)) True]) @ retx_events lib s ks"
  by (auto simp: retx_events_def map_filter_simps split: option.splits)

lemma header_written:
  assumes "tx_inv s"
  obtains pdu where "write_data_pdu_header True sdu sn s = Some (Some pdu)"
  using assms by (cases "sn_size (tx_cfg s)") (auto simp: write_data_pdu_header_def Let_def tx_inv_def sn_size_ok_def)

lemma retransmit_loop_out:
  assumes "tx_inv s" "can_protect lib s" "tx_same_sec s t" "tx_window t = tx_window s"
  shows "tx_out (tx_retransmit_loop lib mem_ok ks t) = tx_out t @ retx_events lib s ks \<and>
    tx_window (tx_retransmit_loop lib mem_ok ks t) = tx_window t \<and>
    tx_trans (tx_retransmit_loop lib mem_ok ks t) = tx_trans t"
  using assms(3,4)
proof (induction ks arbitrary: t)
  case (Cons k ks)
  show ?case
  proof (cases "cm_at (tx_window s) k")
    case None
    then show ?thesis using Cons by simp
  next
    case (Some i)
    have ti: "ti_count i = k" using Some assms(1) by (simp add: tx_inv_def)
    obtain pdu where h: "write_data_pdu_header True (ti_sdu i) (tx_SN s k) s = Some (Some pdu)"
      by (rule header_written [OF assms(1)])
    then obtain b where b: "apply_ciphering_and_integrity_protection lib True pdu k s = Some (Inr b)"
      using assms(2) Some unfolding can_protect_def by blast
    have p: "protected_pdu lib s k (ti_sdu i) = b" by (simp add: protected_pdu_def h b)
    let ?t = "write_data_pdu_to_lower_layers k b True t"
    have "tx_same_sec s ?t" "tx_window ?t = tx_window s"
      using Cons.prems by (simp_all add: tx_same_sec_def write_data_pdu_to_lower_layers_def tx_emit_def tx_add_pdus_def)
    from Cons.IH [OF this] show ?thesis
      using Some ti h b p Cons.prems(2) by (simp add: mem_ok_def same_sec_frame [OF Cons.prems(1)] frame_simps)
  qed
qed simp

text \<open>Retransmission: when memory suffices and the engine succeeds, every stored SDU is sent again, protected
  under its own COUNT and marked as retransmission, in ascending order of COUNT; TX_TRANS goes back to
  TX_NEXT_ACK and the window stays.\<close>

theorem tx_retransmits_stored_in_order:
  assumes "tx_inv s" "tx_is_am s" "discard_timer (tx_cfg s) \<noteq> None" "can_protect lib s"
  shows "tx_out (retransmit_all_pdus lib mem_ok s) =
      tx_out s @ retx_events lib s (word_range (tx_next_ack s) (tx_next s)) \<and>
    tx_window (retransmit_all_pdus lib mem_ok s) = tx_window s \<and>
    tx_trans (retransmit_all_pdus lib mem_ok s) = tx_next_ack s"
proof -
  have "tx_same_sec s (s\<lparr>tx_trans := tx_next_ack s\<rparr>)" by (simp add: tx_same_sec_def)
  from retransmit_loop_out [OF assms(1,4) this] show ?thesis
    using assms(2,3) by (auto simp: retransmit_all_pdus_def Let_def)
qed


theorem tx_retransmits_stored_in_order_witness:
  "tx_out (retransmit_all_pdus toy_lib mem_ok demo_sent) =
    [On_new_pdu (Some 0) [0x80, 0, 7] False, On_new_pdu (Some 0) [0x80, 0, 7] True]"
proof -
  have srb: "\<not> tx_is_srb demo_sent" by (simp add: tx_is_srb_def demo_sent_facts demo_tx_cfg_facts)
  have a: "apply_ciphering_and_integrity_protection toy_lib True pdu c demo_sent = Some (Inr pdu)" for pdu c
    using srb by (simp add: apply_ciphering_and_integrity_protection_def demo_sent_facts)
  have h: "write_data_pdu_header True [7] (tx_SN demo_sent 0) demo_sent = Some (Some [0x80, 0, 7])"
    using srb by (simp add: write_data_pdu_header_def Let_def demo_sent_facts demo_tx_cfg_facts tx_SN_def pdcp_compute_sn_def)
  have "can_protect toy_lib demo_sent" by (simp add: can_protect_def a)
  moreover have "word_range 0 (1 :: u32) = [0]" by (simp add: word_range_def)
  moreover have "protected_pdu toy_lib demo_sent 0 [7] = [0x80, 0, 7]" by (simp add: protected_pdu_def h a)
  ultimately show ?thesis
    using tx_retransmits_stored_in_order [OF demo_sent_facts(1), of toy_lib]
    by (simp add: demo_sent_facts tx_is_am_def demo_tx_cfg_facts)
qed

text \<open>Nothing keeps TX_NEXT within a window of TX_NEXT_ACK: if the SDU one window below TX_NEXT is still
  stored (an AM bearer whose PDUs were sent but not yet acknowledged), storing the next SDU removes it. The
  lower layer gets no discard notification for it and TX_NEXT_ACK is not moved, although the code means to
  discard such an element first: its test looks for TX_NEXT itself and never fires.\<close>

theorem tx_full_window_overwrites_silently:
  assumes "tx_inv s" "cm_at (tx_window s) k \<noteq> None"
    and "tx_next s = k + pdcp_window_size (sn_size (tx_cfg s))"
  shows "cm_at (tx_window (tx_store_sdu sdu s)) k = None \<and> tx_out (tx_store_sdu sdu s) = tx_out s \<and>
    tx_next_ack (tx_store_sdu sdu s) = tx_next_ack s"
proof -
  let ?W = "pdcp_window_size (sn_size (tx_cfg s))"
  obtain t where t: "discard_timer (tx_cfg s) = Some t" using assms(1,2) by (auto simp: tx_inv_def)
  have wf: "cm_wf (tx_window s)" and sz: "cm_size (tx_window s) = unat ?W" and lt: "k < tx_next s"
    using assms(1,2) by (auto simp: tx_inv_def)
  have "\<not> k + ?W < k" using lt assms(3) by auto
  then have "unat (tx_next s) = unat k + unat ?W"
    unfolding assms(3) by (meson not_le unat_plus_simple)
  then have "cm_idx (tx_window s) k = cm_idx (tx_window s) (tx_next s)"
    by (simp add: cm_idx_def sz)
  then show ?thesis
    using t less_imp_neq [OF lt] by (simp add: store_sdu_eq [OF assms(1)] sw.look_add [OF wf])
qed

theorem tx_full_window_overwrites_silently_witness:
  "let s = demo_sent\<lparr>tx_next := 2048, tx_trans := 2048\<rparr>
   in tx_next s - tx_trans s = 0 \<and> cm_at (tx_window s) 0 \<noteq> None \<and> cm_at (tx_window (tx_store_sdu [8] s)) 0 = None"
proof -
  let ?s = "demo_sent\<lparr>tx_next := 2048, tx_trans := 2048\<rparr>"
  have "tx_inv ?s"
  proof -
    have w: "cm_wf (tx_window demo_sent)" "cm_size (tx_window demo_sent) = 2048"
      using demo_sent_facts(1) unfolding tx_inv_def
      by (simp_all add: demo_sent_facts(2) demo_tx_cfg_facts pdcp_window_size_def)
    have "(\<exists>i. cm_at (tx_window demo_sent) k = Some i \<and> ti_count i = n) \<Longrightarrow> k = 0 \<and> n = 0" for k n
      by (auto simp: demo_sent_facts(6) split: if_splits)
    then have "cm_at (tx_window demo_sent) k = Some i \<Longrightarrow> 0 \<le> k \<and> k < 2048 \<and> ti_count i = k" for k i
      by fastforce
    then show ?thesis
      unfolding tx_inv_def tx_is_srb_def using w
      by (simp add: demo_sent_facts(2,5) demo_tx_cfg_facts sn_size_ok_def pdcp_window_size_def)
  qed
  from tx_full_window_overwrites_silently [OF this, of 0 "[8]"] show ?thesis
    by (simp add: demo_sent_facts demo_tx_cfg_facts pdcp_window_size_def)
qed

end
