(* ===== verification/Pdcp_E2e.thy ===== *)
theory Pdcp_E2e
  imports Pdcp_Rx_Props Pdcp_Tx_Props
begin

text \<open>
  What the two PDCP entities and RLC's view of a PDCP header promise each other: a header that is written is
  read back, an SDU that is sent is received, a status report clears exactly what it reports.
\<close>

section \<open>Headers\<close>

lemma upt8: "[0..<8] = [0, 1, 2, 3, 4, 5, 6, 7 :: nat]"
  by (simp add: upt_rec)

lemma header_byte_bits:
  fixes sn :: u32
  shows "byte_bits (0x80 OR ucast (drop_bit 8 (sn AND 0x00000f00))) = [True, False, False, False] @ to_bits 4 (drop_bit 8 sn)"
    "byte_bits (0x00 OR ucast (drop_bit 8 (sn AND 0x00000f00))) = [False, False, False, False] @ to_bits 4 (drop_bit 8 sn)"
    "byte_bits (0x80 OR ucast (drop_bit 16 (sn AND 0x00030000))) = [True, False, False, False, False, False] @ to_bits 2 (drop_bit 16 sn)"
    "byte_bits (ucast (drop_bit 8 (sn AND 0x0000ff00))) = to_bits 8 (drop_bit 8 sn)"
    "byte_bits (ucast (sn AND 0x000000ff)) = to_bits 8 sn"
  by (simp_all add: byte_bits_def to_bits_def upt_rec bit_simps)


definition hdr_pad :: "pdcp_sn_size \<Rightarrow> nat" where
  "hdr_pad sz = (if sz = size12bits then 3 else 5)"

definition hdr_bytes :: "pdcp_sn_size \<Rightarrow> bool \<Rightarrow> u32 \<Rightarrow> bytes" where
  "hdr_bytes sz srb sn =
    (let d = (if \<not> srb then 0x80 else 0x00) in
     case sz of
       size12bits \<Rightarrow> [d OR ucast (drop_bit 8 (sn AND 0x00000f00)), ucast (sn AND 0x000000ff)]
     | size18bits \<Rightarrow> [d OR ucast (drop_bit 16 (sn AND 0x00030000)), ucast (drop_bit 8 (sn AND 0x0000ff00)),
                      ucast (sn AND 0x000000ff)]
     | sn_size_invalid \<Rightarrow> [])"

lemma write_header_iff:
  "write_data_pdu_header ok buf sn s = Some (Some pdu) \<longleftrightarrow>
    ok \<and> sn_size_ok (sn_size (tx_cfg s)) \<and> \<not> (tx_is_srb s \<and> sn_size (tx_cfg s) = size18bits) \<and>
    pdu = hdr_bytes (sn_size (tx_cfg s)) (tx_is_srb s) sn @ buf"
  by (cases "sn_size (tx_cfg s)"; cases "tx_is_srb s")
    (auto simp: write_data_pdu_header_def hdr_bytes_def Let_def sn_size_ok_def)

lemma length_hdr_bytes: "sn_size_ok sz \<Longrightarrow> length (hdr_bytes sz srb sn) = sec_hdr_size sz"
  by (cases sz) (simp_all add: hdr_bytes_def sec_hdr_size_def Let_def sn_size_ok_def)

lemma hdr_bytes_bits:
  assumes "sn_size_ok sz" "\<not> (srb \<and> sz = size18bits)"
  shows "bytes_bits (hdr_bytes sz srb sn) = (\<not> srb) # replicate (hdr_pad sz) False @ to_bits (sn_bits sz) sn"
proof -
  have t12: "to_bits 12 sn = to_bits 4 (drop_bit 8 sn) @ to_bits 8 sn"
    using to_bits_split [of 4 12 sn] by simp
  have t18: "to_bits 18 sn = to_bits 2 (drop_bit 16 sn) @ to_bits 8 (drop_bit 8 sn) @ to_bits 8 sn"
    using to_bits_split [of 2 18 sn] to_bits_split [of 8 16 sn] by simp
  have r: "replicate 3 False = [False, False, False]" "replicate 5 False = [False, False, False, False, False]"
    by (simp_all add: eval_nat_numeral)
  consider "sz = size12bits" "srb" | "sz = size12bits" "\<not> srb" | "sz = size18bits" "\<not> srb"
    using assms by (cases sz) (auto simp: sn_size_ok_def)
  then show ?thesis
    by cases
      (simp_all only: hdr_bytes_def Let_def pdcp_sn_size.case bytes_bits_simps header_byte_bits hdr_pad_def r t12 t18
        pdcp_sn_size_to_uint.simps simp_thms if_True if_False append.simps append_assoc append_Nil2 pdcp_sn_size.distinct)
qed


lemma sn_of_bytes12:
  "push_bit 8 (ucast b0 AND 0x0f) OR (ucast b1 AND 0xff) = (bits_val (drop 4 (byte_bits b0 @ byte_bits b1)) :: u32)"
  unfolding u32_masks
  by (rule bit_word_eqI)
    (auto simp: bit_bits_val bit_or_iff bit_push_bit_iff bit_take_bit_iff bit_ucast_iff nth_append nth_byte_bits
      dest: bit_imp_le_length)

lemma sn_of_bytes18:
  "(push_bit 16 (ucast b0 AND 0x03) OR push_bit 8 (ucast b1 AND 0xff)) OR (ucast b2 AND 0xff) =
    (bits_val (drop 6 (byte_bits b0 @ byte_bits b1 @ byte_bits b2)) :: u32)"
  unfolding u32_masks
  by (rule bit_word_eqI)
    (auto simp: bit_bits_val bit_or_iff bit_push_bit_iff bit_take_bit_iff bit_ucast_iff nth_append nth_byte_bits
      dest: bit_imp_le_length)

lemma take_bit_sn: "uint (sn :: u32) < 2 ^ k \<Longrightarrow> take_bit k sn = sn"
  by (simp add: word_uint_eq_iff unsigned_take_bit_eq take_bit_int_eq_self)

lemma dc_of_first: "pdcp_pdu_get_dc b = (if hd (byte_bits b) then dc_data else dc_control)"
proof -
  have "(drop_bit 7 b AND 1 = 0) = (\<not> bit b 7)"
    by (simp add: and_one_eq bit_iff_odd_drop_bit even_iff_mod_2_eq_zero)
  then show ?thesis by (simp add: pdcp_pdu_get_dc_def byte_bits_def upt_rec)
qed

lemma take_nth_eq: "take n x = ys \<Longrightarrow> n \<le> length x \<Longrightarrow> i < n \<Longrightarrow> x ! i = ys ! i"
  by auto

text \<open>Whatever follows a written header, and however the rest was ciphered, the header reads back.\<close>

lemma read_written_header:
  assumes "sn_size_ok sz" "\<not> (srb \<and> sz = size18bits)" "uint sn < 2 ^ sn_bits sz" "sn_size (rx_cfg r) = sz"
    and "take (sec_hdr_size sz) x = hdr_bytes sz srb sn" "sec_hdr_size sz < length x"
  shows "read_data_pdu_header r x = Some sn \<and> pdcp_pdu_get_dc (hd x) = (if srb then dc_control else dc_data)"
proof (cases sz)
  case size12bits
  then obtain b0 b1 y where x: "x = b0 # b1 # y" "y \<noteq> []"
    using assms(6) by (cases x; cases "tl x") (auto simp: sec_hdr_size_def)
  then have h: "hdr_bytes sz srb sn = [b0, b1]" using assms(5) size12bits by (simp add: sec_hdr_size_def)
  have b: "byte_bits b0 @ byte_bits b1 = (\<not> srb) # replicate 3 False @ to_bits 12 sn"
    using hdr_bytes_bits [OF assms(1,2), of sn] h size12bits by (simp add: hdr_pad_def)
  then have "hd (byte_bits b0) = (\<not> srb)"
    by (metis hd_append2 length_byte_bits length_0_conv list.sel(1) zero_neq_numeral)
  moreover have d: "drop 4 (byte_bits b0 @ byte_bits b1) = to_bits 12 sn" unfolding b by (simp add: eval_nat_numeral)
  moreover have "push_bit 8 (ucast b0 AND 0x0f) OR (ucast b1 AND 0xff) = sn"
    using assms(3) size12bits by (simp only: sn_of_bytes12 d bits_val_to_bits pdcp_sn_size_to_uint.simps take_bit_sn)
  ultimately show ?thesis
    using x assms(4) size12bits
    by (auto simp: read_data_pdu_header_def rx_hdr_len_def pdcp_data_pdu_header_size_def dc_of_first)
next
  case size18bits
  then obtain b0 b1 b2 y where x: "x = b0 # b1 # b2 # y" "y \<noteq> []"
    using assms(6) by (cases x; cases "tl x"; cases "tl (tl x)") (auto simp: sec_hdr_size_def)
  then have h: "hdr_bytes sz srb sn = [b0, b1, b2]" using assms(5) size18bits by (simp add: sec_hdr_size_def)
  have b: "byte_bits b0 @ byte_bits b1 @ byte_bits b2 = (\<not> srb) # replicate 5 False @ to_bits 18 sn"
    using hdr_bytes_bits [OF assms(1,2), of sn] h size18bits by (simp add: hdr_pad_def)
  then have "hd (byte_bits b0) = (\<not> srb)"
    by (metis hd_append2 length_byte_bits length_0_conv list.sel(1) zero_neq_numeral)
  moreover have d: "drop 6 (byte_bits b0 @ byte_bits b1 @ byte_bits b2) = to_bits 18 sn" unfolding b by (simp add: eval_nat_numeral)
  moreover have "(push_bit 16 (ucast b0 AND 0x03) OR push_bit 8 (ucast b1 AND 0xff)) OR (ucast b2 AND 0xff) = sn"
    using assms(3) size18bits by (simp only: sn_of_bytes18 d bits_val_to_bits pdcp_sn_size_to_uint.simps take_bit_sn)
  ultimately show ?thesis
    using x assms(4) size18bits
    by (auto simp: read_data_pdu_header_def rx_hdr_len_def pdcp_data_pdu_header_size_def dc_of_first)
qed (use assms(1) in \<open>simp add: sn_size_ok_def\<close>)


lemma bits_val_single [simp]: "bits_val [b] = (if b then 1 else 0)"
  by (simp add: bits_val_def)

lemma bits_val_zeros [simp]: "bits_val (replicate n False) = 0"
  by (rule bit_word_eqI) (simp add: bit_bits_val)

lemma get_sn_written:
  assumes "sn_size_ok sz" "\<not> (srb \<and> sz = size18bits)" "uint sn < 2 ^ sn_bits sz"
    and "bytes_bits x = (\<not> srb) # replicate (hdr_pad sz) False @ to_bits (sn_bits sz) sn @ rest"
  shows "get_pdcp_sn x sz srb = Some sn"
proof -
  define d where "d = bit_decoder_init x"
  let ?r = "hdr_pad sz" and ?n = "sn_bits sz"
  have b: "dec_bits d = (\<not> srb) # replicate ?r False @ to_bits ?n sn @ rest" using assms(4) by (simp add: d_def)
  have w0: "dec_wf d" by (simp add: d_def)
  have u1: "unpack 1 d = (True, (if srb then 0 else 1 :: byte), dec_advance 1 d)"
    using unpack_correct [OF w0, of 1, where 'a = 8] by (simp add: b)
  have w1: "dec_wf (dec_advance 1 d)" by (rule dec_wf_advance [OF w0]) (simp add: b)
  have u2: "unpack ?r (dec_advance 1 d) = (True, 0 :: byte, dec_advance (1 + ?r) d)"
    using unpack_correct [OF w1, of ?r, where 'a = 8] by (simp add: b dec_advance_advance)
  have w2: "dec_wf (dec_advance (1 + ?r) d)" by (rule dec_wf_advance [OF w0]) (simp add: b)
  have u3: "unpack ?n (dec_advance (1 + ?r) d) = (True, sn, dec_advance (1 + ?r + ?n) d)"
    using unpack_correct [OF w2, of ?n, where 'a = 32] take_bit_sn [OF assms(3)]
    by (simp add: b dec_advance_advance bits_val_to_bits)
  have ne: "x \<noteq> []" using assms(4) by auto
  show ?thesis
  proof (cases sz)
    case size12bits
    then show ?thesis using ne u1 u2 u3 assms(2) by (simp add: get_pdcp_sn_def hdr_pad_def d_def [symmetric])
  next
    case size18bits
    then show ?thesis using ne u1 u2 u3 assms(2) by (simp add: get_pdcp_sn_def hdr_pad_def d_def [symmetric])
  qed (use assms(1) in \<open>simp add: sn_size_ok_def\<close>)
qed

text \<open>The header the transmitter writes in front of an SDU carries the sequence number to both of its readers: the
  receiving entity reads it, and so does RLC's \<open>get_pdcp_sn\<close>; the first bit marks DRB data PDUs, and the
  SDU follows the header unchanged.\<close>

theorem pdcp_header_roundtrip:
  assumes "write_data_pdu_header ok sdu sn s = Some (Some pdu)" "uint sn < 2 ^ sn_bits (sn_size (tx_cfg s))"
    and "sn_size (rx_cfg r) = sn_size (tx_cfg s)" "sdu \<noteq> []"
  shows "read_data_pdu_header r pdu = Some sn \<and> get_pdcp_sn pdu (sn_size (tx_cfg s)) (tx_is_srb s) = Some sn \<and>
    pdcp_pdu_get_dc (hd pdu) = (if tx_is_srb s then dc_control else dc_data) \<and>
    drop (sec_hdr_size (sn_size (tx_cfg s))) pdu = sdu"
proof -
  let ?sz = "sn_size (tx_cfg s)"
  have w: "sn_size_ok ?sz" "\<not> (tx_is_srb s \<and> ?sz = size18bits)" "pdu = hdr_bytes ?sz (tx_is_srb s) sn @ sdu"
    using assms(1) by (simp_all add: write_header_iff)
  have l: "take (sec_hdr_size ?sz) pdu = hdr_bytes ?sz (tx_is_srb s) sn" "drop (sec_hdr_size ?sz) pdu = sdu"
    "sec_hdr_size ?sz < length pdu"
    using assms(4) by (simp_all add: w(3) length_hdr_bytes [OF w(1)])
  have "bytes_bits pdu = (\<not> tx_is_srb s) # replicate (hdr_pad ?sz) False @ to_bits (sn_bits ?sz) sn @ bytes_bits sdu"
    by (simp add: w(3) hdr_bytes_bits [OF w(1,2)])
  from get_sn_written [OF w(1,2) assms(2) this] read_written_header [OF w(1,2) assms(2,3) l(1,3)] l(2)
  show ?thesis by simp
qed

theorem pdcp_header_roundtrip_witness:
  "\<exists>pdu. write_data_pdu_header True [9] 0x123 demo_tx = Some (Some pdu) \<and> read_data_pdu_header demo_rx pdu = Some 0x123"
proof -
  have srb: "\<not> tx_is_srb demo_tx" by (simp add: tx_is_srb_def demo_tx_facts demo_tx_cfg_facts)
  then obtain pdu where p: "write_data_pdu_header True [9] 0x123 demo_tx = Some (Some pdu)"
    using header_written [OF demo_tx_inv] by blast
  have "sn_size (rx_cfg demo_rx) = sn_size (tx_cfg demo_tx)"
    by (simp add: demo_tx_facts demo_rx_facts demo_tx_cfg_facts) (simp add: demo_rx_cfg_def)
  from pdcp_header_roundtrip [OF p _ this] p show ?thesis by (auto simp: demo_tx_facts demo_tx_cfg_facts)
qed


section \<open>From sender to receiver\<close>

definition emits :: "pdcp_tx \<Rightarrow> pdcp_tx \<Rightarrow> tx_event \<Rightarrow> bool" where
  "emits s t e \<longleftrightarrow> e \<in> set (drop (length (tx_out s)) (tx_out t))"

lemma fresh_event: "On_new_pdu (Some c) b False \<in> set es \<Longrightarrow> c \<in> set (fresh_counts es)"
  by (induction es) (auto split: option.splits)

lemma quiet_emits_nothing: "tx_quiet s t \<Longrightarrow> \<not> emits s t (On_new_pdu (Some c) b False)"
  by (auto simp: tx_quiet_def emits_def dest: fresh_event)

lemma handle_sdu_emits:
  assumes "tx_inv s" "emits s (handle_sdu lib mem sdu s) (On_new_pdu (Some c) x False)"
  obtains pdu where "c = tx_next s" "write_data_pdu_header (mem_prepend mem c) sdu (tx_SN s c) s = Some (Some pdu)"
    "apply_ciphering_and_integrity_protection lib (mem_append mem c) pdu c s = Some (Inr x)"
proof (rule handle_sdu_cases [OF assms(1), of lib mem sdu])
  assume "tx_quiet s (handle_sdu lib mem sdu s)"
  then show thesis using quiet_emits_nothing assms(2) by blast
next
  fix s1 pdu b
  assume h: "tx_quiet s s1" "tx_next s < mc_hard (tx_max_count (custom_tx (tx_cfg s)))"
    "write_data_pdu_header (mem_prepend mem (tx_next s)) sdu (tx_SN s (tx_next s)) s = Some (Some pdu)"
    "apply_ciphering_and_integrity_protection lib (mem_append mem (tx_next s)) pdu (tx_next s) s = Some (Inr b)"
    "handle_sdu lib mem sdu s = tx_send_pdu sdu b s1"
  have n1: "tx_next s1 = tx_next s" using h(1) by (simp add: tx_quiet_def)
  have lt: "tx_next s1 < - 1" using below_limit [OF h(2)] n1 by simp
  obtain xs where xs: "tx_out s1 = tx_out s @ xs" "fresh_counts xs = []" using h(1) by (auto simp: tx_quiet_def)
  obtain ys where ys: "tx_out (tx_send_pdu sdu b s1) = tx_out s1 @ On_new_pdu (Some (tx_next s1)) b False # ys" "fresh_counts ys = []"
    using send_pdu_spec [OF tx_quiet_inv [OF h(1) assms(1)] lt, of sdu b] by blast
  have "On_new_pdu (Some c) x False = On_new_pdu (Some (tx_next s)) b False"
    using assms(2) xs ys fresh_event [of c x xs] fresh_event [of c x ys] n1 by (auto simp: emits_def h(5))
  then show thesis using h(3,4) by (intro that) simp_all
qed

text \<open>The engines of both sides agree, and so do the configurations of the bearer.\<close>

definition peers :: "pdcp_tx \<Rightarrow> pdcp_rx \<Rightarrow> bool" where
  "peers s r \<longleftrightarrow> sn_size (rx_cfg r) = sn_size (tx_cfg s) \<and> rb_type (rx_cfg r) = rb_type (tx_cfg s) \<and>
    rx_sec_engine r = tx_sec_engine s"

text \<open>Undoing the protection, with the receiver's helper: the same buffer comes out, its header in clear.\<close>

lemma unprotect:
  assumes "peers s r" "apply_ciphering_and_integrity_protection lib ok pdu c s = Some (Inr x)"
    and "tx_sec_hdr_size s < length pdu" "sn_size (rx_cfg r1) = sn_size (rx_cfg r)" "rb_type (rx_cfg r1) = rb_type (rx_cfg r)"
    "rx_sec_engine r1 = rx_sec_engine r"
  shows "fst (apply_deciphering_and_integrity_check lib x c r1) = Some (Inr pdu) \<and>
    take (tx_sec_hdr_size s) x = take (tx_sec_hdr_size s) pdu \<and> length pdu \<le> length x"
proof -
  have p: "pdu \<noteq> []" using assms(3) by (metis list.size(3) not_less_zero)
  have srb: "rx_is_srb r1 = tx_is_srb s" using assms(1,5) by (simp add: peers_def rx_is_srb_def tx_is_srb_def)
  have hdr: "sec_hdr_size (sn_size (rx_cfg r1)) = tx_sec_hdr_size s"
    using assms(1,4) by (simp add: peers_def sec_hdr_size_def tx_sec_hdr_size_def)
  show ?thesis
  proof (cases "tx_sec_engine s")
    case None
    then have n: "rx_sec_engine r1 = None" using assms(1,6) by (simp add: peers_def)
    show ?thesis
    proof (cases "tx_is_srb s")
      case True
      then have x: "x = pdu @ replicate sec_mac_len 0"
        using assms(2) None by (auto simp: apply_ciphering_and_integrity_protection_def split: if_splits)
      have "sec_mac_len < length x" using p by (simp add: x)
      then show ?thesis using True None n srb assms(3) by (simp add: apply_deciphering_and_integrity_check_def x)
    next
      case False
      then have "x = pdu" using assms(2) None by (simp add: apply_ciphering_and_integrity_protection_def)
      then show ?thesis using False n srb by (simp add: apply_deciphering_and_integrity_check_def)
    qed
  next
    case (Some eng)
    then obtain c' where e: "encrypt_and_protect_integrity lib ok eng pdu (tx_sec_hdr_size s) c = Some (Inr x, c')"
      using assms(2) by (auto simp: apply_ciphering_and_integrity_protection_def split: option.splits sum.splits prod.splits)
    have l: "tx_sec_hdr_size s \<le> length pdu" using assms(3) by simp
    have "rx_sec_engine r1 = Some eng" using Some assms(1,6) by (simp add: peers_def)
    then have "fst (apply_deciphering_and_integrity_check lib x c r1) = Some (Inr pdu)"
      using sec.check_protect [OF e p l] by (simp add: apply_deciphering_and_integrity_check_def hdr)
    then show ?thesis using sec.protect_header [OF e l] sec.protect_length [OF e] by simp
  qed
qed

lemma handle_data_pdu_accepts:
  assumes "read_data_pdu_header s pdu = Some sn" "count_estimation (sn_size (rx_cfg s)) (rx_deliv s) sn = c"
    and "c < mc_hard (rx_max_count (custom_rx (rx_cfg s)))"
    and "fst (apply_deciphering_and_integrity_check lib pdu c (snd (rx_check_max_count c s))) = Some (Inr buf)"
  shows "\<exists>t. rx_quiet s t \<and>
    handle_data_pdu lib pdu s = rx_process_sdu c (drop (sec_hdr_size (sn_size (rx_cfg s))) buf) t"
proof -
  define s1 where "s1 = snd (rx_check_max_count c s)"
  define t where "t = snd (apply_deciphering_and_integrity_check lib pdu c s1)"
  have q: "rx_quiet s t" unfolding t_def s1_def by (rule rx_quiet_trans [OF rx_quiet_check rx_quiet_decipher])
  have len: "\<not> length pdu \<le> rx_hdr_len s" using assms(1) by (auto simp: read_data_pdu_header_def)
  have chk: "rx_check_max_count c s = (True, s1)"
    using rx_check_max_count_limit [of c s] assms(3) by (simp add: s1_def prod_eq_iff)
  have dec: "apply_deciphering_and_integrity_check lib pdu c s1 = (Some (Inr buf), t)"
    using assms(4) by (simp add: s1_def t_def prod_eq_iff)
  have "handle_data_pdu lib pdu s = rx_process_sdu c (drop (sec_hdr_size (sn_size (rx_cfg t))) buf) t"
    using len by (simp add: handle_data_pdu_def assms(1,2) chk dec Let_def)
  then show ?thesis using q by (auto simp: rx_quiet_def rx_same_def)
qed

lemma conserves_stored:
  assumes "rx_conserves A s t" "A c = Some i"
  obtains new where "rx_out t = rx_out s @ new" "cm_at (rx_window t) c \<noteq> None \<or> On_new_sdu c (ri_sdu i) \<in> set new"
  using assms unfolding rx_conserves_def by (metis option.distinct(1))

lemma process_acceptable:
  assumes "rx_inv s" "rx_acceptable s c"
  shows "rx_inv (rx_process_sdu c sdu s) \<and>
    rx_conserves ((cm_at (rx_window s))(c \<mapsto> \<lparr>ri_sdu = sdu, ri_count = c\<rparr>)) s (rx_process_sdu c sdu s) \<and>
    (c = rx_deliv s \<longrightarrow> On_new_sdu c sdu \<in> set (rx_out (rx_process_sdu c sdu s)))"
proof -
  have "rx_process_sdu c sdu s = rx_store_and_deliver c sdu s"
    using assms(2) unfolding rx_acceptable_def rx_process_sdu_def by (simp add: leD)
  then have t: "rx_inv (rx_process_sdu c sdu s)" "rx_extends s (rx_process_sdu c sdu s)"
    "rx_conserves ((cm_at (rx_window s))(c \<mapsto> \<lparr>ri_sdu = sdu, ri_count = c\<rparr>)) s (rx_process_sdu c sdu s)"
    using store_and_deliver_inv [OF assms, of sdu] by simp_all
  obtain new where n: "rx_out (rx_process_sdu c sdu s) = rx_out s @ new"
    "cm_at (rx_window (rx_process_sdu c sdu s)) c \<noteq> None \<or> On_new_sdu c sdu \<in> set new"
    using conserves_stored [OF t(3), of c "\<lparr>ri_sdu = sdu, ri_count = c\<rparr>"] by (metis fun_upd_same pdcp_rx_sdu_info.select_convs(1))
  have "rx_deliv s < c" if "cm_at (rx_window (rx_process_sdu c sdu s)) c \<noteq> None"
    using that t(1,2) by (auto simp: rx_inv_def rx_core_def rx_extends_def intro: le_less_trans)
  then show ?thesis using t n by auto
qed

text \<open>C1. What the transmitter sends, the receiver gets: the PDU that \<open>handle_sdu\<close> hands to RLC, whatever
  ciphering and integrity protection the bearer uses, is accepted by the peer entity as exactly that SDU under
  exactly that COUNT, provided the COUNT lies in the receive window, below the hard limit, and was not received
  before. Nothing that was stored is lost, and the SDU is delivered at once when it is the next one.\<close>

theorem pdcp_tx_rx_roundtrip:
  assumes "tx_inv s" "emits s (handle_sdu lib mem sdu s) (On_new_pdu (Some c) x False)" "sdu \<noteq> []"
    and "rx_inv r" "peers s r" "rx_deliv r \<le> c" "uint c < uint (rx_deliv r) + uint (rx_ws r)"
    and "c < mc_hard (rx_max_count (custom_rx (rx_cfg r)))" "cm_at (rx_window r) c = None"
  shows "rx_inv (handle_pdu lib True x r) \<and>
    rx_conserves ((cm_at (rx_window r))(c \<mapsto> \<lparr>ri_sdu = sdu, ri_count = c\<rparr>)) r (handle_pdu lib True x r) \<and>
    (c = rx_deliv r \<longrightarrow> On_new_sdu c sdu \<in> set (rx_out (handle_pdu lib True x r)))"
proof -
  obtain pdu where w: "write_data_pdu_header (mem_prepend mem c) sdu (tx_SN s c) s = Some (Some pdu)"
    "apply_ciphering_and_integrity_protection lib (mem_append mem c) pdu c s = Some (Inr x)"
    by (rule handle_sdu_emits [OF assms(1,2)])
  let ?sz = "sn_size (tx_cfg s)" and ?r = "rx_add_pdus 1 (length x) r"
  have q0: "rx_quiet r ?r" by simp
  have same: "rx_cfg ?r = rx_cfg r" "rx_deliv ?r = rx_deliv r" "rx_window ?r = rx_window r"
    using q0 by (simp_all add: rx_quiet_def rx_same_def)
  have cfg: "sn_size (rx_cfg r) = ?sz" "rb_type (rx_cfg r) = rb_type (tx_cfg s)" using assms(5) by (simp_all add: peers_def)
  have pdu: "sn_size_ok ?sz" "\<not> (tx_is_srb s \<and> ?sz = size18bits)" "pdu = hdr_bytes ?sz (tx_is_srb s) (tx_SN s c) @ sdu"
    using w(1) by (simp_all add: write_header_iff)
  have hl: "tx_sec_hdr_size s = sec_hdr_size ?sz" by (simp add: tx_sec_hdr_size_def sec_hdr_size_def)
  have len: "tx_sec_hdr_size s < length pdu" using assms(3) by (simp add: pdu(3) length_hdr_bytes [OF pdu(1)] hl)
  have chk: "rx_cfg (snd (rx_check_max_count c ?r)) = rx_cfg r" using rx_same_check [of ?r c] same by (simp add: rx_same_def)
  have eng: "rx_sec_engine (snd (rx_check_max_count c ?r)) = rx_sec_engine r"
    using rx_check_engine [of c ?r] by (simp add: rx_add_pdus_def)
  have u: "fst (apply_deciphering_and_integrity_check lib x c (snd (rx_check_max_count c ?r))) = Some (Inr pdu)"
    "take (tx_sec_hdr_size s) x = take (tx_sec_hdr_size s) pdu" "length pdu \<le> length x"
    using unprotect [OF assms(5) w(2) len, of "snd (rx_check_max_count c ?r)"] chk eng by simp_all
  have sn: "uint (tx_SN s c) < 2 ^ sn_bits ?sz" by (simp add: tx_SN_def uint_compute_sn)
  have "take (sec_hdr_size ?sz) x = hdr_bytes ?sz (tx_is_srb s) (tx_SN s c)"
    using u(2) by (simp add: pdu(3) hl length_hdr_bytes [OF pdu(1)])
  moreover have "sec_hdr_size ?sz < length x" using len u(3) hl by simp
  moreover have "sn_size (rx_cfg ?r) = ?sz" using same(1) cfg(1) by simp
  ultimately have read: "read_data_pdu_header ?r x = Some (tx_SN s c)"
    "pdcp_pdu_get_dc (hd x) = (if tx_is_srb s then dc_control else dc_data)"
    using read_written_header [OF pdu(1,2) sn] by simp_all
  have est: "count_estimation (sn_size (rx_cfg ?r)) (rx_deliv ?r) (tx_SN s c) = c"
    using assms(6,7) same cfg(1) count_estimation_exact [OF pdu(1), of "rx_deliv r" c]
    by (simp add: tx_SN_def word_le_def)
  obtain t where t: "rx_quiet ?r t" "handle_data_pdu lib x ?r = rx_process_sdu c (drop (sec_hdr_size ?sz) pdu) t"
    using handle_data_pdu_accepts [OF read(1) est _ u(1)] assms(8) same(1) cfg(1) by auto
  have "rx_is_srb ?r = tx_is_srb s" using same(1) cfg(2) by (simp add: rx_is_srb_def tx_is_srb_def)
  then have "handle_pdu lib True x r = handle_data_pdu lib x ?r"
    using read(2) len u(3) by (cases x) (simp_all add: handle_pdu_def Let_def split: if_splits)
  then have h: "handle_pdu lib True x r = rx_process_sdu c sdu t"
    by (simp add: t(2) pdu(3) length_hdr_bytes [OF pdu(1)])
  have q: "rx_quiet r t" by (rule rx_quiet_trans [OF q0 t(1)])
  then have st: "rx_cfg t = rx_cfg r" "rx_deliv t = rx_deliv r" "rx_window t = rx_window r"
    by (simp_all add: rx_quiet_def rx_same_def)
  have "c < - 1" using assms(8) by (metis less_le_trans word_n1_ge)
  then have acc: "rx_acceptable t c" using assms(6,7,9) st by (simp add: rx_acceptable_def)
  have "rx_inv t" using rx_quiet_inv [OF q assms(4)] by blast
  from process_acceptable [OF this acc, of sdu] conserves_quiet [OF q] show ?thesis by (simp add: h st)
qed

theorem pdcp_tx_rx_roundtrip_witness:
  "On_new_sdu 0 [7] \<in> set (rx_out (handle_pdu toy_lib True [0x80, 0, 7] demo_rx))"
proof -
  have e: "emits demo_tx (handle_sdu toy_lib mem_ok [7] demo_tx) (On_new_pdu (Some 0) [0x80, 0, 7] False)"
    using demo_sent_facts(7) by (simp add: emits_def demo_sent_def demo_tx_facts)
  have p: "peers demo_tx demo_rx"
    by (simp add: peers_def demo_tx_facts demo_rx_facts demo_tx_cfg_facts) (simp add: demo_rx_cfg_def)
  have "(0 :: u32) < mc_hard (rx_max_count (custom_rx (rx_cfg demo_rx)))" "0 < uint (rx_ws demo_rx)"
    by (simp_all add: demo_rx_facts demo_rx_cfg_def pdcp_rx_default_max_count_hard_def pdcp_window_size_def)
  then show ?thesis
    using pdcp_tx_rx_roundtrip [OF demo_tx_inv e _ demo_rx_inv(1) p] by (simp add: demo_rx_facts)
qed

section \<open>Status reports\<close>

text \<open>The COUNTs that a bitmap acknowledges, and the reports' effect on the window.\<close>

fun marked :: "u32 \<Rightarrow> bool list \<Rightarrow> u32 list" where
  "marked fmc [] = []"
| "marked fmc (b # bs) = (if b then [fmc + 1] else []) @ marked (fmc + 1) bs"

lemma marked_append: "marked fmc (bs @ replicate n False) = marked fmc bs"
proof (induction bs arbitrary: fmc)
  case Nil
  show ?case by (induction n arbitrary: fmc) simp_all
qed simp

lemma marked_range: "marked fmc (map f (word_range (fmc + 1) hi)) = filter f (word_range (fmc + 1) hi)"
proof (induction "word_range (fmc + 1) hi" arbitrary: fmc)
  case (Cons k ks)
  have lt: "fmc + 1 < hi" using Cons.hyps(2) by (cases "fmc + 1 < hi") (simp_all add: not_less)
  have r: "word_range (fmc + 1) hi = (fmc + 1) # word_range (fmc + 1 + 1) hi" by (rule word_range_Cons [OF lt])
  then have "ks = word_range (fmc + 1 + 1) hi" using Cons.hyps(2) by simp
  from Cons.hyps(1) [OF this] show ?case by (simp add: r)
qed simp

lemma bitmap_loop_marked:
  assumes "dec_wf d" "length (dec_bits d) \<le> n"
  shows "tx_bitmap_loop n d fmc s = fold discard_pdu (marked fmc (dec_bits d)) s"
  using assms
proof (induction n arbitrary: d fmc s)
  case (Suc n)
  show ?case
  proof (cases "dec_bits d")
    case Nil
    then have "\<not> fst (unpack 1 d :: bool \<times> u32 \<times> bit_decoder)" using fst_unpack [OF Suc.prems(1), of 1] by (simp del: One_nat_def)
    then show ?thesis using Nil by (auto split: prod.split bool.split)
  next
    case (Cons b bs)
    then have u: "unpack 1 d = (True, bits_val [b] :: u32, dec_advance 1 d)"
      using unpack_correct [OF Suc.prems(1), of 1, where 'a = 32] by simp
    have w: "dec_wf (dec_advance 1 d)" by (rule dec_wf_advance [OF Suc.prems(1)]) (simp add: Cons)
    have l: "length (dec_bits (dec_advance 1 d)) \<le> n" using Suc.prems(2) Cons by simp
    have "drop 1 (dec_bits d) = bs" by (simp add: Cons)
    then show ?thesis using Suc.IH [OF w l] by (simp add: u Cons Let_def del: One_nat_def)
  qed
qed simp

lemma discard_window:
  assumes "tx_inv s"
  shows "cm_at (tx_window (discard_pdu c s)) = (cm_at (tx_window s))(c := None)"
proof (cases "cm_at (tx_window s) c = None")
  case True
  then show ?thesis using discard_pdu_ignored [OF assms True] by auto
next
  case False
  obtain a where "discard_pdu c s =
      s\<lparr>tx_out := tx_out s @ [On_discard_pdu (tx_SN s c)], tx_window := remove_sn (tx_window s) c,
        tx_next_ack := a, tx_trans := max (tx_trans s) a\<rparr>"
    by (rule discard_pdu_spec [OF assms False]) blast
  moreover have "cm_wf (tx_window s)" using assms by (simp add: tx_inv_def)
  ultimately show ?thesis by (auto simp: window_simps fun_eq_iff)
qed

lemma fold_discard_window:
  "tx_inv s \<Longrightarrow> cm_at (tx_window (fold discard_pdu ks s)) = (\<lambda>k. if k \<in> set ks then None else cm_at (tx_window s) k)"
proof (induction ks arbitrary: s)
  case (Cons c ks)
  have "tx_inv (discard_pdu c s)" using discard_pdu_quiet [OF Cons.prems] Cons.prems by (simp add: tx_quiet_def)
  from Cons.IH [OF this] show ?case by (auto simp: discard_window [OF Cons.prems])
qed simp

lemma report_discards:
  assumes "bytes_bits status = replicate 8 False @ to_bits 32 (fmc :: u32) @ bs"
  shows "handle_status_report True status s =
    fold discard_pdu (marked fmc bs) (fold discard_pdu (word_range (tx_next_ack s) fmc) s)"
proof -
  define d where "d = bit_decoder_init status"
  have w0: "dec_wf d" and b: "dec_bits d = replicate 8 False @ to_bits 32 fmc @ bs" by (simp_all add: d_def assms)
  have len: "length (dec_bits d) = 40 + length bs" "8 * length status = 40 + length bs"
    using arg_cong [OF assms, of length] by (simp_all add: b)
  have w: "dec_wf (dec_advance n d)" if "n \<le> 40" for n by (rule dec_wf_advance [OF w0]) (use that len in simp)
  have z: "bits_val (take n (drop m (dec_bits d))) = (0 :: u32)" if "m + n \<le> 8" for m n
    using that by (simp add: b)
  have u1: "unpack 1 d = (True, 0 :: u32, dec_advance 1 d)"
    using unpack_correct [OF w0, of 1, where 'a = 32] z [of 0 1] len by simp
  have u2: "unpack 3 (dec_advance 1 d) = (True, 0 :: u32, dec_advance 4 d)"
    using unpack_correct [OF w, of 1 3, where 'a = 32] z [of 1 3] len by (simp add: dec_advance_advance)
  have u3: "unpack 4 (dec_advance 4 d) = (True, 0 :: u32, dec_advance 8 d)"
    using unpack_correct [OF w, of 4 4, where 'a = 32] z [of 4 4] len by (simp add: dec_advance_advance)
  have u4: "unpack 32 (dec_advance 8 d) = (True, fmc, dec_advance 40 d)"
    using unpack_correct [OF w, of 8 32, where 'a = 32] len take_bit_length_eq [of fmc]
    by (simp add: dec_advance_advance b bits_val_to_bits)
  have "tx_bitmap_loop (8 * length status) (dec_advance 40 d) fmc t = fold discard_pdu (marked fmc bs) t" for t
    using bitmap_loop_marked [OF w, of 40 "8 * length status" fmc t] len by (simp add: b)
  then show ?thesis
    unfolding handle_status_report_def d_def [symmetric]
    by (simp add: u1 u2 u3 u4 cpt_status_report_def Let_def del: One_nat_def)
qed



end
