(* ===== verification/Rlc_Um_Pdu.thy ===== *)
theory Rlc_Um_Pdu
  imports Prelude
begin

text \<open>
  The configuration of RLC UM bearers (\<open>include/srsran/rlc/rlc_config.h\<close>) and the codec of UM data PDU
  headers (\<open>lib/rlc/rlc_um_pdu.h\<close>). A buffer is the list of its bytes; a writer returns the bytes it
  writes to the start of the span it is given.
\<close>

section \<open>Configuration\<close>

datatype rlc_um_sn_size = um_size6bits | um_size12bits

fun rlc_um_sn_size_to_number :: "rlc_um_sn_size \<Rightarrow> nat" where
  "rlc_um_sn_size_to_number um_size6bits = 6"
| "rlc_um_sn_size_to_number um_size12bits = 12"

definition rlc_um_sn_size_from_number :: "nat \<Rightarrow> rlc_um_sn_size option" where
  "rlc_um_sn_size_from_number num =
    (if num = 6 then Some um_size6bits else if num = 12 then Some um_size12bits else None)"

definition rlc_cardinality :: "nat \<Rightarrow> u32" where
  "rlc_cardinality sn_size = push_bit sn_size 1"

definition rlc_window_size :: "nat \<Rightarrow> u32" where
  "rlc_window_size sn_size = rlc_cardinality (sn_size - 1)"

datatype rlc_si_field = full_sdu | first_segment | last_segment | middle_segment

fun si_to_number :: "rlc_si_field \<Rightarrow> byte" where
  "si_to_number full_sdu = 0"
| "si_to_number first_segment = 1"
| "si_to_number last_segment = 2"
| "si_to_number middle_segment = 3"

text \<open>The cast of a number of two bits back to the enumeration.\<close>

definition si_of_bits :: "byte \<Rightarrow> rlc_si_field" where
  "si_of_bits b = (if b = 0 then full_sdu else if b = 1 then first_segment else if b = 2 then last_segment
    else middle_segment)"

record rlc_rx_um_config =
  rx_sn_field_length :: rlc_um_sn_size
  t_reassembly :: int

section \<open>Headers\<close>

definition rlc_um_pdu_header_size_complete_sdu :: nat where
  "rlc_um_pdu_header_size_complete_sdu = 1"

fun rlc_um_pdu_header_size_no_so :: "rlc_um_sn_size \<Rightarrow> nat" where
  "rlc_um_pdu_header_size_no_so um_size6bits = 1"
| "rlc_um_pdu_header_size_no_so um_size12bits = 2"

fun rlc_um_pdu_header_size_with_so :: "rlc_um_sn_size \<Rightarrow> nat" where
  "rlc_um_pdu_header_size_with_so um_size6bits = 3"
| "rlc_um_pdu_header_size_with_so um_size12bits = 4"

record rlc_um_pdu_header =
  um_si :: rlc_si_field
  um_sn_size :: rlc_um_sn_size
  um_sn :: u16
  um_so :: u16

text \<open>The optional part: the segment offset of a middle or last segment.\<close>

definition rlc_um_read_so :: "rlc_um_sn_size \<Rightarrow> rlc_si_field \<Rightarrow> u16 \<Rightarrow> bytes \<Rightarrow> rlc_um_pdu_header option" where
  "rlc_um_read_so sz si sn rest =
    (if si = last_segment \<or> si = middle_segment then
       (case rest of
          b0 # b1 # _ \<Rightarrow>
            Some \<lparr>um_si = si, um_sn_size = sz, um_sn = sn, um_so = push_bit 8 (ucast b0 AND 0xff) OR (ucast b1 AND 0xff)\<rparr>
        | _ \<Rightarrow> None)
     else Some \<lparr>um_si = si, um_sn_size = sz, um_sn = sn, um_so = 0\<rparr>)"

definition rlc_um_read_data_pdu_header :: "bytes \<Rightarrow> rlc_um_sn_size \<Rightarrow> rlc_um_pdu_header option" where
  "rlc_um_read_data_pdu_header pdu sz =
    (case pdu of
       [] \<Rightarrow> None
     | b # rest \<Rightarrow>
         let si = si_of_bits (drop_bit 6 b AND 0x03) in
         (case sz of
            um_size6bits \<Rightarrow>
              let sn = ucast b AND 0x3f in
              if si = full_sdu \<and> sn \<noteq> 0 then None
              else rlc_um_read_so sz si sn rest
          | um_size12bits \<Rightarrow>
              let sn = push_bit 8 (ucast b AND 0x0f) in
              if si = full_sdu \<and> sn \<noteq> 0 then None
              else if si = first_segment \<and> drop_bit 4 b AND 0x03 \<noteq> 0 then None
              else if si \<noteq> full_sdu then
                (case rest of
                   [] \<Rightarrow> None
                 | b1 # rest \<Rightarrow> rlc_um_read_so sz si (sn OR (ucast b1 AND 0xff)) rest)
              else rlc_um_read_so sz si sn rest))"

definition rlc_um_nr_packed_length :: "rlc_um_pdu_header \<Rightarrow> nat" where
  "rlc_um_nr_packed_length h =
    (if um_si h = full_sdu then 1
     else (if um_sn_size h = um_size6bits then 1 else 2) + (if um_so h \<noteq> 0 then 2 else 0))"

definition rlc_um_write_data_pdu_header :: "rlc_um_pdu_header \<Rightarrow> bytes" where
  "rlc_um_write_data_pdu_header h =
    (let b0 = push_bit 6 (si_to_number (um_si h) AND 0x03)
     in if um_si h = full_sdu then [b0]
        else (if um_sn_size h = um_size6bits then [b0 OR ucast (um_sn h AND 0x3f)]
              else [b0 OR ucast (drop_bit 8 (um_sn h) AND 0xf), ucast (um_sn h AND 0xff)])
          @ (if um_so h \<noteq> 0 then [ucast (drop_bit 8 (um_so h)), ucast (um_so h AND 0xff)] else []))"

section \<open>Round trip\<close>

definition um_sn_bits :: "rlc_um_sn_size \<Rightarrow> nat" where
  "um_sn_bits sz = rlc_um_sn_size_to_number sz"

text \<open>
  A header the transmitter builds: the sequence number has the configured width, and the segment offset is
  positive exactly for the segments that carry it.
\<close>

definition um_header_ok :: "rlc_um_pdu_header \<Rightarrow> bool" where
  "um_header_ok h \<longleftrightarrow> um_sn h < 2 ^ um_sn_bits (um_sn_size h) \<and>
    (um_so h \<noteq> 0 \<longleftrightarrow> um_si h = last_segment \<or> um_si h = middle_segment)"

lemma u16_masks:
  "(w :: u16) AND 0x3f = take_bit 6 w" "w AND 0x0f = take_bit 4 w" "w AND 0xf = take_bit 4 w" "w AND 0xff = take_bit 8 w"
  using and_low_mask [of w 6] and_low_mask [of w 4] and_low_mask [of w 8] by simp_all

lemma byte_mask2: "(b :: byte) AND 0x03 = take_bit 2 b"
  using and_low_mask [of b 2] by simp

lemma take_bit_si: "si_of_bits (take_bit 2 (si_to_number si)) = si"
  by (cases si) (simp_all add: si_of_bits_def)

lemma um_first_byte:
  fixes x :: u16 and c :: byte
  shows "take_bit 2 (drop_bit 6 (push_bit 6 (take_bit 2 c))) = take_bit 2 c"
    and "take_bit 2 (drop_bit 6 (ucast (take_bit 6 x) :: byte)) = 0"
    and "take_bit 2 (drop_bit 6 (ucast (take_bit 4 x) :: byte)) = 0"
    and "take_bit 2 (drop_bit 4 (push_bit 6 (take_bit 2 c))) = 0"
    and "take_bit 2 (drop_bit 4 (ucast (take_bit 4 x) :: byte)) = 0"
    and "take_bit 6 (ucast (push_bit 6 (take_bit 2 c) OR ucast (take_bit 6 x))) = take_bit 6 x"
    and "take_bit 4 (ucast (push_bit 6 (take_bit 2 c) OR ucast (take_bit 4 x))) = take_bit 4 x"
  by (auto intro!: bit_word_eqI simp: bit_simps dest: bit_imp_le_length)

lemma u16_two_bytes:
  fixes x :: u16
  shows "push_bit 8 (take_bit 8 (ucast (ucast (drop_bit 8 x) :: byte))) OR take_bit 8 (ucast (ucast (take_bit 8 x) :: byte)) = x"
    and "push_bit 8 (take_bit 4 (drop_bit 8 x)) OR take_bit 8 (ucast (ucast (take_bit 8 x) :: byte)) = take_bit 12 x"
  by (auto intro!: bit_word_eqI simp: bit_simps dest: bit_imp_le_length)

lemma take_bit_below:
  fixes w :: u16
  shows "w < 64 \<Longrightarrow> take_bit 6 w = w" "w < 4096 \<Longrightarrow> take_bit 12 w = w"
  by (simp_all add: word_uint_eq_iff unsigned_take_bit_eq take_bit_int_eq_self word_less_def)

text \<open>A written header in front of any payload reads back; a complete SDU carries no sequence number.\<close>

lemma um_header_read_back:
  assumes "um_header_ok h"
  shows "rlc_um_read_data_pdu_header (rlc_um_write_data_pdu_header h @ payload) (um_sn_size h) =
      Some (if um_si h = full_sdu then h\<lparr>um_sn := 0\<rparr> else h)"
    and "length (rlc_um_write_data_pdu_header h) = rlc_um_nr_packed_length h"
proof -
  obtain si sz sn so where h: "h = \<lparr>um_si = si, um_sn_size = sz, um_sn = sn, um_so = so\<rparr>" by (cases h)
  have so: "so \<noteq> 0 \<longleftrightarrow> si = last_segment \<or> si = middle_segment" and sn: "sn < 2 ^ um_sn_bits sz"
    using assms by (simp_all add: um_header_ok_def h)
  have w: "rlc_um_read_so sz si sn (um_so_bytes @ payload) = Some h"
    if "um_so_bytes = (if so \<noteq> 0 then [ucast (drop_bit 8 so), ucast (so AND 0xff)] else [])" for um_so_bytes
    using so that by (cases "so = 0") (auto simp: rlc_um_read_so_def h u16_masks u16_two_bytes)
  show "rlc_um_read_data_pdu_header (rlc_um_write_data_pdu_header h @ payload) (um_sn_size h) =
      Some (if um_si h = full_sdu then h\<lparr>um_sn := 0\<rparr> else h)"
  proof (cases "si = full_sdu")
    case True
    then show ?thesis using so
      by (cases sz) (simp_all add: h rlc_um_write_data_pdu_header_def rlc_um_read_data_pdu_header_def rlc_um_read_so_def
          si_of_bits_def)
  next
    case False
    note f = False
    show ?thesis
    proof (cases sz)
      case um_size6bits
      have t: "take_bit 6 sn = sn" using sn by (simp add: um_size6bits um_sn_bits_def take_bit_below)
      have "rlc_um_read_data_pdu_header (rlc_um_write_data_pdu_header h @ payload) sz =
          rlc_um_read_so sz si (take_bit 6 sn)
            ((if so \<noteq> 0 then [ucast (drop_bit 8 so), ucast (so AND 0xff)] else []) @ payload)"
        using f by (simp add: h um_size6bits rlc_um_write_data_pdu_header_def rlc_um_read_data_pdu_header_def u16_masks
            byte_mask2 um_first_byte take_bit_si Let_def)
      then show ?thesis using f w t by (simp add: h)
    next
      case um_size12bits
      have t: "take_bit 12 sn = sn" using sn by (simp add: um_size12bits um_sn_bits_def take_bit_below)
      have "rlc_um_read_data_pdu_header (rlc_um_write_data_pdu_header h @ payload) sz =
          rlc_um_read_so sz si (take_bit 12 sn)
            ((if so \<noteq> 0 then [ucast (drop_bit 8 so), ucast (so AND 0xff)] else []) @ payload)"
        using f by (simp add: h um_size12bits rlc_um_write_data_pdu_header_def rlc_um_read_data_pdu_header_def u16_masks
            byte_mask2 um_first_byte u16_two_bytes take_bit_si Let_def)
      then show ?thesis using f w t by (simp add: h)
    qed
  qed
  show "length (rlc_um_write_data_pdu_header h) = rlc_um_nr_packed_length h"
    by (simp add: rlc_um_write_data_pdu_header_def rlc_um_nr_packed_length_def Let_def)
qed

end
