(* ===== verification/Rlc_Segments.thy ===== *)
theory Rlc_Segments
  imports Rlc_Um_Pdu
begin

text \<open>
  The reassembly buffer of one SDU: \<open>store_segment\<close>, \<open>update_segment_inventory\<close> and
  \<open>reassemble_sdu\<close> of \<open>lib/rlc/rlc_rx_um_entity.cpp\<close> (the AM entity has the same code). The
  \<open>std::set\<close> of segments ordered by segment offset is the list of its elements in order; an insertion
  with a hint is an insertion by key, without effect when the key is there.
\<close>

record um_segment =
  seg_si :: rlc_si_field
  seg_so :: u16
  seg_payload :: bytes

fun seg_insert :: "um_segment \<Rightarrow> um_segment list \<Rightarrow> um_segment list" where
  "seg_insert s [] = [s]"
| "seg_insert s (c # cs) =
    (if seg_so s < seg_so c then s # c # cs
     else if seg_so s = seg_so c then c # cs
     else c # seg_insert s cs)"

definition seg_last_byte :: "um_segment \<Rightarrow> u32" where
  "seg_last_byte s = ucast (seg_so s) + word_of_nat (length (seg_payload s)) - 1"

text \<open>\<open>byte_buffer_slice::advance\<close> and the new offset, which is cut to the 16 bits of the field.\<close>

definition seg_trim :: "u32 \<Rightarrow> um_segment \<Rightarrow> um_segment" where
  "seg_trim first s =
    s\<lparr>seg_payload := drop (unat (first - ucast (seg_so s))) (seg_payload s), seg_so := ucast first\<rparr>"

text \<open>
  The loop of \<open>store_segment\<close>: whether the new segment is stored, what is inserted (in this order), and the
  segments that the loop leaves in the set.
\<close>

fun seg_scan :: "um_segment \<Rightarrow> um_segment list \<Rightarrow> bool \<times> um_segment list \<times> um_segment list" where
  "seg_scan new [] = (True, [new], [])"
| "seg_scan new (cur # segs) =
    (let cur_last_byte = seg_last_byte cur;
         new_last_byte = seg_last_byte new
     in if ucast (seg_so new) > cur_last_byte then
          (let (stored, ins, kept) = seg_scan new segs in (stored, ins, cur # kept))
        else if seg_so new \<ge> seg_so cur then
          (if new_last_byte \<le> cur_last_byte then (False, [], cur # segs)
           else
             (let (stored, ins, kept) = seg_scan (seg_trim (cur_last_byte + 1) new) segs
              in (stored, ins, cur # kept)))
        else if new_last_byte < ucast (seg_so cur) then (True, [new], cur # segs)
        else if new_last_byte < cur_last_byte then (True, [seg_trim (new_last_byte + 1) cur, new], segs)
        else seg_scan new segs)"

definition store_segment :: "um_segment \<Rightarrow> um_segment list \<Rightarrow> bool \<times> um_segment list" where
  "store_segment new segs =
    (let (stored, ins, kept) = seg_scan new segs in (stored, fold seg_insert ins kept))"

text \<open>The flags \<open>(fully_received, has_gap)\<close>.\<close>

fun seg_inventory :: "u32 \<Rightarrow> um_segment list \<Rightarrow> bool \<times> bool" where
  "seg_inventory next_byte [] = (False, False)"
| "seg_inventory next_byte (s # segs) =
    (if ucast (seg_so s) \<noteq> next_byte then (False, True)
     else if seg_si s = last_segment then (True, False)
     else seg_inventory (next_byte + word_of_nat (length (seg_payload s))) segs)"

definition update_segment_inventory :: "um_segment list \<Rightarrow> bool \<times> bool" where
  "update_segment_inventory segs = (if segs = [] then (False, False) else seg_inventory 0 segs)"

text \<open>\<open>ok n\<close>: there is memory for the \<open>n\<close>-th append; the creation of the chain is append 0.\<close>

fun reassemble_from :: "(nat \<Rightarrow> bool) \<Rightarrow> nat \<Rightarrow> um_segment list \<Rightarrow> bytes \<Rightarrow> bytes option" where
  "reassemble_from ok n [] sdu = Some sdu"
| "reassemble_from ok n (s # segs) sdu =
    (if ok n then reassemble_from ok (Suc n) segs (sdu @ seg_payload s) else None)"

definition reassemble_sdu :: "(nat \<Rightarrow> bool) \<Rightarrow> bool \<Rightarrow> um_segment list \<Rightarrow> bytes option" where
  "reassemble_sdu ok fully_received segs =
    (if \<not> fully_received then None else if \<not> ok 0 then None else reassemble_from ok 1 segs [])"

section \<open>What a set of segments stands for\<close>

definition seg_end :: "um_segment \<Rightarrow> nat" where
  "seg_end s = unat (seg_so s) + length (seg_payload s)"

text \<open>Not empty, and within the range of the offset field.\<close>

definition seg_ok :: "um_segment \<Rightarrow> bool" where
  "seg_ok s \<longleftrightarrow> seg_payload s \<noteq> [] \<and> seg_end s \<le> 2 ^ 16"

definition segs_ok :: "um_segment list \<Rightarrow> bool" where
  "segs_ok segs \<longleftrightarrow> sorted_wrt (\<lambda>s t. seg_end s \<le> unat (seg_so t)) segs \<and> (\<forall>s \<in> set segs. seg_ok s)"

lemma segs_ok_simps [simp]:
  "segs_ok []"
  "segs_ok (s # segs) \<longleftrightarrow> seg_ok s \<and> (\<forall>t \<in> set segs. seg_end s \<le> unat (seg_so t)) \<and> segs_ok segs"
  by (auto simp: segs_ok_def)

text \<open>The positions of the SDU that a set of segments covers.\<close>

definition seg_range :: "um_segment \<Rightarrow> nat set" where
  "seg_range s = {unat (seg_so s) ..< seg_end s}"

definition seg_cover :: "um_segment list \<Rightarrow> nat set" where
  "seg_cover segs = \<Union> (seg_range ` set segs)"

lemma seg_cover_simps [simp]:
  "seg_cover [] = {}"
  "seg_cover (s # segs) = seg_range s \<union> seg_cover segs"
  by (simp_all add: seg_cover_def)

text \<open>What is left of a segment when bytes at its front were cut off.\<close>

definition seg_suffix :: "um_segment \<Rightarrow> um_segment \<Rightarrow> bool" where
  "seg_suffix t s \<longleftrightarrow> seg_si t = seg_si s \<and> unat (seg_so s) \<le> unat (seg_so t) \<and> seg_end t = seg_end s \<and>
    seg_payload t = drop (unat (seg_so t) - unat (seg_so s)) (seg_payload s)"

lemma seg_suffix_refl [simp]: "seg_suffix s s"
  by (simp add: seg_suffix_def)

lemma seg_suffix_trans: "seg_suffix t u \<Longrightarrow> seg_suffix u s \<Longrightarrow> seg_suffix t s"
  by (auto simp: seg_suffix_def)

section \<open>Arithmetic of segments\<close>

lemma unat_ucast_u16 [simp]: "unat (ucast (x :: u16) :: u32) = unat x"
proof -
  have "unat x < 2 ^ 16" using unsigned_less [where 'a = nat, of x] by simp
  then show ?thesis by (simp add: unsigned_ucast_eq take_bit_nat_eq_self)
qed

lemma seg_end_pos: "seg_ok s \<Longrightarrow> unat (seg_so s) < seg_end s"
  by (simp add: seg_ok_def seg_end_def)

lemma seg_last_unat:
  assumes "seg_ok s"
  shows "unat (seg_last_byte s) = seg_end s - 1" "unat (seg_last_byte s + 1) = seg_end s"
proof -
  have l: "1 \<le> seg_end s" "seg_end s \<le> 65536" using assms seg_end_pos [OF assms] by (simp_all add: seg_ok_def)
  have "ucast (seg_so s) = (word_of_nat (unat (seg_so s)) :: u32)" by (simp add: word_unat_eq_iff)
  then have "seg_last_byte s + 1 = word_of_nat (seg_end s)" by (simp add: seg_last_byte_def seg_end_def)
  then show "unat (seg_last_byte s + 1) = seg_end s" using l by (simp add: unsigned_of_nat take_bit_nat_eq_self)
  obtain n where n: "seg_end s = Suc n" using l(1) by (cases "seg_end s") simp_all
  have "seg_last_byte s = word_of_nat n" using \<open>seg_last_byte s + 1 = _\<close> by (simp add: n)
  then show "unat (seg_last_byte s) = seg_end s - 1" using l n by (simp add: unsigned_of_nat take_bit_nat_eq_self)
qed

lemma seg_compare:
  "seg_ok s \<Longrightarrow> seg_last_byte s < ucast (seg_so t) \<longleftrightarrow> seg_end s \<le> unat (seg_so t)"
  "seg_ok s \<Longrightarrow> seg_ok t \<Longrightarrow> seg_last_byte s \<le> seg_last_byte t \<longleftrightarrow> seg_end s \<le> seg_end t"
  "seg_ok s \<Longrightarrow> seg_ok t \<Longrightarrow> seg_last_byte s < seg_last_byte t \<longleftrightarrow> seg_end s < seg_end t"
  using seg_end_pos [of s] seg_end_pos [of t]
  by (auto simp: word_less_nat_alt word_le_nat_alt seg_last_unat)

lemma seg_trim_facts:
  assumes "seg_ok s" "unat (seg_so s) \<le> unat f" "unat f < seg_end s"
  shows "unat (seg_so (seg_trim f s)) = unat f" "seg_end (seg_trim f s) = seg_end s" "seg_ok (seg_trim f s)"
    "seg_suffix (seg_trim f s) s"
proof -
  have l: "unat f < 65536" using assms(1,3) by (simp add: seg_ok_def)
  then have f: "unat (ucast f :: u16) = unat f" by (simp add: unsigned_ucast_eq take_bit_nat_eq_self)
  have "ucast (seg_so s) \<le> f" using assms(2) by (simp add: word_le_nat_alt)
  then have d: "unat (f - ucast (seg_so s)) = unat f - unat (seg_so s)" by (simp add: unat_sub)
  have t: "seg_so (seg_trim f s) = ucast f" "seg_payload (seg_trim f s) = drop (unat f - unat (seg_so s)) (seg_payload s)"
    "seg_si (seg_trim f s) = seg_si s"
    by (simp_all add: seg_trim_def d)
  show "unat (seg_so (seg_trim f s)) = unat f" by (simp add: t f)
  show e: "seg_end (seg_trim f s) = seg_end s" using assms by (simp add: seg_end_def t f)
  show "seg_suffix (seg_trim f s) s" using assms(2) e by (simp add: seg_suffix_def t f)
  show "seg_ok (seg_trim f s)" using assms e by (simp add: seg_ok_def t) (simp add: seg_end_def)
qed

section \<open>The loop as a merge of ordered lists\<close>

text \<open>The same with the insertions in place, which is what the hints aim at.\<close>

fun seg_merge :: "um_segment \<Rightarrow> um_segment list \<Rightarrow> um_segment list" where
  "seg_merge new [] = [new]"
| "seg_merge new (cur # segs) =
    (if seg_end cur \<le> unat (seg_so new) then cur # seg_merge new segs
     else if unat (seg_so cur) \<le> unat (seg_so new) then
       (if seg_end new \<le> seg_end cur then cur # segs
        else cur # seg_merge (seg_trim (seg_last_byte cur + 1) new) segs)
     else if seg_end new \<le> unat (seg_so cur) then new # cur # segs
     else if seg_end new < seg_end cur then new # seg_trim (seg_last_byte new + 1) cur # segs
     else seg_merge new segs)"

lemma seg_insert_head: "unat (seg_so c) < unat (seg_so s) \<Longrightarrow> seg_insert s (c # cs) = c # seg_insert s cs"
  by (auto simp: word_less_nat_alt)

lemma seg_insert_front:
  assumes "\<And>c. c \<in> set cs \<Longrightarrow> unat (seg_so s) < unat (seg_so c)"
  shows "seg_insert s cs = s # cs"
  using assms by (cases cs) (auto simp: word_less_nat_alt)

lemma seg_inserts_head:
  "\<forall>s \<in> set ins. unat (seg_so c) < unat (seg_so s) \<Longrightarrow> fold seg_insert ins (c # cs) = c # fold seg_insert ins cs"
  by (induction ins arbitrary: cs) (simp_all add: seg_insert_head del: seg_insert.simps)

lemma seg_scan_Cons:
  assumes "seg_ok cur" "seg_ok new"
  shows "seg_scan new (cur # segs) =
    (if seg_end cur \<le> unat (seg_so new) then
       (let (stored, ins, kept) = seg_scan new segs in (stored, ins, cur # kept))
     else if unat (seg_so cur) \<le> unat (seg_so new) then
       (if seg_end new \<le> seg_end cur then (False, [], cur # segs)
        else (let (stored, ins, kept) = seg_scan (seg_trim (seg_last_byte cur + 1) new) segs in (stored, ins, cur # kept)))
     else if seg_end new \<le> unat (seg_so cur) then (True, [new], cur # segs)
     else if seg_end new < seg_end cur then (True, [seg_trim (seg_last_byte new + 1) cur, new], segs)
     else seg_scan new segs)"
proof -
  have "seg_so cur \<le> seg_so new \<longleftrightarrow> unat (seg_so cur) \<le> unat (seg_so new)" by (simp add: word_le_nat_alt)
  then show ?thesis using assms by (simp add: Let_def seg_compare)
qed

lemma seg_after: "seg_ok c \<Longrightarrow> seg_end c \<le> n \<Longrightarrow> unat (seg_so c) < n"
  using seg_end_pos [of c] by simp

lemma seg_scan_merge:
  assumes "segs_ok segs" "seg_ok new" "seg_scan new segs = (stored, ins, kept)"
  shows "fold seg_insert ins kept = seg_merge new segs \<and> (\<forall>s \<in> set ins. unat (seg_so new) \<le> unat (seg_so s))"
  using assms
proof (induction segs arbitrary: new stored ins kept)
  case (Cons cur segs)
  have ok: "seg_ok cur" "segs_ok segs" "seg_ok new" and after: "\<And>t. t \<in> set segs \<Longrightarrow> seg_end cur \<le> unat (seg_so t)"
    using Cons.prems by simp_all
  note scan = Cons.prems(3) [unfolded seg_scan_Cons [OF ok(1,3)]]
  consider (behind) "seg_end cur \<le> unat (seg_so new)"
    | (inside) "unat (seg_so cur) \<le> unat (seg_so new)" "unat (seg_so new) < seg_end cur" "seg_end new \<le> seg_end cur"
    | (over) "unat (seg_so cur) \<le> unat (seg_so new)" "unat (seg_so new) < seg_end cur" "seg_end cur < seg_end new"
    | (before) "unat (seg_so new) < unat (seg_so cur)" "seg_end new \<le> unat (seg_so cur)"
    | (cut) "unat (seg_so new) < unat (seg_so cur)" "unat (seg_so cur) < seg_end new" "seg_end new < seg_end cur"
    | (covers) "unat (seg_so new) < unat (seg_so cur)" "seg_end cur \<le> seg_end new"
    by linarith
  then show ?case
  proof cases
    case behind
    obtain st i k where r: "seg_scan new segs = (st, i, k)" by (cases "seg_scan new segs")
    have "ins = i" "kept = cur # k" using scan behind by (simp_all add: r)
    moreover have "unat (seg_so cur) < unat (seg_so new)" using seg_after [OF ok(1) behind] .
    ultimately show ?thesis
      using Cons.IH [OF ok(2,3) r] behind seg_inserts_head [of i cur k] by fastforce
  next
    case inside
    then have "ins = []" "kept = cur # segs"
      using scan by simp_all
    then show ?thesis using inside by simp
  next
    case over
    let ?new = "seg_trim (seg_last_byte cur + 1) new"
    obtain st i k where r: "seg_scan ?new segs = (st, i, k)" by (cases "seg_scan ?new segs")
    have t: "unat (seg_so ?new) = seg_end cur" "seg_ok ?new"
      using seg_trim_facts [OF ok(3), of "seg_last_byte cur + 1"] over seg_last_unat [OF ok(1)] by simp_all
    have e: "ins = i" "kept = cur # k" using scan over by (simp_all add: r)
    have "fold seg_insert i k = seg_merge ?new segs \<and> (\<forall>s\<in>set i. unat (seg_so ?new) \<le> unat (seg_so s))"
      by (rule Cons.IH [OF ok(2) t(2) r])
    then show ?thesis
      using over t(1) seg_end_pos [OF ok(1)] seg_inserts_head [of i cur k] by (fastforce simp: e)
  next
    case before
    then have "ins = [new]" "kept = cur # segs"
      using scan seg_end_pos [OF ok(1)] by simp_all
    then show ?thesis
      using before seg_end_pos [OF ok(1)] after seg_insert_front [of "cur # segs" new] by fastforce
  next
    case cut
    let ?cur = "seg_trim (seg_last_byte new + 1) cur"
    have t: "unat (seg_so ?cur) = seg_end new" "seg_end ?cur = seg_end cur"
      using seg_trim_facts [OF ok(1), of "seg_last_byte new + 1"] cut seg_last_unat [OF ok(3)] by simp_all
    have e: "ins = [?cur, new]" "kept = segs"
      using scan cut by simp_all
    have "seg_insert ?cur segs = ?cur # segs"
      by (rule seg_insert_front) (use after t cut in fastforce)
    moreover have "seg_insert new (?cur # segs) = new # ?cur # segs"
      by (rule seg_insert_front) (use after t cut in fastforce)
    ultimately show ?thesis using cut t by (simp add: e)
  next
    case covers
    then have "seg_scan new segs = (stored, ins, kept)"
      using scan seg_end_pos [OF ok(1)] by simp
    then show ?thesis using Cons.IH [OF ok(2,3)] covers seg_end_pos [OF ok(1)] by simp
  qed
qed simp

lemma store_segment_merge: "segs_ok segs \<Longrightarrow> seg_ok new \<Longrightarrow> snd (store_segment new segs) = seg_merge new segs"
  using seg_scan_merge [of segs new] by (simp add: store_segment_def split: prod.split)

section \<open>What storing a segment does\<close>

lemma merge_lower:
  "segs_ok segs \<Longrightarrow> seg_ok new \<Longrightarrow> n \<le> unat (seg_so new) \<Longrightarrow> \<forall>s \<in> set segs. n \<le> unat (seg_so s) \<Longrightarrow>
    t \<in> set (seg_merge new segs) \<Longrightarrow> n \<le> unat (seg_so t)"
proof (induction new segs rule: seg_merge.induct)
  case (2 new cur segs)
  let ?new = "seg_trim (seg_last_byte cur + 1) new" and ?cur = "seg_trim (seg_last_byte new + 1) cur"
  have ok: "seg_ok cur" "segs_ok segs" "seg_ok new" using "2.prems" by simp_all
  have n: "unat (seg_so ?new) = seg_end cur \<and> seg_ok ?new"
    if "\<not> seg_end cur \<le> unat (seg_so new)" "\<not> seg_end new \<le> seg_end cur"
    using seg_trim_facts [OF ok(3), of "seg_last_byte cur + 1"] that seg_last_unat [OF ok(1)] by simp
  have c: "unat (seg_so ?cur) = seg_end new"
    if "\<not> seg_end new \<le> unat (seg_so cur)" "seg_end new < seg_end cur"
    using seg_trim_facts [OF ok(1), of "seg_last_byte new + 1"] that seg_last_unat [OF ok(3)] by simp
  have e: "n \<le> seg_end cur" "n \<le> seg_end new" using "2.prems" seg_end_pos [OF ok(1)] seg_end_pos [OF ok(3)] by simp_all
  show ?case using "2.prems" "2.IH" ok n c e by (auto split: if_splits)
qed simp

lemma seg_range_trim:
  assumes "seg_ok s" "unat (seg_so s) \<le> unat f" "unat f < seg_end s"
  shows "seg_range (seg_trim f s) = {unat f ..< seg_end s}"
  using seg_trim_facts [OF assms] by (simp add: seg_range_def)

lemma suffix_self: "set ts \<subseteq> set ss \<Longrightarrow> \<forall>t \<in> set ts. \<exists>s \<in> set ss. seg_suffix t s"
  by (meson seg_suffix_refl subsetD)

lemma merge_result:
  "segs_ok segs \<Longrightarrow> seg_ok new \<Longrightarrow>
    segs_ok (seg_merge new segs) \<and> seg_cover (seg_merge new segs) = seg_range new \<union> seg_cover segs \<and>
    (\<forall>t \<in> set (seg_merge new segs). \<exists>s \<in> set (new # segs). seg_suffix t s)"
proof (induction new segs rule: seg_merge.induct)
  case (2 new cur segs)
  let ?new = "seg_trim (seg_last_byte cur + 1) new" and ?cur = "seg_trim (seg_last_byte new + 1) cur"
  have ok: "seg_ok cur" "segs_ok segs" "seg_ok new" and after: "\<forall>t \<in> set segs. seg_end cur \<le> unat (seg_so t)"
    using "2.prems" by simp_all
  note pos = seg_end_pos [OF ok(1)] seg_end_pos [OF ok(3)]
  consider (behind) "seg_end cur \<le> unat (seg_so new)"
    | (inside) "unat (seg_so cur) \<le> unat (seg_so new)" "unat (seg_so new) < seg_end cur" "seg_end new \<le> seg_end cur"
    | (over) "unat (seg_so cur) \<le> unat (seg_so new)" "unat (seg_so new) < seg_end cur" "seg_end cur < seg_end new"
    | (before) "unat (seg_so new) < unat (seg_so cur)" "seg_end new \<le> unat (seg_so cur)"
    | (cut) "unat (seg_so new) < unat (seg_so cur)" "unat (seg_so cur) < seg_end new" "seg_end new < seg_end cur"
    | (covers) "unat (seg_so new) < unat (seg_so cur)" "seg_end cur \<le> seg_end new"
    by linarith
  then show ?case
  proof cases
    case behind
    have "\<forall>t \<in> set (seg_merge new segs). seg_end cur \<le> unat (seg_so t)"
      using merge_lower [OF ok(2,3) behind after] by blast
    then show ?thesis using "2.IH"(1) behind ok by fastforce
  next
    case inside
    then have m: "seg_merge new (cur # segs) = cur # segs" by simp
    have "seg_range new \<subseteq> seg_range cur" using inside by (auto simp: seg_range_def)
    then show ?thesis unfolding m using "2.prems" suffix_self [of "cur # segs" "new # cur # segs"] by auto
  next
    case over
    have t: "unat (seg_so ?new) = seg_end cur" "seg_ok ?new" "seg_suffix ?new new" "seg_range ?new = {seg_end cur..<seg_end new}"
      using seg_trim_facts [OF ok(3), of "seg_last_byte cur + 1"] seg_range_trim [OF ok(3), of "seg_last_byte cur + 1"]
        over seg_last_unat [OF ok(1)] by simp_all
    have "\<forall>t \<in> set (seg_merge ?new segs). seg_end cur \<le> unat (seg_so t)"
      using merge_lower [OF ok(2) t(2), of "seg_end cur"] t(1) after by simp
    moreover have "seg_range cur \<union> seg_range ?new = seg_range cur \<union> seg_range new"
      using over by (auto simp: t(4)) (auto simp: seg_range_def)
    moreover have "segs_ok (seg_merge ?new segs) \<and> seg_cover (seg_merge ?new segs) = seg_range ?new \<union> seg_cover segs \<and>
      (\<forall>t\<in>set (seg_merge ?new segs). \<exists>s\<in>set (?new # segs). seg_suffix t s)"
      using "2.IH"(2) over ok(2) t(2) by simp
    moreover have "seg_merge new (cur # segs) = cur # seg_merge ?new segs" using over by simp
    ultimately show ?thesis using ok(1) t(3) by (auto intro: seg_suffix_trans)
  next
    case before
    then show ?thesis using "2.prems" pos by (fastforce simp: seg_range_def)
  next
    case cut
    have t: "unat (seg_so ?cur) = seg_end new" "seg_end ?cur = seg_end cur" "seg_ok ?cur" "seg_suffix ?cur cur"
      "seg_range ?cur = {seg_end new..<seg_end cur}"
      using seg_trim_facts [OF ok(1), of "seg_last_byte new + 1"] seg_range_trim [OF ok(1), of "seg_last_byte new + 1"]
        cut seg_last_unat [OF ok(3)] by simp_all
    have m: "seg_merge new (cur # segs) = new # ?cur # segs" using cut by simp
    have "seg_range new \<union> seg_range ?cur = seg_range new \<union> seg_range cur"
      using cut by (auto simp: t(5)) (auto simp: seg_range_def)
    then have "seg_cover (seg_merge new (cur # segs)) = seg_range new \<union> seg_cover (cur # segs)"
      unfolding m seg_cover_simps Un_assoc [symmetric] by (simp only:)
    moreover have "segs_ok (seg_merge new (cur # segs))" unfolding m using t ok after cut by auto
    moreover have "\<forall>t \<in> set (seg_merge new (cur # segs)). \<exists>s \<in> set (new # cur # segs). seg_suffix t s"
      unfolding m using t(4) suffix_self [of segs "new # cur # segs"] by auto
    ultimately show ?thesis by blast
  next
    case covers
    then have "seg_merge new (cur # segs) = seg_merge new segs" using pos by simp
    moreover have "seg_range cur \<subseteq> seg_range new" using covers by (auto simp: seg_range_def)
    ultimately show ?thesis using "2.IH"(3) covers pos ok by auto
  qed
qed (simp add: seg_range_def)

section \<open>Segments of one SDU\<close>

text \<open>A piece of \<open>sdu\<close>; the last segment is marked as such.\<close>

definition seg_of :: "bytes \<Rightarrow> um_segment \<Rightarrow> bool" where
  "seg_of sdu s \<longleftrightarrow> seg_payload s \<noteq> [] \<and> seg_end s \<le> length sdu \<and>
    seg_payload s = take (length (seg_payload s)) (drop (unat (seg_so s)) sdu) \<and>
    (seg_si s = last_segment \<longleftrightarrow> seg_end s = length sdu)"

lemma seg_of_ok: "seg_of sdu s \<Longrightarrow> length sdu \<le> 2 ^ 16 \<Longrightarrow> seg_ok s"
  by (simp add: seg_of_def seg_ok_def)

lemma seg_of_suffix:
  assumes "seg_of sdu s" "seg_suffix t s" "seg_ok t"
  shows "seg_of sdu t"
proof -
  let ?d = "unat (seg_so t) - unat (seg_so s)"
  have t: "seg_payload t = drop ?d (seg_payload s)" "unat (seg_so s) \<le> unat (seg_so t)" "seg_end t = seg_end s"
    using assms(2) by (simp_all add: seg_suffix_def)
  have "seg_payload t = drop ?d (take (length (seg_payload s)) (drop (unat (seg_so s)) sdu))"
    using t(1) assms(1) by (metis seg_of_def)
  also have "\<dots> = take (length (seg_payload s) - ?d) (drop (unat (seg_so t)) sdu)"
    using t(2) by (simp add: drop_take)
  finally have "seg_payload t = take (length (seg_payload t)) (drop (unat (seg_so t)) sdu)"
    using t(1) by (metis length_drop)
  moreover have "seg_payload t \<noteq> []" using assms(3) by (simp add: seg_ok_def)
  moreover have "seg_end t \<le> length sdu" "seg_si t = last_segment \<longleftrightarrow> seg_end t = length sdu"
    using assms(1,2) by (simp_all add: seg_of_def seg_suffix_def)
  ultimately show ?thesis unfolding seg_of_def by (intro conjI)
qed

lemma interval_split:
  fixes n e L :: nat
  assumes "n \<le> e" "e \<le> L" "\<And>x. x \<in> C \<Longrightarrow> e \<le> x"
  shows "{n ..< e} \<union> C = {n ..< L} \<longleftrightarrow> C = {e ..< L}"
proof
  assume h: "{n ..< e} \<union> C = {n ..< L}"
  have "C = ({n ..< e} \<union> C) - {n ..< e}" using assms(3) by fastforce
  also have "\<dots> = {e ..< L}" unfolding h using assms(1) by auto
  finally show "C = {e ..< L}" .
next
  assume "C = {e ..< L}"
  then show "{n ..< e} \<union> C = {n ..< L}" using assms(1,2) by auto
qed

lemma inventory_complete:
  assumes "segs_ok segs" "\<forall>s \<in> set segs. seg_of sdu s" "\<forall>s \<in> set segs. unat nb \<le> unat (seg_so s)" "unat nb < length sdu"
    and "length sdu \<le> 2 ^ 16"
  shows "(fst (seg_inventory nb segs) \<longleftrightarrow> seg_cover segs = {unat nb ..< length sdu}) \<and>
    (fst (seg_inventory nb segs) \<longrightarrow> concat (map seg_payload segs) = drop (unat nb) sdu)"
  using assms
proof (induction segs arbitrary: nb)
  case (Cons s segs)
  have s: "seg_ok s" "seg_of sdu s" "segs_ok segs" "\<forall>t \<in> set segs. seg_end s \<le> unat (seg_so t)" "\<forall>t \<in> set segs. seg_of sdu t"
    "unat nb \<le> unat (seg_so s)"
    using Cons.prems(1-3) by simp_all
  have pos: "unat (seg_so s) < seg_end s" by (rule seg_end_pos [OF s(1)])
  have low: "seg_end s \<le> x" if "x \<in> seg_cover segs" for x
    using that s(4) by (force simp: seg_cover_def seg_range_def)
  show ?case
  proof (cases "unat (seg_so s) = unat nb")
    case False
    have "unat nb \<notin> seg_cover (s # segs)" using low [of "unat nb"] False s(6) pos by (auto simp: seg_range_def)
    moreover have "unat nb \<in> {unat nb ..< length sdu}" using Cons.prems(4) by simp
    ultimately have "seg_cover (s # segs) \<noteq> {unat nb ..< length sdu}" by blast
    moreover have "(ucast (seg_so s) :: u32) \<noteq> nb" using False by (metis unat_ucast_u16)
    ultimately show ?thesis by (simp only: seg_inventory.simps if_True simp_thms fst_conv)
  next
    case True
    then have so: "(ucast (seg_so s) :: u32) = nb" by (simp add: word_unat_eq_iff)
    have r: "seg_range s = {unat nb ..< seg_end s}" by (simp add: seg_range_def True)
    have p: "seg_payload s = take (seg_end s - unat nb) (drop (unat nb) sdu)"
      using s(2) True by (metis seg_of_def seg_end_def add_diff_cancel_left')
    show ?thesis
    proof (cases "seg_si s = last_segment")
      case True
      then have e: "seg_end s = length sdu" using s(2) by (simp add: seg_of_def)
      have "segs = []"
      proof (rule ccontr)
        assume "segs \<noteq> []"
        then obtain t where t: "t \<in> set segs" by fastforce
        then have "seg_ok t" using s(3) by (simp add: segs_ok_def)
        then have "unat (seg_so t) < seg_end t" by (rule seg_end_pos)
        moreover have "seg_end t \<le> length sdu" using t s(5) by (simp add: seg_of_def)
        moreover have "length sdu \<le> unat (seg_so t)" using t s(4) e by simp
        ultimately show False by simp
      qed
      then show ?thesis using True so r e p by simp
    next
      case False
      then have e: "seg_end s < length sdu" using s(2) by (simp add: seg_of_def)
      define nb' where "nb' = nb + word_of_nat (length (seg_payload s))"
      have nb': "unat nb' = seg_end s"
      proof -
        have "nb' = word_of_nat (seg_end s)" using True by (simp add: nb'_def seg_end_def)
        then show ?thesis using e Cons.prems(5) by (simp add: unsigned_of_nat take_bit_nat_eq_self)
      qed
      have IH: "(fst (seg_inventory nb' segs) \<longleftrightarrow> seg_cover segs = {seg_end s ..< length sdu}) \<and>
        (fst (seg_inventory nb' segs) \<longrightarrow> concat (map seg_payload segs) = drop (seg_end s) sdu)"
        using Cons.IH [of nb'] s e Cons.prems(5) by (simp add: nb')
      have "seg_range s \<union> seg_cover segs = {unat nb ..< length sdu} \<longleftrightarrow> seg_cover segs = {seg_end s ..< length sdu}"
        unfolding r using interval_split [of "unat nb" "seg_end s" "length sdu" "seg_cover segs"] low e pos True by simp
      moreover have "take (seg_end s - unat nb) (drop (unat nb) sdu) @ drop (seg_end s) sdu = drop (unat nb) sdu"
        using pos True by (metis append_take_drop_id drop_drop le_add_diff_inverse2 less_imp_le)
      moreover have "seg_inventory nb (s # segs) = seg_inventory nb' segs" using so False by (simp add: nb'_def)
      ultimately show ?thesis using IH p by (simp del: seg_inventory.simps)
    qed
  qed
qed simp

lemma reassemble_concat: "reassemble_from (\<lambda>_. True) n segs sdu = Some (sdu @ concat (map seg_payload segs))"
  by (induction segs arbitrary: n sdu) simp_all

lemma cover_after: "\<forall>t \<in> set segs. n \<le> unat (seg_so t) \<Longrightarrow> x \<in> seg_cover segs \<Longrightarrow> n \<le> x"
  by (force simp: seg_cover_def seg_range_def)

lemma scan_stored:
  "segs_ok segs \<Longrightarrow> seg_ok new \<Longrightarrow> fst (seg_scan new segs) \<longleftrightarrow> \<not> seg_range new \<subseteq> seg_cover segs"
proof (induction segs arbitrary: new)
  case Nil
  then show ?case using seg_end_pos [of new] by (simp add: seg_range_def)
next
  case (Cons cur segs)
  have ok: "seg_ok cur" "segs_ok segs" "seg_ok new" and after: "\<forall>t \<in> set segs. seg_end cur \<le> unat (seg_so t)"
    using Cons.prems by simp_all
  note pos = seg_end_pos [OF ok(1)] seg_end_pos [OF ok(3)]
  note scan = seg_scan_Cons [OF ok(1,3), of segs]
  have low: "x \<in> seg_cover segs \<Longrightarrow> seg_end cur \<le> x" for x by (rule cover_after [OF after])
  consider (behind) "seg_end cur \<le> unat (seg_so new)"
    | (inside) "unat (seg_so cur) \<le> unat (seg_so new)" "unat (seg_so new) < seg_end cur" "seg_end new \<le> seg_end cur"
    | (over) "unat (seg_so cur) \<le> unat (seg_so new)" "unat (seg_so new) < seg_end cur" "seg_end cur < seg_end new"
    | (before) "unat (seg_so new) < unat (seg_so cur)"
    by linarith
  then show ?case
  proof cases
    case behind
    then have "seg_range new \<inter> seg_range cur = {}" by (auto simp: seg_range_def)
    then have "seg_range new \<subseteq> seg_cover (cur # segs) \<longleftrightarrow> seg_range new \<subseteq> seg_cover segs" by auto
    then show ?thesis using Cons.IH [OF ok(2,3)] behind
      by (cases "seg_scan new segs") (simp add: scan del: seg_scan.simps)
  next
    case inside
    then have "seg_range new \<subseteq> seg_range cur" by (auto simp: seg_range_def)
    then show ?thesis using inside by (auto simp: scan simp del: seg_scan.simps)
  next
    case over
    let ?new = "seg_trim (seg_last_byte cur + 1) new"
    have t: "seg_ok ?new" "seg_range ?new = {seg_end cur..<seg_end new}"
      using seg_trim_facts [OF ok(3), of "seg_last_byte cur + 1"] seg_range_trim [OF ok(3), of "seg_last_byte cur + 1"]
        over seg_last_unat [OF ok(1)] by simp_all
    have "seg_range new \<subseteq> seg_cover (cur # segs) \<longleftrightarrow> seg_range ?new \<subseteq> seg_cover segs"
    proof -
      have "seg_range new = {unat (seg_so new) ..< seg_end cur} \<union> seg_range ?new" "{unat (seg_so new) ..< seg_end cur} \<subseteq> seg_range cur"
        "seg_range ?new \<inter> seg_range cur = {}"
        using over unfolding t(2) by (auto simp: seg_range_def)
      then show ?thesis unfolding seg_cover_simps by blast
    qed
    then show ?thesis using Cons.IH [OF ok(2) t(1)] over
      by (cases "seg_scan ?new segs") (simp add: scan del: seg_scan.simps)
  next
    case before
    have "unat (seg_so new) \<in> seg_range new" using pos by (simp add: seg_range_def)
    moreover have n: "unat (seg_so new) \<notin> seg_cover segs" using low [of "unat (seg_so new)"] before pos by auto
    moreover have "unat (seg_so new) \<notin> seg_range cur" using before by (simp add: seg_range_def)
    ultimately have "\<not> seg_range new \<subseteq> seg_cover (cur # segs)" "\<not> seg_range new \<subseteq> seg_cover segs" by auto
    then show ?thesis using Cons.IH [OF ok(2,3)] before pos by (simp add: scan del: seg_scan.simps)
  qed
qed

section \<open>Correctness of reassembly\<close>

text \<open>C34. Storing a segment keeps the buffer sorted and free of overlaps, whatever overlaps the segment has with it; the
  buffer then covers exactly what it covered before and the bytes of the new segment, each stored segment is the new
  one or a stored one, possibly shortened at its front, and the result tells whether the segment brought any new byte.\<close>

theorem store_segment_effect:
  assumes "segs_ok segs" "seg_ok new"
  shows "segs_ok (snd (store_segment new segs)) \<and>
    seg_cover (snd (store_segment new segs)) = seg_range new \<union> seg_cover segs \<and>
    (\<forall>t \<in> set (snd (store_segment new segs)). \<exists>s \<in> set (new # segs). seg_suffix t s) \<and>
    (fst (store_segment new segs) \<longleftrightarrow> \<not> seg_range new \<subseteq> seg_cover segs)"
  using merge_result [OF assms] scan_stored [OF assms] store_segment_merge [OF assms]
  by (simp add: store_segment_def split: prod.splits)

theorem store_segment_effect_witness:
  "seg_cover (snd (store_segment \<lparr>seg_si = middle_segment, seg_so = 1, seg_payload = [7, 8]\<rparr>
      [\<lparr>seg_si = last_segment, seg_so = 2, seg_payload = [8, 9]\<rparr>])) = {1 ..< 4}"
proof -
  let ?s = "\<lparr>seg_si = middle_segment, seg_so = 1, seg_payload = [7, 8]\<rparr>"
    and ?t = "\<lparr>seg_si = last_segment, seg_so = 2, seg_payload = [8, 9]\<rparr>"
  have ok: "segs_ok [?t]" "seg_ok ?s" by (simp_all add: seg_ok_def seg_end_def)
  have "seg_range ?s \<union> seg_cover [?t] = {1 ..< 4}" by (auto simp: seg_range_def seg_end_def)
  then show ?thesis using store_segment_effect [OF ok] by simp
qed

lemma store_all_of:
  assumes "\<forall>s \<in> set (pieces @ segs). seg_of sdu s" "segs_ok segs" "length sdu \<le> 2 ^ 16"
  shows "segs_ok (fold (\<lambda>s segs. snd (store_segment s segs)) pieces segs) \<and>
    (\<forall>s \<in> set (fold (\<lambda>s segs. snd (store_segment s segs)) pieces segs). seg_of sdu s) \<and>
    seg_cover (fold (\<lambda>s segs. snd (store_segment s segs)) pieces segs) = seg_cover pieces \<union> seg_cover segs"
  using assms
proof (induction pieces arbitrary: segs)
  case (Cons p pieces)
  let ?segs = "snd (store_segment p segs)"
  have ok: "seg_ok p" using Cons.prems(1,3) by (auto intro: seg_of_ok)
  have r: "segs_ok ?segs" "seg_cover ?segs = seg_range p \<union> seg_cover segs"
    "\<forall>t \<in> set ?segs. \<exists>s \<in> set (p # segs). seg_suffix t s"
    using merge_result [OF Cons.prems(2) ok] by (simp_all add: store_segment_merge [OF Cons.prems(2) ok])
  have "seg_of sdu t" if "t \<in> set ?segs" for t
  proof -
    from r(3) that have "\<exists>s \<in> set (p # segs). seg_suffix t s" by (rule bspec)
    then obtain s where "s \<in> set (p # segs)" "seg_suffix t s" by (rule bexE)
    moreover have "seg_ok t" using r(1) that by (simp add: segs_ok_def)
    moreover have "seg_of sdu s" using Cons.prems(1) \<open>s \<in> set (p # segs)\<close> by auto
    ultimately show ?thesis using seg_of_suffix by blast
  qed
  then have "\<forall>s \<in> set (pieces @ ?segs). seg_of sdu s" using Cons.prems(1) by auto
  note IH = Cons.IH [OF this r(1) Cons.prems(3)]
  have f: "fold (\<lambda>s segs. snd (store_segment s segs)) (p # pieces) segs =
    fold (\<lambda>s segs. snd (store_segment s segs)) pieces ?segs" by simp
  have c: "seg_cover pieces \<union> (seg_range p \<union> seg_cover segs) = seg_cover (p # pieces) \<union> seg_cover segs"
    unfolding seg_cover_simps by blast
  from IH show ?case unfolding f r(2) c .
qed simp

text \<open>All segments of one SDU, one after the other, into an empty buffer.\<close>

definition store_segments :: "um_segment list \<Rightarrow> um_segment list" where
  "store_segments pieces = fold (\<lambda>s segs. snd (store_segment s segs)) pieces []"

lemma store_segments_snoc: "store_segments (pieces @ [p]) = snd (store_segment p (store_segments pieces))"
  by (simp add: store_segments_def)

lemma store_segments_result:
  assumes "\<forall>s \<in> set pieces. seg_of sdu s" "sdu \<noteq> []" "length sdu \<le> 2 ^ 16"
  shows "fst (update_segment_inventory (store_segments pieces)) \<longleftrightarrow> seg_cover pieces = {0 ..< length sdu}"
    and "seg_cover pieces = {0 ..< length sdu} \<Longrightarrow> reassemble_sdu (\<lambda>_. True) True (store_segments pieces) = Some sdu"
proof -
  let ?buf = "store_segments pieces"
  have b: "segs_ok ?buf" "\<forall>s \<in> set ?buf. seg_of sdu s" "seg_cover ?buf = seg_cover pieces"
    using store_all_of [of pieces "[]" sdu] assms(1,3) by (simp_all add: store_segments_def)
  have i: "(fst (seg_inventory 0 ?buf) \<longleftrightarrow> seg_cover ?buf = {0 ..< length sdu}) \<and>
      (fst (seg_inventory 0 ?buf) \<longrightarrow> concat (map seg_payload ?buf) = sdu)"
    using inventory_complete [OF b(1,2), of 0] assms(2,3) by simp
  have "fst (update_segment_inventory ?buf) = fst (seg_inventory 0 ?buf)" by (simp add: update_segment_inventory_def)
  then show "fst (update_segment_inventory ?buf) \<longleftrightarrow> seg_cover pieces = {0 ..< length sdu}"
    "seg_cover pieces = {0 ..< length sdu} \<Longrightarrow> reassemble_sdu (\<lambda>_. True) True ?buf = Some sdu"
    using i b(3) by (simp_all add: reassemble_sdu_def reassemble_concat)
qed

text \<open>Reassembly: the segments of one SDU may arrive in any order, repeatedly and cut in any way; the buffer is
  flagged as fully received exactly when every byte of the SDU has arrived, and what is then delivered is the SDU.\<close>

theorem segments_reassemble_sdu:
  assumes "\<forall>s \<in> set pieces. seg_of sdu s" "sdu \<noteq> []" "length sdu \<le> 2 ^ 16"
  defines "buf \<equiv> fold (\<lambda>s segs. snd (store_segment s segs)) pieces []"
  shows "(fst (update_segment_inventory buf) \<longleftrightarrow> seg_cover pieces = {0 ..< length sdu}) \<and>
    (fst (update_segment_inventory buf) \<longrightarrow> reassemble_sdu (\<lambda>_. True) (fst (update_segment_inventory buf)) buf = Some sdu)"
  using store_segments_result [OF assms(1-3)] by (auto simp: buf_def store_segments_def)

theorem segments_reassemble_sdu_witness:
  "\<exists>buf. fst (update_segment_inventory buf) \<and> reassemble_sdu (\<lambda>_. True) True buf = Some [1, 2, 3]"
proof -
  let ?p = "[\<lparr>seg_si = last_segment, seg_so = 1, seg_payload = [2, 3 :: byte]\<rparr>,
    \<lparr>seg_si = first_segment, seg_so = 0, seg_payload = [1, 2]\<rparr>]"
  have o: "\<forall>s \<in> set ?p. seg_of [1, 2, 3] s" by (simp add: seg_of_def seg_end_def)
  have "seg_cover ?p = {0 ..< length [1, 2, 3 :: byte]}" by (auto simp: seg_range_def seg_end_def)
  then show ?thesis using segments_reassemble_sdu [OF o] by fastforce
qed

end
