(* ===== verification/Rlc_Um_Rx.thy ===== *)
theory Rlc_Um_Rx
  imports Rlc_Segments Sdu_Window
begin

text \<open>
  The receiving RLC UM entity (\<open>lib/rlc/rlc_rx_um_entity.cpp\<close>). t-Reassembly is a flag; its expiry is an
  operation. The trace holds the SDUs handed to the upper layer. The metrics of latencies, which read the clock, and
  the time stamps they use are left out.
\<close>

section \<open>State\<close>

record um_sdu_info =
  fully_received :: bool
  has_gap :: bool
  segments :: "um_segment list"

definition um_sdu_info_new :: um_sdu_info where
  "um_sdu_info_new = \<lparr>fully_received = False, has_gap = False, segments = []\<rparr>"

record rlc_rx_metrics =
  rm_num_sdus :: u32
  rm_num_sdu_bytes :: u64
  rm_num_pdus :: u32
  rm_num_pdu_bytes :: u64
  rm_num_lost_pdus :: u32
  rm_num_malformed_pdus :: u32

definition rlc_rx_metrics_zero :: rlc_rx_metrics where
  "rlc_rx_metrics_zero = \<lparr>rm_num_sdus = 0, rm_num_sdu_bytes = 0, rm_num_pdus = 0, rm_num_pdu_bytes = 0,
    rm_num_lost_pdus = 0, rm_num_malformed_pdus = 0\<rparr>"

record rlc_rx_um =
  ur_cfg :: rlc_rx_um_config
  rx_next_reassembly :: u32
  rx_timer_trigger :: u32
  rx_next_highest :: u32
  ur_window :: "(32 word, um_sdu_info) circular_map"
  reassembly_timer_running :: bool
  ur_metrics_enabled :: bool
  ur_metrics :: rlc_rx_metrics
  ur_out :: "bytes list"

definition ur_mod :: "rlc_rx_um \<Rightarrow> u32" where
  "ur_mod s = rlc_cardinality (rlc_um_sn_size_to_number (rx_sn_field_length (ur_cfg s)))"

definition um_window_size :: "rlc_rx_um \<Rightarrow> u32" where
  "um_window_size s = rlc_window_size (rlc_um_sn_size_to_number (rx_sn_field_length (ur_cfg s)))"

definition um_create_rx_window :: "rlc_um_sn_size \<Rightarrow> (32 word, um_sdu_info) circular_map" where
  "um_create_rx_window sn_size = cm_new (unat (rlc_window_size (rlc_um_sn_size_to_number sn_size)))"

definition rlc_rx_um_entity :: "bool \<Rightarrow> rlc_rx_um_config \<Rightarrow> rlc_rx_um" where
  "rlc_rx_um_entity metrics_enabled cfg =
    \<lparr>ur_cfg = cfg, rx_next_reassembly = 0, rx_timer_trigger = 0, rx_next_highest = 0,
     ur_window = um_create_rx_window (rx_sn_field_length cfg), reassembly_timer_running = False,
     ur_metrics_enabled = metrics_enabled, ur_metrics = rlc_rx_metrics_zero, ur_out = []\<rparr>"

definition ur_stop :: "rlc_rx_um \<Rightarrow> rlc_rx_um" where
  "ur_stop s = s\<lparr>reassembly_timer_running := False\<rparr>"

section \<open>Metrics\<close>

definition ur_metric :: "(rlc_rx_metrics \<Rightarrow> rlc_rx_metrics) \<Rightarrow> rlc_rx_um \<Rightarrow> rlc_rx_um" where
  "ur_metric f s = (if \<not> ur_metrics_enabled s then s else s\<lparr>ur_metrics := f (ur_metrics s)\<rparr>)"

definition ur_add_sdus :: "u32 \<Rightarrow> nat \<Rightarrow> rlc_rx_um \<Rightarrow> rlc_rx_um" where
  "ur_add_sdus n bytes = ur_metric (\<lambda>m. m\<lparr>rm_num_sdus := rm_num_sdus m + n,
    rm_num_sdu_bytes := rm_num_sdu_bytes m + word_of_nat bytes\<rparr>)"

definition ur_add_pdus :: "u32 \<Rightarrow> nat \<Rightarrow> rlc_rx_um \<Rightarrow> rlc_rx_um" where
  "ur_add_pdus n bytes = ur_metric (\<lambda>m. m\<lparr>rm_num_pdus := rm_num_pdus m + n,
    rm_num_pdu_bytes := rm_num_pdu_bytes m + word_of_nat bytes\<rparr>)"

definition ur_add_lost_pdus :: "u32 \<Rightarrow> rlc_rx_um \<Rightarrow> rlc_rx_um" where
  "ur_add_lost_pdus n = ur_metric (\<lambda>m. m\<lparr>rm_num_lost_pdus := rm_num_lost_pdus m + n\<rparr>)"

definition ur_add_malformed_pdus :: "u32 \<Rightarrow> rlc_rx_um \<Rightarrow> rlc_rx_um" where
  "ur_add_malformed_pdus n = ur_metric (\<lambda>m. m\<lparr>rm_num_malformed_pdus := rm_num_malformed_pdus m + n\<rparr>)"

definition ur_deliver :: "bytes \<Rightarrow> rlc_rx_um \<Rightarrow> rlc_rx_um" where
  "ur_deliver sdu s = (ur_add_sdus 1 (length sdu) s)\<lparr>ur_out := ur_out s @ [sdu]\<rparr>"

section \<open>Windows\<close>

definition rx_mod_base :: "rlc_rx_um \<Rightarrow> u32 \<Rightarrow> u32" where
  "rx_mod_base s x = (x - rx_next_highest s - um_window_size s) mod ur_mod s"

definition sn_in_reassembly_window :: "rlc_rx_um \<Rightarrow> u32 \<Rightarrow> bool" where
  "sn_in_reassembly_window s sn \<longleftrightarrow>
    rx_mod_base s (rx_next_highest s - um_window_size s) \<le> rx_mod_base s sn \<and>
    rx_mod_base s sn < rx_mod_base s (rx_next_highest s)"

definition sn_invalid_for_rx_buffer :: "rlc_rx_um \<Rightarrow> u32 \<Rightarrow> bool" where
  "sn_invalid_for_rx_buffer s sn \<longleftrightarrow>
    rx_mod_base s (rx_next_highest s - um_window_size s) \<le> rx_mod_base s sn \<and>
    rx_mod_base s sn < rx_mod_base s (rx_next_reassembly s)"

definition ur_fully_received :: "rlc_rx_um \<Rightarrow> u32 \<Rightarrow> bool" where
  "ur_fully_received s sn \<longleftrightarrow> (case cm_at (ur_window s) sn of None \<Rightarrow> False | Some i \<Rightarrow> fully_received i)"

definition ur_remove :: "u32 \<Rightarrow> rlc_rx_um \<Rightarrow> rlc_rx_um" where
  "ur_remove sn s = s\<lparr>ur_window := remove_sn (ur_window s) sn\<rparr>"

section \<open>Segments\<close>

definition handle_segment_data_sdu :: "rlc_um_pdu_header \<Rightarrow> bytes \<Rightarrow> rlc_rx_um \<Rightarrow> bool \<times> rlc_rx_um" where
  "handle_segment_data_sdu h payload s =
    (if um_si h = full_sdu then (False, s)
     else
       let sn = ucast (um_sn h);
           w = (if has_sn (ur_window s) sn then ur_window s else add_sn (ur_window s) sn um_sdu_info_new)
       in case cm_at w sn of
            None \<Rightarrow> (False, s)
          | Some info \<Rightarrow>
              (let (stored, segs) = store_segment \<lparr>seg_si = um_si h, seg_so = um_so h, seg_payload = payload\<rparr> (segments info);
                   (full, gap) = update_segment_inventory segs
               in (stored, s\<lparr>ur_window := cm_assign w sn \<lparr>fully_received = full, has_gap = gap, segments = segs\<rparr>\<rparr>)))"

section \<open>Moving the window\<close>

text \<open>
  The loops that walk from \<open>sn\<close> towards RX_Next_Highest. \<open>n\<close> bounds the rounds; the callers pass the
  modulus, and every loop ends within it.
\<close>

fun ur_skip_complete :: "nat \<Rightarrow> u32 \<Rightarrow> rlc_rx_um \<Rightarrow> u32 \<times> rlc_rx_um" where
  "ur_skip_complete 0 sn s = (sn, s)"
| "ur_skip_complete (Suc n) sn s =
    (if rx_mod_base s sn < rx_mod_base s (rx_next_highest s) \<and> ur_fully_received s sn
     then ur_skip_complete n ((sn + 1) mod ur_mod s) (ur_remove sn s)
     else (sn, s))"

text \<open>One SN that is given up: it counts as lost unless its SDU is complete.\<close>

definition ur_give_up :: "u32 \<Rightarrow> rlc_rx_um \<Rightarrow> rlc_rx_um" where
  "ur_give_up sn s =
    (case cm_at (ur_window s) sn of
       Some i \<Rightarrow> ur_remove sn (if \<not> fully_received i then ur_add_lost_pdus 1 s else s)
     | None \<Rightarrow> ur_add_lost_pdus 1 s)"

fun ur_clean_outside :: "nat \<Rightarrow> u32 \<Rightarrow> rlc_rx_um \<Rightarrow> u32 \<times> rlc_rx_um" where
  "ur_clean_outside 0 sn s = (sn, s)"
| "ur_clean_outside (Suc n) sn s =
    (if \<not> sn_in_reassembly_window s sn then ur_clean_outside n ((sn + 1) mod ur_mod s) (ur_give_up sn s)
     else (sn, s))"

text \<open>The loop of the timer: everything below RX_Timer_Trigger, then complete SDUs.\<close>

fun ur_clean_expired :: "nat \<Rightarrow> u32 \<Rightarrow> rlc_rx_um \<Rightarrow> u32 \<times> rlc_rx_um" where
  "ur_clean_expired 0 sn s = (sn, s)"
| "ur_clean_expired (Suc n) sn s =
    (if rx_mod_base s sn < rx_mod_base s (rx_next_highest s) then
       (if rx_mod_base s sn < rx_mod_base s (rx_timer_trigger s)
        then ur_clean_expired n ((sn + 1) mod ur_mod s) (ur_give_up sn s)
        else if ur_fully_received s sn then ur_clean_expired n ((sn + 1) mod ur_mod s) (ur_remove sn s)
        else (sn, s))
     else (sn, s))"

definition ur_has_gap :: "rlc_rx_um \<Rightarrow> u32 \<Rightarrow> bool option" where
  "ur_has_gap s sn = map_option has_gap (cm_at (ur_window s) sn)"

text \<open>Whether t-Reassembly is to be started, at the end of \<open>handle_pdu\<close> and on its expiry.\<close>

definition ur_restart_condition :: "rlc_rx_um \<Rightarrow> bool" where
  "ur_restart_condition s \<longleftrightarrow>
    rx_mod_base s (rx_next_highest s) > rx_mod_base s (rx_next_reassembly s + 1) \<or>
    rx_mod_base s (rx_next_highest s) = rx_mod_base s (rx_next_reassembly s + 1) \<and>
      ur_has_gap s (rx_next_highest s) = Some True"

definition ur_start_timer :: "rlc_rx_um \<Rightarrow> rlc_rx_um" where
  "ur_start_timer s =
    (if ur_restart_condition s then s\<lparr>reassembly_timer_running := True, rx_timer_trigger := rx_next_highest s\<rparr> else s)"

definition ur_stop_condition :: "rlc_rx_um \<Rightarrow> bool" where
  "ur_stop_condition s \<longleftrightarrow>
    rx_timer_trigger s \<le> rx_next_reassembly s \<or>
    \<not> sn_in_reassembly_window s (rx_timer_trigger s) \<and> rx_timer_trigger s \<noteq> rx_next_highest s \<or>
    rx_next_highest s = rx_next_reassembly s + 1 \<and> ur_has_gap s (rx_next_highest s) = Some False"

definition ur_update_timer :: "rlc_rx_um \<Rightarrow> rlc_rx_um" where
  "ur_update_timer s =
    (let s = (if reassembly_timer_running s \<and> ur_stop_condition s then s\<lparr>reassembly_timer_running := False\<rparr> else s)
     in if \<not> reassembly_timer_running s then ur_start_timer s else s)"

section \<open>PDUs\<close>

text \<open>The SDU of \<open>sn\<close> is complete: it is delivered and its segments are released.\<close>

definition ur_complete_sdu :: "(nat \<Rightarrow> bool) \<Rightarrow> u32 \<Rightarrow> um_sdu_info \<Rightarrow> rlc_rx_um \<Rightarrow> rlc_rx_um" where
  "ur_complete_sdu ok sn info s =
    (let s = (case reassemble_sdu ok (fully_received info) (segments info) of
                None \<Rightarrow> ur_add_lost_pdus 1 s
              | Some sdu \<Rightarrow> ur_deliver sdu s);
         s = s\<lparr>ur_window := cm_assign (ur_window s) sn (info\<lparr>segments := []\<rparr>)\<rparr>
     in if sn = rx_next_reassembly s then
          let (sn_upd, s) = ur_skip_complete (unat (ur_mod s)) (rx_next_reassembly s mod ur_mod s) s
          in s\<lparr>rx_next_reassembly := sn_upd\<rparr>
        else s)"

text \<open>The SN lies above the reassembly window: the window moves up to it.\<close>

definition ur_advance_window :: "u32 \<Rightarrow> rlc_rx_um \<Rightarrow> rlc_rx_um" where
  "ur_advance_window sn s =
    (let s = s\<lparr>rx_next_highest := (sn + 1) mod ur_mod s\<rparr>;
         (sn_upd, s) = ur_clean_outside (unat (ur_mod s)) (rx_next_reassembly s mod ur_mod s) s;
         (sn_upd, s) = ur_skip_complete (unat (ur_mod s)) sn_upd s
     in s\<lparr>rx_next_reassembly := sn_upd\<rparr>)"

text \<open>\<open>ok n\<close>: there is memory for the \<open>n\<close>-th allocation of the SDU buffer.\<close>

definition ur_handle_pdu :: "(nat \<Rightarrow> bool) \<Rightarrow> bytes \<Rightarrow> rlc_rx_um \<Rightarrow> rlc_rx_um" where
  "ur_handle_pdu ok buf s =
    (let s = ur_add_pdus 1 (length buf) s
     in case rlc_um_read_data_pdu_header buf (rx_sn_field_length (ur_cfg s)) of
          None \<Rightarrow> ur_add_malformed_pdus 1 s
        | Some h \<Rightarrow>
            if length buf \<le> rlc_um_nr_packed_length h then s
            else
              let payload = drop (rlc_um_nr_packed_length h) buf; sn = ucast (um_sn h)
              in if um_si h = full_sdu then (if ok 0 then ur_deliver payload s else ur_add_lost_pdus 1 s)
                 else if sn_invalid_for_rx_buffer s sn then s
                 else
                   let s = snd (handle_segment_data_sdu h payload s);
                       s = (case cm_at (ur_window s) sn of
                              Some info \<Rightarrow>
                                if fully_received info then ur_complete_sdu ok sn info s
                                else if \<not> sn_in_reassembly_window s sn then ur_advance_window sn s else s
                            | None \<Rightarrow> if \<not> sn_in_reassembly_window s sn then ur_advance_window sn s else s)
                   in ur_update_timer s)"

text \<open>The callback of t-Reassembly, which is set only for a positive duration.\<close>

definition ur_on_expired_reassembly_timer :: "rlc_rx_um \<Rightarrow> rlc_rx_um" where
  "ur_on_expired_reassembly_timer s =
    (let (sn_upd, s) = ur_clean_expired (unat (ur_mod s)) (rx_next_reassembly s) s;
         s = s\<lparr>rx_next_reassembly := sn_upd\<rparr>
     in ur_start_timer s)"

definition ur_timer_expires :: "rlc_rx_um \<Rightarrow> rlc_rx_um" where
  "ur_timer_expires s = ur_on_expired_reassembly_timer (s\<lparr>reassembly_timer_running := False\<rparr>)"

end
