(* ===== verification/Rlc_Um_Rx_Inv.thy ===== *)
theory Rlc_Um_Rx_Inv
  imports Rlc_Um_Rx
begin

text \<open>
  The modular arithmetic of the reassembly window, the end of the loops that move it, and the invariant that every
  operation of the receiving entity keeps.
\<close>

section \<open>Positions in the window\<close>

text \<open>
  The position of a sequence number, counted from the lower edge of the reassembly window: the window is
  \<open>[0, w)\<close>, RX_Next_Highest is at \<open>w\<close>, and all sequence numbers lie in \<open>[0, 2 w)\<close>.
\<close>

definition um_w :: "rlc_rx_um \<Rightarrow> int" where
  "um_w s = uint (um_window_size s)"

definition sn_pos :: "rlc_rx_um \<Rightarrow> u32 \<Rightarrow> int" where
  "sn_pos s x = uint (rx_mod_base s x)"

lemma um_sizes:
  "um_w s = (if rx_sn_field_length (ur_cfg s) = um_size6bits then 32 else 2048)"
  "uint (ur_mod s) = 2 * um_w s" "0 < um_w s"
  by (cases "rx_sn_field_length (ur_cfg s)";
      simp add: um_w_def um_window_size_def ur_mod_def rlc_window_size_def rlc_cardinality_def)+

lemma um_w_dvd: "2 * um_w s dvd 2 ^ 32"
  by (simp add: um_sizes(1))

lemma uint_Suc_mod: "uint ((x + 1) mod ur_mod s) = (uint x + 1) mod (2 * um_w s)"
proof -
  have "x + 1 = word_of_int (uint x + 1)" by simp
  then have "uint (x + 1) = (uint x + 1) mod 2 ^ 32" by (simp only: uint_word_of_int) simp
  then show ?thesis unfolding uint_mod um_sizes(2) by (simp only: mod_mod_cancel [OF um_w_dvd])
qed

lemma mod_diff_shift: "((a :: int) mod m - b - c) mod m = (a - b - c) mod m"
  using mod_diff_left_eq [of a m "b + c"] by (simp add: diff_diff_eq)

lemma mod_diff_both: "((a :: int) mod m - b mod m - c) mod m = (a - b - c) mod m"
proof -
  have "(a mod m - b mod m - c) mod m = (a - b mod m - c) mod m" by (rule mod_diff_shift)
  also have "\<dots> = ((a - c) - b mod m) mod m" by (simp add: algebra_simps)
  also have "\<dots> = ((a - c) - b) mod m" by (rule mod_diff_right_eq)
  also have "(a - c) - b = a - b - c" by simp
  finally show ?thesis .
qed

lemma sn_pos_of_int: "sn_pos s (word_of_int z) = (z - uint (rx_next_highest s) - um_w s) mod (2 * um_w s)"
proof -
  have "word_of_int z - rx_next_highest s - um_window_size s =
      (word_of_int (z - uint (rx_next_highest s) - um_w s) :: u32)"
    by (simp add: um_w_def)
  then have "uint (word_of_int z - rx_next_highest s - um_window_size s :: u32) =
      (z - uint (rx_next_highest s) - um_w s) mod 2 ^ 32"
    by (simp only: uint_word_of_int) simp
  then show ?thesis
    unfolding sn_pos_def rx_mod_base_def uint_mod um_sizes(2) by (simp only: mod_mod_cancel [OF um_w_dvd])
qed

lemma sn_pos_uint: "sn_pos s x = (uint x - uint (rx_next_highest s) - um_w s) mod (2 * um_w s)"
  using sn_pos_of_int [of s "uint x"] by simp

lemma sn_pos_bounds [simp]: "0 \<le> sn_pos s x" "sn_pos s x < 2 * um_w s"
  using um_sizes(3) [of s] by (simp_all add: sn_pos_uint)

lemma sn_pos_mod: "sn_pos s (x mod ur_mod s) = sn_pos s x"
proof -
  have "uint (x mod ur_mod s) = uint x mod (2 * um_w s)" by (simp add: uint_mod um_sizes(2))
  then show ?thesis unfolding sn_pos_uint by (simp only: mod_diff_shift)
qed

lemma sn_pos_highest [simp]: "sn_pos s (rx_next_highest s) = um_w s"
proof -
  have "(- um_w s) mod (2 * um_w s) = um_w s" using um_sizes(3) [of s] by (simp add: zmod_zminus1_eq_if)
  then show ?thesis by (simp add: sn_pos_uint)
qed

lemma sn_pos_lowest [simp]: "sn_pos s (rx_next_highest s - um_window_size s) = 0"
proof -
  have e: "rx_next_highest s - um_window_size s = word_of_int (uint (rx_next_highest s) - um_w s)"
    by (simp add: um_w_def)
  have "(- um_w s - um_w s) mod (2 * um_w s) = 0" by (simp add: mod_eq_0_iff_dvd)
  then show ?thesis unfolding e sn_pos_of_int by (simp add: algebra_simps)
qed

lemma sn_pos_Suc:
  assumes "sn_pos s x + 1 < 2 * um_w s"
  shows "sn_pos s ((x + 1) mod ur_mod s) = sn_pos s x + 1"
proof -
  have "sn_pos s ((x + 1) mod ur_mod s) = ((uint x + 1) - uint (rx_next_highest s) - um_w s) mod (2 * um_w s)"
    unfolding sn_pos_uint uint_Suc_mod by (rule mod_diff_shift)
  also have "\<dots> = (sn_pos s x + 1) mod (2 * um_w s)"
    unfolding sn_pos_uint mod_add_left_eq by (simp add: algebra_simps)
  also have "\<dots> = sn_pos s x + 1" using assms by simp
  finally show ?thesis .
qed

text \<open>Sequence numbers have the configured width.\<close>

definition sn_ok :: "rlc_rx_um \<Rightarrow> u32 \<Rightarrow> bool" where
  "sn_ok s x \<longleftrightarrow> uint x < 2 * um_w s"

lemma sn_ok_eq:
  assumes "sn_ok s x" "sn_ok s y" "2 * um_w s dvd uint x - uint y"
  shows "x = y"
proof -
  have "\<bar>uint x - uint y\<bar> < 2 * um_w s"
    using assms(1,2) uint_ge_0 [of x] uint_ge_0 [of y] unfolding sn_ok_def by linarith
  then have "uint x = uint y" using assms(3) dvd_imp_le_int [of "uint x - uint y" "2 * um_w s"] by auto
  then show ?thesis by (simp only: word_uint_eq_iff)
qed

lemma sn_pos_inj: "sn_ok s x \<Longrightarrow> sn_ok s y \<Longrightarrow> sn_pos s x = sn_pos s y \<Longrightarrow> x = y"
  by (rule sn_ok_eq) (simp_all add: sn_pos_uint mod_eq_dvd_iff)

lemma window_iff:
  "sn_in_reassembly_window s x \<longleftrightarrow> sn_pos s x < um_w s"
  "sn_invalid_for_rx_buffer s x \<longleftrightarrow> sn_pos s x < sn_pos s (rx_next_reassembly s)"
  "rx_mod_base s x < rx_mod_base s y \<longleftrightarrow> sn_pos s x < sn_pos s y"
proof -
  show c: "rx_mod_base s x < rx_mod_base s y \<longleftrightarrow> sn_pos s x < sn_pos s y" for x y
    by (simp add: sn_pos_def word_less_def)
  have z: "rx_mod_base s (rx_next_highest s - um_window_size s) = 0"
    using sn_pos_lowest [of s] by (simp add: sn_pos_def uint_0_iff)
  show "sn_in_reassembly_window s x \<longleftrightarrow> sn_pos s x < um_w s"
    "sn_invalid_for_rx_buffer s x \<longleftrightarrow> sn_pos s x < sn_pos s (rx_next_reassembly s)"
    by (simp_all add: sn_in_reassembly_window_def sn_invalid_for_rx_buffer_def c z)
qed

text \<open>What the positions depend on.\<close>

definition same_pos :: "rlc_rx_um \<Rightarrow> rlc_rx_um \<Rightarrow> bool" where
  "same_pos s t \<longleftrightarrow> ur_cfg t = ur_cfg s \<and> rx_next_highest t = rx_next_highest s"

lemma same_pos_simps:
  assumes "same_pos s t"
  shows "sn_pos t = sn_pos s" "um_w t = um_w s" "ur_mod t = ur_mod s" "sn_ok t = sn_ok s" "um_window_size t = um_window_size s"
proof -
  show w: "um_w t = um_w s" and m: "ur_mod t = ur_mod s" and ws: "um_window_size t = um_window_size s"
    using assms by (simp_all add: same_pos_def um_w_def um_window_size_def ur_mod_def)
  show "sn_ok t = sn_ok s" using w by (simp add: sn_ok_def fun_eq_iff)
  show "sn_pos t = sn_pos s" using assms m ws by (simp add: sn_pos_def rx_mod_base_def same_pos_def fun_eq_iff)
qed

section \<open>Invariant\<close>

text \<open>
  RX_Next_Reassembly lies in the window or at its upper edge, and no stored SDU lies below it. (An SDU may lie above
  RX_Next_Highest: a PDU that claims to be the last segment at offset 0 completes its SDU at once, which does not
  move the window.)
\<close>

definition ur_inv :: "rlc_rx_um \<Rightarrow> bool" where
  "ur_inv s \<longleftrightarrow>
    sn_ok s (rx_next_reassembly s) \<and> sn_ok s (rx_next_highest s) \<and> sn_ok s (rx_timer_trigger s) \<and>
    sn_pos s (rx_next_reassembly s) \<le> um_w s \<and>
    cm_wf (ur_window s) \<and> int (cm_size (ur_window s)) = um_w s \<and>
    (\<forall>k. cm_at (ur_window s) k \<noteq> None \<longrightarrow> sn_ok s k \<and> sn_pos s (rx_next_reassembly s) \<le> sn_pos s k)"

lemma ur_inv_initial: "ur_inv (rlc_rx_um_entity m cfg)"
proof -
  let ?s = "rlc_rx_um_entity m cfg"
  have "sn_pos ?s 0 = um_w ?s" using sn_pos_highest [of ?s] by (simp add: rlc_rx_um_entity_def)
  then show ?thesis
    by (cases "rx_sn_field_length cfg")
      (simp_all add: ur_inv_def sn_ok_def rlc_rx_um_entity_def um_create_rx_window_def um_w_def um_window_size_def
        rlc_window_size_def rlc_cardinality_def)
qed

lemma Suc_mod_ok: "sn_ok s ((x + 1) mod ur_mod s)"
  using um_sizes(2,3) [of s] by (simp add: sn_ok_def uint_mod)

text \<open>What a walk over a stretch of the window does: positions in order, each given up or removed.\<close>

lemma frame_metric [simp]:
  "ur_cfg (ur_metric f s) = ur_cfg s" "rx_next_highest (ur_metric f s) = rx_next_highest s"
  "rx_next_reassembly (ur_metric f s) = rx_next_reassembly s" "rx_timer_trigger (ur_metric f s) = rx_timer_trigger s"
  "ur_window (ur_metric f s) = ur_window s" "ur_out (ur_metric f s) = ur_out s"
  "reassembly_timer_running (ur_metric f s) = reassembly_timer_running s"
  by (simp_all add: ur_metric_def)

lemma frame_adds [simp]:
  "ur_add_lost_pdus n = ur_metric (\<lambda>m. m\<lparr>rm_num_lost_pdus := rm_num_lost_pdus m + n\<rparr>)"
  by (simp add: ur_add_lost_pdus_def)

text \<open>\<open>t\<close> is \<open>s\<close> with the SDUs of \<open>D\<close> taken out of the window.\<close>

definition ur_cleared :: "rlc_rx_um \<Rightarrow> u32 set \<Rightarrow> rlc_rx_um \<Rightarrow> bool" where
  "ur_cleared s D t \<longleftrightarrow>
    same_pos s t \<and> rx_next_reassembly t = rx_next_reassembly s \<and> rx_timer_trigger t = rx_timer_trigger s \<and>
    reassembly_timer_running t = reassembly_timer_running s \<and> ur_out t = ur_out s \<and>
    cm_wf (ur_window t) \<and> cm_size (ur_window t) = cm_size (ur_window s) \<and>
    (\<forall>k. cm_at (ur_window t) k = (if k \<in> D then None else cm_at (ur_window s) k))"

lemma cleared_none: "cm_wf (ur_window s) \<Longrightarrow> ur_cleared s {} s"
  by (simp add: ur_cleared_def same_pos_def)

lemma cleared_trans: "ur_cleared s A t \<Longrightarrow> ur_cleared t B u \<Longrightarrow> ur_cleared s (A \<union> B) u"
  by (simp add: ur_cleared_def same_pos_def)

lemma cleared_give_up: "cm_wf (ur_window s) \<Longrightarrow> ur_cleared s {x} (ur_give_up x s)"
  by (auto simp: ur_cleared_def same_pos_def ur_give_up_def ur_remove_def window_simps split: option.splits)

section \<open>The loops\<close>

text \<open>
  The three loops are instances of one walk: from \<open>x\<close> on, as long as \<open>c\<close> holds, give up the SN and go on. Removing a
  complete SDU is giving it up, too.
\<close>

fun ur_walk :: "nat \<Rightarrow> (u32 \<Rightarrow> rlc_rx_um \<Rightarrow> bool) \<Rightarrow> u32 \<Rightarrow> rlc_rx_um \<Rightarrow> u32 \<times> rlc_rx_um" where
  "ur_walk 0 c x s = (x, s)"
| "ur_walk (Suc n) c x s = (if c x s then ur_walk n c ((x + 1) mod ur_mod s) (ur_give_up x s) else (x, s))"

lemma give_up_complete: "ur_fully_received s x \<Longrightarrow> ur_give_up x s = ur_remove x s"
  by (auto simp: ur_fully_received_def ur_give_up_def split: option.splits)

lemma loops_walk:
  "ur_skip_complete n x s = ur_walk n (\<lambda>k u. sn_pos u k < um_w u \<and> ur_fully_received u k) x s"
  "ur_clean_outside n x s = ur_walk n (\<lambda>k u. um_w u \<le> sn_pos u k) x s"
  "ur_clean_expired n x s = ur_walk n (\<lambda>k u. sn_pos u k < um_w u \<and>
    (sn_pos u k < sn_pos u (rx_timer_trigger u) \<or> ur_fully_received u k)) x s"
  by (induction n arbitrary: x s) (simp_all add: window_iff give_up_complete not_less)

text \<open>The distance from one sequence number to another, going up.\<close>

definition sn_dist :: "rlc_rx_um \<Rightarrow> u32 \<Rightarrow> u32 \<Rightarrow> int" where
  "sn_dist s x k = (uint k - uint x) mod (2 * um_w s)"

lemma sn_dist_pos: "sn_dist s x k = (sn_pos s k - sn_pos s x) mod (2 * um_w s)"
  by (simp add: sn_dist_def sn_pos_uint mod_diff_eq)

lemma sn_dist_bounds [simp]: "0 \<le> sn_dist s x k" "sn_dist s x k < 2 * um_w s" "sn_dist s x x = 0"
  using um_sizes(3) [of s] by (simp_all add: sn_dist_def)

lemma sn_dist_zero:
  assumes "sn_ok s x" "sn_ok s k"
  shows "sn_dist s x k \<le> 0 \<longleftrightarrow> k = x"
proof
  assume "sn_dist s x k \<le> 0"
  then have "sn_dist s x k = 0" by (simp add: order.antisym)
  then have "2 * um_w s dvd uint k - uint x" by (simp add: sn_dist_def mod_eq_0_iff_dvd)
  then show "k = x" by (rule sn_ok_eq [OF assms(2,1)])
qed simp

lemma sn_dist_next: "sn_dist s ((x + 1) mod ur_mod s) k = (sn_dist s x k - 1) mod (2 * um_w s)"
proof -
  have "sn_dist s ((x + 1) mod ur_mod s) k = (uint k - (uint x + 1)) mod (2 * um_w s)"
    unfolding sn_dist_def uint_Suc_mod by (rule mod_diff_right_eq)
  also have "\<dots> = (sn_dist s x k - 1) mod (2 * um_w s)"
    unfolding sn_dist_def mod_diff_left_eq by (simp add: algebra_simps)
  finally show ?thesis .
qed

lemma sn_dist_Suc: "0 < sn_dist s x k \<Longrightarrow> sn_dist s ((x + 1) mod ur_mod s) k = sn_dist s x k - 1"
  using sn_dist_bounds(2) [of s x k] unfolding sn_dist_next by (intro mod_pos_pos_trivial) linarith+

lemma sn_dist_round: "sn_dist s ((x + 1) mod ur_mod s) x = 2 * um_w s - 1"
  using um_sizes(3) [of s] by (simp add: sn_dist_next zmod_zminus1_eq_if)

definition sn_from :: "rlc_rx_um \<Rightarrow> u32 \<Rightarrow> u32 \<Rightarrow> u32 set" where
  "sn_from s x y = {k. sn_ok s k \<and> sn_dist s x k < sn_dist s x y}"

lemma sn_from_self [simp]: "sn_from s x x = {}"
  by (simp add: sn_from_def not_less)

lemma sn_from_Suc:
  assumes "sn_ok s x" "sn_dist s x y = sn_dist s ((x + 1) mod ur_mod s) y + 1"
  shows "sn_from s x y = insert x (sn_from s ((x + 1) mod ur_mod s) y)"
proof -
  let ?x = "(x + 1) mod ur_mod s"
  have "sn_dist s x k < sn_dist s x y \<longleftrightarrow> k = x \<or> sn_dist s ?x k < sn_dist s ?x y" if "sn_ok s k" for k
  proof (cases "k = x")
    case True
    then show ?thesis using assms(2) sn_dist_bounds(1) [of s ?x y] by simp
  next
    case False
    then have "0 < sn_dist s x k" using sn_dist_zero [OF assms(1) that] by simp
    then show ?thesis using sn_dist_Suc [of s x k] False assms(2) by linarith
  qed
  then show ?thesis using assms(1) unfolding sn_from_def by blast
qed

text \<open>
  A walk whose condition looks at the position of the SN and at its stored SDU stops at the first SN that fails the
  condition, and has cleared what lies before.
\<close>

definition walk_condition :: "(u32 \<Rightarrow> rlc_rx_um \<Rightarrow> bool) \<Rightarrow> bool" where
  "walk_condition c \<longleftrightarrow> (\<forall>k s t. same_pos s t \<longrightarrow> rx_timer_trigger t = rx_timer_trigger s \<longrightarrow>
    cm_at (ur_window t) k = cm_at (ur_window s) k \<longrightarrow> c k t = c k s)"

lemma walk_spec:
  assumes "walk_condition c" "sn_ok s x" "cm_wf (ur_window s)" "sn_ok s z" "\<not> c z s" "sn_dist s x z \<le> int n"
  shows "\<exists>y t. ur_walk n c x s = (y, t) \<and> sn_ok s y \<and> sn_dist s x y \<le> sn_dist s x z \<and>
    ur_cleared s (sn_from s x y) t \<and> \<not> c y s \<and> (\<forall>k \<in> sn_from s x y. c k s)"
  using assms(2-)
proof (induction n arbitrary: x s)
  case 0
  then have "z = x" using sn_dist_zero [of s x z] by simp
  then show ?case using 0 cleared_none by auto
next
  case (Suc n)
  show ?case
  proof (cases "c x s")
    case False
    then show ?thesis using Suc.prems cleared_none by auto
  next
    case True
    let ?x = "(x + 1) mod ur_mod s" and ?s = "ur_give_up x s"
    have cl: "ur_cleared s {x} ?s" by (rule cleared_give_up) (rule Suc.prems(2))
    then have sp: "same_pos s ?s" by (simp add: ur_cleared_def)
    note p = same_pos_simps [OF sp]
    have d: "sn_dist ?s = sn_dist s" and fr: "sn_from ?s = sn_from s" by (simp_all add: fun_eq_iff sn_dist_def sn_from_def p)
    have c: "c k ?s = c k s" if "k \<noteq> x" for k
      using assms(1) cl that unfolding walk_condition_def ur_cleared_def by (metis singletonD)
    have zx: "z \<noteq> x" using True Suc.prems(4) by blast
    then have "0 < sn_dist s x z" using sn_dist_zero [OF Suc.prems(1,3)] by simp
    then have dz: "sn_dist s ?x z = sn_dist s x z - 1" by (rule sn_dist_Suc)
    have "\<exists>y t. ur_walk n c ?x ?s = (y, t) \<and> sn_ok ?s y \<and> sn_dist ?s ?x y \<le> sn_dist ?s ?x z \<and>
      ur_cleared ?s (sn_from ?s ?x y) t \<and> \<not> c y ?s \<and> (\<forall>k \<in> sn_from ?s ?x y. c k ?s)"
      using Suc.prems cl c [OF zx] by (intro Suc.IH) (simp_all add: p d Suc_mod_ok dz ur_cleared_def)
    then obtain y t where y: "ur_walk n c ?x ?s = (y, t)" "sn_ok s y" "sn_dist s ?x y \<le> sn_dist s ?x z"
      "ur_cleared ?s (sn_from s ?x y) t" "\<not> c y ?s" "\<forall>k \<in> sn_from s ?x y. c k ?s"
      unfolding p d fr by blast
    have yx: "y \<noteq> x"
      using y(3) sn_dist_bounds(2) [of s x z] unfolding dz by (auto simp only: sn_dist_round)
    then have "0 < sn_dist s x y" using sn_dist_zero [OF Suc.prems(1) y(2)] by simp
    then have dy: "sn_dist s ?x y = sn_dist s x y - 1" by (rule sn_dist_Suc)
    have f: "sn_from s x y = insert x (sn_from s ?x y)" by (rule sn_from_Suc [OF Suc.prems(1)]) (simp add: dy)
    have "x \<notin> sn_from s ?x y" using sn_dist_bounds(2) [of s ?x y] unfolding sn_from_def mem_Collect_eq sn_dist_round by linarith
    then have "\<forall>k \<in> sn_from s ?x y. c k s" using y(6) c by metis
    then show ?thesis using y True dy dz c [OF yx] cleared_trans [OF cl y(4)] by (auto simp: f)
  qed
qed

text \<open>Distances that stay below the upper edge are differences of positions.\<close>

lemma sn_dist_diff: "sn_pos s x \<le> sn_pos s k \<Longrightarrow> sn_dist s x k = sn_pos s k - sn_pos s x"
  using sn_pos_bounds [of s x] sn_pos_bounds [of s k] unfolding sn_dist_pos by (intro mod_pos_pos_trivial) linarith+

lemma sn_dist_wrap: "sn_pos s k < sn_pos s x \<Longrightarrow> sn_dist s x k = sn_pos s k - sn_pos s x + 2 * um_w s"
proof -
  assume "sn_pos s k < sn_pos s x"
  then have "(sn_pos s k - sn_pos s x + 2 * um_w s) mod (2 * um_w s) = sn_pos s k - sn_pos s x + 2 * um_w s"
    using sn_pos_bounds [of s x] sn_pos_bounds [of s k] by (intro mod_pos_pos_trivial) linarith+
  then show ?thesis unfolding sn_dist_pos by (simp only: mod_add_self2)
qed

lemma walk_conditions [simp]:
  "walk_condition (\<lambda>k u. sn_pos u k < um_w u \<and> ur_fully_received u k)"
  "walk_condition (\<lambda>k u. um_w u \<le> sn_pos u k)"
  "walk_condition (\<lambda>k u. sn_pos u k < um_w u \<and> (sn_pos u k < sn_pos u (rx_timer_trigger u) \<or> ur_fully_received u k))"
  by (simp_all add: walk_condition_def same_pos_simps ur_fully_received_def)

lemma unat_mod_w: "int (unat (ur_mod s)) = 2 * um_w s"
  using um_sizes(2) [of s] by simp

text \<open>The loops that walk up to RX_Next_Highest: they end inside the window.\<close>

lemma upward_walk:
  assumes "walk_condition (\<lambda>k u. sn_pos u k < um_w u \<and> c k u)"
    and "sn_ok s x" "sn_pos s x \<le> um_w s" "cm_wf (ur_window s)" "sn_ok s (rx_next_highest s)"
  shows "\<exists>y t. ur_walk (unat (ur_mod s)) (\<lambda>k u. sn_pos u k < um_w u \<and> c k u) x s = (y, t) \<and> sn_ok s y \<and>
    sn_pos s x \<le> sn_pos s y \<and> sn_pos s y \<le> um_w s \<and> ur_cleared s {k. sn_ok s k \<and> sn_pos s x \<le> sn_pos s k \<and> sn_pos s k < sn_pos s y} t \<and>
    (sn_pos s y < um_w s \<longrightarrow> \<not> c y s) \<and>
    (\<forall>k. sn_ok s k \<longrightarrow> sn_pos s x \<le> sn_pos s k \<longrightarrow> sn_pos s k < sn_pos s y \<longrightarrow> c k s)"
proof -
  let ?z = "rx_next_highest s"
  have dz: "sn_dist s x ?z = um_w s - sn_pos s x" using assms(3) by (simp add: sn_dist_diff)
  have dn: "sn_dist s x ?z \<le> int (unat (ur_mod s))" unfolding unat_mod_w using sn_dist_bounds(2) [of s x ?z] by linarith
  have nz: "\<not> (sn_pos s ?z < um_w s \<and> c ?z s)" by simp
  obtain y t where y: "ur_walk (unat (ur_mod s)) (\<lambda>k u. sn_pos u k < um_w u \<and> c k u) x s = (y, t)" "sn_ok s y"
    "sn_dist s x y \<le> sn_dist s x ?z" "ur_cleared s (sn_from s x y) t" "\<not> (sn_pos s y < um_w s \<and> c y s)"
    "\<forall>k \<in> sn_from s x y. sn_pos s k < um_w s \<and> c k s"
    using walk_spec [OF assms(1,2,4,5) nz dn] by blast
  have xy: "sn_pos s x \<le> sn_pos s y"
  proof (rule ccontr)
    assume "\<not> sn_pos s x \<le> sn_pos s y"
    then have "sn_dist s x y = sn_pos s y - sn_pos s x + 2 * um_w s" by (intro sn_dist_wrap) simp
    then show False using y(3) dz sn_pos_bounds(1) [of s y] um_sizes(3) [of s] by linarith
  qed
  then have dy: "sn_dist s x y = sn_pos s y - sn_pos s x" by (rule sn_dist_diff)
  then have yw: "sn_pos s y \<le> um_w s" using y(3) dz by linarith
  have "sn_from s x y = {k. sn_ok s k \<and> sn_pos s x \<le> sn_pos s k \<and> sn_pos s k < sn_pos s y}"
  proof -
    have "sn_dist s x k < sn_dist s x y \<longleftrightarrow> sn_pos s x \<le> sn_pos s k \<and> sn_pos s k < sn_pos s y" for k
    proof (cases "sn_pos s x \<le> sn_pos s k")
      case True
      then show ?thesis by (simp add: sn_dist_diff dy)
    next
      case False
      then have "sn_dist s x k = sn_pos s k - sn_pos s x + 2 * um_w s" by (intro sn_dist_wrap) simp
      then show ?thesis using False dy yw sn_pos_bounds(1) [of s k] um_sizes(3) [of s] by linarith
    qed
    then show ?thesis by (auto simp: sn_from_def)
  qed
  then show ?thesis using y xy yw by auto
qed

text \<open>The loop that leaves what fell out of the window: it ends at the first SN inside.\<close>

lemma outside_walk:
  assumes "sn_ok s x" "cm_wf (ur_window s)" "sn_ok s z" "sn_pos s z = 0"
  shows "\<exists>t. ur_clean_outside (unat (ur_mod s)) x s = (if sn_pos s x < um_w s then x else z, t) \<and>
    ur_cleared s (if sn_pos s x < um_w s then {} else {k. sn_ok s k \<and> sn_pos s x \<le> sn_pos s k}) t"
proof (cases "sn_pos s x < um_w s")
  case True
  obtain n where n: "unat (ur_mod s) = Suc n" using unat_mod_w [of s] um_sizes(3) [of s] by (cases "unat (ur_mod s)") auto
  show ?thesis using True cleared_none [OF assms(2)] by (auto simp: loops_walk n)
next
  case False
  have dz: "sn_dist s x z = 2 * um_w s - sn_pos s x"
    using sn_dist_wrap [of s z x] False assms(4) um_sizes(3) [of s] by simp
  have dn: "sn_dist s x z \<le> int (unat (ur_mod s))" unfolding unat_mod_w using sn_dist_bounds(2) [of s x z] by linarith
  have nz: "\<not> um_w s \<le> sn_pos s z" using assms(4) um_sizes(3) [of s] by simp
  obtain y t where y: "ur_walk (unat (ur_mod s)) (\<lambda>k u. um_w u \<le> sn_pos u k) x s = (y, t)" "sn_ok s y"
    "sn_dist s x y \<le> sn_dist s x z" "ur_cleared s (sn_from s x y) t" "\<not> um_w s \<le> sn_pos s y"
    using walk_spec [OF walk_conditions(2) assms(1,2,3) nz dn] by blast
  have "sn_dist s x y = sn_pos s y - sn_pos s x + 2 * um_w s" using False y(5) by (intro sn_dist_wrap) simp
  then have "sn_pos s y = sn_pos s z" using y(3) dz assms(4) sn_pos_bounds(1) [of s y] by linarith
  then have yz: "y = z" by (rule sn_pos_inj [OF y(2) assms(3)])
  have "sn_dist s x k < sn_dist s x z \<longleftrightarrow> sn_pos s x \<le> sn_pos s k" for k
  proof (cases "sn_pos s x \<le> sn_pos s k")
    case True
    then show ?thesis using dz sn_pos_bounds(2) [of s k] by (simp add: sn_dist_diff)
  next
    case c: False
    then have "sn_dist s x k = sn_pos s k - sn_pos s x + 2 * um_w s" by (intro sn_dist_wrap) simp
    then show ?thesis using c dz sn_pos_bounds(1) [of s k] by linarith
  qed
  then have "sn_from s x z = {k. sn_ok s k \<and> sn_pos s x \<le> sn_pos s k}" by (auto simp: sn_from_def)
  then show ?thesis using y(1,4) yz False by (auto simp: loops_walk)
qed

section \<open>Operations keep the invariant\<close>

text \<open>RX_Next_Reassembly is the first SN that waits for data.\<close>

definition ur_waits :: "rlc_rx_um \<Rightarrow> bool" where
  "ur_waits s \<longleftrightarrow> (sn_pos s (rx_next_reassembly s) < um_w s \<longrightarrow> \<not> ur_fully_received s (rx_next_reassembly s))"

lemma inv_frame:
  assumes "same_pos s t" "rx_next_reassembly t = rx_next_reassembly s" "sn_ok s (rx_timer_trigger t)" "ur_window t = ur_window s"
  shows "ur_inv s \<Longrightarrow> ur_inv t" "ur_waits t \<longleftrightarrow> ur_waits s"
  using assms same_pos_simps [OF assms(1)] by (auto simp: ur_inv_def ur_waits_def ur_fully_received_def same_pos_def)

lemma inv_subset:
  assumes "ur_inv s" "same_pos s t" "rx_next_reassembly t = rx_next_reassembly s" "rx_timer_trigger t = rx_timer_trigger s"
    and "cm_wf (ur_window t)" "cm_size (ur_window t) = cm_size (ur_window s)"
    and "\<And>k. cm_at (ur_window t) k \<noteq> None \<Longrightarrow> cm_at (ur_window s) k \<noteq> None \<or>
      sn_ok s k \<and> sn_pos s (rx_next_reassembly s) \<le> sn_pos s k"
  shows "ur_inv t"
  using assms(1,3-) same_pos_simps [OF assms(2)] assms(2) unfolding ur_inv_def same_pos_def by metis

lemma inv_move_up:
  assumes "ur_inv s" "sn_ok s y" "sn_pos s (rx_next_reassembly s) \<le> sn_pos s y" "sn_pos s y \<le> um_w s"
    and "ur_cleared s {k. sn_ok s k \<and> sn_pos s (rx_next_reassembly s) \<le> sn_pos s k \<and> sn_pos s k < sn_pos s y} t"
  shows "ur_inv (t\<lparr>rx_next_reassembly := y\<rparr>)"
proof -
  let ?t = "t\<lparr>rx_next_reassembly := y\<rparr>"
  have sp: "same_pos s t" "same_pos s ?t" using assms(5) by (simp_all add: ur_cleared_def same_pos_def)
  note p = same_pos_simps [OF sp(1)] same_pos_simps [OF sp(2)]
  have "sn_ok s k \<and> sn_pos s y \<le> sn_pos s k" if "cm_at (ur_window t) k \<noteq> None" for k
  proof -
    have "cm_at (ur_window s) k \<noteq> None \<and> \<not> (sn_ok s k \<and> sn_pos s (rx_next_reassembly s) \<le> sn_pos s k \<and> sn_pos s k < sn_pos s y)"
      using assms(5) that by (auto simp: ur_cleared_def split: if_splits)
    then show ?thesis using assms(1) by (auto simp: ur_inv_def)
  qed
  then show ?thesis using assms sp by (simp add: ur_inv_def p ur_cleared_def same_pos_def)
qed

lemma cleared_fully: "ur_cleared s D t \<Longrightarrow> k \<notin> D \<Longrightarrow> ur_fully_received t k = ur_fully_received s k"
  by (simp add: ur_cleared_def ur_fully_received_def)

lemma waits_move_up:
  assumes "ur_cleared s {k. sn_ok s k \<and> a \<le> sn_pos s k \<and> sn_pos s k < sn_pos s y} t"
    and "sn_pos s y < um_w s \<Longrightarrow> \<not> ur_fully_received s y"
  shows "ur_waits (t\<lparr>rx_next_reassembly := y\<rparr>)"
proof -
  have sp: "same_pos s t" "same_pos s (t\<lparr>rx_next_reassembly := y\<rparr>)" using assms(1) by (simp_all add: ur_cleared_def same_pos_def)
  have "ur_fully_received t y = ur_fully_received s y" by (rule cleared_fully [OF assms(1)]) simp
  then show ?thesis using assms(2) same_pos_simps [OF sp(2)] by (simp add: ur_waits_def ur_fully_received_def)
qed

lemma sn_ok_mod: "sn_ok s x \<Longrightarrow> x mod ur_mod s = x"
  using um_sizes(2) [of s] by (simp add: sn_ok_def word_uint_eq_iff uint_mod)

lemma skip_complete_spec:
  assumes "cm_wf (ur_window s)" "sn_ok s (rx_next_highest s)" "sn_ok s x" "sn_pos s x \<le> um_w s"
  shows "\<exists>y t. ur_skip_complete (unat (ur_mod s)) x s = (y, t) \<and> sn_ok s y \<and>
    sn_pos s x \<le> sn_pos s y \<and> sn_pos s y \<le> um_w s \<and> ur_cleared s {k. sn_ok s k \<and> sn_pos s x \<le> sn_pos s k \<and> sn_pos s k < sn_pos s y} t \<and>
    (sn_pos s y < um_w s \<longrightarrow> \<not> ur_fully_received s y) \<and>
    (\<forall>k. sn_ok s k \<longrightarrow> sn_pos s x \<le> sn_pos s k \<longrightarrow> sn_pos s k < sn_pos s y \<longrightarrow> ur_fully_received s k)"
  unfolding loops_walk
  by (rule upward_walk [where c = "\<lambda>k u. ur_fully_received u k"]) (use assms in \<open>simp_all add: ur_inv_def\<close>)

lemma clean_expired_spec:
  assumes "ur_inv s" "sn_ok s x" "sn_pos s x \<le> um_w s"
  shows "\<exists>y t. ur_clean_expired (unat (ur_mod s)) x s = (y, t) \<and> sn_ok s y \<and>
    sn_pos s x \<le> sn_pos s y \<and> sn_pos s y \<le> um_w s \<and> ur_cleared s {k. sn_ok s k \<and> sn_pos s x \<le> sn_pos s k \<and> sn_pos s k < sn_pos s y} t \<and>
    (sn_pos s y < um_w s \<longrightarrow> \<not> (sn_pos s y < sn_pos s (rx_timer_trigger s) \<or> ur_fully_received s y)) \<and>
    (\<forall>k. sn_ok s k \<longrightarrow> sn_pos s x \<le> sn_pos s k \<longrightarrow> sn_pos s k < sn_pos s y \<longrightarrow>
      sn_pos s k < sn_pos s (rx_timer_trigger s) \<or> ur_fully_received s k)"
  unfolding loops_walk
  by (rule upward_walk [where c = "\<lambda>k u. sn_pos u k < sn_pos u (rx_timer_trigger u) \<or> ur_fully_received u k"])
    (use assms in \<open>simp_all add: ur_inv_def\<close>)

text \<open>Stopping and starting the timer.\<close>

lemma update_timer_frame:
  "same_pos s (ur_update_timer s)" "rx_next_reassembly (ur_update_timer s) = rx_next_reassembly s"
  "ur_window (ur_update_timer s) = ur_window s" "ur_out (ur_update_timer s) = ur_out s"
  "rx_timer_trigger (ur_update_timer s) = rx_timer_trigger s \<or> rx_timer_trigger (ur_update_timer s) = rx_next_highest s"
  by (auto simp: ur_update_timer_def ur_start_timer_def Let_def same_pos_def)

lemma start_timer_frame:
  "same_pos s (ur_start_timer s)" "rx_next_reassembly (ur_start_timer s) = rx_next_reassembly s"
  "ur_window (ur_start_timer s) = ur_window s" "ur_out (ur_start_timer s) = ur_out s"
  "rx_timer_trigger (ur_start_timer s) = rx_timer_trigger s \<or> rx_timer_trigger (ur_start_timer s) = rx_next_highest s"
  by (auto simp: ur_start_timer_def same_pos_def)

lemma timer_keeps_inv:
  assumes "ur_inv s"
  shows "ur_inv (ur_update_timer s)" "ur_waits (ur_update_timer s) \<longleftrightarrow> ur_waits s"
    "ur_inv (ur_start_timer s)" "ur_waits (ur_start_timer s) \<longleftrightarrow> ur_waits s"
proof -
  have ok: "sn_ok s (rx_timer_trigger (ur_update_timer s))" "sn_ok s (rx_timer_trigger (ur_start_timer s))"
    using assms update_timer_frame(5) [of s] start_timer_frame(5) [of s] by (auto simp: ur_inv_def)
  show "ur_inv (ur_update_timer s)" "ur_waits (ur_update_timer s) \<longleftrightarrow> ur_waits s"
    using inv_frame [OF update_timer_frame(1,2) ok(1) update_timer_frame(3)] assms by blast+
  show "ur_inv (ur_start_timer s)" "ur_waits (ur_start_timer s) \<longleftrightarrow> ur_waits s"
    using inv_frame [OF start_timer_frame(1,2) ok(2) start_timer_frame(3)] assms by blast+
qed

text \<open>The expiry of the timer: RX_Next_Reassembly passes everything below RX_Timer_Trigger.\<close>

lemma expiry_effect:
  assumes "ur_inv s"
  defines "t \<equiv> ur_timer_expires s"
  shows "ur_inv t" "ur_waits t" "same_pos s t" "ur_out t = ur_out s"
    "sn_pos s (rx_next_reassembly s) \<le> sn_pos s (rx_next_reassembly t)"
    "min (sn_pos s (rx_timer_trigger s)) (um_w s) \<le> sn_pos s (rx_next_reassembly t)"
proof -
  let ?s = "s\<lparr>reassembly_timer_running := False\<rparr>"
  have sp0: "same_pos s ?s" by (simp add: same_pos_def)
  note p0 = same_pos_simps [OF sp0]
  have inv0: "ur_inv ?s" using assms(1) by (intro inv_frame(1) [OF sp0]) (simp_all add: ur_inv_def)
  have ok: "sn_ok ?s (rx_next_reassembly ?s)" "sn_pos ?s (rx_next_reassembly ?s) \<le> um_w ?s" using inv0 by (simp_all add: ur_inv_def)
  obtain y u where y: "ur_clean_expired (unat (ur_mod s)) (rx_next_reassembly s) ?s = (y, u)" "sn_ok ?s y"
    "sn_pos ?s (rx_next_reassembly ?s) \<le> sn_pos ?s y" "sn_pos ?s y \<le> um_w ?s"
    "ur_cleared ?s {k. sn_ok ?s k \<and> sn_pos ?s (rx_next_reassembly ?s) \<le> sn_pos ?s k \<and> sn_pos ?s k < sn_pos ?s y} u"
    "sn_pos ?s y < um_w ?s \<longrightarrow> \<not> (sn_pos ?s y < sn_pos ?s (rx_timer_trigger ?s) \<or> ur_fully_received ?s y)"
    using clean_expired_spec [OF inv0 ok] by (auto simp: p0)
  let ?u = "u\<lparr>rx_next_reassembly := y\<rparr>"
  have t: "t = ur_start_timer ?u"
    using y(1) by (simp add: t_def ur_timer_expires_def ur_on_expired_reassembly_timer_def ur_mod_def Let_def)
  have u: "ur_inv ?u" "ur_waits ?u" using inv_move_up [OF inv0 y(2-5)] waits_move_up [OF y(5)] y(6) by simp_all
  then show "ur_inv t" "ur_waits t" using timer_keeps_inv [OF u(1)] by (simp_all add: t)
  have "same_pos s ?u" "ur_out ?u = ur_out s" using y(5) by (simp_all add: ur_cleared_def same_pos_def)
  then show "same_pos s t" "ur_out t = ur_out s"
    using start_timer_frame(1,4) [of ?u] by (simp_all add: t same_pos_def)
  have n: "rx_next_reassembly t = y" using start_timer_frame(2) [of ?u] by (simp add: t)
  show "sn_pos s (rx_next_reassembly s) \<le> sn_pos s (rx_next_reassembly t)" using y(3) by (simp add: n p0)
  show "min (sn_pos s (rx_timer_trigger s)) (um_w s) \<le> sn_pos s (rx_next_reassembly t)"
    using y(6) by (auto simp: n p0)
qed

section \<open>Moving the window up\<close>

text \<open>\<open>x\<close> lies above the window; after the move it is the last SN inside.\<close>

lemma sn_pos_shift:
  assumes "um_w s \<le> sn_pos s x"
  defines "s' \<equiv> s\<lparr>rx_next_highest := (x + 1) mod ur_mod s\<rparr>" and "d \<equiv> sn_pos s x + 1 - um_w s"
  shows "sn_pos s' k = (if sn_pos s k < d then sn_pos s k - d + 2 * um_w s else sn_pos s k - d)"
    "0 < d" "d \<le> um_w s"
proof -
  have w: "um_w s' = um_w s" by (simp add: s'_def um_w_def um_window_size_def)
  have e: "uint (rx_next_highest s') = (uint x + 1) mod (2 * um_w s)" by (simp add: s'_def uint_Suc_mod)
  have "sn_pos s' k = (uint k - (uint x + 1) mod (2 * um_w s) - um_w s) mod (2 * um_w s)"
    by (simp add: sn_pos_uint e w)
  also have "\<dots> = (uint k - um_w s - (uint x + 1) mod (2 * um_w s)) mod (2 * um_w s)"
    by (simp add: algebra_simps)
  also have "\<dots> = (uint k - um_w s - (uint x + 1)) mod (2 * um_w s)" by (rule mod_diff_right_eq)
  also have "\<dots> = (uint k - uint (rx_next_highest s) - um_w s - (uint x - uint (rx_next_highest s) - um_w s)
      - (um_w s + 1)) mod (2 * um_w s)" by (simp add: algebra_simps)
  also have "\<dots> = (sn_pos s k - sn_pos s x - (um_w s + 1)) mod (2 * um_w s)"
    unfolding sn_pos_uint by (rule mod_diff_both [symmetric])
  also have "\<dots> = (sn_pos s k - d) mod (2 * um_w s)"
  proof -
    have "sn_pos s k - sn_pos s x - (um_w s + 1) = sn_pos s k - d - 2 * um_w s" by (simp add: d_def)
    then show ?thesis by (simp only: minus_mod_self2)
  qed
  finally have p: "sn_pos s' k = (sn_pos s k - d) mod (2 * um_w s)" .
  show d: "0 < d" "d \<le> um_w s" using assms(1) sn_pos_bounds(2) [of s x] unfolding d_def by linarith+
  show "sn_pos s' k = (if sn_pos s k < d then sn_pos s k - d + 2 * um_w s else sn_pos s k - d)"
  proof (cases "sn_pos s k < d")
    case True
    have "(sn_pos s k - d + 2 * um_w s) mod (2 * um_w s) = sn_pos s k - d + 2 * um_w s"
      using True d sn_pos_bounds(1) [of s k] um_sizes(3) [of s] by (intro mod_pos_pos_trivial) linarith+
    then show ?thesis using True unfolding p by (simp only: mod_add_self2) simp
  next
    case False
    have "(sn_pos s k - d) mod (2 * um_w s) = sn_pos s k - d"
      using False d sn_pos_bounds(2) [of s k] by (intro mod_pos_pos_trivial) linarith+
    then show ?thesis using False unfolding p by simp
  qed
qed

lemma advance_effect:
  assumes "ur_inv s" "sn_ok s x" "um_w s \<le> sn_pos s x" "\<not> ur_fully_received s x"
  defines "t \<equiv> ur_advance_window x s"
  shows "ur_inv t" "ur_waits t" "ur_out t = ur_out s" "ur_cfg t = ur_cfg s" "cm_at (ur_window t) x = cm_at (ur_window s) x"
    "sn_pos t x = um_w s - 1" "sn_pos t (rx_next_reassembly t) \<le> sn_pos t x"
proof -
  let ?m = "(x + 1) mod ur_mod s" and ?nr = "rx_next_reassembly s"
  let ?s = "s\<lparr>rx_next_highest := ?m\<rparr>" and ?d = "sn_pos s x + 1 - um_w s"
  note sh = sn_pos_shift [OF assms(3)]
  have w: "um_w ?s = um_w s" and m: "ur_mod ?s = ur_mod s" and ok: "sn_ok ?s = sn_ok s"
    by (simp_all add: um_w_def um_window_size_def ur_mod_def sn_ok_def fun_eq_iff)
  have inv: "sn_ok s ?nr" "sn_pos s ?nr \<le> um_w s" "cm_wf (ur_window s)" "int (cm_size (ur_window s)) = um_w s"
    "\<And>k. cm_at (ur_window s) k \<noteq> None \<Longrightarrow> sn_ok s k \<and> sn_pos s ?nr \<le> sn_pos s k" "sn_ok s (rx_timer_trigger s)"
    using assms(1) by (auto simp: ur_inv_def)
  have nrm: "?nr mod ur_mod s = ?nr" by (rule sn_ok_mod) (rule inv(1))
  have px: "sn_pos ?s x = um_w s - 1" using sh(1) [of x] sh(2,3) um_sizes(3) [of s] assms(3) by auto
  define z where "z = (?m - um_window_size s) mod ur_mod s"
  have z: "sn_ok s z" using um_sizes(2,3) [of s] by (simp add: z_def sn_ok_def uint_mod)
  have "sn_pos ?s z = sn_pos ?s (?m - um_window_size s)" using sn_pos_mod [of ?s "?m - um_window_size s"] by (simp add: z_def m)
  then have z0: "sn_pos ?s z = 0" using sn_pos_lowest [of ?s] by (simp add: um_window_size_def)
  obtain u where u: "ur_clean_outside (unat (ur_mod ?s)) ?nr ?s = (if sn_pos ?s ?nr < um_w ?s then ?nr else z, u)"
    "ur_cleared ?s (if sn_pos ?s ?nr < um_w ?s then {} else {k. sn_ok ?s k \<and> sn_pos ?s ?nr \<le> sn_pos ?s k}) u"
    using outside_walk [of ?s ?nr z] inv z z0 by (auto simp: ok)
  define y where "y = (if sn_pos ?s ?nr < um_w ?s then ?nr else z)"
  have sp: "same_pos ?s u" using u(2) by (simp add: ur_cleared_def)
  note p = same_pos_simps [OF sp]
  have y: "sn_ok s y" "sn_pos ?s y < um_w s" using inv z z0 um_sizes(3) [of s] by (auto simp: y_def w)
  have keys: "sn_ok s k \<and> sn_pos ?s y \<le> sn_pos ?s k" if k: "cm_at (ur_window u) k \<noteq> None" for k
  proof (cases "sn_pos ?s ?nr < um_w ?s")
    case True
    then have "cm_at (ur_window s) k \<noteq> None" using u(2) k by (simp add: ur_cleared_def)
    moreover have "?d \<le> sn_pos s ?nr"
    proof (rule ccontr)
      assume "\<not> ?thesis"
      then have "sn_pos ?s ?nr = sn_pos s ?nr - ?d + 2 * um_w s" using sh(1) [of ?nr] by simp
      then show False using True sh(3) sn_pos_bounds(1) [of s ?nr] unfolding w by linarith
    qed
    ultimately show ?thesis using inv(5) [of k] True sh(1) [of ?nr] sh(1) [of k] by (auto simp: y_def)
  next
    case False
    then have "cm_at (ur_window s) k \<noteq> None" using u(2) k by (auto simp: ur_cleared_def split: if_splits)
    then show ?thesis using False inv(5) [of k] z0 by (simp add: y_def)
  qed
  have invu: "ur_inv (u\<lparr>rx_next_reassembly := y\<rparr>)"
  proof -
    have sp': "same_pos ?s (u\<lparr>rx_next_reassembly := y\<rparr>)" using sp by (simp add: same_pos_def)
    note p' = same_pos_simps [OF sp'] w ok
    have f: "rx_next_highest u = ?m" "rx_timer_trigger u = rx_timer_trigger s" "cm_wf (ur_window u)"
      "cm_size (ur_window u) = cm_size (ur_window s)" using u(2) by (simp_all add: ur_cleared_def same_pos_def)
    show ?thesis unfolding ur_inv_def p' using f keys y inv(4,6) Suc_mod_ok [of s x] by (simp add: less_imp_le)
  qed
  let ?u = "u\<lparr>rx_next_reassembly := y\<rparr>"
  have spu: "same_pos ?s ?u" using sp by (simp add: same_pos_def)
  note pu = same_pos_simps [OF spu]
  have yu: "sn_ok ?u y" "sn_pos ?u y \<le> um_w ?u" "cm_wf (ur_window ?u)" "sn_ok ?u (rx_next_highest ?u)"
    using y invu by (auto simp: ur_inv_def)
  obtain v y2 where v: "ur_skip_complete (unat (ur_mod u)) y u = (y2, v)" "sn_ok u y2" "sn_pos u y \<le> sn_pos u y2"
    "sn_pos u y2 \<le> um_w u" "ur_cleared u {k. sn_ok u k \<and> sn_pos u y \<le> sn_pos u k \<and> sn_pos u k < sn_pos u y2} v"
    "sn_pos u y2 < um_w u \<longrightarrow> \<not> ur_fully_received u y2"
    "\<forall>k. sn_ok u k \<longrightarrow> sn_pos u y \<le> sn_pos u k \<longrightarrow> sn_pos u k < sn_pos u y2 \<longrightarrow> ur_fully_received u k"
    using skip_complete_spec [of u y] yu by (auto simp: p pu same_pos_simps)
  have t: "t = v\<lparr>rx_next_reassembly := y2\<rparr>"
    using u(1) v(1) by (simp add: t_def ur_advance_window_def m y_def [symmetric] Let_def nrm p)
  have cl: "ur_cleared ?u {k. sn_ok ?u k \<and> sn_pos ?u y \<le> sn_pos ?u k \<and> sn_pos ?u k < sn_pos ?u y2} (v\<lparr>rx_next_reassembly := y\<rparr>)"
    using v(5) by (simp add: ur_cleared_def same_pos_def p pu)
  show "ur_inv t" using inv_move_up [OF invu, of y2 "v\<lparr>rx_next_reassembly := y\<rparr>"] v(2-4) cl by (simp add: t p pu)
  show "ur_waits t" using waits_move_up [OF v(5)] v(6) by (simp add: t)
  have st: "same_pos ?s t" using sp v(5) by (simp add: t same_pos_def ur_cleared_def)
  note pt = same_pos_simps [OF st]
  show "ur_out t = ur_out s" "ur_cfg t = ur_cfg s" using u(2) v(5) by (simp_all add: t ur_cleared_def same_pos_def)
  show "sn_pos t x = um_w s - 1" by (simp add: pt px)
  have ux: "ur_fully_received u x = ur_fully_received s x" "cm_at (ur_window u) x = cm_at (ur_window s) x"
  proof -
    have "\<not> (\<not> sn_pos ?s ?nr < um_w ?s \<and> sn_pos ?s ?nr \<le> sn_pos ?s x)" using px unfolding w by linarith
    then show "cm_at (ur_window u) x = cm_at (ur_window s) x" using u(2) by (auto simp: ur_cleared_def)
    then show "ur_fully_received u x = ur_fully_received s x" by (simp add: ur_fully_received_def)
  qed
  have le: "sn_pos u y2 \<le> sn_pos u x"
  proof (rule ccontr)
    assume "\<not> ?thesis"
    then show False using v(7) assms(2,4) ux(1) y(2) px by (auto simp: p ok)
  qed
  show "cm_at (ur_window t) x = cm_at (ur_window s) x" using v(5) le ux(2) by (simp add: t ur_cleared_def)
  show "sn_pos t (rx_next_reassembly t) \<le> sn_pos t x" using le unfolding pt p by (simp add: t)
qed

section \<open>PDUs\<close>

lemma um_read_header_sn:
  assumes "rlc_um_read_data_pdu_header buf (rx_sn_field_length (ur_cfg s)) = Some h"
  shows "sn_ok s (ucast (um_sn h))" "um_sn_size h = rx_sn_field_length (ur_cfg s)"
proof -
  let ?sz = "rx_sn_field_length (ur_cfg s)"
  have so: "um_sn h = sn \<and> um_sn_size h = sz" if "rlc_um_read_so sz si sn rest = Some h" for sz si sn rest
    using that by (auto simp: rlc_um_read_so_def split: if_splits list.splits)
  have m: "take_bit 12 (push_bit 8 (take_bit 4 b)) = push_bit 8 (take_bit 4 b)" for b :: u16
    by (auto intro!: bit_word_eqI simp: bit_simps)
  have w: "take_bit (um_sn_bits ?sz) (um_sn h) = um_sn h" and sz: "um_sn_size h = ?sz"
    using assms unfolding rlc_um_read_data_pdu_header_def u16_masks Let_def um_sn_bits_def
    by (auto simp: m split: list.splits if_splits rlc_um_sn_size.splits dest!: so)
  have "uint (take_bit (um_sn_bits ?sz) (um_sn h)) < 2 ^ um_sn_bits ?sz" by (simp add: unsigned_take_bit_eq)
  then have "uint (um_sn h) < 2 ^ um_sn_bits ?sz" by (simp only: w)
  moreover have "uint (ucast (um_sn h) :: u32) = uint (um_sn h)" by (simp add: uint_up_ucast is_up)
  ultimately show "sn_ok s (ucast (um_sn h))"
    by (cases ?sz) (simp_all add: sn_ok_def um_sizes(1) um_sn_bits_def)
  show "um_sn_size h = ?sz" by (rule sz)
qed

text \<open>The segments held for an SN.\<close>

definition ur_segments :: "rlc_rx_um \<Rightarrow> u32 \<Rightarrow> um_segment list" where
  "ur_segments s k = (case cm_at (ur_window s) k of None \<Rightarrow> [] | Some i \<Rightarrow> segments i)"

lemma handle_segment_effect:
  fixes s :: rlc_rx_um and h :: rlc_um_pdu_header and payload :: bytes
  assumes "cm_wf (ur_window s)" "um_si h \<noteq> full_sdu"
  defines "t \<equiv> snd (handle_segment_data_sdu h payload s)" and "x \<equiv> ucast (um_sn h)"
    and "segs \<equiv> snd (store_segment \<lparr>seg_si = um_si h, seg_so = um_so h, seg_payload = payload\<rparr> (ur_segments s (ucast (um_sn h))))"
  shows "t = s\<lparr>ur_window := ur_window t\<rparr>" "cm_wf (ur_window t)" "cm_size (ur_window t) = cm_size (ur_window s)"
    "cm_at (ur_window t) x = Some \<lparr>fully_received = fst (update_segment_inventory segs),
      has_gap = snd (update_segment_inventory segs), segments = segs\<rparr>"
    "\<And>k. k \<noteq> x \<Longrightarrow> cm_at (ur_window t) k \<noteq> None \<Longrightarrow> cm_at (ur_window t) k = cm_at (ur_window s) k"
proof -
  let ?w = "if has_sn (ur_window s) x then ur_window s else add_sn (ur_window s) x um_sdu_info_new"
  have wf: "cm_wf ?w" using assms(1) by (simp add: window_simps)
  have at: "\<exists>i. cm_at ?w x = Some i \<and> segments i = ur_segments s x"
    using assms(1) by (auto simp: cm_at_add_sn ur_segments_def has_sn_at um_sdu_info_new_def)
  then obtain i where i: "cm_at ?w x = Some i" "segments i = ur_segments s x" by blast
  define v where "v = \<lparr>fully_received = fst (update_segment_inventory segs),
      has_gap = snd (update_segment_inventory segs), segments = segs\<rparr>"
  have t: "t = s\<lparr>ur_window := cm_assign ?w x v\<rparr>"
    unfolding t_def handle_segment_data_sdu_def x_def [symmetric] Let_def
    using assms(2) i by (simp add: v_def segs_def x_def [symmetric] case_prod_beta)
  have t2: "ur_window t = cm_assign ?w x v" by (simp only: t) simp
  have a: "cm_at (cm_assign ?w x v) = (cm_at ?w)(x \<mapsto> v)" by (rule cm_at_assign_present [OF wf]) (simp only: i(1), simp)
  show "t = s\<lparr>ur_window := ur_window t\<rparr>" by (simp only: t) simp
  show "cm_wf (ur_window t)" unfolding t2 using wf by (rule cm_wf_assign)
  show "cm_size (ur_window t) = cm_size (ur_window s)" unfolding t2 by simp
  show "cm_at (ur_window t) x = Some \<lparr>fully_received = fst (update_segment_inventory segs),
      has_gap = snd (update_segment_inventory segs), segments = segs\<rparr>" unfolding t2 a by (simp add: v_def)
  show "cm_at (ur_window t) k = cm_at (ur_window s) k" if "k \<noteq> x" "cm_at (ur_window t) k \<noteq> None" for k
    using that assms(1) unfolding t2 a by (auto simp: cm_at_add_sn split: if_splits)
qed

text \<open>A complete SDU: delivered, and if it is the one that RX_Next_Reassembly waits for, the window moves.\<close>

lemma complete_effect:
  fixes ok :: "nat \<Rightarrow> bool"
  assumes "ur_inv s" "cm_at (ur_window s) x = Some info" "x \<noteq> rx_next_reassembly s \<Longrightarrow> ur_waits s"
  defines "t \<equiv> ur_complete_sdu ok x info s"
  shows "ur_inv t" "ur_waits t" "same_pos s t"
    "ur_out t = ur_out s @ (case reassemble_sdu ok (fully_received info) (segments info) of None \<Rightarrow> [] | Some sdu \<Rightarrow> [sdu])"
proof -
  define s0 where "s0 = (case reassemble_sdu ok (fully_received info) (segments info) of
      None \<Rightarrow> ur_add_lost_pdus 1 s | Some sdu \<Rightarrow> ur_deliver sdu s)"
  define s1 where "s1 = s0\<lparr>ur_window := cm_assign (ur_window s) x (info\<lparr>segments := []\<rparr>)\<rparr>"
  have wf: "cm_wf (ur_window s)" using assms(1) by (simp add: ur_inv_def)
  have s0: "same_pos s s0" "rx_next_reassembly s0 = rx_next_reassembly s" "rx_timer_trigger s0 = rx_timer_trigger s"
    "ur_window s0 = ur_window s"
    "ur_out s0 = ur_out s @ (case reassemble_sdu ok (fully_received info) (segments info) of None \<Rightarrow> [] | Some sdu \<Rightarrow> [sdu])"
    by (simp_all add: s0_def same_pos_def ur_deliver_def ur_add_sdus_def split: option.split)
  have w: "cm_at (ur_window s1) = (cm_at (ur_window s))(x \<mapsto> info\<lparr>segments := []\<rparr>)" "cm_wf (ur_window s1)"
    using cm_at_assign_present [OF wf] cm_wf_assign [OF wf] assms(2) by (simp_all add: s1_def)
  have sp: "same_pos s s1" using s0(1) by (simp add: s1_def same_pos_def)
  note p = same_pos_simps [OF sp]
  have i1: "ur_inv s1"
    using assms(1,2) s0 w by (intro inv_subset [OF assms(1) sp]) (auto simp: s1_def split: if_splits)
  have wait1: "ur_waits s1 = ur_waits s"
    using w(1) assms(2) s0 by (simp add: ur_waits_def ur_fully_received_def p) (simp add: s1_def)
  have t: "t = (if x = rx_next_reassembly s1 then
      let (y, v) = ur_skip_complete (unat (ur_mod s1)) (rx_next_reassembly s1 mod ur_mod s1) s1 in v\<lparr>rx_next_reassembly := y\<rparr>
    else s1)"
    unfolding t_def ur_complete_sdu_def s0_def [symmetric] Let_def s1_def
    by (simp add: s0 ur_mod_def case_prod_beta)
  have "ur_inv t \<and> ur_waits t \<and> same_pos s t \<and> ur_out t = ur_out s1"
  proof (cases "x = rx_next_reassembly s1")
    case False
    then show ?thesis using assms(3) i1 wait1 sp s0 by (simp add: t s1_def)
  next
    case True
    have ok1: "sn_ok s1 (rx_next_reassembly s1)" "sn_pos s1 (rx_next_reassembly s1) \<le> um_w s1" "sn_ok s1 (rx_next_highest s1)"
      using i1 by (simp_all add: ur_inv_def)
    obtain y v where v: "ur_skip_complete (unat (ur_mod s1)) (rx_next_reassembly s1) s1 = (y, v)" "sn_ok s1 y"
      "sn_pos s1 (rx_next_reassembly s1) \<le> sn_pos s1 y" "sn_pos s1 y \<le> um_w s1"
      "ur_cleared s1 {k. sn_ok s1 k \<and> sn_pos s1 (rx_next_reassembly s1) \<le> sn_pos s1 k \<and> sn_pos s1 k < sn_pos s1 y} v"
      "sn_pos s1 y < um_w s1 \<longrightarrow> \<not> ur_fully_received s1 y"
      using skip_complete_spec [OF w(2) ok1(3,1,2)] by auto
    have tt: "t = v\<lparr>rx_next_reassembly := y\<rparr>" using True v(1) sn_ok_mod [OF ok1(1)] by (simp add: t)
    show ?thesis
      using inv_move_up [OF i1 v(2-5)] waits_move_up [OF v(5)] v(5,6) sp by (simp add: tt ur_cleared_def same_pos_def)
  qed
  then show "ur_inv t" "ur_waits t" "same_pos s t"
    "ur_out t = ur_out s @ (case reassemble_sdu ok (fully_received info) (segments info) of None \<Rightarrow> [] | Some sdu \<Rightarrow> [sdu])"
    using s0(5) by (simp_all add: s1_def)
qed

end
