(* ===== verification/Rlc_Um_Rx_Props.thy ===== *)
theory Rlc_Um_Rx_Props
  imports Rlc_Um_Rx_Inv
begin

text \<open>
  The properties of the receiving UM entity: its invariant over all runs, what the expiry of t-Reassembly gives up,
  and the delivery of an SDU whose segments arrive in any order.
\<close>

section \<open>One segment\<close>

text \<open>What \<open>handle_pdu\<close> does with a segment that the window admits.\<close>

definition ur_place :: "(nat \<Rightarrow> bool) \<Rightarrow> rlc_um_pdu_header \<Rightarrow> bytes \<Rightarrow> rlc_rx_um \<Rightarrow> rlc_rx_um" where
  "ur_place ok h payload s =
    (let sn = ucast (um_sn h); s = snd (handle_segment_data_sdu h payload s);
         s = (case cm_at (ur_window s) sn of
                Some info \<Rightarrow>
                  if fully_received info then ur_complete_sdu ok sn info s
                  else if \<not> sn_in_reassembly_window s sn then ur_advance_window sn s else s
              | None \<Rightarrow> if \<not> sn_in_reassembly_window s sn then ur_advance_window sn s else s)
     in ur_update_timer s)"

lemma handle_pdu_cases:
  "ur_handle_pdu ok buf s =
    (let s = ur_add_pdus 1 (length buf) s
     in case rlc_um_read_data_pdu_header buf (rx_sn_field_length (ur_cfg s)) of
          None \<Rightarrow> ur_add_malformed_pdus 1 s
        | Some h \<Rightarrow>
            if length buf \<le> rlc_um_nr_packed_length h then s
            else if um_si h = full_sdu
              then (if ok 0 then ur_deliver (drop (rlc_um_nr_packed_length h) buf) s else ur_add_lost_pdus 1 s)
            else if sn_invalid_for_rx_buffer s (ucast (um_sn h)) then s
            else ur_place ok h (drop (rlc_um_nr_packed_length h) buf) s)"
  unfolding ur_handle_pdu_def ur_place_def Let_def by (rule refl)

text \<open>An SN that the receiver still accepts.\<close>

definition ur_open :: "rlc_rx_um \<Rightarrow> u32 \<Rightarrow> bool" where
  "ur_open s x \<longleftrightarrow> sn_ok s x \<and> sn_pos s (rx_next_reassembly s) \<le> sn_pos s x"

definition ur_stored :: "rlc_um_pdu_header \<Rightarrow> bytes \<Rightarrow> rlc_rx_um \<Rightarrow> um_segment list" where
  "ur_stored h payload s =
    snd (store_segment \<lparr>seg_si = um_si h, seg_so = um_so h, seg_payload = payload\<rparr> (ur_segments s (ucast (um_sn h))))"

lemma place_effect:
  fixes ok :: "nat \<Rightarrow> bool" and h :: rlc_um_pdu_header and payload :: bytes
  assumes "ur_inv s" "ur_waits s" "um_si h \<noteq> full_sdu" "ur_open s (ucast (um_sn h))"
  defines "x \<equiv> ucast (um_sn h)" and "t \<equiv> ur_place ok h payload s" and "segs \<equiv> ur_stored h payload s"
  shows "ur_inv t" "ur_waits t" "ur_cfg t = ur_cfg s"
    "fst (update_segment_inventory segs) \<Longrightarrow>
      ur_out t = ur_out s @ (case reassemble_sdu ok True segs of None \<Rightarrow> [] | Some sdu \<Rightarrow> [sdu])"
    "\<not> fst (update_segment_inventory segs) \<Longrightarrow> ur_out t = ur_out s \<and> ur_open t x \<and> ur_segments t x = segs"
proof -
  define s1 where "s1 = snd (handle_segment_data_sdu h payload s)"
  define i1 where "i1 = \<lparr>fully_received = fst (update_segment_inventory segs),
      has_gap = snd (update_segment_inventory segs), segments = segs\<rparr>"
  have wf: "cm_wf (ur_window s)" using assms(1) by (simp add: ur_inv_def)
  note seg = handle_segment_effect [OF wf assms(3), where payload = payload]
  have f1: "same_pos s s1" "rx_next_reassembly s1 = rx_next_reassembly s" "rx_timer_trigger s1 = rx_timer_trigger s"
    "ur_out s1 = ur_out s" "ur_cfg s1 = ur_cfg s"
  proof -
    obtain w where "s1 = s\<lparr>ur_window := w\<rparr>" using seg(1) unfolding s1_def by blast
    then show "same_pos s s1" "rx_next_reassembly s1 = rx_next_reassembly s" "rx_timer_trigger s1 = rx_timer_trigger s"
      "ur_out s1 = ur_out s" "ur_cfg s1 = ur_cfg s" by (simp_all add: same_pos_def)
  qed
  note p = same_pos_simps [OF f1(1)]
  have at: "cm_at (ur_window s1) x = Some i1"
    using seg(4) by (simp add: s1_def i1_def x_def segs_def ur_stored_def)
  have wf1: "cm_wf (ur_window s1)" "cm_size (ur_window s1) = cm_size (ur_window s)"
    using seg(2,3) by (simp_all add: s1_def)
  have keep: "cm_at (ur_window s1) k = cm_at (ur_window s) k" if "k \<noteq> x" "cm_at (ur_window s1) k \<noteq> None" for k
    using seg(5) [of k] that by (simp add: s1_def x_def)
  have o: "sn_ok s x" "sn_pos s (rx_next_reassembly s) \<le> sn_pos s x" using assms(4) by (simp_all add: ur_open_def x_def)
  have inv1: "ur_inv s1"
    by (rule inv_subset [OF assms(1) f1(1-3) wf1]) (use keep o in metis)
  have wait1: "ur_waits s1" if "x \<noteq> rx_next_reassembly s1 \<or> \<not> fully_received i1"
  proof -
    have "\<not> ur_fully_received s1 (rx_next_reassembly s)" if "sn_pos s (rx_next_reassembly s) < um_w s"
    proof (cases "rx_next_reassembly s = x")
      case True
      then show ?thesis using at \<open>x \<noteq> rx_next_reassembly s1 \<or> \<not> fully_received i1\<close> f1(2) by (simp add: ur_fully_received_def)
    next
      case False
      have "\<not> ur_fully_received s (rx_next_reassembly s)" using assms(2) that by (simp add: ur_waits_def)
      then show ?thesis using keep [OF False] by (auto simp: ur_fully_received_def split: option.splits)
    qed
    then show ?thesis by (simp add: ur_waits_def p f1(2))
  qed
  have t: "t = ur_update_timer (if fully_received i1 then ur_complete_sdu ok x i1 s1
      else if \<not> sn_in_reassembly_window s1 x then ur_advance_window x s1 else s1)"
    unfolding t_def ur_place_def x_def [symmetric] s1_def [symmetric] Let_def by (simp add: at)
  have segs1: "ur_segments s1 x = segs" by (simp add: ur_segments_def at i1_def)
  have full: "fully_received i1 = fst (update_segment_inventory segs)" by (simp add: i1_def)
  have upd: "ur_inv t \<and> ur_waits t \<and> ur_cfg t = ur_cfg u \<and> ur_out t = ur_out u \<and> ur_segments t x = ur_segments u x \<and>
      (ur_open t x \<longleftrightarrow> ur_open u x)"
    if "t = ur_update_timer u" "ur_inv u" "ur_waits u" for u
    using timer_keeps_inv [OF that(2)] that update_timer_frame [of u] same_pos_simps [OF update_timer_frame(1) [of u]]
    by (simp add: ur_segments_def ur_open_def same_pos_def)
  have "ur_inv t \<and> ur_waits t \<and> ur_cfg t = ur_cfg s \<and>
    (fst (update_segment_inventory segs) \<longrightarrow>
      ur_out t = ur_out s @ (case reassemble_sdu ok True segs of None \<Rightarrow> [] | Some sdu \<Rightarrow> [sdu])) \<and>
    (\<not> fst (update_segment_inventory segs) \<longrightarrow> ur_out t = ur_out s \<and> ur_open t x \<and> ur_segments t x = segs)"
  proof (cases "fully_received i1")
    case True
    note c = complete_effect [OF inv1 at, where ok = ok]
    have "x \<noteq> rx_next_reassembly s1 \<Longrightarrow> ur_waits s1" using wait1 by blast
    note c = c [OF this]
    show ?thesis using upd [of "ur_complete_sdu ok x i1 s1"] c True f1 by (simp add: t full same_pos_def i1_def)
  next
    case n: False
    then have w1: "ur_waits s1" using wait1 by blast
    show ?thesis
    proof (cases "sn_in_reassembly_window s1 x")
      case True
      have "ur_open s1 x" using o by (simp add: ur_open_def p f1(2))
      then show ?thesis using upd [of s1] n True inv1 w1 segs1 f1 by (simp add: t full)
    next
      case False
      have a: "sn_ok s1 x" "um_w s1 \<le> sn_pos s1 x" "\<not> ur_fully_received s1 x"
        using o(1) False n at by (simp_all add: p window_iff ur_fully_received_def)
      note adv = advance_effect [OF inv1 a]
      have "sn_ok (ur_advance_window x s1) x"
        using a(1) adv(4) by (simp add: sn_ok_def um_w_def um_window_size_def)
      then have "ur_open (ur_advance_window x s1) x" using adv(7) by (simp add: ur_open_def)
      then show ?thesis using upd [of "ur_advance_window x s1"] n False adv segs1 f1
        by (simp add: t full ur_segments_def)
    qed
  qed
  then show "ur_inv t" "ur_waits t" "ur_cfg t = ur_cfg s"
    "fst (update_segment_inventory segs) \<Longrightarrow>
      ur_out t = ur_out s @ (case reassemble_sdu ok True segs of None \<Rightarrow> [] | Some sdu \<Rightarrow> [sdu])"
    "\<not> fst (update_segment_inventory segs) \<Longrightarrow> ur_out t = ur_out s \<and> ur_open t x \<and> ur_segments t x = segs"
    by blast+
qed

section \<open>Runs\<close>

text \<open>What happens to an entity: a PDU arrives (with the memory that is left), or t-Reassembly, when it runs, expires.\<close>

datatype um_rx_event = Um_pdu "nat \<Rightarrow> bool" bytes | Um_expiry

definition um_rx_step :: "um_rx_event \<Rightarrow> rlc_rx_um \<Rightarrow> rlc_rx_um" where
  "um_rx_step e s = (case e of Um_pdu ok buf \<Rightarrow> ur_handle_pdu ok buf s
    | Um_expiry \<Rightarrow> (if reassembly_timer_running s then ur_timer_expires s else s))"

definition um_rx_run :: "bool \<Rightarrow> rlc_rx_um_config \<Rightarrow> um_rx_event list \<Rightarrow> rlc_rx_um" where
  "um_rx_run m cfg es = fold um_rx_step es (rlc_rx_um_entity m cfg)"

lemma metric_keeps_inv: "ur_inv (ur_metric f s) = ur_inv s" "ur_waits (ur_metric f s) = ur_waits s"
  "ur_inv (s\<lparr>ur_out := os\<rparr>) = ur_inv s" "ur_waits (s\<lparr>ur_out := os\<rparr>) = ur_waits s"
proof -
  have sp: "same_pos s (ur_metric f s)" "same_pos s (s\<lparr>ur_out := os\<rparr>)" by (simp_all add: same_pos_def)
  show "ur_inv (ur_metric f s) = ur_inv s" "ur_waits (ur_metric f s) = ur_waits s"
    using same_pos_simps [OF sp(1)] by (simp_all add: ur_inv_def ur_waits_def ur_fully_received_def)
  show "ur_inv (s\<lparr>ur_out := os\<rparr>) = ur_inv s" "ur_waits (s\<lparr>ur_out := os\<rparr>) = ur_waits s"
    using same_pos_simps [OF sp(2)] by (simp_all add: ur_inv_def ur_waits_def ur_fully_received_def)
qed

lemma invalid_open: "\<not> sn_invalid_for_rx_buffer s x \<Longrightarrow> sn_ok s x \<Longrightarrow> ur_open s x"
  by (simp add: ur_open_def window_iff not_less)

lemma pdu_keeps_inv:
  assumes "ur_inv s" "ur_waits s"
  shows "ur_inv (ur_handle_pdu ok buf s) \<and> ur_waits (ur_handle_pdu ok buf s) \<and> ur_cfg (ur_handle_pdu ok buf s) = ur_cfg s"
proof -
  define s0 where "s0 = ur_add_pdus 1 (length buf) s"
  have s0: "ur_inv s0" "ur_waits s0" and c0: "ur_cfg s0 = ur_cfg s"
    using assms by (simp_all add: s0_def ur_add_pdus_def metric_keeps_inv)
  show ?thesis
  proof (cases "rlc_um_read_data_pdu_header buf (rx_sn_field_length (ur_cfg s0))")
    case None
    then show ?thesis using s0 c0
      by (simp add: handle_pdu_cases s0_def [symmetric] Let_def ur_add_malformed_pdus_def metric_keeps_inv)
  next
    case (Some h)
    let ?p = "drop (rlc_um_nr_packed_length h) buf"
    have "ur_inv (ur_place ok h ?p s0) \<and> ur_waits (ur_place ok h ?p s0) \<and> ur_cfg (ur_place ok h ?p s0) = ur_cfg s0"
      if "um_si h \<noteq> full_sdu" "\<not> sn_invalid_for_rx_buffer s0 (ucast (um_sn h))"
      using place_effect(1,2,3) [OF s0 that(1) invalid_open [OF that(2) um_read_header_sn(1) [OF Some]]] by blast
    then show ?thesis using s0 c0 Some
      by (simp add: handle_pdu_cases s0_def [symmetric] Let_def ur_deliver_def ur_add_sdus_def metric_keeps_inv)
  qed
qed

lemma run_keeps_inv: "ur_inv (um_rx_run m cfg es) \<and> ur_waits (um_rx_run m cfg es) \<and> ur_cfg (um_rx_run m cfg es) = cfg"
proof (induction es rule: rev_induct)
  case Nil
  have "ur_waits (rlc_rx_um_entity m cfg)"
    by (simp add: ur_waits_def ur_fully_received_def rlc_rx_um_entity_def um_create_rx_window_def)
  then show ?case using ur_inv_initial by (simp add: um_rx_run_def) (simp add: rlc_rx_um_entity_def)
next
  case (snoc e es)
  have "um_rx_run m cfg (es @ [e]) = um_rx_step e (um_rx_run m cfg es)" by (simp add: um_rx_run_def)
  then show ?case using snoc pdu_keeps_inv expiry_effect(1,2,3)
    by (simp add: um_rx_step_def same_pos_def split: um_rx_event.split)
qed

text \<open>A bearer for the witnesses: it has received the first segment of the SDU with SN 1.\<close>

definition um_demo_cfg :: rlc_rx_um_config where
  "um_demo_cfg = \<lparr>rx_sn_field_length = um_size6bits, t_reassembly = 10\<rparr>"

definition um_demo_gap :: rlc_rx_um where
  "um_demo_gap = um_rx_run False um_demo_cfg [Um_pdu (\<lambda>_. True) [0x41, 7]]"

lemma um_demo_gap_facts:
  "rx_next_reassembly um_demo_gap = 0" "rx_timer_trigger um_demo_gap = 2" "rx_next_highest um_demo_gap = 2"
  "reassembly_timer_running um_demo_gap" "ur_cfg um_demo_gap = um_demo_cfg"
  by code_simp+

text \<open>C33. In every run of a receiving UM entity, whatever the PDUs contain, RX_Next_Reassembly lies in the
  reassembly window or at its upper edge RX_Next_Highest, it is the first sequence number that still waits for data
  (so the loops that move it have ended where they should), and the window holds no SDU below it.\<close>

theorem um_rx_window_invariant:
  "let s = um_rx_run m cfg es; nr = rx_next_reassembly s in
    nr < ur_mod s \<and> rx_next_highest s < ur_mod s \<and>
    rx_mod_base s nr \<le> rx_mod_base s (rx_next_highest s) \<and>
    (nr = rx_next_highest s \<or> \<not> ur_fully_received s nr) \<and>
    (\<forall>k. sn_invalid_for_rx_buffer s k \<longrightarrow> \<not> has_sn (ur_window s) k)"
proof -
  let ?s = "um_rx_run m cfg es"
  have i: "ur_inv ?s" "ur_waits ?s" using run_keeps_inv by blast+
  have "sn_pos ?s (rx_next_reassembly ?s) = um_w ?s \<Longrightarrow> rx_next_reassembly ?s = rx_next_highest ?s"
    using i(1) by (intro sn_pos_inj [of ?s]) (simp_all add: ur_inv_def)
  moreover have "rx_mod_base ?s (rx_next_reassembly ?s) \<le> rx_mod_base ?s (rx_next_highest ?s)"
  proof -
    have "sn_pos ?s (rx_next_reassembly ?s) \<le> sn_pos ?s (rx_next_highest ?s)" using i(1) by (simp add: ur_inv_def)
    then show ?thesis by (simp only: sn_pos_def word_le_def)
  qed
  moreover have "\<not> has_sn (ur_window ?s) k" if "sn_invalid_for_rx_buffer ?s k" for k
    using i(1) that by (auto simp: ur_inv_def window_iff has_sn_at)
  moreover have "x < ur_mod ?s \<longleftrightarrow> sn_ok ?s x" for x by (simp only: word_less_def um_sizes(2) sn_ok_def)
  ultimately show ?thesis using i by (auto simp: ur_inv_def ur_waits_def Let_def)
qed

theorem um_rx_window_invariant_witness:
  "sn_invalid_for_rx_buffer (um_rx_run False um_demo_cfg [Um_pdu (\<lambda>_. True) [0x41, 7], Um_expiry]) 1 \<and>
    \<not> has_sn (ur_window (um_rx_run False um_demo_cfg [Um_pdu (\<lambda>_. True) [0x41, 7], Um_expiry])) 1"
proof -
  have "sn_invalid_for_rx_buffer (um_rx_run False um_demo_cfg [Um_pdu (\<lambda>_. True) [0x41, 7], Um_expiry]) 1" by code_simp
  then show ?thesis
    using um_rx_window_invariant [of False um_demo_cfg "[Um_pdu (\<lambda>_. True) [0x41, 7], Um_expiry]"] by (simp add: Let_def)
qed

text \<open>t-Reassembly makes progress: when it expires, RX_Next_Reassembly passes every sequence number below
  RX_Timer_Trigger (as far as the window reaches), never goes back, and nothing is delivered.\<close>

theorem um_expiry_gives_up:
  fixes m :: bool and cfg :: rlc_rx_um_config and es :: "um_rx_event list"
  defines "s \<equiv> um_rx_run m cfg es"
  defines "t \<equiv> ur_timer_expires s"
  assumes "rx_mod_base s (rx_timer_trigger s) \<le> rx_mod_base s (rx_next_highest s)"
  shows "rx_mod_base s (rx_timer_trigger s) \<le> rx_mod_base s (rx_next_reassembly t) \<and>
    rx_mod_base s (rx_next_reassembly s) \<le> rx_mod_base s (rx_next_reassembly t) \<and>
    rx_next_highest t = rx_next_highest s \<and> ur_out t = ur_out s"
proof -
  have "ur_inv s" using run_keeps_inv by (simp add: s_def)
  note e = expiry_effect [OF this, folded t_def]
  have le: "rx_mod_base s x \<le> rx_mod_base s y \<longleftrightarrow> sn_pos s x \<le> sn_pos s y" for x y
    by (simp only: sn_pos_def word_le_def)
  show ?thesis using e(3-6) assms(3) unfolding le by (auto simp: same_pos_def)
qed

theorem um_expiry_gives_up_witness:
  "rx_mod_base um_demo_gap 2 \<le> rx_mod_base um_demo_gap (rx_next_reassembly (ur_timer_expires um_demo_gap))"
proof -
  have "rx_mod_base um_demo_gap (rx_timer_trigger um_demo_gap) \<le> rx_mod_base um_demo_gap (rx_next_highest um_demo_gap)"
    by (simp add: um_demo_gap_facts)
  from um_expiry_gives_up [OF this [unfolded um_demo_gap_def], folded um_demo_gap_def] show ?thesis
    by (simp add: um_demo_gap_facts)
qed

section \<open>Delivery\<close>

definition um_pdu_of :: "rlc_um_pdu_header \<times> bytes \<Rightarrow> bytes" where
  "um_pdu_of p = rlc_um_write_data_pdu_header (fst p) @ snd p"

definition um_segment_of :: "rlc_um_pdu_header \<times> bytes \<Rightarrow> um_segment" where
  "um_segment_of p = \<lparr>seg_si = um_si (fst p), seg_so = um_so (fst p), seg_payload = snd p\<rparr>"

text \<open>The PDUs that carry segments of an SDU with the sequence number \<open>x\<close>.\<close>

definition um_pdu_carries :: "rlc_um_sn_size \<Rightarrow> u16 \<Rightarrow> bytes \<Rightarrow> rlc_um_pdu_header \<times> bytes \<Rightarrow> bool" where
  "um_pdu_carries sz x sdu p \<longleftrightarrow> um_header_ok (fst p) \<and> um_sn_size (fst p) = sz \<and> um_sn (fst p) = x \<and>
    um_si (fst p) \<noteq> full_sdu \<and> seg_of sdu (um_segment_of p)"

lemma receive_carried:
  assumes "ur_inv s" "ur_waits s" "ur_open s (ucast x)" "um_pdu_carries (rx_sn_field_length (ur_cfg s)) x sdu p"
  shows "\<exists>s0. ur_handle_pdu ok (um_pdu_of p) s = ur_place ok (fst p) (snd p) s0 \<and>
    ur_inv s0 \<and> ur_waits s0 \<and> ur_open s0 (ucast x) \<and> ur_cfg s0 = ur_cfg s \<and> ur_out s0 = ur_out s \<and> ur_window s0 = ur_window s"
proof -
  let ?s0 = "ur_add_pdus 1 (length (um_pdu_of p)) s"
  obtain h pl where p: "p = (h, pl)" by (cases p)
  have h: "um_header_ok h" "um_sn_size h = rx_sn_field_length (ur_cfg s)" "um_sn h = x" "um_si h \<noteq> full_sdu" "pl \<noteq> []"
    using assms(4) by (simp_all add: um_pdu_carries_def p um_segment_of_def seg_of_def)
  have rd: "rlc_um_read_data_pdu_header (um_pdu_of p) (rx_sn_field_length (ur_cfg s)) = Some h"
    using um_header_read_back(1) [OF h(1), of pl] h by (simp add: um_pdu_of_def p)
  have len: "length (rlc_um_write_data_pdu_header h) = rlc_um_nr_packed_length h" by (rule um_header_read_back(2) [OF h(1)])
  have sp: "same_pos s ?s0" by (simp add: same_pos_def ur_add_pdus_def)
  note q = same_pos_simps [OF sp]
  have s0: "ur_inv ?s0" "ur_waits ?s0" using assms by (simp_all add: ur_add_pdus_def metric_keeps_inv)
  have o: "ur_open ?s0 (ucast x)" using assms(3) by (simp add: ur_open_def q) (simp add: ur_add_pdus_def)
  then have v: "\<not> sn_invalid_for_rx_buffer ?s0 (ucast x)" by (simp add: ur_open_def window_iff)
  have "ur_handle_pdu ok (um_pdu_of p) s = ur_place ok h pl ?s0"
    using rd v h len by (simp add: handle_pdu_cases Let_def ur_add_pdus_def) (simp add: um_pdu_of_def p)
  then show ?thesis using s0 o by (intro exI [of _ ?s0]) (simp add: p ur_add_pdus_def)
qed

lemma carried_sn_ok: "um_pdu_carries (rx_sn_field_length (ur_cfg s)) x sdu p \<Longrightarrow> sn_ok s (ucast x)"
  by (cases "rx_sn_field_length (ur_cfg s)")
    (auto simp: um_pdu_carries_def um_header_ok_def um_sn_bits_def sn_ok_def um_sizes(1) word_less_def uint_up_ucast is_up)

lemma receive_prefix:
  assumes "ur_inv s" "ur_waits s" "ur_open s (ucast x)" "ur_segments s (ucast x) = []"
    and "\<forall>p \<in> set ps. um_pdu_carries (rx_sn_field_length (ur_cfg s)) x sdu p"
    and "sdu \<noteq> []" "length sdu \<le> 2 ^ 16" "seg_cover (map um_segment_of ps) \<noteq> {0 ..< length sdu}"
  defines "t \<equiv> fold (\<lambda>p. ur_handle_pdu (\<lambda>_. True) (um_pdu_of p)) ps s"
  shows "ur_inv t \<and> ur_waits t \<and> ur_open t (ucast x) \<and> ur_cfg t = ur_cfg s \<and> ur_out t = ur_out s \<and>
    ur_segments t (ucast x) = store_segments (map um_segment_of ps)"
  using assms(5,8) unfolding t_def
proof (induction ps rule: rev_induct)
  case Nil
  then show ?case using assms(1-4) by (simp add: store_segments_def)
next
  case (snoc p ps)
  let ?t = "fold (\<lambda>p. ur_handle_pdu (\<lambda>_. True) (um_pdu_of p)) ps s" and ?segs = "map um_segment_of (ps @ [p])"
  have seg: "\<forall>q \<in> set ?segs. seg_of sdu q" using snoc.prems(1) by (auto simp: um_pdu_carries_def)
  have cov: "seg_cover ?segs \<subseteq> {0 ..< length sdu}" using seg by (auto simp: seg_cover_def seg_range_def seg_of_def)
  have "seg_cover (map um_segment_of ps) \<subseteq> seg_cover ?segs" by (auto simp: seg_cover_def)
  then have "seg_cover (map um_segment_of ps) \<noteq> {0 ..< length sdu}" using cov snoc.prems(2) by blast
  then have t: "ur_inv ?t" "ur_waits ?t" "ur_open ?t (ucast x)" "ur_cfg ?t = ur_cfg s" "ur_out ?t = ur_out s"
    "ur_segments ?t (ucast x) = store_segments (map um_segment_of ps)" using snoc by simp_all
  have c: "um_pdu_carries (rx_sn_field_length (ur_cfg ?t)) x sdu p" using snoc.prems(1) t(4) by simp
  obtain s0 where s0: "ur_handle_pdu (\<lambda>_. True) (um_pdu_of p) ?t = ur_place (\<lambda>_. True) (fst p) (snd p) s0"
    "ur_inv s0" "ur_waits s0" "ur_open s0 (ucast x)" "ur_cfg s0 = ur_cfg ?t" "ur_out s0 = ur_out ?t" "ur_window s0 = ur_window ?t"
    using receive_carried [OF t(1-3) c] by blast
  have h: "um_si (fst p) \<noteq> full_sdu" "um_sn (fst p) = x" using c by (simp_all add: um_pdu_carries_def)
  have o: "ur_open s0 (ucast (um_sn (fst p)))" using s0(4) h(2) by simp
  note pl = place_effect [OF s0(2,3) h(1) o, where payload = "snd p" and ok = "\<lambda>_. True"]
  have st: "ur_stored (fst p) (snd p) s0 = store_segments ?segs"
    using t(6) s0(7) h(2) by (simp add: ur_stored_def ur_segments_def store_segments_snoc um_segment_of_def)
  have "\<not> fst (update_segment_inventory (store_segments ?segs))"
    using store_segments_result(1) [OF seg assms(6,7)] snoc.prems(2) by blast
  then show ?case using pl(1-3,5) s0 t h(2) by (simp add: st)
qed

text \<open>All segments: the last one of \<open>ps @ [q]\<close> completes the SDU.\<close>

lemma receive_all:
  assumes "ur_inv s" "ur_waits s" "ur_open s (ucast x)" "ur_segments s (ucast x) = []"
    and "\<forall>p \<in> set (ps @ [q]). um_pdu_carries (rx_sn_field_length (ur_cfg s)) x sdu p"
    and "sdu \<noteq> []" "length sdu \<le> 2 ^ 16"
    and "seg_cover (map um_segment_of ps) \<noteq> {0 ..< length sdu}" "seg_cover (map um_segment_of (ps @ [q])) = {0 ..< length sdu}"
  shows "ur_out (fold (\<lambda>p. ur_handle_pdu (\<lambda>_. True) (um_pdu_of p)) ps s) = ur_out s \<and>
    ur_out (fold (\<lambda>p. ur_handle_pdu (\<lambda>_. True) (um_pdu_of p)) (ps @ [q]) s) = ur_out s @ [sdu]"
proof -
  let ?segs = "map um_segment_of (ps @ [q])" and ?t = "fold (\<lambda>p. ur_handle_pdu (\<lambda>_. True) (um_pdu_of p)) ps s"
  have c: "um_pdu_carries (rx_sn_field_length (ur_cfg s)) x sdu q"
    and cs: "\<forall>p \<in> set ps. um_pdu_carries (rx_sn_field_length (ur_cfg s)) x sdu p" using assms(5) by simp_all
  then have h: "um_si (fst q) \<noteq> full_sdu" "um_sn (fst q) = x" by (simp_all add: um_pdu_carries_def)
  have t: "ur_inv ?t" "ur_waits ?t" "ur_open ?t (ucast x)" "ur_cfg ?t = ur_cfg s" "ur_out ?t = ur_out s"
    "ur_segments ?t (ucast x) = store_segments (map um_segment_of ps)"
    using receive_prefix [OF assms(1-4) cs assms(6,7,8)] by blast+
  obtain s0 where s0: "ur_handle_pdu (\<lambda>_. True) (um_pdu_of q) ?t = ur_place (\<lambda>_. True) (fst q) (snd q) s0"
    "ur_inv s0" "ur_waits s0" "ur_open s0 (ucast x)" "ur_cfg s0 = ur_cfg ?t" "ur_out s0 = ur_out ?t" "ur_window s0 = ur_window ?t"
    using receive_carried [OF t(1-3)] c t(4) by metis
  have o: "ur_open s0 (ucast (um_sn (fst q)))" using s0(4) h(2) by simp
  note pl = place_effect [OF s0(2,3) h(1) o, where payload = "snd q" and ok = "\<lambda>_. True"]
  have st: "ur_stored (fst q) (snd q) s0 = store_segments ?segs"
    using t(6) s0(7) h(2) by (simp add: ur_stored_def ur_segments_def store_segments_snoc um_segment_of_def)
  have seg: "\<forall>q \<in> set ?segs. seg_of sdu q" using assms(5) by (auto simp: um_pdu_carries_def)
  have "fst (update_segment_inventory (store_segments ?segs))"
    using store_segments_result(1) [OF seg assms(6,7)] assms(9) by blast
  then have "ur_out (ur_place (\<lambda>_. True) (fst q) (snd q) s0) = ur_out s0 @ [sdu]"
    using pl(4) store_segments_result(2) [OF seg assms(6,7,9)] by (simp add: st)
  then show ?thesis using s0 t(5) by simp
qed

lemma run_open:
  assumes "\<not> sn_invalid_for_rx_buffer (um_rx_run m cfg es) (ucast x)" "\<not> has_sn (ur_window (um_rx_run m cfg es)) (ucast x)"
    and "um_pdu_carries (rx_sn_field_length (ur_cfg (um_rx_run m cfg es))) x sdu q"
  shows "ur_open (um_rx_run m cfg es) (ucast x)" "ur_segments (um_rx_run m cfg es) (ucast x) = []"
  using invalid_open [OF assms(1) carried_sn_ok [OF assms(3)]] assms(2) by (simp_all add: ur_segments_def has_sn_at)



section \<open>The timer after a wrap-around\<close>

text \<open>The test that stops t-Reassembly compares RX_Timer_Trigger and RX_Next_Reassembly as plain numbers. Once
  RX_Timer_Trigger has wrapped around, every further segment stops the timer and starts it anew for
  RX_Next_Highest, although RX_Next_Reassembly has not reached the trigger: while segments keep arriving, t-Reassembly
  does not expire. Without the wrap-around the same segment leaves the timer alone.\<close>

theorem um_wrapped_trigger_restarts:
  fixes h :: rlc_um_pdu_header and payload :: bytes and s :: rlc_rx_um
  assumes "um_pdu_carries (rx_sn_field_length (ur_cfg s)) (um_sn h) sdu (h, payload)" "ur_inv s"
    and "\<not> sn_invalid_for_rx_buffer s (ucast (um_sn h))" "sn_in_reassembly_window s (ucast (um_sn h))"
    and "\<not> fst (update_segment_inventory (ur_stored h payload s))"
    and "reassembly_timer_running s" "sn_in_reassembly_window s (rx_timer_trigger s)"
    and "rx_mod_base s (rx_next_reassembly s) < rx_mod_base s (rx_timer_trigger s)"
    and "rx_mod_base s (rx_next_reassembly s + 1) < rx_mod_base s (rx_next_highest s)"
    and "rx_next_highest s \<noteq> rx_next_reassembly s + 1"
  defines "t \<equiv> ur_handle_pdu (\<lambda>_. True) (um_pdu_of (h, payload)) s"
  shows "rx_next_reassembly t = rx_next_reassembly s \<and> rx_next_highest t = rx_next_highest s \<and> reassembly_timer_running t \<and>
    (rx_timer_trigger s \<le> rx_next_reassembly s \<longrightarrow> rx_timer_trigger t = rx_next_highest s) \<and>
    (rx_next_reassembly s < rx_timer_trigger s \<longrightarrow> rx_timer_trigger t = rx_timer_trigger s)"
proof -
  let ?x = "ucast (um_sn h) :: u32"
  define s0 where "s0 = ur_add_pdus 1 (length (um_pdu_of (h, payload))) s"
  have h: "um_header_ok h" "um_sn_size h = rx_sn_field_length (ur_cfg s)" "um_si h \<noteq> full_sdu" "payload \<noteq> []"
    using assms(1) by (simp_all add: um_pdu_carries_def um_segment_of_def seg_of_def)
  have rd: "rlc_um_read_data_pdu_header (um_pdu_of (h, payload)) (rx_sn_field_length (ur_cfg s)) = Some h"
    using um_header_read_back(1) [OF h(1), of payload] h by (simp add: um_pdu_of_def)
  have len: "length (rlc_um_write_data_pdu_header h) = rlc_um_nr_packed_length h" by (rule um_header_read_back(2) [OF h(1)])
  have f0: "ur_cfg s0 = ur_cfg s" "ur_window s0 = ur_window s" "rx_next_highest s0 = rx_next_highest s"
    "rx_next_reassembly s0 = rx_next_reassembly s" "rx_timer_trigger s0 = rx_timer_trigger s"
    "reassembly_timer_running s0 = reassembly_timer_running s" by (simp_all add: s0_def ur_add_pdus_def)
  have sp0: "same_pos s s0" by (simp add: same_pos_def f0)
  have inv: "\<not> sn_invalid_for_rx_buffer s0 ?x" using assms(3) by (simp add: window_iff same_pos_simps [OF sp0] f0)
  have "drop (rlc_um_nr_packed_length h) (um_pdu_of (h, payload)) = payload"
    "rlc_um_nr_packed_length h < length (um_pdu_of (h, payload))"
    using len h(4) by (simp_all add: um_pdu_of_def)
  then have t: "t = ur_place (\<lambda>_. True) h payload s0"
    using rd inv h(3) unfolding t_def handle_pdu_cases s0_def [symmetric] Let_def by (simp add: f0)
  define s1 where "s1 = snd (handle_segment_data_sdu h payload s0)"
  have wf: "cm_wf (ur_window s0)" using assms(2) by (simp add: ur_inv_def f0)
  note e = handle_segment_effect [OF wf h(3), where payload = payload, folded s1_def]
  obtain w where w: "s1 = s0\<lparr>ur_window := w\<rparr>" using e(1) by blast
  have sp1: "same_pos s s1" using sp0 by (simp add: w same_pos_def)
  note p = same_pos_simps [OF sp1]
  have st: "ur_stored h payload s0 = ur_stored h payload s" by (simp add: ur_stored_def ur_segments_def f0)
  have at: "\<exists>i. cm_at (ur_window s1) ?x = Some i \<and> \<not> fully_received i"
    using e(4) assms(5) unfolding st [symmetric] by (simp add: ur_stored_def)
  have win: "sn_in_reassembly_window s1 ?x" "sn_in_reassembly_window s1 (rx_timer_trigger s)"
    using assms(4,7) by (simp_all add: window_iff p)
  have t1: "t = ur_update_timer s1"
    using at win unfolding t ur_place_def Let_def s1_def [symmetric] by auto
  have b: "rx_mod_base s1 = rx_mod_base s" using sp1 p by (simp add: fun_eq_iff rx_mod_base_def same_pos_def)
  have f1: "rx_next_highest s1 = rx_next_highest s" "rx_next_reassembly s1 = rx_next_reassembly s"
    "rx_timer_trigger s1 = rx_timer_trigger s" "reassembly_timer_running s1" using assms(6) by (simp_all add: w f0)
  have go: "ur_restart_condition (s1\<lparr>reassembly_timer_running := False\<rparr>)"
  proof -
    have "rx_mod_base (s1\<lparr>reassembly_timer_running := False\<rparr>) = rx_mod_base s1"
      by (simp add: fun_eq_iff rx_mod_base_def ur_mod_def um_window_size_def)
    then show ?thesis using assms(9) by (simp add: ur_restart_condition_def b f1)
  qed
  show ?thesis
  proof (cases "rx_timer_trigger s \<le> rx_next_reassembly s")
    case True
    then have "ur_stop_condition s1" by (simp add: ur_stop_condition_def f1)
    moreover have "\<not> rx_next_reassembly s < rx_timer_trigger s" using True by simp
    ultimately show ?thesis using go f1 by (simp add: t1 ur_update_timer_def ur_start_timer_def)
  next
    case False
    then have "\<not> ur_stop_condition s1" using win(2) assms(10) by (simp add: ur_stop_condition_def f1)
    then show ?thesis using False f1 by (simp add: t1 ur_update_timer_def)
  qed
qed

text \<open>A bearer whose RX_Timer_Trigger has wrapped around: SN 62 and 63 are missing, SN 0 has its first segment.\<close>

definition um_demo_wrapped :: rlc_rx_um where
  "um_demo_wrapped = (rlc_rx_um_entity False um_demo_cfg)\<lparr>rx_next_reassembly := 62, rx_timer_trigger := 1,
    rx_next_highest := 3, reassembly_timer_running := True\<rparr>"

theorem um_wrapped_trigger_restarts_witness:
  "rx_timer_trigger (ur_handle_pdu (\<lambda>_. True) (um_pdu_of
    (\<lparr>um_si = first_segment, um_sn_size = um_size6bits, um_sn = 2, um_so = 0\<rparr>, [7])) um_demo_wrapped) = 3"
proof -
  let ?s = um_demo_wrapped and ?h = "\<lparr>um_si = first_segment, um_sn_size = um_size6bits, um_sn = 2, um_so = 0\<rparr>"
  have c: "um_pdu_carries (rx_sn_field_length (ur_cfg ?s)) (um_sn ?h) [7, 8] (?h, [7])"
    by (simp add: um_demo_wrapped_def rlc_rx_um_entity_def um_demo_cfg_def um_pdu_carries_def um_header_ok_def um_sn_bits_def
        um_segment_of_def seg_of_def seg_end_def)
  have "sn_pos ?s 62 = 27" by (simp add: sn_pos_uint um_sizes(1) um_demo_wrapped_def rlc_rx_um_entity_def um_demo_cfg_def)
  then have i: "ur_inv ?s"
    by (simp add: ur_inv_def sn_ok_def um_sizes(1)) (simp add: um_demo_wrapped_def rlc_rx_um_entity_def um_demo_cfg_def
        um_create_rx_window_def rlc_window_size_def rlc_cardinality_def)
  have f: "\<not> sn_invalid_for_rx_buffer ?s (ucast (um_sn ?h))" "sn_in_reassembly_window ?s (ucast (um_sn ?h))"
    "\<not> fst (update_segment_inventory (ur_stored ?h [7] ?s))"
    "reassembly_timer_running ?s" "sn_in_reassembly_window ?s (rx_timer_trigger ?s)"
    "rx_mod_base ?s (rx_next_reassembly ?s) < rx_mod_base ?s (rx_timer_trigger ?s)"
    "rx_mod_base ?s (rx_next_reassembly ?s + 1) < rx_mod_base ?s (rx_next_highest ?s)"
    "rx_next_highest ?s \<noteq> rx_next_reassembly ?s + 1" "rx_timer_trigger ?s \<le> rx_next_reassembly ?s" "rx_next_highest ?s = 3"
    by code_simp+
  show ?thesis using um_wrapped_trigger_restarts [OF c i f(1-8)] f(9,10) by simp
qed

end
