(* ===== verification/Rlc_Sdu_Queue.thy ===== *)
theory Rlc_Sdu_Queue
  imports Prelude
begin

text \<open>
  The queue of SDUs between the upper layer's thread and the lower layer's thread
  (\<open>lib/rlc/rlc_sdu_queue_lockfree.h\<close>). The lock-free single-producer single-consumer queue inside it is a
  bounded FIFO list. The operations are composed of the atomic accesses the code makes, so that the
  interleavings of the two threads are the interleavings of these accesses.
\<close>

section \<open>State\<close>

record rlc_sdu =
  sdu_buf :: bytes
  sdu_is_retx :: bool
  sdu_pdcp_sn :: "u32 option"

definition rlc_sdu_empty :: rlc_sdu where
  "rlc_sdu_empty = \<lparr>sdu_buf = [], sdu_is_retx = False, sdu_pdcp_sn = None\<rparr>"

record sdu_queue =
  sq_capacity :: nat
  sq_byte_limit :: u32
  sq_state :: u64
  sq_queue :: "rlc_sdu list"
  sq_slots :: "nat \<Rightarrow> u32"
  sq_sizes :: "nat \<Rightarrow> nat"

definition sq_free :: u32 where
  "sq_free = 0xffffffff"

definition sq_discarded :: u32 where
  "sq_discarded = 0xfffffffe"

definition sq_new :: "nat \<Rightarrow> u32 \<Rightarrow> sdu_queue" where
  "sq_new capacity byte_limit =
    \<lparr>sq_capacity = capacity, sq_byte_limit = byte_limit, sq_state = 0, sq_queue = [], sq_slots = (\<lambda>_. sq_free),
     sq_sizes = (\<lambda>_. 0)\<rparr>"

text \<open>The number of SDUs and of bytes that are not marked as discarded.\<close>

definition sq_get_state :: "sdu_queue \<Rightarrow> u32 \<times> u32" where
  "sq_get_state q = (ucast (drop_bit 32 (sq_state q)), ucast (sq_state q AND 0xffffffff))"

definition sq_state_change :: "u32 \<Rightarrow> u64" where
  "sq_state_change sdu_size = push_bit 32 1 OR ucast sdu_size"

definition sq_state_add :: "u32 \<Rightarrow> sdu_queue \<Rightarrow> sdu_queue" where
  "sq_state_add sdu_size q = q\<lparr>sq_state := sq_state q + sq_state_change sdu_size\<rparr>"

definition sq_state_sub :: "u32 \<Rightarrow> sdu_queue \<Rightarrow> sdu_queue" where
  "sq_state_sub sdu_size q = q\<lparr>sq_state := sq_state q - sq_state_change sdu_size\<rparr>"

definition sq_is_empty :: "sdu_queue \<Rightarrow> bool" where
  "sq_is_empty q \<longleftrightarrow> sq_queue q = []"

definition sq_is_full :: "sdu_queue \<Rightarrow> bool" where
  "sq_is_full q \<longleftrightarrow> sq_capacity q \<le> length (sq_queue q)"

definition sq_slot :: "sdu_queue \<Rightarrow> u32 \<Rightarrow> nat" where
  "sq_slot q pdcp_sn = unat pdcp_sn mod sq_capacity q"

section \<open>Operations\<close>

text \<open>The first half of \<open>write\<close>: the byte limit, and the slot of the PDCP SN.\<close>

definition sq_reserve :: "rlc_sdu \<Rightarrow> sdu_queue \<Rightarrow> sdu_queue option" where
  "sq_reserve sdu q =
    (if length (sdu_buf sdu) + unat (snd (sq_get_state q)) \<ge> unat (sq_byte_limit q) then None
     else case sdu_pdcp_sn sdu of
       None \<Rightarrow> Some q
     | Some sn \<Rightarrow>
         if sq_slots q (sq_slot q sn) \<noteq> sq_free then None
         else Some (q\<lparr>sq_sizes := (sq_sizes q)(sq_slot q sn := length (sdu_buf sdu)),
                      sq_slots := (sq_slots q)(sq_slot q sn := sn)\<rparr>))"

text \<open>The push, which gives the slot back when the inner queue is full.\<close>

definition sq_push :: "rlc_sdu \<Rightarrow> sdu_queue \<Rightarrow> bool \<times> sdu_queue" where
  "sq_push sdu q =
    (if length (sq_queue q) < sq_capacity q then (True, q\<lparr>sq_queue := sq_queue q @ [sdu]\<rparr>)
     else (False, case sdu_pdcp_sn sdu of
                    None \<Rightarrow> q
                  | Some sn \<Rightarrow> q\<lparr>sq_slots := (sq_slots q)(sq_slot q sn := sq_free)\<rparr>))"

definition sq_write :: "rlc_sdu \<Rightarrow> sdu_queue \<Rightarrow> bool \<times> sdu_queue" where
  "sq_write sdu q =
    (case sq_reserve sdu q of
       None \<Rightarrow> (False, q)
     | Some q \<Rightarrow>
         (let (pushed, q) = sq_push sdu q
          in if \<not> pushed then (False, q) else (True, sq_state_add (word_of_nat (length (sdu_buf sdu))) q)))"

text \<open>The compare-and-exchange of \<open>try_discard\<close>, with the size of the slot.\<close>

definition sq_mark_discarded :: "u32 \<Rightarrow> sdu_queue \<Rightarrow> bool \<times> u32 \<times> sdu_queue" where
  "sq_mark_discarded pdcp_sn q =
    (let i = sq_slot q pdcp_sn
     in if sq_slots q i = pdcp_sn then (True, word_of_nat (sq_sizes q i), q\<lparr>sq_slots := (sq_slots q)(i := sq_discarded)\<rparr>)
        else (False, word_of_nat (sq_sizes q i), q))"

definition sq_try_discard :: "u32 \<Rightarrow> sdu_queue \<Rightarrow> bool \<times> sdu_queue" where
  "sq_try_discard pdcp_sn q =
    (let (success, sdu_size, q) = sq_mark_discarded pdcp_sn q
     in if \<not> success then (False, q) else (True, sq_state_sub sdu_size q))"

text \<open>The exchange of \<open>check_and_release\<close>: the old state and the size of the slot.\<close>

definition sq_release :: "u32 \<Rightarrow> sdu_queue \<Rightarrow> u32 \<times> u32 \<times> sdu_queue" where
  "sq_release pdcp_sn q =
    (let i = sq_slot q pdcp_sn
     in (sq_slots q i, word_of_nat (sq_sizes q i), q\<lparr>sq_slots := (sq_slots q)(i := sq_free)\<rparr>))"

definition sq_check_and_release :: "u32 \<Rightarrow> sdu_queue \<Rightarrow> bool \<times> sdu_queue" where
  "sq_check_and_release pdcp_sn q =
    (let (old_state, sdu_size, q) = sq_release pdcp_sn q
     in if old_state \<noteq> pdcp_sn \<and> old_state = sq_discarded then (False, q)
        else (old_state = pdcp_sn, sq_state_sub sdu_size q))"

text \<open>
  \<open>read\<close> with the SDU the caller passes by reference: each pop overwrites it, also with an SDU that turns out
  to be discarded.
\<close>

function sq_read :: "rlc_sdu \<Rightarrow> sdu_queue \<Rightarrow> bool \<times> rlc_sdu \<times> sdu_queue" where
  "sq_read sdu q =
    (case sq_queue q of
       [] \<Rightarrow> (False, sdu, q)
     | sdu # rest \<Rightarrow>
         let q = q\<lparr>sq_queue := rest\<rparr>
         in case sdu_pdcp_sn sdu of
              None \<Rightarrow> (True, sdu, sq_state_sub (word_of_nat (length (sdu_buf sdu))) q)
            | Some sn \<Rightarrow>
                if fst (sq_check_and_release sn q) then (True, sdu, snd (sq_check_and_release sn q))
                else sq_read sdu (snd (sq_check_and_release sn q)))"
  by pat_completeness auto
termination
  by (relation "measure (\<lambda>(sdu, q). length (sq_queue q))")
    (auto simp: sq_check_and_release_def sq_release_def sq_state_sub_def Let_def)

declare sq_read.simps [simp del]

section \<open>Two threads\<close>

text \<open>
  Where the two threads stand between their atomic accesses: the upper layer's in \<open>write\<close> or
  \<open>try_discard\<close>, the lower layer's in \<open>read\<close>. An event records the access at which an operation takes
  effect.
\<close>

datatype upper_pc = W_idle | W_reserved rlc_sdu | W_pushed u32 | W_discarded u32

datatype lower_pc = R_idle | R_popped rlc_sdu | R_released u32

datatype sq_event = Pushed rlc_sdu | Discarded u32 | Delivered rlc_sdu

record sq_system =
  sys_q :: sdu_queue
  sys_upper :: upper_pc
  sys_lower :: lower_pc
  sys_trace :: "sq_event list"

definition sq_start :: "nat \<Rightarrow> u32 \<Rightarrow> sq_system" where
  "sq_start capacity byte_limit =
    \<lparr>sys_q = sq_new capacity byte_limit, sys_upper = W_idle, sys_lower = R_idle, sys_trace = []\<rparr>"

text \<open>A PDCP SN has at most 18 bits, so it is none of the two marks.\<close>

definition sn_plain :: "u32 option \<Rightarrow> bool" where
  "sn_plain o_sn \<longleftrightarrow> o_sn \<noteq> Some sq_free \<and> o_sn \<noteq> Some sq_discarded"

inductive sq_step :: "sq_system \<Rightarrow> sq_system \<Rightarrow> bool" where
  write_reserve: "sq_step S (S\<lparr>sys_q := q, sys_upper := W_reserved x\<rparr>)"
    if "sys_upper S = W_idle" "sn_plain (sdu_pdcp_sn x)" "sq_reserve x (sys_q S) = Some q"
| write_push: "sq_step S (S\<lparr>sys_q := q, sys_upper := W_pushed (word_of_nat (length (sdu_buf x))),
      sys_trace := sys_trace S @ [Pushed x]\<rparr>)"
    if "sys_upper S = W_reserved x" "sq_push x (sys_q S) = (True, q)"
| write_full: "sq_step S (S\<lparr>sys_q := q, sys_upper := W_idle\<rparr>)"
    if "sys_upper S = W_reserved x" "sq_push x (sys_q S) = (False, q)"
| write_add: "sq_step S (S\<lparr>sys_q := sq_state_add n (sys_q S), sys_upper := W_idle\<rparr>)"
    if "sys_upper S = W_pushed n"
| discard_mark: "sq_step S (S\<lparr>sys_q := q, sys_upper := W_discarded n, sys_trace := sys_trace S @ [Discarded sn]\<rparr>)"
    if "sys_upper S = W_idle" "sn_plain (Some sn)" "sq_mark_discarded sn (sys_q S) = (True, n, q)"
| discard_sub: "sq_step S (S\<lparr>sys_q := sq_state_sub n (sys_q S), sys_upper := W_idle\<rparr>)"
    if "sys_upper S = W_discarded n"
| read_pop: "sq_step S (S\<lparr>sys_q := (sys_q S)\<lparr>sq_queue := rest\<rparr>, sys_lower := R_popped x\<rparr>)"
    if "sys_lower S = R_idle" "sq_queue (sys_q S) = x # rest" "sdu_pdcp_sn x \<noteq> None"
| read_pop_plain: "sq_step S (S\<lparr>sys_q := (sys_q S)\<lparr>sq_queue := rest\<rparr>,
      sys_lower := R_released (word_of_nat (length (sdu_buf x))), sys_trace := sys_trace S @ [Delivered x]\<rparr>)"
    if "sys_lower S = R_idle" "sq_queue (sys_q S) = x # rest" "sdu_pdcp_sn x = None"
| read_valid: "sq_step S (S\<lparr>sys_q := q, sys_lower := R_released n, sys_trace := sys_trace S @ [Delivered x]\<rparr>)"
    if "sys_lower S = R_popped x" "sdu_pdcp_sn x = Some sn" "sq_release sn (sys_q S) = (old, n, q)" "old = sn"
| read_discarded: "sq_step S (S\<lparr>sys_q := q, sys_lower := R_idle\<rparr>)"
    if "sys_lower S = R_popped x" "sdu_pdcp_sn x = Some sn" "sq_release sn (sys_q S) = (old, n, q)" "old \<noteq> sn"
      "old = sq_discarded"
| read_invalid: "sq_step S (S\<lparr>sys_q := q, sys_lower := R_released n\<rparr>)"
    if "sys_lower S = R_popped x" "sdu_pdcp_sn x = Some sn" "sq_release sn (sys_q S) = (old, n, q)" "old \<noteq> sn"
      "old \<noteq> sq_discarded"
| read_sub: "sq_step S (S\<lparr>sys_q := sq_state_sub n (sys_q S), sys_lower := R_idle\<rparr>)"
    if "sys_lower S = R_released n"

inductive sq_reachable :: "nat \<Rightarrow> u32 \<Rightarrow> sq_system \<Rightarrow> bool" for capacity byte_limit where
  reach_start: "sq_reachable capacity byte_limit (sq_start capacity byte_limit)"
| reach_step: "sq_reachable capacity byte_limit S \<Longrightarrow> sq_step S T \<Longrightarrow> sq_reachable capacity byte_limit T"

section \<open>Specification: a FIFO whose elements can be withdrawn\<close>

text \<open>\<open>None\<close>: the events are not a behaviour of such a FIFO.\<close>

fun fifo_exec :: "sq_event list \<Rightarrow> rlc_sdu list \<Rightarrow> rlc_sdu list option" where
  "fifo_exec [] xs = Some xs"
| "fifo_exec (Pushed x # es) xs = fifo_exec es (xs @ [x])"
| "fifo_exec (Discarded sn # es) xs =
    (if \<exists>x \<in> set xs. sdu_pdcp_sn x = Some sn then fifo_exec es (filter (\<lambda>x. sdu_pdcp_sn x \<noteq> Some sn) xs) else None)"
| "fifo_exec (Delivered x # es) xs =
    (case xs of [] \<Rightarrow> None | y # ys \<Rightarrow> if y = x then fifo_exec es ys else None)"

lemma fifo_exec_append: "fifo_exec (es @ fs) xs = (case fifo_exec es xs of None \<Rightarrow> None | Some ys \<Rightarrow> fifo_exec fs ys)"
  by (induction es xs rule: fifo_exec.induct) (simp_all split: list.split)

section \<open>Invariant\<close>

text \<open>The SDUs that hold a slot, oldest first: the one the lower layer took out, the queue, the one being written.\<close>

definition held :: "sq_system \<Rightarrow> rlc_sdu list" where
  "held S = (case sys_lower S of R_popped x \<Rightarrow> [x] | _ \<Rightarrow> []) @ sq_queue (sys_q S)"

definition writing :: "sq_system \<Rightarrow> rlc_sdu list" where
  "writing S = (case sys_upper S of W_reserved x \<Rightarrow> [x] | _ \<Rightarrow> [])"

definition sns_of :: "rlc_sdu list \<Rightarrow> u32 list" where
  "sns_of xs = List.map_filter sdu_pdcp_sn xs"

lemma sns_of_simps [simp]:
  "sns_of [] = []"
  "sns_of (x # xs) = (case sdu_pdcp_sn x of None \<Rightarrow> [] | Some sn \<Rightarrow> [sn]) @ sns_of xs"
  "sns_of (xs @ ys) = sns_of xs @ sns_of ys"
  by (induction xs) (simp_all add: sns_of_def map_filter_simps split: option.split)

lemma sns_of_mem: "sn \<in> set (sns_of xs) \<longleftrightarrow> (\<exists>x \<in> set xs. sdu_pdcp_sn x = Some sn)"
  by (induction xs) (auto split: option.splits)

definition valid_sdu :: "sdu_queue \<Rightarrow> rlc_sdu \<Rightarrow> bool" where
  "valid_sdu q x \<longleftrightarrow> (case sdu_pdcp_sn x of None \<Rightarrow> True | Some sn \<Rightarrow> sq_slots q (sq_slot q sn) = sn)"

definition live :: "sq_system \<Rightarrow> rlc_sdu list" where
  "live S = filter (valid_sdu (sys_q S)) (held S)"

text \<open>Slots and the SDUs that hold them: no two in one slot, none free that is held and none held that is free.\<close>

definition slots_ok :: "sdu_queue \<Rightarrow> rlc_sdu list \<Rightarrow> bool" where
  "slots_ok q xs \<longleftrightarrow> 0 < sq_capacity q \<and>
    distinct (map (sq_slot q) (sns_of xs)) \<and>
    (\<forall>x \<in> set xs. \<forall>sn. sdu_pdcp_sn x = Some sn \<longrightarrow>
       sn_plain (Some sn) \<and> sq_slots q (sq_slot q sn) \<in> {sn, sq_discarded} \<and> sq_sizes q (sq_slot q sn) = length (sdu_buf x)) \<and>
    (\<forall>i. sq_slots q i \<noteq> sq_free \<longrightarrow> i \<in> sq_slot q ` set (sns_of xs))"

definition slots_inv :: "sq_system \<Rightarrow> bool" where
  "slots_inv S \<longleftrightarrow> slots_ok (sys_q S) (held S @ writing S) \<and> (\<forall>x \<in> set (writing S). valid_sdu (sys_q S) x)"

definition total :: "rlc_sdu list \<Rightarrow> u64" where
  "total xs = (\<Sum>x\<leftarrow>xs. sq_state_change (word_of_nat (length (sdu_buf x))))"

lemma total_simps [simp]:
  "total [] = 0"
  "total (x # xs) = sq_state_change (word_of_nat (length (sdu_buf x))) + total xs"
  "total (xs @ ys) = total xs + total ys"
  by (simp_all add: total_def)

definition count_inv :: "sq_system \<Rightarrow> bool" where
  "count_inv S \<longleftrightarrow>
    sq_state (sys_q S) + (case sys_upper S of W_pushed n \<Rightarrow> sq_state_change n | _ \<Rightarrow> 0) =
    total (live S) + (case sys_upper S of W_discarded n \<Rightarrow> sq_state_change n | _ \<Rightarrow> 0) +
      (case sys_lower S of R_released n \<Rightarrow> sq_state_change n | _ \<Rightarrow> 0)"

definition sq_inv :: "sq_system \<Rightarrow> bool" where
  "sq_inv S \<longleftrightarrow> slots_inv S \<and> count_inv S \<and> fifo_exec (sys_trace S) [] = Some (live S)"

lemma sq_inv_start: "0 < capacity \<Longrightarrow> sq_inv (sq_start capacity byte_limit)"
  by (simp add: sq_inv_def slots_inv_def slots_ok_def count_inv_def live_def held_def writing_def sq_start_def sq_new_def)

lemma slot_update [simp]:
  "sq_slot (q\<lparr>sq_slots := a\<rparr>) = sq_slot q" "sq_slot (q\<lparr>sq_sizes := b\<rparr>) = sq_slot q"
  "sq_slot (q\<lparr>sq_queue := c\<rparr>) = sq_slot q" "sq_slot (q\<lparr>sq_state := d\<rparr>) = sq_slot q"
  by (simp_all add: sq_slot_def fun_eq_iff)

lemma valid_update [simp]:
  "valid_sdu (q\<lparr>sq_sizes := b\<rparr>) = valid_sdu q" "valid_sdu (q\<lparr>sq_queue := c\<rparr>) = valid_sdu q"
  "valid_sdu (q\<lparr>sq_state := d\<rparr>) = valid_sdu q"
  by (simp_all add: valid_sdu_def fun_eq_iff split: option.split)

lemma slots_ok_update [simp]:
  "slots_ok (q\<lparr>sq_queue := c\<rparr>) xs = slots_ok q xs" "slots_ok (q\<lparr>sq_state := d\<rparr>) xs = slots_ok q xs"
  by (simp_all add: slots_ok_def)

lemma slots_other:
  assumes "slots_ok q (xs @ x # ys)" "sdu_pdcp_sn x = Some sn" "y \<in> set (xs @ ys)" "sdu_pdcp_sn y = Some sn'"
  shows "sq_slot q sn' \<noteq> sq_slot q sn"
proof -
  have "sn' \<in> set (sns_of xs) \<union> set (sns_of ys)" using assms(3,4) by (auto simp: sns_of_mem)
  moreover have "distinct (map (sq_slot q) (sns_of xs @ sn # sns_of ys))" using assms(1,2) by (simp add: slots_ok_def)
  ultimately show ?thesis by (auto dest: image_eqI [of _ "sq_slot q", OF sym])
qed

lemma reserve_ok:
  assumes "slots_ok q xs" "sn_plain (sdu_pdcp_sn x)" "sq_reserve x q = Some q'"
  shows "slots_ok q' (xs @ [x]) \<and> valid_sdu q' x \<and> (\<forall>y \<in> set xs. valid_sdu q' y = valid_sdu q y) \<and>
    sq_state q' = sq_state q \<and> sq_queue q' = sq_queue q"
proof (cases "sdu_pdcp_sn x")
  case None
  then have "q' = q" using assms(3) by (simp add: sq_reserve_def split: if_splits)
  then show ?thesis using None assms(1) by (auto simp: slots_ok_def valid_sdu_def)
next
  case (Some sn)
  let ?i = "sq_slot q sn"
  have f: "sq_slots q ?i = sq_free" and q': "q' = q\<lparr>sq_sizes := (sq_sizes q)(?i := length (sdu_buf x)), sq_slots := (sq_slots q)(?i := sn)\<rparr>"
    using assms(3) Some by (simp_all add: sq_reserve_def split: if_splits)
  have o: "sq_slot q sn' \<noteq> ?i" if "y \<in> set xs" "sdu_pdcp_sn y = Some sn'" for y sn'
  proof
    assume "sq_slot q sn' = ?i"
    then have "sq_free \<in> {sn', sq_discarded}" "sn_plain (Some sn')" using that assms(1) f unfolding slots_ok_def by metis+
    then show False by (auto simp: sn_plain_def sq_free_def sq_discarded_def)
  qed
  then have d: "?i \<notin> sq_slot q ` set (sns_of xs)" by (metis (no_types, lifting) imageE sns_of_mem)
  have v: "valid_sdu q' x" "\<forall>y \<in> set xs. valid_sdu q' y = valid_sdu q y"
    using Some o by (auto simp: q' valid_sdu_def split: option.split)
  have "slots_ok q' (xs @ [x])"
    using assms(1,2) Some d o unfolding slots_ok_def q' by (auto simp: sn_plain_def)
  then show ?thesis using v by (simp add: q')
qed

lemma release_ok:
  assumes "slots_ok q (xs @ x # ys)" "sdu_pdcp_sn x = Some sn"
  defines "q' \<equiv> q\<lparr>sq_slots := (sq_slots q)(sq_slot q sn := sq_free)\<rparr>"
  shows "slots_ok q' (xs @ ys) \<and> (\<forall>y \<in> set (xs @ ys). valid_sdu q' y = valid_sdu q y)"
proof -
  note o = slots_other [OF assms(1,2)]
  have "slots_ok q' (xs @ ys)"
    using assms(1,2) o unfolding slots_ok_def q'_def by auto
  moreover have "\<forall>y \<in> set (xs @ ys). valid_sdu q' y = valid_sdu q y"
    using o by (auto simp: q'_def valid_sdu_def split: option.split)
  ultimately show ?thesis by blast
qed

lemma discard_ok:
  assumes "slots_ok q xs" "sn_plain (Some sn)" "sq_slots q (sq_slot q sn) = sn"
  defines "q' \<equiv> q\<lparr>sq_slots := (sq_slots q)(sq_slot q sn := sq_discarded)\<rparr>"
  obtains ys x zs where "xs = ys @ x # zs" "sdu_pdcp_sn x = Some sn" "sq_sizes q (sq_slot q sn) = length (sdu_buf x)"
    "slots_ok q' xs" "\<forall>y \<in> set (ys @ zs). sdu_pdcp_sn y \<noteq> Some sn \<and> valid_sdu q' y = valid_sdu q y"
    "valid_sdu q x" "\<not> valid_sdu q' x"
proof -
  have "sq_slots q (sq_slot q sn) \<noteq> sq_free" using assms(2,3) by (simp add: sn_plain_def)
  then obtain sn' where sn': "sn' \<in> set (sns_of xs)" "sq_slot q sn' = sq_slot q sn" using assms(1) by (auto simp: slots_ok_def)
  then obtain x where x: "x \<in> set xs" "sdu_pdcp_sn x = Some sn'" by (auto simp: sns_of_mem)
  then have "sn \<in> {sn', sq_discarded}" and sz: "sq_sizes q (sq_slot q sn) = length (sdu_buf x)"
    using assms(1,3) sn'(2) unfolding slots_ok_def by metis+
  then have x2: "sdu_pdcp_sn x = Some sn" using x(2) assms(2) by (auto simp: sn_plain_def)
  obtain ys zs where xs: "xs = ys @ x # zs" using x(1) by (auto dest: split_list)
  note o = slots_other [OF assms(1) [unfolded xs] x2]
  have i: "sq_slot q sn \<in> sq_slot q ` set (sns_of xs)" using sn' by (metis imageI)
  have "slots_ok q' xs" using assms(1) x2 i unfolding slots_ok_def q'_def by auto
  moreover have "\<forall>y \<in> set (ys @ zs). sdu_pdcp_sn y \<noteq> Some sn \<and> valid_sdu q' y = valid_sdu q y"
    using o by (auto simp: q'_def valid_sdu_def split: option.split)
  moreover have "valid_sdu q x" "\<not> valid_sdu q' x" using x2 assms(2,3) by (auto simp: q'_def valid_sdu_def sn_plain_def)
  ultimately show thesis using that [OF xs x2 sz] by blast
qed

lemma filter_valid_cong: "\<forall>y \<in> set xs. valid_sdu q' y = valid_sdu q y \<Longrightarrow> filter (valid_sdu q') xs = filter (valid_sdu q) xs"
  by (rule filter_cong) simp_all

lemma filter_all_sn: "\<forall>y \<in> set xs. sdu_pdcp_sn y \<noteq> Some sn \<Longrightarrow> filter (\<lambda>y. P y \<and> sdu_pdcp_sn y \<noteq> Some sn) xs = filter P xs"
  by (rule filter_cong) simp_all

lemmas sq_unfold = sq_inv_def slots_inv_def count_inv_def live_def held_def writing_def

lemma sq_inv_step: "sq_step S T \<Longrightarrow> sq_inv S \<Longrightarrow> sq_inv T"
proof (induction rule: sq_step.induct)
  case (write_reserve S x q)
  have ok: "slots_ok (sys_q S) (held S)" using write_reserve by (simp add: sq_inv_def slots_inv_def writing_def)
  note r = reserve_ok [OF ok write_reserve.hyps(2,3)]
  have "filter (valid_sdu q) (held S) = filter (valid_sdu (sys_q S)) (held S)" using r by (intro filter_valid_cong) simp
  then show ?case using write_reserve r by (auto simp: sq_unfold)
next
  case (write_push S x q)
  have q: "q = (sys_q S)\<lparr>sq_queue := sq_queue (sys_q S) @ [x]\<rparr>" using write_push by (simp add: sq_push_def split: if_splits)
  have "valid_sdu (sys_q S) x" using write_push by (simp add: sq_inv_def slots_inv_def writing_def)
  then show ?case using write_push by (simp add: sq_unfold q fifo_exec_append algebra_simps)
next
  case (write_full S x q)
  show ?case
  proof (cases "sdu_pdcp_sn x")
    case None
    then have "q = sys_q S" using write_full by (simp add: sq_push_def split: if_splits)
    then show ?thesis using write_full None by (simp add: sq_unfold slots_ok_def)
  next
    case (Some sn)
    let ?q = "sys_q S"
    have q: "q = ?q\<lparr>sq_slots := (sq_slots ?q)(sq_slot ?q sn := sq_free)\<rparr>"
      using write_full Some by (simp add: sq_push_def split: if_splits)
    have ok: "slots_ok ?q (held S @ x # [])" using write_full by (simp add: sq_inv_def slots_inv_def writing_def)
    note r = release_ok [OF ok Some, folded q]
    have "filter (valid_sdu q) (held S) = filter (valid_sdu ?q) (held S)" using r by (intro filter_valid_cong) simp
    moreover have "sq_state q = sq_state ?q" "sq_queue q = sq_queue ?q" by (simp_all add: q)
    ultimately show ?thesis using write_full r by (simp add: sq_unfold)
  qed
next
  case (write_add S n)
  then show ?case by (simp add: sq_unfold sq_state_add_def algebra_simps)
next
  case (discard_mark S sn n q)
  let ?q = "sys_q S"
  have ok: "slots_ok ?q (held S)" using discard_mark by (simp add: sq_inv_def slots_inv_def writing_def)
  have h: "sq_slots ?q (sq_slot ?q sn) = sn" and n: "n = word_of_nat (sq_sizes ?q (sq_slot ?q sn))"
    and q: "q = ?q\<lparr>sq_slots := (sq_slots ?q)(sq_slot ?q sn := sq_discarded)\<rparr>"
    using discard_mark.hyps(3) by (auto simp: sq_mark_discarded_def Let_def split: if_splits)
  obtain ys x zs where x: "held S = ys @ x # zs" "sdu_pdcp_sn x = Some sn" "n = word_of_nat (length (sdu_buf x))"
    "slots_ok q (held S)" "\<forall>y \<in> set (ys @ zs). sdu_pdcp_sn y \<noteq> Some sn \<and> valid_sdu q y = valid_sdu ?q y"
    "valid_sdu ?q x" "\<not> valid_sdu q x"
    using discard_ok [OF ok discard_mark.hyps(2) h] unfolding q n by metis
  have f: "filter (valid_sdu q) ys = filter (valid_sdu ?q) ys" "filter (valid_sdu q) zs = filter (valid_sdu ?q) zs"
    using x(5) by (simp_all add: filter_valid_cong)
  have live: "live S = filter (valid_sdu ?q) ys @ x # filter (valid_sdu ?q) zs" using x(1,6) by (simp add: live_def)
  let ?T = "S\<lparr>sys_q := q, sys_upper := W_discarded n, sys_trace := sys_trace S @ [Discarded sn]\<rparr>"
  have held: "held ?T = held S" "writing ?T = []" by (simp_all add: held_def writing_def q)
  have liveT: "live ?T = filter (valid_sdu ?q) ys @ filter (valid_sdu ?q) zs"
    unfolding live_def held using x(1,7) f by simp
  have e: "filter (\<lambda>y. sdu_pdcp_sn y \<noteq> Some sn) (live S) = live ?T"
    unfolding live liveT using x(2,5) by (simp add: filter_all_sn)
  have "\<exists>y \<in> set (live S). sdu_pdcp_sn y = Some sn" unfolding live using x(2) by simp
  then have "fifo_exec (sys_trace ?T) [] = Some (live ?T)"
    using discard_mark.prems e by (simp add: sq_inv_def fifo_exec_append)
  moreover have "slots_inv ?T" using x(4) by (simp add: slots_inv_def held)
  moreover have "count_inv ?T"
    using discard_mark.prems discard_mark.hyps(1) unfolding sq_inv_def count_inv_def live liveT
    by (simp add: q x(3) algebra_simps)
  ultimately show ?case by (simp add: sq_inv_def)
next
  case (discard_sub S n)
  then show ?case by (simp add: sq_unfold sq_state_sub_def algebra_simps)
next
  case (read_pop S x rest)
  then show ?case by (simp add: sq_unfold)
next
  case (read_pop_plain S x rest)
  then show ?case
    by (simp add: sq_unfold fifo_exec_append valid_sdu_def slots_ok_def algebra_simps)
next
  case (read_valid S x sn old n q)
  let ?q = "sys_q S"
  have q: "q = ?q\<lparr>sq_slots := (sq_slots ?q)(sq_slot ?q sn := sq_free)\<rparr>" and old: "sq_slots ?q (sq_slot ?q sn) = sn"
    and n: "n = word_of_nat (sq_sizes ?q (sq_slot ?q sn))"
    using read_valid by (simp_all add: sq_release_def Let_def)
  have ok: "slots_ok ?q ([] @ x # sq_queue ?q @ writing S)"
    using read_valid by (simp add: sq_inv_def slots_inv_def held_def)
  note r = release_ok [OF ok read_valid.hyps(2), folded q]
  have "filter (valid_sdu q) (sq_queue ?q) = filter (valid_sdu ?q) (sq_queue ?q)" using r by (intro filter_valid_cong) simp
  moreover have "valid_sdu ?q x" using old read_valid.hyps(2) by (simp add: valid_sdu_def)
  moreover have "n = word_of_nat (length (sdu_buf x))" using ok read_valid.hyps(2) n by (simp add: slots_ok_def)
  moreover have "sq_state q = sq_state ?q" "sq_queue q = sq_queue ?q" by (simp_all add: q)
  ultimately show ?case using read_valid r by (simp add: sq_unfold fifo_exec_append algebra_simps)
next
  case (read_discarded S x sn old n q)
  let ?q = "sys_q S"
  have q: "q = ?q\<lparr>sq_slots := (sq_slots ?q)(sq_slot ?q sn := sq_free)\<rparr>" and old: "sq_slots ?q (sq_slot ?q sn) \<noteq> sn"
    using read_discarded by (simp_all add: sq_release_def Let_def)
  have ok: "slots_ok ?q ([] @ x # sq_queue ?q @ writing S)"
    using read_discarded by (simp add: sq_inv_def slots_inv_def held_def)
  note r = release_ok [OF ok read_discarded.hyps(2), folded q]
  have "filter (valid_sdu q) (sq_queue ?q) = filter (valid_sdu ?q) (sq_queue ?q)" using r by (intro filter_valid_cong) simp
  moreover have "\<not> valid_sdu ?q x" using old read_discarded.hyps(2) by (simp add: valid_sdu_def)
  moreover have "sq_state q = sq_state ?q" "sq_queue q = sq_queue ?q" by (simp_all add: q)
  ultimately show ?case using read_discarded r by (simp add: sq_unfold)
next
  case (read_invalid S x sn old n q)
  have "slots_ok (sys_q S) (x # sq_queue (sys_q S) @ writing S)"
    using read_invalid by (simp add: sq_inv_def slots_inv_def held_def)
  then have "sq_slots (sys_q S) (sq_slot (sys_q S) sn) \<in> {sn, sq_discarded}"
    using read_invalid.hyps(2) by (simp add: slots_ok_def)
  then show ?case using read_invalid by (simp add: sq_release_def Let_def)
next
  case (read_sub S n)
  then show ?case by (simp add: sq_unfold sq_state_sub_def algebra_simps)
qed

lemma sq_reachable_inv: "sq_reachable capacity byte_limit S \<Longrightarrow> 0 < capacity \<Longrightarrow> sq_inv S"
  by (induction rule: sq_reachable.induct) (simp_all add: sq_inv_start sq_inv_step)

text \<open>The packed counters: SDUs in the upper half, bytes in the lower.\<close>

lemma state_change_of_nat: "n < 2 ^ 32 \<Longrightarrow> sq_state_change (word_of_nat n) = word_of_nat (2 ^ 32 + n)"
proof -
  assume n: "n < 2 ^ 32"
  have "ucast (word_of_nat n :: u32) = (word_of_nat n :: u64)"
    using n by (simp add: word_unat_eq_iff unsigned_ucast_eq unsigned_of_nat take_bit_nat_eq_self)
  moreover have "push_bit 32 v AND take_bit 32 w = 0" for v w :: u64
    by (rule bit_word_eqI) (auto simp: bit_simps)
  then have "push_bit 32 1 AND take_bit 32 (word_of_nat n) = (0 :: u64)" .
  moreover have "take_bit 32 (word_of_nat n) = (word_of_nat n :: u64)"
    using n by (simp add: word_unat_eq_iff unsigned_take_bit_eq unsigned_of_nat take_bit_nat_eq_self)
  ultimately have "sq_state_change (word_of_nat n) = push_bit 32 1 + word_of_nat n"
    unfolding sq_state_change_def by (metis disjunctive_add_eq_or)
  then show ?thesis by (simp add: push_bit_eq_mult)
qed

definition sdu_bytes :: "rlc_sdu list \<Rightarrow> nat" where
  "sdu_bytes xs = (\<Sum>x\<leftarrow>xs. length (sdu_buf x))"

lemma sdu_bytes_simps [simp]:
  "sdu_bytes [] = 0"
  "sdu_bytes (x # xs) = length (sdu_buf x) + sdu_bytes xs"
  by (simp_all add: sdu_bytes_def)

lemma total_packed: "sdu_bytes xs < 2 ^ 32 \<Longrightarrow> total xs = word_of_nat (length xs * 2 ^ 32 + sdu_bytes xs)"
  by (induction xs) (simp_all add: state_change_of_nat algebra_simps)

lemma get_state_packed:
  assumes "n < 2 ^ 32" "b < 2 ^ 32" "sq_state q = word_of_nat (n * 2 ^ 32 + b)"
  shows "sq_get_state q = (word_of_nat n, word_of_nat b)"
proof -
  define m where "m = n * 2 ^ 32 + b"
  have "m < 2 ^ 64" "sq_state q = word_of_nat m" using assms by (simp_all add: m_def)
  then have u: "unat (sq_state q) = n * 2 ^ 32 + b"
    by (simp add: unsigned_of_nat take_bit_nat_eq_self) (simp add: m_def)
  have "unat (drop_bit 32 (sq_state q)) = n"
    unfolding unat_drop_bit_eq u using assms(2) by (simp add: drop_bit_eq_div)
  moreover have "sq_state q AND 0xffffffff = take_bit 32 (sq_state q)" using and_low_mask [of "sq_state q" 32] by simp
  then have "unat (sq_state q AND 0xffffffff) = take_bit 32 (unat (sq_state q))" by (simp only: unsigned_take_bit_eq)
  then have "unat (sq_state q AND 0xffffffff) = b" unfolding u using assms(2) by (simp add: take_bit_eq_mod)
  moreover have "(ucast w :: u32) = word_of_nat (unat w)" for w :: u64
    by (simp add: word_unat_eq_iff unsigned_ucast_eq unsigned_of_nat)
  ultimately show ?thesis unfolding sq_get_state_def by metis
qed

section \<open>Correctness\<close>

text \<open>C35. The SDU queue is linearizable: however the accesses of the writing and the reading thread interleave, the
  operations take effect in an order in which they are operations of a FIFO queue whose elements can be withdrawn by
  their PDCP SN; the content of that queue is what the slots mark as valid.\<close>

theorem sdu_queue_linearizable:
  assumes "sq_reachable capacity byte_limit S" "0 < capacity"
  shows "fifo_exec (sys_trace S) [] = Some (live S)"
  using sq_reachable_inv [OF assms] by (simp add: sq_inv_def)

definition demo_plain :: rlc_sdu where
  "demo_plain = \<lparr>sdu_buf = [1, 2], sdu_is_retx = False, sdu_pdcp_sn = None\<rparr>"

lemma demo_written:
  "\<exists>S. sq_reachable 4 100 S \<and> sys_upper S = W_idle \<and> sys_lower S = R_idle \<and> sys_trace S = [Pushed demo_plain] \<and>
    sq_queue (sys_q S) = [demo_plain]"
proof -
  let ?S0 = "sq_start 4 100"
  have "sq_step ?S0 (?S0\<lparr>sys_q := sys_q ?S0, sys_upper := W_reserved demo_plain\<rparr>)"
    by (rule write_reserve) (simp_all add: sq_start_def sq_new_def sn_plain_def demo_plain_def sq_reserve_def sq_get_state_def)
  then obtain S1 where s1: "sq_reachable 4 100 S1" "S1 = ?S0\<lparr>sys_q := sys_q ?S0, sys_upper := W_reserved demo_plain\<rparr>"
    using reach_step [OF reach_start] by blast
  let ?q = "(sys_q S1)\<lparr>sq_queue := [demo_plain]\<rparr>" and ?n = "word_of_nat (length (sdu_buf demo_plain))"
  have "sq_step S1 (S1\<lparr>sys_q := ?q, sys_upper := W_pushed ?n, sys_trace := sys_trace S1 @ [Pushed demo_plain]\<rparr>)"
    by (rule write_push) (simp_all add: s1(2) sq_start_def sq_new_def sq_push_def)
  then obtain S2 where s2: "sq_reachable 4 100 S2"
    "S2 = S1\<lparr>sys_q := ?q, sys_upper := W_pushed ?n, sys_trace := sys_trace S1 @ [Pushed demo_plain]\<rparr>"
    using reach_step [OF s1(1)] by blast
  have "sq_step S2 (S2\<lparr>sys_q := sq_state_add ?n (sys_q S2), sys_upper := W_idle\<rparr>)"
    by (rule write_add) (simp add: s2(2))
  then have "sq_reachable 4 100 (S2\<lparr>sys_q := sq_state_add ?n (sys_q S2), sys_upper := W_idle\<rparr>)"
    by (rule reach_step [OF s2(1)])
  then show ?thesis
    by (intro exI [of _ "S2\<lparr>sys_q := sq_state_add ?n (sys_q S2), sys_upper := W_idle\<rparr>"] conjI)
      (simp_all add: s2(2) s1(2) sq_start_def sq_state_add_def)
qed

theorem sdu_queue_linearizable_witness:
  "\<exists>S. sq_reachable 4 100 S \<and> sys_trace S = [Pushed demo_plain] \<and> live S = [demo_plain]"
proof -
  obtain S where S: "sq_reachable 4 100 S" "sys_trace S = [Pushed demo_plain]" using demo_written by blast
  then show ?thesis using sdu_queue_linearizable [OF S(1)] by auto
qed

text \<open>C36. When neither thread is inside an operation, the packed counters are exactly the number of SDUs that are
  queued and not discarded, and the number of their bytes.\<close>

theorem sdu_queue_accounts:
  assumes "sq_reachable capacity byte_limit S" "0 < capacity" "sys_upper S = W_idle" "sys_lower S = R_idle"
    and "length (live S) < 2 ^ 32" "sdu_bytes (live S) < 2 ^ 32"
  shows "live S = filter (valid_sdu (sys_q S)) (sq_queue (sys_q S)) \<and>
    sq_get_state (sys_q S) = (word_of_nat (length (live S)), word_of_nat (sdu_bytes (live S)))"
proof -
  have "sq_state (sys_q S) = total (live S)"
    using sq_reachable_inv [OF assms(1,2)] assms(3,4) by (simp add: sq_inv_def count_inv_def)
  then have "sq_state (sys_q S) = word_of_nat (length (live S) * 2 ^ 32 + sdu_bytes (live S))"
    by (simp only: total_packed [OF assms(6)])
  from get_state_packed [OF assms(5,6) this] show ?thesis using assms(4) by (simp add: live_def held_def)
qed

theorem sdu_queue_accounts_witness:
  "\<exists>S. sq_reachable 4 100 S \<and> sq_queue (sys_q S) = [demo_plain] \<and> sq_get_state (sys_q S) = (1, 2)"
proof -
  obtain S where S: "sq_reachable 4 100 S" "sys_upper S = W_idle" "sys_lower S = R_idle" "sq_queue (sys_q S) = [demo_plain]"
    using demo_written by blast
  have l: "live S = [demo_plain]" using S by (simp add: live_def held_def valid_sdu_def demo_plain_def)
  have "sdu_bytes (live S) = 2" by (simp add: l demo_plain_def)
  then have "sq_get_state (sys_q S) = (1, 2)" using sdu_queue_accounts [OF S(1) _ S(2,3)] by (simp add: l)
  then show ?thesis using S(1,4) by (intro exI [of _ S]) simp
qed

end
