(* ===== verification/Rlc_Um_Tx.thy ===== *)
theory Rlc_Um_Tx
  imports Rlc_Segments Rlc_Sdu_Queue Pdcp_Base
begin

text \<open>
  The transmitting RLC UM entity (\<open>lib/rlc/rlc_tx_um_entity.cpp\<close>): an SDU is taken from the queue and cut into
  PDUs as large as the grants of MAC allow. The mutex makes \<open>pull_pdu\<close> and \<open>get_buffer_state\<close> atomic.
  The update of the buffer state is a task that the entity defers to the executor of MAC; \<open>ut_updates\<close> counts
  the deferred tasks. The metrics of latencies, which read the clock, are left out.
\<close>

section \<open>State\<close>

record rlc_tx_um_config =
  ut_sn_field_length :: rlc_um_sn_size
  ut_pdcp_sn_len :: pdcp_sn_size
  ut_queue_size :: u32
  ut_queue_size_bytes :: u32

record rlc_tx_metrics_high =
  hi_num_sdus :: u32
  hi_num_sdu_bytes :: u64
  hi_num_dropped_sdus :: u32
  hi_num_discarded_sdus :: u32
  hi_num_discard_failures :: u32

record rlc_tx_metrics_low =
  lo_num_pdus_no_segmentation :: u32
  lo_num_pdu_bytes_no_segmentation :: u64
  lo_num_of_pulled_sdus :: u32
  lo_um_num_pdus_with_segmentation :: u32
  lo_um_num_pdu_bytes_with_segmentation :: u32

datatype um_tx_event = On_transmitted_sdu u32 u32 | On_buffer_state_update u32

record rlc_tx_um =
  ut_cfg :: rlc_tx_um_config
  ut_tx_next :: u32
  ut_queue :: sdu_queue
  ut_sdu :: rlc_sdu
  ut_next_so :: u32
  ut_prev_buffer_state :: u32
  ut_pending_buffer_state :: bool
  ut_updates :: nat
  ut_metrics_enabled :: bool
  ut_metrics_high :: rlc_tx_metrics_high
  ut_metrics_low :: rlc_tx_metrics_low
  ut_out :: "um_tx_event list"

definition ut_mod :: "rlc_tx_um \<Rightarrow> u32" where
  "ut_mod s = rlc_cardinality (rlc_um_sn_size_to_number (ut_sn_field_length (ut_cfg s)))"

definition head_len_full :: nat where
  "head_len_full = rlc_um_pdu_header_size_complete_sdu"

definition head_len_first :: "rlc_tx_um \<Rightarrow> nat" where
  "head_len_first s = rlc_um_pdu_header_size_no_so (ut_sn_field_length (ut_cfg s))"

definition head_len_not_first :: "rlc_tx_um \<Rightarrow> nat" where
  "head_len_not_first s = rlc_um_pdu_header_size_with_so (ut_sn_field_length (ut_cfg s))"

text \<open>\<open>None\<close>: the assertion on the length of the PDCP SN fails.\<close>

definition rlc_tx_um_entity :: "bool \<Rightarrow> rlc_tx_um_config \<Rightarrow> rlc_tx_um option" where
  "rlc_tx_um_entity metrics_enabled cfg =
    (if ut_pdcp_sn_len cfg = size12bits \<or> ut_pdcp_sn_len cfg = size18bits then
       Some \<lparr>ut_cfg = cfg, ut_tx_next = 0,
         ut_queue = sq_new (unat (ucast (ut_queue_size cfg) :: u16)) (ut_queue_size_bytes cfg),
         ut_sdu = rlc_sdu_empty, ut_next_so = 0, ut_prev_buffer_state = 0, ut_pending_buffer_state = False,
         ut_updates = 0, ut_metrics_enabled = metrics_enabled,
         ut_metrics_high = \<lparr>hi_num_sdus = 0, hi_num_sdu_bytes = 0, hi_num_dropped_sdus = 0, hi_num_discarded_sdus = 0,
           hi_num_discard_failures = 0\<rparr>,
         ut_metrics_low = \<lparr>lo_num_pdus_no_segmentation = 0, lo_num_pdu_bytes_no_segmentation = 0,
           lo_num_of_pulled_sdus = 0, lo_um_num_pdus_with_segmentation = 0, lo_um_num_pdu_bytes_with_segmentation = 0\<rparr>,
         ut_out = []\<rparr>
     else None)"

definition ut_emit :: "um_tx_event \<Rightarrow> rlc_tx_um \<Rightarrow> rlc_tx_um" where
  "ut_emit e s = s\<lparr>ut_out := ut_out s @ [e]\<rparr>"

section \<open>Metrics\<close>

definition ut_high :: "(rlc_tx_metrics_high \<Rightarrow> rlc_tx_metrics_high) \<Rightarrow> rlc_tx_um \<Rightarrow> rlc_tx_um" where
  "ut_high f s = (if \<not> ut_metrics_enabled s then s else s\<lparr>ut_metrics_high := f (ut_metrics_high s)\<rparr>)"

definition ut_low :: "(rlc_tx_metrics_low \<Rightarrow> rlc_tx_metrics_low) \<Rightarrow> rlc_tx_um \<Rightarrow> rlc_tx_um" where
  "ut_low f s = (if \<not> ut_metrics_enabled s then s else s\<lparr>ut_metrics_low := f (ut_metrics_low s)\<rparr>)"

definition ut_add_sdus :: "u32 \<Rightarrow> nat \<Rightarrow> rlc_tx_um \<Rightarrow> rlc_tx_um" where
  "ut_add_sdus n bytes = ut_high (\<lambda>m. m\<lparr>hi_num_sdus := hi_num_sdus m + n,
    hi_num_sdu_bytes := hi_num_sdu_bytes m + word_of_nat bytes\<rparr>)"

definition ut_add_lost_sdus :: "u32 \<Rightarrow> rlc_tx_um \<Rightarrow> rlc_tx_um" where
  "ut_add_lost_sdus n = ut_high (\<lambda>m. m\<lparr>hi_num_dropped_sdus := hi_num_dropped_sdus m + n\<rparr>)"

definition ut_add_discard :: "u32 \<Rightarrow> rlc_tx_um \<Rightarrow> rlc_tx_um" where
  "ut_add_discard n = ut_high (\<lambda>m. m\<lparr>hi_num_discarded_sdus := hi_num_discarded_sdus m + n\<rparr>)"

definition ut_add_discard_failure :: "u32 \<Rightarrow> rlc_tx_um \<Rightarrow> rlc_tx_um" where
  "ut_add_discard_failure n = ut_high (\<lambda>m. m\<lparr>hi_num_discard_failures := hi_num_discard_failures m + n\<rparr>)"

definition ut_add_pdus_no_segmentation :: "u32 \<Rightarrow> nat \<Rightarrow> rlc_tx_um \<Rightarrow> rlc_tx_um" where
  "ut_add_pdus_no_segmentation n bytes = ut_low (\<lambda>m. m\<lparr>lo_num_pdus_no_segmentation := lo_num_pdus_no_segmentation m + n,
    lo_num_pdu_bytes_no_segmentation := lo_num_pdu_bytes_no_segmentation m + word_of_nat bytes\<rparr>)"

definition ut_add_pulled_sdus :: "u32 \<Rightarrow> rlc_tx_um \<Rightarrow> rlc_tx_um" where
  "ut_add_pulled_sdus n = ut_low (\<lambda>m. m\<lparr>lo_num_of_pulled_sdus := lo_num_of_pulled_sdus m + n\<rparr>)"

definition ut_add_pdus_with_segmentation_um :: "u32 \<Rightarrow> nat \<Rightarrow> rlc_tx_um \<Rightarrow> rlc_tx_um" where
  "ut_add_pdus_with_segmentation_um n bytes = ut_low (\<lambda>m. m\<lparr>
    lo_um_num_pdus_with_segmentation := lo_um_num_pdus_with_segmentation m + n,
    lo_um_num_pdu_bytes_with_segmentation := lo_um_num_pdu_bytes_with_segmentation m + word_of_nat bytes\<rparr>)"

section \<open>Buffer state\<close>

definition ut_get_buffer_state :: "rlc_tx_um \<Rightarrow> u32" where
  "ut_get_buffer_state s =
    (let (n_sdus, n_bytes) = sq_get_state (ut_queue s);
         queue_bytes = n_bytes + n_sdus * word_of_nat head_len_full;
         segment_bytes = (if sdu_buf (ut_sdu s) \<noteq> []
           then (word_of_nat (length (sdu_buf (ut_sdu s))) - ut_next_so s) + word_of_nat (head_len_not_first s) else 0)
     in queue_bytes + segment_bytes)"

text \<open>\<open>MAX_NRE_PER_RB * MAX_NOF_PRBS * CODEWORD_MAX_NOF_LAYERS * MAX_MODULATION_ORDER\<close> bits, in bytes.\<close>

definition max_dl_pdu_length :: nat where
  "max_dl_pdu_length = (156 * 275 * 4 * 8 + 7) div 8"

definition ut_update_mac_buffer_state :: "rlc_tx_um \<Rightarrow> rlc_tx_um" where
  "ut_update_mac_buffer_state s =
    (let s = s\<lparr>ut_pending_buffer_state := False\<rparr>;
         bs = ut_get_buffer_state s;
         s = (if \<not> (unat bs > max_dl_pdu_length \<and> unat (ut_prev_buffer_state s) > max_dl_pdu_length)
              then ut_emit (On_buffer_state_update bs) s else s)
     in s\<lparr>ut_prev_buffer_state := bs\<rparr>)"

text \<open>The executor runs a deferred update.\<close>

definition ut_run_update :: "rlc_tx_um \<Rightarrow> rlc_tx_um" where
  "ut_run_update s = ut_update_mac_buffer_state (s\<lparr>ut_updates := ut_updates s - 1\<rparr>)"

text \<open>\<open>defer_ok\<close>: the executor accepts the task.\<close>

definition ut_handle_changed_buffer_state :: "bool \<Rightarrow> rlc_tx_um \<Rightarrow> rlc_tx_um" where
  "ut_handle_changed_buffer_state defer_ok s =
    (if \<not> ut_pending_buffer_state s then
       let s = s\<lparr>ut_pending_buffer_state := True\<rparr>
       in if \<not> defer_ok then s else s\<lparr>ut_updates := ut_updates s + 1\<rparr>
     else s)"

section \<open>Upper layer\<close>

definition ut_handle_sdu :: "bool \<Rightarrow> bytes \<Rightarrow> bool \<Rightarrow> rlc_tx_um \<Rightarrow> rlc_tx_um" where
  "ut_handle_sdu defer_ok buf is_retx s =
    (let sdu = \<lparr>sdu_buf = buf, sdu_is_retx = False, sdu_pdcp_sn = get_pdcp_sn buf (ut_pdcp_sn_len (ut_cfg s)) False\<rparr>;
         (written, q) = sq_write sdu (ut_queue s);
         s = s\<lparr>ut_queue := q\<rparr>
     in if written then ut_handle_changed_buffer_state defer_ok (ut_add_sdus 1 (length buf) s)
        else ut_add_lost_sdus 1 s)"

definition ut_discard_sdu :: "bool \<Rightarrow> u32 \<Rightarrow> rlc_tx_um \<Rightarrow> rlc_tx_um" where
  "ut_discard_sdu defer_ok pdcp_sn s =
    (let (discarded, q) = sq_try_discard pdcp_sn (ut_queue s);
         s = s\<lparr>ut_queue := q\<rparr>
     in if discarded then ut_handle_changed_buffer_state defer_ok (ut_add_discard 1 s)
        else ut_add_discard_failure 1 s)"

section \<open>Lower layer\<close>

definition get_si_and_expected_header_size :: "u32 \<Rightarrow> u32 \<Rightarrow> u32 \<Rightarrow> rlc_tx_um \<Rightarrow> (rlc_si_field \<times> nat) option" where
  "get_si_and_expected_header_size so sdu_len grant_len s =
    (let full = word_of_nat head_len_full; first = word_of_nat (head_len_first s);
         not_first = word_of_nat (head_len_not_first s)
     in if so = 0 then
          (if sdu_len \<le> grant_len - full then Some (full_sdu, head_len_full)
           else if grant_len \<le> first then None
           else Some (first_segment, head_len_first s))
        else if grant_len \<le> not_first then None
        else if sdu_len - ut_next_so s \<le> grant_len - not_first then Some (last_segment, head_len_not_first s)
        else Some (middle_segment, head_len_not_first s))"

text \<open>
  A new SDU, if none is being transmitted. The queue reads into the entity's SDU, also when it finds no valid one.
\<close>

definition ut_next_sdu :: "rlc_tx_um \<Rightarrow> bool \<times> rlc_tx_um" where
  "ut_next_sdu s =
    (if sdu_buf (ut_sdu s) \<noteq> [] then (True, s)
     else
       let (found, sdu, q) = sq_read (ut_sdu s) (ut_queue s);
           s = s\<lparr>ut_sdu := sdu, ut_queue := q\<rparr>
       in if \<not> found then (False, s)
          else (True, case sdu_pdcp_sn sdu of
                        None \<Rightarrow> s
                      | Some sn \<Rightarrow> ut_emit (On_transmitted_sdu sn (ut_queue_size_bytes (ut_cfg s))) s))"

text \<open>After a PDU with segmentation info \<open>si\<close> and \<open>payload_len\<close> bytes of the SDU.\<close>

definition ut_advance :: "rlc_si_field \<Rightarrow> u32 \<Rightarrow> rlc_tx_um \<Rightarrow> rlc_tx_um" where
  "ut_advance si payload_len s =
    (let s = (if si = full_sdu \<or> si = last_segment
              then ut_add_pulled_sdus 1 (s\<lparr>ut_sdu := (ut_sdu s)\<lparr>sdu_buf := []\<rparr>, ut_next_so := 0\<rparr>)
              else s\<lparr>ut_next_so := ut_next_so s + payload_len\<rparr>)
     in if si = last_segment then s\<lparr>ut_tx_next := (ut_tx_next s + 1) mod ut_mod s\<rparr> else s)"

text \<open>The PDU, which is written to the start of the buffer of \<open>grant\<close> bytes; \<open>[]\<close> for a result of 0.\<close>

definition ut_pull_pdu :: "nat \<Rightarrow> rlc_tx_um \<Rightarrow> bytes \<times> rlc_tx_um" where
  "ut_pull_pdu grant s =
    (let grant_len = word_of_nat grant :: u32
     in if grant_len \<le> word_of_nat head_len_full then ([], s)
        else case ut_next_sdu s of
          (False, s) \<Rightarrow> ([], s)
        | (True, s) \<Rightarrow>
            (let buf = sdu_buf (ut_sdu s); sdu_len = word_of_nat (length buf)
             in case get_si_and_expected_header_size (ut_next_so s) sdu_len grant_len s of
                  None \<Rightarrow> ([], s)
                | Some (si, _) \<Rightarrow>
                    (let header = rlc_um_write_data_pdu_header \<lparr>um_si = si, um_sn_size = ut_sn_field_length (ut_cfg s),
                           um_sn = ucast (ut_tx_next s), um_so = ucast (ut_next_so s)\<rparr>;
                         space = grant_len - word_of_nat (length header);
                         payload_len = (if space \<ge> sdu_len - ut_next_so s then sdu_len - ut_next_so s else space);
                         payload = take (unat payload_len) (drop (unat (ut_next_so s)) buf);
                         pdu = header @ payload
                     in if payload = [] \<or> length payload \<noteq> unat payload_len then ([], s)
                        else
                          let s = ut_advance si payload_len s
                          in (pdu, if si = full_sdu then ut_add_pdus_no_segmentation 1 (length pdu) s
                                   else ut_add_pdus_with_segmentation_um 1 (length pdu) s))))"

end
