(* ===== verification/Rlc_Um_Tx_Inv.thy ===== *)
theory Rlc_Um_Tx_Inv
  imports Rlc_Um_Tx
begin

text \<open>
  The arithmetic of \<open>pull_pdu\<close> over the natural numbers, and the invariant of the transmitting entity.
\<close>

section \<open>Grants\<close>

text \<open>What a grant of \<open>g\<close> bytes is used for: the segmentation info, the length of the header and of the payload.\<close>

definition um_plan :: "rlc_um_sn_size \<Rightarrow> nat \<Rightarrow> nat \<Rightarrow> nat \<Rightarrow> (rlc_si_field \<times> nat \<times> nat) option" where
  "um_plan sz so len g =
    (if so = 0 then
       (if len + 1 \<le> g then Some (full_sdu, 1, len)
        else if g \<le> rlc_um_pdu_header_size_no_so sz then None
        else Some (first_segment, rlc_um_pdu_header_size_no_so sz, g - rlc_um_pdu_header_size_no_so sz))
     else if g \<le> rlc_um_pdu_header_size_with_so sz then None
     else if len - so + rlc_um_pdu_header_size_with_so sz \<le> g
       then Some (last_segment, rlc_um_pdu_header_size_with_so sz, len - so)
     else Some (middle_segment, rlc_um_pdu_header_size_with_so sz, g - rlc_um_pdu_header_size_with_so sz))"

lemma um_plan_bounds:
  assumes "um_plan sz so len g = Some (si, h, n)" "so < len \<or> len = 0 \<and> so = 0"
  shows "h + n \<le> g" "so + n \<le> len" "0 < len \<Longrightarrow> 0 < n"
    "si = full_sdu \<longleftrightarrow> so = 0 \<and> n = len" "si = last_segment \<longleftrightarrow> so \<noteq> 0 \<and> so + n = len"
    "so \<noteq> 0 \<longleftrightarrow> si = last_segment \<or> si = middle_segment"
  using assms by (cases sz; auto simp: um_plan_def split: if_splits)+

definition ut_header :: "rlc_si_field \<Rightarrow> rlc_tx_um \<Rightarrow> rlc_um_pdu_header" where
  "ut_header si s = \<lparr>um_si = si, um_sn_size = ut_sn_field_length (ut_cfg s), um_sn = ucast (ut_tx_next s),
    um_so = ucast (ut_next_so s)\<rparr>"

text \<open>What \<open>pull_pdu\<close> does once there is an SDU.\<close>

definition ut_cut :: "nat \<Rightarrow> rlc_tx_um \<Rightarrow> bytes \<times> rlc_tx_um" where
  "ut_cut g s =
    (case um_plan (ut_sn_field_length (ut_cfg s)) (unat (ut_next_so s)) (length (sdu_buf (ut_sdu s))) g of
       None \<Rightarrow> ([], s)
     | Some (si, h, n) \<Rightarrow>
         if n = 0 then ([], s)
         else let pdu = rlc_um_write_data_pdu_header (ut_header si s) @
                    take n (drop (unat (ut_next_so s)) (sdu_buf (ut_sdu s)));
                  t = ut_advance si (word_of_nat n) s
              in (pdu, if si = full_sdu then ut_add_pdus_no_segmentation 1 (length pdu) t
                       else ut_add_pdus_with_segmentation_um 1 (length pdu) t))"

definition ut_sizes :: "rlc_tx_um \<Rightarrow> bool" where
  "ut_sizes s \<longleftrightarrow> (sdu_buf (ut_sdu s) = [] \<longrightarrow> ut_next_so s = 0) \<and>
    (sdu_buf (ut_sdu s) \<noteq> [] \<longrightarrow> unat (ut_next_so s) < length (sdu_buf (ut_sdu s))) \<and>
    length (sdu_buf (ut_sdu s)) \<le> 2 ^ 16 \<and> ut_tx_next s < ut_mod s"

lemma header_size_bounds:
  "rlc_um_pdu_header_size_no_so sz \<in> {1, 2}" "rlc_um_pdu_header_size_with_so sz \<in> {3, 4}"
  by (cases sz; simp)+

lemma unat_of_nat32: "n < 2 ^ 32 \<Longrightarrow> unat (word_of_nat n :: u32) = n"
  by (simp add: unsigned_of_nat take_bit_nat_eq_self)

lemma unat_diff32: "m \<le> n \<Longrightarrow> n < 2 ^ 32 \<Longrightarrow> (word_of_nat n - word_of_nat m :: u32) = word_of_nat (n - m)"
  by (simp add: of_nat_diff)

lemma le32: "m < 2 ^ 32 \<Longrightarrow> n < 2 ^ 32 \<Longrightarrow> (word_of_nat m \<le> (word_of_nat n :: u32)) \<longleftrightarrow> m \<le> n"
  by (simp add: word_le_nat_alt unat_of_nat32)

lemma fits32:
  assumes "h \<le> g" "g < 2 ^ 32" "n < 2 ^ 32"
  shows "(word_of_nat n \<le> (word_of_nat g - word_of_nat h :: u32)) \<longleftrightarrow> n + h \<le> g"
proof -
  have "g - h < 2 ^ 32" using assms(2) by simp
  then have "(word_of_nat n \<le> (word_of_nat (g - h) :: u32)) \<longleftrightarrow> n \<le> g - h" by (rule le32 [OF assms(3)])
  then show ?thesis using assms(1) unfolding unat_diff32 [OF assms(1,2)] by linarith
qed

lemma header_sizes32: "rlc_um_pdu_header_size_no_so sz < 2 ^ 32" "rlc_um_pdu_header_size_with_so sz < 2 ^ 32"
  by (cases sz; simp)+

lemma si_plan:
  assumes "ut_sizes s" "1 < g" "g < 2 ^ 32"
  defines "L \<equiv> length (sdu_buf (ut_sdu s))"
  shows "get_si_and_expected_header_size (ut_next_so s) (word_of_nat L) (word_of_nat g) s =
    map_option (\<lambda>(si, h, n). (si, h)) (um_plan (ut_sn_field_length (ut_cfg s)) (unat (ut_next_so s)) L g)"
proof -
  let ?so = "unat (ut_next_so s)" and ?sz = "ut_sn_field_length (ut_cfg s)"
  have so: "ut_next_so s = word_of_nat ?so" by simp
  have z: "ut_next_so s = 0 \<longleftrightarrow> ?so = 0" by (simp add: unat_eq_0)
  have "L \<le> 2 ^ 16" and Lso: "?so \<le> L" using assms(1) by (auto simp: ut_sizes_def L_def)
  then have L: "L < 2 ^ 32" "L - ?so < 2 ^ 32" by simp_all
  have d: "(word_of_nat L - ut_next_so s) = word_of_nat (L - ?so)"
    using unat_diff32 [OF Lso L(1)] by simp
  have c1: "(word_of_nat L \<le> (word_of_nat g - word_of_nat head_len_full :: u32)) \<longleftrightarrow> L + 1 \<le> g"
    using fits32 [of head_len_full g L] assms(2,3) L(1)
    by (simp only: head_len_full_def rlc_um_pdu_header_size_complete_sdu_def less_imp_le)
  have c2: "(word_of_nat g \<le> (word_of_nat (head_len_first s) :: u32)) \<longleftrightarrow> g \<le> rlc_um_pdu_header_size_no_so ?sz"
    unfolding head_len_first_def by (rule le32 [OF assms(3) header_sizes32(1)])
  have c3: "(word_of_nat g \<le> (word_of_nat (head_len_not_first s) :: u32)) \<longleftrightarrow> g \<le> rlc_um_pdu_header_size_with_so ?sz"
    unfolding head_len_not_first_def by (rule le32 [OF assms(3) header_sizes32(2)])
  have c4: "(word_of_nat L - ut_next_so s \<le> (word_of_nat g - word_of_nat (head_len_not_first s) :: u32)) \<longleftrightarrow>
      L - ?so + rlc_um_pdu_header_size_with_so ?sz \<le> g" if "\<not> g \<le> rlc_um_pdu_header_size_with_so ?sz"
    unfolding d head_len_not_first_def by (rule fits32 [OF _ assms(3) L(2)]) (use that in simp)
  have h1: "head_len_full = 1" by (simp add: head_len_full_def rlc_um_pdu_header_size_complete_sdu_def)
  show ?thesis
  proof (cases "?so = 0")
    case True
    have e: "get_si_and_expected_header_size (ut_next_so s) (word_of_nat L) (word_of_nat g) s =
        (if L + 1 \<le> g then Some (full_sdu, head_len_full)
         else if g \<le> rlc_um_pdu_header_size_no_so ?sz then None else Some (first_segment, head_len_first s))"
      using True unfolding get_si_and_expected_header_size_def Let_def c1 c2 z by simp
    show ?thesis unfolding e using True by (simp only: um_plan_def h1 head_len_first_def) simp
  next
    case False
    have e: "get_si_and_expected_header_size (ut_next_so s) (word_of_nat L) (word_of_nat g) s =
        (if g \<le> rlc_um_pdu_header_size_with_so ?sz then None
         else if L - ?so + rlc_um_pdu_header_size_with_so ?sz \<le> g then Some (last_segment, head_len_not_first s)
         else Some (middle_segment, head_len_not_first s))"
      using False c4 unfolding get_si_and_expected_header_size_def Let_def c3 z by simp
    show ?thesis unfolding e using False Lso by (simp only: um_plan_def head_len_not_first_def) simp
  qed
qed

lemma header_ok:
  assumes "ut_sizes s" "um_plan (ut_sn_field_length (ut_cfg s)) (unat (ut_next_so s)) (length (sdu_buf (ut_sdu s))) g = Some (si, h, n)"
  shows "um_header_ok (ut_header si s)" "length (rlc_um_write_data_pdu_header (ut_header si s)) = h"
    "unat (um_so (ut_header si s)) = unat (ut_next_so s)" "ucast (um_sn (ut_header si s)) = ut_tx_next s"
proof -
  let ?so = "unat (ut_next_so s)" and ?sz = "ut_sn_field_length (ut_cfg s)" and ?L = "length (sdu_buf (ut_sdu s))"
  have so: "?so < 2 ^ 16" "?so < ?L \<or> ?L = 0 \<and> ?so = 0" using assms(1) by (auto simp: ut_sizes_def)
  note b = um_plan_bounds [OF assms(2) so(2)]
  show u: "unat (um_so (ut_header si s)) = ?so"
    using so(1) by (simp add: ut_header_def unsigned_ucast_eq take_bit_nat_eq_self)
  then have nz: "um_so (ut_header si s) \<noteq> 0 \<longleftrightarrow> ?so \<noteq> 0" by (metis unat_eq_0)
  have tn: "unat (ut_tx_next s) < 2 ^ um_sn_bits ?sz"
    using assms(1) by (cases ?sz) (simp_all add: ut_sizes_def ut_mod_def rlc_cardinality_def word_less_nat_alt um_sn_bits_def)
  then have "unat (ut_tx_next s) < 2 ^ 16" by (cases ?sz) (simp_all add: um_sn_bits_def)
  then have sn: "unat (um_sn (ut_header si s)) = unat (ut_tx_next s)"
    by (simp add: ut_header_def unsigned_ucast_eq take_bit_nat_eq_self)
  show "ucast (um_sn (ut_header si s)) = ut_tx_next s" using sn by (simp add: word_unat_eq_iff)
  show ok: "um_header_ok (ut_header si s)"
    using tn sn nz b(6) by (cases ?sz) (simp_all add: um_header_ok_def um_sn_bits_def word_less_nat_alt ut_header_def)
  show "length (rlc_um_write_data_pdu_header (ut_header si s)) = h"
    unfolding um_header_read_back(2) [OF ok] using nz assms(2)
    by (cases ?sz) (auto simp: rlc_um_nr_packed_length_def ut_header_def um_plan_def split: if_splits)
qed

lemma pull_cut:
  assumes "ut_next_sdu s = (True, u)" "ut_sizes u" "1 < g" "g < 2 ^ 32"
  shows "ut_pull_pdu g s = ut_cut g u"
proof -
  let ?so = "unat (ut_next_so u)" and ?sz = "ut_sn_field_length (ut_cfg u)" and ?L = "length (sdu_buf (ut_sdu u))"
  have h1: "head_len_full = 1" by (simp add: head_len_full_def rlc_um_pdu_header_size_complete_sdu_def)
  have g1: "\<not> (word_of_nat g \<le> (word_of_nat head_len_full :: u32))"
    unfolding h1 using assms(3) le32 [OF assms(4), of 1] by simp
  show ?thesis
  proof (cases "um_plan ?sz ?so ?L g")
    case None
    then show ?thesis using si_plan [OF assms(2-4)] g1 assms(1)
      by (simp add: ut_pull_pdu_def ut_cut_def Let_def)
  next
    case (Some p)
    obtain si h n where p: "p = (si, h, n)" by (cases p)
    note pl = Some [unfolded p]
    have si: "get_si_and_expected_header_size (ut_next_so u) (word_of_nat ?L) (word_of_nat g) u = Some (si, h)"
      using si_plan [OF assms(2-4)] pl by simp
    have bL: "?so < ?L \<or> ?L = 0 \<and> ?so = 0" "?L \<le> 2 ^ 16" using assms(2) by (auto simp: ut_sizes_def)
    note b = um_plan_bounds [OF pl bL(1)]
    note hd = header_ok [OF assms(2) pl]
    let ?hdr = "rlc_um_write_data_pdu_header (ut_header si u)"
    have L32: "?L < 2 ^ 32" "?so \<le> ?L" using bL by auto
    have rest: "word_of_nat ?L - ut_next_so u = word_of_nat (?L - ?so)" using unat_diff32 [OF L32(2,1)] by simp
    have space: "word_of_nat g - word_of_nat (length ?hdr) = (word_of_nat (g - h) :: u32)"
      unfolding hd(2) by (rule unat_diff32) (use b(1) assms(4) in auto)
    have le: "(word_of_nat (?L - ?so) \<le> (word_of_nat (g - h) :: u32)) \<longleftrightarrow> ?L - ?so \<le> g - h"
      by (rule le32) (use L32 assms(4) in auto)
    have n: "n = (if ?L - ?so \<le> g - h then ?L - ?so else g - h)"
      using pl b(1,2) unfolding um_plan_def by (auto split: if_splits)
    have pay: "(if (word_of_nat (?L - ?so) \<le> (word_of_nat (g - h) :: u32)) then word_of_nat (?L - ?so) else word_of_nat (g - h))
        = (word_of_nat n :: u32)" unfolding le n by simp
    have n32: "unat (word_of_nat n :: u32) = n" by (rule unat_of_nat32) (use b(2) L32 in simp)
    have len: "length (take n (drop ?so (sdu_buf (ut_sdu u)))) = n" using b(2) by simp
    have fold: "\<lparr>um_si = si, um_sn_size = ?sz, um_sn = ucast (ut_tx_next u), um_so = ucast (ut_next_so u)\<rparr> = ut_header si u"
      by (simp add: ut_header_def)
    have emp: "take n (drop ?so (sdu_buf (ut_sdu u))) = [] \<longleftrightarrow> n = 0" using len by (metis length_0_conv)
    have "ut_pull_pdu g s =
      (if take n (drop ?so (sdu_buf (ut_sdu u))) = [] \<or> length (take n (drop ?so (sdu_buf (ut_sdu u)))) \<noteq> n then ([], u)
       else let t = ut_advance si (word_of_nat n) u; pdu = ?hdr @ take n (drop ?so (sdu_buf (ut_sdu u)))
         in (pdu, if si = full_sdu then ut_add_pdus_no_segmentation 1 (length pdu) t
                  else ut_add_pdus_with_segmentation_um 1 (length pdu) t))"
      unfolding ut_pull_pdu_def Let_def assms(1) if_not_P [OF g1] prod.case bool.case si option.case fold space rest pay n32
      by (rule refl)
    then show ?thesis unfolding len emp ut_cut_def pl option.case prod.case Let_def by simp
  qed
qed

section \<open>Invariant\<close>

text \<open>
  What can happen to an entity. The SDUs of the upper layer have at most \<open>2 ^ 16\<close> bytes, so that the segment offset
  fits its field.
\<close>

inductive um_tx_reach :: "bool \<Rightarrow> rlc_tx_um_config \<Rightarrow> rlc_tx_um \<Rightarrow> bool" for m cfg where
  tx_initial: "rlc_tx_um_entity m cfg = Some s \<Longrightarrow> um_tx_reach m cfg s"
| tx_sdu: "um_tx_reach m cfg s \<Longrightarrow> length buf \<le> 2 ^ 16 \<Longrightarrow> um_tx_reach m cfg (ut_handle_sdu d buf retx s)"
| tx_discard: "um_tx_reach m cfg s \<Longrightarrow> um_tx_reach m cfg (ut_discard_sdu d sn s)"
| tx_pull: "um_tx_reach m cfg s \<Longrightarrow> g < 2 ^ 32 \<Longrightarrow> um_tx_reach m cfg (snd (ut_pull_pdu g s))"
| tx_update: "um_tx_reach m cfg s \<Longrightarrow> 0 < ut_updates s \<Longrightarrow> um_tx_reach m cfg (ut_run_update s)"

definition sq_small :: "sdu_queue \<Rightarrow> bool" where
  "sq_small q \<longleftrightarrow> (\<forall>x \<in> set (sq_queue q). length (sdu_buf x) \<le> 2 ^ 16)"

definition ut_inv :: "rlc_tx_um \<Rightarrow> bool" where
  "ut_inv s \<longleftrightarrow> ut_sizes s \<and> sq_small (ut_queue s)"

lemma ut_frame [simp]:
  "ut_sdu (ut_high f s) = ut_sdu s" "ut_sdu (ut_low g s) = ut_sdu s"
  "ut_next_so (ut_high f s) = ut_next_so s" "ut_next_so (ut_low g s) = ut_next_so s"
  "ut_tx_next (ut_high f s) = ut_tx_next s" "ut_tx_next (ut_low g s) = ut_tx_next s"
  "ut_cfg (ut_high f s) = ut_cfg s" "ut_cfg (ut_low g s) = ut_cfg s"
  "ut_queue (ut_high f s) = ut_queue s" "ut_queue (ut_low g s) = ut_queue s"
  "ut_out (ut_high f s) = ut_out s" "ut_out (ut_low g s) = ut_out s"
  by (simp_all add: ut_high_def ut_low_def)

lemma ut_frame_buffer_state [simp]:
  "ut_sdu (ut_handle_changed_buffer_state d s) = ut_sdu s"
  "ut_next_so (ut_handle_changed_buffer_state d s) = ut_next_so s"
  "ut_tx_next (ut_handle_changed_buffer_state d s) = ut_tx_next s"
  "ut_cfg (ut_handle_changed_buffer_state d s) = ut_cfg s"
  "ut_queue (ut_handle_changed_buffer_state d s) = ut_queue s"
  "ut_sdu (ut_run_update s) = ut_sdu s" "ut_next_so (ut_run_update s) = ut_next_so s"
  "ut_tx_next (ut_run_update s) = ut_tx_next s" "ut_cfg (ut_run_update s) = ut_cfg s"
  "ut_queue (ut_run_update s) = ut_queue s"
  by (simp_all add: ut_handle_changed_buffer_state_def ut_run_update_def ut_update_mac_buffer_state_def ut_emit_def Let_def)

lemmas ut_metric_defs = ut_add_sdus_def ut_add_lost_sdus_def ut_add_discard_def ut_add_discard_failure_def
  ut_add_pdus_no_segmentation_def ut_add_pulled_sdus_def ut_add_pdus_with_segmentation_um_def

lemma ut_inv_cong:
  "ut_sdu t = ut_sdu s \<Longrightarrow> ut_next_so t = ut_next_so s \<Longrightarrow> ut_tx_next t = ut_tx_next s \<Longrightarrow> ut_cfg t = ut_cfg s \<Longrightarrow>
    sq_small (ut_queue t) \<Longrightarrow> ut_inv s \<Longrightarrow> ut_inv t"
  by (simp add: ut_inv_def ut_sizes_def ut_mod_def)

lemma queue_contents:
  "sq_write x q = (b, q1) \<Longrightarrow> sq_queue q1 = (if b then sq_queue q @ [x] else sq_queue q)"
  "sq_try_discard sn q = (c, q2) \<Longrightarrow> sq_queue q2 = sq_queue q"
  "sq_queue (snd (sq_check_and_release sn q)) = sq_queue q"
  by (auto simp: sq_write_def sq_reserve_def sq_push_def sq_state_add_def sq_state_sub_def sq_try_discard_def
      sq_mark_discarded_def sq_check_and_release_def sq_release_def Let_def split: option.splits prod.splits if_splits)

lemma read_contents:
  assumes "sq_read x q = (found, y, q')"
  shows "set (sq_queue q') \<subseteq> set (sq_queue q)" "y = x \<or> y \<in> set (sq_queue q)"
    "found \<Longrightarrow> y \<in> set (sq_queue q)"
proof -
  have "set (sq_queue q') \<subseteq> set (sq_queue q) \<and> (y = x \<or> y \<in> set (sq_queue q)) \<and> (found \<longrightarrow> y \<in> set (sq_queue q))"
    using assms
  proof (induction x q rule: sq_read.induct)
    case (1 x q)
    show ?case
    proof (cases "sq_queue q")
      case (Cons z rest)
      let ?q = "q\<lparr>sq_queue := rest\<rparr>"
      show ?thesis
      proof (cases "sdu_pdcp_sn z")
        case None
        then show ?thesis using "1.prems" Cons by (subst (asm) sq_read.simps) (auto simp: sq_state_sub_def)
      next
        case (Some sn)
        show ?thesis
        proof (cases "fst (sq_check_and_release sn ?q)")
          case True
          then show ?thesis using "1.prems" Cons Some queue_contents(3) [of sn ?q]
            by (subst (asm) sq_read.simps) auto
        next
          case False
          then have "sq_read z (snd (sq_check_and_release sn ?q)) = (found, y, q')"
            using "1.prems" Cons Some by (subst (asm) sq_read.simps) simp
          then show ?thesis using "1.IH" [OF Cons refl Some False] Cons queue_contents(3) [of sn ?q] by auto
        qed
      qed
    qed (use "1.prems" in \<open>subst (asm) sq_read.simps, simp\<close>)
  qed
  then show "set (sq_queue q') \<subseteq> set (sq_queue q)" "y = x \<or> y \<in> set (sq_queue q)"
    "found \<Longrightarrow> y \<in> set (sq_queue q)" by blast+
qed

lemma next_sdu_inv:
  assumes "ut_inv s" "ut_next_sdu s = (found, u)"
  shows "ut_inv u" "ut_cfg u = ut_cfg s" "ut_tx_next u = ut_tx_next s" "ut_next_so u = ut_next_so s"
proof -
  have "ut_inv u \<and> ut_cfg u = ut_cfg s \<and> ut_tx_next u = ut_tx_next s \<and> ut_next_so u = ut_next_so s"
  proof (cases "sdu_buf (ut_sdu s) = []")
    case True
    obtain b x q where r: "sq_read (ut_sdu s) (ut_queue s) = (b, x, q)" by (cases "sq_read (ut_sdu s) (ut_queue s)")
    have q: "set (sq_queue q) \<subseteq> set (sq_queue (ut_queue s))" "x = ut_sdu s \<or> x \<in> set (sq_queue (ut_queue s))"
      using read_contents [OF r] by blast+
    then have "length (sdu_buf x) \<le> 2 ^ 16" "sq_small q" using assms(1) True by (auto simp: ut_inv_def sq_small_def)
    then have "ut_inv (s\<lparr>ut_sdu := x, ut_queue := q\<rparr>)"
      using assms(1) True by (simp add: ut_inv_def ut_sizes_def ut_mod_def)
    moreover have "ut_sdu u = x \<and> ut_queue u = q \<and> ut_cfg u = ut_cfg s \<and> ut_tx_next u = ut_tx_next s \<and> ut_next_so u = ut_next_so s"
      using assms(2) True r by (auto simp: ut_next_sdu_def ut_emit_def Let_def split: option.splits if_splits)
    ultimately show ?thesis by (simp add: ut_inv_def ut_sizes_def ut_mod_def)
  qed (use assms in \<open>auto simp: ut_next_sdu_def\<close>)
  then show "ut_inv u" "ut_cfg u = ut_cfg s" "ut_tx_next u = ut_tx_next s" "ut_next_so u = ut_next_so s" by blast+
qed

text \<open>What one pull leaves.\<close>

lemma cut_effect:
  assumes "ut_inv s" "1 < g"
    and "um_plan (ut_sn_field_length (ut_cfg s)) (unat (ut_next_so s)) (length (sdu_buf (ut_sdu s))) g = Some (si, h, n)" "0 < n"
  defines "t \<equiv> snd (ut_cut g s)"
  shows "fst (ut_cut g s) = rlc_um_write_data_pdu_header (ut_header si s) @ take n (drop (unat (ut_next_so s)) (sdu_buf (ut_sdu s)))"
    "ut_queue t = ut_queue s" "ut_cfg t = ut_cfg s" "ut_out t = ut_out s"
    "if unat (ut_next_so s) + n = length (sdu_buf (ut_sdu s)) then sdu_buf (ut_sdu t) = [] \<and> ut_next_so t = 0
     else sdu_buf (ut_sdu t) = sdu_buf (ut_sdu s) \<and> unat (ut_next_so t) = unat (ut_next_so s) + n"
    "ut_tx_next t = (if si = last_segment then (ut_tx_next s + 1) mod ut_mod s else ut_tx_next s)"
proof -
  let ?so = "unat (ut_next_so s)" and ?L = "length (sdu_buf (ut_sdu s))"
  have b: "?so < ?L \<or> ?L = 0 \<and> ?so = 0" "?L \<le> 2 ^ 16" using assms(1) by (auto simp: ut_inv_def ut_sizes_def)
  note p = um_plan_bounds [OF assms(3) b(1)]
  have m: "ut_mod (s\<lparr>ut_sdu := x, ut_next_so := y\<rparr>) = ut_mod s" "ut_mod (s\<lparr>ut_next_so := y\<rparr>) = ut_mod s" for x y
    by (simp_all add: ut_mod_def)
  have ml: "ut_mod (ut_low f u) = ut_mod u" for f u by (simp add: ut_mod_def)
  have adv: "unat (ut_next_so s + word_of_nat n) = ?so + n"
  proof -
    have "ut_next_so s + word_of_nat n = word_of_nat (?so + n)" by simp
    moreover have "unat (word_of_nat (?so + n) :: u32) = ?so + n" using p(2) b(2) by (intro unat_of_nat32) simp
    ultimately show ?thesis by (simp only:)
  qed
  show "fst (ut_cut g s) = rlc_um_write_data_pdu_header (ut_header si s) @ take n (drop ?so (sdu_buf (ut_sdu s)))"
    "ut_queue t = ut_queue s" "ut_cfg t = ut_cfg s" "ut_out t = ut_out s"
    using assms(3,4) by (simp_all add: t_def ut_cut_def ut_advance_def ut_metric_defs Let_def)
  show "ut_tx_next t = (if si = last_segment then (ut_tx_next s + 1) mod ut_mod s else ut_tx_next s)"
    using assms(3,4) by (simp add: t_def ut_cut_def ut_advance_def ut_metric_defs Let_def m ml)
  have fin: "si = full_sdu \<or> si = last_segment \<longleftrightarrow> ?so + n = ?L" using p(2,4,5) assms(4) by auto
  show "if ?so + n = ?L then sdu_buf (ut_sdu t) = [] \<and> ut_next_so t = 0
     else sdu_buf (ut_sdu t) = sdu_buf (ut_sdu s) \<and> unat (ut_next_so t) = ?so + n"
    using assms(3,4) fin adv
    by (auto simp: t_def ut_cut_def ut_advance_def ut_metric_defs Let_def)
qed

lemma pull_zero:
  assumes "g \<le> 1"
  shows "ut_pull_pdu g s = ([], s)"
proof -
  have "word_of_nat g \<le> (word_of_nat head_len_full :: u32)"
    using le32 [of g head_len_full] assms by (simp add: head_len_full_def rlc_um_pdu_header_size_complete_sdu_def)
  then show ?thesis by (simp add: ut_pull_pdu_def Let_def)
qed

lemma pull_none: "1 < g \<Longrightarrow> g < 2 ^ 32 \<Longrightarrow> ut_next_sdu s = (False, u) \<Longrightarrow> ut_pull_pdu g s = ([], u)"
  using le32 [of g 1] by (simp add: ut_pull_pdu_def Let_def head_len_full_def rlc_um_pdu_header_size_complete_sdu_def)

lemma cut_inv:
  assumes "ut_inv s" "1 < g"
  shows "ut_inv (snd (ut_cut g s))"
proof (cases "um_plan (ut_sn_field_length (ut_cfg s)) (unat (ut_next_so s)) (length (sdu_buf (ut_sdu s))) g")
  case None
  then show ?thesis using assms(1) by (simp add: ut_cut_def)
next
  case (Some p)
  obtain si h n where p: "p = (si, h, n)" by (cases p)
  show ?thesis
  proof (cases "n = 0")
    case True
    then show ?thesis using assms(1) Some p by (simp add: ut_cut_def)
  next
    case False
    let ?t = "snd (ut_cut g s)"
    note e = cut_effect [OF assms Some [unfolded p]]
    have n: "0 < n" using False by simp
    have b: "unat (ut_next_so s) < length (sdu_buf (ut_sdu s)) \<or> length (sdu_buf (ut_sdu s)) = 0 \<and> unat (ut_next_so s) = 0"
      using assms(1) by (auto simp: ut_inv_def ut_sizes_def)
    have le: "unat (ut_next_so s) + n \<le> length (sdu_buf (ut_sdu s))" using um_plan_bounds(2) [OF Some [unfolded p] b] .
    have m: "ut_mod ?t = ut_mod s" using e(3) n by (simp add: ut_mod_def)
    have "0 < ut_mod s" using assms(1) by (auto simp: ut_inv_def ut_sizes_def word_gt_0 dest: order_le_less_trans [OF word_zero_le])
    then have "(ut_tx_next s + 1) mod ut_mod s < ut_mod s" by (simp add: word_mod_less_divisor)
    then have "ut_tx_next ?t < ut_mod ?t" using e(6) n assms(1) m by (simp add: ut_inv_def ut_sizes_def)
    moreover have "sq_small (ut_queue ?t)" using e(2) n assms(1) by (simp add: ut_inv_def)
    ultimately show ?thesis
      using e(5) n le assms(1) by (auto simp: ut_inv_def ut_sizes_def split: if_splits)
  qed
qed

lemma pull_inv:
  assumes "ut_inv s" "g < 2 ^ 32"
  shows "ut_inv (snd (ut_pull_pdu g s))"
proof (cases "1 < g")
  case False
  then show ?thesis using pull_zero [of g s] assms(1) by simp
next
  case True
  obtain found u where u: "ut_next_sdu s = (found, u)" by (cases "ut_next_sdu s")
  note n = next_sdu_inv [OF assms(1) u]
  show ?thesis
  proof (cases found)
    case True
    then have "ut_pull_pdu g s = ut_cut g u" using pull_cut u n(1) \<open>1 < g\<close> assms(2) by (simp add: ut_inv_def)
    then show ?thesis using cut_inv [OF n(1) \<open>1 < g\<close>] by simp
  qed (use pull_none [OF \<open>1 < g\<close> assms(2)] u n(1) in simp)
qed

lemma cut_cfg: "ut_cfg (snd (ut_cut g s)) = ut_cfg s"
  by (simp add: ut_cut_def ut_advance_def ut_metric_defs Let_def split: option.split prod.split)

lemma pull_cfg:
  assumes "ut_inv s" "g < 2 ^ 32"
  shows "ut_cfg (snd (ut_pull_pdu g s)) = ut_cfg s"
proof (cases "1 < g")
  case True
  obtain found u where u: "ut_next_sdu s = (found, u)" by (cases "ut_next_sdu s")
  note n = next_sdu_inv [OF assms(1) u]
  show ?thesis
    using pull_cut [of s u g] pull_none [OF True assms(2)] u n True assms(2) cut_cfg [of g u]
    by (cases found) (simp_all add: ut_inv_def)
qed (use pull_zero in simp)

lemma tx_reach_inv: "um_tx_reach m cfg s \<Longrightarrow> ut_inv s \<and> ut_cfg s = cfg"
proof (induction rule: um_tx_reach.induct)
  case (tx_initial s)
  then show ?case
    by (cases "ut_sn_field_length cfg")
      (auto simp: rlc_tx_um_entity_def ut_inv_def ut_sizes_def ut_mod_def rlc_cardinality_def sq_small_def sq_new_def
        rlc_sdu_empty_def split: if_splits)
next
  case (tx_sdu s buf d retx)
  let ?x = "\<lparr>sdu_buf = buf, sdu_is_retx = False, sdu_pdcp_sn = get_pdcp_sn buf (ut_pdcp_sn_len (ut_cfg s)) False\<rparr>"
  obtain b q where w: "sq_write ?x (ut_queue s) = (b, q)" by (cases "sq_write ?x (ut_queue s)")
  have "sq_small q" using queue_contents(1) [OF w] tx_sdu by (auto simp: sq_small_def ut_inv_def)
  then show ?case using tx_sdu w
    by (auto intro!: ut_inv_cong [of _ s] simp: ut_handle_sdu_def Let_def ut_metric_defs)
next
  case (tx_discard s d sn)
  obtain b q where w: "sq_try_discard sn (ut_queue s) = (b, q)" by (cases "sq_try_discard sn (ut_queue s)")
  have "sq_small q" using queue_contents(2) [OF w] tx_discard by (auto simp: sq_small_def ut_inv_def)
  then show ?case using tx_discard w
    by (auto intro!: ut_inv_cong [of _ s] simp: ut_discard_sdu_def Let_def ut_metric_defs)
next
  case (tx_pull s g)
  then show ?case using pull_inv pull_cfg by metis
next
  case (tx_update s)
  then show ?case by (auto simp: ut_inv_def ut_sizes_def ut_mod_def)
qed

end
