(* ===== verification/Rlc_Um_Tx_Props.thy ===== *)
theory Rlc_Um_Tx_Props
  imports Rlc_Um_Tx_Inv
begin

text \<open>
  The properties of the transmitting UM entity: its invariant, what the PDU of a grant carries, progress, the buffer
  state it reports, and the discarded SDU that it still transmits.
\<close>

section \<open>A bearer for the witnesses\<close>

text \<open>One SDU of four bytes waits in the queue; then a grant of three bytes has taken its first two bytes.\<close>

definition um_tx_demo_cfg :: rlc_tx_um_config where
  "um_tx_demo_cfg = \<lparr>ut_sn_field_length = um_size6bits, ut_pdcp_sn_len = size12bits, ut_queue_size = 4, ut_queue_size_bytes = 100\<rparr>"

definition um_tx_demo_new :: rlc_tx_um where
  "um_tx_demo_new = the (rlc_tx_um_entity False um_tx_demo_cfg)"

definition um_tx_demo :: rlc_tx_um where
  "um_tx_demo = ut_handle_sdu True [0x80, 1, 2, 3] False um_tx_demo_new"

definition um_tx_demo_cut :: rlc_tx_um where
  "um_tx_demo_cut = snd (ut_pull_pdu 3 um_tx_demo)"

lemma um_tx_demo_reach:
  "um_tx_reach False um_tx_demo_cfg um_tx_demo" "um_tx_reach False um_tx_demo_cfg um_tx_demo_cut"
proof -
  have "rlc_tx_um_entity False um_tx_demo_cfg = Some um_tx_demo_new"
    by (simp add: um_tx_demo_new_def rlc_tx_um_entity_def um_tx_demo_cfg_def)
  then show "um_tx_reach False um_tx_demo_cfg um_tx_demo" unfolding um_tx_demo_def by (intro tx_sdu tx_initial) simp_all
  then show "um_tx_reach False um_tx_demo_cfg um_tx_demo_cut" unfolding um_tx_demo_cut_def by (rule tx_pull) simp
qed

lemma um_tx_demo_facts:
  "fst (ut_next_sdu um_tx_demo)" "sdu_buf (ut_sdu (snd (ut_next_sdu um_tx_demo))) = [0x80, 1, 2, 3]" "ut_next_so um_tx_demo = 0"
  "ut_tx_next um_tx_demo = 0" "fst (ut_pull_pdu 3 um_tx_demo) \<noteq> []"
  "sdu_buf (ut_sdu um_tx_demo_cut) = [0x80, 1, 2, 3]" "sq_get_state (ut_queue um_tx_demo_cut) = (0, 0)"
  "unat (ut_get_buffer_state um_tx_demo_cut) = 5"
  by code_simp+

text \<open>In every state that a transmitting UM entity reaches, an SDU is being transmitted from an offset inside
  it (an offset of 0 when there is none), TX_Next has the configured width, and a pull of any grant keeps that.\<close>

theorem um_tx_invariant:
  assumes "um_tx_reach m cfg s" "g < 2 ^ 32"
  defines "t \<equiv> snd (ut_pull_pdu g s)"
  shows "(sdu_buf (ut_sdu t) = [] \<longrightarrow> ut_next_so t = 0) \<and>
    (sdu_buf (ut_sdu t) \<noteq> [] \<longrightarrow> unat (ut_next_so t) < length (sdu_buf (ut_sdu t))) \<and>
    ut_tx_next t < ut_mod t \<and> ut_cfg t = cfg"
  using tx_reach_inv [OF assms(1)] pull_inv [OF _ assms(2), of s] pull_cfg [OF _ assms(2), of s]
  by (simp add: t_def ut_inv_def ut_sizes_def)

theorem um_tx_invariant_witness:
  "unat (ut_next_so um_tx_demo_cut) < length (sdu_buf (ut_sdu um_tx_demo_cut))"
  using um_tx_invariant [OF um_tx_demo_reach(1), of 3] um_tx_demo_facts(6) by (simp add: um_tx_demo_cut_def [symmetric])

text \<open>C37. The PDU for a grant: it fits the grant, its header reads back with the sequence number, the offset and the
  segmentation info of what follows, the payload is the next stretch of the SDU, and the entity continues after it.
  With a grant of more than the longest header there is a PDU whenever there are bytes of an SDU to send.\<close>

theorem um_pull_pdu_content:
  assumes "um_tx_reach m cfg s" "1 < g" "g < 2 ^ 32" "ut_next_sdu s = (True, u)"
  defines "sdu \<equiv> sdu_buf (ut_sdu u)" and "so \<equiv> unat (ut_next_so u)"
    and "pdu \<equiv> fst (ut_pull_pdu g s)" and "t \<equiv> snd (ut_pull_pdu g s)"
  shows "(pdu = [] \<and> (sdu = [] \<or> g \<le> 4) \<and> t = u) \<or>
    (\<exists>h. rlc_um_read_data_pdu_header pdu (ut_sn_field_length cfg) = Some h \<and>
      (let payload = drop (rlc_um_nr_packed_length h) pdu; end = so + length payload in
        length pdu \<le> g \<and> 0 < length payload \<and> end \<le> length sdu \<and> payload = take (length payload) (drop so sdu) \<and>
        (um_si h = full_sdu \<longleftrightarrow> so = 0 \<and> end = length sdu) \<and> (um_si h = first_segment \<longleftrightarrow> so = 0 \<and> end < length sdu) \<and>
        (um_si h = last_segment \<longleftrightarrow> 0 < so \<and> end = length sdu) \<and>
        (um_si h \<noteq> full_sdu \<longrightarrow> ucast (um_sn h) = ut_tx_next s \<and> unat (um_so h) = so) \<and>
        (if end = length sdu then sdu_buf (ut_sdu t) = [] \<and> ut_next_so t = 0
         else sdu_buf (ut_sdu t) = sdu \<and> unat (ut_next_so t) = end) \<and>
        ut_tx_next t = (if um_si h = last_segment then (ut_tx_next s + 1) mod ut_mod s else ut_tx_next s)))"
proof -
  have inv: "ut_inv s" and cfg: "ut_cfg s = cfg" using tx_reach_inv [OF assms(1)] by simp_all
  note u = next_sdu_inv [OF inv assms(4)]
  have e: "ut_pull_pdu g s = ut_cut g u" using pull_cut [OF assms(4) _ assms(2,3)] u(1) by (simp add: ut_inv_def)
  have b: "so < length sdu \<or> length sdu = 0 \<and> so = 0" using u(1) by (auto simp: sdu_def so_def ut_inv_def ut_sizes_def)
  have m: "ut_mod u = ut_mod s" using u(2) by (simp add: ut_mod_def)
  show ?thesis
  proof (cases "um_plan (ut_sn_field_length (ut_cfg u)) so (length sdu) g")
    case None
    then have "g \<le> 4" using header_size_bounds [of "ut_sn_field_length (ut_cfg u)"] by (auto simp: um_plan_def split: if_splits)
    then show ?thesis using None by (simp add: pdu_def t_def e ut_cut_def so_def sdu_def)
  next
    case (Some p)
    obtain si hl n where p: "p = (si, hl, n)" by (cases p)
    note pl = Some [unfolded p]
    note pb = um_plan_bounds [OF pl b]
    show ?thesis
    proof (cases "sdu = []")
      case True
      then have "n = 0" using pb(2) by simp
      then show ?thesis using pl True by (simp add: pdu_def t_def e ut_cut_def so_def sdu_def)
    next
      case False
      then have n: "0 < n" using pb(3) by simp
      note c = cut_effect [OF u(1) assms(2) pl [unfolded so_def sdu_def] n, folded so_def sdu_def]
      have sz: "ut_sizes u" using u(1) by (simp add: ut_inv_def)
      note h = header_ok [OF sz pl [unfolded so_def sdu_def]]
      let ?h = "if um_si (ut_header si u) = full_sdu then (ut_header si u)\<lparr>um_sn := 0\<rparr> else ut_header si u"
      have hs: "um_si (ut_header si u) = si" "um_sn_size (ut_header si u) = ut_sn_field_length cfg"
        using u(2) cfg by (simp_all add: ut_header_def)
      have pdu: "pdu = rlc_um_write_data_pdu_header (ut_header si u) @ take n (drop so sdu)" using c(1) by (simp add: pdu_def e)
      have rd: "rlc_um_read_data_pdu_header pdu (ut_sn_field_length cfg) = Some ?h"
        unfolding pdu using um_header_read_back(1) [OF h(1)] hs by simp
      have len: "rlc_um_nr_packed_length ?h = hl"
        using um_header_read_back(2) [OF h(1)] h(2) by (simp add: rlc_um_nr_packed_length_def)
      have pay: "drop (rlc_um_nr_packed_length ?h) pdu = take n (drop so sdu)" unfolding len pdu using h(2) by simp
      have ln: "length (take n (drop so sdu)) = n" using pb(2) by simp
      have "length pdu = hl + n" using h(2) ln by (simp add: pdu)
      then have core: "length pdu \<le> g" "um_si ?h = si" "si \<noteq> full_sdu \<Longrightarrow> ucast (um_sn ?h) = ut_tx_next s \<and> unat (um_so ?h) = so"
        using pb(1) h(3,4) u(3) hs by (auto simp: so_def)
      have kinds: "si = first_segment \<longleftrightarrow> so = 0 \<and> so + n < length sdu"
        using pb n by (cases si) auto
      show ?thesis
        using c(5,6) pb(2,4,5) n core kinds rd
        by (intro disjI2 exI [of _ ?h]) (auto simp: pay ln Let_def t_def e u(3) m split: if_splits)
    qed
  qed
qed

theorem um_pull_pdu_content_witness:
  "\<exists>h. rlc_um_read_data_pdu_header (fst (ut_pull_pdu 3 um_tx_demo)) um_size6bits = Some h"
proof -
  have "ut_next_sdu um_tx_demo = (True, snd (ut_next_sdu um_tx_demo))" using um_tx_demo_facts(1) by (metis prod.collapse)
  from um_pull_pdu_content [OF um_tx_demo_reach(1) _ _ this, of 3] um_tx_demo_facts(5) show ?thesis
    by (auto simp: um_tx_demo_cfg_def)
qed

text \<open>The buffer state reported to MAC is enough: with nothing in the queue, a grant of at least the reported
  size completes the SDU that is being transmitted.\<close>

theorem um_buffer_state_suffices:
  assumes "um_tx_reach m cfg s" "sdu_buf (ut_sdu s) \<noteq> []" "sq_get_state (ut_queue s) = (0, 0)"
    and "unat (ut_get_buffer_state s) \<le> g" "g < 2 ^ 32"
  shows "fst (ut_pull_pdu g s) \<noteq> [] \<and> sdu_buf (ut_sdu (snd (ut_pull_pdu g s))) = []"
proof -
  let ?so = "unat (ut_next_so s)" and ?L = "length (sdu_buf (ut_sdu s))" and ?sz = "ut_sn_field_length (ut_cfg s)"
  have inv: "ut_inv s" using tx_reach_inv [OF assms(1)] by simp
  then have sz: "ut_sizes s" and b: "?so < ?L" "?L \<le> 2 ^ 16" using assms(2) by (auto simp: ut_inv_def ut_sizes_def)
  have L32: "?L < 2 ^ 32" "?so \<le> ?L" using b by simp_all
  have "word_of_nat ?L - ut_next_so s = word_of_nat (?L - ?so)" using unat_diff32 [OF L32(2,1)] by simp
  then have "ut_get_buffer_state s = word_of_nat (?L - ?so + rlc_um_pdu_header_size_with_so ?sz)"
    using assms(2,3) by (simp add: ut_get_buffer_state_def head_len_not_first_def Let_def)
  moreover have "unat (word_of_nat (?L - ?so + rlc_um_pdu_header_size_with_so ?sz) :: u32) = ?L - ?so + rlc_um_pdu_header_size_with_so ?sz"
    using L32 b header_size_bounds(2) [of ?sz] by (intro unat_of_nat32) auto
  ultimately have g: "?L - ?so + rlc_um_pdu_header_size_with_so ?sz \<le> g" using assms(4) by simp
  have h: "1 \<le> rlc_um_pdu_header_size_no_so ?sz" "3 \<le> rlc_um_pdu_header_size_with_so ?sz" by (cases ?sz; simp)+
  have "um_plan ?sz ?so ?L g = (if ?so = 0 then Some (full_sdu, 1, ?L)
      else Some (last_segment, rlc_um_pdu_header_size_with_so ?sz, ?L - ?so))"
  proof (cases "?so = 0")
    case True
    then have "?L + 1 \<le> g" using g h by simp
    then show ?thesis using True by (simp add: um_plan_def)
  next
    case False
    have "\<not> g \<le> rlc_um_pdu_header_size_with_so ?sz" using g b(1) by linarith
    then show ?thesis using False g by (simp only: um_plan_def if_False if_True)
  qed
  then obtain si hl n where pl: "um_plan ?sz ?so ?L g = Some (si, hl, n)" and n: "?so + n = ?L"
    using b(1) by (cases "?so = 0") auto
  have g1: "1 < g" using g h by simp
  have "ut_next_sdu s = (True, s)" using assms(2) by (simp add: ut_next_sdu_def)
  then have e: "ut_pull_pdu g s = ut_cut g s" by (rule pull_cut [OF _ sz g1 assms(5)])
  have n0: "0 < n" using n b(1) by simp
  note c = cut_effect [OF inv g1 pl n0]
  have "fst (ut_cut g s) \<noteq> []" using c(1) n0 b n by simp
  then show ?thesis using c(5) n by (simp add: e)
qed

theorem um_buffer_state_suffices_witness:
  "sdu_buf (ut_sdu (snd (ut_pull_pdu 5 um_tx_demo_cut))) = []"
  using um_buffer_state_suffices [OF um_tx_demo_reach(2) _ um_tx_demo_facts(7), of 5] um_tx_demo_facts(6,8) by simp

text \<open>An SDU that was discarded while it was alone in the queue.\<close>

lemma read_alone_discarded:
  assumes "sq_queue q = [x]" "sdu_pdcp_sn x = Some sn" "sq_slots q (sq_slot q sn) = sq_discarded" "sn \<noteq> sq_discarded"
  shows "\<exists>q'. sq_read y q = (False, x, q')"
proof -
  let ?q = "q\<lparr>sq_queue := []\<rparr>"
  have c: "\<not> fst (sq_check_and_release sn ?q)" and e: "sq_queue (snd (sq_check_and_release sn ?q)) = []"
    using assms(3,4) by (simp_all add: sq_check_and_release_def sq_release_def sq_slot_def Let_def)
  have "sq_read y q = sq_read x (snd (sq_check_and_release sn ?q))"
    using assms(1,2) c by (subst sq_read.simps) simp
  also have "\<dots> = (False, x, snd (sq_check_and_release sn ?q))" using e by (subst sq_read.simps) simp
  finally show ?thesis by blast
qed

text \<open>A discarded SDU is transmitted all the same: when it is the last one in the queue, the pull that drops it
  leaves it in the entity, and the next grant sends it in full, without the upper layer being told.\<close>

theorem um_sends_discarded_sdu:
  assumes "rlc_tx_um_entity m cfg = Some s0" "get_pdcp_sn buf (ut_pdcp_sn_len cfg) False = Some sn"
    and "buf \<noteq> []" "length buf < g" "g < 2 ^ 16" "length buf < unat (ut_queue_size_bytes cfg)"
    and "0 < unat (ucast (ut_queue_size cfg) :: u16)" "sn \<noteq> sq_discarded"
  defines "s1 \<equiv> ut_handle_sdu True buf False s0"
  defines "s2 \<equiv> ut_discard_sdu True sn s1"
  defines "s3 \<equiv> snd (ut_pull_pdu g s2)"
  shows "fst (sq_try_discard sn (ut_queue s1)) \<and> fst (ut_pull_pdu g s2) = [] \<and>
    drop 1 (fst (ut_pull_pdu g s3)) = buf \<and> ut_out (snd (ut_pull_pdu g s3)) = []"
proof -
  let ?x = "\<lparr>sdu_buf = buf, sdu_is_retx = False, sdu_pdcp_sn = Some sn\<rparr>"
  let ?c = "unat (ucast (ut_queue_size cfg) :: u16)"
  have s0: "ut_cfg s0 = cfg" "ut_queue s0 = sq_new ?c (ut_queue_size_bytes cfg)" "ut_sdu s0 = rlc_sdu_empty" "ut_next_so s0 = 0"
    "ut_out s0 = []" "ut_tx_next s0 = 0"
    using assms(1) by (auto simp: rlc_tx_um_entity_def split: if_splits)
  obtain q1 where w: "sq_write ?x (ut_queue s0) = (True, q1)" "sq_queue q1 = [?x]" "sq_slots q1 (sq_slot q1 sn) = sn"
    using assms(6,7) by (auto simp: s0(2) sq_write_def sq_reserve_def sq_push_def sq_new_def sq_get_state_def sq_state_add_def
        sq_slot_def Let_def)
  have s1: "ut_queue s1 = q1" "ut_cfg s1 = cfg" "ut_sdu s1 = rlc_sdu_empty" "ut_next_so s1 = 0" "ut_out s1 = []" "ut_tx_next s1 = 0"
    using w(1) s0 assms(2)
    by (simp_all add: s1_def ut_handle_sdu_def ut_metric_defs Let_def ut_handle_changed_buffer_state_def)
  obtain q2 where d: "sq_try_discard sn q1 = (True, q2)" "sq_queue q2 = [?x]" "sq_slots q2 (sq_slot q2 sn) = sq_discarded"
    using w(2,3) by (auto simp: sq_try_discard_def sq_mark_discarded_def sq_state_sub_def sq_slot_def Let_def)
  have s2: "ut_queue s2 = q2" "ut_cfg s2 = cfg" "ut_sdu s2 = rlc_sdu_empty" "ut_next_so s2 = 0" "ut_out s2 = []" "ut_tx_next s2 = 0"
    using d(1) s1 by (simp_all add: s2_def ut_discard_sdu_def ut_metric_defs Let_def ut_handle_changed_buffer_state_def)
  obtain q3 where r: "sq_read rlc_sdu_empty q2 = (False, ?x, q3)"
    using read_alone_discarded [OF d(2) _ d(3) assms(8)] by auto
  have "1 \<le> length buf" using assms(3) by (cases buf) auto
  then have g: "1 < g" "g < 2 ^ 32" using assms(4,5) by auto
  define u where "u = s2\<lparr>ut_sdu := ?x, ut_queue := q3\<rparr>"
  have "ut_next_sdu s2 = (False, u)" using r by (simp add: ut_next_sdu_def s2(1,3) u_def rlc_sdu_empty_def)
  then have p2: "ut_pull_pdu g s2 = ([], u)" by (rule pull_none [OF g])
  have "ut_next_sdu u = (True, u)" using assms(3) by (simp add: ut_next_sdu_def u_def)
  moreover have "ut_sizes u" using assms(3-5) s2
    by (cases "ut_sn_field_length cfg") (simp_all add: ut_sizes_def u_def ut_mod_def rlc_cardinality_def)
  ultimately have "ut_pull_pdu g u = ut_cut g u" by (rule pull_cut [OF _ _ g])
  moreover have "length (rlc_um_write_data_pdu_header (ut_header full_sdu u)) = 1"
    by (simp add: rlc_um_write_data_pdu_header_def ut_header_def Let_def)
  ultimately have "drop 1 (fst (ut_pull_pdu g u)) = buf" "ut_out (snd (ut_pull_pdu g u)) = []"
    using assms(3,4) s2 by (simp_all add: ut_cut_def u_def um_plan_def ut_metric_defs ut_advance_def Let_def)
  then show ?thesis using d(1) p2 by (simp add: s1(1) s3_def)
qed

theorem um_sends_discarded_sdu_witness:
  "drop 1 (fst (ut_pull_pdu 9 (snd (ut_pull_pdu 9 (ut_discard_sdu True 1
    (ut_handle_sdu True [0x80, 1, 2, 3] False um_tx_demo_new)))))) = [0x80, 1, 2, 3]"
proof -
  have e: "rlc_tx_um_entity False um_tx_demo_cfg = Some um_tx_demo_new"
    by (simp add: um_tx_demo_new_def rlc_tx_um_entity_def um_tx_demo_cfg_def)
  have sn: "get_pdcp_sn [0x80, 1, 2, 3] (ut_pdcp_sn_len um_tx_demo_cfg) False = Some 1" by code_simp
  show ?thesis
    using um_sends_discarded_sdu [OF e sn, of 9] by (simp add: um_tx_demo_cfg_def sq_discarded_def)
qed

end
