(* ===== verification/Rlc_Um_E2e.thy ===== *)
theory Rlc_Um_E2e
  imports Rlc_Um_Rx_Props Rlc_Um_Tx_Props "HOL-Library.Multiset"
begin

text \<open>
  The two UM entities together: the PDUs into which the transmitter cuts an SDU, for any grants, are those that the
  receiver reassembles, in any order.
\<close>

fun ut_pulls :: "nat list \<Rightarrow> rlc_tx_um \<Rightarrow> bytes list \<times> rlc_tx_um" where
  "ut_pulls [] s = ([], s)"
| "ut_pulls (g # gs) s = (let (pdu, s) = ut_pull_pdu g s; (pdus, s) = ut_pulls gs s in (pdu # pdus, s))"

text \<open>The PDUs of the rest of an SDU from the offset \<open>so\<close>: one with the whole SDU, or its segments.\<close>

definition um_pieces :: "rlc_um_sn_size \<Rightarrow> u16 \<Rightarrow> bytes \<Rightarrow> nat \<Rightarrow> (rlc_um_pdu_header \<times> bytes) list \<Rightarrow> bool" where
  "um_pieces sz x sdu so ps \<longleftrightarrow>
    so = 0 \<and> (\<exists>h. ps = [(h, sdu)] \<and> um_si h = full_sdu \<and> um_header_ok h \<and> um_sn_size h = sz) \<or>
    ps \<noteq> [] \<and> (\<forall>p \<in> set ps. um_pdu_carries sz x sdu p) \<and> seg_cover (map um_segment_of ps) = {so ..< length sdu} \<and>
    sum_list (map (length \<circ> snd) ps) = length sdu - so"

lemma cut_piece:
  assumes "ut_inv s" "4 < g" "sdu_buf (ut_sdu s) \<noteq> []"
  defines "sdu \<equiv> sdu_buf (ut_sdu s)" and "so \<equiv> unat (ut_next_so s)" and "sz \<equiv> ut_sn_field_length (ut_cfg s)"
  shows "\<exists>si n. 0 < n \<and> so + n \<le> length sdu \<and> (si = full_sdu \<longleftrightarrow> so = 0 \<and> n = length sdu) \<and>
    fst (ut_cut g s) = um_pdu_of (ut_header si s, take n (drop so sdu)) \<and> um_header_ok (ut_header si s) \<and>
    (si \<noteq> full_sdu \<longrightarrow> um_pdu_carries sz (ucast (ut_tx_next s)) sdu (ut_header si s, take n (drop so sdu)) \<and>
      seg_range (um_segment_of (ut_header si s, take n (drop so sdu))) = {so ..< so + n}) \<and>
    (if so + n = length sdu then sdu_buf (ut_sdu (snd (ut_cut g s))) = []
     else sdu_buf (ut_sdu (snd (ut_cut g s))) = sdu \<and> unat (ut_next_so (snd (ut_cut g s))) = so + n \<and>
       ut_tx_next (snd (ut_cut g s)) = ut_tx_next s)"
proof -
  have sz: "ut_sizes s" and b: "so < length sdu" using assms(1,3) by (auto simp: ut_inv_def ut_sizes_def so_def sdu_def)
  have "um_plan sz so (length sdu) g \<noteq> None"
    using header_size_bounds [of sz] assms(2) by (auto simp: um_plan_def)
  then obtain si h n where pl: "um_plan sz so (length sdu) g = Some (si, h, n)" by auto
  note p = um_plan_bounds [OF pl disjI1 [OF b]]
  have n: "0 < n" using p(3) b by (cases sdu) auto
  have g1: "1 < g" using assms(2) by simp
  note pl' = pl [unfolded so_def sdu_def sz_def]
  note c = cut_effect [OF assms(1) g1 pl' n, folded so_def sdu_def]
  note h = header_ok [OF sz pl']
  have len: "length (take n (drop so sdu)) = n" using p(2) by simp
  have e: "seg_end (um_segment_of (ut_header si s, take n (drop so sdu))) = so + n"
    using h(3) len by (simp add: seg_end_def um_segment_of_def so_def)
  have so: "unat (seg_so (um_segment_of (ut_header si s, take n (drop so sdu)))) = so"
    using h(3) by (simp add: um_segment_of_def so_def)
  have "seg_of sdu (um_segment_of (ut_header si s, take n (drop so sdu)))" if "si \<noteq> full_sdu"
    unfolding seg_of_def e so using p(2,5) n that p(6) len p(4)
    by (cases si) (auto simp: um_segment_of_def ut_header_def)
  then show ?thesis
    using n p(2,4,5) c(1,5,6) h(1) e so
    by (intro exI [of _ si] exI [of _ n])
      (auto simp: um_pdu_of_def um_pdu_carries_def sz_def seg_range_def ut_header_def split: if_splits)
qed

lemma transmit:
  assumes "ut_inv s" "sdu_buf (ut_sdu s) \<noteq> []" "\<forall>g \<in> set gs. 4 < g \<and> g < 2 ^ 32"
    and "length (sdu_buf (ut_sdu s)) - unat (ut_next_so s) \<le> length gs"
  shows "\<exists>ps t. length ps \<le> length gs \<and> ut_pulls (take (length ps) gs) s = (map um_pdu_of ps, t) \<and>
    sdu_buf (ut_sdu t) = [] \<and>
    um_pieces (ut_sn_field_length (ut_cfg s)) (ucast (ut_tx_next s)) (sdu_buf (ut_sdu s)) (unat (ut_next_so s)) ps"
  using assms
proof (induction gs arbitrary: s)
  case Nil
  then show ?case by (auto simp: ut_inv_def ut_sizes_def)
next
  case (Cons g gs)
  let ?sdu = "sdu_buf (ut_sdu s)" and ?so = "unat (ut_next_so s)" and ?sz = "ut_sn_field_length (ut_cfg s)"
  let ?t = "snd (ut_cut g s)"
  have g: "4 < g" "1 < g" "g < 2 ^ 32" using Cons.prems(3) by auto
  obtain si n where c: "0 < n" "?so + n \<le> length ?sdu" "si = full_sdu \<longleftrightarrow> ?so = 0 \<and> n = length ?sdu"
    "fst (ut_cut g s) = um_pdu_of (ut_header si s, take n (drop ?so ?sdu))" "um_header_ok (ut_header si s)"
    "si \<noteq> full_sdu \<longrightarrow> um_pdu_carries ?sz (ucast (ut_tx_next s)) ?sdu (ut_header si s, take n (drop ?so ?sdu)) \<and>
      seg_range (um_segment_of (ut_header si s, take n (drop ?so ?sdu))) = {?so ..< ?so + n}"
    "if ?so + n = length ?sdu then sdu_buf (ut_sdu ?t) = []
     else sdu_buf (ut_sdu ?t) = ?sdu \<and> unat (ut_next_so ?t) = ?so + n \<and> ut_tx_next ?t = ut_tx_next s"
    using cut_piece [OF Cons.prems(1) g(1) Cons.prems(2)] by blast
  let ?p = "(ut_header si s, take n (drop ?so ?sdu))"
  have "ut_next_sdu s = (True, s)" using Cons.prems(2) by (simp add: ut_next_sdu_def)
  then have "ut_pull_pdu g s = ut_cut g s" using pull_cut [OF _ _ g(2,3)] Cons.prems(1) by (simp add: ut_inv_def)
  then have pull: "ut_pull_pdu g s = (um_pdu_of ?p, ?t)" using c(4) by (metis prod.collapse)
  show ?case
  proof (cases "?so + n = length ?sdu")
    case True
    have "um_pieces ?sz (ucast (ut_tx_next s)) ?sdu ?so [?p]"
    proof (cases "si = full_sdu")
      case f: True
      then show ?thesis using c(3,5) by (auto simp: um_pieces_def ut_header_def)
    next
      case False
      then show ?thesis using c(6) True by (auto simp: um_pieces_def)
    qed
    then show ?thesis using True c(7) pull by (intro exI [of _ "[?p]"] exI [of _ ?t]) simp
  next
    case False
    then have t: "sdu_buf (ut_sdu ?t) = ?sdu" "unat (ut_next_so ?t) = ?so + n" "ut_tx_next ?t = ut_tx_next s"
      "ut_cfg ?t = ut_cfg s" using c(7) cut_cfg by simp_all
    have it: "ut_inv ?t" by (rule cut_inv [OF Cons.prems(1) g(2)])
    have "length (sdu_buf (ut_sdu ?t)) - unat (ut_next_so ?t) \<le> length gs" using Cons.prems(4) c(1) unfolding t by simp
    then obtain ps t' where ps: "length ps \<le> length gs" "ut_pulls (take (length ps) gs) ?t = (map um_pdu_of ps, t')"
      "sdu_buf (ut_sdu t') = []" "um_pieces ?sz (ucast (ut_tx_next s)) ?sdu (?so + n) ps"
      using Cons.IH [OF it] Cons.prems(2,3) unfolding t by auto
    have nf: "si \<noteq> full_sdu" using False c(3) by auto
    have rest: "ps \<noteq> []" "\<forall>p \<in> set ps. um_pdu_carries ?sz (ucast (ut_tx_next s)) ?sdu p"
      "seg_cover (map um_segment_of ps) = {?so + n ..< length ?sdu}" "sum_list (map (length \<circ> snd) ps) = length ?sdu - (?so + n)"
      using ps(4) c(1) by (auto simp: um_pieces_def)
    have "seg_cover (map um_segment_of (?p # ps)) = {?so ..< length ?sdu}"
      using rest(3) c(2,6) nf by (auto simp: ivl_disj_un)
    moreover have "sum_list (map (length \<circ> snd) (?p # ps)) = length ?sdu - ?so" using rest(4) c(2) by simp
    ultimately have "um_pieces ?sz (ucast (ut_tx_next s)) ?sdu ?so (?p # ps)"
      using rest(2) c(6) nf by (simp add: um_pieces_def)
    then show ?thesis using ps pull by (intro exI [of _ "?p # ps"] exI [of _ t']) simp
  qed
qed

lemma cover_length: "card (seg_cover (map um_segment_of ps)) \<le> sum_list (map (length \<circ> snd) ps)"
proof (induction ps)
  case (Cons p ps)
  have "card (seg_range (um_segment_of p) \<union> seg_cover (map um_segment_of ps)) \<le>
      card (seg_range (um_segment_of p)) + card (seg_cover (map um_segment_of ps))" by (rule card_Un_le)
  moreover have "card (seg_range (um_segment_of p)) = length (snd p)"
    by (simp add: seg_range_def seg_end_def um_segment_of_def)
  ultimately show ?case using Cons.IH by simp
qed simp

text \<open>The segments of a partition in any order: only the last one completes the SDU.\<close>

lemma receive_pieces:
  assumes "ur_inv r" "ur_waits r" "ur_open r (ucast x)" "ur_segments r (ucast x) = []"
    and "um_pieces (rx_sn_field_length (ur_cfg r)) x sdu 0 ps" "sdu \<noteq> []" "length sdu \<le> 2 ^ 16" "mset qs = mset ps"
  shows "ur_out (fold (\<lambda>p. ur_handle_pdu (\<lambda>_. True) (um_pdu_of p)) qs r) = ur_out r @ [sdu]"
proof (cases "\<exists>h. ps = [(h, sdu)] \<and> um_si h = full_sdu \<and> um_header_ok h \<and> um_sn_size h = rx_sn_field_length (ur_cfg r)")
  case True
  then obtain h where h: "ps = [(h, sdu)]" "um_si h = full_sdu" "um_header_ok h" "um_sn_size h = rx_sn_field_length (ur_cfg r)" by blast
  have qs: "qs = [(h, sdu)]" using assms(8) unfolding h(1) by (cases qs) (auto dest: mset_eq_setD)
  have rd: "rlc_um_read_data_pdu_header (um_pdu_of (h, sdu)) (rx_sn_field_length (ur_cfg r)) = Some (h\<lparr>um_sn := 0\<rparr>)"
    using um_header_read_back(1) [OF h(3), of sdu] h(2,4) by (simp add: um_pdu_of_def)
  have len: "length (rlc_um_write_data_pdu_header h) = 1" "rlc_um_nr_packed_length (h\<lparr>um_sn := 0\<rparr>) = 1"
    using um_header_read_back(2) [OF h(3)] h(2) by (simp_all add: rlc_um_nr_packed_length_def)
  show ?thesis using rd len assms(6) h(2)
    by (simp add: qs handle_pdu_cases Let_def ur_add_pdus_def ur_deliver_def ur_add_sdus_def) (simp add: um_pdu_of_def)
next
  case False
  then have ps: "ps \<noteq> []" "\<forall>p \<in> set ps. um_pdu_carries (rx_sn_field_length (ur_cfg r)) x sdu p"
    "seg_cover (map um_segment_of ps) = {0 ..< length sdu}" "sum_list (map (length \<circ> snd) ps) = length sdu"
    using assms(5) by (auto simp: um_pieces_def)
  have "qs \<noteq> []" using ps(1) assms(8) by auto
  then obtain us q where qs: "qs = us @ [q]" by (cases qs rule: rev_cases) auto
  have set: "set qs = set ps" using assms(8) by (metis set_mset_mset)
  then have carry: "\<forall>p \<in> set (us @ [q]). um_pdu_carries (rx_sn_field_length (ur_cfg r)) x sdu p" using ps(2) qs by simp
  have cov: "seg_cover (map um_segment_of (us @ [q])) = {0 ..< length sdu}"
    using ps(3) set unfolding seg_cover_def qs set_map by simp
  have "sum_list (map (length \<circ> snd) qs) = length sdu"
    using ps(4) assms(8) by (metis mset_map sum_mset_sum_list)
  moreover have "0 < length (snd q)" using carry by (simp add: um_pdu_carries_def seg_of_def um_segment_of_def)
  moreover have "sum_list (map (length \<circ> snd) qs) = sum_list (map (length \<circ> snd) us) + length (snd q)" by (simp add: qs)
  ultimately have "sum_list (map (length \<circ> snd) us) < length sdu" by linarith
  then have "card (seg_cover (map um_segment_of us)) < length sdu" using cover_length [of us] by linarith
  then have "seg_cover (map um_segment_of us) \<noteq> {0 ..< length sdu}" by auto
  then show ?thesis using receive_all [OF assms(1-4) carry assms(6,7) _ cov] by (simp add: qs)
qed

lemma permuted_map:
  "mset ys = mset (map f xs) \<Longrightarrow> \<exists>zs. mset zs = mset xs \<and> ys = map f zs"
proof (induction ys arbitrary: xs)
  case (Cons y ys)
  have "y \<in> set (map f xs)" using Cons.prems by (metis list.set_intros(1) mset_eq_setD)
  then obtain x as bs where x: "xs = as @ x # bs" "f x = y" by (auto dest: split_list)
  then have "mset ys = mset (map f (as @ bs))" using Cons.prems by simp
  then obtain zs where "mset zs = mset (as @ bs)" "ys = map f zs" using Cons.IH by blast
  then show ?case using x by (intro exI [of _ "x # zs"]) simp
qed simp

lemma pulls_next:
  assumes "ut_inv s" "ut_next_sdu s = (True, u)" "sdu_buf (ut_sdu u) \<noteq> []" "\<forall>g \<in> set gs. 4 < g \<and> g < 2 ^ 32" "gs \<noteq> []"
  shows "ut_pulls gs s = ut_pulls gs u"
proof -
  obtain g gs' where gs: "gs = g # gs'" using assms(5) by (cases gs) auto
  have g: "1 < g" "g < 2 ^ 32" using assms(4) by (auto simp: gs)
  have sz: "ut_sizes u" using next_sdu_inv(1) [OF assms(1,2)] by (simp add: ut_inv_def)
  have "ut_next_sdu u = (True, u)" using assms(3) by (simp add: ut_next_sdu_def)
  then show ?thesis using pull_cut [OF assms(2) sz g] pull_cut [OF _ sz g] by (simp add: gs)
qed

text \<open>C31. From one entity to the other: with as many grants as the SDU has bytes, each of more than the longest
  header, the transmitter sends the whole SDU; and whatever the order in which its PDUs arrive at a receiver with
  the same width of sequence numbers that is open for the SN, it delivers exactly that SDU.\<close>

theorem um_tx_rx_roundtrip:
  fixes rm :: bool and rcfg :: rlc_rx_um_config and es :: "um_rx_event list"
  assumes "um_tx_reach m cfg s" "ut_next_sdu s = (True, u)" "ut_next_so s = 0" "sdu_buf (ut_sdu u) = sdu" "sdu \<noteq> []"
    and "\<forall>g \<in> set gs. 4 < g \<and> g < 2 ^ 32" "length sdu \<le> length gs"
    and "rx_sn_field_length rcfg = ut_sn_field_length cfg"
  defines "r \<equiv> um_rx_run rm rcfg es"
  assumes "\<not> sn_invalid_for_rx_buffer r (ut_tx_next s)" "\<not> has_sn (ur_window r) (ut_tx_next s)"
  shows "\<exists>n \<le> length gs. sdu_buf (ut_sdu (snd (ut_pulls (take n gs) s))) = [] \<and>
    (\<forall>pdus. mset pdus = mset (fst (ut_pulls (take n gs) s)) \<longrightarrow>
      ur_out (fold (ur_handle_pdu (\<lambda>_. True)) pdus r) = ur_out r @ [sdu])"
proof -
  have inv: "ut_inv s" and cfg: "ut_cfg s = cfg" using tx_reach_inv [OF assms(1)] by simp_all
  note u = next_sdu_inv [OF inv assms(2)]
  have r: "ur_inv r" "ur_waits r" "ur_cfg r = rcfg" using run_keeps_inv by (simp_all add: r_def)
  let ?x = "ucast (ut_tx_next s) :: u16"
  have len: "length sdu \<le> 2 ^ 16" using u(1) assms(4) by (auto simp: ut_inv_def ut_sizes_def)
  have gs: "length (sdu_buf (ut_sdu u)) - unat (ut_next_so u) \<le> length gs" using assms(4,7) by simp
  obtain ps t where ps: "length ps \<le> length gs" "ut_pulls (take (length ps) gs) u = (map um_pdu_of ps, t)"
    "sdu_buf (ut_sdu t) = []" "um_pieces (ut_sn_field_length cfg) ?x sdu 0 ps"
    using transmit [OF u(1) _ assms(6) gs] assms(3,4,5) u(2-4) cfg by auto
  have "ps \<noteq> []" using ps(4) by (auto simp: um_pieces_def)
  then have ne: "take (length ps) gs \<noteq> []" using ps(1) by (cases gs) auto
  have "\<forall>g \<in> set (take (length ps) gs). 4 < g \<and> g < 2 ^ 32" using assms(6) by (meson in_set_takeD)
  then have pulls: "ut_pulls (take (length ps) gs) s = (map um_pdu_of ps, t)"
    using pulls_next [OF inv assms(2) _ _ ne] assms(4,5) ps(2) by simp
  have tn: "ut_tx_next s < ut_mod s" using inv by (simp add: ut_inv_def ut_sizes_def)
  have "uint (ut_mod s) = 2 * um_w r"
    using assms(8) cfg r(3) by (cases "ut_sn_field_length cfg") (simp_all add: ut_mod_def rlc_cardinality_def um_sizes(1))
  then have ok: "sn_ok r (ut_tx_next s)" using tn by (simp add: sn_ok_def word_less_def)
  have "um_w r \<le> 2048" by (cases "rx_sn_field_length (ur_cfg r)") (simp_all only: um_sizes(1), simp_all)
  then have "uint (ut_tx_next s) < 2 ^ 16" using ok unfolding sn_ok_def by simp
  then have "int (unat (ut_tx_next s)) < int (2 ^ 16)" by simp
  then have "unat (ut_tx_next s) < 2 ^ 16" by (simp only: of_nat_less_iff)
  then have "unat ?x = unat (ut_tx_next s)" by (simp add: unsigned_ucast_eq take_bit_nat_eq_self)
  then have "unat (ucast ?x :: u32) = unat (ut_tx_next s)" by (simp only: unat_ucast_u16)
  then have x: "ucast ?x = ut_tx_next s" by (simp only: word_unat_eq_iff)
  have o: "ur_open r (ucast ?x)" "ur_segments r (ucast ?x) = []"
    using invalid_open [OF assms(10) ok] assms(11) by (simp_all add: x ur_segments_def has_sn_at)
  have sz: "um_pieces (rx_sn_field_length (ur_cfg r)) ?x sdu 0 ps" using ps(4) assms(8) r(3) by simp
  have "ur_out (fold (ur_handle_pdu (\<lambda>_. True)) pdus r) = ur_out r @ [sdu]" if m: "mset pdus = mset (map um_pdu_of ps)" for pdus
  proof -
    obtain qs where qs: "mset qs = mset ps" "pdus = map um_pdu_of qs" using permuted_map [OF m] by blast
    show ?thesis using receive_pieces [OF r(1,2) o sz assms(5) len qs(1)] by (simp add: qs(2) fold_map comp_def)
  qed
  then show ?thesis using ps(1,3) by (intro exI [of _ "length ps"]) (simp add: pulls)
qed

theorem um_tx_rx_roundtrip_witness:
  "\<exists>n. \<forall>pdus. mset pdus = mset (fst (ut_pulls (take n [5, 5, 5, 5]) um_tx_demo)) \<longrightarrow>
    ur_out (fold (ur_handle_pdu (\<lambda>_. True)) pdus (um_rx_run False um_demo_cfg [])) = [[0x80, 1, 2, 3]]"
proof -
  have "ut_next_sdu um_tx_demo = (True, snd (ut_next_sdu um_tx_demo))" using um_tx_demo_facts(1) by (metis prod.collapse)
  note r = um_tx_rx_roundtrip [OF um_tx_demo_reach(1) this um_tx_demo_facts(3,2), of "[5, 5, 5, 5]" um_demo_cfg False "[]"]
  have f: "ur_out (um_rx_run False um_demo_cfg []) = []" "\<not> sn_invalid_for_rx_buffer (um_rx_run False um_demo_cfg []) 0"
    "\<not> has_sn (ur_window (um_rx_run False um_demo_cfg [])) 0" by code_simp+
  have "\<exists>n \<le> length [5, 5, 5, 5 :: nat]. sdu_buf (ut_sdu (snd (ut_pulls (take n [5, 5, 5, 5]) um_tx_demo))) = [] \<and>
    (\<forall>pdus. mset pdus = mset (fst (ut_pulls (take n [5, 5, 5, 5]) um_tx_demo)) \<longrightarrow>
      ur_out (fold (ur_handle_pdu (\<lambda>_. True)) pdus (um_rx_run False um_demo_cfg [])) = [[0x80, 1, 2, 3]])"
    using r f by (simp add: um_tx_demo_facts(4) um_demo_cfg_def [THEN arg_cong [where f = rx_sn_field_length]] um_tx_demo_cfg_def)
  then show ?thesis by blast
qed

end
