(* ===== verification/Rlc_Am_Pdu.thy ===== *)
theory Rlc_Am_Pdu
  imports Rlc_Um_Pdu
begin

text \<open>
  The PDUs of RLC AM (\<open>lib/rlc/rlc_am_pdu.h\<close>, \<open>rlc_am_pdu.cpp\<close>): data PDU headers, and status PDUs with their NACKs,
  which are merged as they are pushed, trimmed to a grant, packed and unpacked.
\<close>

section \<open>Configuration\<close>

datatype rlc_am_sn_size = am_size12bits | am_size18bits

fun rlc_am_sn_size_to_number :: "rlc_am_sn_size \<Rightarrow> nat" where
  "rlc_am_sn_size_to_number am_size12bits = 12"
| "rlc_am_sn_size_to_number am_size18bits = 18"

datatype rlc_dc_field = rlc_control | rlc_data

fun rlc_dc_to_number :: "rlc_dc_field \<Rightarrow> byte" where
  "rlc_dc_to_number rlc_control = 0"
| "rlc_dc_to_number rlc_data = 1"

definition rlc_dc_of_bit :: "byte \<Rightarrow> rlc_dc_field" where
  "rlc_dc_of_bit b = (if b = 0 then rlc_control else rlc_data)"

definition am_modulus :: "rlc_am_sn_size \<Rightarrow> u32" where
  "am_modulus sz = rlc_cardinality (rlc_am_sn_size_to_number sz)"

section \<open>Data PDUs\<close>

definition rlc_am_pdu_header_so_size :: nat where
  "rlc_am_pdu_header_so_size = 2"

fun rlc_am_pdu_header_min_size :: "rlc_am_sn_size \<Rightarrow> nat" where
  "rlc_am_pdu_header_min_size am_size12bits = 2"
| "rlc_am_pdu_header_min_size am_size18bits = 3"

definition rlc_am_pdu_header_max_size :: "rlc_am_sn_size \<Rightarrow> nat" where
  "rlc_am_pdu_header_max_size sz = rlc_am_pdu_header_min_size sz + rlc_am_pdu_header_so_size"

record rlc_am_pdu_header =
  am_dc :: rlc_dc_field
  am_p :: byte
  am_si :: rlc_si_field
  am_sn_size :: rlc_am_sn_size
  am_sn :: u32
  am_so :: u16

definition am_get_packed_size :: "rlc_am_pdu_header \<Rightarrow> nat" where
  "am_get_packed_size h =
    (if am_si h = last_segment \<or> am_si h = middle_segment then rlc_am_pdu_header_max_size (am_sn_size h)
     else rlc_am_pdu_header_min_size (am_sn_size h))"

text \<open>The optional part: the segment offset.\<close>

definition rlc_am_read_so :: "rlc_am_pdu_header \<Rightarrow> bytes \<Rightarrow> rlc_am_pdu_header option" where
  "rlc_am_read_so h rest =
    (if am_si h = last_segment \<or> am_si h = middle_segment then
       (case rest of
          b0 # b1 # _ \<Rightarrow> Some (h\<lparr>am_so := push_bit 8 (ucast b0 AND 0xff) OR (ucast b1 AND 0xff)\<rparr>)
        | _ \<Rightarrow> None)
     else Some h)"

definition rlc_am_read_data_pdu_header :: "bytes \<Rightarrow> rlc_am_sn_size \<Rightarrow> rlc_am_pdu_header option" where
  "rlc_am_read_data_pdu_header pdu sz =
    (if length pdu \<le> rlc_am_pdu_header_min_size sz then None
     else
       let b = pdu ! 0;
           h = \<lparr>am_dc = rlc_dc_of_bit (drop_bit 7 b AND 0x01), am_p = drop_bit 6 b AND 0x01,
                am_si = si_of_bits (drop_bit 4 b AND 0x03), am_sn_size = sz, am_sn = 0, am_so = 0\<rparr>
       in case sz of
            am_size12bits \<Rightarrow>
              rlc_am_read_so (h\<lparr>am_sn := push_bit 8 (ucast b AND 0x0f) OR (ucast (pdu ! 1) AND 0xff)\<rparr>) (drop 2 pdu)
          | am_size18bits \<Rightarrow>
              if b AND 0x0c \<noteq> 0 then None
              else rlc_am_read_so (h\<lparr>am_sn := push_bit 16 (ucast b AND 0x03) OR push_bit 8 (ucast (pdu ! 1) AND 0xff) OR
                     (ucast (pdu ! 2) AND 0xff)\<rparr>) (drop 3 pdu))"

definition rlc_am_write_data_pdu_header :: "rlc_am_pdu_header \<Rightarrow> bytes" where
  "rlc_am_write_data_pdu_header h =
    (let b0 = push_bit 7 (rlc_dc_to_number (am_dc h) AND 0x01) OR push_bit 6 (am_p h AND 0x01) OR
              push_bit 4 (si_to_number (am_si h) AND 0x03)
     in (case am_sn_size h of
           am_size12bits \<Rightarrow> [b0 OR ucast (drop_bit 8 (am_sn h) AND 0x0f), ucast (am_sn h AND 0xff)]
         | am_size18bits \<Rightarrow> [b0 OR ucast (drop_bit 16 (am_sn h) AND 0x3), ucast (drop_bit 8 (am_sn h)), ucast (am_sn h AND 0xff)])
        @ (if am_so h \<noteq> 0 then [ucast (drop_bit 8 (am_so h)), ucast (am_so h AND 0xff)] else []))"

section \<open>Status PDUs\<close>

record rlc_am_status_nack =
  nack_sn :: u32
  nack_has_so :: bool
  so_start :: u16
  so_end :: u16
  has_nack_range :: bool
  nack_range :: byte

definition so_end_of_sdu :: u16 where
  "so_end_of_sdu = 0xffff"

definition rlc_am_nack_new :: rlc_am_status_nack where
  "rlc_am_nack_new = \<lparr>nack_sn = 0, nack_has_so = False, so_start = 0, so_end = so_end_of_sdu, has_nack_range = False,
    nack_range = 0\<rparr>"

definition INVALID_RLC_SN :: u32 where
  "INVALID_RLC_SN = 0xffffffff"

definition status_pdu_sizeof_header_ack_sn :: u32 where
  "status_pdu_sizeof_header_ack_sn = 3"

record rlc_am_status_pdu =
  sp_sn_size :: rlc_am_sn_size
  sp_nacks :: "rlc_am_status_nack list"
  sp_packed_size :: u32
  sp_cpt :: byte
  sp_ack_sn :: u32

definition rlc_am_status_pdu_new :: "rlc_am_sn_size \<Rightarrow> rlc_am_status_pdu" where
  "rlc_am_status_pdu_new sz = \<lparr>sp_sn_size = sz, sp_nacks = [], sp_packed_size = status_pdu_sizeof_header_ack_sn, sp_cpt = 0,
    sp_ack_sn = INVALID_RLC_SN\<rparr>"

definition sp_mod_nr :: "rlc_am_status_pdu \<Rightarrow> u32" where
  "sp_mod_nr s = am_modulus (sp_sn_size s)"

definition sp_reset :: "rlc_am_status_pdu \<Rightarrow> rlc_am_status_pdu" where
  "sp_reset s = s\<lparr>sp_cpt := 0, sp_ack_sn := INVALID_RLC_SN, sp_nacks := [], sp_packed_size := status_pdu_sizeof_header_ack_sn\<rparr>"

definition nack_size :: "rlc_am_sn_size \<Rightarrow> rlc_am_status_nack \<Rightarrow> u32" where
  "nack_size sz n = (if sz = am_size12bits then 2 else 3) + (if nack_has_so n then 4 else 0) + (if has_nack_range n then 1 else 0)"

definition can_be_merged :: "u32 \<Rightarrow> rlc_am_status_nack \<Rightarrow> rlc_am_status_nack \<Rightarrow> bool" where
  "can_be_merged m left right \<longleftrightarrow>
    nack_sn right = (if has_nack_range left then nack_sn left + ucast (nack_range left) else nack_sn left + 1) mod m \<and>
    \<not> (nack_has_so left \<and> so_end left \<noteq> so_end_of_sdu) \<and>
    \<not> (nack_has_so right \<and> so_start right \<noteq> 0) \<and>
    (if has_nack_range left then unat (nack_range left) else 1) + (if has_nack_range right then unat (nack_range right) else 1) \<le> 255"

text \<open>The previous NACK, expanded by the new one.\<close>

definition merge_nack :: "rlc_am_status_nack \<Rightarrow> rlc_am_status_nack \<Rightarrow> rlc_am_status_nack" where
  "merge_nack prev nack =
    (let prev = (if has_nack_range nack then
                   (if has_nack_range prev then prev\<lparr>nack_range := nack_range prev + nack_range nack\<rparr>
                    else prev\<lparr>nack_range := nack_range nack + 1, has_nack_range := True\<rparr>)
                 else if has_nack_range prev then prev\<lparr>nack_range := nack_range prev + 1\<rparr>
                 else prev\<lparr>nack_range := 2, has_nack_range := True\<rparr>)
     in if nack_has_so nack then
          (if \<not> nack_has_so prev then prev\<lparr>nack_has_so := True, so_start := 0\<rparr> else prev)\<lparr>so_end := so_end nack\<rparr>
        else if nack_has_so prev then prev\<lparr>so_end := so_end_of_sdu\<rparr> else prev)"

definition push_nack :: "rlc_am_status_nack \<Rightarrow> rlc_am_status_pdu \<Rightarrow> rlc_am_status_pdu" where
  "push_nack nack s =
    (if sp_nacks s = [] \<or> \<not> can_be_merged (sp_mod_nr s) (last (sp_nacks s)) nack
     then s\<lparr>sp_nacks := sp_nacks s @ [nack], sp_packed_size := sp_packed_size s + nack_size (sp_sn_size s) nack\<rparr>
     else
       let prev = last (sp_nacks s); merged = merge_nack prev nack
       in s\<lparr>sp_nacks := butlast (sp_nacks s) @ [merged],
            sp_packed_size := sp_packed_size s - nack_size (sp_sn_size s) prev + nack_size (sp_sn_size s) merged\<rparr>)"

function sp_trim_loop :: "u32 \<Rightarrow> rlc_am_status_pdu \<Rightarrow> rlc_am_status_pdu" where
  "sp_trim_loop max_packed_size s =
    (if sp_nacks s \<noteq> [] \<and> (max_packed_size < sp_packed_size s \<or> nack_sn (last (sp_nacks s)) = sp_ack_sn s)
     then sp_trim_loop max_packed_size (s\<lparr>sp_packed_size := sp_packed_size s - nack_size (sp_sn_size s) (last (sp_nacks s)),
            sp_ack_sn := nack_sn (last (sp_nacks s)), sp_nacks := butlast (sp_nacks s)\<rparr>)
     else s)"
  by pat_completeness auto
termination
  by (relation "measure (\<lambda>(m, s). length (sp_nacks s))") auto

declare sp_trim_loop.simps [simp del]

definition sp_trim :: "u32 \<Rightarrow> rlc_am_status_pdu \<Rightarrow> bool \<times> rlc_am_status_pdu" where
  "sp_trim max_packed_size s =
    (if max_packed_size \<ge> sp_packed_size s then (True, s)
     else if max_packed_size < status_pdu_sizeof_header_ack_sn then (False, s)
     else (True, sp_trim_loop max_packed_size s))"

definition sp_is_control_pdu :: "bytes \<Rightarrow> bool" where
  "sp_is_control_pdu pdu \<longleftrightarrow> drop_bit 7 (pdu ! 0) AND 0x01 = rlc_dc_to_number rlc_control"

text \<open>Segment offsets and range of a NACK, as its flags E2 and E3 announce them.\<close>

definition sp_unpack_ext :: "bool \<Rightarrow> bool \<Rightarrow> rlc_am_status_nack \<Rightarrow> bytes \<Rightarrow> (rlc_am_status_nack \<times> bytes) option" where
  "sp_unpack_ext e2 e3 nack rest =
    (case (if e2 then
             (case rest of
                a # b # c # d # rest \<Rightarrow>
                  Some (nack\<lparr>nack_has_so := True, so_start := push_bit 8 (ucast a) OR ucast b,
                             so_end := push_bit 8 (ucast c) OR ucast d\<rparr>, rest)
              | _ \<Rightarrow> None)
           else Some (nack, rest)) of
       None \<Rightarrow> None
     | Some (nack, rest) \<Rightarrow>
         if e3 then
           (case rest of [] \<Rightarrow> None | r # rest \<Rightarrow> Some (nack\<lparr>has_nack_range := True, nack_range := r\<rparr>, rest))
         else Some (nack, rest))"

lemma unpack_ext_length: "sp_unpack_ext e2 e3 n rest = Some (n', rest') \<Longrightarrow> length rest' \<le> length rest"
  by (auto simp: sp_unpack_ext_def split: if_splits list.splits)

function sp_unpack_nacks12 :: "bool \<Rightarrow> bytes \<Rightarrow> rlc_am_status_pdu \<Rightarrow> bool \<times> rlc_am_status_pdu" where
  "sp_unpack_nacks12 e1 rest s =
    (if \<not> e1 then (True, s)
     else case rest of
       b0 # b1 # rest \<Rightarrow>
         if b1 AND 0x01 \<noteq> 0 then (False, s)
         else
           (let nack = rlc_am_nack_new\<lparr>nack_sn := push_bit 4 (ucast b0 AND 0xff) OR drop_bit 4 (ucast b1 AND 0xf0)\<rparr>
            in case sp_unpack_ext (b1 AND 0x04 \<noteq> 0) (b1 AND 0x02 \<noteq> 0) nack rest of
                 None \<Rightarrow> (False, s)
               | Some (nack, rest) \<Rightarrow> sp_unpack_nacks12 (b1 AND 0x08 \<noteq> 0) rest (push_nack nack s))
     | _ \<Rightarrow> (False, s))"
  by pat_completeness auto
termination
  by (relation "measure (\<lambda>(e, rest, s). length rest)") (auto dest!: unpack_ext_length)

declare sp_unpack_nacks12.simps [simp del]

definition sp_unpack_12bit :: "bytes \<Rightarrow> rlc_am_status_pdu \<Rightarrow> bool \<times> rlc_am_status_pdu" where
  "sp_unpack_12bit pdu s =
    (if length pdu < unat status_pdu_sizeof_header_ack_sn then (False, s)
     else if \<not> sp_is_control_pdu pdu then (False, s)
     else
       let s = (sp_reset s)\<lparr>sp_cpt := drop_bit 4 (pdu ! 0) AND 0x07\<rparr>
       in if sp_cpt s \<noteq> 0 then (False, s)
          else
            let s = s\<lparr>sp_ack_sn := push_bit 8 (ucast (pdu ! 0) AND 0x0f) OR (ucast (pdu ! 1) AND 0xff)\<rparr>
            in if pdu ! 2 AND 0x7f \<noteq> 0 then (False, s)
               else sp_unpack_nacks12 (pdu ! 2 AND 0x80 \<noteq> 0) (drop 3 pdu) s)"

function sp_unpack_nacks18 :: "bool \<Rightarrow> bytes \<Rightarrow> rlc_am_status_pdu \<Rightarrow> bool \<times> rlc_am_status_pdu" where
  "sp_unpack_nacks18 e1 rest s =
    (if \<not> e1 then (True, s)
     else case rest of
       b0 # b1 # b2 # rest \<Rightarrow>
         if b2 AND 0x07 \<noteq> 0 then (False, s)
         else
           (let nack = rlc_am_nack_new\<lparr>nack_sn := push_bit 10 (ucast b0 AND 0xff) OR push_bit 2 (ucast b1 AND 0xff) OR
                  drop_bit 6 (ucast b2 AND 0xc0)\<rparr>
            in case sp_unpack_ext (b2 AND 0x10 \<noteq> 0) (b2 AND 0x08 \<noteq> 0) nack rest of
                 None \<Rightarrow> (False, s)
               | Some (nack, rest) \<Rightarrow> sp_unpack_nacks18 (b2 AND 0x20 \<noteq> 0) rest (push_nack nack s))
     | _ \<Rightarrow> (False, s))"
  by pat_completeness auto
termination
  by (relation "measure (\<lambda>(e, rest, s). length rest)") (auto dest!: unpack_ext_length)

declare sp_unpack_nacks18.simps [simp del]

definition sp_unpack_18bit :: "bytes \<Rightarrow> rlc_am_status_pdu \<Rightarrow> bool \<times> rlc_am_status_pdu" where
  "sp_unpack_18bit pdu s =
    (if length pdu < unat status_pdu_sizeof_header_ack_sn then (False, s)
     else if \<not> sp_is_control_pdu pdu then (False, s)
     else
       let s = (sp_reset s)\<lparr>sp_cpt := drop_bit 4 (pdu ! 0) AND 0x07\<rparr>
       in if sp_cpt s \<noteq> 0 then (False, s)
          else
            let s = s\<lparr>sp_ack_sn := push_bit 14 (ucast (pdu ! 0) AND 0x0f) OR push_bit 6 (ucast (pdu ! 1) AND 0xff) OR
                  drop_bit 2 (ucast (pdu ! 2) AND 0xfc)\<rparr>
            in if pdu ! 2 AND 0x01 \<noteq> 0 then (False, s)
               else sp_unpack_nacks18 (pdu ! 2 AND 0x02 \<noteq> 0) (drop 3 pdu) s)"

definition sp_unpack :: "bytes \<Rightarrow> rlc_am_status_pdu \<Rightarrow> bool \<times> rlc_am_status_pdu" where
  "sp_unpack pdu s = (case sp_sn_size s of am_size12bits \<Rightarrow> sp_unpack_12bit pdu s | am_size18bits \<Rightarrow> sp_unpack_18bit pdu s)"

definition sp_pack_ext :: "rlc_am_status_nack \<Rightarrow> bytes" where
  "sp_pack_ext n =
    (if nack_has_so n then [ucast (drop_bit 8 (so_start n)), ucast (so_start n), ucast (drop_bit 8 (so_end n)), ucast (so_end n)] else [])
    @ (if has_nack_range n then [nack_range n] else [])"

fun sp_pack_nacks12 :: "rlc_am_status_nack list \<Rightarrow> bytes" where
  "sp_pack_nacks12 [] = []"
| "sp_pack_nacks12 (n # ns) =
    [ucast (drop_bit 4 (nack_sn n) AND 0xff),
     ucast (push_bit 4 (nack_sn n AND 0x0f)) OR (if ns \<noteq> [] then 0x08 else 0) OR (if nack_has_so n then 0x04 else 0) OR
       (if has_nack_range n then 0x02 else 0)]
    @ sp_pack_ext n @ sp_pack_nacks12 ns"

definition sp_pack_12bit :: "rlc_am_status_pdu \<Rightarrow> bytes" where
  "sp_pack_12bit s =
    [ucast (drop_bit 8 (sp_ack_sn s) AND 0x0f), ucast (sp_ack_sn s AND 0xff), if sp_nacks s \<noteq> [] then 0x80 else 0x00]
    @ sp_pack_nacks12 (sp_nacks s)"

fun sp_pack_nacks18 :: "rlc_am_status_nack list \<Rightarrow> bytes" where
  "sp_pack_nacks18 [] = []"
| "sp_pack_nacks18 (n # ns) =
    [ucast (drop_bit 10 (nack_sn n) AND 0xff), ucast (drop_bit 2 (nack_sn n) AND 0xff),
     ucast (push_bit 6 (nack_sn n) AND 0xc0) OR (if ns \<noteq> [] then 0x20 else 0) OR (if nack_has_so n then 0x10 else 0) OR
       (if has_nack_range n then 0x08 else 0)]
    @ sp_pack_ext n @ sp_pack_nacks18 ns"

definition sp_pack_18bit :: "rlc_am_status_pdu \<Rightarrow> bytes" where
  "sp_pack_18bit s =
    [ucast (drop_bit 14 (sp_ack_sn s) AND 0x0f), ucast (drop_bit 6 (sp_ack_sn s) AND 0xff),
     ucast (push_bit 2 (sp_ack_sn s) AND 0xfc) OR (if sp_nacks s \<noteq> [] then 0x02 else 0)]
    @ sp_pack_nacks18 (sp_nacks s)"

definition sp_pack :: "rlc_am_status_pdu \<Rightarrow> bytes" where
  "sp_pack s = (case sp_sn_size s of am_size12bits \<Rightarrow> sp_pack_12bit s | am_size18bits \<Rightarrow> sp_pack_18bit s)"

end
