(* ===== verification/Rlc_Am_Rx.thy ===== *)
theory Rlc_Am_Rx
  imports Rlc_Am_Pdu Rlc_Um_Rx
begin

text \<open>
  The receiving RLC AM entity (\<open>lib/rlc/rlc_rx_am_entity.cpp\<close>, \<open>rlc_rx_am_entity.h\<close>). Timers are flags, their expiry is an
  operation. The result \<open>None\<close> of an operation is an assertion of the code that fails, which ends the process. The trace holds
  the calls to the upper layer and to the transmitting entity. Time stamps, and the metrics of latencies made from
  them, are left out. \<open>store_segment\<close> and \<open>update_segment_inventory\<close> are the functions of the UM entity, letter for
  letter, so their models are the ones of \<open>Rlc_Segments\<close>.
\<close>

section \<open>State\<close>

record rlc_rx_am_config =
  ra_sn_field_length :: rlc_am_sn_size
  ra_t_reassembly :: int
  ra_t_status_prohibit :: int
  ra_max_sn_per_status :: "u32 option"

datatype am_sdu_data = Full_sdu_data bytes | Segment_set "um_segment list"

record am_sdu_info =
  ai_fully_received :: bool
  ai_has_gap :: bool
  ai_data :: am_sdu_data

definition am_sdu_info_new :: am_sdu_info where
  "am_sdu_info_new = \<lparr>ai_fully_received = False, ai_has_gap = False, ai_data = Full_sdu_data []\<rparr>"

record rlc_rx_am_metrics = rlc_rx_metrics +
  rm_num_ctrl_pdus :: u32
  rm_num_ctrl_pdu_bytes :: u32

definition rlc_rx_am_metrics_zero :: rlc_rx_am_metrics where
  "rlc_rx_am_metrics_zero = \<lparr>rm_num_sdus = 0, rm_num_sdu_bytes = 0, rm_num_pdus = 0, rm_num_pdu_bytes = 0,
    rm_num_lost_pdus = 0, rm_num_malformed_pdus = 0, rm_num_ctrl_pdus = 0, rm_num_ctrl_pdu_bytes = 0\<rparr>"

datatype am_rx_output = Ar_on_new_sdu bytes | Ar_on_status_pdu rlc_am_status_pdu | Ar_on_status_report_changed

text \<open>The pointers to the three status buffers are only ever swapped: a field holds what its pointer points to.\<close>

record rlc_rx_am =
  ar_cfg :: rlc_rx_am_config
  ar_next :: u32
  ar_next_status_trigger :: u32
  ar_highest_status :: u32
  ar_next_highest :: u32
  ar_max_nof_sn_per_status_report :: u32
  ar_do_status :: bool
  ar_window :: "(32 word, am_sdu_info) circular_map"
  ar_status_builder :: rlc_am_status_pdu
  ar_status_cached :: rlc_am_status_pdu
  ar_status_shared :: rlc_am_status_pdu
  ar_status_report_size :: u32
  ar_status_prohibit_timer_is_running :: bool
  ar_status_prohibit_timer :: bool
  ar_reassembly_timer :: bool
  ar_metrics_enabled :: bool
  ar_metrics :: rlc_rx_am_metrics
  ar_out :: "am_rx_output list"

definition ar_mod :: "rlc_rx_am \<Rightarrow> u32" where
  "ar_mod s = am_modulus (ra_sn_field_length (ar_cfg s))"

definition am_window_size_of :: "rlc_am_sn_size \<Rightarrow> u32" where
  "am_window_size_of sn_size = rlc_window_size (rlc_am_sn_size_to_number sn_size)"

definition ar_window_size :: "rlc_rx_am \<Rightarrow> u32" where
  "ar_window_size s = am_window_size_of (ra_sn_field_length (ar_cfg s))"

definition am_create_rx_window :: "rlc_am_sn_size \<Rightarrow> (32 word, am_sdu_info) circular_map" where
  "am_create_rx_window sn_size = cm_new (unat (am_window_size_of sn_size))"

definition rlc_rx_am_entity :: "bool \<Rightarrow> rlc_rx_am_config \<Rightarrow> rlc_rx_am option" where
  "rlc_rx_am_entity metrics_enabled cfg =
    (let ws = am_window_size_of (ra_sn_field_length cfg); status = rlc_am_status_pdu_new (ra_sn_field_length cfg)
     in case (case ra_max_sn_per_status cfg of
                Some n \<Rightarrow> if n \<le> ws \<and> n > 0 then Some n else None
              | None \<Rightarrow> Some ws) of
          None \<Rightarrow> None
        | Some max_nof \<Rightarrow>
            Some \<lparr>ar_cfg = cfg, ar_next = 0, ar_next_status_trigger = 0, ar_highest_status = 0, ar_next_highest = 0,
              ar_max_nof_sn_per_status_report = max_nof, ar_do_status = False,
              ar_window = am_create_rx_window (ra_sn_field_length cfg),
              ar_status_builder = status, ar_status_cached = status\<lparr>sp_ack_sn := 0\<rparr>, ar_status_shared = status,
              ar_status_report_size = sp_packed_size status,
              ar_status_prohibit_timer_is_running = False, ar_status_prohibit_timer = False, ar_reassembly_timer = False,
              ar_metrics_enabled = metrics_enabled, ar_metrics = rlc_rx_am_metrics_zero, ar_out = []\<rparr>)"

definition ar_stop :: "rlc_rx_am \<Rightarrow> rlc_rx_am" where
  "ar_stop s = s\<lparr>ar_status_prohibit_timer := False, ar_reassembly_timer := False\<rparr>"

section \<open>Metrics and outputs\<close>

definition ar_metric :: "(rlc_rx_am_metrics \<Rightarrow> rlc_rx_am_metrics) \<Rightarrow> rlc_rx_am \<Rightarrow> rlc_rx_am" where
  "ar_metric f s = (if \<not> ar_metrics_enabled s then s else s\<lparr>ar_metrics := f (ar_metrics s)\<rparr>)"

definition ar_add_sdus :: "u32 \<Rightarrow> nat \<Rightarrow> rlc_rx_am \<Rightarrow> rlc_rx_am" where
  "ar_add_sdus n bytes = ar_metric (\<lambda>m. m\<lparr>rm_num_sdus := rm_num_sdus m + n,
    rm_num_sdu_bytes := rm_num_sdu_bytes m + word_of_nat bytes\<rparr>)"

definition ar_add_pdus :: "u32 \<Rightarrow> nat \<Rightarrow> rlc_rx_am \<Rightarrow> rlc_rx_am" where
  "ar_add_pdus n bytes = ar_metric (\<lambda>m. m\<lparr>rm_num_pdus := rm_num_pdus m + n,
    rm_num_pdu_bytes := rm_num_pdu_bytes m + word_of_nat bytes\<rparr>)"

definition ar_add_lost_pdus :: "u32 \<Rightarrow> rlc_rx_am \<Rightarrow> rlc_rx_am" where
  "ar_add_lost_pdus n = ar_metric (\<lambda>m. m\<lparr>rm_num_lost_pdus := rm_num_lost_pdus m + n\<rparr>)"

definition ar_add_malformed_pdus :: "u32 \<Rightarrow> rlc_rx_am \<Rightarrow> rlc_rx_am" where
  "ar_add_malformed_pdus n = ar_metric (\<lambda>m. m\<lparr>rm_num_malformed_pdus := rm_num_malformed_pdus m + n\<rparr>)"

definition ar_add_ctrl_pdus :: "u32 \<Rightarrow> u32 \<Rightarrow> rlc_rx_am \<Rightarrow> rlc_rx_am" where
  "ar_add_ctrl_pdus n bytes = ar_metric (\<lambda>m. m\<lparr>rm_num_ctrl_pdus := rm_num_ctrl_pdus m + n,
    rm_num_ctrl_pdu_bytes := rm_num_ctrl_pdu_bytes m + bytes\<rparr>)"

definition ar_emit :: "am_rx_output \<Rightarrow> rlc_rx_am \<Rightarrow> rlc_rx_am" where
  "ar_emit e s = s\<lparr>ar_out := ar_out s @ [e]\<rparr>"

section \<open>Window\<close>

definition ar_mod_base :: "rlc_rx_am \<Rightarrow> u32 \<Rightarrow> u32" where
  "ar_mod_base s sn = (sn - ar_next s) mod ar_mod s"

definition inside_rx_window :: "rlc_rx_am \<Rightarrow> u32 \<Rightarrow> bool" where
  "inside_rx_window s sn \<longleftrightarrow> ar_mod_base s sn < ar_window_size s"

definition ar_valid_ack_sn :: "rlc_rx_am \<Rightarrow> u32 \<Rightarrow> bool" where
  "ar_valid_ack_sn s sn \<longleftrightarrow> 0 < ar_mod_base s sn \<and> ar_mod_base s sn \<le> ar_window_size s"

definition ar_fully_received :: "rlc_rx_am \<Rightarrow> u32 \<Rightarrow> bool" where
  "ar_fully_received s sn \<longleftrightarrow> (case cm_at (ar_window s) sn of None \<Rightarrow> False | Some i \<Rightarrow> ai_fully_received i)"

definition ar_assign :: "u32 \<Rightarrow> am_sdu_info \<Rightarrow> rlc_rx_am \<Rightarrow> rlc_rx_am" where
  "ar_assign sn i s = s\<lparr>ar_window := cm_assign (ar_window s) sn i\<rparr>"

text \<open>The SDU of \<open>sn\<close>, which is added when nothing of it has been received yet.\<close>

definition ar_lookup_or_add :: "u32 \<Rightarrow> rlc_rx_am \<Rightarrow> am_sdu_info \<times> rlc_rx_am" where
  "ar_lookup_or_add sn s =
    (case cm_at (ar_window s) sn of
       Some i \<Rightarrow> (i, s)
     | None \<Rightarrow> (am_sdu_info_new, s\<lparr>ar_window := add_sn (ar_window s) sn am_sdu_info_new\<rparr>))"

section \<open>Storing data\<close>

definition ar_handle_full_data_sdu :: "rlc_am_pdu_header \<Rightarrow> bytes \<Rightarrow> rlc_rx_am \<Rightarrow> bool \<times> rlc_rx_am" where
  "ar_handle_full_data_sdu h payload s =
    (if am_si h \<noteq> full_sdu then (False, s)
     else
       let (i, s) = ar_lookup_or_add (am_sn h) s
       in (True, ar_assign (am_sn h) (i\<lparr>ai_data := Full_sdu_data payload, ai_fully_received := True, ai_has_gap := False\<rparr>) s))"

definition am_segments :: "am_sdu_info \<Rightarrow> um_segment list" where
  "am_segments i = (case ai_data i of Segment_set segs \<Rightarrow> segs | Full_sdu_data _ \<Rightarrow> [])"

definition ar_handle_segment_data_sdu :: "rlc_am_pdu_header \<Rightarrow> bytes \<Rightarrow> rlc_rx_am \<Rightarrow> bool \<times> rlc_rx_am" where
  "ar_handle_segment_data_sdu h payload s =
    (if am_si h = full_sdu then (False, s)
     else
       let (i, s) = ar_lookup_or_add (am_sn h) s;
           (stored, segs) = store_segment \<lparr>seg_si = am_si h, seg_so = am_so h, seg_payload = payload\<rparr> (am_segments i);
           (full, gap) = update_segment_inventory segs
       in (stored, ar_assign (am_sn h) (i\<lparr>ai_data := Segment_set segs, ai_fully_received := full, ai_has_gap := gap\<rparr>) s))"

text \<open>\<open>ok n\<close>: there is memory for the \<open>n\<close>-th allocation; the creation of the chain is allocation 0.\<close>

definition am_reassemble_sdu :: "(nat \<Rightarrow> bool) \<Rightarrow> am_sdu_info \<Rightarrow> bytes option" where
  "am_reassemble_sdu ok i =
    (if \<not> ai_fully_received i then None
     else if \<not> ok 0 then None
     else case ai_data i of
       Full_sdu_data payload \<Rightarrow> if ok 1 then Some payload else None
     | Segment_set segs \<Rightarrow> reassemble_from ok 1 segs [])"

section \<open>Status reports\<close>

text \<open>
  The NACKs of the segments of one SDU: \<open>last_so\<close> is the first byte that is not yet accounted for. The assertion on
  the offsets follows the push.
\<close>

fun ar_segment_nacks ::
  "u32 \<Rightarrow> u32 \<Rightarrow> bool \<Rightarrow> um_segment list \<Rightarrow> rlc_am_status_pdu \<Rightarrow> (u32 \<times> bool \<times> rlc_am_status_pdu) option" where
  "ar_segment_nacks i last_so have_last [] b = Some (last_so, have_last, b)"
| "ar_segment_nacks i last_so have_last (segm # segs) b =
    (let nack = rlc_am_nack_new\<lparr>nack_sn := i, nack_has_so := True, so_start := ucast last_so, so_end := seg_so segm - 1\<rparr>;
         gap = (ucast (seg_so segm) \<noteq> last_so);
         b = (if gap then push_nack nack b else b)
     in if gap \<and> so_start nack > so_end nack then None
        else ar_segment_nacks i (ucast (seg_so segm) + word_of_nat (length (seg_payload segm)))
               (have_last \<or> seg_si segm = last_segment) segs b)"

definition ar_sdu_nacks :: "rlc_rx_am \<Rightarrow> u32 \<Rightarrow> rlc_am_status_pdu \<Rightarrow> rlc_am_status_pdu option" where
  "ar_sdu_nacks s i b =
    (case cm_at (ar_window s) i of
       None \<Rightarrow> Some (push_nack (rlc_am_nack_new\<lparr>nack_sn := i, nack_has_so := False\<rparr>) b)
     | Some info \<Rightarrow>
         if ai_fully_received info then Some b
         else case ai_data info of
           Full_sdu_data _ \<Rightarrow> None
         | Segment_set segs \<Rightarrow>
             (case ar_segment_nacks i 0 False segs b of
                None \<Rightarrow> None
              | Some (last_so, have_last, b) \<Rightarrow>
                  Some (if \<not> have_last
                        then push_nack (rlc_am_nack_new\<lparr>nack_sn := i, nack_has_so := True, so_start := ucast last_so,
                               so_end := so_end_of_sdu\<rparr>) b
                        else b)))"

text \<open>The loop over the sequence numbers. \<open>n\<close> bounds the rounds; the caller passes the modulus.\<close>

fun ar_nack_loop :: "rlc_rx_am \<Rightarrow> nat \<Rightarrow> u32 \<Rightarrow> u32 \<Rightarrow> rlc_am_status_pdu \<Rightarrow> rlc_am_status_pdu option" where
  "ar_nack_loop s 0 i stop_sn b = Some b"
| "ar_nack_loop s (Suc n) i stop_sn b =
    (if ar_mod_base s i < ar_mod_base s stop_sn then
       (case ar_sdu_nacks s i b of
          None \<Rightarrow> None
        | Some b \<Rightarrow> ar_nack_loop s n ((i + 1) mod ar_mod s) stop_sn b)
     else Some b)"

definition ar_stop_sn :: "rlc_rx_am \<Rightarrow> u32" where
  "ar_stop_sn s =
    (let lim = (ar_next s + ar_max_nof_sn_per_status_report s) mod ar_mod s
     in if ar_mod_base s (ar_highest_status s) > ar_mod_base s lim then lim else ar_highest_status s)"

definition ar_store_status_report :: "rlc_rx_am \<Rightarrow> rlc_rx_am" where
  "ar_store_status_report s =
    s\<lparr>ar_status_builder := ar_status_cached s, ar_status_cached := ar_status_builder s,
      ar_status_report_size := sp_packed_size (ar_status_builder s)\<rparr>"

definition ar_refresh_status_report :: "rlc_rx_am \<Rightarrow> rlc_rx_am option" where
  "ar_refresh_status_report s =
    (case ar_nack_loop s (unat (ar_mod s)) (ar_next s) (ar_stop_sn s) (sp_reset (ar_status_builder s)) of
       None \<Rightarrow> None
     | Some b \<Rightarrow> Some (ar_store_status_report (s\<lparr>ar_status_builder := b\<lparr>sp_ack_sn := ar_stop_sn s\<rparr>\<rparr>)))"

text \<open>The interface for the transmitting entity. \<open>defer_ok\<close>: the executor accepts the task that starts the timer.\<close>

definition ar_get_status_pdu :: "bool \<Rightarrow> rlc_rx_am \<Rightarrow> rlc_am_status_pdu \<times> rlc_rx_am" where
  "ar_get_status_pdu defer_ok s =
    (let s = s\<lparr>ar_do_status := False\<rparr>;
         s = (if ra_t_status_prohibit (ar_cfg s) > 0
              then s\<lparr>ar_status_prohibit_timer := ar_status_prohibit_timer s \<or> defer_ok,
                     ar_status_prohibit_timer_is_running := True\<rparr>
              else s);
         s = s\<lparr>ar_status_shared := ar_status_cached s, ar_status_cached := ar_status_shared s\<rparr>
     in (ar_status_shared s, s))"

definition ar_get_status_pdu_length :: "rlc_rx_am \<Rightarrow> u32" where
  "ar_get_status_pdu_length s = ar_status_report_size s"

definition ar_status_report_required :: "rlc_rx_am \<Rightarrow> bool" where
  "ar_status_report_required s \<longleftrightarrow> ar_do_status s \<and> \<not> ar_status_prohibit_timer_is_running s"

definition ar_notify_status_report_changed :: "rlc_rx_am \<Rightarrow> rlc_rx_am" where
  "ar_notify_status_report_changed s = (if ar_status_report_required s then ar_emit Ar_on_status_report_changed s else s)"

section \<open>PDUs\<close>

definition ar_handle_control_pdu :: "bytes \<Rightarrow> rlc_rx_am \<Rightarrow> rlc_rx_am" where
  "ar_handle_control_pdu buf s =
    (let (unpacked, status) = sp_unpack buf (rlc_am_status_pdu_new (ra_sn_field_length (ar_cfg s)))
     in if unpacked then ar_emit (Ar_on_status_pdu status) s else s)"

text \<open>The loops that look for the first SDU not fully received; the second removes what it passes.\<close>

fun ar_skip_received :: "nat \<Rightarrow> u32 \<Rightarrow> rlc_rx_am \<Rightarrow> u32" where
  "ar_skip_received 0 sn s = sn"
| "ar_skip_received (Suc n) sn s =
    (if ar_mod_base s sn < ar_mod_base s (ar_next_highest s) \<and> ar_fully_received s sn
     then ar_skip_received n ((sn + 1) mod ar_mod s) s else sn)"

fun ar_remove_received :: "nat \<Rightarrow> u32 \<Rightarrow> rlc_rx_am \<Rightarrow> u32 \<times> rlc_rx_am" where
  "ar_remove_received 0 sn s = (sn, s)"
| "ar_remove_received (Suc n) sn s =
    (if ar_mod_base s sn < ar_mod_base s (ar_next_highest s) \<and> ar_fully_received s sn
     then ar_remove_received n ((sn + 1) mod ar_mod s) (s\<lparr>ar_window := remove_sn (ar_window s) sn\<rparr>) else (sn, s))"

definition ar_deliver :: "(nat \<Rightarrow> bool) \<Rightarrow> am_sdu_info \<Rightarrow> rlc_rx_am \<Rightarrow> rlc_rx_am" where
  "ar_deliver ok i s =
    (case am_reassemble_sdu ok i of
       None \<Rightarrow> ar_add_lost_pdus 1 s
     | Some sdu \<Rightarrow> ar_emit (Ar_on_new_sdu sdu) (ar_add_sdus 1 (length sdu) s))"

definition ar_complete_sdu :: "(nat \<Rightarrow> bool) \<Rightarrow> u32 \<Rightarrow> am_sdu_info \<Rightarrow> rlc_rx_am \<Rightarrow> rlc_rx_am" where
  "ar_complete_sdu ok sn i s =
    (let s = ar_assign sn (i\<lparr>ai_data := Full_sdu_data []\<rparr>) (ar_deliver ok i s);
         s = (if ar_mod_base s sn = ar_mod_base s (ar_highest_status s)
              then s\<lparr>ar_highest_status := ar_skip_received (unat (ar_mod s)) ((ar_highest_status s + 1) mod ar_mod s) s\<rparr>
              else s)
     in if ar_mod_base s sn = ar_mod_base s (ar_next s)
        then let (sn_upd, s) = ar_remove_received (unat (ar_mod s)) (ar_next s mod ar_mod s) s in s\<lparr>ar_next := sn_upd\<rparr>
        else s)"

text \<open>\<open>None\<close>: the code looks at the SDU of RX_Next, and the window does not hold it.\<close>

definition ar_stop_condition :: "rlc_rx_am \<Rightarrow> bool option" where
  "ar_stop_condition s =
    (let st1 = (ar_next_status_trigger s = ar_next s);
         st3 = (\<not> inside_rx_window s (ar_next_status_trigger s))
     in if ar_mod_base s (ar_next_status_trigger s) = ar_mod_base s (ar_next s + 1)
        then map_option (\<lambda>i. st1 \<or> \<not> ai_has_gap i \<or> st3) (cm_at (ar_window s) (ar_next s))
        else Some (st1 \<or> st3))"

text \<open>Whether t-Reassembly is to be started, with \<open>sn\<close> = RX_Next on reception and RX_Highest_Status on expiry.\<close>

definition ar_restart_condition :: "u32 \<Rightarrow> rlc_rx_am \<Rightarrow> bool" where
  "ar_restart_condition sn s \<longleftrightarrow>
    ar_mod_base s (ar_next_highest s) > ar_mod_base s (sn + 1) \<or>
    ar_mod_base s (ar_next_highest s) = ar_mod_base s (sn + 1) \<and>
      (case cm_at (ar_window s) sn of None \<Rightarrow> False | Some i \<Rightarrow> ai_has_gap i)"

definition ar_restart_timer :: "u32 \<Rightarrow> rlc_rx_am \<Rightarrow> rlc_rx_am" where
  "ar_restart_timer sn s =
    (if ar_restart_condition sn s then s\<lparr>ar_reassembly_timer := True, ar_next_status_trigger := ar_next_highest s\<rparr> else s)"

definition ar_update_timer :: "rlc_rx_am \<Rightarrow> rlc_rx_am option" where
  "ar_update_timer s =
    (case (if ar_reassembly_timer s
           then map_option (\<lambda>stop. if stop then s\<lparr>ar_reassembly_timer := False\<rparr> else s) (ar_stop_condition s)
           else Some s) of
       None \<Rightarrow> None
     | Some s \<Rightarrow> Some (if \<not> ar_reassembly_timer s then ar_restart_timer (ar_next s) s else s))"

text \<open>A PDU that passed the checks: it is stored, the state variables and t-Reassembly follow.\<close>

definition ar_place :: "(nat \<Rightarrow> bool) \<Rightarrow> rlc_am_pdu_header \<Rightarrow> bytes \<Rightarrow> rlc_rx_am \<Rightarrow> (bool \<times> rlc_rx_am) option" where
  "ar_place ok h payload s =
    (let (status_changed, s) = (if am_si h = full_sdu then ar_handle_full_data_sdu h payload s
                                else ar_handle_segment_data_sdu h payload s);
         s = (if ar_mod_base s (am_sn h) \<ge> ar_mod_base s (ar_next_highest s)
              then s\<lparr>ar_next_highest := (am_sn h + 1) mod ar_mod s\<rparr> else s);
         s = (case cm_at (ar_window s) (am_sn h) of
                None \<Rightarrow> s
              | Some i \<Rightarrow> if ai_fully_received i then ar_complete_sdu ok (am_sn h) i s else s)
     in map_option (\<lambda>s. (status_changed, s)) (ar_update_timer s))"

text \<open>The body of \<open>handle_data_pdu\<close>: whether the status changed, and whether it was requested.\<close>

definition ar_data_pdu_body :: "(nat \<Rightarrow> bool) \<Rightarrow> bytes \<Rightarrow> rlc_rx_am \<Rightarrow> (bool \<times> bool \<times> rlc_rx_am) option" where
  "ar_data_pdu_body ok buf s =
    (case rlc_am_read_data_pdu_header buf (ra_sn_field_length (ar_cfg s)) of
       None \<Rightarrow> Some (False, False, ar_add_malformed_pdus 1 s)
     | Some h \<Rightarrow>
         if length buf \<le> am_get_packed_size h then Some (False, False, s)
         else
           let payload = drop (am_get_packed_size h) buf; status_requested = (am_p h \<noteq> 0)
           in if \<not> inside_rx_window s (am_sn h) then Some (False, status_requested, s)
              else if ar_fully_received s (am_sn h) then Some (False, status_requested, s)
              else map_option (\<lambda>(status_changed, s). (status_changed, status_requested, s)) (ar_place ok h payload s))"

definition ar_data_pdu_exit :: "bool \<Rightarrow> bool \<Rightarrow> rlc_rx_am \<Rightarrow> rlc_rx_am option" where
  "ar_data_pdu_exit status_changed status_requested s =
    (case (if status_changed then ar_refresh_status_report s else Some s) of
       None \<Rightarrow> None
     | Some s \<Rightarrow>
         let s = (if status_requested then s\<lparr>ar_do_status := True\<rparr> else s)
         in Some (if status_changed \<or> status_requested then ar_notify_status_report_changed s else s))"

definition ar_handle_data_pdu :: "(nat \<Rightarrow> bool) \<Rightarrow> bytes \<Rightarrow> rlc_rx_am \<Rightarrow> rlc_rx_am option" where
  "ar_handle_data_pdu ok buf s =
    (case ar_data_pdu_body ok buf s of
       None \<Rightarrow> None
     | Some (status_changed, status_requested, s) \<Rightarrow> ar_data_pdu_exit status_changed status_requested s)"

definition ar_handle_pdu :: "(nat \<Rightarrow> bool) \<Rightarrow> bytes \<Rightarrow> rlc_rx_am \<Rightarrow> rlc_rx_am option" where
  "ar_handle_pdu ok buf s =
    (let s = ar_add_pdus 1 (length buf) s
     in if buf = [] then Some s
        else if sp_is_control_pdu buf
        then Some (ar_handle_control_pdu buf (ar_add_ctrl_pdus 1 (word_of_nat (length buf)) s))
        else ar_handle_data_pdu ok buf s)"

section \<open>Timers\<close>

definition ar_on_expired_status_prohibit_timer :: "rlc_rx_am \<Rightarrow> rlc_rx_am" where
  "ar_on_expired_status_prohibit_timer s =
    ar_notify_status_report_changed (s\<lparr>ar_status_prohibit_timer_is_running := False\<rparr>)"

definition ar_on_expired_reassembly_timer :: "rlc_rx_am \<Rightarrow> rlc_rx_am option" where
  "ar_on_expired_reassembly_timer s =
    (if ar_reassembly_timer s then Some s
     else if \<not> ar_valid_ack_sn s (ar_next_status_trigger s) then Some s
     else
       let sn_upd = ar_skip_received (unat (ar_mod s)) (ar_next_status_trigger s) s
       in if \<not> ar_valid_ack_sn s sn_upd then None
          else
            let s = s\<lparr>ar_highest_status := sn_upd\<rparr>; s = ar_restart_timer (ar_highest_status s) s
            in case ar_refresh_status_report s of
                 None \<Rightarrow> None
               | Some s \<Rightarrow> Some (ar_notify_status_report_changed (s\<lparr>ar_do_status := True\<rparr>)))"

text \<open>The expiry of a timer that is running.\<close>

definition ar_reassembly_timer_expires :: "rlc_rx_am \<Rightarrow> rlc_rx_am option" where
  "ar_reassembly_timer_expires s = ar_on_expired_reassembly_timer (s\<lparr>ar_reassembly_timer := False\<rparr>)"

definition ar_status_prohibit_timer_expires :: "rlc_rx_am \<Rightarrow> rlc_rx_am" where
  "ar_status_prohibit_timer_expires s = ar_on_expired_status_prohibit_timer (s\<lparr>ar_status_prohibit_timer := False\<rparr>)"

end
