(* ===== verification/Rlc_Retx_Queue.thy ===== *)
theory Rlc_Retx_Queue
  imports Rlc_Am_Pdu
begin

text \<open>
  The queue of pending retransmissions of the AM transmitter (\<open>lib/rlc/rlc_retx_queue.h\<close>). An element is withdrawn by
  marking it; marked elements are dropped once they reach the front. Byte and element counters are kept beside the
  queue. The section on refinement shows that the queue is a bounded list of ranges whose counters are its totals.
\<close>

section \<open>State\<close>

record rlc_tx_amd_retx =
  rx_sn :: u32
  rx_so :: u32
  rx_length :: u32

definition rx_includes :: "rlc_tx_amd_retx \<Rightarrow> u32 \<Rightarrow> u32 \<Rightarrow> bool" where
  "rx_includes r segment_offset segment_length \<longleftrightarrow>
    segment_offset \<ge> rx_so r \<and> segment_offset + segment_length \<le> rx_so r + rx_length r"

record rlc_retx_queue_state =
  retx_bytes :: u32
  n_retx_so_zero :: u32
  n_retx_so_nonzero :: u32

definition rqs_new :: rlc_retx_queue_state where
  "rqs_new = \<lparr>retx_bytes = 0, n_retx_so_zero = 0, n_retx_so_nonzero = 0\<rparr>"

definition rqs_add :: "rlc_tx_amd_retx \<Rightarrow> rlc_retx_queue_state \<Rightarrow> rlc_retx_queue_state" where
  "rqs_add r st =
    (let st = st\<lparr>retx_bytes := retx_bytes st + rx_length r\<rparr>
     in if rx_so r = 0 then st\<lparr>n_retx_so_zero := n_retx_so_zero st + 1\<rparr>
        else st\<lparr>n_retx_so_nonzero := n_retx_so_nonzero st + 1\<rparr>)"

definition rqs_subtract :: "rlc_tx_amd_retx \<Rightarrow> rlc_retx_queue_state \<Rightarrow> rlc_retx_queue_state" where
  "rqs_subtract r st =
    (let st = st\<lparr>retx_bytes := (if retx_bytes st \<ge> rx_length r then retx_bytes st - rx_length r else 0)\<rparr>
     in if rx_so r = 0
        then (if n_retx_so_zero st > 0 then st\<lparr>n_retx_so_zero := n_retx_so_zero st - 1\<rparr> else st)
        else (if n_retx_so_nonzero st > 0 then st\<lparr>n_retx_so_nonzero := n_retx_so_nonzero st - 1\<rparr> else st))"

record rlc_retx_queue_item =
  it_invalid :: bool
  it_retx :: rlc_tx_amd_retx

text \<open>The ring buffer, oldest element first.\<close>

record rlc_retx_queue =
  rq_items :: "rlc_retx_queue_item list"
  rq_capacity :: nat
  rq_st :: rlc_retx_queue_state

definition rq_new :: "nat \<Rightarrow> rlc_retx_queue" where
  "rq_new capacity = \<lparr>rq_items = [], rq_capacity = capacity, rq_st = rqs_new\<rparr>"

section \<open>Operations\<close>

definition rq_size :: "rlc_retx_queue \<Rightarrow> nat" where
  "rq_size q = length (rq_items q)"

definition rq_empty :: "rlc_retx_queue \<Rightarrow> bool" where
  "rq_empty q \<longleftrightarrow> rq_items q = []"

definition rq_try_push :: "rlc_tx_amd_retx \<Rightarrow> rlc_retx_queue \<Rightarrow> bool \<times> rlc_retx_queue" where
  "rq_try_push r q =
    (if rq_size q = rq_capacity q then (False, q)
     else (True, q\<lparr>rq_items := rq_items q @ [\<lparr>it_invalid = False, it_retx = r\<rparr>], rq_st := rqs_add r (rq_st q)\<rparr>))"

fun drop_invalid :: "rlc_retx_queue_item list \<Rightarrow> rlc_retx_queue_item list" where
  "drop_invalid [] = []"
| "drop_invalid (i # is) = (if it_invalid i then drop_invalid is else i # is)"

definition rq_clean_invalid_front :: "rlc_retx_queue \<Rightarrow> rlc_retx_queue" where
  "rq_clean_invalid_front q = q\<lparr>rq_items := drop_invalid (rq_items q)\<rparr>"

definition rq_pop :: "rlc_retx_queue \<Rightarrow> rlc_retx_queue" where
  "rq_pop q =
    (case rq_items q of
       [] \<Rightarrow> q
     | i # is \<Rightarrow> rq_clean_invalid_front (q\<lparr>rq_items := is, rq_st := rqs_subtract (it_retx i) (rq_st q)\<rparr>))"

text \<open>\<open>None\<close>: an assertion fails, because the queue is empty or its front is marked.\<close>

definition rq_front :: "rlc_retx_queue \<Rightarrow> rlc_tx_amd_retx option" where
  "rq_front q = (case rq_items q of [] \<Rightarrow> None | i # _ \<Rightarrow> if it_invalid i then None else Some (it_retx i))"

definition rq_replace_front :: "rlc_tx_amd_retx \<Rightarrow> rlc_retx_queue \<Rightarrow> rlc_retx_queue option" where
  "rq_replace_front r q =
    (case rq_items q of
       [] \<Rightarrow> None
     | i # is \<Rightarrow>
         if it_invalid i then None
         else Some (q\<lparr>rq_st := rqs_add r (rqs_subtract (it_retx i) (rq_st q)),
                      rq_items := \<lparr>it_invalid = False, it_retx = r\<rparr> # is\<rparr>))"

definition rq_clear :: "rlc_retx_queue \<Rightarrow> rlc_retx_queue" where
  "rq_clear q = q\<lparr>rq_st := rqs_new, rq_items := []\<rparr>"

definition rq_has_sn :: "u32 \<Rightarrow> rlc_retx_queue \<Rightarrow> bool" where
  "rq_has_sn sn q \<longleftrightarrow> (\<exists>i \<in> set (rq_items q). \<not> it_invalid i \<and> rx_sn (it_retx i) = sn)"

definition rq_has_sn_segment :: "u32 \<Rightarrow> u32 \<Rightarrow> u32 \<Rightarrow> rlc_retx_queue \<Rightarrow> bool" where
  "rq_has_sn_segment sn so len q \<longleftrightarrow>
    (\<exists>i \<in> set (rq_items q). \<not> it_invalid i \<and> rx_sn (it_retx i) = sn \<and> rx_includes (it_retx i) so len)"

fun rq_mark_sn :: "u32 \<Rightarrow> rlc_retx_queue_item list \<Rightarrow> rlc_retx_queue_state \<Rightarrow>
    bool \<times> rlc_retx_queue_item list \<times> rlc_retx_queue_state" where
  "rq_mark_sn sn [] st = (False, [], st)"
| "rq_mark_sn sn (i # is) st =
    (if \<not> it_invalid i \<and> rx_sn (it_retx i) = sn
     then (case rq_mark_sn sn is (rqs_subtract (it_retx i) st) of (_, is, st) \<Rightarrow> (True, i\<lparr>it_invalid := True\<rparr> # is, st))
     else (case rq_mark_sn sn is st of (found, is, st) \<Rightarrow> (found, i # is, st)))"

definition rq_remove_sn :: "u32 \<Rightarrow> rlc_retx_queue \<Rightarrow> bool \<times> rlc_retx_queue" where
  "rq_remove_sn sn q =
    (if rq_empty q then (False, q)
     else case rq_mark_sn sn (rq_items q) (rq_st q) of
       (found, is, st) \<Rightarrow> (found, rq_clean_invalid_front (q\<lparr>rq_items := is, rq_st := st\<rparr>)))"

section \<open>Refinement\<close>

text \<open>The queue stands for the list of its unmarked elements, and its counters are the totals over that list.\<close>

definition rq_abs :: "rlc_retx_queue \<Rightarrow> rlc_tx_amd_retx list" where
  "rq_abs q = map it_retx (filter (\<lambda>i. \<not> it_invalid i) (rq_items q))"

definition retx_total :: "rlc_tx_amd_retx list \<Rightarrow> nat" where
  "retx_total rs = (\<Sum>r\<leftarrow>rs. unat (rx_length r))"

definition retx_count :: "bool \<Rightarrow> rlc_tx_amd_retx list \<Rightarrow> nat" where
  "retx_count zero rs = length (filter (\<lambda>r. (rx_so r = 0) = zero) rs)"

definition rqs_totals :: "rlc_tx_amd_retx list \<Rightarrow> rlc_retx_queue_state \<Rightarrow> bool" where
  "rqs_totals rs st \<longleftrightarrow> unat (retx_bytes st) = retx_total rs \<and> unat (n_retx_so_zero st) = retx_count True rs \<and>
    unat (n_retx_so_nonzero st) = retx_count False rs"

definition rq_inv :: "rlc_retx_queue \<Rightarrow> bool" where
  "rq_inv q \<longleftrightarrow> rqs_totals (rq_abs q) (rq_st q) \<and> length (rq_items q) \<le> rq_capacity q \<and> rq_capacity q < 2 ^ 32 \<and>
    (rq_items q \<noteq> [] \<longrightarrow> \<not> it_invalid (hd (rq_items q)))"

lemma retx_total_simps [simp]:
  "retx_total [] = 0" "retx_total (r # rs) = unat (rx_length r) + retx_total rs" "retx_total (rs @ ss) = retx_total rs + retx_total ss"
  by (simp_all add: retx_total_def)

lemma retx_count_simps [simp]:
  "retx_count z [] = 0" "retx_count z (r # rs) = (if (rx_so r = 0) = z then 1 else 0) + retx_count z rs"
  "retx_count z (rs @ ss) = retx_count z rs + retx_count z ss"
  by (simp_all add: retx_count_def)

lemma retx_count_le: "retx_count z rs \<le> length rs"
  by (simp add: retx_count_def)

lemma retx_total_shuffle: "retx_total (rs @ r # ss) = unat (rx_length r) + retx_total (rs @ ss)"
  by simp

lemma totals_swap: "rqs_totals (rs @ r # ss) st = rqs_totals (r # rs @ ss) st"
  by (simp add: rqs_totals_def add.left_commute)

lemma totals_add:
  assumes "rqs_totals rs st" "retx_total (r # rs) < 2 ^ 32" "Suc (length rs) < 2 ^ 32"
  shows "rqs_totals (r # rs) (rqs_add r st)"
proof -
  have add: "unat (x + y) = unat x + unat y" if "unat x + unat y < 2 ^ 32" for x y :: u32
    using that by (simp add: unat_word_ariths)
  have c: "retx_count z rs + 1 < 2 ^ 32" for z using retx_count_le [of z rs] assms(3) by linarith
  show ?thesis
    using assms(1,2) add [of "retx_bytes st" "rx_length r"] add [of "n_retx_so_zero st" 1] add [of "n_retx_so_nonzero st" 1]
      c [of True] c [of False]
    by (auto simp: rqs_totals_def rqs_add_def Let_def)
qed

lemma totals_subtract:
  assumes "rqs_totals (r # rs) st"
  shows "rqs_totals rs (rqs_subtract r st)"
proof -
  have sub: "unat (x - y) = unat x - unat y" if "y \<le> x" for x y :: u32 using that by (rule unat_sub)
  have ge: "rx_length r \<le> retx_bytes st" using assms by (simp add: rqs_totals_def word_le_nat_alt)
  have pos: "x > 0" "1 \<le> x" if "unat x = 1 + n" for x :: u32 and n using that by (simp_all add: word_less_nat_alt word_le_nat_alt)
  show ?thesis
    using assms ge sub [OF ge] pos [of "n_retx_so_zero st"] pos [of "n_retx_so_nonzero st"] sub [of 1 "n_retx_so_zero st"]
      sub [of 1 "n_retx_so_nonzero st"]
    by (auto simp: rqs_totals_def rqs_subtract_def Let_def split: if_splits)
qed

lemma rq_abs_drop [simp]: "filter (\<lambda>i. \<not> it_invalid i) (drop_invalid is) = filter (\<lambda>i. \<not> it_invalid i) is"
  by (induction "is") auto

lemma drop_invalid_front: "drop_invalid is \<noteq> [] \<Longrightarrow> \<not> it_invalid (hd (drop_invalid is))"
  by (induction "is") (auto split: if_splits)

lemma drop_invalid_length: "length (drop_invalid is) \<le> length is"
  by (induction "is") auto

lemma rq_abs_length: "length (rq_abs q) \<le> length (rq_items q)"
  by (simp add: rq_abs_def)

lemma clean_inv:
  assumes "rqs_totals (rq_abs q) (rq_st q)" "length (rq_items q) \<le> rq_capacity q" "rq_capacity q < 2 ^ 32"
  shows "rq_inv (rq_clean_invalid_front q) \<and> rq_abs (rq_clean_invalid_front q) = rq_abs q"
  using assms drop_invalid_front [of "rq_items q"] drop_invalid_length [of "rq_items q"]
  by (auto simp: rq_inv_def rq_clean_invalid_front_def rq_abs_def)

lemma rq_new_spec: "capacity < 2 ^ 32 \<Longrightarrow> rq_inv (rq_new capacity)" "rq_abs (rq_new capacity) = []"
  by (simp_all add: rq_inv_def rq_new_def rq_abs_def rqs_totals_def rqs_new_def)

lemma rq_clear_spec: "rq_inv q \<Longrightarrow> rq_inv (rq_clear q)" "rq_abs (rq_clear q) = []"
  by (simp_all add: rq_inv_def rq_clear_def rq_abs_def rqs_totals_def rqs_new_def)

lemma rq_empty_spec: "rq_inv q \<Longrightarrow> rq_empty q \<longleftrightarrow> rq_abs q = []"
  by (cases "rq_items q") (auto simp: rq_inv_def rq_empty_def rq_abs_def)

lemma rq_front_spec: "rq_inv q \<Longrightarrow> rq_front q = (case rq_abs q of [] \<Rightarrow> None | r # _ \<Rightarrow> Some r)"
  by (cases "rq_items q") (auto simp: rq_inv_def rq_front_def rq_abs_def)

lemma rq_push_spec:
  assumes "rq_inv q" "rq_try_push r q = (ok, q')" "retx_total (r # rq_abs q) < 2 ^ 32"
  shows "rq_inv q' \<and> rq_capacity q' = rq_capacity q \<and>
    rq_abs q' = (if ok then rq_abs q @ [r] else rq_abs q) \<and> (ok \<longleftrightarrow> length (rq_items q) < rq_capacity q)"
proof (cases ok)
  case False
  then show ?thesis using assms by (auto simp: rq_try_push_def rq_size_def split: if_splits)
next
  case True
  then have q': "q' = q\<lparr>rq_items := rq_items q @ [\<lparr>it_invalid = False, it_retx = r\<rparr>], rq_st := rqs_add r (rq_st q)\<rparr>"
    and n: "length (rq_items q) \<noteq> rq_capacity q"
    using assms(2) by (auto simp: rq_try_push_def rq_size_def split: if_splits)
  have abs: "rq_abs q' = rq_abs q @ [r]" by (simp add: q' rq_abs_def)
  have l: "Suc (length (rq_abs q)) < 2 ^ 32" using assms(1) n rq_abs_length [of q] by (simp add: rq_inv_def)
  have "rqs_totals (rq_abs q @ [r]) (rqs_add r (rq_st q))"
    unfolding totals_swap [of "rq_abs q" r "[]"] using totals_add [of "rq_abs q" "rq_st q" r] assms(1,3) l by (simp add: rq_inv_def)
  then show ?thesis using True assms(1) n abs by (cases "rq_items q") (auto simp: rq_inv_def q')
qed

lemma rq_pop_spec:
  assumes "rq_inv q"
  shows "rq_inv (rq_pop q) \<and> rq_abs (rq_pop q) = tl (rq_abs q) \<and> rq_capacity (rq_pop q) = rq_capacity q"
proof (cases "rq_items q")
  case Nil
  then show ?thesis using assms by (simp add: rq_pop_def rq_abs_def)
next
  case (Cons i "is")
  let ?q = "q\<lparr>rq_items := is, rq_st := rqs_subtract (it_retx i) (rq_st q)\<rparr>"
  have abs: "rq_abs q = it_retx i # rq_abs ?q" using assms Cons by (simp add: rq_abs_def rq_inv_def)
  then have "rqs_totals (rq_abs ?q) (rq_st ?q)" using assms totals_subtract [of "it_retx i"] by (simp add: rq_inv_def)
  moreover have "rq_pop q = rq_clean_invalid_front ?q" by (simp add: rq_pop_def Cons)
  ultimately show ?thesis using clean_inv [of ?q] assms Cons abs
    by (simp add: rq_inv_def rq_clean_invalid_front_def [of ?q])
qed

lemma rq_replace_spec:
  assumes "rq_inv q" "rq_abs q = f # rs" "retx_total (r # rs) < 2 ^ 32"
  shows "\<exists>q'. rq_replace_front r q = Some q' \<and> rq_inv q' \<and> rq_abs q' = r # rs \<and> rq_capacity q' = rq_capacity q"
proof -
  obtain i "is" where i: "rq_items q = i # is" using assms(2) by (cases "rq_items q") (auto simp: rq_abs_def)
  then have v: "\<not> it_invalid i" using assms(1) by (simp add: rq_inv_def)
  then have f: "it_retx i = f" "rs = map it_retx (filter (\<lambda>i. \<not> it_invalid i) is)" using assms(2) i by (auto simp: rq_abs_def)
  have "length (f # rs) < 2 ^ 32" using assms(1) rq_abs_length [of q] unfolding assms(2) by (simp add: rq_inv_def)
  then have "rqs_totals (r # rs) (rqs_add r (rqs_subtract f (rq_st q)))"
    using totals_add totals_subtract [of f rs] assms by (simp add: rq_inv_def)
  then show ?thesis using i v f assms(1) by (simp add: rq_replace_front_def rq_inv_def rq_abs_def)
qed

lemma mark_spec:
  assumes "rq_mark_sn sn is st = (found, is', st')"
    and "rqs_totals (rs @ map it_retx (filter (\<lambda>i. \<not> it_invalid i) is)) st"
  shows "map it_retx (filter (\<lambda>i. \<not> it_invalid i) is') =
      filter (\<lambda>r. rx_sn r \<noteq> sn) (map it_retx (filter (\<lambda>i. \<not> it_invalid i) is)) \<and>
    rqs_totals (rs @ map it_retx (filter (\<lambda>i. \<not> it_invalid i) is')) st' \<and> length is' = length is \<and>
    (found \<longleftrightarrow> (\<exists>i \<in> set is. \<not> it_invalid i \<and> rx_sn (it_retx i) = sn))"
  using assms
proof (induction sn "is" st arbitrary: rs found is' st' rule: rq_mark_sn.induct)
  case (2 sn i "is" st)
  show ?case
  proof (cases "\<not> it_invalid i \<and> rx_sn (it_retx i) = sn")
    case True
    obtain f js st1 where m: "rq_mark_sn sn is (rqs_subtract (it_retx i) st) = (f, js, st1)" by (metis prod_cases3)
    have "rqs_totals (rs @ map it_retx (filter (\<lambda>i. \<not> it_invalid i) is)) (rqs_subtract (it_retx i) st)"
      using "2.prems"(2) True by (intro totals_subtract) (simp add: totals_swap)
    from "2.IH"(1) [OF True m this] show ?thesis using "2.prems"(1) True m by auto
  next
    case False
    obtain f js st1 where m: "rq_mark_sn sn is st = (f, js, st1)" by (metis prod_cases3)
    have e: "f = found" "is' = i # js" "st1 = st'" using "2.prems"(1) False m by (auto split: if_splits)
    show ?thesis
    proof (cases "it_invalid i")
      case True
      with "2.IH"(2) [OF False m, of rs] "2.prems"(2) show ?thesis by (auto simp: e)
    next
      case inv: False
      with "2.IH"(2) [OF False m, of "rs @ [it_retx i]"] "2.prems"(2) False show ?thesis by (auto simp: e)
    qed
  qed
qed simp

lemma rq_remove_spec:
  assumes "rq_inv q" "rq_remove_sn sn q = (found, q')"
  shows "rq_inv q' \<and> rq_abs q' = filter (\<lambda>r. rx_sn r \<noteq> sn) (rq_abs q) \<and> (found \<longleftrightarrow> rq_has_sn sn q)"
proof (cases "rq_items q")
  case Nil
  then show ?thesis using assms by (simp add: rq_remove_sn_def rq_empty_def rq_abs_def rq_has_sn_def)
next
  case Cons
  obtain f js st1 where m: "rq_mark_sn sn (rq_items q) (rq_st q) = (f, js, st1)" by (metis prod_cases3)
  let ?q = "q\<lparr>rq_items := js, rq_st := st1\<rparr>"
  have t: "rqs_totals ([] @ map it_retx (filter (\<lambda>i. \<not> it_invalid i) (rq_items q))) (rq_st q)"
    using assms(1) by (simp add: rq_inv_def rq_abs_def)
  have q': "found = f" "q' = rq_clean_invalid_front ?q"
    using assms(2) m Cons by (simp_all add: rq_remove_sn_def rq_empty_def)
  note s = mark_spec [OF m t]
  have "rqs_totals ([] @ map it_retx (filter (\<lambda>i. \<not> it_invalid i) js)) st1" using s by blast
  then have "rqs_totals (rq_abs ?q) (rq_st ?q)" by (simp add: rq_abs_def)
  then have "rq_inv q' \<and> rq_abs q' = rq_abs ?q"
    unfolding q' by (rule clean_inv) (use s assms(1) in \<open>simp_all add: rq_inv_def\<close>)
  then show ?thesis using s by (simp add: q'(1) rq_abs_def rq_has_sn_def)
qed

section \<open>A queue behaves as a list\<close>

text \<open>The operations that change the queue, and what they do to a list; a push may be refused, because marked elements take room.\<close>

datatype rq_op = Rq_push rlc_tx_amd_retx | Rq_pop | Rq_replace rlc_tx_amd_retx | Rq_remove u32 | Rq_clear

definition rq_do :: "rq_op \<Rightarrow> rlc_retx_queue \<Rightarrow> rlc_retx_queue option" where
  "rq_do a q = (case a of
      Rq_push r \<Rightarrow> Some (snd (rq_try_push r q))
    | Rq_pop \<Rightarrow> Some (rq_pop q)
    | Rq_replace r \<Rightarrow> rq_replace_front r q
    | Rq_remove sn \<Rightarrow> Some (snd (rq_remove_sn sn q))
    | Rq_clear \<Rightarrow> Some (rq_clear q))"

fun rq_run :: "rq_op list \<Rightarrow> rlc_retx_queue \<Rightarrow> rlc_retx_queue option" where
  "rq_run [] q = Some q"
| "rq_run (a # as) q = (case rq_do a q of None \<Rightarrow> None | Some q' \<Rightarrow> rq_run as q')"

inductive retx_list_run :: "nat \<Rightarrow> rq_op list \<Rightarrow> rlc_tx_amd_retx list \<Rightarrow> rlc_tx_amd_retx list \<Rightarrow> bool" for capacity where
  list_done: "retx_list_run capacity [] rs rs"
| list_push: "length rs < capacity \<Longrightarrow> retx_list_run capacity as (rs @ [r]) ss \<Longrightarrow> retx_list_run capacity (Rq_push r # as) rs ss"
| list_refuse: "retx_list_run capacity as rs ss \<Longrightarrow> retx_list_run capacity (Rq_push r # as) rs ss"
| list_pop: "retx_list_run capacity as (tl rs) ss \<Longrightarrow> retx_list_run capacity (Rq_pop # as) rs ss"
| list_replace: "retx_list_run capacity as (r # tl rs) ss \<Longrightarrow> rs \<noteq> [] \<Longrightarrow> retx_list_run capacity (Rq_replace r # as) rs ss"
| list_remove: "retx_list_run capacity as (filter (\<lambda>r. rx_sn r \<noteq> sn) rs) ss \<Longrightarrow> retx_list_run capacity (Rq_remove sn # as) rs ss"
| list_clear: "retx_list_run capacity as [] ss \<Longrightarrow> retx_list_run capacity (Rq_clear # as) rs ss"

text \<open>Lengths below \<open>2 ^ 15\<close> cannot overflow the counter of bytes.\<close>

definition retx_small :: "rlc_tx_amd_retx list \<Rightarrow> bool" where
  "retx_small rs \<longleftrightarrow> (\<forall>r \<in> set rs. unat (rx_length r) < 2 ^ 15)"

definition op_small :: "rq_op \<Rightarrow> bool" where
  "op_small a \<longleftrightarrow> (case a of Rq_push r \<Rightarrow> retx_small [r] | Rq_replace r \<Rightarrow> retx_small [r] | _ \<Rightarrow> True)"

lemma small_total:
  assumes "retx_small rs" "length rs \<le> 131073"
  shows "retx_total rs < 2 ^ 32"
proof -
  have "retx_total rs \<le> length rs * 32767" using assms(1) by (induction rs) (auto simp: retx_small_def)
  also have "\<dots> \<le> 131073 * 32767" using assms(2) by simp
  finally show ?thesis by simp
qed

text \<open>One operation.\<close>

lemma do_spec:
  assumes "rq_inv q" "rq_capacity q \<le> 131072" "retx_small (rq_abs q)" "op_small a" "rq_do a q = Some q'"
  shows "rq_inv q' \<and> rq_capacity q' = rq_capacity q \<and> retx_small (rq_abs q') \<and>
    (\<forall>as ss. retx_list_run (rq_capacity q) as (rq_abs q') ss \<longrightarrow> retx_list_run (rq_capacity q) (a # as) (rq_abs q) ss)"
proof -
  have len: "length (rq_abs q) \<le> 131072" using assms(1,2) rq_abs_length [of q] by (simp add: rq_inv_def)
  show ?thesis
  proof (cases a)
    case (Rq_push r)
    obtain ok q1 where p: "rq_try_push r q = (ok, q1)" by fastforce
    have "retx_total (r # rq_abs q) < 2 ^ 32"
      using assms(3,4) len Rq_push by (intro small_total) (simp_all add: retx_small_def op_small_def)
    note s = rq_push_spec [OF assms(1) p this]
    have "length (rq_abs q) < rq_capacity q" if ok using s that rq_abs_length [of q] by linarith
    then show ?thesis using s p assms(3-5) Rq_push by (cases ok) (auto simp: rq_do_def retx_small_def op_small_def intro: list_push list_refuse)
  next
    case Rq_pop
    then show ?thesis using rq_pop_spec [OF assms(1)] assms(3,5)
      by (cases "rq_abs q") (auto simp: rq_do_def retx_small_def intro: list_pop)
  next
    case (Rq_replace r)
    obtain f rs where f: "rq_abs q = f # rs"
      using assms(1,5) Rq_replace rq_front_spec [OF assms(1)]
      by (cases "rq_abs q") (auto simp: rq_do_def rq_replace_front_def rq_front_def split: list.splits if_splits)
    have "retx_total (r # rs) < 2 ^ 32"
      using assms(3,4) len Rq_replace f by (intro small_total) (simp_all add: retx_small_def op_small_def)
    from rq_replace_spec [OF assms(1) f this] show ?thesis
      using assms(3-5) Rq_replace f list_replace [of "rq_capacity q" _ r "f # rs"] by (auto simp: rq_do_def retx_small_def op_small_def)
  next
    case (Rq_remove sn)
    obtain b q1 where r: "rq_remove_sn sn q = (b, q1)" by fastforce
    have "rq_capacity q1 = rq_capacity q" using r
      by (auto simp: rq_remove_sn_def rq_clean_invalid_front_def split: if_splits prod.splits)
    then show ?thesis using rq_remove_spec [OF assms(1) r] r assms(3,5) Rq_remove by (auto simp: rq_do_def retx_small_def intro: list_remove)
  next
    case Rq_clear
    then show ?thesis using rq_clear_spec assms(1,5) by (auto simp: rq_do_def retx_small_def rq_clear_def intro: list_clear)
  qed
qed

lemma run_spec:
  assumes "rq_inv q" "rq_capacity q \<le> 131072" "retx_small (rq_abs q)" "\<forall>a \<in> set as. op_small a" "rq_run as q = Some q'"
  shows "rq_inv q' \<and> retx_list_run (rq_capacity q) as (rq_abs q) (rq_abs q')"
  using assms
proof (induction as arbitrary: q)
  case Nil
  then show ?case by (simp add: list_done)
next
  case (Cons a as)
  obtain q1 where q1: "rq_do a q = Some q1" "rq_run as q1 = Some q'" using Cons.prems(5) by (auto split: option.splits)
  have "op_small a" using Cons.prems(4) by simp
  note d = do_spec [OF Cons.prems(1-3) this q1(1)]
  then show ?case using Cons.IH [of q1] Cons.prems(2,4) q1(2) by auto
qed

text \<open>C16. The queue of retransmissions refines a list. Removal by sequence number only marks elements and leaves them in place until they reach the front, yet
  after any sequence of operations the queue behaves as the list in which they are gone: \<open>front\<close> is its first element, \<open>empty\<close> and
  \<open>has_sn\<close> speak of it, and the counters of bytes and of retransmissions with and without offset are its totals. Replacing the
  front fails exactly on the empty list.\<close>

theorem retx_queue_refines_list:
  assumes "capacity \<le> 131072" "\<forall>a \<in> set as. op_small a" "rq_run as (rq_new capacity) = Some q"
  shows "\<exists>rs. retx_list_run capacity as [] rs \<and> rq_front q = (case rs of [] \<Rightarrow> None | r # _ \<Rightarrow> Some r) \<and> (rq_empty q \<longleftrightarrow> rs = []) \<and>
    (\<forall>sn. rq_has_sn sn q \<longleftrightarrow> sn \<in> rx_sn ` set rs) \<and> (\<forall>r. rq_replace_front r q = None \<longleftrightarrow> rs = []) \<and>
    unat (retx_bytes (rq_st q)) = retx_total rs \<and> unat (n_retx_so_zero (rq_st q)) = retx_count True rs \<and>
    unat (n_retx_so_nonzero (rq_st q)) = retx_count False rs"
proof -
  have new: "rq_inv (rq_new capacity)" "rq_abs (rq_new capacity) = []" "rq_capacity (rq_new capacity) = capacity"
    using rq_new_spec [of capacity] assms(1) by (simp_all add: rq_new_def)
  have q: "rq_inv q" "retx_list_run capacity as [] (rq_abs q)"
    using run_spec [OF new(1) _ _ assms(2,3)] new assms(1) by (auto simp: retx_small_def)
  have "rq_replace_front r q = None \<longleftrightarrow> rq_abs q = []" for r
    using q(1) by (cases "rq_items q") (auto simp: rq_inv_def rq_replace_front_def rq_abs_def)
  moreover have "rq_has_sn sn q \<longleftrightarrow> sn \<in> rx_sn ` set (rq_abs q)" for sn by (auto simp: rq_has_sn_def rq_abs_def)
  ultimately show ?thesis using q rq_front_spec [OF q(1)] rq_empty_spec [OF q(1)]
    by (intro exI [of _ "rq_abs q"]) (simp add: rq_inv_def rqs_totals_def)
qed

theorem retx_queue_refines_list_witness:
  "\<exists>q rs. rq_run [Rq_push \<lparr>rx_sn = 1, rx_so = 0, rx_length = 3\<rparr>, Rq_push \<lparr>rx_sn = 2, rx_so = 5, rx_length = 4\<rparr>, Rq_remove 1] (rq_new 8) = Some q \<and>
    rq_front q = (case rs of [] \<Rightarrow> None | r # _ \<Rightarrow> Some r) \<and> unat (retx_bytes (rq_st q)) = retx_total rs"
proof -
  let ?as = "[Rq_push \<lparr>rx_sn = 1, rx_so = 0, rx_length = 3\<rparr>, Rq_push \<lparr>rx_sn = 2, rx_so = 5, rx_length = 4\<rparr>, Rq_remove 1]"
  obtain q where q: "rq_run ?as (rq_new 8) = Some q" by (simp add: rq_do_def)
  have small: "\<forall>a \<in> set ?as. op_small a" by (simp add: op_small_def retx_small_def)
  show ?thesis using retx_queue_refines_list [OF _ small q] q by auto
qed

end
