(* ===== verification/Rlc_Am_Tx.thy ===== *)
theory Rlc_Am_Tx
  imports Rlc_Am_Rx Rlc_Retx_Queue Rlc_Um_Tx
begin

text \<open>
  The transmitting RLC AM entity (\<open>lib/rlc/rlc_tx_am_entity.cpp\<close>, \<open>rlc_tx_am_entity.h\<close>), with the recycler of released
  SDUs (\<open>rlc_pdu_recycler.h\<close>). The mutex makes each operation atomic. The status provider is the receiving entity of the
  same bearer, so the operations that ask it take its state \<open>rx\<close>. The result \<open>None\<close> of an operation is an assertion
  of the code that fails (\<open>operator[]\<close> of the window, \<open>front\<close> of the queue of retransmissions), which ends the process.
  Tasks that the entity hands to an executor are kept until a \<open>run\<close> operation executes them; for a deferred
  \<open>on_protocol_failure\<close> the request is what the trace records. Latencies and the clock are left out.
\<close>

section \<open>Recycler\<close>

text \<open>The three pointers to bins are only ever swapped: a field holds what its pointer points to.\<close>

record pdu_recycler =
  bin_to_fill :: "bytes list"
  bin_to_swap :: "bytes list"
  bin_to_dump :: "bytes list"
  bin_capacity :: nat

definition rlc_pdu_recycler_new :: "nat \<Rightarrow> pdu_recycler" where
  "rlc_pdu_recycler_new ws =
    \<lparr>bin_to_fill = [], bin_to_swap = [], bin_to_dump = [], bin_capacity = ws\<rparr>"

definition add_discarded_pdu :: "bytes \<Rightarrow> pdu_recycler \<Rightarrow> bool \<times> pdu_recycler" where
  "add_discarded_pdu pdu r =
    (if length (bin_to_fill r) \<ge> bin_capacity r then (False, r)
     else (True, r\<lparr>bin_to_fill := bin_to_fill r @ [pdu]\<rparr>))"

text \<open>The part of \<open>clear_by_executor\<close> before the task, and the task.\<close>

definition recycler_swap :: "pdu_recycler \<Rightarrow> pdu_recycler" where
  "recycler_swap r = r\<lparr>bin_to_fill := bin_to_swap r, bin_to_swap := bin_to_fill r\<rparr>"

definition recycler_clear :: "pdu_recycler \<Rightarrow> pdu_recycler" where
  "recycler_clear r =
    (let r = r\<lparr>bin_to_swap := bin_to_dump r, bin_to_dump := bin_to_swap r\<rparr> in r\<lparr>bin_to_dump := []\<rparr>)"

section \<open>State\<close>

record rlc_tx_am_config =
  ta_sn_field_length :: rlc_am_sn_size
  ta_pdcp_sn_len :: pdcp_sn_size
  ta_t_poll_retx :: int
  ta_max_retx_thresh :: u32
  ta_poll_pdu :: int
  ta_poll_byte :: int
  ta_queue_size :: u32
  ta_queue_size_bytes :: u32
  ta_max_window :: u32

definition RETX_COUNT_NOT_STARTED :: u32 where
  "RETX_COUNT_NOT_STARTED = 0xffffffff"

record rlc_tx_am_sdu_info =
  ti_sdu :: bytes
  ti_is_retx :: bool
  ti_pdcp_sn :: "u32 option"
  ti_next_so :: u32
  ti_retx_count :: u32

record rlc_am_tx_metrics =
  lm_num_pdus_no_segmentation :: u32
  lm_num_pdu_bytes_no_segmentation :: u64
  lm_num_of_pulled_sdus :: u32
  lm_num_pdus_with_segmentation :: u32
  lm_num_pdu_bytes_with_segmentation :: u32
  lm_num_retx_pdus :: u32
  lm_num_retx_pdu_bytes :: u32
  lm_num_ctrl_pdus :: u32
  lm_num_ctrl_pdu_bytes :: u32

datatype am_tx_output =
    At_on_transmitted_sdu u32 u32
  | At_on_retransmitted_sdu u32
  | At_on_delivered_sdu u32
  | At_on_delivered_retransmitted_sdu u32
  | At_on_protocol_failure
  | At_defer_protocol_failure
  | At_on_max_retx
  | At_on_buffer_state_update u32

record rlc_tx_am =
  at_cfg :: rlc_tx_am_config
  at_is_srb :: bool
  at_next_ack :: u32
  at_next :: u32
  at_poll_sn :: u32
  at_pdu_without_poll :: u32
  at_byte_without_poll :: u32
  at_queue :: sdu_queue
  at_sn_under_segmentation :: u32
  at_retx_queue :: rlc_retx_queue
  at_retx_sn :: u32
  at_window :: "(32 word, rlc_tx_am_sdu_info) circular_map"
  at_recycler :: pdu_recycler
  at_poll_retransmit_timer :: bool
  at_poll_retransmit_timer_expired :: bool
  at_prev_buffer_state :: u32
  at_pending_buffer_state :: bool
  at_updates :: nat
  at_status_tasks :: "rlc_am_status_pdu list"
  at_clear_tasks :: nat
  at_metrics_enabled :: bool
  at_metrics_high :: rlc_tx_metrics_high
  at_metrics_low :: rlc_am_tx_metrics
  at_out :: "am_tx_output list"

definition at_mod :: "rlc_tx_am \<Rightarrow> u32" where
  "at_mod s = am_modulus (ta_sn_field_length (at_cfg s))"

definition at_window_size :: "rlc_tx_am \<Rightarrow> u32" where
  "at_window_size s = am_window_size_of (ta_sn_field_length (at_cfg s))"

definition head_min_size :: "rlc_tx_am \<Rightarrow> nat" where
  "head_min_size s = rlc_am_pdu_header_min_size (ta_sn_field_length (at_cfg s))"

definition head_max_size :: "rlc_tx_am \<Rightarrow> nat" where
  "head_max_size s = rlc_am_pdu_header_max_size (ta_sn_field_length (at_cfg s))"

definition at_create_tx_window :: "rlc_am_sn_size \<Rightarrow> (32 word, rlc_tx_am_sdu_info) circular_map" where
  "at_create_tx_window sz = cm_new (unat (am_window_size_of sz))"

text \<open>\<open>None\<close>: the assertion on the length of the PDCP SN fails.\<close>

definition rlc_tx_am_entity :: "bool \<Rightarrow> bool \<Rightarrow> rlc_tx_am_config \<Rightarrow> rlc_tx_am option" where
  "rlc_tx_am_entity metrics_enabled is_srb cfg =
    (let ws = unat (am_window_size_of (ta_sn_field_length cfg))
     in if ta_pdcp_sn_len cfg = size12bits \<or> ta_pdcp_sn_len cfg = size18bits then
       Some \<lparr>at_cfg = cfg, at_is_srb = is_srb, at_next_ack = 0, at_next = 0, at_poll_sn = 0, at_pdu_without_poll = 0,
         at_byte_without_poll = 0, at_queue = sq_new (unat (ucast (ta_queue_size cfg) :: u16)) (ta_queue_size_bytes cfg),
         at_sn_under_segmentation = INVALID_RLC_SN, at_retx_queue = rq_new ws, at_retx_sn = INVALID_RLC_SN,
         at_window = at_create_tx_window (ta_sn_field_length cfg), at_recycler = rlc_pdu_recycler_new ws,
         at_poll_retransmit_timer = False, at_poll_retransmit_timer_expired = False, at_prev_buffer_state = 0,
         at_pending_buffer_state = False, at_updates = 0, at_status_tasks = [], at_clear_tasks = 0,
         at_metrics_enabled = metrics_enabled,
         at_metrics_high = \<lparr>hi_num_sdus = 0, hi_num_sdu_bytes = 0, hi_num_dropped_sdus = 0, hi_num_discarded_sdus = 0,
           hi_num_discard_failures = 0\<rparr>,
         at_metrics_low = \<lparr>lm_num_pdus_no_segmentation = 0, lm_num_pdu_bytes_no_segmentation = 0, lm_num_of_pulled_sdus = 0,
           lm_num_pdus_with_segmentation = 0, lm_num_pdu_bytes_with_segmentation = 0, lm_num_retx_pdus = 0,
           lm_num_retx_pdu_bytes = 0, lm_num_ctrl_pdus = 0, lm_num_ctrl_pdu_bytes = 0\<rparr>,
         at_out = []\<rparr>
     else None)"

definition at_stop :: "rlc_tx_am \<Rightarrow> rlc_tx_am" where
  "at_stop s = s\<lparr>at_poll_retransmit_timer := False\<rparr>"

definition at_emit :: "am_tx_output \<Rightarrow> rlc_tx_am \<Rightarrow> rlc_tx_am" where
  "at_emit e s = s\<lparr>at_out := at_out s @ [e]\<rparr>"

definition at_assign :: "u32 \<Rightarrow> rlc_tx_am_sdu_info \<Rightarrow> rlc_tx_am \<Rightarrow> rlc_tx_am" where
  "at_assign sn i s = s\<lparr>at_window := cm_assign (at_window s) sn i\<rparr>"

section \<open>Metrics\<close>

definition at_high :: "(rlc_tx_metrics_high \<Rightarrow> rlc_tx_metrics_high) \<Rightarrow> rlc_tx_am \<Rightarrow> rlc_tx_am" where
  "at_high f s = (if \<not> at_metrics_enabled s then s else s\<lparr>at_metrics_high := f (at_metrics_high s)\<rparr>)"

definition at_low :: "(rlc_am_tx_metrics \<Rightarrow> rlc_am_tx_metrics) \<Rightarrow> rlc_tx_am \<Rightarrow> rlc_tx_am" where
  "at_low f s = (if \<not> at_metrics_enabled s then s else s\<lparr>at_metrics_low := f (at_metrics_low s)\<rparr>)"

definition at_add_sdus :: "u32 \<Rightarrow> nat \<Rightarrow> rlc_tx_am \<Rightarrow> rlc_tx_am" where
  "at_add_sdus n bytes = at_high (\<lambda>m. m\<lparr>hi_num_sdus := hi_num_sdus m + n,
    hi_num_sdu_bytes := hi_num_sdu_bytes m + word_of_nat bytes\<rparr>)"

definition at_add_lost_sdus :: "u32 \<Rightarrow> rlc_tx_am \<Rightarrow> rlc_tx_am" where
  "at_add_lost_sdus n = at_high (\<lambda>m. m\<lparr>hi_num_dropped_sdus := hi_num_dropped_sdus m + n\<rparr>)"

definition at_add_discard :: "u32 \<Rightarrow> rlc_tx_am \<Rightarrow> rlc_tx_am" where
  "at_add_discard n = at_high (\<lambda>m. m\<lparr>hi_num_discarded_sdus := hi_num_discarded_sdus m + n\<rparr>)"

definition at_add_discard_failure :: "u32 \<Rightarrow> rlc_tx_am \<Rightarrow> rlc_tx_am" where
  "at_add_discard_failure n = at_high (\<lambda>m. m\<lparr>hi_num_discard_failures := hi_num_discard_failures m + n\<rparr>)"

definition at_add_pdus_no_segmentation :: "u32 \<Rightarrow> nat \<Rightarrow> rlc_tx_am \<Rightarrow> rlc_tx_am" where
  "at_add_pdus_no_segmentation n bytes = at_low (\<lambda>m. m\<lparr>lm_num_pdus_no_segmentation := lm_num_pdus_no_segmentation m + n,
    lm_num_pdu_bytes_no_segmentation := lm_num_pdu_bytes_no_segmentation m + word_of_nat bytes\<rparr>)"

definition at_add_pulled_sdus :: "u32 \<Rightarrow> rlc_tx_am \<Rightarrow> rlc_tx_am" where
  "at_add_pulled_sdus n = at_low (\<lambda>m. m\<lparr>lm_num_of_pulled_sdus := lm_num_of_pulled_sdus m + n\<rparr>)"

definition at_add_pdus_with_segmentation_am :: "u32 \<Rightarrow> nat \<Rightarrow> rlc_tx_am \<Rightarrow> rlc_tx_am" where
  "at_add_pdus_with_segmentation_am n bytes = at_low (\<lambda>m. m\<lparr>
    lm_num_pdus_with_segmentation := lm_num_pdus_with_segmentation m + n,
    lm_num_pdu_bytes_with_segmentation := lm_num_pdu_bytes_with_segmentation m + word_of_nat bytes\<rparr>)"

definition at_add_retx_pdus :: "u32 \<Rightarrow> nat \<Rightarrow> rlc_tx_am \<Rightarrow> rlc_tx_am" where
  "at_add_retx_pdus n bytes = at_low (\<lambda>m. m\<lparr>lm_num_retx_pdus := lm_num_retx_pdus m + n,
    lm_num_retx_pdu_bytes := lm_num_retx_pdu_bytes m + word_of_nat bytes\<rparr>)"

definition at_add_ctrl_pdus :: "u32 \<Rightarrow> nat \<Rightarrow> rlc_tx_am \<Rightarrow> rlc_tx_am" where
  "at_add_ctrl_pdus n bytes = at_low (\<lambda>m. m\<lparr>lm_num_ctrl_pdus := lm_num_ctrl_pdus m + n,
    lm_num_ctrl_pdu_bytes := lm_num_ctrl_pdu_bytes m + word_of_nat bytes\<rparr>)"

section \<open>Window helpers\<close>

definition tx_mod_base :: "rlc_tx_am \<Rightarrow> u32 \<Rightarrow> u32" where
  "tx_mod_base s x = (x - at_next_ack s) mod at_mod s"

definition inside_tx_window :: "rlc_tx_am \<Rightarrow> u32 \<Rightarrow> bool" where
  "inside_tx_window s sn \<longleftrightarrow> tx_mod_base s sn < at_window_size s"

definition is_tx_window_full :: "rlc_tx_am \<Rightarrow> bool" where
  "is_tx_window_full s \<longleftrightarrow>
    cm_full (at_window s) \<or> ta_max_window (at_cfg s) \<noteq> 0 \<and> tx_mod_base s (at_next s) > ta_max_window (at_cfg s)"

definition at_valid_ack_sn :: "rlc_tx_am \<Rightarrow> u32 \<Rightarrow> bool" where
  "at_valid_ack_sn s sn \<longleftrightarrow> 0 < tx_mod_base s sn \<and> tx_mod_base s sn \<le> at_window_size s"

text \<open>The check of one NACK; the last two refusals also defer a protocol failure.\<close>

definition nack_last_sn :: "rlc_am_status_nack \<Rightarrow> u32" where
  "nack_last_sn nack = nack_sn nack + ucast (nack_range nack) - 1"

definition at_valid_nack :: "u32 \<Rightarrow> rlc_am_status_nack \<Rightarrow> rlc_tx_am \<Rightarrow> bool \<times> rlc_tx_am" where
  "at_valid_nack ack_sn nack s =
    (if tx_mod_base s (nack_sn nack) \<ge> tx_mod_base s ack_sn then (False, s)
     else if has_nack_range nack \<and> tx_mod_base s (nack_last_sn nack) \<ge> tx_mod_base s ack_sn then (False, s)
     else if \<not> inside_tx_window s (nack_sn nack) then (False, s)
     else if has_nack_range nack \<and> \<not> inside_tx_window s (nack_last_sn nack) then (False, s)
     else if tx_mod_base s (nack_sn nack) > tx_mod_base s (at_next s) then (False, at_emit At_defer_protocol_failure s)
     else if has_nack_range nack \<and> tx_mod_base s (nack_last_sn nack) > tx_mod_base s (at_next s)
       then (False, at_emit At_defer_protocol_failure s)
     else (True, s))"

fun at_valid_nacks :: "u32 \<Rightarrow> rlc_am_status_nack list \<Rightarrow> rlc_tx_am \<Rightarrow> bool \<times> rlc_tx_am" where
  "at_valid_nacks ack_sn [] s = (True, s)"
| "at_valid_nacks ack_sn (n # ns) s =
    (case at_valid_nack ack_sn n s of (False, s) \<Rightarrow> (False, s) | (True, s) \<Rightarrow> at_valid_nacks ack_sn ns s)"

section \<open>Buffer state\<close>

definition at_get_buffer_state :: "rlc_rx_am \<Rightarrow> rlc_tx_am \<Rightarrow> u32" where
  "at_get_buffer_state rx s =
    (let (n_sdus, n_bytes) = sq_get_state (at_queue s);
         queue_bytes = n_bytes + n_sdus * word_of_nat (head_min_size s);
         segment_bytes =
           (if at_sn_under_segmentation s \<noteq> INVALID_RLC_SN then
              (case cm_at (at_window s) (at_sn_under_segmentation s) of
                 Some i \<Rightarrow> word_of_nat (length (ti_sdu i)) - ti_next_so i + word_of_nat (head_max_size s)
               | None \<Rightarrow> 0)
            else 0);
         st = rq_st (at_retx_queue s);
         retx = retx_bytes st + n_retx_so_zero st * word_of_nat (head_min_size s) +
           n_retx_so_nonzero st * word_of_nat (head_max_size s);
         status_bytes = (if ar_status_report_required rx then ar_get_status_pdu_length rx else 0)
     in queue_bytes + segment_bytes + retx + status_bytes)"

definition at_update_mac_buffer_state :: "bool \<Rightarrow> rlc_rx_am \<Rightarrow> rlc_tx_am \<Rightarrow> rlc_tx_am" where
  "at_update_mac_buffer_state force_notify rx s =
    (let s = s\<lparr>at_pending_buffer_state := False\<rparr>;
         bs = at_get_buffer_state rx s;
         s = (if force_notify \<or> unat bs \<le> max_dl_pdu_length \<or> unat (at_prev_buffer_state s) \<le> max_dl_pdu_length
              then at_emit (At_on_buffer_state_update bs) s else s)
     in s\<lparr>at_prev_buffer_state := bs\<rparr>)"

text \<open>The executor runs a deferred update.\<close>

definition at_run_update :: "rlc_rx_am \<Rightarrow> rlc_tx_am \<Rightarrow> rlc_tx_am" where
  "at_run_update rx s = at_update_mac_buffer_state False rx (s\<lparr>at_updates := at_updates s - 1\<rparr>)"

text \<open>\<open>defer_ok\<close>: the executor accepts the task.\<close>

definition at_handle_changed_buffer_state :: "bool \<Rightarrow> rlc_tx_am \<Rightarrow> rlc_tx_am" where
  "at_handle_changed_buffer_state defer_ok s =
    (if \<not> at_pending_buffer_state s then
       let s = s\<lparr>at_pending_buffer_state := True\<rparr>
       in if \<not> defer_ok then s else s\<lparr>at_updates := at_updates s + 1\<rparr>
     else s)"

definition at_on_status_report_changed :: "bool \<Rightarrow> rlc_tx_am \<Rightarrow> rlc_tx_am" where
  "at_on_status_report_changed defer_ok s = at_handle_changed_buffer_state defer_ok s"

section \<open>Upper layer\<close>

definition at_handle_sdu :: "bool \<Rightarrow> bytes \<Rightarrow> bool \<Rightarrow> rlc_tx_am \<Rightarrow> rlc_tx_am" where
  "at_handle_sdu defer_ok buf is_retx s =
    (let sdu = \<lparr>sdu_buf = buf, sdu_is_retx = (if at_is_srb s \<and> is_retx then False else is_retx),
           sdu_pdcp_sn = get_pdcp_sn buf (ta_pdcp_sn_len (at_cfg s)) (at_is_srb s)\<rparr>;
         (written, q) = sq_write sdu (at_queue s);
         s = s\<lparr>at_queue := q\<rparr>
     in if written then at_handle_changed_buffer_state defer_ok (at_add_sdus 1 (length buf) s)
        else at_add_lost_sdus 1 s)"

definition at_discard_sdu :: "bool \<Rightarrow> u32 \<Rightarrow> rlc_tx_am \<Rightarrow> rlc_tx_am" where
  "at_discard_sdu defer_ok pdcp_sn s =
    (let (discarded, q) = sq_try_discard pdcp_sn (at_queue s);
         s = s\<lparr>at_queue := q\<rparr>
     in if discarded then at_handle_changed_buffer_state defer_ok (at_add_discard 1 s)
        else at_add_discard_failure 1 s)"

section \<open>Polling\<close>

definition at_buffers_empty :: "rlc_tx_am \<Rightarrow> bool" where
  "at_buffers_empty s \<longleftrightarrow>
    sq_is_empty (at_queue s) \<and> rq_empty (at_retx_queue s) \<and> at_sn_under_segmentation s = INVALID_RLC_SN"

definition at_get_polling_bit :: "u32 \<Rightarrow> bool \<Rightarrow> u32 \<Rightarrow> rlc_tx_am \<Rightarrow> byte \<times> rlc_tx_am" where
  "at_get_polling_bit sn is_retx payload_size s =
    (let s = (if \<not> is_retx then s\<lparr>at_pdu_without_poll := at_pdu_without_poll s + 1,
                at_byte_without_poll := at_byte_without_poll s + payload_size\<rparr> else s);
         counted = (\<not> is_retx \<and>
           (ta_poll_pdu (at_cfg s) > 0 \<and> at_pdu_without_poll s \<ge> word_of_int (ta_poll_pdu (at_cfg s)) \<or>
            ta_poll_byte (at_cfg s) > 0 \<and> at_byte_without_poll s \<ge> word_of_int (ta_poll_byte (at_cfg s))));
         poll = (counted \<or> at_buffers_empty s \<or> is_tx_window_full s \<or> at_poll_retransmit_timer_expired s);
         s = s\<lparr>at_poll_retransmit_timer_expired := False\<rparr>
     in if poll then
          let s = s\<lparr>at_pdu_without_poll := 0, at_byte_without_poll := 0\<rparr>;
              s = (if \<not> is_retx then s\<lparr>at_poll_sn := sn\<rparr> else s);
              s = (if ta_t_poll_retx (at_cfg s) > 0 then s\<lparr>at_poll_retransmit_timer := True\<rparr> else s)
          in (1, s)
        else (0, s))"
section \<open>Data PDUs\<close>

definition at_header :: "byte \<Rightarrow> rlc_si_field \<Rightarrow> u32 \<Rightarrow> u32 \<Rightarrow> rlc_tx_am \<Rightarrow> rlc_am_pdu_header" where
  "at_header p si sn so s = \<lparr>am_dc = rlc_data, am_p = p, am_si = si, am_sn_size = ta_sn_field_length (at_cfg s), am_sn = sn,
    am_so = ucast so\<rparr>"

text \<open>
  The payload: \<open>n\<close> bytes of the SDU from the offset of the header on. The code returns 0 when it is empty or too short.
\<close>

definition at_payload :: "rlc_am_pdu_header \<Rightarrow> nat \<Rightarrow> bytes \<Rightarrow> bytes option" where
  "at_payload h n sdu =
    (let payload = take n (drop (unat (am_so h)) sdu) in if payload = [] \<or> length payload \<noteq> n then None else Some payload)"

definition at_build_first_sdu_segment :: "nat \<Rightarrow> rlc_tx_am_sdu_info \<Rightarrow> rlc_tx_am \<Rightarrow> bytes \<times> rlc_tx_am" where
  "at_build_first_sdu_segment grant_len info s =
    (if length (ti_sdu info) + head_min_size s \<le> grant_len then ([], s)
     else if grant_len \<le> head_min_size s then ([], s)
     else
       let segment_payload_len = word_of_nat (grant_len - head_min_size s) :: u32;
           s = s\<lparr>at_sn_under_segmentation := at_next s\<rparr>;
           (p, s) = at_get_polling_bit (at_next s) False segment_payload_len s;
           h = at_header p first_segment (at_next s) (ti_next_so info) s
       in case at_payload h (unat segment_payload_len) (ti_sdu info) of
            None \<Rightarrow> ([], s)
          | Some payload \<Rightarrow>
              let pdu = rlc_am_write_data_pdu_header h @ payload;
                  s = at_assign (at_next s) (info\<lparr>ti_next_so := ti_next_so info + segment_payload_len\<rparr>) s
              in (pdu, at_add_pdus_with_segmentation_am 1 (length pdu) s))"

definition at_notify_transfer :: "rlc_sdu \<Rightarrow> rlc_tx_am \<Rightarrow> rlc_tx_am" where
  "at_notify_transfer sdu s =
    (case sdu_pdcp_sn sdu of
       None \<Rightarrow> s
     | Some sn \<Rightarrow> if sdu_is_retx sdu then at_emit (At_on_retransmitted_sdu sn) s
                  else at_emit (At_on_transmitted_sdu sn (ta_queue_size_bytes (at_cfg s))) s)"

definition at_sdu_info_of :: "rlc_sdu \<Rightarrow> rlc_tx_am_sdu_info" where
  "at_sdu_info_of sdu = \<lparr>ti_sdu = sdu_buf sdu, ti_is_retx = sdu_is_retx sdu, ti_pdcp_sn = sdu_pdcp_sn sdu, ti_next_so = 0,
    ti_retx_count = RETX_COUNT_NOT_STARTED\<rparr>"

text \<open>
  A PDU with a whole SDU. The code asks for the length of the buffer it has just moved into the window, which is 0, so
  the poll counter of bytes does not grow.
\<close>

definition at_build_full_sdu :: "rlc_tx_am_sdu_info \<Rightarrow> rlc_tx_am \<Rightarrow> bytes \<times> rlc_tx_am" where
  "at_build_full_sdu info s =
    (let (p, s) = at_get_polling_bit (at_next s) False 0 s;
         h = at_header p full_sdu (at_next s) 0 s;
         payload = ti_sdu info
     in if payload = [] then ([], s)
        else
          let pdu = rlc_am_write_data_pdu_header h @ payload;
              s = at_add_pulled_sdus 1 s;
              s = s\<lparr>at_next := (at_next s + 1) mod at_mod s\<rparr>
          in (pdu, at_add_pdus_no_segmentation 1 (length pdu) s))"

definition at_build_new_pdu :: "nat \<Rightarrow> rlc_tx_am \<Rightarrow> bytes \<times> rlc_tx_am" where
  "at_build_new_pdu grant_len s =
    (if grant_len \<le> head_min_size s then ([], s)
     else if is_tx_window_full s then ([], s)
     else
       let (found, sdu, q) = sq_read rlc_sdu_empty (at_queue s);
           s = s\<lparr>at_queue := q\<rparr>
       in if \<not> found then ([], s)
          else
            let info = at_sdu_info_of sdu;
                s = s\<lparr>at_window := add_sn (at_window s) (at_next s) info\<rparr>;
                s = at_notify_transfer sdu s
            in if length (ti_sdu info) + head_min_size s > grant_len then at_build_first_sdu_segment grant_len info s
               else at_build_full_sdu info s)"

text \<open>The segment of \<open>n\<close> bytes that continues the SDU; with \<open>fin\<close> it ends it.\<close>

definition at_send_segment :: "bool \<Rightarrow> u32 \<Rightarrow> rlc_tx_am_sdu_info \<Rightarrow> rlc_tx_am \<Rightarrow> bytes \<times> rlc_tx_am" where
  "at_send_segment fin n info s =
    (let sn = at_sn_under_segmentation s;
         s = (if fin then s\<lparr>at_sn_under_segmentation := INVALID_RLC_SN\<rparr> else s);
         (p, s) = at_get_polling_bit (at_next s) False n s;
         h = at_header p (if fin then last_segment else middle_segment) (at_next s) (ti_next_so info) s
     in case at_payload h (unat n) (ti_sdu info) of
          None \<Rightarrow> ([], s)
        | Some payload \<Rightarrow>
            let pdu = rlc_am_write_data_pdu_header h @ payload;
                s = at_assign sn (info\<lparr>ti_next_so := ti_next_so info + n\<rparr>) s;
                s = (if fin then (at_add_pulled_sdus 1 s)\<lparr>at_next := (at_next s + 1) mod at_mod s\<rparr> else s)
            in (pdu, at_add_pdus_with_segmentation_am 1 (length pdu) s))"

definition at_build_continued_sdu_segment :: "nat \<Rightarrow> rlc_tx_am_sdu_info \<Rightarrow> rlc_tx_am \<Rightarrow> bytes \<times> rlc_tx_am" where
  "at_build_continued_sdu_segment grant_len info s =
    (let sdu_len = word_of_nat (length (ti_sdu info)) :: u32; rest = sdu_len - ti_next_so info in
     if ti_next_so info = 0 then ([], s\<lparr>at_sn_under_segmentation := INVALID_RLC_SN\<rparr>)
     else if unat (ti_next_so info) \<ge> length (ti_sdu info) then ([], s\<lparr>at_sn_under_segmentation := INVALID_RLC_SN\<rparr>)
     else if grant_len \<le> head_max_size s then ([], s)
     else if unat rest + head_max_size s > grant_len
       then at_send_segment False (word_of_nat (grant_len - head_max_size s)) info s
     else at_send_segment True rest info s)"

section \<open>Retransmissions\<close>

text \<open>Retransmissions of SDUs that have left the window are dropped. \<open>None\<close> as for \<open>front\<close>.\<close>

function at_drop_stale_retx :: "rlc_tx_am \<Rightarrow> rlc_retx_queue \<Rightarrow> rlc_retx_queue option" where
  "at_drop_stale_retx s q =
    (case rq_front q of
       None \<Rightarrow> None
     | Some r \<Rightarrow>
         if has_sn (at_window s) (rx_sn r) then Some q
         else if rq_empty (rq_pop q) then Some (rq_pop q)
         else at_drop_stale_retx s (rq_pop q))"
  by pat_completeness auto

lemma rq_pop_shrinks: "rq_items q \<noteq> [] \<Longrightarrow> length (rq_items (rq_pop q)) < length (rq_items q)"
  by (cases "rq_items q") (auto simp: rq_pop_def rq_clean_invalid_front_def le_imp_less_Suc drop_invalid_length)

lemma rq_front_Some: "rq_front q = Some r \<Longrightarrow> rq_items q \<noteq> []"
  by (auto simp: rq_front_def)

termination at_drop_stale_retx
  by (relation "measure (\<lambda>(s, q). length (rq_items q))") (auto dest: rq_front_Some intro: rq_pop_shrinks)

declare at_drop_stale_retx.simps [simp del]

definition get_retx_expected_hdr_len :: "rlc_tx_am \<Rightarrow> rlc_tx_amd_retx \<Rightarrow> nat" where
  "get_retx_expected_hdr_len s r = (if rx_so r = 0 then head_min_size s else head_max_size s)"

definition retx_si :: "rlc_tx_amd_retx \<Rightarrow> nat \<Rightarrow> nat \<Rightarrow> rlc_si_field" where
  "retx_si r n sdu_len =
    (let sdu_complete = (unat (rx_so r) + n \<ge> sdu_len)
     in if rx_so r = 0 then (if sdu_complete then full_sdu else first_segment)
        else (if sdu_complete then last_segment else middle_segment))"

text \<open>The queue after \<open>n\<close> bytes of its front have been sent.\<close>

definition retx_advance :: "rlc_tx_amd_retx \<Rightarrow> nat \<Rightarrow> rlc_retx_queue \<Rightarrow> rlc_retx_queue option" where
  "retx_advance r n q =
    (if n = unat (rx_length r) then Some (rq_pop q)
     else rq_replace_front (r\<lparr>rx_so := rx_so r + word_of_nat n, rx_length := rx_length r - word_of_nat n\<rparr>) q)"

text \<open>The retransmission at the front, once it is known to be in the window. \<open>None\<close>: the assertion on the header length.\<close>

definition at_send_retx :: "nat \<Rightarrow> rlc_tx_amd_retx \<Rightarrow> rlc_tx_am_sdu_info \<Rightarrow> rlc_tx_am \<Rightarrow> (bytes \<times> rlc_tx_am) option" where
  "at_send_retx grant_len r info s =
    (let hdr_len = get_retx_expected_hdr_len s r
     in if unat (rx_so r + rx_length r) > length (ti_sdu info)
        then Some ([], s\<lparr>at_retx_queue := rq_pop (at_retx_queue s)\<rparr>)
        else if grant_len \<le> hdr_len then Some ([], s)
        else
          let n = min (unat (rx_length r)) (grant_len - hdr_len)
          in case retx_advance r n (at_retx_queue s) of
               None \<Rightarrow> None
             | Some q \<Rightarrow>
                 (let (p, s) = at_get_polling_bit (rx_sn r) True 0 (s\<lparr>at_retx_queue := q\<rparr>);
                      h = at_header p (retx_si r n (length (ti_sdu info))) (rx_sn r) (rx_so r) s;
                      header = rlc_am_write_data_pdu_header h
                  in if length header \<noteq> hdr_len then None
                     else case at_payload h n (ti_sdu info) of
                       None \<Rightarrow> Some ([], s)
                     | Some payload \<Rightarrow> Some (header @ payload, at_add_retx_pdus 1 (length (header @ payload)) s)))"

definition at_build_retx_pdu :: "nat \<Rightarrow> rlc_tx_am \<Rightarrow> (bytes \<times> rlc_tx_am) option" where
  "at_build_retx_pdu grant_len s =
    (if rq_empty (at_retx_queue s) then Some ([], s)
     else case at_drop_stale_retx s (at_retx_queue s) of
       None \<Rightarrow> None
     | Some q \<Rightarrow>
         (let s = s\<lparr>at_retx_queue := q\<rparr>
          in if rq_empty q then Some ([], s)
             else case rq_front q of
               None \<Rightarrow> None
             | Some r \<Rightarrow>
                 (case cm_at (at_window s) (rx_sn r) of
                    None \<Rightarrow> None
                  | Some info \<Rightarrow> at_send_retx grant_len r info (s\<lparr>at_retx_sn := rx_sn r\<rparr>))))"

section \<open>Pull\<close>

text \<open>
  The status report, when one is due: it is trimmed to the grant in the buffer it shares with the receiver. \<open>defer_ok\<close> is
  the result of the receiver's deferral.
\<close>

definition at_build_status :: "bool \<Rightarrow> nat \<Rightarrow> rlc_rx_am \<Rightarrow> rlc_tx_am \<Rightarrow> bytes \<times> rlc_rx_am \<times> rlc_tx_am" where
  "at_build_status defer_ok grant_len rx s =
    (if grant_len < unat status_pdu_sizeof_header_ack_sn then ([], rx, s)
     else
       let (status, rx) = ar_get_status_pdu defer_ok rx;
           (fits, status) = (if unat (sp_packed_size status) > grant_len then sp_trim (word_of_nat grant_len) status
                             else (True, status));
           rx = rx\<lparr>ar_status_shared := status\<rparr>
       in if \<not> fits then ([], rx, s)
          else let pdu = sp_pack status in (pdu, rx, at_add_ctrl_pdus 1 (length pdu) s))"

definition at_pull_pdu :: "bool \<Rightarrow> nat \<Rightarrow> rlc_rx_am \<Rightarrow> rlc_tx_am \<Rightarrow> (bytes \<times> rlc_rx_am \<times> rlc_tx_am) option" where
  "at_pull_pdu defer_ok grant_len rx s =
    (if ar_status_report_required rx then Some (at_build_status defer_ok grant_len rx s)
     else if \<not> rq_empty (at_retx_queue s) then map_option (\<lambda>(pdu, s). (pdu, rx, s)) (at_build_retx_pdu grant_len s)
     else
       let sn = at_sn_under_segmentation s
       in case (if sn \<noteq> INVALID_RLC_SN then cm_at (at_window s) sn else None) of
            Some info \<Rightarrow> (case at_build_continued_sdu_segment grant_len info s of (pdu, s) \<Rightarrow> Some (pdu, rx, s))
          | None \<Rightarrow>
              (let s = s\<lparr>at_sn_under_segmentation := INVALID_RLC_SN\<rparr>
               in if sq_is_empty (at_queue s) then Some ([], rx, s)
                  else (case at_build_new_pdu grant_len s of (pdu, s) \<Rightarrow> Some (pdu, rx, s))))"
section \<open>Retransmission counters\<close>

definition at_check_sn_reached_max_retx :: "u32 \<Rightarrow> rlc_tx_am \<Rightarrow> rlc_tx_am option" where
  "at_check_sn_reached_max_retx sn s =
    map_option (\<lambda>i. if ti_retx_count i = ta_max_retx_thresh (at_cfg s) then at_emit At_on_max_retx s else s)
      (cm_at (at_window s) sn)"

definition at_increment_retx_count :: "u32 \<Rightarrow> rlc_tx_am \<Rightarrow> rlc_tx_am option" where
  "at_increment_retx_count sn s =
    (case cm_at (at_window s) sn of
       None \<Rightarrow> None
     | Some i \<Rightarrow>
         at_check_sn_reached_max_retx sn
           (at_assign sn (i\<lparr>ti_retx_count := (if ti_retx_count i = RETX_COUNT_NOT_STARTED then 0 else ti_retx_count i + 1)\<rparr>) s))"

definition at_decrement_retx_count :: "u32 \<Rightarrow> rlc_tx_am \<Rightarrow> rlc_tx_am option" where
  "at_decrement_retx_count sn s =
    (case cm_at (at_window s) sn of
       None \<Rightarrow> None
     | Some i \<Rightarrow>
         if ti_retx_count i = RETX_COUNT_NOT_STARTED then Some s
         else if ti_retx_count i = 0 then Some (at_assign sn (i\<lparr>ti_retx_count := RETX_COUNT_NOT_STARTED\<rparr>) s)
         else Some (at_assign sn (i\<lparr>ti_retx_count := ti_retx_count i - 1\<rparr>) s))"

section \<open>Status reports of the peer\<close>

text \<open>
  The offsets of a NACK for an SDU with \<open>len\<close> bytes of which \<open>next_so\<close> have been sent when it is being segmented
  (\<open>seg\<close>). \<open>None\<close>: the NACK is ignored.
\<close>

definition nack_offsets :: "bool \<Rightarrow> nat \<Rightarrow> u32 \<Rightarrow> rlc_am_status_nack \<Rightarrow> (u16 \<times> u16) option" where
  "nack_offsets seg len next_so nack =
    (let (start, end) = (if nack_has_so nack then (so_start nack, so_end nack) else (0, word_of_nat len - 1))
     in if end = so_end_of_sdu then
          (if \<not> seg then Some (start, word_of_nat len - 1)
           else if next_so = 0 then None
           else if ucast start > next_so then None
           else if ucast start = next_so then None
           else Some (start, ucast (next_so - 1)))
        else Some (start, end))"

text \<open>Offsets that are out of bounds are corrected, and a protocol failure is deferred for each of them.\<close>

definition nack_sane_offsets :: "nat \<Rightarrow> u16 \<times> u16 \<Rightarrow> rlc_tx_am \<Rightarrow> (u16 \<times> u16) \<times> rlc_tx_am" where
  "nack_sane_offsets len r s =
    (let (start, end) = r;
         (start, s) = (if start > end then (0, at_emit At_defer_protocol_failure s) else (start, s));
         (start, s) = (if unat start \<ge> len then (0, at_emit At_defer_protocol_failure s) else (start, s));
         (end, s) = (if unat end \<ge> len
                     then (word_of_nat len - 1, at_emit At_defer_protocol_failure (at_emit At_on_protocol_failure s))
                     else (end, s))
     in ((start, end), s))"

definition at_handle_nack :: "rlc_am_status_nack \<Rightarrow> rlc_tx_am \<Rightarrow> (bool \<times> rlc_tx_am) option" where
  "at_handle_nack nack s =
    (if has_nack_range nack then Some (False, s)
     else if \<not> (tx_mod_base s (at_next_ack s) \<le> tx_mod_base s (nack_sn nack) \<and>
                tx_mod_base s (nack_sn nack) \<le> tx_mod_base s (at_next s)) then Some (False, s)
     else case cm_at (at_window s) (nack_sn nack) of
       None \<Rightarrow> None
     | Some info \<Rightarrow>
         (case nack_offsets (nack_sn nack = at_sn_under_segmentation s) (length (ti_sdu info)) (ti_next_so info) nack of
            None \<Rightarrow> Some (False, s)
          | Some r \<Rightarrow>
              (let ((start, end), s) = nack_sane_offsets (length (ti_sdu info)) r s;
                   retx = \<lparr>rx_sn = nack_sn nack, rx_so = ucast start, rx_length = ucast end - ucast start + 1\<rparr>;
                   (pushed, q) = rq_try_push retx (at_retx_queue s)
               in Some (pushed, s\<lparr>at_retx_queue := q\<rparr>))))"

text \<open>One NACK without range, with the count of retransmissions: once per sequence number, \<open>prev\<close> is the last one.\<close>

definition at_apply_nack :: "rlc_am_status_nack \<Rightarrow> u32 \<times> rlc_tx_am \<Rightarrow> (u32 \<times> rlc_tx_am) option" where
  "at_apply_nack nack ps =
    (case ps of (prev, s) \<Rightarrow>
      case at_handle_nack nack s of
        None \<Rightarrow> None
      | Some (queued, s) \<Rightarrow>
          if queued \<and> prev \<noteq> nack_sn nack
          then map_option (\<lambda>s. (nack_sn nack, s)) (at_increment_retx_count (nack_sn nack) s)
          else Some (prev, s))"

text \<open>The NACK for one sequence number of a range.\<close>

definition nack_of_range :: "u32 \<Rightarrow> rlc_am_status_nack \<Rightarrow> u32 \<Rightarrow> rlc_am_status_nack" where
  "nack_of_range m nack sn =
    (let n = rlc_am_nack_new\<lparr>nack_sn := sn\<rparr>
     in if nack_has_so nack then
          let n = (if sn = nack_sn nack then n\<lparr>so_start := so_start nack\<rparr> else n);
              n = (if sn = nack_last_sn nack mod m then n\<lparr>so_end := so_end nack\<rparr> else n)
          in n\<lparr>nack_has_so := (so_start n \<noteq> 0 \<or> so_end n \<noteq> so_end_of_sdu)\<rparr>
        else n)"

text \<open>The loop over a range. \<open>fuel\<close> bounds the rounds; the caller passes the largest range.\<close>

fun at_nack_range :: "nat \<Rightarrow> u32 \<Rightarrow> rlc_am_status_nack \<Rightarrow> u32 \<Rightarrow> u32 \<times> rlc_tx_am \<Rightarrow> (u32 \<times> rlc_tx_am) option" where
  "at_nack_range 0 ack_sn nack sn ps = Some ps"
| "at_nack_range (Suc fuel) ack_sn nack sn ps =
    (let m = at_mod (snd ps)
     in if sn = (nack_sn nack + ucast (nack_range nack)) mod m then Some ps
        else if sn = ack_sn then Some ps
        else case at_apply_nack (nack_of_range m nack sn) ps of
          None \<Rightarrow> None
        | Some ps \<Rightarrow> at_nack_range fuel ack_sn nack ((sn + 1) mod m) ps)"

fun at_apply_nacks :: "u32 \<Rightarrow> rlc_am_status_nack list \<Rightarrow> u32 \<times> rlc_tx_am \<Rightarrow> (u32 \<times> rlc_tx_am) option" where
  "at_apply_nacks ack_sn [] ps = Some ps"
| "at_apply_nacks ack_sn (n # ns) ps =
    (case (if has_nack_range n then at_nack_range 256 ack_sn n (nack_sn n) ps else at_apply_nack n ps) of
       None \<Rightarrow> None
     | Some ps \<Rightarrow> at_apply_nacks ack_sn ns ps)"

text \<open>The state of the loop over the acknowledged SDUs: the last PDCP SN delivered, first transmissions and PDCP
  retransmissions apart. \<open>fuel\<close> bounds the rounds; the caller passes the modulus.\<close>

definition at_release :: "u32 \<Rightarrow> rlc_tx_am_sdu_info \<Rightarrow> rlc_tx_am \<Rightarrow> rlc_tx_am" where
  "at_release sn info s =
    s\<lparr>at_recycler := snd (add_discarded_pdu (ti_sdu info) (at_recycler s)), at_window := remove_sn (at_window s) sn,
      at_next_ack := (sn + 1) mod at_mod s\<rparr>"

fun at_ack_loop :: "nat \<Rightarrow> u32 \<Rightarrow> u32 \<Rightarrow> u32 option \<times> u32 option \<Rightarrow> rlc_tx_am \<Rightarrow> (u32 option \<times> u32 option) \<times> rlc_tx_am" where
  "at_ack_loop 0 sn stop_sn mx s = (mx, s)"
| "at_ack_loop (Suc fuel) sn stop_sn mx s =
    (if tx_mod_base s sn < tx_mod_base s stop_sn then
       (case cm_at (at_window s) sn of
          Some info \<Rightarrow>
            at_ack_loop fuel ((sn + 1) mod at_mod s) stop_sn
              (if ti_pdcp_sn info = None then mx
               else if ti_is_retx info then (fst mx, ti_pdcp_sn info) else (ti_pdcp_sn info, snd mx))
              (at_release sn info s)
        | None \<Rightarrow> (mx, s))
     else (mx, s))"

definition at_notify_delivery :: "u32 option \<times> u32 option \<Rightarrow> rlc_tx_am \<Rightarrow> rlc_tx_am" where
  "at_notify_delivery mx s =
    (let s = (case fst mx of None \<Rightarrow> s | Some sn \<Rightarrow> at_emit (At_on_delivered_sdu sn) s)
     in case snd mx of None \<Rightarrow> s | Some sn \<Rightarrow> at_emit (At_on_delivered_retransmitted_sdu sn) s)"

text \<open>The retransmissions left over from the previous report are withdrawn, and their counters with them.\<close>

definition at_rewind_front :: "rlc_tx_amd_retx \<Rightarrow> rlc_tx_am \<Rightarrow> rlc_tx_am option" where
  "at_rewind_front r s =
    map_option (\<lambda>s. s\<lparr>at_retx_queue := rq_pop (at_retx_queue s)\<rparr>)
      (if at_retx_sn s \<noteq> rx_sn r
       then map_option (\<lambda>s. s\<lparr>at_retx_sn := rx_sn r\<rparr>)
              (if has_sn (at_window s) (rx_sn r) then at_decrement_retx_count (rx_sn r) s else Some s)
       else Some s)"

lemma rewind_front_queue: "at_rewind_front r s = Some t \<Longrightarrow> at_retx_queue t = rq_pop (at_retx_queue s)"
  by (auto simp: at_rewind_front_def at_decrement_retx_count_def at_assign_def split: if_splits option.splits)

function at_clear_retx :: "rlc_tx_am \<Rightarrow> rlc_tx_am option" where
  "at_clear_retx s =
    (if rq_empty (at_retx_queue s) then Some s
     else case rq_front (at_retx_queue s) of
       None \<Rightarrow> None
     | Some r \<Rightarrow> (case at_rewind_front r s of None \<Rightarrow> None | Some t \<Rightarrow> at_clear_retx t))"
  by pat_completeness auto

termination
  by (relation "measure (\<lambda>s. length (rq_items (at_retx_queue s)))")
    (auto dest!: rewind_front_queue rq_front_Some intro: rq_pop_shrinks)

declare at_clear_retx.simps [simp del]

text \<open>The checks of \<open>handle_status_pdu\<close>.\<close>

definition at_accept_status :: "rlc_am_status_pdu \<Rightarrow> rlc_tx_am \<Rightarrow> bool \<times> rlc_tx_am" where
  "at_accept_status status s =
    (if \<not> at_valid_ack_sn s (sp_ack_sn status) then (False, s)
     else if tx_mod_base s (sp_ack_sn status) > tx_mod_base s (at_next s + 1) then (False, at_emit At_defer_protocol_failure s)
     else at_valid_nacks (sp_ack_sn status) (sp_nacks status) s)"

definition at_process_acks :: "rlc_am_status_pdu \<Rightarrow> rlc_tx_am \<Rightarrow> rlc_tx_am" where
  "at_process_acks status s =
    (let s = (if tx_mod_base s (at_poll_sn s) < tx_mod_base s (sp_ack_sn status) then s\<lparr>at_poll_retransmit_timer := False\<rparr> else s);
         stop_sn = (case sp_nacks status of [] \<Rightarrow> sp_ack_sn status | n # _ \<Rightarrow> nack_sn n);
         (mx, s) = at_ack_loop (unat (at_mod s)) (at_next_ack s) stop_sn (None, None) s
     in at_notify_delivery mx s)"

text \<open>\<open>ok\<close>: the executor accepts the task that empties the recycler.\<close>

definition at_handle_status_pdu :: "bool \<Rightarrow> rlc_am_status_pdu \<Rightarrow> rlc_rx_am \<Rightarrow> rlc_tx_am \<Rightarrow> rlc_tx_am option" where
  "at_handle_status_pdu ok status rx s =
    (case at_accept_status status s of
       (False, s) \<Rightarrow> Some s
     | (True, s) \<Rightarrow>
         (case at_clear_retx (at_process_acks status s) of
            None \<Rightarrow> None
          | Some s \<Rightarrow>
              (case at_apply_nacks (sp_ack_sn status) (sp_nacks status) (INVALID_RLC_SN, s\<lparr>at_retx_sn := INVALID_RLC_SN\<rparr>) of
                 None \<Rightarrow> None
               | Some (_, s) \<Rightarrow>
                   (let s = at_update_mac_buffer_state True rx s;
                        s = s\<lparr>at_recycler := recycler_swap (at_recycler s)\<rparr>
                    in Some (if ok then s\<lparr>at_clear_tasks := at_clear_tasks s + 1\<rparr> else s)))))"

text \<open>\<open>on_status_pdu\<close> hands the report to the executor of the cell; the tasks run in order.\<close>

definition at_on_status_pdu :: "bool \<Rightarrow> rlc_am_status_pdu \<Rightarrow> rlc_tx_am \<Rightarrow> rlc_tx_am" where
  "at_on_status_pdu ok status s = (if ok then s\<lparr>at_status_tasks := at_status_tasks s @ [status]\<rparr> else s)"

definition at_run_status :: "bool \<Rightarrow> rlc_rx_am \<Rightarrow> rlc_tx_am \<Rightarrow> rlc_tx_am option" where
  "at_run_status ok rx s =
    (case at_status_tasks s of
       [] \<Rightarrow> Some s
     | status # rest \<Rightarrow> at_handle_status_pdu ok status rx (s\<lparr>at_status_tasks := rest\<rparr>))"

definition at_run_clear :: "rlc_tx_am \<Rightarrow> rlc_tx_am" where
  "at_run_clear s = s\<lparr>at_clear_tasks := at_clear_tasks s - 1, at_recycler := recycler_clear (at_recycler s)\<rparr>"

section \<open>Expiry of t-PollRetransmit\<close>

definition at_poll_retx :: "rlc_rx_am \<Rightarrow> rlc_tx_am_sdu_info \<Rightarrow> rlc_tx_am \<Rightarrow> rlc_tx_am option" where
  "at_poll_retx rx info s =
    (let retx = \<lparr>rx_sn = at_next_ack s, rx_so = 0, rx_length = word_of_nat (length (ti_sdu info))\<rparr>;
         (queued, q) = rq_try_push retx (at_retx_queue s);
         s = s\<lparr>at_retx_queue := q\<rparr>
     in map_option (at_update_mac_buffer_state True rx)
          (if queued then at_increment_retx_count (at_next_ack s) s else Some s))"

definition at_on_expired_poll_retransmit_timer :: "rlc_rx_am \<Rightarrow> rlc_tx_am \<Rightarrow> rlc_tx_am option" where
  "at_on_expired_poll_retransmit_timer rx s =
    (let s = s\<lparr>at_poll_retransmit_timer := False\<rparr> in
     if at_buffers_empty s \<or> is_tx_window_full s then
       (if cm_empty (at_window s) then Some s
        else case cm_at (at_window s) (at_next_ack s) of
          None \<Rightarrow> Some s
        | Some info \<Rightarrow> map_option (\<lambda>s. s\<lparr>at_poll_retransmit_timer_expired := True\<rparr>) (at_poll_retx rx info s))
     else Some (s\<lparr>at_poll_retransmit_timer_expired := True\<rparr>))"

end
