(* ===== verification/Rlc_Am_Pdu_Props.thy ===== *)
theory Rlc_Am_Pdu_Props
  imports Rlc_Am_Pdu
begin

text \<open>
  The properties of the AM PDU formats: headers and status PDUs read back, merging NACKs keeps what they report
  as missing, and trimming a report never acknowledges what it reported.
\<close>

section \<open>Data PDU headers\<close>

lemma low_masks:
  "(w :: 'a::len word) AND 0x01 = take_bit 1 w" "w AND 0x03 = take_bit 2 w" "w AND 0x07 = take_bit 3 w"
  "w AND 0x0f = take_bit 4 w" "w AND 0x7f = take_bit 7 w" "w AND 0xff = take_bit 8 w"
proof -
  show "w AND 0x01 = take_bit 1 w" using and_low_mask [of w 1] by (simp del: One_nat_def)
qed (use and_low_mask [of w 2] and_low_mask [of w 3] and_low_mask [of w 4] and_low_mask [of w 7] and_low_mask [of w 8] in simp_all)

definition am_sn_bits :: "rlc_am_sn_size \<Rightarrow> nat" where
  "am_sn_bits sz = rlc_am_sn_size_to_number sz"

text \<open>A header the transmitter builds.\<close>

definition am_header_ok :: "rlc_am_pdu_header \<Rightarrow> bool" where
  "am_header_ok h \<longleftrightarrow> am_p h < 2 \<and> am_sn h < 2 ^ am_sn_bits (am_sn_size h) \<and>
    (am_so h \<noteq> 0 \<longleftrightarrow> am_si h = last_segment \<or> am_si h = middle_segment)"

lemma am_first_byte:
  fixes d p c :: byte and x :: u32
  defines "b \<equiv> push_bit 7 (take_bit 1 d) OR push_bit 6 (take_bit 1 p) OR push_bit 4 (take_bit 2 c)"
  shows "take_bit 1 (drop_bit 7 (b OR ucast (take_bit 4 x))) = take_bit 1 d"
    "take_bit 1 (drop_bit 6 (b OR ucast (take_bit 4 x))) = take_bit 1 p"
    "take_bit 2 (drop_bit 4 (b OR ucast (take_bit 4 x))) = take_bit 2 c"
    "take_bit 4 (ucast (b OR ucast (take_bit 4 x)) :: u32) = take_bit 4 x"
    "take_bit 1 (drop_bit 7 (b OR ucast (take_bit 2 x))) = take_bit 1 d"
    "take_bit 1 (drop_bit 6 (b OR ucast (take_bit 2 x))) = take_bit 1 p"
    "take_bit 2 (drop_bit 4 (b OR ucast (take_bit 2 x))) = take_bit 2 c"
    "take_bit 2 (ucast (b OR ucast (take_bit 2 x)) :: u32) = take_bit 2 x"
    "(b OR ucast (take_bit 2 x)) AND 0x0c = 0"
proof -
  have m: "bit (0x0c :: byte) n \<longleftrightarrow> n = 2 \<or> n = 3" for n
  proof -
    have "bit (push_bit 2 (mask 2) :: byte) n \<longleftrightarrow> 2 \<le> n \<and> n < 8 \<and> n - 2 < 2"
      by (auto simp only: bit_push_bit_iff bit_mask_iff possible_bit_word len_num1 len_bit0)
    then show ?thesis by (auto simp: mask_eq_exp_minus_1)
  qed
  show "(b OR ucast (take_bit 2 x)) AND 0x0c = 0"
  proof (rule bit_word_eqI)
    fix n
    show "bit ((b OR ucast (take_bit 2 x)) AND 0x0c) n = bit (0 :: byte) n"
      unfolding bit_and_iff m b_def by (auto simp: bit_simps)
  qed
qed (unfold b_def, (auto intro!: bit_word_eqI simp: bit_simps simp del: One_nat_def dest: bit_imp_le_length))

lemma am_sn_bytes:
  fixes x :: u32
  shows "push_bit 8 (take_bit 4 (drop_bit 8 x)) OR take_bit 8 (ucast (ucast (take_bit 8 x) :: byte)) = take_bit 12 x"
    "push_bit 16 (take_bit 2 (drop_bit 16 x)) OR push_bit 8 (take_bit 8 (ucast (ucast (drop_bit 8 x) :: byte))) OR
      take_bit 8 (ucast (ucast (take_bit 8 x) :: byte)) = take_bit 18 x"
proof -
  show "push_bit 8 (take_bit 4 (drop_bit 8 x)) OR take_bit 8 (ucast (ucast (take_bit 8 x) :: byte)) = take_bit 12 x"
    by (auto intro!: bit_word_eqI simp: bit_simps)
  show "push_bit 16 (take_bit 2 (drop_bit 16 x)) OR push_bit 8 (take_bit 8 (ucast (ucast (drop_bit 8 x) :: byte))) OR
      take_bit 8 (ucast (ucast (take_bit 8 x) :: byte)) = take_bit 18 x" (is "?l = _")
  proof (rule bit_word_eqI)
    fix n
    assume "n < LENGTH(32)"
    then show "bit ?l n = bit (take_bit 18 x) n"
      by (cases "n < 8"; cases "n < 16") (auto simp: bit_simps)
  qed
qed

lemma sn_take_bit: "x < 2 ^ n \<Longrightarrow> take_bit n (x :: 'a::len word) = x"
  using less_mask_eq [of x n] by (simp add: take_bit_eq_mask)

lemma dc_back [simp]: "rlc_dc_of_bit (take_bit 1 (rlc_dc_to_number dc)) = dc"
  by (cases dc) (simp_all add: rlc_dc_of_bit_def)

lemma am_header_read:
  assumes "am_header_ok h" "payload \<noteq> []"
  shows "rlc_am_read_data_pdu_header (rlc_am_write_data_pdu_header h @ payload) (am_sn_size h) = Some h \<and>
    length (rlc_am_write_data_pdu_header h) = am_get_packed_size h"
proof
  obtain dc p si sz sn so where h: "h = \<lparr>am_dc = dc, am_p = p, am_si = si, am_sn_size = sz, am_sn = sn, am_so = so\<rparr>"
    by (cases h)
  have so: "so \<noteq> 0 \<longleftrightarrow> si = last_segment \<or> si = middle_segment" and sn: "sn < 2 ^ am_sn_bits sz" and p: "take_bit 1 p = p"
    using assms sn_take_bit [of p 1] by (simp_all add: am_header_ok_def h)
  define ext :: bytes where "ext = (if so \<noteq> 0 then [ucast (drop_bit 8 so), ucast (so AND 0xff)] else [])"
  have rd: "rlc_am_read_so (h\<lparr>am_sn := sn, am_so := 0\<rparr>) (ext @ payload) = Some h"
    using so by (cases "so = 0") (auto simp: ext_def rlc_am_read_so_def h low_masks u16_two_bytes)
  have n: "length (ext @ payload) > 0" using assms(2) by simp
  define b where "b = push_bit 7 (take_bit 1 (rlc_dc_to_number dc)) OR push_bit 6 (take_bit 1 p) OR
    push_bit 4 (take_bit 2 (si_to_number si))"
  show "rlc_am_read_data_pdu_header (rlc_am_write_data_pdu_header h @ payload) (am_sn_size h) = Some h"
  proof (cases sz)
    case am_size12bits
    define c where "c = b OR ucast (take_bit 4 (drop_bit 8 sn))"
    have w: "rlc_am_write_data_pdu_header h = [c, ucast (take_bit 8 sn)] @ ext"
      by (simp add: h am_size12bits rlc_am_write_data_pdu_header_def low_masks b_def c_def ext_def)
    note c = am_first_byte(1-4) [of "rlc_dc_to_number dc" p "si_to_number si" "drop_bit 8 sn", folded b_def, folded c_def]
    have t: "take_bit 12 sn = sn" using sn by (intro sn_take_bit) (simp_all add: am_size12bits am_sn_bits_def)
    show ?thesis unfolding w using rd n
      by (simp add: h am_size12bits rlc_am_read_data_pdu_header_def low_masks c am_sn_bytes take_bit_si t p del: and_one_eq One_nat_def)
  next
    case am_size18bits
    define c where "c = b OR ucast (take_bit 2 (drop_bit 16 sn))"
    have w: "rlc_am_write_data_pdu_header h = [c, ucast (drop_bit 8 sn), ucast (take_bit 8 sn)] @ ext"
      by (simp add: h am_size18bits rlc_am_write_data_pdu_header_def low_masks b_def c_def ext_def)
    note c = am_first_byte(5-9) [of "rlc_dc_to_number dc" p "si_to_number si" "drop_bit 16 sn", folded b_def, folded c_def]
    have t: "take_bit 18 sn = sn" using sn by (intro sn_take_bit) (simp_all add: am_size18bits am_sn_bits_def)
    have s: "push_bit 16 (take_bit 2 (ucast c)) OR push_bit 8 (take_bit 8 (ucast (ucast (drop_bit 8 sn) :: byte))) OR
      take_bit 8 (ucast (ucast (take_bit 8 sn) :: byte)) = sn"
      unfolding c am_sn_bytes t by (rule refl)
    show ?thesis unfolding w using rd n
      by (simp add: h am_size18bits rlc_am_read_data_pdu_header_def low_masks s c(1-3,5) take_bit_si p del: and_one_eq One_nat_def)
  qed
  show "length (rlc_am_write_data_pdu_header h) = am_get_packed_size h"
    using so by (cases sz) (auto simp: h rlc_am_write_data_pdu_header_def am_get_packed_size_def rlc_am_pdu_header_max_size_def
        rlc_am_pdu_header_so_size_def Let_def)
qed

text \<open>The first byte tells data from control.\<close>

lemma am_header_dc: "sp_is_control_pdu (rlc_am_write_data_pdu_header h @ payload) \<longleftrightarrow> am_dc h = rlc_control"
proof -
  define b where "b = push_bit 7 (take_bit 1 (rlc_dc_to_number (am_dc h))) OR push_bit 6 (take_bit 1 (am_p h)) OR
    push_bit 4 (take_bit 2 (si_to_number (am_si h)))"
  note c = am_first_byte(1,5) [of "rlc_dc_to_number (am_dc h)" "am_p h" "si_to_number (am_si h)", folded b_def]
  have w: "(rlc_am_write_data_pdu_header h @ payload) ! 0 = b OR ucast (take_bit 4 (drop_bit 8 (am_sn h))) \<or>
      (rlc_am_write_data_pdu_header h @ payload) ! 0 = b OR ucast (take_bit 2 (drop_bit 16 (am_sn h)))"
    by (cases "am_sn_size h") (simp_all add: rlc_am_write_data_pdu_header_def low_masks b_def del: and_one_eq One_nat_def)
  have "take_bit 1 (drop_bit 7 ((rlc_am_write_data_pdu_header h @ payload) ! 0)) = take_bit 1 (rlc_dc_to_number (am_dc h))"
    using w by (elim disjE; simp only: c)
  then show ?thesis unfolding sp_is_control_pdu_def low_masks(1)
    by (cases "am_dc h") (simp_all del: and_one_eq One_nat_def)
qed

lemma take_bit_bound: "take_bit n x = x \<Longrightarrow> n < LENGTH('a) \<Longrightarrow> (x :: 'a::len word) < 2 ^ n"
  using and_mask_less' [of n x] by (simp add: take_bit_eq_mask)

text \<open>A sequence number that was read is in range.\<close>

lemma am_read_so_sn: "rlc_am_read_so k rest = Some h \<Longrightarrow> am_sn h = am_sn k \<and> am_sn_size h = am_sn_size k"
  by (auto simp: rlc_am_read_so_def split: if_splits list.splits)

lemma am_read_sn:
  assumes "rlc_am_read_data_pdu_header buf sz = Some h"
  shows "am_sn h < 2 ^ am_sn_bits sz \<and> am_sn_size h = sz"
proof (cases sz)
  case am_size12bits
  let ?v = "push_bit 8 (take_bit 4 (ucast (buf ! 0))) OR take_bit 8 (ucast (buf ! 1)) :: u32"
  have "am_sn h = ?v \<and> am_sn_size h = sz"
    using assms am_size12bits by (auto simp: rlc_am_read_data_pdu_header_def Let_def low_masks split: if_splits dest!: am_read_so_sn)
  moreover have "?v < 2 ^ 12" by (rule take_bit_bound) (auto intro!: bit_word_eqI simp: bit_simps)
  ultimately show ?thesis using am_size12bits by (simp add: am_sn_bits_def)
next
  case am_size18bits
  let ?v = "push_bit 16 (take_bit 2 (ucast (buf ! 0))) OR push_bit 8 (take_bit 8 (ucast (buf ! 1))) OR take_bit 8 (ucast (buf ! 2)) :: u32"
  have "am_sn h = ?v \<and> am_sn_size h = sz"
    using assms am_size18bits by (auto simp: rlc_am_read_data_pdu_header_def Let_def low_masks split: if_splits dest!: am_read_so_sn)
  moreover have "?v < 2 ^ 18" by (rule take_bit_bound) (auto intro!: bit_word_eqI simp: bit_simps)
  ultimately show ?thesis using am_size18bits by (simp add: am_sn_bits_def)
qed

text \<open>The header of an AM data PDU reads back from what was written, in front of any payload, for both sequence
  number sizes and all segment types, and its size is the one announced.\<close>

theorem am_header_roundtrip:
  assumes "am_header_ok h" "payload \<noteq> []"
  shows "rlc_am_read_data_pdu_header (rlc_am_write_data_pdu_header h @ payload) (am_sn_size h) = Some h \<and>
    length (rlc_am_write_data_pdu_header h) = am_get_packed_size h"
  by (rule am_header_read [OF assms])

theorem am_header_roundtrip_witness:
  "rlc_am_read_data_pdu_header (rlc_am_write_data_pdu_header \<lparr>am_dc = rlc_data, am_p = 1, am_si = middle_segment,
     am_sn_size = am_size18bits, am_sn = 0x2abcd, am_so = 300\<rparr> @ [7]) am_size18bits =
   Some \<lparr>am_dc = rlc_data, am_p = 1, am_si = middle_segment, am_sn_size = am_size18bits, am_sn = 0x2abcd, am_so = 300\<rparr>"
  using am_header_roundtrip [of "\<lparr>am_dc = rlc_data, am_p = 1, am_si = middle_segment, am_sn_size = am_size18bits,
    am_sn = 0x2abcd, am_so = 300\<rparr>" "[7]"]
  by (simp add: am_header_ok_def am_sn_bits_def)

section \<open>One NACK on the wire\<close>

lemma flag_masks:
  "(b :: byte) AND 0x01 = 0 \<longleftrightarrow> \<not> bit b 0" "b AND 0x02 = 0 \<longleftrightarrow> \<not> bit b 1" "b AND 0x04 = 0 \<longleftrightarrow> \<not> bit b 2" "b AND 0x08 = 0 \<longleftrightarrow> \<not> bit b 3"
  "b AND 0x10 = 0 \<longleftrightarrow> \<not> bit b 4" "b AND 0x20 = 0 \<longleftrightarrow> \<not> bit b 5" "b AND 0x80 = 0 \<longleftrightarrow> \<not> bit b 7"
  using and_exp_eq_0_iff_not_bit [of b 0] and_exp_eq_0_iff_not_bit [of b 1] and_exp_eq_0_iff_not_bit [of b 2]
    and_exp_eq_0_iff_not_bit [of b 3] and_exp_eq_0_iff_not_bit [of b 4] and_exp_eq_0_iff_not_bit [of b 5]
    and_exp_eq_0_iff_not_bit [of b 7] by simp_all

lemma high_masks:
  "(w :: 'a::len word) AND 0xf0 = push_bit 4 (take_bit 4 (drop_bit 4 w))" "w AND 0xc0 = push_bit 6 (take_bit 2 (drop_bit 6 w))"
  "w AND 0xfc = push_bit 2 (take_bit 6 (drop_bit 2 w))"
proof -
  have "w AND push_bit k (mask n) = push_bit k (take_bit n (drop_bit k w))" for k n
    by (rule bit_word_eqI) (auto simp: bit_simps)
  from this [of 4 4] this [of 6 2] this [of 2 6]
  show "w AND 0xf0 = push_bit 4 (take_bit 4 (drop_bit 4 w))" "w AND 0xc0 = push_bit 6 (take_bit 2 (drop_bit 6 w))"
    "w AND 0xfc = push_bit 2 (take_bit 6 (drop_bit 2 w))"
    by (simp_all add: mask_eq_exp_minus_1)
qed

text \<open>The byte of a NACK that holds the low bits of the sequence number and the flags, which stay below them.\<close>

lemma above_flags:
  fixes x :: u32 and f :: byte
  assumes "drop_bit k f = 0" "k + j = 8"
  shows "drop_bit k (push_bit k (take_bit j (drop_bit k (ucast (ucast (push_bit k (take_bit j x)) OR f) :: u32)))) = take_bit j x"
proof (rule bit_word_eqI)
  fix n
  have "bit f (k + n) = bit (drop_bit k f) n" by (simp add: bit_drop_bit_eq)
  then have "\<not> bit f (k + n)" using assms(1) by simp
  then show "bit (drop_bit k (push_bit k (take_bit j (drop_bit k (ucast (ucast (push_bit k (take_bit j x)) OR f) :: u32))))) n =
      bit (take_bit j x) n"
    using assms(2) by (auto simp: bit_simps)
qed

lemma nack_flags12:
  fixes x :: u32 and e1 e2 e3 :: bool
  defines "f \<equiv> (if e1 then 0x08 else 0) OR (if e2 then 0x04 else 0) OR (if e3 then 0x02 else 0 :: byte)"
  defines "b \<equiv> ucast (push_bit 4 (take_bit 4 x)) OR f"
  shows "b AND 0x01 = 0" "b AND 0x08 = 0 \<longleftrightarrow> \<not> e1" "b AND 0x04 = 0 \<longleftrightarrow> \<not> e2" "b AND 0x02 = 0 \<longleftrightarrow> \<not> e3"
    "drop_bit 4 (ucast b AND 0xf0) = take_bit 4 x"
proof -
  show "b AND 0x01 = 0" "b AND 0x08 = 0 \<longleftrightarrow> \<not> e1" "b AND 0x04 = 0 \<longleftrightarrow> \<not> e2" "b AND 0x02 = 0 \<longleftrightarrow> \<not> e3"
    unfolding flag_masks b_def f_def by (auto simp: bit_simps)
  have "drop_bit 4 f = 0" by (simp add: f_def)
  then show "drop_bit 4 (ucast b AND 0xf0) = take_bit 4 x"
    unfolding high_masks b_def by (rule above_flags) simp
qed

lemma nack_flags18:
  fixes x :: u32 and e1 e2 e3 :: bool
  defines "f \<equiv> (if e1 then 0x20 else 0) OR (if e2 then 0x10 else 0) OR (if e3 then 0x08 else 0 :: byte)"
  defines "b \<equiv> ucast (push_bit 6 (take_bit 2 x)) OR f"
  shows "b AND 0x07 = 0" "b AND 0x20 = 0 \<longleftrightarrow> \<not> e1" "b AND 0x10 = 0 \<longleftrightarrow> \<not> e2" "b AND 0x08 = 0 \<longleftrightarrow> \<not> e3"
    "drop_bit 6 (ucast b AND 0xc0) = take_bit 2 x"
proof -
  show "b AND 0x20 = 0 \<longleftrightarrow> \<not> e1" "b AND 0x10 = 0 \<longleftrightarrow> \<not> e2" "b AND 0x08 = 0 \<longleftrightarrow> \<not> e3"
    unfolding flag_masks b_def f_def by (auto simp: bit_simps)
  have "take_bit 3 f = 0" by (simp add: f_def)
  moreover have "take_bit 3 (ucast (push_bit 6 (take_bit 2 x)) :: byte) = 0" by (rule bit_word_eqI) (auto simp: bit_simps)
  ultimately show "b AND 0x07 = 0" by (simp add: b_def low_masks or.assoc)
  have "drop_bit 6 f = 0" by (simp add: f_def)
  then show "drop_bit 6 (ucast b AND 0xc0) = take_bit 2 x"
    unfolding high_masks b_def by (rule above_flags) simp
qed

text \<open>A NACK as the receiver builds them: fields it does not use have their initial values.\<close>

definition nack_ok :: "rlc_am_sn_size \<Rightarrow> rlc_am_status_nack \<Rightarrow> bool" where
  "nack_ok sz n \<longleftrightarrow> nack_sn n < 2 ^ am_sn_bits sz \<and> (\<not> nack_has_so n \<longrightarrow> so_start n = 0 \<and> so_end n = so_end_of_sdu) \<and>
    (has_nack_range n \<longleftrightarrow> nack_range n \<noteq> 0)"

lemma u16_bytes_join: "push_bit 8 (ucast (ucast (drop_bit 8 x) :: byte)) OR ucast (ucast x :: byte) = (x :: u16)"
  by (auto intro!: bit_word_eqI simp: bit_simps)

lemma unpack_ext_pack:
  assumes "nack_ok sz n"
  shows "sp_unpack_ext (nack_has_so n) (has_nack_range n) (rlc_am_nack_new\<lparr>nack_sn := nack_sn n\<rparr>) (sp_pack_ext n @ rest) =
    Some (n, rest)"
  using assms by (cases n) (auto simp: sp_unpack_ext_def sp_pack_ext_def rlc_am_nack_new_def nack_ok_def u16_bytes_join)

lemma sn_bytes_join:
  fixes x :: u32
  shows "push_bit 4 (take_bit 8 (ucast (ucast (take_bit 8 (drop_bit 4 x)) :: byte))) OR take_bit 4 x = take_bit 12 x"
    "push_bit 10 (take_bit 8 (ucast (ucast (take_bit 8 (drop_bit 10 x)) :: byte))) OR
      push_bit 2 (take_bit 8 (ucast (ucast (take_bit 8 (drop_bit 2 x)) :: byte))) OR take_bit 2 x = take_bit 18 x"
proof -
  show "push_bit 4 (take_bit 8 (ucast (ucast (take_bit 8 (drop_bit 4 x)) :: byte))) OR take_bit 4 x = take_bit 12 x"
  proof (rule bit_word_eqI)
    fix n
    show "bit (push_bit 4 (take_bit 8 (ucast (ucast (take_bit 8 (drop_bit 4 x)) :: byte))) OR take_bit 4 x) n = bit (take_bit 12 x) n"
      by (cases "n < 4") (auto simp: bit_simps)
  qed
  show "push_bit 10 (take_bit 8 (ucast (ucast (take_bit 8 (drop_bit 10 x)) :: byte))) OR
      push_bit 2 (take_bit 8 (ucast (ucast (take_bit 8 (drop_bit 2 x)) :: byte))) OR take_bit 2 x = take_bit 18 x" (is "?l = _")
  proof (rule bit_word_eqI)
    fix n
    have "\<not> n < 2 \<Longrightarrow> Suc (Suc (n - 2)) = n" by simp
    then show "bit ?l n = bit (take_bit 18 x) n"
      by (cases "n < 2"; cases "n < 10") (auto simp: bit_simps)
  qed
qed

section \<open>Lists of NACKs\<close>

text \<open>Reading what was written pushes the NACKs one by one.\<close>

lemma unpack_nacks12:
  "\<forall>n \<in> set ns. nack_ok am_size12bits n \<Longrightarrow>
    sp_unpack_nacks12 (ns \<noteq> []) (sp_pack_nacks12 ns) s = (True, fold push_nack ns s)"
proof (induction ns arbitrary: s)
  case Nil
  then show ?case by (subst sp_unpack_nacks12.simps) simp
next
  case (Cons n ns)
  have sn: "take_bit 12 (nack_sn n) = nack_sn n"
    using Cons.prems by (intro sn_take_bit) (simp add: nack_ok_def am_sn_bits_def)
  have ok: "nack_ok am_size12bits n" using Cons.prems by simp
  define b :: byte where "b = ucast (push_bit 4 (take_bit 4 (nack_sn n))) OR ((if ns \<noteq> [] then 0x08 else 0) OR
    (if nack_has_so n then 0x04 else 0) OR (if has_nack_range n then 0x02 else 0))"
  note f = nack_flags12 [of "nack_sn n" "ns \<noteq> []" "nack_has_so n" "has_nack_range n", folded b_def]
  have p: "sp_pack_nacks12 (n # ns) = ucast (take_bit 8 (drop_bit 4 (nack_sn n))) # b # sp_pack_ext n @ sp_pack_nacks12 ns"
    by (simp add: b_def low_masks or.assoc)
  show ?case unfolding p using Cons
    by (subst sp_unpack_nacks12.simps)
      (simp add: f low_masks(6) sn_bytes_join(1) sn unpack_ext_pack [OF ok] del: and_one_eq drop_bit_and)
qed

lemma unpack_nacks18:
  "\<forall>n \<in> set ns. nack_ok am_size18bits n \<Longrightarrow>
    sp_unpack_nacks18 (ns \<noteq> []) (sp_pack_nacks18 ns) s = (True, fold push_nack ns s)"
proof (induction ns arbitrary: s)
  case Nil
  then show ?case by (subst sp_unpack_nacks18.simps) simp
next
  case (Cons n ns)
  have sn: "take_bit 18 (nack_sn n) = nack_sn n"
    using Cons.prems by (intro sn_take_bit) (simp add: nack_ok_def am_sn_bits_def)
  have ok: "nack_ok am_size18bits n" using Cons.prems by simp
  define b :: byte where "b = ucast (push_bit 6 (take_bit 2 (nack_sn n))) OR ((if ns \<noteq> [] then 0x20 else 0) OR
    (if nack_has_so n then 0x10 else 0) OR (if has_nack_range n then 0x08 else 0))"
  note f = nack_flags18 [of "nack_sn n" "ns \<noteq> []" "nack_has_so n" "has_nack_range n", folded b_def]
  have m: "push_bit 6 x AND 0xc0 = push_bit 6 (take_bit 2 x)" for x :: u32
    unfolding high_masks by (rule bit_word_eqI) (auto simp: bit_simps)
  have p: "sp_pack_nacks18 (n # ns) = ucast (take_bit 8 (drop_bit 10 (nack_sn n))) #
      ucast (take_bit 8 (drop_bit 2 (nack_sn n))) # b # sp_pack_ext n @ sp_pack_nacks18 ns"
    unfolding sp_pack_nacks18.simps m by (simp add: b_def low_masks or.assoc)
  show ?case unfolding p using Cons
    by (subst sp_unpack_nacks18.simps)
      (simp add: f low_masks(6) sn_bytes_join(2) sn unpack_ext_pack [OF ok] del: drop_bit_and)
qed

section \<open>Merging\<close>

text \<open>The number of SDUs a NACK covers, and the bytes it reports as missing, as pairs of sequence number and offset.\<close>

definition nack_len :: "rlc_am_status_nack \<Rightarrow> nat" where
  "nack_len n = (if has_nack_range n then unat (nack_range n) else 1)"

definition nack_missing :: "u32 \<Rightarrow> rlc_am_status_nack \<Rightarrow> (u32 \<times> nat) set" where
  "nack_missing m n = {((nack_sn n + word_of_nat i) mod m, b) | i b. i < nack_len n \<and>
    (nack_has_so n \<and> i = 0 \<longrightarrow> unat (so_start n) \<le> b) \<and>
    (nack_has_so n \<and> Suc i = nack_len n \<longrightarrow> so_end n = so_end_of_sdu \<or> b \<le> unat (so_end n))}"

definition sp_missing :: "rlc_am_status_pdu \<Rightarrow> (u32 \<times> nat) set" where
  "sp_missing s = \<Union> (nack_missing (sp_mod_nr s) ` set (sp_nacks s))"

lemma am_modulus_power: "am_modulus sz = 2 ^ am_sn_bits sz"
  by (cases sz) (simp_all add: am_modulus_def am_sn_bits_def rlc_cardinality_def)

lemma uint_am_modulus: "uint (am_modulus sz) = 2 ^ am_sn_bits sz"
  by (cases sz) (simp_all add: am_modulus_def am_sn_bits_def rlc_cardinality_def)

lemma am_modulus_dvd: "(2 :: int) ^ am_sn_bits sz dvd 2 ^ 32"
  by (cases sz) (simp_all add: am_sn_bits_def le_imp_power_dvd)

lemma mod_am_modulus_add: "((x mod am_modulus sz) + y) mod am_modulus sz = (x + y) mod am_modulus sz"
proof -
  have u: "uint (v + w) = (uint v + uint w) mod 2 ^ 32" for v w :: u32 by (simp add: uint_word_ariths)
  show ?thesis
    unfolding word_uint_eq_iff uint_mod uint_am_modulus u mod_mod_cancel [OF am_modulus_dvd] by (simp only: mod_add_left_eq)
qed

lemma can_be_merged_iff:
  "can_be_merged m l r \<longleftrightarrow> nack_sn r = (nack_sn l + word_of_nat (nack_len l)) mod m \<and>
    (nack_has_so l \<longrightarrow> so_end l = so_end_of_sdu) \<and> (nack_has_so r \<longrightarrow> so_start r = 0) \<and> nack_len l + nack_len r \<le> 255"
  by (auto simp: can_be_merged_def nack_len_def)

lemma nack_len_pos: "nack_ok sz n \<Longrightarrow> 0 < nack_len n"
  by (auto simp: nack_len_def nack_ok_def unat_gt_0)

lemma merge_nack_fields:
  assumes "can_be_merged m p n" "nack_ok sz p" "nack_ok sz n"
  shows "nack_sn (merge_nack p n) = nack_sn p" "has_nack_range (merge_nack p n)"
    "nack_len (merge_nack p n) = nack_len p + nack_len n"
    "nack_has_so (merge_nack p n) \<longleftrightarrow> nack_has_so p \<or> nack_has_so n"
    "so_start (merge_nack p n) = so_start p" "so_end (merge_nack p n) = so_end n"
    "nack_ok sz (merge_nack p n)"
proof -
  have l: "nack_len p + nack_len n \<le> 255" using assms(1) by (simp add: can_be_merged_iff)
  show sn: "nack_sn (merge_nack p n) = nack_sn p" and r: "has_nack_range (merge_nack p n)"
    and so: "nack_has_so (merge_nack p n) \<longleftrightarrow> nack_has_so p \<or> nack_has_so n"
    by (simp_all add: merge_nack_def Let_def)
  have "nack_range (merge_nack p n) = word_of_nat (nack_len p + nack_len n)"
    by (simp add: merge_nack_def Let_def nack_len_def)
  then show len: "nack_len (merge_nack p n) = nack_len p + nack_len n"
    using l by (simp add: nack_len_def [of "merge_nack p n"] r unsigned_of_nat take_bit_nat_eq_self del: of_nat_add)
  show s: "so_start (merge_nack p n) = so_start p" and e: "so_end (merge_nack p n) = so_end n"
    using assms(2,3) by (simp_all add: merge_nack_def Let_def nack_ok_def)
  have "nack_range (merge_nack p n) \<noteq> 0"
    using len nack_len_pos [OF assms(2)] r by (auto simp: nack_len_def)
  then show "nack_ok sz (merge_nack p n)"
    using assms(2,3) sn r so s e by (auto simp: nack_ok_def)
qed

lemma merge_missing:
  assumes "can_be_merged (am_modulus z) p n" "nack_ok sz p" "nack_ok sz n"
  shows "nack_missing (am_modulus z) (merge_nack p n) = nack_missing (am_modulus z) p \<union> nack_missing (am_modulus z) n"
proof -
  let ?m = "am_modulus z" and ?q = "merge_nack p n"
  note f = merge_nack_fields [OF assms]
  have c: "nack_sn n = (nack_sn p + word_of_nat (nack_len p)) mod ?m" "nack_has_so p \<longrightarrow> so_end p = so_end_of_sdu"
    "nack_has_so n \<longrightarrow> so_start n = 0"
    using assms(1) by (simp_all add: can_be_merged_iff)
  have ok: "\<not> nack_has_so p \<Longrightarrow> so_start p = 0 \<and> so_end p = so_end_of_sdu" "\<not> nack_has_so n \<Longrightarrow> so_start n = 0 \<and> so_end n = so_end_of_sdu"
    using assms(2,3) by (simp_all add: nack_ok_def)
  have pos: "0 < nack_len p" "0 < nack_len n" using nack_len_pos assms(2,3) by blast+
  have sn: "(nack_sn p + word_of_nat (nack_len p + j)) mod ?m = (nack_sn n + word_of_nat j) mod ?m" for j
    unfolding c(1) mod_am_modulus_add by (simp add: add.assoc)
  have n: "nack_missing ?m x = {((nack_sn x + word_of_nat i) mod ?m, b) | i b. i < nack_len x \<and>
      (i = 0 \<longrightarrow> unat (so_start x) \<le> b) \<and> (Suc i = nack_len x \<longrightarrow> so_end x = so_end_of_sdu \<or> b \<le> unat (so_end x))}"
    if "nack_ok sz x" for x
    using that unfolding nack_missing_def by (cases "nack_has_so x") (auto simp: nack_ok_def)
  have "(k, b) \<in> nack_missing ?m ?q \<longleftrightarrow> (k, b) \<in> nack_missing ?m p \<union> nack_missing ?m n" for k b
  proof
    assume "(k, b) \<in> nack_missing ?m ?q"
    then obtain i where i: "k = (nack_sn p + word_of_nat i) mod ?m" "i < nack_len p + nack_len n"
      "i = 0 \<longrightarrow> unat (so_start p) \<le> b" "Suc i = nack_len p + nack_len n \<longrightarrow> so_end n = so_end_of_sdu \<or> b \<le> unat (so_end n)"
      unfolding n [OF f(7)] by (auto simp: f)
    show "(k, b) \<in> nack_missing ?m p \<union> nack_missing ?m n"
    proof (cases "i < nack_len p")
      case True
      then show ?thesis using i c(2) ok(1) unfolding n [OF assms(2)] by auto
    next
      case False
      then obtain j where j: "i = nack_len p + j" using le_Suc_ex not_less by blast
      then show ?thesis using i c(3) ok(2) sn [of j] unfolding n [OF assms(3)] by auto
    qed
  next
    assume "(k, b) \<in> nack_missing ?m p \<union> nack_missing ?m n"
    then show "(k, b) \<in> nack_missing ?m ?q"
    proof
      assume "(k, b) \<in> nack_missing ?m p"
      then obtain i where "k = (nack_sn p + word_of_nat i) mod ?m" "i < nack_len p" "i = 0 \<longrightarrow> unat (so_start p) \<le> b"
        unfolding n [OF assms(2)] by blast
      moreover from this have "i < nack_len p + nack_len n"
        "Suc i = nack_len p + nack_len n \<longrightarrow> so_end n = so_end_of_sdu \<or> b \<le> unat (so_end n)"
        using pos by simp_all
      ultimately show ?thesis unfolding n [OF f(7)] f by blast
    next
      assume "(k, b) \<in> nack_missing ?m n"
      then obtain j where j: "k = (nack_sn n + word_of_nat j) mod ?m" "j < nack_len n"
        "Suc j = nack_len n \<longrightarrow> so_end n = so_end_of_sdu \<or> b \<le> unat (so_end n)"
        unfolding n [OF assms(3)] by blast
      define i where "i = nack_len p + j"
      have "k = (nack_sn p + word_of_nat i) mod ?m" unfolding i_def by (simp only: sn j(1))
      moreover have "i < nack_len p + nack_len n" "i = 0 \<longrightarrow> unat (so_start p) \<le> b"
        "Suc i = nack_len p + nack_len n \<longrightarrow> so_end n = so_end_of_sdu \<or> b \<le> unat (so_end n)"
        using pos j(2,3) by (simp_all add: i_def)
      ultimately show ?thesis unfolding n [OF f(7)] f by blast
    qed
  qed
  then show ?thesis by auto
qed

section \<open>Reports\<close>

text \<open>A report as \<open>push_nack\<close> builds it: no two neighbouring NACKs can be merged, and the packed size is kept up to date.\<close>

definition nacks_size :: "rlc_am_sn_size \<Rightarrow> rlc_am_status_nack list \<Rightarrow> u32" where
  "nacks_size sz ns = sum_list (map (nack_size sz) ns)"

lemma nacks_size_simps [simp]:
  "nacks_size sz [] = 0" "nacks_size sz (n # ns) = nack_size sz n + nacks_size sz ns"
  "nacks_size sz (ns @ ms) = nacks_size sz ns + nacks_size sz ms"
  by (simp_all add: nacks_size_def)

definition sp_ok :: "rlc_am_status_pdu \<Rightarrow> bool" where
  "sp_ok s \<longleftrightarrow> sp_cpt s = 0 \<and> sp_packed_size s = status_pdu_sizeof_header_ack_sn + nacks_size (sp_sn_size s) (sp_nacks s) \<and>
    (\<forall>n \<in> set (sp_nacks s). nack_ok (sp_sn_size s) n) \<and>
    successively (\<lambda>l r. \<not> can_be_merged (sp_mod_nr s) l r) (sp_nacks s)"

lemma sp_ok_reset [simp]: "sp_ok (sp_reset s)"
  by (simp add: sp_ok_def sp_reset_def)

lemma push_nack_sn_size [simp]:
  "sp_sn_size (push_nack n s) = sp_sn_size s" "sp_mod_nr (push_nack n s) = sp_mod_nr s" "sp_ack_sn (push_nack n s) = sp_ack_sn s"
  "sp_cpt (push_nack n s) = sp_cpt s"
  by (simp_all add: push_nack_def sp_mod_nr_def Let_def)

text \<open>What pushing does: a new NACK at the end, or one that takes the place of the last.\<close>

lemma push_nack_cases:
  assumes "sp_ok s" "nack_ok (sp_sn_size s) n"
  obtains (append) "sp_nacks (push_nack n s) = sp_nacks s @ [n]"
      "sp_nacks s = [] \<or> \<not> can_be_merged (sp_mod_nr s) (last (sp_nacks s)) n"
      "sp_packed_size (push_nack n s) = sp_packed_size s + nack_size (sp_sn_size s) n"
  | (merge) xs p where "sp_nacks s = xs @ [p]" "sp_nacks (push_nack n s) = xs @ [merge_nack p n]"
      "can_be_merged (sp_mod_nr s) p n" "nack_ok (sp_sn_size s) p"
      "sp_packed_size (push_nack n s) = sp_packed_size s - nack_size (sp_sn_size s) p + nack_size (sp_sn_size s) (merge_nack p n)"
proof (cases "sp_nacks s = [] \<or> \<not> can_be_merged (sp_mod_nr s) (last (sp_nacks s)) n")
  case True
  then show ?thesis using append by (simp add: push_nack_def)
next
  case False
  then obtain xs p where xs: "sp_nacks s = xs @ [p]" by (metis rev_exhaust)
  show ?thesis
    by (rule merge [OF xs]) (use False assms xs in \<open>simp_all add: push_nack_def sp_ok_def Let_def\<close>)
qed

lemma push_keeps_ok:
  assumes "sp_ok s" "nack_ok (sp_sn_size s) n"
  shows "sp_ok (push_nack n s)" "sp_missing (push_nack n s) = sp_missing s \<union> nack_missing (sp_mod_nr s) n"
proof -
  let ?m = "sp_mod_nr s" and ?z = "sp_sn_size s"
  have "sp_ok (push_nack n s) \<and> sp_missing (push_nack n s) = sp_missing s \<union> nack_missing ?m n"
    using assms
  proof (cases rule: push_nack_cases)
    case append
    then show ?thesis using assms by (auto simp: sp_ok_def sp_missing_def successively_append_iff add_ac)
  next
    case (merge xs p)
    have m: "?m = am_modulus ?z" by (simp add: sp_mod_nr_def)
    note f = merge_nack_fields [OF merge(3,4) assms(2)]
    have "\<not> can_be_merged ?m (last xs) (merge_nack p n)" if "xs \<noteq> []"
    proof
      assume c: "can_be_merged ?m (last xs) (merge_nack p n)"
      have "so_start p = 0" if "nack_has_so p" using c that f(4,5) by (simp add: can_be_merged_iff)
      then have "can_be_merged ?m (last xs) p" using c f(1,3) by (simp add: can_be_merged_iff)
      moreover have "\<not> can_be_merged ?m (last xs) p"
        using assms(1) merge(1) \<open>xs \<noteq> []\<close> by (simp add: sp_ok_def successively_append_iff)
      ultimately show False by blast
    qed
    then have "sp_ok (push_nack n s)"
      using assms(1) merge f(7) by (auto simp: sp_ok_def successively_append_iff)
    moreover have "nack_missing ?m (merge_nack p n) = nack_missing ?m p \<union> nack_missing ?m n"
      using merge_missing [of ?z p n ?z] merge(3,4) assms(2) m by simp
    ultimately show ?thesis using merge(1,2) by (auto simp: sp_missing_def)
  qed
  then show "sp_ok (push_nack n s)" "sp_missing (push_nack n s) = sp_missing s \<union> nack_missing ?m n" by blast+
qed

lemma push_all:
  assumes "sp_ok s" "\<forall>n \<in> set ns. nack_ok (sp_sn_size s) n"
  shows "sp_ok (fold push_nack ns s) \<and> sp_missing (fold push_nack ns s) = sp_missing s \<union> \<Union> (nack_missing (sp_mod_nr s) ` set ns) \<and>
    sp_sn_size (fold push_nack ns s) = sp_sn_size s"
  using assms
proof (induction ns arbitrary: s)
  case (Cons n ns)
  have "sp_ok (push_nack n s)" "\<forall>k \<in> set ns. nack_ok (sp_sn_size (push_nack n s)) k"
    using push_keeps_ok [of s n] Cons.prems by simp_all
  then show ?case using Cons.IH [of "push_nack n s"] push_keeps_ok(2) [of s n] Cons.prems by auto
qed simp

lemma sp_reset_fields [simp]:
  "sp_sn_size (sp_reset r) = sp_sn_size r" "sp_mod_nr (sp_reset r) = sp_mod_nr r" "sp_missing (sp_reset r) = {}"
  "sp_nacks (sp_reset r) = []"
  by (simp_all add: sp_mod_nr_def sp_reset_def sp_missing_def)

lemma push_all_reset:
  assumes "\<forall>n \<in> set ns. nack_ok (sp_sn_size r) n"
  defines "F \<equiv> fold push_nack ns (sp_reset r)"
  shows "sp_ok F" "sp_sn_size F = sp_sn_size r" "sp_mod_nr F = sp_mod_nr r"
    "sp_missing F = (\<Union>n \<in> set ns. nack_missing (sp_mod_nr r) n)"
proof -
  have "\<forall>n \<in> set ns. nack_ok (sp_sn_size (sp_reset r)) n" using assms(1) by simp
  note p = push_all [OF sp_ok_reset this, folded F_def]
  show "sp_ok F" "sp_missing F = (\<Union>n \<in> set ns. nack_missing (sp_mod_nr r) n)" using p by simp_all
  show "sp_sn_size F = sp_sn_size r" using p by simp
  then show "sp_mod_nr F = sp_mod_nr r" by (simp add: sp_mod_nr_def)
qed

text \<open>Pushing the NACKs of such a report again gives the same list.\<close>

lemma push_again:
  "successively (\<lambda>l r. \<not> can_be_merged (sp_mod_nr s) l r) (sp_nacks s @ ns) \<Longrightarrow>
    fold push_nack ns s = s\<lparr>sp_nacks := sp_nacks s @ ns, sp_packed_size := sp_packed_size s + nacks_size (sp_sn_size s) ns\<rparr>"
proof (induction ns arbitrary: s)
  case (Cons n ns)
  have "sp_nacks s = [] \<or> \<not> can_be_merged (sp_mod_nr s) (last (sp_nacks s)) n"
    using Cons.prems by (auto simp: successively_append_iff)
  then have p: "push_nack n s = s\<lparr>sp_nacks := sp_nacks s @ [n], sp_packed_size := sp_packed_size s + nack_size (sp_sn_size s) n\<rparr>"
    by (simp add: push_nack_def)
  show ?case using Cons.IH [of "push_nack n s"] Cons.prems by (simp add: p sp_mod_nr_def add.assoc)
qed simp

section \<open>Trimming\<close>

text \<open>The loop drops NACKs from the back, and ACK_SN becomes the sequence number of the last one dropped.\<close>

lemma trim_loop_result:
  assumes "sp_ok s"
  shows "\<exists>ns ms. sp_nacks s = ns @ ms \<and>
    sp_trim_loop mx s = s\<lparr>sp_nacks := ns, sp_ack_sn := (if ms = [] then sp_ack_sn s else nack_sn (hd ms)),
      sp_packed_size := status_pdu_sizeof_header_ack_sn + nacks_size (sp_sn_size s) ns\<rparr> \<and>
    (ns = [] \<or> status_pdu_sizeof_header_ack_sn + nacks_size (sp_sn_size s) ns \<le> mx \<and>
      nack_sn (last ns) \<noteq> (if ms = [] then sp_ack_sn s else nack_sn (hd ms)))"
  using assms
proof (induction mx s rule: sp_trim_loop.induct)
  case (1 mx s)
  have ps: "sp_packed_size s = status_pdu_sizeof_header_ack_sn + nacks_size (sp_sn_size s) (sp_nacks s)"
    using "1.prems" by (simp add: sp_ok_def)
  show ?case
  proof (cases "sp_nacks s \<noteq> [] \<and> (mx < sp_packed_size s \<or> nack_sn (last (sp_nacks s)) = sp_ack_sn s)")
    case False
    have "sp_trim_loop mx s = s" by (subst sp_trim_loop.simps) (simp only: False if_False)
    then show ?thesis using False ps by (intro exI [of _ "sp_nacks s"] exI [of _ "[]"]) (auto simp: not_less)
  next
    case True
    then obtain xs p where xs: "sp_nacks s = xs @ [p]" by (metis rev_exhaust)
    define t where "t = s\<lparr>sp_packed_size := sp_packed_size s - nack_size (sp_sn_size s) (last (sp_nacks s)),
        sp_ack_sn := nack_sn (last (sp_nacks s)), sp_nacks := butlast (sp_nacks s)\<rparr>"
    have f: "sp_sn_size t = sp_sn_size s" "sp_nacks t = xs" "sp_ack_sn t = nack_sn p"
      "t\<lparr>sp_nacks := a, sp_ack_sn := b, sp_packed_size := c\<rparr> = s\<lparr>sp_nacks := a, sp_ack_sn := b, sp_packed_size := c\<rparr>" for a b c
      by (simp_all add: t_def xs)
    have "sp_ok t" using "1.prems" by (simp add: sp_ok_def t_def xs sp_mod_nr_def successively_append_iff)
    then obtain ns ms where ih: "xs = ns @ ms"
      "sp_trim_loop mx t = s\<lparr>sp_nacks := ns, sp_ack_sn := (if ms = [] then nack_sn p else nack_sn (hd ms)),
        sp_packed_size := status_pdu_sizeof_header_ack_sn + nacks_size (sp_sn_size s) ns\<rparr>"
      "ns = [] \<or> status_pdu_sizeof_header_ack_sn + nacks_size (sp_sn_size s) ns \<le> mx \<and>
        nack_sn (last ns) \<noteq> (if ms = [] then nack_sn p else nack_sn (hd ms))"
      using "1.IH" [OF True, folded t_def, unfolded f] by blast
    have "sp_trim_loop mx s = sp_trim_loop mx t" unfolding t_def by (subst sp_trim_loop.simps) (simp only: True if_True simp_thms)
    moreover have "nack_sn (hd (ms @ [p])) = (if ms = [] then nack_sn p else nack_sn (hd ms))" by (cases ms) simp_all
    ultimately show ?thesis using ih by (intro exI [of _ ns] exI [of _ "ms @ [p]"]) (simp add: xs)
  qed
qed

lemma trim_result:
  assumes "sp_ok s" "sp_trim mx s = (True, t)"
  shows "\<exists>ns ms. sp_nacks s = ns @ ms \<and>
    t = s\<lparr>sp_nacks := ns, sp_ack_sn := (if ms = [] then sp_ack_sn s else nack_sn (hd ms)),
      sp_packed_size := status_pdu_sizeof_header_ack_sn + nacks_size (sp_sn_size s) ns\<rparr> \<and>
    sp_packed_size t \<le> mx \<and> (ms \<noteq> [] \<and> ns \<noteq> [] \<longrightarrow> nack_sn (last ns) \<noteq> nack_sn (hd ms))"
proof (cases "sp_packed_size s \<le> mx")
  case True
  then have "t = s" using assms(2) by (simp add: sp_trim_def)
  then show ?thesis using assms(1) True by (intro exI [of _ "sp_nacks s"] exI [of _ "[]"]) (simp add: sp_ok_def)
next
  case False
  then have m: "status_pdu_sizeof_header_ack_sn \<le> mx" and t: "t = sp_trim_loop mx s"
    using assms(2) by (auto simp: sp_trim_def not_less split: if_splits)
  obtain ns ms where r: "sp_nacks s = ns @ ms"
    "t = s\<lparr>sp_nacks := ns, sp_ack_sn := (if ms = [] then sp_ack_sn s else nack_sn (hd ms)),
      sp_packed_size := status_pdu_sizeof_header_ack_sn + nacks_size (sp_sn_size s) ns\<rparr>"
    "ns = [] \<or> status_pdu_sizeof_header_ack_sn + nacks_size (sp_sn_size s) ns \<le> mx \<and>
      nack_sn (last ns) \<noteq> (if ms = [] then sp_ack_sn s else nack_sn (hd ms))"
    using trim_loop_result [OF assms(1), of mx] unfolding t by blast
  then have "sp_packed_size t \<le> mx" using m by (cases "ns = []") simp_all
  moreover have "ms \<noteq> [] \<and> ns \<noteq> [] \<longrightarrow> nack_sn (last ns) \<noteq> nack_sn (hd ms)" using r(3) by auto
  ultimately show ?thesis using r(1,2) by blast
qed

lemma trim_keeps_ok:
  assumes "sp_ok s" "sp_trim mx s = (True, t)"
  shows "sp_ok t" "sp_sn_size t = sp_sn_size s" "sp_packed_size t \<le> mx"
    "sp_ack_sn s < 2 ^ am_sn_bits (sp_sn_size s) \<Longrightarrow> sp_ack_sn t < 2 ^ am_sn_bits (sp_sn_size s)"
proof -
  obtain ns ms where t: "sp_nacks s = ns @ ms"
    "t = s\<lparr>sp_nacks := ns, sp_ack_sn := (if ms = [] then sp_ack_sn s else nack_sn (hd ms)),
      sp_packed_size := status_pdu_sizeof_header_ack_sn + nacks_size (sp_sn_size s) ns\<rparr>" "sp_packed_size t \<le> mx"
    using trim_result [OF assms] by blast
  show "sp_ok t" "sp_sn_size t = sp_sn_size s" "sp_packed_size t \<le> mx"
    using assms(1) t by (simp_all add: sp_ok_def sp_mod_nr_def successively_append_iff)
  show "sp_ack_sn t < 2 ^ am_sn_bits (sp_sn_size s)" if "sp_ack_sn s < 2 ^ am_sn_bits (sp_sn_size s)"
    using assms(1) t that by (cases ms) (simp_all add: sp_ok_def nack_ok_def)
qed

section \<open>Packing\<close>

lemma pack_ext_length: "word_of_nat (length (sp_pack_ext n)) = (if nack_has_so n then 4 else 0) + (if has_nack_range n then 1 else 0 :: u32)"
  by (simp add: sp_pack_ext_def)

lemma pack_nacks_length:
  "word_of_nat (length (sp_pack_nacks12 ns)) = nacks_size am_size12bits ns"
  "word_of_nat (length (sp_pack_nacks18 ns)) = nacks_size am_size18bits ns"
  by (induction ns) (simp_all add: pack_ext_length nack_size_def)

lemma ack_bytes:
  fixes x :: u32
  shows "take_bit 3 (drop_bit 4 (ucast (take_bit 4 x) :: byte)) = 0" "take_bit 1 (drop_bit 7 (ucast (take_bit 4 x) :: byte)) = 0"
    "take_bit 4 (ucast (ucast (take_bit 4 x) :: byte)) = take_bit 4 x"
    "push_bit 8 (take_bit 4 (drop_bit 8 x)) OR take_bit 8 (ucast (ucast (take_bit 8 x) :: byte)) = take_bit 12 x"
    "push_bit 14 (take_bit 4 (drop_bit 14 x)) OR push_bit 6 (take_bit 8 (ucast (ucast (take_bit 8 (drop_bit 6 x)) :: byte))) OR
      take_bit 6 x = take_bit 18 x"
proof -
  show "push_bit 14 (take_bit 4 (drop_bit 14 x)) OR push_bit 6 (take_bit 8 (ucast (ucast (take_bit 8 (drop_bit 6 x)) :: byte))) OR
      take_bit 6 x = take_bit 18 x" (is "?l = _")
  proof (rule bit_word_eqI)
    fix n
    show "bit ?l n = bit (take_bit 18 x) n" by (cases "n < 6"; cases "n < 14") (auto simp: bit_simps)
  qed
qed (auto intro!: bit_word_eqI simp: bit_simps simp del: One_nat_def)

lemma ack_flags18:
  fixes x :: u32 and e :: bool
  defines "b \<equiv> ucast (push_bit 2 (take_bit 6 x)) OR (if e then 0x02 else 0 :: byte)"
  shows "b AND 0x01 = 0" "b AND 0x02 = 0 \<longleftrightarrow> \<not> e" "drop_bit 2 (ucast b AND 0xfc) = take_bit 6 x"
proof -
  show "b AND 0x01 = 0" "b AND 0x02 = 0 \<longleftrightarrow> \<not> e" unfolding flag_masks b_def by (auto simp: bit_simps)
  have "drop_bit 2 (if e then 0x02 else 0 :: byte) = 0" by simp
  then show "drop_bit 2 (ucast b AND 0xfc) = take_bit 6 x"
    unfolding high_masks b_def by (rule above_flags) simp
qed

lemma sp_pack_unpack:
  assumes "sp_ok s" "sp_ack_sn s < 2 ^ am_sn_bits (sp_sn_size s)" "sp_sn_size r = sp_sn_size s"
  shows "sp_unpack (sp_pack s) r = (True, s)" "sp_packed_size s = word_of_nat (length (sp_pack s))"
proof -
  let ?r = "(sp_reset r)\<lparr>sp_ack_sn := sp_ack_sn s\<rparr>"
  have z: "sp_cpt s = 0" "sp_packed_size s = status_pdu_sizeof_header_ack_sn + nacks_size (sp_sn_size s) (sp_nacks s)"
    using assms(1) by (simp_all add: sp_ok_def)
  have q: "sp_sn_size ?r = sp_sn_size s" "(sp_reset r)\<lparr>sp_cpt := 0, sp_ack_sn := sp_ack_sn s\<rparr> = ?r"
    using assms(3) by (simp_all add: sp_reset_def)
  have f: "fold push_nack (sp_nacks s) ?r = s"
  proof -
    have "successively (\<lambda>l r. \<not> can_be_merged (sp_mod_nr ?r) l r) (sp_nacks ?r @ sp_nacks s)"
      using assms(1,3) by (simp add: sp_ok_def sp_mod_nr_def sp_reset_def)
    from push_again [OF this] show ?thesis using z assms(3) by (simp add: sp_reset_def)
  qed
  show "sp_unpack (sp_pack s) r = (True, s)"
  proof (cases "sp_sn_size s")
    case am_size12bits
    define a :: byte where "a = ucast (take_bit 4 (drop_bit 8 (sp_ack_sn s)))"
    have t: "take_bit 12 (sp_ack_sn s) = sp_ack_sn s"
      using assms(2) by (intro sn_take_bit) (simp add: am_size12bits am_sn_bits_def)
    define c :: byte where "c = (if sp_nacks s \<noteq> [] then 0x80 else 0)"
    have c: "c AND 0x7f = 0" "c AND 0x80 = 0 \<longleftrightarrow> sp_nacks s = []" by (simp_all add: c_def)
    have p: "sp_pack s = a # ucast (take_bit 8 (sp_ack_sn s)) # c # sp_pack_nacks12 (sp_nacks s)"
      by (simp add: sp_pack_def am_size12bits sp_pack_12bit_def low_masks a_def c_def)
    note b = ack_bytes(1-3) [of "drop_bit 8 (sp_ack_sn s)", folded a_def]
    have "\<forall>n \<in> set (sp_nacks s). nack_ok am_size12bits n" using assms(1) by (simp add: sp_ok_def am_size12bits)
    note u = unpack_nacks12 [OF this, of ?r]
    show ?thesis unfolding p using u f assms(3)
      by (simp add: sp_unpack_def am_size12bits sp_unpack_12bit_def c sp_is_control_pdu_def low_masks(1-4,6) b ack_bytes(4) t
          status_pdu_sizeof_header_ack_sn_def q del: One_nat_def and_one_eq)
  next
    case am_size18bits
    define a :: byte where "a = ucast (take_bit 4 (drop_bit 14 (sp_ack_sn s)))"
    define c :: byte where "c = ucast (push_bit 2 (take_bit 6 (sp_ack_sn s))) OR (if sp_nacks s \<noteq> [] then 0x02 else 0)"
    have t: "take_bit 18 (sp_ack_sn s) = sp_ack_sn s"
      using assms(2) by (intro sn_take_bit) (simp add: am_size18bits am_sn_bits_def)
    have m: "push_bit 2 x AND 0xfc = push_bit 2 (take_bit 6 x)" for x :: u32
      unfolding high_masks by (rule bit_word_eqI) (auto simp: bit_simps)
    have p: "sp_pack s = a # ucast (take_bit 8 (drop_bit 6 (sp_ack_sn s))) # c # sp_pack_nacks18 (sp_nacks s)"
      unfolding sp_pack_def am_size18bits rlc_am_sn_size.case sp_pack_18bit_def m by (simp add: low_masks a_def c_def)
    note b = ack_bytes(1-3) [of "drop_bit 14 (sp_ack_sn s)", folded a_def]
    note fl = ack_flags18 [of "sp_ack_sn s" "sp_nacks s \<noteq> []", folded c_def]
    have "\<forall>n \<in> set (sp_nacks s). nack_ok am_size18bits n" using assms(1) by (simp add: sp_ok_def am_size18bits)
    note u = unpack_nacks18 [OF this, of ?r]
    show ?thesis unfolding p using u f assms(3)
      by (simp add: sp_unpack_def am_size18bits sp_unpack_18bit_def sp_is_control_pdu_def low_masks(1-4,6) b ack_bytes(5) t fl(2,3) fl(1) [unfolded low_masks]
          status_pdu_sizeof_header_ack_sn_def q del: One_nat_def and_one_eq drop_bit_and)
  qed
  show "sp_packed_size s = word_of_nat (length (sp_pack s))"
    using z(2) by (cases "sp_sn_size s")
      (simp_all add: sp_pack_def sp_pack_12bit_def sp_pack_18bit_def pack_nacks_length status_pdu_sizeof_header_ack_sn_def)
qed

text \<open>C29. A status report that the receiver builds out of NACKs (pushed, so merged where neighbours are contiguous) and
  that is trimmed to a grant, is packed into as many bytes as announced, which fit the grant, and read back by the
  peer as the same report.\<close>

theorem am_status_roundtrip:
  assumes "\<forall>n \<in> set ns. nack_ok (sp_sn_size r) n" "ack < 2 ^ am_sn_bits (sp_sn_size r)"
    and "sp_trim mx ((fold push_nack ns (sp_reset r))\<lparr>sp_ack_sn := ack\<rparr>) = (True, s)"
  shows "sp_unpack (sp_pack s) r = (True, s) \<and> sp_packed_size s = word_of_nat (length (sp_pack s)) \<and> sp_packed_size s \<le> mx"
proof -
  let ?u = "(fold push_nack ns (sp_reset r))\<lparr>sp_ack_sn := ack\<rparr>"
  have u: "sp_ok ?u" "sp_sn_size ?u = sp_sn_size r"
    using push_all_reset(1,2) [OF assms(1)] by (simp_all add: sp_ok_def sp_mod_nr_def)
  note t = trim_keeps_ok [OF u(1) assms(3)]
  have "sp_ack_sn ?u < 2 ^ am_sn_bits (sp_sn_size ?u)" unfolding u(2) using assms(2) by simp
  then have a: "sp_ack_sn s < 2 ^ am_sn_bits (sp_sn_size s)" using t(2,4) by simp
  have r: "sp_sn_size r = sp_sn_size s" unfolding t(2) u(2) ..
  show ?thesis using sp_pack_unpack [OF t(1) a r] t(3) by blast
qed

definition am_demo_nacks :: "rlc_am_status_nack list" where
  "am_demo_nacks = [rlc_am_nack_new\<lparr>nack_sn := 4095, nack_has_so := True, so_start := 20\<rparr>, rlc_am_nack_new,
    rlc_am_nack_new\<lparr>nack_sn := 1, nack_has_so := True, so_end := 9\<rparr>,
    rlc_am_nack_new\<lparr>nack_sn := 1, nack_has_so := True, so_start := 30, so_end := 49\<rparr>]"

theorem am_status_roundtrip_witness:
  "\<exists>s. sp_trim 15 ((fold push_nack am_demo_nacks (sp_reset (rlc_am_status_pdu_new am_size12bits)))\<lparr>sp_ack_sn := 5\<rparr>) = (True, s) \<and>
    sp_nacks s \<noteq> [] \<and> sp_unpack (sp_pack s) (rlc_am_status_pdu_new am_size12bits) = (True, s)"
proof -
  let ?r = "rlc_am_status_pdu_new am_size12bits"
  let ?u = "(fold push_nack am_demo_nacks (sp_reset ?r))\<lparr>sp_ack_sn := 5\<rparr>"
  have ok: "\<forall>n \<in> set am_demo_nacks. nack_ok (sp_sn_size ?r) n" "(5 :: u32) < 2 ^ am_sn_bits (sp_sn_size ?r)"
    by (simp_all add: am_demo_nacks_def nack_ok_def rlc_am_nack_new_def rlc_am_status_pdu_new_def am_sn_bits_def so_end_of_sdu_def)
  have "fst (sp_trim 15 ?u)" "sp_nacks (snd (sp_trim 15 ?u)) \<noteq> []" by code_simp+
  then show ?thesis using am_status_roundtrip [OF ok, of 15 "snd (sp_trim 15 ?u)"]
    by (intro exI [of _ "snd (sp_trim 15 ?u)"]) (simp add: prod_eq_iff)
qed

text \<open>C30. Merging keeps the content: whatever NACKs are pushed, the report announces exactly the bytes they announce as
  missing, and no two neighbouring NACKs of it could be merged any more.\<close>

theorem am_merge_keeps_content:
  assumes "\<forall>n \<in> set ns. nack_ok (sp_sn_size r) n"
  shows "sp_missing (fold push_nack ns (sp_reset r)) = (\<Union>n \<in> set ns. nack_missing (sp_mod_nr r) n) \<and>
    successively (\<lambda>x y. \<not> can_be_merged (sp_mod_nr r) x y) (sp_nacks (fold push_nack ns (sp_reset r)))"
  using push_all_reset [OF assms] by (simp add: sp_ok_def)

theorem am_merge_keeps_content_witness:
  "sp_missing (fold push_nack am_demo_nacks (sp_reset (rlc_am_status_pdu_new am_size12bits))) =
    (\<Union>n \<in> set am_demo_nacks. nack_missing (sp_mod_nr (rlc_am_status_pdu_new am_size12bits)) n)"
  by (rule am_merge_keeps_content [THEN conjunct1])
    (simp add: am_demo_nacks_def nack_ok_def rlc_am_nack_new_def rlc_am_status_pdu_new_def am_sn_bits_def so_end_of_sdu_def)

text \<open>What the comment in \<open>trim\<close> rules out: ACK_SN may become the sequence number of an SDU that the report still
  announces as missing. The loop compares only the first sequence number of the last NACK with ACK_SN, so a NACK
  range that ends in the same SDU as the dropped NACK stays.\<close>

theorem am_trim_keeps_nack_of_ack_sn:
  "let s = (fold push_nack am_demo_nacks (sp_reset (rlc_am_status_pdu_new am_size12bits)))\<lparr>sp_ack_sn := 5\<rparr>;
       t = snd (sp_trim 15 s)
   in fst (sp_trim 15 s) \<and> sp_ack_sn t = 1 \<and> (1, 0) \<in> sp_missing t"
proof -
  let ?s = "(fold push_nack am_demo_nacks (sp_reset (rlc_am_status_pdu_new am_size12bits)))\<lparr>sp_ack_sn := 5\<rparr>"
  let ?n = "rlc_am_nack_new\<lparr>nack_sn := 4095, nack_has_so := True, so_start := 20, so_end := 9, has_nack_range := True, nack_range := 3\<rparr>"
  have t: "fst (sp_trim 15 ?s)" "sp_ack_sn (snd (sp_trim 15 ?s)) = 1" "sp_nacks (snd (sp_trim 15 ?s)) = [?n]"
    "sp_mod_nr (snd (sp_trim 15 ?s)) = 4096"
    by code_simp+
  have "nack_len ?n = 3" by (simp add: nack_len_def)
  then have "(1, 0) \<in> nack_missing 4096 ?n"
    unfolding nack_missing_def by (auto simp: so_end_of_sdu_def rlc_am_nack_new_def intro!: exI [of _ "2 :: nat"])
  then show ?thesis using t by (simp add: sp_missing_def Let_def)
qed

end
