(* ===== verification/Rlc_Am_Sn.thy ===== *)
theory Rlc_Am_Sn
  imports Rlc_Am_Pdu_Props
begin

text \<open>
  Sequence numbers of RLC AM relative to a modulus base, which is RX_Next in the receiver and TX_Next_Ack in the
  transmitter: the arithmetic behind \<open>rx_mod_base\<close> and \<open>tx_mod_base\<close>.
\<close>

section \<open>Positions\<close>

text \<open>How far \<open>x\<close> is ahead of \<open>base\<close>, and the number of sequence numbers.\<close>

definition am_pos :: "rlc_am_sn_size \<Rightarrow> u32 \<Rightarrow> u32 \<Rightarrow> nat" where
  "am_pos sz base x = unat ((x - base) mod am_modulus sz)"

definition am_M :: "rlc_am_sn_size \<Rightarrow> nat" where
  "am_M sz = unat (am_modulus sz)"

definition am_W :: "rlc_am_sn_size \<Rightarrow> nat" where
  "am_W sz = unat (rlc_window_size (rlc_am_sn_size_to_number sz))"

definition am_sn_ok :: "rlc_am_sn_size \<Rightarrow> u32 \<Rightarrow> bool" where
  "am_sn_ok sz x \<longleftrightarrow> unat x < am_M sz"

lemma am_sizes:
  "am_M sz = (case sz of am_size12bits \<Rightarrow> 4096 | am_size18bits \<Rightarrow> 262144)" "am_M sz = 2 * am_W sz" "0 < am_W sz" "2 \<le> am_W sz"
  by (cases sz; simp add: am_M_def am_W_def am_modulus_def rlc_cardinality_def rlc_window_size_def)+

lemma am_M_pos [simp]: "0 < am_M sz"
  using am_sizes(2,3) [of sz] by simp

lemma am_M_dvd: "int (am_M sz) dvd 2 ^ 32"
  by (cases sz) (simp_all add: am_sizes(1))

lemma am_sn_ok_iff: "am_sn_ok sz x \<longleftrightarrow> x < am_modulus sz"
  by (simp add: am_sn_ok_def am_M_def word_less_nat_alt)

lemma int_unat_mod: "int (unat (x mod am_modulus sz)) = int (unat x) mod int (am_M sz)"
  by (simp add: am_M_def uint_mod)

text \<open>The base is a position like any other, counted with integers.\<close>

lemma int_am_pos: "int (am_pos sz base x) = (int (unat x) - int (unat base)) mod int (am_M sz)"
proof -
  have u: "int (unat (x - base)) = (int (unat x) - int (unat base)) mod 2 ^ 32" by (simp add: uint_word_ariths)
  show ?thesis unfolding am_pos_def int_unat_mod u by (rule mod_mod_cancel [OF am_M_dvd])
qed

lemma am_pos_less [simp]: "am_pos sz base x < am_M sz"
proof -
  have "int (am_pos sz base x) < int (am_M sz)" unfolding int_am_pos using am_M_pos [of sz] by (intro pos_mod_bound) simp
  then show ?thesis by simp
qed

lemma am_pos_self [simp]: "am_pos sz base base = 0"
  by (simp add: am_pos_def)

lemma am_pos_inj:
  assumes "am_pos sz base x = am_pos sz base y" "am_sn_ok sz x" "am_sn_ok sz y"
  shows "x = y"
proof -
  have "(int (unat x) - int (unat base)) mod int (am_M sz) = (int (unat y) - int (unat base)) mod int (am_M sz)"
    unfolding int_am_pos [symmetric] using assms(1) by simp
  then have d: "int (am_M sz) dvd int (unat x) - int (unat y)" by (simp add: mod_eq_dvd_iff)
  have "\<bar>int (unat x) - int (unat y)\<bar> < int (am_M sz)" using assms(2,3) unfolding am_sn_ok_def by linarith
  then have "uint x = uint y" using d dvd_imp_le_int [of "int (unat x) - int (unat y)" "int (am_M sz)"] by auto
  then show ?thesis by (simp only: word_uint_eq_iff)
qed

lemma am_pos_zero: "am_sn_ok sz x \<Longrightarrow> am_sn_ok sz base \<Longrightarrow> am_pos sz base x = 0 \<longleftrightarrow> x = base"
  using am_pos_inj [of sz base x base] by auto

lemma am_pos_mod [simp]: "am_pos sz base (x mod am_modulus sz) = am_pos sz base x"
proof -
  have "int (am_pos sz base (x mod am_modulus sz)) = int (am_pos sz base x)"
    unfolding int_am_pos int_unat_mod by (simp add: mod_diff_left_eq)
  then show ?thesis by simp
qed

text \<open>Counting from another base.\<close>

lemma mod_diff_small:
  assumes "p < M" "q < M"
  shows "(int p - int q) mod int M = int (if q \<le> p then p - q else p + M - q)"
proof (cases "q \<le> p")
  case True
  have "int p - int q = int (p - q)" using True by simp
  also have "\<dots> mod int M = int (p - q)" using assms by (intro mod_pos_pos_trivial) simp_all
  finally show ?thesis using True by simp
next
  case False
  have "(int p - int q) mod int M = (int p - int q + int M) mod int M" by simp
  also have "int p - int q + int M = int (p + M - q)" using False assms by simp
  also have "int (p + M - q) mod int M = int (p + M - q)" using False assms by (intro mod_pos_pos_trivial) simp_all
  finally show ?thesis using False by simp
qed

lemma am_pos_rebase:
  "am_pos sz b' x = (if am_pos sz base b' \<le> am_pos sz base x then am_pos sz base x - am_pos sz base b'
     else am_pos sz base x + am_M sz - am_pos sz base b')"
proof -
  have "int (am_pos sz b' x) = (int (am_pos sz base x) - int (am_pos sz base b')) mod int (am_M sz)"
    unfolding int_am_pos mod_diff_eq by simp
  then show ?thesis unfolding mod_diff_small [OF am_pos_less am_pos_less] by (simp only: of_nat_eq_iff)
qed

text \<open>The next sequence number.\<close>

lemma am_sn_ok_mod [simp]: "am_sn_ok sz (x mod am_modulus sz)"
  using am_M_pos [of sz] by (simp add: am_sn_ok_def am_M_def unat_mod del: am_M_pos)

lemma am_sn_mod_id: "am_sn_ok sz i \<Longrightarrow> i mod am_modulus sz = i"
  by (simp add: am_sn_ok_def am_M_def word_unat_eq_iff unat_mod)

lemma am_pos_add:
  assumes "am_pos sz base x + n < am_M sz"
  shows "am_pos sz base (x + word_of_nat n) = am_pos sz base x + n"
proof -
  have "word_of_nat (unat x + n) = x + word_of_nat n" by simp
  then have u: "int (unat (x + word_of_nat n)) = (int (unat x) + int n) mod 2 ^ 32"
    using uint_word_of_int [of "int (unat x) + int n", where 'a = 32] by simp
  have "int (am_pos sz base (x + word_of_nat n)) = ((int (unat x) + int n) mod 2 ^ 32 - int (unat base)) mod int (am_M sz)"
    unfolding int_am_pos u ..
  also have "\<dots> = (((int (unat x) + int n) mod 2 ^ 32) mod int (am_M sz) - int (unat base)) mod int (am_M sz)"
    by (simp only: mod_diff_left_eq)
  also have "\<dots> = (int (unat x) + int n - int (unat base)) mod int (am_M sz)"
    by (simp only: mod_mod_cancel [OF am_M_dvd] mod_diff_left_eq)
  also have "\<dots> = (int (am_pos sz base x) + int n) mod int (am_M sz)"
    unfolding int_am_pos mod_add_left_eq by (simp add: algebra_simps)
  also have "\<dots> = int (am_pos sz base x + n)" using assms by simp
  finally show ?thesis by simp
qed

lemma am_pos_Suc: "am_pos sz base x + 1 < am_M sz \<Longrightarrow> am_pos sz base (x + 1) = Suc (am_pos sz base x)"
  using am_pos_add [of sz base x 1] by simp

lemma am_pos_next: "am_pos sz x (x + 1) = 1"
  using am_pos_Suc [of sz x x] am_sizes(2,3) [of sz] by simp

text \<open>The sequence number at a position.\<close>

definition am_at :: "rlc_am_sn_size \<Rightarrow> u32 \<Rightarrow> nat \<Rightarrow> u32" where
  "am_at sz base i = (base + word_of_nat i) mod am_modulus sz"

lemma am_at_props [simp]: "am_sn_ok sz (am_at sz base i)" "i < am_M sz \<Longrightarrow> am_pos sz base (am_at sz base i) = i"
  using am_pos_add [of sz base base i] by (simp_all add: am_at_def)

lemma am_at_pos: "am_sn_ok sz x \<Longrightarrow> am_at sz base (am_pos sz base x) = x"
  by (rule am_pos_inj [of sz base]) simp_all

lemma am_at_Suc: "(am_at sz base i + 1) mod am_modulus sz = am_at sz base (Suc i)"
  unfolding am_at_def mod_am_modulus_add by (simp add: add_ac)

lemma am_at_0: "am_sn_ok sz base \<Longrightarrow> am_at sz base 0 = base"
  using am_at_pos [of sz base base] by simp

end
