(* ===== verification/Rlc_Am_Window.thy ===== *)
theory Rlc_Am_Window
  imports Rlc_Am_Sn Sdu_Window
begin

text \<open>
  The SDU windows of RLC AM: both entities index them with sequence numbers, and the window holds as many elements as the AM
  window has sequence numbers, so two of them never share a slot.
\<close>

lemma am_pos_slot:
  assumes "am_pos sz base x < am_W sz" "am_pos sz base y < am_W sz" "unat x mod am_W sz = unat y mod am_W sz"
  shows "am_pos sz base x = am_pos sz base y"
proof -
  have d: "int (am_W sz) dvd int (am_M sz)" by (simp add: am_sizes(2))
  have "int (am_pos sz base x) mod int (am_W sz) = (int (unat x) - int (unat base)) mod int (am_W sz)" for x
    unfolding int_am_pos by (rule mod_mod_cancel [OF d])
  moreover have "(int (unat x) - b) mod int (am_W sz) = (int (unat y) - b) mod int (am_W sz)" for b
    using assms(3) by (metis mod_diff_left_eq zmod_int)
  ultimately have "int (am_pos sz base x) mod int (am_W sz) = int (am_pos sz base y) mod int (am_W sz)" by simp
  then show ?thesis using assms(1,2) by (simp flip: zmod_int)
qed

text \<open>All sequence numbers of a window lie within \<open>n\<close> of the base.\<close>

definition am_window_ok :: "rlc_am_sn_size \<Rightarrow> u32 \<Rightarrow> nat \<Rightarrow> (u32 \<Rightarrow> 'a option) \<Rightarrow> bool" where
  "am_window_ok sz base n f \<longleftrightarrow> (\<forall>k. f k \<noteq> None \<longrightarrow> am_sn_ok sz k \<and> am_pos sz base k < n)"

lemma am_window_okD: "am_window_ok sz base n f \<Longrightarrow> f k = Some i \<Longrightarrow> am_sn_ok sz k \<and> am_pos sz base k < n"
  by (auto simp: am_window_ok_def)

lemma am_at_add_sn:
  assumes "cm_wf w" "cm_size w = am_W sz" "am_window_ok sz base (am_W sz) (cm_at w)" "am_sn_ok sz k" "am_pos sz base k < am_W sz"
  shows "cm_at (add_sn w k v) = (cm_at w)(k \<mapsto> v)"
proof
  fix j
  have "j = k" if "cm_at w j \<noteq> None" "cm_idx w j = cm_idx w k"
  proof (rule am_pos_inj [of sz base])
    have j: "am_sn_ok sz j" "am_pos sz base j < am_W sz" using that(1) assms(3) by (auto simp: am_window_ok_def)
    then show "am_pos sz base j = am_pos sz base k" "am_sn_ok sz j" using that(2) assms(2,5)
      by (auto intro: am_pos_slot simp: cm_idx_def)
  qed (rule assms(4))
  then show "cm_at (add_sn w k v) j = ((cm_at w)(k \<mapsto> v)) j" by (cases "cm_at w j") (auto simp: cm_at_add_sn [OF assms(1)])
qed
section \<open>Counting\<close>

lemma cm_count_keys:
  assumes "cm_wf w"
  shows "cm_count w = card {k. cm_at w k \<noteq> None}"
proof -
  have "cm_idx w ` {k. cm_at w k \<noteq> None} = {i. cm_slots w i \<noteq> None}"
  proof
    show "cm_idx w ` {k. cm_at w k \<noteq> None} \<subseteq> {i. cm_slots w i \<noteq> None}" by (auto simp: cm_at_slots [OF assms])
    show "{i. cm_slots w i \<noteq> None} \<subseteq> cm_idx w ` {k. cm_at w k \<noteq> None}"
    proof
      fix i
      assume "i \<in> {i. cm_slots w i \<noteq> None}"
      then obtain k v where k: "cm_slots w i = Some (k, v)" by auto
      then have "i = cm_idx w k" using cm_wf_slot [OF assms] by blast
      then show "i \<in> cm_idx w ` {k. cm_at w k \<noteq> None}" using k cm_at_slots [OF assms, of k v] by auto
    qed
  qed
  moreover have "inj_on (cm_idx w) {k. cm_at w k \<noteq> None}"
    by (intro inj_onI) (use cm_at_same_slot [OF assms] in auto)
  ultimately show ?thesis using assms by (metis card_image cm_wf_def)
qed

text \<open>The sequence numbers at the first \<open>n\<close> positions.\<close>

lemma card_am_below: "n \<le> am_M sz \<Longrightarrow> card {k. am_sn_ok sz k \<and> am_pos sz base k < n} = n"
proof -
  assume n: "n \<le> am_M sz"
  have "{k. am_sn_ok sz k \<and> am_pos sz base k < n} = am_at sz base ` {..<n}"
  proof (intro equalityI subsetI)
    fix k
    assume "k \<in> {k. am_sn_ok sz k \<and> am_pos sz base k < n}"
    then show "k \<in> am_at sz base ` {..<n}" by (intro image_eqI [of _ _ "am_pos sz base k"]) (simp_all add: am_at_pos)
  qed (use n in auto)
  moreover have "inj_on (am_at sz base) {..<n}"
    by (intro inj_onI) (use n am_at_props(2) [of _ sz base] in \<open>metis lessThan_iff order_less_le_trans\<close>)
  ultimately show ?thesis by (simp add: card_image)
qed

end
