(* ===== verification/Rlc_Am_Carry.thy ===== *)
theory Rlc_Am_Carry
  imports Rlc_Am_Sn Rlc_Segments
begin

text \<open>
  Which data PDUs carry an SDU, or a segment of it: what the transmitter has to send and the receiver may rely on.
\<close>

lemma am_sn_bits_M: "am_M sz = 2 ^ am_sn_bits sz"
  by (cases sz) (simp_all add: am_sizes(1) am_sn_bits_def)

lemma sn_ok_bits: "x < 2 ^ am_sn_bits sz \<longleftrightarrow> am_sn_ok sz x"
  by (simp add: am_sn_ok_iff am_modulus_power)

definition am_segment_of :: "rlc_am_pdu_header \<times> bytes \<Rightarrow> um_segment" where
  "am_segment_of p = \<lparr>seg_si = am_si (fst p), seg_so = am_so (fst p), seg_payload = snd p\<rparr>"

definition am_pdu_of :: "rlc_am_pdu_header \<times> bytes \<Rightarrow> bytes" where
  "am_pdu_of p = rlc_am_write_data_pdu_header (fst p) @ snd p"

text \<open>The PDUs that carry the SDU with the sequence number \<open>x\<close> or a segment of it.\<close>

definition am_pdu_carries :: "rlc_am_sn_size \<Rightarrow> u32 \<Rightarrow> bytes \<Rightarrow> rlc_am_pdu_header \<times> bytes \<Rightarrow> bool" where
  "am_pdu_carries sz x sdu p \<longleftrightarrow> am_header_ok (fst p) \<and> am_dc (fst p) = rlc_data \<and> am_sn_size (fst p) = sz \<and> am_sn (fst p) = x \<and>
    (if am_si (fst p) = full_sdu then snd p = sdu else seg_of sdu (am_segment_of p))"

lemma carried_range:
  assumes "am_pdu_carries sz x sdu p" "sdu \<noteq> []"
  shows "seg_range (am_segment_of p) \<subseteq> {0 ..< length sdu}" "snd p \<noteq> []"
    "am_si (fst p) = full_sdu \<Longrightarrow> seg_range (am_segment_of p) = {0 ..< length sdu}"
proof -
  have "am_so (fst p) = 0" if "am_si (fst p) = full_sdu" using assms(1) that by (auto simp: am_pdu_carries_def am_header_ok_def)
  then show "am_si (fst p) = full_sdu \<Longrightarrow> seg_range (am_segment_of p) = {0 ..< length sdu}"
    using assms(1) by (simp add: am_pdu_carries_def seg_range_def seg_end_def am_segment_of_def)
  then show "seg_range (am_segment_of p) \<subseteq> {0 ..< length sdu}"
    using assms by (cases "am_si (fst p) = full_sdu") (auto simp: am_pdu_carries_def seg_of_def seg_range_def am_segment_of_def)
  show "snd p \<noteq> []" using assms by (auto simp: am_pdu_carries_def seg_of_def am_segment_of_def split: if_splits)
qed

text \<open>The PDU with the \<open>n\<close> bytes from offset \<open>so\<close> on.\<close>

definition piece_si :: "nat \<Rightarrow> nat \<Rightarrow> nat \<Rightarrow> rlc_si_field" where
  "piece_si so n len = (if so = 0 then (if n = len then full_sdu else first_segment)
     else if so + n = len then last_segment else middle_segment)"

definition piece_header :: "rlc_am_sn_size \<Rightarrow> byte \<Rightarrow> u32 \<Rightarrow> nat \<Rightarrow> nat \<Rightarrow> nat \<Rightarrow> rlc_am_pdu_header" where
  "piece_header sz p sn so n len = \<lparr>am_dc = rlc_data, am_p = p, am_si = piece_si so n len, am_sn_size = sz, am_sn = sn,
    am_so = word_of_nat so\<rparr>"

lemma piece_written:
  assumes "am_sn_ok sz sn" "p < 2" "0 < n" "so + n \<le> length sdu" "length sdu < 2 ^ 16"
  defines "h \<equiv> piece_header sz p sn so n (length sdu)" and "payload \<equiv> take n (drop so sdu)"
  shows "am_pdu_carries sz sn sdu (h, payload)" "unat (am_so h) = so" "length payload = n" "payload \<noteq> []"
    "length (rlc_am_write_data_pdu_header h) = (if so = 0 then rlc_am_pdu_header_min_size sz else rlc_am_pdu_header_max_size sz)"
proof -
  have "so < 2 ^ LENGTH(16)" using assms(3-5) by simp
  then show so: "unat (am_so h) = so" by (simp add: h_def piece_header_def unsigned_of_nat take_bit_nat_eq_self)
  then have z: "am_so h \<noteq> 0 \<longleftrightarrow> so \<noteq> 0" by (metis unat_eq_0)
  show n: "length payload = n" and ne: "payload \<noteq> []" using assms(3,4) by (auto simp: payload_def)
  have si: "am_si h = piece_si so n (length sdu)" "am_sn_size h = sz" "am_dc h = rlc_data" "am_sn h = sn" "am_p h = p"
    by (simp_all add: h_def piece_header_def)
  have ok: "am_header_ok h" unfolding am_header_ok_def z using assms(1,2) by (auto simp: si piece_si_def sn_ok_bits)
  have "seg_of sdu (am_segment_of (h, payload))" if "so \<noteq> 0 \<or> n \<noteq> length sdu"
    using that assms(3,4) n ne by (auto simp: seg_of_def am_segment_of_def seg_end_def so si piece_si_def payload_def)
  moreover have "payload = sdu" if "so = 0" "n = length sdu" using that by (simp add: payload_def)
  ultimately show "am_pdu_carries sz sn sdu (h, payload)" using ok by (auto simp: am_pdu_carries_def si piece_si_def)
  show "length (rlc_am_write_data_pdu_header h) = (if so = 0 then rlc_am_pdu_header_min_size sz else rlc_am_pdu_header_max_size sz)"
    using am_header_read [OF ok ne] by (auto simp: am_get_packed_size_def si piece_si_def)
qed

end
