(* ===== verification/Rlc_Am_Tx_Inv.thy ===== *)
theory Rlc_Am_Tx_Inv
  imports Rlc_Am_Tx Rlc_Am_Window Rlc_Am_Carry Rlc_Um_Tx_Inv
begin

text \<open>
  The invariant of the AM transmitter. The window holds exactly the sequence numbers from TX_Next_Ack to TX_Next, TX_Next
  itself only while its SDU is being segmented; every pending retransmission lies within an SDU of the window. The
  building of PDUs keeps it; the processing of status reports is in \<open>Rlc_Am_Tx_Status\<close>.
\<close>

section \<open>Positions\<close>

definition at_sz :: "rlc_tx_am \<Rightarrow> rlc_am_sn_size" where
  "at_sz s = ta_sn_field_length (at_cfg s)"

definition at_pos :: "rlc_tx_am \<Rightarrow> u32 \<Rightarrow> nat" where
  "at_pos s x = am_pos (at_sz s) (at_next_ack s) x"

definition at_n :: "rlc_tx_am \<Rightarrow> nat" where
  "at_n s = at_pos s (at_next s)"

lemma at_mod_sz: "at_mod s = am_modulus (at_sz s)"
  by (simp add: at_mod_def at_sz_def)

lemma unat_tx_mod_base: "unat (tx_mod_base s x) = at_pos s x"
  by (simp add: tx_mod_base_def at_pos_def am_pos_def at_mod_sz)

lemma tx_mod_base_compare:
  "tx_mod_base s x < tx_mod_base s y \<longleftrightarrow> at_pos s x < at_pos s y" "tx_mod_base s x \<le> tx_mod_base s y \<longleftrightarrow> at_pos s x \<le> at_pos s y"
  "0 < tx_mod_base s x \<longleftrightarrow> 0 < at_pos s x" "tx_mod_base s x < at_window_size s \<longleftrightarrow> at_pos s x < am_W (at_sz s)"
  "tx_mod_base s x \<le> at_window_size s \<longleftrightarrow> at_pos s x \<le> am_W (at_sz s)"
proof -
  have w: "unat (at_window_size s) = am_W (at_sz s)" by (simp add: at_window_size_def am_window_size_of_def am_W_def at_sz_def)
  show "tx_mod_base s x < tx_mod_base s y \<longleftrightarrow> at_pos s x < at_pos s y" "tx_mod_base s x \<le> tx_mod_base s y \<longleftrightarrow> at_pos s x \<le> at_pos s y"
    "0 < tx_mod_base s x \<longleftrightarrow> 0 < at_pos s x" "tx_mod_base s x < at_window_size s \<longleftrightarrow> at_pos s x < am_W (at_sz s)"
    "tx_mod_base s x \<le> at_window_size s \<longleftrightarrow> at_pos s x \<le> am_W (at_sz s)"
    unfolding word_less_nat_alt word_le_nat_alt unat_tx_mod_base w by simp_all
qed

section \<open>Invariant\<close>

text \<open>
  Bound on SDUs: PDCP builds at most 9000 bytes and its overhead. With less than \<open>2 ^ 15\<close> bytes per SDU the byte count
  of a full queue of retransmissions fits its 32 bits.
\<close>

definition am_sdu_fits :: "bytes \<Rightarrow> bool" where
  "am_sdu_fits b \<longleftrightarrow> 0 < length b \<and> length b < 2 ^ 15"

text \<open>A report in which all sequence numbers are in range, as the reader of status PDUs delivers it.\<close>

definition status_wf :: "rlc_am_sn_size \<Rightarrow> rlc_am_status_pdu \<Rightarrow> bool" where
  "status_wf sz st \<longleftrightarrow> am_sn_ok sz (sp_ack_sn st) \<and> (\<forall>n \<in> set (sp_nacks st). am_sn_ok sz (nack_sn n))"

definition at_live :: "rlc_tx_am \<Rightarrow> u32 \<Rightarrow> bool" where
  "at_live s k \<longleftrightarrow> am_sn_ok (at_sz s) k \<and> (at_pos s k < at_n s \<or> k = at_next s \<and> at_sn_under_segmentation s = at_next s)"

definition at_sdu :: "rlc_tx_am \<Rightarrow> u32 \<Rightarrow> bytes" where
  "at_sdu s k = (case cm_at (at_window s) k of None \<Rightarrow> [] | Some i \<Rightarrow> ti_sdu i)"

definition retx_ok :: "rlc_tx_am \<Rightarrow> rlc_tx_amd_retx \<Rightarrow> bool" where
  "retx_ok s r \<longleftrightarrow> at_live s (rx_sn r) \<and> 0 < unat (rx_length r) \<and> unat (rx_so r) + unat (rx_length r) \<le> length (at_sdu s (rx_sn r))"

definition at_info_ok :: "rlc_tx_am \<Rightarrow> u32 \<Rightarrow> rlc_tx_am_sdu_info \<Rightarrow> bool" where
  "at_info_ok s k i \<longleftrightarrow> am_sdu_fits (ti_sdu i) \<and>
    (k = at_sn_under_segmentation s \<longrightarrow> 0 < unat (ti_next_so i) \<and> unat (ti_next_so i) < length (ti_sdu i))"

definition at_vars :: "rlc_tx_am \<Rightarrow> bool" where
  "at_vars s \<longleftrightarrow> am_sn_ok (at_sz s) (at_next_ack s) \<and> am_sn_ok (at_sz s) (at_next s) \<and>
    at_sn_under_segmentation s \<in> {INVALID_RLC_SN, at_next s} \<and>
    at_n s + (if at_sn_under_segmentation s = at_next s then 1 else 0) \<le> am_W (at_sz s)"

definition at_win :: "rlc_tx_am \<Rightarrow> bool" where
  "at_win s \<longleftrightarrow> cm_wf (at_window s) \<and> cm_size (at_window s) = am_W (at_sz s) \<and>
    (\<forall>k. cm_at (at_window s) k \<noteq> None \<longleftrightarrow> at_live s k) \<and>
    (\<forall>k i. cm_at (at_window s) k = Some i \<longrightarrow> at_info_ok s k i)"

definition at_rtx :: "rlc_tx_am \<Rightarrow> bool" where
  "at_rtx s \<longleftrightarrow> rq_inv (at_retx_queue s) \<and> rq_capacity (at_retx_queue s) = am_W (at_sz s) \<and>
    (\<forall>r \<in> set (rq_abs (at_retx_queue s)). retx_ok s r)"

definition at_inputs :: "rlc_tx_am \<Rightarrow> bool" where
  "at_inputs s \<longleftrightarrow> (\<forall>x \<in> set (sq_queue (at_queue s)). am_sdu_fits (sdu_buf x)) \<and>
    (\<forall>st \<in> set (at_status_tasks s). status_wf (at_sz s) st)"

definition at_inv :: "rlc_tx_am \<Rightarrow> bool" where
  "at_inv s \<longleftrightarrow> at_vars s \<and> at_win s \<and> at_rtx s \<and> at_inputs s"

lemma at_invD: "at_inv s \<Longrightarrow> at_vars s" "at_inv s \<Longrightarrow> at_win s" "at_inv s \<Longrightarrow> at_rtx s" "at_inv s \<Longrightarrow> at_inputs s"
  by (simp_all add: at_inv_def)

lemma invalid_not_ok: "\<not> am_sn_ok sz INVALID_RLC_SN"
  by (cases sz) (simp_all add: am_sn_ok_def am_sizes(1) INVALID_RLC_SN_def)

lemma at_win_at:
  assumes "at_win s" "at_live s k"
  shows "\<exists>i. cm_at (at_window s) k = Some i \<and> at_sdu s k = ti_sdu i \<and> at_info_ok s k i"
proof -
  have "cm_at (at_window s) k \<noteq> None" using assms unfolding at_win_def by blast
  then obtain i where i: "cm_at (at_window s) k = Some i" by blast
  then have "at_info_ok s k i" using assms(1) unfolding at_win_def by blast
  then show ?thesis using i by (simp add: at_sdu_def)
qed

section \<open>What the invariant depends on\<close>

definition at_view :: "rlc_tx_am \<Rightarrow> _" where
  "at_view s = ((at_cfg s, at_next_ack s, at_next s, at_sn_under_segmentation s), at_retx_queue s, at_window s,
     sq_queue (at_queue s), at_status_tasks s)"

lemma at_view_eq:
  assumes "at_view t = at_view s"
  shows "at_inv t = at_inv s" "at_sdu t = at_sdu s" "at_live t = at_live s" "at_n t = at_n s" "at_sz t = at_sz s"
    "at_pos t = at_pos s" "at_mod t = at_mod s"
proof -
  have e: "at_cfg t = at_cfg s" "at_next_ack t = at_next_ack s" "at_next t = at_next s"
    "at_sn_under_segmentation t = at_sn_under_segmentation s" "at_retx_queue t = at_retx_queue s" "at_window t = at_window s"
    "sq_queue (at_queue t) = sq_queue (at_queue s)" "at_status_tasks t = at_status_tasks s"
    using assms by (simp_all add: at_view_def)
  show sz: "at_sz t = at_sz s" using e by (simp add: at_sz_def)
  show "at_mod t = at_mod s" using e by (simp add: at_mod_def)
  show pos: "at_pos t = at_pos s" using e sz by (simp add: at_pos_def fun_eq_iff)
  show n: "at_n t = at_n s" using e pos by (simp add: at_n_def)
  show sdu: "at_sdu t = at_sdu s" using e by (simp add: at_sdu_def fun_eq_iff)
  show live: "at_live t = at_live s" using e pos n sz by (simp add: at_live_def fun_eq_iff)
  show "at_inv t = at_inv s"
    using e sz pos n sdu live
    by (simp add: at_inv_def at_vars_def at_win_def at_rtx_def at_inputs_def retx_ok_def at_info_ok_def)
qed

lemma at_high_view [simp]: "at_view (at_high f s) = at_view s" "at_view (at_low g s) = at_view s" "at_view (at_emit e s) = at_view s"
  by (simp_all add: at_view_def at_high_def at_low_def at_emit_def)

lemmas at_metric_defs = at_add_sdus_def at_add_lost_sdus_def at_add_discard_def at_add_discard_failure_def
  at_add_pdus_no_segmentation_def at_add_pulled_sdus_def at_add_pdus_with_segmentation_am_def at_add_retx_pdus_def
  at_add_ctrl_pdus_def

lemma at_metric_view [simp]:
  "at_view (at_add_sdus a b s) = at_view s" "at_view (at_add_lost_sdus a s) = at_view s" "at_view (at_add_discard a s) = at_view s"
  "at_view (at_add_discard_failure a s) = at_view s" "at_view (at_add_pdus_no_segmentation a b s) = at_view s"
  "at_view (at_add_pulled_sdus a s) = at_view s" "at_view (at_add_pdus_with_segmentation_am a b s) = at_view s"
  "at_view (at_add_retx_pdus a b s) = at_view s" "at_view (at_add_ctrl_pdus a b s) = at_view s"
  by (simp_all add: at_metric_defs)

lemma at_polling_view [simp]: "at_view (snd (at_get_polling_bit sn r n s)) = at_view s"
  by (simp add: at_get_polling_bit_def at_view_def Let_def)

lemma at_polling_bit: "fst (at_get_polling_bit sn r n s) < 2"
  by (simp add: at_get_polling_bit_def Let_def)

lemma at_buffer_state_view [simp]:
  "at_view (at_update_mac_buffer_state f rx s) = at_view s" "at_view (at_run_update rx s) = at_view s"
  "at_view (at_handle_changed_buffer_state d s) = at_view s"
  by (simp_all add: at_update_mac_buffer_state_def at_run_update_def at_handle_changed_buffer_state_def at_view_def at_emit_def Let_def)

lemma at_notify_view [simp]: "at_view (at_notify_transfer x s) = at_view s" "at_view (at_notify_delivery mx s) = at_view s"
  by (simp_all add: at_notify_transfer_def at_notify_delivery_def Let_def split: option.split)

text \<open>The fields of a state behind an operation that leaves the view alone.\<close>

lemma at_view_fields:
  assumes "at_view t = at_view s"
  shows "at_cfg t = at_cfg s" "at_next_ack t = at_next_ack s" "at_next t = at_next s"
    "at_sn_under_segmentation t = at_sn_under_segmentation s" "at_retx_queue t = at_retx_queue s" "at_window t = at_window s"
    "sq_queue (at_queue t) = sq_queue (at_queue s)" "at_status_tasks t = at_status_tasks s"
  using assms by (simp_all add: at_view_def)
section \<open>The next sequence number\<close>

lemma at_pos_less_M [simp]: "at_pos s x < am_M (at_sz s)" "at_n s < am_M (at_sz s)"
  by (simp_all add: at_pos_def at_n_def)

lemma at_pos_eqD: "at_pos s x = at_pos s y \<Longrightarrow> am_sn_ok (at_sz s) x \<Longrightarrow> am_sn_ok (at_sz s) y \<Longrightarrow> x = y"
  by (simp add: at_pos_def am_pos_inj)

lemma at_under: "at_vars s \<Longrightarrow> at_sn_under_segmentation s = INVALID_RLC_SN \<longleftrightarrow> at_sn_under_segmentation s \<noteq> at_next s"
  using invalid_not_ok [of "at_sz s"] by (auto simp: at_vars_def)

text \<open>The window is full when its \<open>W\<close> positions are taken, or the configured limit is passed.\<close>

lemma at_window_count:
  assumes "at_vars s" "at_win s" "at_sn_under_segmentation s = INVALID_RLC_SN"
  shows "cm_count (at_window s) = at_n s"
proof -
  have "at_sn_under_segmentation s \<noteq> at_next s" using at_under [OF assms(1)] assms(3) by simp
  then have "{k. cm_at (at_window s) k \<noteq> None} = {k. am_sn_ok (at_sz s) k \<and> am_pos (at_sz s) (at_next_ack s) k < at_n s}"
    using assms(2) by (auto simp: at_win_def at_live_def at_pos_def)
  then show ?thesis
    using cm_count_keys [of "at_window s"] card_am_below [of "at_n s" "at_sz s" "at_next_ack s"] assms(2) at_pos_less_M(2) [of s]
    by (simp add: at_win_def less_imp_le)
qed

lemma not_full_room:
  assumes "at_vars s" "at_win s" "at_sn_under_segmentation s = INVALID_RLC_SN" "\<not> is_tx_window_full s"
  shows "at_n s < am_W (at_sz s)"
proof -
  have "at_n s \<noteq> am_W (at_sz s)"
    using assms(2,4) at_window_count [OF assms(1-3)] by (simp add: is_tx_window_full_def cm_full_def at_win_def)
  moreover have "at_n s \<le> am_W (at_sz s)" using assms(1) by (simp add: at_vars_def split: if_splits)
  ultimately show ?thesis by simp
qed

lemma at_add_next:
  assumes "at_vars s" "at_win s" "at_n s < am_W (at_sz s)"
  shows "cm_at (add_sn (at_window s) (at_next s) i) = (cm_at (at_window s))(at_next s \<mapsto> i)"
proof (rule am_at_add_sn [of _ "at_sz s" "at_next_ack s"])
  have "at_pos s k < am_W (at_sz s)" if "at_live s k" for k
    using that assms(3) by (auto simp: at_live_def at_n_def)
  then show "am_window_ok (at_sz s) (at_next_ack s) (am_W (at_sz s)) (cm_at (at_window s))"
    using assms(2) by (auto simp: am_window_ok_def at_win_def at_pos_def at_live_def)
qed (use assms in \<open>auto simp: at_win_def at_vars_def at_n_def at_pos_def\<close>)

text \<open>A PDU of the SDU at TX_Next: a segment that leaves a rest, or the end of the SDU.\<close>

definition at_extends :: "rlc_tx_am \<Rightarrow> rlc_tx_am_sdu_info \<Rightarrow> rlc_tx_am \<Rightarrow> bool" where
  "at_extends s i t \<longleftrightarrow> at_cfg t = at_cfg s \<and> at_next_ack t = at_next_ack s \<and> at_retx_queue t = at_retx_queue s \<and>
    set (sq_queue (at_queue t)) \<subseteq> set (sq_queue (at_queue s)) \<and> at_status_tasks t = at_status_tasks s \<and>
    cm_wf (at_window t) \<and> cm_size (at_window t) = cm_size (at_window s) \<and>
    cm_at (at_window t) = (cm_at (at_window s))(at_next s \<mapsto> i) \<and>
    (if at_sn_under_segmentation t = INVALID_RLC_SN then at_next t = (at_next s + 1) mod at_mod s
     else at_sn_under_segmentation t = at_next s \<and> at_next t = at_next s \<and> 0 < unat (ti_next_so i) \<and>
       unat (ti_next_so i) < length (ti_sdu i))"

lemma at_extends_inv:
  assumes "at_inv s" "at_extends s i t" "at_n s < am_W (at_sz s)" "am_sdu_fits (ti_sdu i)"
    and "\<And>j. cm_at (at_window s) (at_next s) = Some j \<Longrightarrow> ti_sdu i = ti_sdu j"
  shows "at_inv t \<and> at_sdu t = (at_sdu s)(at_next s := ti_sdu i)"
proof -
  note e = assms(2) [unfolded at_extends_def]
  note v = at_invD(1) [OF assms(1)] and w = at_invD(2) [OF assms(1)] and r = at_invD(3) [OF assms(1)]
  have sz: "at_sz t = at_sz s" "at_mod t = at_mod s" using e by (simp_all add: at_sz_def at_mod_def)
  have pos: "at_pos t = at_pos s" using e sz by (simp add: at_pos_def fun_eq_iff)
  have M: "am_W (at_sz s) < am_M (at_sz s)" using am_sizes(2,3) [of "at_sz s"] by simp
  have next': "at_pos s ((at_next s + 1) mod at_mod s) = Suc (at_n s)"
    using am_pos_Suc [of "at_sz s" "at_next_ack s" "at_next s"] assms(3) M by (simp add: at_pos_def at_n_def at_mod_sz)
  have ok: "am_sn_ok (at_sz s) (at_next s)" "am_sn_ok (at_sz s) (at_next_ack s)" using v by (simp_all add: at_vars_def)
  have ne: "\<not> am_sn_ok (at_sz s) INVALID_RLC_SN" by (rule invalid_not_ok)
  have nm: "INVALID_RLC_SN \<noteq> x mod at_mod s" for x unfolding at_mod_sz by (metis am_sn_ok_mod ne)
  have live: "at_live t k \<longleftrightarrow> at_live s k \<or> k = at_next s" for k
  proof (cases "at_sn_under_segmentation t = INVALID_RLC_SN")
    case True
    then have "at_next t = (at_next s + 1) mod at_mod s" using e by simp
    then have n: "at_n t = Suc (at_n s)" "at_sn_under_segmentation t \<noteq> at_next t"
      using next' nm True by (simp_all add: at_n_def pos)
    have "k = at_next s" if "am_sn_ok (at_sz s) k" "at_pos s k = at_n s" using that at_pos_eqD [of s k "at_next s"] ok by (simp add: at_n_def)
    then show ?thesis using n ok by (auto simp: at_live_def sz pos less_Suc_eq at_n_def)
  next
    case False
    then have n: "at_sn_under_segmentation t = at_next s" "at_next t = at_next s" using e by simp_all
    then show ?thesis using ok by (auto simp: at_live_def sz pos at_n_def)
  qed
  have sdu: "at_sdu t = (at_sdu s)(at_next s := ti_sdu i)" using e by (simp add: at_sdu_def fun_eq_iff)
  have vt: "at_vars t"
  proof (cases "at_sn_under_segmentation t = INVALID_RLC_SN")
    case True
    then have "at_next t = (at_next s + 1) mod at_mod s" using e by simp
    moreover have "am_sn_ok (at_sz s) ((at_next s + 1) mod at_mod s)" by (simp add: at_mod_sz)
    ultimately show ?thesis using True ok e next' assms(3) nm by (simp add: at_vars_def sz at_n_def pos)
  next
    case False
    then show ?thesis using ok e assms(3) by (auto simp: at_vars_def sz at_n_def pos)
  qed
  have wt: "at_win t"
    unfolding at_win_def
  proof (intro conjI allI impI)
    show "cm_wf (at_window t)" "cm_size (at_window t) = am_W (at_sz t)" using e w sz by (simp_all add: at_win_def)
    show "cm_at (at_window t) k \<noteq> None \<longleftrightarrow> at_live t k" for k using e w live by (auto simp: at_win_def)
    fix k j
    assume j: "cm_at (at_window t) k = Some j"
    show "at_info_ok t k j"
    proof (cases "k = at_next s")
      case True
      then have "j = i" using e j by simp
      moreover have "0 < unat (ti_next_so i) \<and> unat (ti_next_so i) < length (ti_sdu i)" if "at_sn_under_segmentation t = at_next s"
      proof -
        have "at_sn_under_segmentation t \<noteq> INVALID_RLC_SN" using that ok ne by metis
        then show ?thesis using e by simp
      qed
      ultimately show ?thesis using True assms(4) by (simp add: at_info_ok_def)
    next
      case False
      then have "cm_at (at_window s) k = Some j" using e j by simp
      then have "am_sdu_fits (ti_sdu j)" "at_live s k" using w by (auto simp: at_win_def at_info_ok_def)
      moreover have "k \<noteq> at_sn_under_segmentation t" using e False ne \<open>at_live s k\<close> by (auto simp: at_live_def split: if_splits)
      ultimately show ?thesis by (simp add: at_info_ok_def)
    qed
  qed
  have "retx_ok t q" if "retx_ok s q" for q
  proof -
    have "at_sdu t (rx_sn q) = at_sdu s (rx_sn q)"
      using that at_win_at [OF w, of "rx_sn q"] assms(5) unfolding sdu by (auto simp: retx_ok_def)
    then show ?thesis using that live by (simp add: retx_ok_def)
  qed
  then have rt: "at_rtx t" using r e sz by (auto simp: at_rtx_def)
  have "at_inputs t" using at_invD(4) [OF assms(1)] e sz by (auto simp: at_inputs_def)
  then show ?thesis using vt wt rt sdu by (simp add: at_inv_def)
qed

text \<open>Another queue of retransmissions.\<close>

lemma at_retx_inv:
  assumes "at_inv s" "rq_inv q" "rq_capacity q = am_W (at_sz s)" "\<forall>r \<in> set (rq_abs q). retx_ok s r"
  shows "at_inv (s\<lparr>at_retx_queue := q\<rparr>)"
proof -
  let ?t = "s\<lparr>at_retx_queue := q\<rparr>"
  have e: "at_sz ?t = at_sz s" by (simp add: at_sz_def)
  then have p: "at_pos ?t = at_pos s" by (simp add: at_pos_def fun_eq_iff)
  then have "at_n ?t = at_n s" "at_live ?t = at_live s" "at_sdu ?t = at_sdu s"
    by (simp_all add: at_n_def at_live_def at_sdu_def fun_eq_iff e)
  then show ?thesis using assms e
    by (simp add: at_inv_def at_vars_def at_win_def at_rtx_def at_inputs_def retx_ok_def at_info_ok_def)
qed
section \<open>Building PDUs\<close>

text \<open>The PDU is the piece of \<open>n\<close> bytes from offset \<open>so\<close> on of the SDU.\<close>

definition at_piece :: "rlc_tx_am \<Rightarrow> u32 \<Rightarrow> bytes \<Rightarrow> nat \<Rightarrow> nat \<Rightarrow> bytes \<Rightarrow> bool" where
  "at_piece s sn sdu so n pdu \<longleftrightarrow> 0 < n \<and> so + n \<le> length sdu \<and>
    (\<exists>p < 2. pdu = am_pdu_of (piece_header (at_sz s) p sn so n (length sdu), take n (drop so sdu)))"

lemma head_sizes: "head_min_size s = rlc_am_pdu_header_min_size (at_sz s)" "head_max_size s = rlc_am_pdu_header_max_size (at_sz s)"
  "head_max_size s = head_min_size s + 2" "head_min_size s \<in> {2, 3}"
  by (cases "ta_sn_field_length (at_cfg s)";
      simp add: head_min_size_def head_max_size_def at_sz_def rlc_am_pdu_header_max_size_def rlc_am_pdu_header_so_size_def)+

lemma ucast_of_nat_16: "(ucast (word_of_nat n :: u32) :: u16) = word_of_nat n"
  by (intro bit_word_eqI) (simp add: bit_simps)

lemma header_piece:
  "at_header p (piece_si so n len) sn (word_of_nat so) s = piece_header (at_sz s) p sn so n len"
  by (simp add: at_header_def piece_header_def at_sz_def ucast_of_nat_16)

lemma payload_piece:
  assumes "0 < n" "so + n \<le> length sdu" "length sdu < 2 ^ 15"
  shows "at_payload (piece_header sz p sn so n (length sdu)) n sdu = Some (take n (drop so sdu))"
proof -
  have "so < 2 ^ LENGTH(16)" using assms by simp
  then have "unat (am_so (piece_header sz p sn so n (length sdu))) = so"
    by (simp add: piece_header_def unsigned_of_nat take_bit_nat_eq_self)
  then show ?thesis using assms(1,2) by (auto simp: at_payload_def Let_def)
qed

lemma piece_length:
  assumes "at_piece s sn sdu so n pdu" "am_sn_ok (at_sz s) sn" "length sdu < 2 ^ 15"
  shows "length pdu = (if so = 0 then head_min_size s else head_max_size s) + n"
proof -
  obtain p where p: "p < 2" "pdu = am_pdu_of (piece_header (at_sz s) p sn so n (length sdu), take n (drop so sdu))"
    using assms(1) by (auto simp: at_piece_def)
  have b: "0 < n" "so + n \<le> length sdu" "length sdu < 2 ^ 16" using assms by (simp_all add: at_piece_def)
  show ?thesis using piece_written(3,5) [OF assms(2) p(1) b] by (simp add: p(2) am_pdu_of_def head_sizes)
qed

text \<open>The state in which the segment functions are called: the SDU has been given TX_Next.\<close>

definition at_placed :: "rlc_tx_am \<Rightarrow> rlc_tx_am_sdu_info \<Rightarrow> rlc_tx_am \<Rightarrow> bool" where
  "at_placed s info u \<longleftrightarrow> at_cfg u = at_cfg s \<and> at_next_ack u = at_next_ack s \<and> at_next u = at_next s \<and>
    at_sn_under_segmentation u = INVALID_RLC_SN \<and> at_retx_queue u = at_retx_queue s \<and>
    set (sq_queue (at_queue u)) \<subseteq> set (sq_queue (at_queue s)) \<and> at_status_tasks u = at_status_tasks s \<and>
    at_window u = add_sn (at_window s) (at_next s) info"

lemma first_spec:
  assumes "at_inv s" "at_n s < am_W (at_sz s)" "at_placed s info u" "am_sdu_fits (ti_sdu info)" "ti_next_so info = 0"
    and "head_min_size s < g" "g < length (ti_sdu info) + head_min_size s"
  defines "n \<equiv> g - head_min_size s"
  shows "\<exists>pdu t. at_build_first_sdu_segment g info u = (pdu, t) \<and> at_piece s (at_next s) (ti_sdu info) 0 n pdu \<and>
    at_extends s (info\<lparr>ti_next_so := word_of_nat n\<rparr>) t \<and> at_sn_under_segmentation t = at_next s"
proof -
  note pl = assms(3) [unfolded at_placed_def] and w = at_invD(2) [OF assms(1)] and v = at_invD(1) [OF assms(1)]
  let ?sdu = "ti_sdu info" and ?u = "u\<lparr>at_sn_under_segmentation := at_next u\<rparr>"
  have len: "length ?sdu < 2 ^ 15" using assms(4) by (simp add: am_sdu_fits_def)
  have n: "0 < n" "n < length ?sdu" using assms(6,7) by (auto simp: n_def)
  then have n32: "unat (word_of_nat n :: u32) = n" using len by (intro unat_of_nat32) simp
  have hm: "head_min_size u = head_min_size s" "at_sz u = at_sz s" using pl by (simp_all add: head_min_size_def at_sz_def)
  obtain p u' where p: "at_get_polling_bit (at_next u) False (word_of_nat n) ?u = (p, u')" by (metis surj_pair)
  then have p2: "p < 2" and vw: "at_view u' = at_view ?u"
    using at_polling_bit [of "at_next u" False "word_of_nat n" ?u] at_polling_view [of "at_next u" False "word_of_nat n" ?u] by simp_all
  note f = at_view_fields [OF vw]
  have h: "at_header p first_segment (at_next u) 0 u' = piece_header (at_sz s) p (at_next s) 0 n (length ?sdu)"
    using header_piece [of p 0 n "length ?sdu" "at_next s" u'] n f pl by (simp add: piece_si_def at_sz_def)
  let ?h = "piece_header (at_sz s) p (at_next s) 0 n (length ?sdu)"
  let ?pdu = "am_pdu_of (?h, take n ?sdu)"
  let ?i = "info\<lparr>ti_next_so := word_of_nat n\<rparr>"
  let ?t = "at_add_pdus_with_segmentation_am 1 (length ?pdu) (at_assign (at_next s) ?i u')"
  have pay: "at_payload ?h n ?sdu = Some (take n ?sdu)" using payload_piece [of n 0 ?sdu] n len by simp
  have b: "at_build_first_sdu_segment g info u = (?pdu, ?t)"
    using assms(6,7) h pay p pl f n32
    by (simp add: at_build_first_sdu_segment_def hm assms(5) Let_def am_pdu_of_def n_def [symmetric])
  have tv: "at_view ?t = at_view (at_assign (at_next s) ?i u')" by simp
  note tf = at_view_fields [OF tv]
  have wu: "at_window u' = add_sn (at_window s) (at_next s) info" using f pl by simp
  have a: "cm_at (at_window u') = (cm_at (at_window s))(at_next s \<mapsto> info)" unfolding wu by (rule at_add_next [OF v w assms(2)])
  have wf: "cm_wf (at_window u')" "cm_size (at_window u') = cm_size (at_window s)" using w by (simp_all add: wu at_win_def cm_wf_add_sn)
  have "cm_at (at_window ?t) = (cm_at (at_window s))(at_next s \<mapsto> ?i)"
    using cm_at_assign_present [OF wf(1), of "at_next s"] a tf by (simp add: at_assign_def)
  moreover have "at_next s \<noteq> INVALID_RLC_SN" using v invalid_not_ok [of "at_sz s"] by (auto simp: at_vars_def)
  ultimately have "at_extends s ?i ?t" "at_sn_under_segmentation ?t = at_next s"
    using tf f pl n n32 wf by (simp_all add: at_extends_def at_assign_def cm_wf_assign)
  moreover have "at_piece s (at_next s) ?sdu 0 n ?pdu" using n p2 by (auto simp: at_piece_def)
  ultimately show ?thesis using b by blast
qed
lemma full_spec:
  assumes "at_inv s" "at_n s < am_W (at_sz s)" "at_placed s info u" "am_sdu_fits (ti_sdu info)"
  shows "\<exists>pdu t. at_build_full_sdu info u = (pdu, t) \<and>
    at_piece s (at_next s) (ti_sdu info) 0 (length (ti_sdu info)) pdu \<and> at_extends s info t \<and>
    at_sn_under_segmentation t = INVALID_RLC_SN"
proof -
  note pl = assms(3) [unfolded at_placed_def] and w = at_invD(2) [OF assms(1)] and v = at_invD(1) [OF assms(1)]
  let ?sdu = "ti_sdu info"
  have len: "length ?sdu < 2 ^ 15" "0 < length ?sdu" using assms(4) by (simp_all add: am_sdu_fits_def)
  obtain p u' where p: "at_get_polling_bit (at_next u) False 0 u = (p, u')" by (metis surj_pair)
  then have p2: "p < 2" and vw: "at_view u' = at_view u"
    using at_polling_bit [of "at_next u" False 0 u] at_polling_view [of "at_next u" False 0 u] by simp_all
  note f = at_view_fields [OF vw]
  let ?h = "piece_header (at_sz s) p (at_next s) 0 (length ?sdu) (length ?sdu)"
  have h: "at_header p full_sdu (at_next u) 0 u' = ?h"
    using header_piece [of p 0 "length ?sdu" "length ?sdu" "at_next s" u'] f pl by (simp add: piece_si_def at_sz_def)
  let ?pdu = "am_pdu_of (?h, take (length ?sdu) (drop 0 ?sdu))"
  let ?t = "at_add_pdus_no_segmentation 1 (length ?pdu) ((at_add_pulled_sdus 1 u')\<lparr>at_next :=
    (at_next (at_add_pulled_sdus 1 u') + 1) mod at_mod (at_add_pulled_sdus 1 u')\<rparr>)"
  have b: "at_build_full_sdu info u = (?pdu, ?t)"
    using len(2) h p f(3) by (simp add: at_build_full_sdu_def Let_def am_pdu_of_def)
  have pv: "at_view (at_add_pulled_sdus 1 u') = at_view u" using vw by simp
  note g = at_view_fields [OF pv]
  have tv: "at_view ?t = at_view ((at_add_pulled_sdus 1 u')\<lparr>at_next := (at_next s + 1) mod at_mod s\<rparr>)"
    using g pl by (simp add: at_mod_def)
  note tf = at_view_fields [OF tv]
  have a: "cm_at (at_window u) = (cm_at (at_window s))(at_next s \<mapsto> info)" using pl at_add_next [OF v w assms(2)] by simp
  have wf: "cm_wf (at_window u)" "cm_size (at_window u) = cm_size (at_window s)" using w pl by (simp_all add: at_win_def cm_wf_add_sn)
  have "at_extends s info ?t" "at_sn_under_segmentation ?t = INVALID_RLC_SN"
    using tf g pl wf a by (simp_all add: at_extends_def)
  moreover have "at_piece s (at_next s) ?sdu 0 (length ?sdu) ?pdu" using len p2 by (auto simp: at_piece_def)
  ultimately show ?thesis using b by blast
qed

text \<open>A PDU with the start of a new SDU: whatever remains of the queue, the entity either sends nothing or a piece of it.\<close>

lemma new_spec:
  assumes "at_inv s" "at_sn_under_segmentation s = INVALID_RLC_SN" "at_build_new_pdu g s = (pdu, t)"
  shows "at_inv t \<and> at_cfg t = at_cfg s \<and> at_next_ack t = at_next_ack s \<and> at_retx_queue t = at_retx_queue s \<and>
    (pdu = [] \<and> at_next t = at_next s \<and> at_window t = at_window s \<and> at_sn_under_segmentation t = INVALID_RLC_SN \<and>
      (g \<le> head_min_size s \<or> is_tx_window_full s \<or> \<not> fst (sq_read rlc_sdu_empty (at_queue s))) \<or>
     \<not> is_tx_window_full s \<and> fst (sq_read rlc_sdu_empty (at_queue s)) \<and>
     (\<exists>x \<in> set (sq_queue (at_queue s)). \<exists>i n. ti_sdu i = sdu_buf x \<and> ti_pdcp_sn i = sdu_pdcp_sn x \<and> ti_is_retx i = sdu_is_retx x \<and>
        at_extends s i t \<and> n = min (length (sdu_buf x)) (g - head_min_size s) \<and>
        (at_sn_under_segmentation t = INVALID_RLC_SN \<longleftrightarrow> n = length (sdu_buf x)) \<and>
        (at_sn_under_segmentation t \<noteq> INVALID_RLC_SN \<longrightarrow> unat (ti_next_so i) = n) \<and>
        at_piece s (at_next s) (sdu_buf x) 0 n pdu \<and> head_min_size s < g))"
proof -
  note v = at_invD(1) [OF assms(1)] and w = at_invD(2) [OF assms(1)]
  have none: "cm_at (at_window s) (at_next s) = None"
    using w at_under [OF v] assms(2) unfolding at_win_def at_live_def at_n_def by auto
  show ?thesis
  proof (cases "g \<le> head_min_size s \<or> is_tx_window_full s")
    case True
    then have "pdu = [] \<and> t = s" using assms(3) by (cases "g \<le> head_min_size s") (simp_all add: at_build_new_pdu_def)
    then show ?thesis using assms(1,2) True by blast
  next
    case False
    then have room: "at_n s < am_W (at_sz s)" using not_full_room [OF v w assms(2)] by blast
    obtain found x q where r: "sq_read rlc_sdu_empty (at_queue s) = (found, x, q)" by (metis prod_cases3)
    note rc = read_contents [OF r]
    show ?thesis
    proof (cases found)
      case False
      then have t: "pdu = []" "t = s\<lparr>at_queue := q\<rparr>" using assms(3) r \<open>\<not> (g \<le> head_min_size s \<or> is_tx_window_full s)\<close>
        by (simp_all add: at_build_new_pdu_def)
      have "at_inv t" using assms(1) rc(1) unfolding t
        by (auto simp: at_inv_def at_vars_def at_win_def at_rtx_def at_inputs_def retx_ok_def at_info_ok_def at_live_def at_n_def
            at_pos_def at_sz_def at_sdu_def)
      then show ?thesis using assms(2) t r False by simp
    next
      case True
      then have x: "x \<in> set (sq_queue (at_queue s))" using rc(3) by simp
      then have fits: "am_sdu_fits (sdu_buf x)" using at_invD(4) [OF assms(1)] by (simp add: at_inputs_def)
      let ?i = "at_sdu_info_of x"
      let ?u = "at_notify_transfer x (s\<lparr>at_queue := q, at_window := add_sn (at_window s) (at_next s) ?i\<rparr>)"
      have i: "ti_sdu ?i = sdu_buf x" "ti_next_so ?i = 0" "ti_pdcp_sn ?i = sdu_pdcp_sn x" "ti_is_retx ?i = sdu_is_retx x"
        by (simp_all add: at_sdu_info_of_def)
      have uv: "at_view ?u = at_view (s\<lparr>at_queue := q, at_window := add_sn (at_window s) (at_next s) ?i\<rparr>)" by simp
      note uf = at_view_fields [OF uv]
      have pl: "at_placed s ?i ?u" using uf rc(1) assms(2) by (simp add: at_placed_def)
      have hm: "head_min_size ?u = head_min_size s" using uf by (simp add: head_min_size_def)
      have b: "at_build_new_pdu g s = (if length (sdu_buf x) + head_min_size s > g then at_build_first_sdu_segment g ?i ?u
          else at_build_full_sdu ?i ?u)"
        using \<open>\<not> (g \<le> head_min_size s \<or> is_tx_window_full s)\<close> True r hm i by (simp add: at_build_new_pdu_def Let_def)
      have ext: ?thesis if "at_extends s j t" "ti_sdu j = sdu_buf x" "ti_pdcp_sn j = sdu_pdcp_sn x" "ti_is_retx j = sdu_is_retx x"
        "at_piece s (at_next s) (sdu_buf x) 0 n pdu" "n = min (length (sdu_buf x)) (g - head_min_size s)"
        "at_sn_under_segmentation t = INVALID_RLC_SN \<longleftrightarrow> n = length (sdu_buf x)"
        "at_sn_under_segmentation t \<noteq> INVALID_RLC_SN \<Longrightarrow> unat (ti_next_so j) = n" for j n
      proof -
        have "at_inv t" using at_extends_inv [OF assms(1) that(1) room] that(2) fits none by simp
        moreover have "at_cfg t = at_cfg s" "at_next_ack t = at_next_ack s" "at_retx_queue t = at_retx_queue s"
          using that(1) by (simp_all add: at_extends_def)
        moreover have "head_min_size s < g" using \<open>\<not> (g \<le> head_min_size s \<or> is_tx_window_full s)\<close> by simp
        ultimately show ?thesis
          using x that r True \<open>\<not> (g \<le> head_min_size s \<or> is_tx_window_full s)\<close>
          by (intro conjI disjI2 bexI [of _ x] exI [of _ j] exI [of _ n]) simp_all
      qed
      show ?thesis
      proof (cases "length (sdu_buf x) + head_min_size s > g")
        case seg: True
        let ?j = "?i\<lparr>ti_next_so := word_of_nat (g - head_min_size s)\<rparr>" and ?n = "g - head_min_size s"
        have g: "head_min_size s < g" "g < length (ti_sdu ?i) + head_min_size s" using seg False i(1) by simp_all
        have f: "am_sdu_fits (ti_sdu ?i)" using fits i(1) by simp
        obtain pdu' t' where o: "at_build_first_sdu_segment g ?i ?u = (pdu', t')" "at_piece s (at_next s) (ti_sdu ?i) 0 ?n pdu'"
          "at_extends s ?j t'" "at_sn_under_segmentation t' = at_next s"
          using first_spec [OF assms(1) room pl f i(2) g] by blast
        have e: "pdu' = pdu" "t' = t" using o(1) b seg assms(3) by simp_all
        have "at_next s \<noteq> INVALID_RLC_SN" using v invalid_not_ok [of "at_sz s"] by (auto simp: at_vars_def)
        moreover have "unat (word_of_nat ?n :: u32) = ?n"
        proof (rule unat_of_nat32)
          have "length (sdu_buf x) < 2 ^ 15" using f i(1) by (simp add: am_sdu_fits_def)
          then show "?n < 2 ^ 32" using g i(1) by simp
        qed
        ultimately show ?thesis using ext [of ?j ?n] o(2-4) i g unfolding e by simp
      next
        case full: False
        show ?thesis
          using full_spec [OF assms(1) room pl] fits i full b assms(3) ext [of ?i "length (sdu_buf x)"] by auto
      qed
    qed
  qed
qed
text \<open>The next segment of the SDU that is being segmented.\<close>

lemma continued_spec:
  assumes "at_inv s" "at_sn_under_segmentation s = at_next s" "cm_at (at_window s) (at_next s) = Some info"
    and "at_build_continued_sdu_segment g info s = (pdu, t)"
  defines "so \<equiv> unat (ti_next_so info)" and "sdu \<equiv> ti_sdu info"
  shows "at_inv t \<and> at_cfg t = at_cfg s \<and> at_next_ack t = at_next_ack s \<and> at_retx_queue t = at_retx_queue s \<and>
    (pdu = [] \<and> t = s \<and> g \<le> head_max_size s \<or>
     (\<exists>i n. ti_sdu i = sdu \<and> ti_pdcp_sn i = ti_pdcp_sn info \<and> ti_is_retx i = ti_is_retx info \<and> at_extends s i t \<and>
       n = min (length sdu - so) (g - head_max_size s) \<and> (at_sn_under_segmentation t = INVALID_RLC_SN \<longleftrightarrow> so + n = length sdu) \<and>
       unat (ti_next_so i) = so + n \<and>
       at_piece s (at_next s) sdu so n pdu \<and> 0 < so \<and> head_max_size s < g))"
proof -
  note v = at_invD(1) [OF assms(1)] and w = at_invD(2) [OF assms(1)]
  have inf: "am_sdu_fits sdu" "0 < so" "so < length sdu"
    using w assms(2,3) unfolding at_win_def at_info_ok_def so_def sdu_def by metis+
  then have len: "length sdu < 2 ^ 15" by (simp add: am_sdu_fits_def)
  have ni: "at_next s \<noteq> INVALID_RLC_SN" using v invalid_not_ok [of "at_sz s"] by (auto simp: at_vars_def)
  have nz: "ti_next_so info \<noteq> 0" using inf(2) by (auto simp: so_def)
  have rest: "unat (word_of_nat (length sdu) - ti_next_so info :: u32) = length sdu - so"
    using unat_diff32 [of so "length sdu"] unat_of_nat32 [of "length sdu - so"] inf(3) len by (simp add: so_def)
  show ?thesis
  proof (cases "g \<le> head_max_size s")
    case True
    then have "pdu = [] \<and> t = s" using assms(4) nz inf(3) by (simp add: at_build_continued_sdu_segment_def so_def sdu_def Let_def)
    then show ?thesis using assms(1) True by simp
  next
    case False
    define n where "n = min (length sdu - so) (g - head_max_size s)"
    define fin where "fin \<longleftrightarrow> length sdu - so + head_max_size s \<le> g"
    define u where "u = (if fin then s\<lparr>at_sn_under_segmentation := INVALID_RLC_SN\<rparr> else s)"
    define i where "i = info\<lparr>ti_next_so := ti_next_so info + word_of_nat n\<rparr>"
    have n: "0 < n" "so + n \<le> length sdu" "fin \<longleftrightarrow> so + n = length sdu"
      using inf(3) False by (auto simp: n_def fin_def min_def)
    have n32: "unat (word_of_nat n :: u32) = n" using n len by (intro unat_of_nat32) simp
    have nw: "(if fin then word_of_nat (length sdu) - ti_next_so info else word_of_nat (g - head_max_size s)) = (word_of_nat n :: u32)"
    proof (cases fin)
      case True
      then have "n = length sdu - so" by (auto simp: fin_def n_def)
      then have "word_of_nat (length sdu) - ti_next_so info = (word_of_nat n :: u32)" using rest n32 by (metis word_unat_eq_iff)
      then show ?thesis using True by simp
    next
      case False
      then have "n = g - head_max_size s" by (auto simp: fin_def n_def)
      then show ?thesis using False by simp
    qed
    have so': "unat (ti_next_so i) = so + n"
      using n len n32 by (simp add: i_def so_def unat_word_ariths)
    obtain p u' where p: "at_get_polling_bit (at_next s) False (word_of_nat n) u = (p, u')" by (metis surj_pair)
    then have p2: "p < 2" and vw: "at_view u' = at_view u"
      using at_polling_bit [of "at_next s" False "word_of_nat n" u] at_polling_view [of "at_next s" False "word_of_nat n" u] by simp_all
    note f = at_view_fields [OF vw]
    have uf: "at_cfg u = at_cfg s" "at_next_ack u = at_next_ack s" "at_next u = at_next s" "at_retx_queue u = at_retx_queue s"
      "at_window u = at_window s" "at_queue u = at_queue s" "at_status_tasks u = at_status_tasks s"
      "at_sn_under_segmentation u = (if fin then INVALID_RLC_SN else at_next s)"
      using assms(2) by (simp_all add: u_def)
    let ?h = "piece_header (at_sz s) p (at_next s) so n (length sdu)"
    have h: "at_header p (if fin then last_segment else middle_segment) (at_next s) (ti_next_so info) u' = ?h"
      using header_piece [of p so n "length sdu" "at_next s" u'] n(3) inf(2) f uf by (simp add: piece_si_def at_sz_def so_def)
    have pay: "at_payload ?h n sdu = Some (take n (drop so sdu))" by (rule payload_piece [OF n(1,2) len])
    let ?pdu = "am_pdu_of (?h, take n (drop so sdu))"
    define t1 where "t1 = at_assign (at_next s) i u'"
    define t2 where "t2 = (if fin then (at_add_pulled_sdus 1 t1)\<lparr>at_next := (at_next t1 + 1) mod at_mod t1\<rparr> else t1)"
    have "at_build_continued_sdu_segment g info s = at_send_segment fin (word_of_nat n) info s"
      using False nz inf(3) rest nw by (cases fin) (simp_all add: at_build_continued_sdu_segment_def Let_def fin_def so_def sdu_def)
    also have "\<dots> = (?pdu, at_add_pdus_with_segmentation_am 1 (length ?pdu) t2)"
      using p h pay n32 f uf assms(2)
      by (simp add: at_send_segment_def Let_def am_pdu_of_def t2_def t1_def i_def sdu_def u_def [symmetric])
    finally have e: "pdu = ?pdu" "t = at_add_pdus_with_segmentation_am 1 (length ?pdu) t2" using assms(4) by simp_all
    have wf: "cm_wf (at_window s)" using w by (simp add: at_win_def)
    have t1: "at_view t1 = at_view (u'\<lparr>at_window := cm_assign (at_window s) (at_next s) i\<rparr>)" using f uf by (simp add: t1_def at_assign_def at_view_def)
    note t1f = at_view_fields [OF t1]
    have pv: "at_view (at_add_pulled_sdus 1 t1) = at_view t1" by simp
    note pf = at_view_fields [OF pv]
    have tv: "at_view t = at_view t2" unfolding e(2) by simp
    note tf = at_view_fields [OF tv]
    have a: "cm_at (cm_assign (at_window s) (at_next s) i) = (cm_at (at_window s))(at_next s \<mapsto> i)"
      using cm_at_assign_present [OF wf] assms(3) by simp
    have ex: "at_extends s i t" "at_sn_under_segmentation t = INVALID_RLC_SN \<longleftrightarrow> so + n = length sdu"
      using tf pf t1f f uf a wf ni n so' inf by (cases fin; simp add: at_extends_def t2_def at_mod_def cm_wf_assign i_def sdu_def)+
    have i: "ti_sdu i = sdu" "ti_pdcp_sn i = ti_pdcp_sn info" "ti_is_retx i = ti_is_retx info" by (simp_all add: i_def sdu_def)
    have room: "at_n s < am_W (at_sz s)" using v assms(2) by (simp add: at_vars_def)
    have inv: "at_inv t" using at_extends_inv [OF assms(1) ex(1) room] i(1) inf(1) assms(3) by (simp add: sdu_def)
    have "at_piece s (at_next s) sdu so n pdu" using n p2 e(1) by (auto simp: at_piece_def)
    moreover have "at_cfg t = at_cfg s" "at_next_ack t = at_next_ack s" "at_retx_queue t = at_retx_queue s"
      using ex(1) by (simp_all add: at_extends_def)
    ultimately show ?thesis using inv ex i n_def inf(2) so' False by (intro conjI disjI2 exI [of _ i] exI [of _ n]) simp_all
  qed
qed
section \<open>Retransmissions\<close>

lemma retx_okD:
  assumes "at_win s" "retx_ok s r"
  obtains i where "cm_at (at_window s) (rx_sn r) = Some i" "at_sdu s (rx_sn r) = ti_sdu i" "length (ti_sdu i) < 2 ^ 15"
    "am_sn_ok (at_sz s) (rx_sn r)" "unat (rx_so r + rx_length r) = unat (rx_so r) + unat (rx_length r)"
    "unat (rx_so r) + unat (rx_length r) \<le> length (ti_sdu i)" "0 < unat (rx_length r)"
proof -
  have live: "at_live s (rx_sn r)" using assms(2) by (simp add: retx_ok_def)
  obtain i where i: "cm_at (at_window s) (rx_sn r) = Some i" "at_sdu s (rx_sn r) = ti_sdu i" "at_info_ok s (rx_sn r) i"
    using at_win_at [OF assms(1) live] by blast
  have l: "length (ti_sdu i) < 2 ^ 15" using i(3) by (simp add: at_info_ok_def am_sdu_fits_def)
  have b: "unat (rx_so r) + unat (rx_length r) \<le> length (ti_sdu i)" "0 < unat (rx_length r)" using assms(2) i(2) by (simp_all add: retx_ok_def)
  have "unat (rx_so r + rx_length r) = unat (rx_so r) + unat (rx_length r)" using b l by (simp add: unat_word_ariths)
  then show thesis using that i(1,2) l b live by (simp add: at_live_def)
qed

lemma retx_bounds:
  assumes "at_win s" "retx_ok s r"
  shows "length (at_sdu s (rx_sn r)) < 2 ^ 15" "unat (rx_so r) + unat (rx_length r) \<le> length (at_sdu s (rx_sn r))"
    "0 < unat (rx_length r)"
  using at_win_at [OF assms(1), of "rx_sn r"] assms(2) by (auto simp: retx_ok_def at_info_ok_def am_sdu_fits_def)

lemma retx_total_small:
  assumes "at_win s" "\<forall>r \<in> set rs. retx_ok s r" "length rs \<le> Suc (am_W (at_sz s))"
  shows "retx_total rs < 2 ^ 32"
proof -
  have "unat (rx_length r) \<le> 32767" if "r \<in> set rs" for r
  proof -
    have ok: "retx_ok s r" using assms(2) that by simp
    have "unat (rx_length r) < 2 ^ 15" using retx_bounds [OF assms(1) ok] by linarith
    then show ?thesis by simp
  qed
  then have "retx_total rs \<le> length rs * 32767" by (induction rs) (auto simp: add_mono)
  also have "\<dots> \<le> 131073 * 32767" using assms(3) am_sizes(1,2) [of "at_sz s"] by (cases "at_sz s") auto
  finally show ?thesis by simp
qed

lemma retx_si_piece:
  assumes "0 < n" "unat (rx_so r) + n \<le> len"
  shows "retx_si r n len = piece_si (unat (rx_so r)) n len"
  using assms by (auto simp: retx_si_def piece_si_def Let_def unat_eq_0)

definition retx_rest :: "rlc_tx_amd_retx \<Rightarrow> nat \<Rightarrow> rlc_tx_amd_retx list" where
  "retx_rest r n = (if n = unat (rx_length r) then []
     else [r\<lparr>rx_so := rx_so r + word_of_nat n, rx_length := rx_length r - word_of_nat n\<rparr>])"

lemma retx_rest_ok:
  assumes "at_win s" "retx_ok s r" "0 < n" "n \<le> unat (rx_length r)"
  shows "\<forall>q \<in> set (retx_rest r n). retx_ok s q \<and> rx_sn q = rx_sn r \<and> unat (rx_so q) = unat (rx_so r) + n \<and>
    unat (rx_length q) = unat (rx_length r) - n"
proof -
  note i = retx_bounds [OF assms(1,2)]
  have n: "unat (word_of_nat n :: u32) = n" using assms(4) by (intro unat_of_nat32) (use i in simp)
  have so: "unat (rx_so r + word_of_nat n) = unat (rx_so r) + n" using i assms(4) n by (simp add: unat_word_ariths)
  have l: "unat (rx_length r - word_of_nat n) = unat (rx_length r) - n"
    using n assms(4) by (simp add: unat_sub word_le_nat_alt)
  show ?thesis using assms so l by (auto simp: retx_rest_def retx_ok_def)
qed

lemma retx_advance_spec:
  assumes "at_inv s" "rq_abs (at_retx_queue s) = r # rs" "0 < n" "n \<le> unat (rx_length r)"
  shows "\<exists>q. retx_advance r n (at_retx_queue s) = Some q \<and> at_inv (s\<lparr>at_retx_queue := q\<rparr>) \<and> rq_abs q = retx_rest r n @ rs"
proof -
  note w = at_invD(2) [OF assms(1)] and rt = at_invD(3) [OF assms(1), unfolded at_rtx_def]
  have ok: "\<forall>q \<in> set (r # rs). retx_ok s q" using rt assms(2) by simp
  have okr: "\<forall>q \<in> set (retx_rest r n @ rs). retx_ok s q" using retx_rest_ok [OF w _ assms(3,4)] ok by auto
  have len: "length (r # rs) \<le> am_W (at_sz s)" using rt rq_abs_length [of "at_retx_queue s"] assms(2) by (simp add: rq_inv_def)
  have "\<exists>q. retx_advance r n (at_retx_queue s) = Some q \<and> rq_inv q \<and> rq_capacity q = rq_capacity (at_retx_queue s) \<and> rq_abs q = retx_rest r n @ rs"
  proof (cases "n = unat (rx_length r)")
    case True
    then show ?thesis using rq_pop_spec [of "at_retx_queue s"] rt assms(2) by (simp add: retx_advance_def retx_rest_def)
  next
    case False
    let ?r = "r\<lparr>rx_so := rx_so r + word_of_nat n, rx_length := rx_length r - word_of_nat n\<rparr>"
    have "retx_total (?r # rs) < 2 ^ 32"
      using retx_total_small [OF w, of "?r # rs"] okr len False by (simp add: retx_rest_def)
    then show ?thesis using rq_replace_spec [of "at_retx_queue s" r rs ?r] rt assms(2) False
      by (auto simp: retx_advance_def retx_rest_def)
  qed
  then show ?thesis using at_retx_inv [OF assms(1)] rt okr by metis
qed

text \<open>A retransmission: the front of the queue as far as the grant goes; without room for its header nothing happens.\<close>

lemma retx_spec:
  assumes "at_inv s" "rq_abs (at_retx_queue s) = r # rs"
  defines "hl \<equiv> get_retx_expected_hdr_len s r" and "sdu \<equiv> at_sdu s (rx_sn r)"
  shows "\<exists>pdu t. at_build_retx_pdu g s = Some (pdu, t) \<and> at_inv t \<and> at_cfg t = at_cfg s \<and> at_next_ack t = at_next_ack s \<and>
    at_next t = at_next s \<and> at_window t = at_window s \<and> at_sn_under_segmentation t = at_sn_under_segmentation s \<and>
    (pdu = [] \<and> g \<le> hl \<and> at_retx_queue t = at_retx_queue s \<or>
     (\<exists>n. n = min (unat (rx_length r)) (g - hl) \<and> hl < g \<and> at_piece s (rx_sn r) sdu (unat (rx_so r)) n pdu \<and>
       rq_abs (at_retx_queue t) = retx_rest r n @ rs))"
proof -
  note w = at_invD(2) [OF assms(1)] and rt = at_invD(3) [OF assms(1), unfolded at_rtx_def]
  have q: "rq_inv (at_retx_queue s)" "retx_ok s r" using rt assms(2) by simp_all
  obtain i where i: "cm_at (at_window s) (rx_sn r) = Some i" "at_sdu s (rx_sn r) = ti_sdu i" "length (ti_sdu i) < 2 ^ 15"
    "am_sn_ok (at_sz s) (rx_sn r)" "unat (rx_so r + rx_length r) = unat (rx_so r) + unat (rx_length r)"
    "unat (rx_so r) + unat (rx_length r) \<le> length (ti_sdu i)" "0 < unat (rx_length r)"
    using retx_okD [OF w q(2)] by blast
  have fr: "rq_front (at_retx_queue s) = Some r" "\<not> rq_empty (at_retx_queue s)"
    using rq_front_spec [OF q(1)] rq_empty_spec [OF q(1)] assms(2) by simp_all
  let ?s = "s\<lparr>at_retx_sn := rx_sn r\<rparr>"
  have sv: "at_view ?s = at_view s" by (simp add: at_view_def)
  note se = at_view_eq [OF sv]
  have hl: "get_retx_expected_hdr_len ?s r = hl" by (simp add: hl_def get_retx_expected_hdr_len_def head_min_size_def head_max_size_def)
  have b: "at_build_retx_pdu g s = at_send_retx g r i ?s"
    using fr i(1) by (simp add: at_build_retx_pdu_def at_drop_stale_retx.simps [of s] has_sn_at)
  show ?thesis
  proof (cases "g \<le> hl")
    case True
    then have "at_build_retx_pdu g s = Some ([], ?s)" unfolding b using i(5,6) hl by (simp add: at_send_retx_def)
    moreover have "at_inv ?s" using se(1) assms(1) by simp
    ultimately show ?thesis using True by simp
  next
    case False
    define n where "n = min (unat (rx_length r)) (g - hl)"
    have n: "0 < n" "n \<le> unat (rx_length r)" "unat (rx_so r) + n \<le> length (ti_sdu i)" using False i(6,7) by (auto simp: n_def)
    have inv: "at_inv ?s" using se(1) assms(1) by simp
    obtain q' where q': "retx_advance r n (at_retx_queue s) = Some q'" "at_inv (?s\<lparr>at_retx_queue := q'\<rparr>)" "rq_abs q' = retx_rest r n @ rs"
      using retx_advance_spec [OF inv _ n(1,2), of rs] assms(2) by auto
    let ?u = "?s\<lparr>at_retx_queue := q'\<rparr>"
    obtain p u' where p: "at_get_polling_bit (rx_sn r) True 0 ?u = (p, u')" by (metis surj_pair)
    then have p2: "p < 2" and vw: "at_view u' = at_view ?u"
      using at_polling_bit [of "rx_sn r" True 0 ?u] at_polling_view [of "rx_sn r" True 0 ?u] by simp_all
    note f = at_view_fields [OF vw]
    let ?h = "piece_header (at_sz s) p (rx_sn r) (unat (rx_so r)) n (length (ti_sdu i))"
    have h: "at_header p (retx_si r n (length (ti_sdu i))) (rx_sn r) (rx_so r) u' = ?h"
      using header_piece [of p "unat (rx_so r)" n "length (ti_sdu i)" "rx_sn r" u'] retx_si_piece [OF n(1,3)] f by (simp add: at_sz_def)
    have l16: "length (ti_sdu i) < 2 ^ 16" using i(3) by simp
    have hlen: "length (rlc_am_write_data_pdu_header ?h) = hl"
      using piece_written(5) [OF i(4) p2 n(1,3) l16] by (simp add: hl_def get_retx_expected_hdr_len_def head_sizes unat_eq_0)
    have pay: "at_payload ?h n (ti_sdu i) = Some (take n (drop (unat (rx_so r)) (ti_sdu i)))" by (rule payload_piece [OF n(1,3) i(3)])
    let ?pdu = "am_pdu_of (?h, take n (drop (unat (rx_so r)) (ti_sdu i)))"
    let ?t = "at_add_retx_pdus 1 (length ?pdu) u'"
    have "at_build_retx_pdu g s = Some (?pdu, ?t)"
      unfolding b using i(5,6) False hl q'(1) p h hlen pay by (simp add: at_send_retx_def Let_def n_def [symmetric] am_pdu_of_def)
    moreover have tv: "at_view ?t = at_view ?u" using vw by simp
    moreover have "at_inv ?t" using at_view_eq(1) [OF tv] q'(2) by simp
    moreover have "at_piece s (rx_sn r) sdu (unat (rx_so r)) n ?pdu" using n p2 i(2) by (auto simp: at_piece_def sdu_def)
    ultimately show ?thesis using at_view_fields [OF tv] q'(3) False n_def by (intro exI [of _ ?pdu] exI [of _ ?t]) auto
  qed
qed

end
