(* ===== verification/Rlc_Am_Tx_Status.thy ===== *)
theory Rlc_Am_Tx_Status
  imports Rlc_Am_Tx_Inv
begin

text \<open>
  How the AM transmitter processes a status report: it releases the SDUs below the first NACK (below ACK_SN when there is
  none), withdraws the retransmissions of the previous report, and queues those that the NACKs request.
\<close>

section \<open>Releasing acknowledged SDUs\<close>

text \<open>The invariant without the pending retransmissions, which may refer to SDUs that are gone until they are withdrawn.\<close>

definition at_base :: "rlc_tx_am \<Rightarrow> bool" where
  "at_base s \<longleftrightarrow> at_vars s \<and> at_win s \<and> at_inputs s \<and> rq_inv (at_retx_queue s) \<and> rq_capacity (at_retx_queue s) = am_W (at_sz s)"

lemma at_inv_base: "at_inv s \<longleftrightarrow> at_base s \<and> (\<forall>r \<in> set (rq_abs (at_retx_queue s)). retx_ok s r)"
  by (auto simp: at_inv_def at_base_def at_rtx_def)

definition at_info :: "rlc_tx_am \<Rightarrow> u32 \<Rightarrow> rlc_tx_am_sdu_info" where
  "at_info s k = the (cm_at (at_window s) k)"

lemma at_info_at: "at_win s \<Longrightarrow> at_live s k \<Longrightarrow> cm_at (at_window s) k = Some (at_info s k)"
  using at_win_at [of s k] by (auto simp: at_info_def)

lemma release_spec:
  assumes "at_base s" "0 < at_n s" "cm_at (at_window s) (at_next_ack s) = Some i"
  defines "t \<equiv> at_release (at_next_ack s) i s"
  shows "at_base t" "at_n s = Suc (at_n t)" "at_next_ack t = (at_next_ack s + 1) mod at_mod s" "at_next t = at_next s"
    "at_cfg t = at_cfg s" "at_sn_under_segmentation t = at_sn_under_segmentation s" "at_retx_queue t = at_retx_queue s"
    "cm_at (at_window t) = (cm_at (at_window s))(at_next_ack s := None)" "at_out t = at_out s"
    "am_sn_ok (at_sz s) k \<Longrightarrow> k \<noteq> at_next_ack s \<Longrightarrow> at_pos s k = Suc (at_pos t k)"
proof -
  have v: "at_vars s" and w: "at_win s" and inp: "at_inputs s" using assms(1) by (simp_all add: at_base_def)
  show f: "at_next_ack t = (at_next_ack s + 1) mod at_mod s" "at_next t = at_next s" "at_cfg t = at_cfg s"
    "at_sn_under_segmentation t = at_sn_under_segmentation s" "at_retx_queue t = at_retx_queue s" "at_out t = at_out s"
    by (simp_all add: t_def at_release_def)
  have wf: "cm_wf (at_window s)" using w by (simp add: at_win_def)
  show win: "cm_at (at_window t) = (cm_at (at_window s))(at_next_ack s := None)"
    using cm_at_remove_sn [OF wf] by (auto simp: t_def at_release_def)
  have sz: "at_sz t = at_sz s" using f by (simp add: at_sz_def)
  have ok: "am_sn_ok (at_sz s) (at_next_ack s)" "am_sn_ok (at_sz s) (at_next s)" using v by (simp_all add: at_vars_def)
  have one: "am_pos (at_sz s) (at_next_ack s) ((at_next_ack s + 1) mod at_mod s) = 1"
    by (simp add: at_mod_sz am_pos_next)
  have pos: "at_pos s k = Suc (at_pos t k)" if k: "am_sn_ok (at_sz s) k" "k \<noteq> at_next_ack s" for k
  proof -
    have "0 < at_pos s k" using k ok am_pos_zero [of "at_sz s" k "at_next_ack s"] by (simp add: at_pos_def)
    then show ?thesis
      using am_pos_rebase [of "at_sz s" "(at_next_ack s + 1) mod at_mod s" k "at_next_ack s"] f sz one by (simp add: at_pos_def)
  qed
  then show "am_sn_ok (at_sz s) k \<Longrightarrow> k \<noteq> at_next_ack s \<Longrightarrow> at_pos s k = Suc (at_pos t k)" .
  have ne: "at_next s \<noteq> at_next_ack s" using assms(2) by (auto simp: at_n_def at_pos_def)
  then show n: "at_n s = Suc (at_n t)" using pos [OF ok(2)] f by (simp add: at_n_def)
  have self: "at_pos t (at_next_ack s) = am_M (at_sz s) - 1"
    using am_pos_rebase [of "at_sz s" "(at_next_ack s + 1) mod at_mod s" "at_next_ack s" "at_next_ack s"] f sz one by (simp add: at_pos_def)
  have "at_n t < am_M (at_sz s) - 1" using n at_pos_less_M(2) [of s] by simp
  then have live: "at_live t k \<longleftrightarrow> at_live s k \<and> k \<noteq> at_next_ack s" for k
    using pos [of k] n self ne f sz by (cases "k = at_next_ack s") (auto simp: at_live_def)
  have "at_vars t" using v n f ok sz by (auto simp: at_vars_def at_mod_sz split: if_splits)
  moreover have "at_win t"
    using w win live f sz wf by (auto simp: at_win_def at_info_ok_def t_def at_release_def cm_wf_remove_sn split: if_splits)
  moreover have "at_inputs t" using inp sz by (simp add: at_inputs_def t_def at_release_def)
  ultimately show "at_base t" using assms(1) f sz by (simp add: at_base_def)
qed

text \<open>What the upper layer is told about: the last PDCP SN of each kind.\<close>

definition mx_step :: "rlc_tx_am_sdu_info \<Rightarrow> u32 option \<times> u32 option \<Rightarrow> u32 option \<times> u32 option" where
  "mx_step i mx = (if ti_pdcp_sn i = None then mx else if ti_is_retx i then (fst mx, ti_pdcp_sn i) else (ti_pdcp_sn i, snd mx))"

definition at_first :: "rlc_tx_am \<Rightarrow> nat \<Rightarrow> u32 list" where
  "at_first s p = map (am_at (at_sz s) (at_next_ack s)) [0..<p]"

lemma ack_loop_spec:
  assumes "at_base s" "am_sn_ok (at_sz s) stop" "at_pos s stop \<le> at_n s" "at_pos s stop < fuel"
  shows "\<exists>t. at_ack_loop fuel (at_next_ack s) stop mx s = (fold mx_step (map (at_info s) (at_first s (at_pos s stop))) mx, t) \<and>
    at_base t \<and> at_next_ack t = stop \<and> at_next t = at_next s \<and> at_cfg t = at_cfg s \<and> at_out t = at_out s \<and>
    at_sn_under_segmentation t = at_sn_under_segmentation s \<and> at_retx_queue t = at_retx_queue s \<and>
    (\<forall>k. am_sn_ok (at_sz s) k \<longrightarrow>
      cm_at (at_window t) k = (if at_pos s k < at_pos s stop then None else cm_at (at_window s) k)) \<and>
    at_n s = at_pos s stop + at_n t \<and>
    (\<forall>k. am_sn_ok (at_sz s) k \<longrightarrow> at_pos s stop \<le> at_pos s k \<longrightarrow> at_pos s k = at_pos s stop + at_pos t k)"
  using assms
proof (induction fuel arbitrary: s mx)
  case (Suc fuel)
  have v: "at_vars s" and w: "at_win s" using Suc.prems(1) by (simp_all add: at_base_def)
  have ok: "am_sn_ok (at_sz s) (at_next_ack s)" using v by (simp add: at_vars_def)
  show ?case
  proof (cases "at_pos s stop = 0")
    case True
    then have "stop = at_next_ack s" using am_pos_zero [of "at_sz s" stop "at_next_ack s"] Suc.prems(2) ok by (simp add: at_pos_def)
    moreover have "\<not> tx_mod_base s (at_next_ack s) < tx_mod_base s stop" using True by (simp add: tx_mod_base_compare)
    ultimately show ?thesis using Suc.prems(1) True by (simp add: at_first_def)
  next
    case False
    let ?a = "at_next_ack s"
    have lt: "tx_mod_base s ?a < tx_mod_base s stop" using False by (simp add: tx_mod_base_compare at_pos_def)
    have "at_live s ?a" using ok False Suc.prems(3) by (simp add: at_live_def at_pos_def)
    then have i: "cm_at (at_window s) ?a = Some (at_info s ?a)" by (rule at_info_at [OF w])
    have n0: "0 < at_n s" using False Suc.prems(3) by simp
    let ?t = "at_release ?a (at_info s ?a) s"
    note r = release_spec [OF Suc.prems(1) n0 i]
    have sz: "at_sz ?t = at_sz s" "at_mod ?t = at_mod s" using r(5) by (simp_all add: at_sz_def at_mod_def)
    have ns: "stop \<noteq> ?a" using False by (auto simp: at_pos_def)
    have p: "at_pos s stop = Suc (at_pos ?t stop)" using r(10) [OF Suc.prems(2) ns] .
    have first: "at_first s (Suc n) = ?a # at_first ?t n" for n
    proof -
      have "am_at (at_sz s) ?a (Suc j) = am_at (at_sz s) (at_next_ack ?t) j" for j
        unfolding r(3) am_at_def at_mod_sz mod_am_modulus_add by (simp add: add_ac)
      moreover have "am_at (at_sz s) ?a 0 = ?a" using ok by (rule am_at_0)
      ultimately show ?thesis by (simp add: at_first_def sz upt_conv_Cons map_Suc_upt [symmetric] del: upt_Suc)
    qed
    have same: "at_info ?t k = at_info s k" if "k \<in> set (at_first ?t n)" "n < am_M (at_sz s)" for k n
    proof -
      have "at_pos ?t k < n" "am_sn_ok (at_sz s) k" using that by (auto simp: at_first_def at_pos_def sz)
      moreover have "at_pos ?t ?a = am_M (at_sz s) - 1"
        using am_pos_rebase [of "at_sz s" "(?a + 1) mod at_mod s" ?a ?a] by (simp add: r(3) at_pos_def sz at_mod_sz am_pos_next)
      ultimately have "k \<noteq> ?a" using that(2) by auto
      then show ?thesis unfolding at_info_def [of ?t k] r(8) at_info_def [of s k] by simp
    qed
    have pl: "at_pos ?t stop < am_M (at_sz s)" using at_pos_less_M(1) [of ?t stop] sz by simp
    have mp: "map (at_info ?t) (at_first ?t (at_pos ?t stop)) = map (at_info s) (at_first ?t (at_pos ?t stop))"
      using same [OF _ pl] by simp
    obtain t where t: "at_ack_loop fuel (at_next_ack ?t) stop (mx_step (at_info s ?a) mx) ?t =
        (fold mx_step (map (at_info ?t) (at_first ?t (at_pos ?t stop))) (mx_step (at_info s ?a) mx), t)" "at_base t" "at_next_ack t = stop"
      "at_next t = at_next ?t" "at_cfg t = at_cfg ?t" "at_out t = at_out ?t" "at_sn_under_segmentation t = at_sn_under_segmentation ?t"
      "at_retx_queue t = at_retx_queue ?t"
      "\<forall>k. am_sn_ok (at_sz ?t) k \<longrightarrow> cm_at (at_window t) k = (if at_pos ?t k < at_pos ?t stop then None else cm_at (at_window ?t) k)"
      "at_n ?t = at_pos ?t stop + at_n t"
      "\<forall>k. am_sn_ok (at_sz ?t) k \<longrightarrow> at_pos ?t stop \<le> at_pos ?t k \<longrightarrow> at_pos ?t k = at_pos ?t stop + at_pos t k"
      using Suc.IH [OF r(1), of "mx_step (at_info s ?a) mx"] Suc.prems(2-4) sz p r(2) by auto
    have loop: "at_ack_loop (Suc fuel) ?a stop mx s = at_ack_loop fuel (at_next_ack ?t) stop (mx_step (at_info s ?a) mx) ?t"
      using lt i by (simp add: r(3) mx_step_def)
    have w': "cm_at (at_window t) k = (if at_pos s k < at_pos s stop then None else cm_at (at_window s) k)"
      if k: "am_sn_ok (at_sz s) k" for k
    proof (cases "k = ?a")
      case True
      have "cm_at (at_window t) ?a = None" using t(9) ok r(8) by (simp add: sz)
      then show ?thesis using True False by (simp add: at_pos_def)
    next
      case False
      then show ?thesis using t(9) k r(8) r(10) [OF k False] p by (simp add: sz)
    qed
    have q': "at_pos s k = at_pos s stop + at_pos t k" if k: "am_sn_ok (at_sz s) k" "at_pos s stop \<le> at_pos s k" for k
    proof -
      have "k \<noteq> ?a" using k(2) False by (auto simp: at_pos_def)
      then show ?thesis using r(10) [OF k(1)] t(11) k p by (simp add: sz)
    qed
    have "at_ack_loop (Suc fuel) ?a stop mx s = (fold mx_step (map (at_info s) (at_first s (at_pos s stop))) mx, t)"
      unfolding loop t(1) mp p first by simp
    then show ?thesis using t(2-8,10) w' q' r(2,4-7,9) p by (intro exI [of _ t] conjI) simp_all
  qed
qed simp
section \<open>Withdrawing the previous retransmissions\<close>

text \<open>The same up to the counters of retransmissions and the pending retransmissions themselves.\<close>

definition at_plain :: "rlc_tx_am_sdu_info \<Rightarrow> rlc_tx_am_sdu_info" where
  "at_plain i = i\<lparr>ti_retx_count := 0\<rparr>"

definition at_same :: "rlc_tx_am \<Rightarrow> rlc_tx_am \<Rightarrow> bool" where
  "at_same s t \<longleftrightarrow> at_cfg t = at_cfg s \<and> at_next_ack t = at_next_ack s \<and> at_next t = at_next s \<and>
    at_sn_under_segmentation t = at_sn_under_segmentation s \<and> at_queue t = at_queue s \<and> at_status_tasks t = at_status_tasks s \<and>
    cm_wf (at_window t) \<and> cm_size (at_window t) = cm_size (at_window s) \<and>
    (\<forall>k. map_option at_plain (cm_at (at_window t) k) = map_option at_plain (cm_at (at_window s) k))"

lemma at_plain_eq: "at_plain i = at_plain j \<Longrightarrow> ti_sdu i = ti_sdu j \<and> ti_next_so i = ti_next_so j \<and> ti_pdcp_sn i = ti_pdcp_sn j \<and>
    ti_is_retx i = ti_is_retx j"
  by (cases i; cases j) (simp add: at_plain_def)

lemma at_same_view: "cm_wf (at_window s) \<Longrightarrow> at_view t = at_view s \<Longrightarrow> at_queue t = at_queue s \<Longrightarrow> at_same s t"
  by (simp add: at_view_def at_same_def)

lemma at_same_emit: "cm_wf (at_window s) \<Longrightarrow> at_same s (at_emit e s)"
  by (simp add: at_same_def at_emit_def)

lemma at_same_trans: "at_same s t \<Longrightarrow> at_same t u \<Longrightarrow> at_same s u"
  by (simp add: at_same_def)

lemma at_same_facts:
  assumes "at_same s t"
  shows "at_sz t = at_sz s" "at_pos t = at_pos s" "at_n t = at_n s" "at_live t = at_live s" "at_sdu t = at_sdu s" "retx_ok t = retx_ok s"
    "at_vars t = at_vars s" "at_inputs t = at_inputs s" "at_mod t = at_mod s" "at_win s \<Longrightarrow> at_win t"
    "cm_at (at_window s) k = None \<longleftrightarrow> cm_at (at_window t) k = None"
    "cm_at (at_window s) k = Some i \<Longrightarrow> \<exists>j. cm_at (at_window t) k = Some j \<and> at_plain j = at_plain i"
proof -
  note e = assms [unfolded at_same_def]
  show sz: "at_sz t = at_sz s" "at_mod t = at_mod s" using e by (simp_all add: at_sz_def at_mod_def)
  then show pos: "at_pos t = at_pos s" using e by (simp add: at_pos_def fun_eq_iff)
  then show n: "at_n t = at_n s" using e by (simp add: at_n_def)
  show live: "at_live t = at_live s" using e pos n sz by (simp add: at_live_def fun_eq_iff)
  have none: "cm_at (at_window s) k = None \<longleftrightarrow> cm_at (at_window t) k = None" for k using e by (metis map_option_is_None)
  then show "cm_at (at_window s) k = None \<longleftrightarrow> cm_at (at_window t) k = None" .
  have some: "\<exists>j. cm_at (at_window t) k = Some j \<and> at_plain j = at_plain i" if "cm_at (at_window s) k = Some i" for k i
  proof -
    have "map_option at_plain (cm_at (at_window t) k) = Some (at_plain i)" using e that by (metis option.simps(9))
    then show ?thesis by (auto simp: map_option_eq_Some)
  qed
  then show "cm_at (at_window s) k = Some i \<Longrightarrow> \<exists>j. cm_at (at_window t) k = Some j \<and> at_plain j = at_plain i" .
  show sdu: "at_sdu t = at_sdu s"
  proof
    fix k
    show "at_sdu t k = at_sdu s k"
    proof (cases "cm_at (at_window s) k")
      case (Some i)
      obtain j where j: "cm_at (at_window t) k = Some j" "at_plain j = at_plain i" using some [OF Some] by blast
      show ?thesis using Some j(1) at_plain_eq [OF j(2)] by (simp add: at_sdu_def)
    qed (use none [of k] in \<open>simp add: at_sdu_def\<close>)
  qed
  show "retx_ok t = retx_ok s" using live sdu by (simp add: retx_ok_def fun_eq_iff)
  show "at_vars t = at_vars s" "at_inputs t = at_inputs s" using e sz n by (simp_all add: at_vars_def at_inputs_def)
  have info: "at_info_ok t k j" if "at_win s" "cm_at (at_window t) k = Some j" for k j
  proof -
    have "map_option at_plain (cm_at (at_window s) k) = Some (at_plain j)" using e that(2) by (metis option.simps(9))
    then obtain i where i: "cm_at (at_window s) k = Some i" "at_plain i = at_plain j" by (auto simp: map_option_eq_Some)
    then have "at_info_ok s k i" using that(1) unfolding at_win_def by blast
    then show ?thesis using e at_plain_eq [OF i(2)] by (simp add: at_info_ok_def)
  qed
  show "at_win t" if w: "at_win s"
    unfolding at_win_def
  proof (intro conjI allI impI)
    show "cm_wf (at_window t)" "cm_size (at_window t) = am_W (at_sz t)" using e w sz by (simp_all add: at_win_def)
    show "cm_at (at_window t) k \<noteq> None \<longleftrightarrow> at_live t k" for k using none [of k] w live unfolding at_win_def by metis
    show "cm_at (at_window t) k = Some j \<Longrightarrow> at_info_ok t k j" for k j by (rule info [OF w])
  qed
qed

lemma at_same_assign:
  assumes "cm_wf (at_window s)" "cm_at (at_window s) sn = Some i" "at_plain j = at_plain i"
  shows "at_same s (at_assign sn j s)" "cm_at (at_window (at_assign sn j s)) = (cm_at (at_window s))(sn \<mapsto> j)"
  using assms cm_at_assign_present [OF assms(1), of sn j] by (simp_all add: at_assign_def at_same_def cm_wf_assign)

text \<open>The counters.\<close>

lemma decrement_spec:
  assumes "cm_wf (at_window s)" "has_sn (at_window s) sn"
  shows "\<exists>t. at_decrement_retx_count sn s = Some t \<and> at_same s t \<and> at_retx_queue t = at_retx_queue s \<and> at_out t = at_out s"
proof -
  obtain i where i: "cm_at (at_window s) sn = Some i" using assms(2) by (auto simp: has_sn_at)
  have refl: "at_same s s" using assms(1) by (simp add: at_same_def)
  show ?thesis
  proof (cases "ti_retx_count i = RETX_COUNT_NOT_STARTED")
    case True
    then show ?thesis using i refl by (simp add: at_decrement_retx_count_def)
  next
    case False
    obtain j where j: "at_decrement_retx_count sn s = Some (at_assign sn j s)" "at_plain j = at_plain i"
      using i False by (cases "ti_retx_count i = 0") (auto simp: at_decrement_retx_count_def at_plain_def)
    then show ?thesis using at_same_assign(1) [OF assms(1) i j(2)] by (simp add: at_assign_def)
  qed
qed

lemma increment_spec:
  assumes "cm_wf (at_window s)" "cm_at (at_window s) sn \<noteq> None"
  shows "\<exists>t. at_increment_retx_count sn s = Some t \<and> at_same s t \<and> at_retx_queue t = at_retx_queue s"
proof -
  obtain i where i: "cm_at (at_window s) sn = Some i" using assms(2) by auto
  obtain j where j: "at_increment_retx_count sn s = at_check_sn_reached_max_retx sn (at_assign sn j s)" "at_plain j = at_plain i"
    using i by (simp add: at_increment_retx_count_def at_plain_def)
  note a = at_same_assign [OF assms(1) i j(2)]
  let ?u = "at_assign sn j s"
  have wf: "cm_wf (at_window ?u)" using a(1) by (simp add: at_same_def)
  have "at_same s (at_emit At_on_max_retx ?u)" using at_same_trans [OF a(1) at_same_emit [OF wf]] .
  moreover have "at_check_sn_reached_max_retx sn ?u = Some (if ti_retx_count j = ta_max_retx_thresh (at_cfg ?u) then at_emit At_on_max_retx ?u else ?u)"
    using a(2) by (simp add: at_check_sn_reached_max_retx_def)
  ultimately show ?thesis using j(1) a(1) by (simp add: at_emit_def at_assign_def)
qed

lemma clear_retx_spec:
  assumes "at_base s"
  shows "\<exists>t. at_clear_retx s = Some t \<and> at_base t \<and> at_same s t \<and> rq_abs (at_retx_queue t) = [] \<and> at_out t = at_out s"
  using assms
proof (induction s rule: at_clear_retx.induct)
  case (1 s)
  have q: "rq_inv (at_retx_queue s)" and wf: "cm_wf (at_window s)" using "1.prems" by (simp_all add: at_base_def at_win_def)
  have refl: "at_same s s" using wf by (simp add: at_same_def)
  show ?case
  proof (cases "rq_abs (at_retx_queue s)")
    case Nil
    then show ?thesis using rq_empty_spec [OF q] refl "1.prems" by (simp add: at_clear_retx.simps [of s])
  next
    case (Cons r rs)
    then have f: "\<not> rq_empty (at_retx_queue s)" "rq_front (at_retx_queue s) = Some r"
      using rq_empty_spec [OF q] rq_front_spec [OF q] by simp_all
    have "\<exists>u. (if at_retx_sn s \<noteq> rx_sn r then map_option (\<lambda>s. s\<lparr>at_retx_sn := rx_sn r\<rparr>)
          (if has_sn (at_window s) (rx_sn r) then at_decrement_retx_count (rx_sn r) s else Some s) else Some s) = Some u \<and>
        at_same s u \<and> at_retx_queue u = at_retx_queue s \<and> at_out u = at_out s"
    proof (cases "at_retx_sn s \<noteq> rx_sn r \<and> has_sn (at_window s) (rx_sn r)")
      case True
      then obtain t where "at_decrement_retx_count (rx_sn r) s = Some t" "at_same s t" "at_retx_queue t = at_retx_queue s" "at_out t = at_out s"
        using decrement_spec [OF wf] by blast
      then show ?thesis using True by (simp add: at_same_def)
    next
      case False
      then show ?thesis using refl by (auto simp: at_same_def)
    qed
    then obtain u where u: "at_rewind_front r s = Some (u\<lparr>at_retx_queue := rq_pop (at_retx_queue s)\<rparr>)" "at_same s u" "at_out u = at_out s"
      by (auto simp: at_rewind_front_def)
    let ?u = "u\<lparr>at_retx_queue := rq_pop (at_retx_queue s)\<rparr>"
    have su: "at_same s ?u" using u(2) by (simp add: at_same_def)
    note p = rq_pop_spec [OF q] and sf = at_same_facts [OF su]
    have b: "at_base ?u" using "1.prems" sf p by (simp add: at_base_def)
    have c: "at_clear_retx s = at_clear_retx ?u" using f u(1) by (simp add: at_clear_retx.simps [of s])
    show ?thesis using "1.IH" [OF f(1,2) u(1) b] at_same_trans [OF su] u(3) by (auto simp: c)
  qed
qed
section \<open>One NACK\<close>

text \<open>The offsets a NACK without range asks for, and whether it fits an SDU of \<open>len\<close> bytes.\<close>

definition nack_asks :: "rlc_am_status_nack \<Rightarrow> nat set" where
  "nack_asks n = {c. nack_has_so n \<longrightarrow> unat (so_start n) \<le> c \<and> (so_end n = so_end_of_sdu \<or> c \<le> unat (so_end n))}"

definition nack_fits :: "nat \<Rightarrow> rlc_am_status_nack \<Rightarrow> bool" where
  "nack_fits len n \<longleftrightarrow> (nack_has_so n \<longrightarrow> so_start n \<le> so_end n \<and> unat (so_start n) < len \<and>
    (so_end n = so_end_of_sdu \<or> unat (so_end n) < len))"

lemma len_minus_1:
  assumes "0 < len" "len < 2 ^ 15"
  shows "unat (word_of_nat len - 1 :: u16) = len - 1" "(word_of_nat len - 1 :: u16) \<noteq> so_end_of_sdu"
proof -
  have "len < 2 ^ LENGTH(16)" using assms by simp
  then have u: "unat (word_of_nat len :: u16) = len" by (simp add: unsigned_of_nat take_bit_nat_eq_self)
  then have "(1 :: u16) \<le> word_of_nat len" using assms(1) by (simp add: word_le_nat_alt)
  then show l: "unat (word_of_nat len - 1 :: u16) = len - 1" using u by (simp add: unat_sub)
  have "unat so_end_of_sdu = 65535" by (simp add: so_end_of_sdu_def)
  moreover have "len - 1 < 65535" using assms(2) by simp
  ultimately show "(word_of_nat len - 1 :: u16) \<noteq> so_end_of_sdu" using l by (metis less_irrefl)
qed

lemma sane_offsets:
  assumes "0 < len" "len < 2 ^ 15" "nack_sane_offsets len (a, b) s = ((x, y), t)"
  shows "unat x \<le> unat y" "unat y < len" "at_view t = at_view s" "at_queue t = at_queue s"
    "a \<le> b \<Longrightarrow> unat b < len \<Longrightarrow> x = a \<and> y = b \<and> t = s"
proof -
  note l = len_minus_1 [OF assms(1,2)]
  have "(if a > b then 0 else a) \<le> b" by auto
  then have x: "x \<le> b" "unat x < len" using assms(1,3) by (auto simp: nack_sane_offsets_def Let_def split: if_splits)
  have y: "y = (if unat b \<ge> len then word_of_nat len - 1 else b)" using assms(3) by (auto simp: nack_sane_offsets_def Let_def split: if_splits)
  show "unat x \<le> unat y" "unat y < len" using x y l(1) assms(1) by (auto simp: word_le_nat_alt)
  show "at_view t = at_view s" "at_queue t = at_queue s"
    using assms(3) by (auto simp: nack_sane_offsets_def Let_def at_emit_def at_view_def split: if_splits)
  assume "a \<le> b" "unat b < len"
  then show "x = a \<and> y = b \<and> t = s" using assms(3) by (auto simp: nack_sane_offsets_def Let_def word_le_nat_alt word_less_nat_alt)
qed

lemma offsets_exact:
  assumes "0 < len" "len < 2 ^ 15" "seg \<Longrightarrow> 0 < unat next_so \<and> unat next_so < len" "nack_fits len n"
  defines "sent \<equiv> if seg then unat next_so else len"
  shows "nack_offsets seg len next_so n = None \<Longrightarrow> nack_asks n \<inter> {..<sent} = {}"
    "nack_offsets seg len next_so n = Some (x, y) \<Longrightarrow> x \<le> y \<and> unat y < len \<and> {unat x..unat y} \<subseteq> nack_asks n \<and>
      nack_asks n \<inter> {..<sent} \<subseteq> {unat x..unat y}"
proof -
  note l = len_minus_1 [OF assms(1,2)]
  have uc: "(ucast a > m) \<longleftrightarrow> unat m < unat a" "(ucast a = m) \<longleftrightarrow> unat m = unat a" for a :: u16 and m :: u32
    by (simp_all add: word_less_nat_alt unsigned_ucast_eq word_unat_eq_iff take_bit_nat_eq_self eq_commute
        order.strict_trans [OF unsigned_less [of a]])
  have nx: "unat (ucast (next_so - 1) :: u16) = unat next_so - 1" if "seg"
  proof -
    have "(1 :: u32) \<le> next_so" using assms(3) [OF that] by (simp add: word_le_nat_alt)
    then have "unat (next_so - 1) = unat next_so - 1" by (simp add: unat_sub)
    moreover have "unat next_so < 2 ^ 16" using order.strict_trans [OF conjunct2 [OF assms(3) [OF that]] assms(2)] by simp
    then have "unat next_so - 1 < 2 ^ 16" by (rule less_imp_diff_less)
    ultimately show ?thesis by (simp add: unsigned_ucast_eq take_bit_nat_eq_self)
  qed
  show "nack_asks n \<inter> {..<sent} = {}" if "nack_offsets seg len next_so n = None"
    using that assms(3) uc l(2) by (auto simp: nack_offsets_def nack_asks_def sent_def Let_def split: if_splits)
  show "x \<le> y \<and> unat y < len \<and> {unat x..unat y} \<subseteq> nack_asks n \<and> nack_asks n \<inter> {..<sent} \<subseteq> {unat x..unat y}"
    if o: "nack_offsets seg len next_so n = Some (x, y)"
  proof (cases "nack_has_so n \<and> so_end n = so_end_of_sdu")
    case True
    show ?thesis
    proof (cases seg)
      case sg: True
      then have xy: "x = so_start n" "y = ucast (next_so - 1)" "unat (so_start n) < unat next_so"
        using o True uc assms(3) by (auto simp: nack_offsets_def Let_def split: if_splits)
      then show ?thesis using nx [OF sg] True sg assms(3) [OF sg] by (auto simp: word_le_nat_alt nack_asks_def sent_def)
    next
      case False
      then have xy: "x = so_start n" "y = word_of_nat len - 1" using o True by (simp_all add: nack_offsets_def)
      have "unat (so_start n) < len" using assms(4) True by (simp add: nack_fits_def)
      then show ?thesis using xy l(1) True False by (auto simp: word_le_nat_alt nack_asks_def sent_def)
    qed
  next
    case False
    then have xy: "(x, y) = (if nack_has_so n then (so_start n, so_end n) else (0, word_of_nat len - 1))"
      using o l(2) by (auto simp: nack_offsets_def Let_def split: if_splits)
    show ?thesis using xy False l(1) assms(1,3,4) by (auto simp: word_le_nat_alt nack_asks_def sent_def nack_fits_def split: if_splits)
  qed
qed

text \<open>How much of an SDU has been sent.\<close>

definition at_sent :: "rlc_tx_am \<Rightarrow> u32 \<Rightarrow> nat" where
  "at_sent s k = (if k = at_sn_under_segmentation s then unat (ti_next_so (at_info s k)) else length (at_sdu s k))"

definition retx_span :: "rlc_tx_amd_retx \<Rightarrow> (u32 \<times> nat) set" where
  "retx_span r = {rx_sn r} \<times> {unat (rx_so r) ..< unat (rx_so r) + unat (rx_length r)}"

definition retx_spans :: "rlc_tx_amd_retx list \<Rightarrow> (u32 \<times> nat) set" where
  "retx_spans rs = \<Union> (retx_span ` set rs)"

lemma retx_spans_simps [simp]:
  "retx_spans [] = {}" "retx_spans (r # rs) = retx_span r \<union> retx_spans rs" "retx_spans (rs @ ss) = retx_spans rs \<union> retx_spans ss"
  by (auto simp: retx_spans_def)

lemma handle_nack_spec:
  assumes "at_inv s" "\<not> has_nack_range n" "am_sn_ok (at_sz s) (nack_sn n)"
    and "nack_sn n = at_next s \<Longrightarrow> at_sn_under_segmentation s = at_next s"
  shows "\<exists>b t rs. at_handle_nack n s = Some (b, t) \<and> at_inv t \<and> at_same s t \<and> (b \<longrightarrow> at_live s (nack_sn n)) \<and>
    rq_abs (at_retx_queue t) = rq_abs (at_retx_queue s) @ rs \<and>
    length (rq_items (at_retx_queue s)) \<le> length (rq_items (at_retx_queue t)) \<and>
    (nack_fits (length (at_sdu s (nack_sn n))) n \<longrightarrow> retx_spans rs \<subseteq> {nack_sn n} \<times> nack_asks n \<and>
      (at_live s (nack_sn n) \<and> length (rq_items (at_retx_queue t)) < am_W (at_sz s) \<longrightarrow>
        {nack_sn n} \<times> (nack_asks n \<inter> {..<at_sent s (nack_sn n)}) \<subseteq> retx_spans rs))"
proof -
  let ?k = "nack_sn n"
  note v = at_invD(1) [OF assms(1)] and w = at_invD(2) [OF assms(1)] and rt = at_invD(3) [OF assms(1), unfolded at_rtx_def]
  have wf: "cm_wf (at_window s)" using w by (simp add: at_win_def)
  have refl: "at_same s s" using wf by (simp add: at_same_def)
  have live: "at_live s ?k \<longleftrightarrow> at_pos s ?k \<le> at_n s"
  proof
    show "at_live s ?k \<Longrightarrow> at_pos s ?k \<le> at_n s" by (auto simp: at_live_def at_n_def)
    have "?k = at_next s" if "at_pos s ?k = at_n s" using that at_pos_eqD [of s ?k "at_next s"] assms(3) v by (simp add: at_n_def at_vars_def)
    then show "at_pos s ?k \<le> at_n s \<Longrightarrow> at_live s ?k" using assms(3,4) by (auto simp: at_live_def)
  qed
  have chk: "tx_mod_base s (at_next_ack s) \<le> tx_mod_base s ?k \<and> tx_mod_base s ?k \<le> tx_mod_base s (at_next s) \<longleftrightarrow> at_live s ?k"
    unfolding tx_mod_base_compare live at_n_def by (simp add: at_pos_def)
  show ?thesis
  proof (cases "at_live s ?k")
    case False
    then have "at_handle_nack n s = Some (False, s)" using chk assms(2) by (auto simp: at_handle_nack_def)
    then show ?thesis using assms(1) refl False by (intro exI [of _ False] exI [of _ s] exI [of _ "[]"]) simp
  next
    case True
    obtain i where i: "cm_at (at_window s) ?k = Some i" "at_sdu s ?k = ti_sdu i" "at_info_ok s ?k i" using at_win_at [OF w True] by blast
    have L: "0 < length (ti_sdu i)" "length (ti_sdu i) < 2 ^ 15" using i(3) by (simp_all add: at_info_ok_def am_sdu_fits_def)
    let ?seg = "?k = at_sn_under_segmentation s"
    have seg: "?seg \<Longrightarrow> 0 < unat (ti_next_so i) \<and> unat (ti_next_so i) < length (ti_sdu i)" using i(3) by (simp add: at_info_ok_def)
    have sent: "at_sent s ?k = (if ?seg then unat (ti_next_so i) else length (ti_sdu i))" using i(1,2) by (auto simp: at_sent_def at_info_def)
    show ?thesis
    proof (cases "nack_offsets ?seg (length (ti_sdu i)) (ti_next_so i) n")
      case None
      then have "at_handle_nack n s = Some (False, s)" using chk assms(2) True i(1) by (auto simp: at_handle_nack_def)
      moreover have "nack_asks n \<inter> {..<at_sent s ?k} = {}" if "nack_fits (length (ti_sdu i)) n"
        using offsets_exact(1) [OF L seg that None] sent by simp
      ultimately show ?thesis using assms(1) refl i(2) by (intro exI [of _ False] exI [of _ s] exI [of _ "[]"]) simp
    next
      case (Some ab)
      obtain a b where ab: "ab = (a, b)" by (cases ab)
      obtain x y u where so: "nack_sane_offsets (length (ti_sdu i)) (a, b) s = ((x, y), u)" by (metis surj_pair)
      note sn = sane_offsets [OF L so]
      define r where "r = \<lparr>rx_sn = ?k, rx_so = ucast x, rx_length = ucast y - ucast x + 1\<rparr>"
      obtain p q where pq: "rq_try_push r (at_retx_queue s) = (p, q)" by (metis surj_pair)
      have uq: "at_retx_queue u = at_retx_queue s" using at_view_fields(5) [OF sn(3)] .
      let ?t = "u\<lparr>at_retx_queue := q\<rparr>"
      have h: "at_handle_nack n s = Some (p, ?t)"
        using chk assms(2) True i(1) Some ab so pq uq by (auto simp: at_handle_nack_def Let_def r_def)
      have ux: "unat (ucast z :: u32) = unat z" for z :: u16
        using order.strict_trans [OF unsigned_less [of z], of "2 ^ 32"] by (simp add: unsigned_ucast_eq take_bit_nat_eq_self)
      have "(ucast x :: u32) \<le> ucast y" using sn(1) ux by (simp add: word_le_nat_alt)
      then have "unat (ucast y - ucast x :: u32) = unat y - unat x" using ux by (simp add: unat_sub)
      then have len: "unat (rx_so r) = unat x" "unat (rx_length r) = Suc (unat y - unat x)"
        using sn(2) L(2) ux by (simp_all add: r_def unat_word_ariths)
      then have rok: "retx_ok s r" using True sn(1,2) i(2) by (simp add: retx_ok_def r_def)
      then have ok: "\<forall>q \<in> set (r # rq_abs (at_retx_queue s)). retx_ok s q" using rt by simp
      have cap: "length (rq_items (at_retx_queue s)) \<le> am_W (at_sz s)" using rt by (simp add: rq_inv_def)
      have "retx_total (r # rq_abs (at_retx_queue s)) < 2 ^ 32"
        using retx_total_small [OF w ok] cap rq_abs_length [of "at_retx_queue s"] by simp
      note ps = rq_push_spec [OF _ pq this]
      have ps: "rq_inv q" "rq_capacity q = am_W (at_sz s)" "rq_abs q = rq_abs (at_retx_queue s) @ (if p then [r] else [])"
        "p \<longleftrightarrow> length (rq_items (at_retx_queue s)) < am_W (at_sz s)" using ps rt by auto
      have items: "length (rq_items q) = length (rq_items (at_retx_queue s)) + (if p then 1 else 0)"
        using pq by (auto simp: rq_try_push_def split: if_splits)
      have us: "at_same s u" by (rule at_same_view [OF wf sn(3,4)])
      have inv: "at_inv u" using at_view_eq(1) [OF sn(3)] assms(1) by simp
      have ru: "retx_ok u = retx_ok s" "at_sz u = at_sz s" using at_same_facts(1,6) [OF us] by simp_all
      have it: "at_inv ?t" using at_retx_inv [OF inv, of q] ps ok ru by auto
      have st: "at_same s ?t" using us by (simp add: at_same_def)
      have span: "retx_span r = {?k} \<times> {unat x..unat y}" using len sn(1) by (auto simp: retx_span_def r_def)
      show ?thesis
      proof (intro exI conjI)
        show "at_handle_nack n s = Some (p, ?t)" by (rule h)
        show "at_inv ?t" "at_same s ?t" by fact+
        show "rq_abs (at_retx_queue ?t) = rq_abs (at_retx_queue s) @ (if p then [r] else [])" using ps(3) by simp
        show "nack_fits (length (at_sdu s ?k)) n \<longrightarrow> retx_spans (if p then [r] else []) \<subseteq> {?k} \<times> nack_asks n \<and>
          (at_live s ?k \<and> length (rq_items (at_retx_queue ?t)) < am_W (at_sz s) \<longrightarrow>
            {?k} \<times> (nack_asks n \<inter> {..<at_sent s ?k}) \<subseteq> retx_spans (if p then [r] else []))"
        proof
          assume "nack_fits (length (at_sdu s ?k)) n"
          then have f: "nack_fits (length (ti_sdu i)) n" using i(2) by simp
          have o: "nack_offsets ?seg (length (ti_sdu i)) (ti_next_so i) n = Some (a, b)" using Some ab by simp
          note e = offsets_exact(2) [OF L seg f o, folded sent]
          have "x = a" "y = b" using sn(5) e by auto
          then show "retx_spans (if p then [r] else []) \<subseteq> {?k} \<times> nack_asks n \<and>
            (at_live s ?k \<and> length (rq_items (at_retx_queue ?t)) < am_W (at_sz s) \<longrightarrow>
              {?k} \<times> (nack_asks n \<inter> {..<at_sent s ?k}) \<subseteq> retx_spans (if p then [r] else []))"
            using e span ps(4) items by auto
        qed
      qed (use items True in auto)
    qed
  qed
qed
section \<open>All NACKs\<close>

definition at_sent_set :: "rlc_tx_am \<Rightarrow> (u32 \<times> nat) set" where
  "at_sent_set s = {(k, b). at_live s k \<and> b < at_sent s k}"

text \<open>Retransmissions for the bytes \<open>A\<close> are queued behind the others; all of those that have been sent if there is room.\<close>

definition at_queues :: "rlc_tx_am \<Rightarrow> (u32 \<times> nat) set \<Rightarrow> bool \<Rightarrow> rlc_tx_am \<Rightarrow> bool" where
  "at_queues s A fits t \<longleftrightarrow> at_inv t \<and> at_same s t \<and> length (rq_items (at_retx_queue s)) \<le> length (rq_items (at_retx_queue t)) \<and>
    (\<exists>rs. rq_abs (at_retx_queue t) = rq_abs (at_retx_queue s) @ rs \<and>
      (fits \<longrightarrow> retx_spans rs \<subseteq> A \<and> (length (rq_items (at_retx_queue t)) < am_W (at_sz s) \<longrightarrow> A \<inter> at_sent_set s \<subseteq> retx_spans rs)))"

lemma at_same_sent:
  assumes "at_same s t" "at_win s"
  shows "at_sent_set t = at_sent_set s"
proof -
  have "at_sent t k = at_sent s k" if "at_live s k" for k
  proof -
    have "cm_at (at_window s) k = Some (at_info s k)" by (rule at_info_at [OF assms(2) that])
    then obtain j where j: "cm_at (at_window t) k = Some j" "at_plain j = at_plain (at_info s k)" using at_same_facts(12) [OF assms(1)] by blast
    have nx: "ti_next_so j = ti_next_so (at_info s k)" using at_plain_eq [OF j(2)] by simp
    have u: "at_sn_under_segmentation t = at_sn_under_segmentation s" using assms(1) by (simp add: at_same_def)
    have i: "at_info t k = j" using j(1) by (simp add: at_info_def)
    show ?thesis unfolding at_sent_def u i nx at_same_facts(5) [OF assms(1)] ..
  qed
  then show ?thesis using at_same_facts(4) [OF assms(1)] by (auto simp: at_sent_set_def)
qed

lemma at_queues_refl: "at_inv s \<Longrightarrow> at_queues s {} f s"
  by (auto simp: at_queues_def at_same_def at_inv_def at_win_def)

lemma at_queues_trans:
  assumes "at_inv s" "at_queues s A f t" "at_queues t B g u"
  shows "at_queues s (A \<union> B) (f \<and> g) u"
proof -
  have w: "at_win s" and st: "at_same s t" using assms(1,2) by (simp_all add: at_inv_def at_queues_def)
  have e: "at_sent_set t = at_sent_set s" "at_sz t = at_sz s" using at_same_sent [OF st w] at_same_facts(1) [OF st] by simp_all
  obtain rs where rs: "rq_abs (at_retx_queue t) = rq_abs (at_retx_queue s) @ rs" "f \<Longrightarrow> retx_spans rs \<subseteq> A"
    "f \<Longrightarrow> length (rq_items (at_retx_queue t)) < am_W (at_sz s) \<Longrightarrow> A \<inter> at_sent_set s \<subseteq> retx_spans rs"
    using assms(2) by (auto simp: at_queues_def)
  obtain ss where ss: "rq_abs (at_retx_queue u) = rq_abs (at_retx_queue t) @ ss" "g \<Longrightarrow> retx_spans ss \<subseteq> B"
    "g \<Longrightarrow> length (rq_items (at_retx_queue u)) < am_W (at_sz s) \<Longrightarrow> B \<inter> at_sent_set s \<subseteq> retx_spans ss"
    using assms(3) e by (auto simp: at_queues_def)
  have l: "length (rq_items (at_retx_queue s)) \<le> length (rq_items (at_retx_queue t))"
    "length (rq_items (at_retx_queue t)) \<le> length (rq_items (at_retx_queue u))"
    using assms(2,3) by (simp_all add: at_queues_def)
  have room: "length (rq_items (at_retx_queue t)) < am_W (at_sz s)" if "length (rq_items (at_retx_queue u)) < am_W (at_sz s)"
    using l(2) that by (rule order_le_less_trans)
  have sub: "retx_spans (rs @ ss) \<subseteq> A \<union> B" if "f \<and> g" using that rs(2) ss(2) by auto
  have sup: "(A \<union> B) \<inter> at_sent_set s \<subseteq> retx_spans (rs @ ss)"
    if "f \<and> g" "length (rq_items (at_retx_queue u)) < am_W (at_sz s)"
    using that(1) rs(3) [OF _ room [OF that(2)]] ss(3) [OF _ that(2)] by auto
  have ex: "rq_abs (at_retx_queue u) = rq_abs (at_retx_queue s) @ (rs @ ss)" using rs(1) ss(1) by simp
  have "at_same s u" "at_inv u" using assms(2,3) at_same_trans [of s t u] by (simp_all add: at_queues_def)
  then show ?thesis unfolding at_queues_def using sub sup ex order_trans [OF l] by blast
qed

lemma at_same_inv:
  assumes "at_inv s" "at_same s t" "at_retx_queue t = at_retx_queue s"
  shows "at_inv t"
  using assms(1,3) at_same_facts(1,6,7,8,10) [OF assms(2)] by (simp add: at_inv_def at_rtx_def)

text \<open>The SDU a retransmission is counted for must not be TX_Next, unless that is being segmented: here the code runs into the
  assertion of \<open>operator[]\<close>.\<close>

definition nack_safe :: "rlc_tx_am \<Rightarrow> u32 \<Rightarrow> bool" where
  "nack_safe s k \<longleftrightarrow> am_sn_ok (at_sz s) k \<and> (k = at_next s \<longrightarrow> at_sn_under_segmentation s = at_next s)"

lemma nack_safe_same: "at_same s t \<Longrightarrow> nack_safe t = nack_safe s"
  using at_same_facts(1) [of s t] by (simp add: nack_safe_def at_same_def fun_eq_iff)

lemma apply_nack_spec:
  assumes "at_inv s" "\<not> has_nack_range n" "nack_safe s (nack_sn n)"
  shows "\<exists>prev' t. at_apply_nack n (prev, s) = Some (prev', t) \<and>
    at_queues s ({nack_sn n} \<times> nack_asks n) (nack_fits (length (at_sdu s (nack_sn n))) n) t"
proof -
  have k: "am_sn_ok (at_sz s) (nack_sn n)" "nack_sn n = at_next s \<Longrightarrow> at_sn_under_segmentation s = at_next s"
    using assms(3) by (simp_all add: nack_safe_def)
  obtain b t rs where t: "at_handle_nack n s = Some (b, t)" "at_inv t" "at_same s t" "b \<longrightarrow> at_live s (nack_sn n)"
    "rq_abs (at_retx_queue t) = rq_abs (at_retx_queue s) @ rs" "length (rq_items (at_retx_queue s)) \<le> length (rq_items (at_retx_queue t))"
    "nack_fits (length (at_sdu s (nack_sn n))) n \<longrightarrow> retx_spans rs \<subseteq> {nack_sn n} \<times> nack_asks n \<and>
      (at_live s (nack_sn n) \<and> length (rq_items (at_retx_queue t)) < am_W (at_sz s) \<longrightarrow>
        {nack_sn n} \<times> (nack_asks n \<inter> {..<at_sent s (nack_sn n)}) \<subseteq> retx_spans rs)"
    using handle_nack_spec [OF assms(1,2) k] by blast
  have q: "at_queues s ({nack_sn n} \<times> nack_asks n) (nack_fits (length (at_sdu s (nack_sn n))) n) u"
    if u: "at_same t u" "at_retx_queue u = at_retx_queue t" for u
  proof -
    have "at_inv u" "at_same s u" using at_same_inv [OF t(2) u] at_same_trans [OF t(3) u(1)] .
    then show ?thesis using t(5-7) u(2) by (auto simp: at_queues_def at_sent_set_def)
  qed
  have wf: "cm_wf (at_window t)" using t(2) by (simp add: at_inv_def at_win_def)
  show ?thesis
  proof (cases "b \<and> prev \<noteq> nack_sn n")
    case True
    then have "at_live t (nack_sn n)" using t(4) at_same_facts(4) [OF t(3)] by simp
    then have p: "cm_at (at_window t) (nack_sn n) \<noteq> None" using t(2) unfolding at_inv_def at_win_def by blast
    obtain u where "at_increment_retx_count (nack_sn n) t = Some u" "at_same t u" "at_retx_queue u = at_retx_queue t"
      using increment_spec [OF wf p] by blast
    then show ?thesis using q t(1) True by (simp add: at_apply_nack_def)
  next
    case False
    have "at_same t t" using wf by (simp add: at_same_def)
    then show ?thesis using q t(1) False by (auto simp: at_apply_nack_def)
  qed
qed

text \<open>The sequence numbers of a NACK, and the NACK for each.\<close>

definition range_sn :: "u32 \<Rightarrow> rlc_am_status_nack \<Rightarrow> nat \<Rightarrow> u32" where
  "range_sn m n j = (nack_sn n + word_of_nat j) mod m"

definition nack_elem :: "u32 \<Rightarrow> rlc_am_status_nack \<Rightarrow> nat \<Rightarrow> rlc_am_status_nack" where
  "nack_elem m n j = (if has_nack_range n then nack_of_range m n (range_sn m n j) else n)"

lemma range_sn_inj:
  assumes "range_sn (am_modulus sz) n i = range_sn (am_modulus sz) n j" "i < 256" "j < 256"
  shows "i = j"
proof -
  have M: "256 < am_M sz" by (cases sz) (simp_all add: am_sizes(1))
  have "am_pos sz (nack_sn n) (range_sn (am_modulus sz) n k) = k" if "k < 256" for k
    using am_pos_add [of sz "nack_sn n" "nack_sn n" k] that M by (simp add: range_sn_def)
  then show ?thesis using assms by metis
qed

lemma nack_len_256: "nack_len n < 256"
  using unsigned_less [of "nack_range n", where 'a = nat] by (simp add: nack_len_def)

lemma nack_elem_sn: "am_sn_ok sz (nack_sn n) \<Longrightarrow> j < nack_len n \<Longrightarrow> nack_sn (nack_elem (am_modulus sz) n j) = range_sn (am_modulus sz) n j"
  by (cases "has_nack_range n")
    (auto simp: nack_elem_def nack_of_range_def nack_len_def range_sn_def rlc_am_nack_new_def Let_def am_sn_mod_id)

lemma nack_elem_plain: "\<not> has_nack_range (nack_elem m n j)"
  by (simp add: nack_elem_def nack_of_range_def rlc_am_nack_new_def Let_def)

lemma nack_elem_asks:
  assumes "am_sn_ok sz (nack_sn n)" "j < nack_len n"
  shows "nack_asks (nack_elem (am_modulus sz) n j) = {c. (nack_has_so n \<and> j = 0 \<longrightarrow> unat (so_start n) \<le> c) \<and>
    (nack_has_so n \<and> Suc j = nack_len n \<longrightarrow> so_end n = so_end_of_sdu \<or> c \<le> unat (so_end n))}"
proof (cases "has_nack_range n")
  case False
  then show ?thesis using assms by (auto simp: nack_elem_def nack_asks_def nack_len_def)
next
  case True
  let ?m = "am_modulus sz"
  have l: "nack_len n = unat (nack_range n)" "nack_len n < 256" using True nack_len_256 [of n] by (simp_all add: nack_len_def)
  have "range_sn ?m n 0 = nack_sn n" using assms(1) by (simp add: range_sn_def am_sn_mod_id)
  then have first: "range_sn ?m n j = nack_sn n \<longleftrightarrow> j = 0" using range_sn_inj [of sz n j 0] assms(2) l by auto
  have "word_of_nat (nack_len n - 1) = (ucast (nack_range n) - 1 :: u32)"
    using l assms(2) by (simp add: of_nat_diff)
  then have lst: "range_sn ?m n (nack_len n - 1) = nack_last_sn n mod ?m" by (simp add: range_sn_def nack_last_sn_def add_diff_eq)
  have fin: "range_sn ?m n j = nack_last_sn n mod ?m \<longleftrightarrow> Suc j = nack_len n"
  proof
    assume "range_sn ?m n j = nack_last_sn n mod ?m"
    then have "j = nack_len n - 1" using range_sn_inj [of sz n j "nack_len n - 1"] assms(2) l
      lst by simp
    then show "Suc j = nack_len n" using assms(2) by simp
  next
    assume "Suc j = nack_len n"
    then have "j = nack_len n - 1" by simp
    then show "range_sn ?m n j = nack_last_sn n mod ?m" using lst by metis
  qed
  show ?thesis using True first fin
    by (auto simp: nack_elem_def nack_of_range_def nack_asks_def rlc_am_nack_new_def Let_def unat_eq_0)
qed

lemma nack_missing_elems:
  assumes "am_sn_ok sz (nack_sn n)"
  shows "nack_missing (am_modulus sz) n = (\<Union>j \<in> {..<nack_len n}. {range_sn (am_modulus sz) n j} \<times> nack_asks (nack_elem (am_modulus sz) n j))"
  using nack_elem_asks [OF assms] by (auto simp: nack_missing_def range_sn_def)
lemma nack_range_spec:
  assumes "at_inv s" "has_nack_range n" "am_sn_ok (at_sz s) (nack_sn n)" "i \<le> nack_len n" "nack_len n - i < fuel"
    and "\<forall>j. i \<le> j \<and> j < nack_len n \<longrightarrow> nack_safe s (range_sn (at_mod s) n j) \<and> range_sn (at_mod s) n j \<noteq> ack"
  shows "\<exists>prev' t. at_nack_range fuel ack n (range_sn (at_mod s) n i) (prev, s) = Some (prev', t) \<and>
    at_queues s (\<Union>j \<in> {i..<nack_len n}. {range_sn (at_mod s) n j} \<times> nack_asks (nack_elem (at_mod s) n j))
      (\<forall>j. i \<le> j \<and> j < nack_len n \<longrightarrow> nack_fits (length (at_sdu s (range_sn (at_mod s) n j))) (nack_elem (at_mod s) n j)) t"
  using assms
proof (induction fuel arbitrary: s i prev)
  case (Suc fuel)
  let ?m = "at_mod s"
  have len: "nack_len n = unat (nack_range n)" using assms(2) by (simp add: nack_len_def)
  have end_sn: "range_sn ?m n (nack_len n) = (nack_sn n + ucast (nack_range n)) mod ?m" by (simp add: range_sn_def len)
  show ?case
  proof (cases "i = nack_len n")
    case True
    then have "at_nack_range (Suc fuel) ack n (range_sn ?m n i) (prev, s) = Some (prev, s)" using end_sn by simp
    then show ?thesis using at_queues_refl [OF Suc.prems(1)] True by auto
  next
    case False
    then have i: "i < nack_len n" using Suc.prems(4) by simp
    have "range_sn ?m n i \<noteq> range_sn ?m n (nack_len n)"
      using range_sn_inj [of "at_sz s" n i "nack_len n"] i nack_len_256 [of n] unfolding at_mod_sz by auto
    then have ne: "range_sn ?m n i \<noteq> (nack_sn n + ucast (nack_range n)) mod ?m" unfolding end_sn .
    let ?e = "nack_elem ?m n i"
    have e: "nack_sn ?e = range_sn ?m n i" "\<not> has_nack_range ?e"
      using nack_elem_sn [OF Suc.prems(3) i] nack_elem_plain by (simp_all add: at_mod_sz)
    have "nack_safe s (nack_sn ?e)" using Suc.prems(6) i e(1) by simp
    from apply_nack_spec [OF Suc.prems(1) e(2) this, of prev]
    obtain p t where t: "at_apply_nack ?e (prev, s) = Some (p, t)"
      "at_queues s ({range_sn ?m n i} \<times> nack_asks ?e) (nack_fits (length (at_sdu s (range_sn ?m n i))) ?e) t"
      unfolding e(1) by blast
    have same: "at_same s t" "at_inv t" using t(2) by (simp_all add: at_queues_def)
    note sf = at_same_facts [OF same(1)]
    have nxt: "(range_sn ?m n i + 1) mod ?m = range_sn ?m n (Suc i)" unfolding range_sn_def at_mod_sz mod_am_modulus_add by (simp add: add_ac)
    have fu: "nack_len n - Suc i < fuel" using Suc.prems(5) i by linarith
    obtain p' u where u: "at_nack_range fuel ack n (range_sn ?m n (Suc i)) (p, t) = Some (p', u)"
      "at_queues t (\<Union>j \<in> {Suc i..<nack_len n}. {range_sn ?m n j} \<times> nack_asks (nack_elem ?m n j))
        (\<forall>j. Suc i \<le> j \<and> j < nack_len n \<longrightarrow> nack_fits (length (at_sdu s (range_sn ?m n j))) (nack_elem ?m n j)) u"
      using Suc.IH [OF same(2) assms(2), of "Suc i" p] Suc.prems(3,6) fu i sf(1,5,9) nack_safe_same [OF same(1)] by auto
    have "at_nack_range (Suc fuel) ack n (range_sn ?m n i) (prev, s) = Some (p', u)"
      using ne Suc.prems(6) i t(1) u(1) nxt assms(2) by (simp add: nack_elem_def Let_def)
    moreover have "{i..<nack_len n} = insert i {Suc i..<nack_len n}" using i by auto
    moreover have "(nack_fits (length (at_sdu s (range_sn ?m n i))) ?e \<and>
        (\<forall>j. Suc i \<le> j \<and> j < nack_len n \<longrightarrow> nack_fits (length (at_sdu s (range_sn ?m n j))) (nack_elem ?m n j))) =
        (\<forall>j. i \<le> j \<and> j < nack_len n \<longrightarrow> nack_fits (length (at_sdu s (range_sn ?m n j))) (nack_elem ?m n j))"
      using i by (auto simp: Suc_le_eq) (metis le_neq_implies_less)
    ultimately show ?thesis using at_queues_trans [OF Suc.prems(1) t(2) u(2)] by (intro exI [of _ p'] exI [of _ u]) simp
  qed
qed simp

text \<open>The NACKs of a report that an accepted report may contain, and the offsets that fit the SDUs.\<close>

definition nacks_safe :: "rlc_tx_am \<Rightarrow> u32 \<Rightarrow> rlc_am_status_nack \<Rightarrow> bool" where
  "nacks_safe s ack n \<longleftrightarrow> am_sn_ok (at_sz s) (nack_sn n) \<and>
    (\<forall>j < nack_len n. nack_safe s (range_sn (at_mod s) n j) \<and> range_sn (at_mod s) n j \<noteq> ack)"

definition nacks_fit :: "rlc_tx_am \<Rightarrow> rlc_am_status_nack \<Rightarrow> bool" where
  "nacks_fit s n \<longleftrightarrow> (\<forall>j < nack_len n. nack_fits (length (at_sdu s (range_sn (at_mod s) n j))) (nack_elem (at_mod s) n j))"

lemma at_same_nacks: "at_same s t \<Longrightarrow> nacks_safe t = nacks_safe s \<and> nacks_fit t = nacks_fit s"
  using at_same_facts(1,5,9) [of s t] nack_safe_same [of s t] by (simp add: nacks_safe_def nacks_fit_def fun_eq_iff)

lemma apply_nacks_spec:
  assumes "at_inv s" "\<forall>n \<in> set ns. nacks_safe s ack n"
  shows "\<exists>prev' t. at_apply_nacks ack ns (prev, s) = Some (prev', t) \<and>
    at_queues s (\<Union> (nack_missing (at_mod s) ` set ns)) (\<forall>n \<in> set ns. nacks_fit s n) t"
  using assms
proof (induction ns arbitrary: s prev)
  case Nil
  then show ?case using at_queues_refl by simp
next
  case (Cons n ns)
  let ?m = "at_mod s"
  have n: "am_sn_ok (at_sz s) (nack_sn n)" "\<forall>j < nack_len n. nack_safe s (range_sn ?m n j) \<and> range_sn ?m n j \<noteq> ack"
    using Cons.prems(2) by (simp_all add: nacks_safe_def)
  have "range_sn ?m n 0 = nack_sn n" using n(1) by (simp add: range_sn_def at_mod_sz am_sn_mod_id)
  have "\<exists>p t. (if has_nack_range n then at_nack_range 256 ack n (nack_sn n) (prev, s) else at_apply_nack n (prev, s)) = Some (p, t) \<and>
    at_queues s (nack_missing ?m n) (nacks_fit s n) t"
  proof (cases "has_nack_range n")
    case True
    have "\<exists>p t. at_nack_range 256 ack n (range_sn ?m n 0) (prev, s) = Some (p, t) \<and>
      at_queues s (\<Union>j \<in> {0..<nack_len n}. {range_sn ?m n j} \<times> nack_asks (nack_elem ?m n j))
        (\<forall>j. 0 \<le> j \<and> j < nack_len n \<longrightarrow> nack_fits (length (at_sdu s (range_sn ?m n j))) (nack_elem ?m n j)) t"
      by (rule nack_range_spec [OF Cons.prems(1) True n(1)]) (use n(2) nack_len_256 [of n] in auto)
    moreover have "nack_missing ?m n = (\<Union>j \<in> {0..<nack_len n}. {range_sn ?m n j} \<times> nack_asks (nack_elem ?m n j))"
      using nack_missing_elems [OF n(1)] by (simp add: at_mod_sz atLeast0LessThan)
    ultimately show ?thesis using True \<open>range_sn ?m n 0 = nack_sn n\<close> by (simp add: nacks_fit_def)
  next
    case False
    then have l: "nack_len n = 1" "nack_elem ?m n 0 = n" by (simp_all add: nack_len_def nack_elem_def)
    then have "nack_safe s (nack_sn n)" using n(2) \<open>range_sn ?m n 0 = nack_sn n\<close> by simp
    moreover have "nack_missing ?m n = {nack_sn n} \<times> nack_asks n"
      using nack_missing_elems [OF n(1)] l \<open>range_sn ?m n 0 = nack_sn n\<close> by (simp add: at_mod_sz lessThan_Suc)
    moreover have "nacks_fit s n = nack_fits (length (at_sdu s (nack_sn n))) n"
      using l \<open>range_sn ?m n 0 = nack_sn n\<close> by (simp add: nacks_fit_def)
    ultimately show ?thesis using apply_nack_spec [OF Cons.prems(1) False, of prev] False by simp
  qed
  then obtain p t where t: "(if has_nack_range n then at_nack_range 256 ack n (nack_sn n) (prev, s) else at_apply_nack n (prev, s)) = Some (p, t)"
    "at_queues s (nack_missing ?m n) (nacks_fit s n) t" by blast
  have same: "at_same s t" "at_inv t" using t(2) by (simp_all add: at_queues_def)
  note sn = at_same_nacks [OF same(1)] and sf = at_same_facts(9) [OF same(1)]
  obtain p' u where u: "at_apply_nacks ack ns (p, t) = Some (p', u)"
    "at_queues t (\<Union> (nack_missing ?m ` set ns)) (\<forall>n \<in> set ns. nacks_fit s n) u"
    using Cons.IH [OF same(2), of p] Cons.prems(2) sn sf by auto
  show ?case using at_queues_trans [OF Cons.prems(1) t(2) u(2)] t(1) u(1) by (intro exI [of _ p'] exI [of _ u]) simp
qed
section \<open>Accepted reports\<close>

lemma valid_nack_spec:
  assumes "at_valid_nack ack n s = (ok, t)"
  shows "at_view t = at_view s" "at_queue t = at_queue s" "ok \<Longrightarrow> t = s"
    "ok \<longleftrightarrow> at_pos s (nack_sn n) < at_pos s ack \<and> at_pos s (nack_sn n) < am_W (at_sz s) \<and> at_pos s (nack_sn n) \<le> at_n s \<and>
      (has_nack_range n \<longrightarrow> at_pos s (nack_last_sn n) < at_pos s ack \<and> at_pos s (nack_last_sn n) < am_W (at_sz s) \<and>
        at_pos s (nack_last_sn n) \<le> at_n s)"
  using assms by (auto simp: at_valid_nack_def inside_tx_window_def tx_mod_base_compare at_n_def at_emit_def at_view_def split: if_splits)

lemma valid_nacks_spec:
  assumes "at_valid_nacks ack ns s = (ok, t)"
  shows "at_view t = at_view s" "at_queue t = at_queue s" "ok \<Longrightarrow> t = s"
    "ok \<Longrightarrow> n \<in> set ns \<Longrightarrow> at_valid_nack ack n s = (True, s)"
  using assms
proof (induction ns)
  case (Cons m ns)
  obtain ok1 u where v: "at_valid_nack ack m s = (ok1, u)" by (metis surj_pair)
  note vs = valid_nack_spec [OF v]
  {
    case 1
    then show ?case using Cons.IH v vs by (cases ok1) auto
  next
    case 2
    then show ?case using Cons.IH v vs by (cases ok1) auto
  next
    case 3
    then show ?case using Cons.IH v vs by (cases ok1) auto
  next
    case 4
    then show ?case using Cons.IH v vs by (cases ok1) auto
  }
qed simp_all

text \<open>An accepted report acknowledges at most one sequence number beyond TX_Next, and all its NACKs are below ACK_SN.\<close>

lemma accept_spec:
  assumes "at_vars s" "at_accept_status st s = (ok, t)"
  shows "at_view t = at_view s" "at_queue t = at_queue s" "ok \<Longrightarrow> t = s" "ok \<Longrightarrow> 0 < at_pos s (sp_ack_sn st)"
    "ok \<Longrightarrow> at_pos s (sp_ack_sn st) \<le> Suc (at_n s)"
    "ok \<Longrightarrow> n \<in> set (sp_nacks st) \<Longrightarrow> at_pos s (nack_sn n) < at_pos s (sp_ack_sn st)"
    "ok \<Longrightarrow> n \<in> set (sp_nacks st) \<Longrightarrow> j < nack_len n \<Longrightarrow>
      at_pos s (range_sn (at_mod s) n j) = at_pos s (nack_sn n) + j \<and> at_pos s (nack_sn n) + j < at_pos s (sp_ack_sn st)"
proof -
  have nW: "at_n s \<le> am_W (at_sz s)" using assms(1) by (auto simp: at_vars_def split: if_splits)
  have M: "am_W (at_sz s) + 256 \<le> am_M (at_sz s)" using am_sizes(1,2) [of "at_sz s"] by (cases "at_sz s") auto
  have n1: "at_pos s (at_next s + 1) = Suc (at_n s)"
    using am_pos_Suc [of "at_sz s" "at_next_ack s" "at_next s"] nW M by (simp add: at_pos_def at_n_def)
  have cases: "(t = s \<or> t = at_emit At_defer_protocol_failure s) \<and> \<not> ok \<or>
    0 < at_pos s (sp_ack_sn st) \<and> at_pos s (sp_ack_sn st) \<le> Suc (at_n s) \<and> at_valid_nacks (sp_ack_sn st) (sp_nacks st) s = (ok, t)"
    using assms(2) n1 by (auto simp: at_accept_status_def at_valid_ack_sn_def tx_mod_base_compare split: if_splits)
  have e: "at_view (at_emit e s) = at_view s" "at_queue (at_emit e s) = at_queue s" for e by (simp_all add: at_emit_def at_view_def)
  show "at_view t = at_view s" "at_queue t = at_queue s" "ok \<Longrightarrow> t = s"
    using cases valid_nacks_spec [of "sp_ack_sn st" "sp_nacks st" s ok t] e by auto
  show "ok \<Longrightarrow> 0 < at_pos s (sp_ack_sn st)" "ok \<Longrightarrow> at_pos s (sp_ack_sn st) \<le> Suc (at_n s)" using cases by auto
  assume ok and n: "n \<in> set (sp_nacks st)"
  then have v: "at_valid_nack (sp_ack_sn st) n s = (True, s)" using cases valid_nacks_spec(4) [of "sp_ack_sn st" "sp_nacks st" s ok t] by auto
  note vs = valid_nack_spec(4) [OF v]
  show "at_pos s (nack_sn n) < at_pos s (sp_ack_sn st)" using vs by simp
  assume j: "j < nack_len n"
  have l: "nack_len n < 256" by (rule nack_len_256)
  have p: "at_pos s (nack_sn n + word_of_nat i) = at_pos s (nack_sn n) + i" if "i < 256" for i
    using am_pos_add [of "at_sz s" "at_next_ack s" "nack_sn n" i] vs M that by (simp add: at_pos_def)
  have pj: "at_pos s (range_sn (at_mod s) n j) = at_pos s (nack_sn n) + j"
    using p [of j] j l by (simp add: range_sn_def at_mod_sz at_pos_def)
  have "at_pos s (nack_sn n) + (nack_len n - 1) < at_pos s (sp_ack_sn st)"
  proof (cases "has_nack_range n")
    case True
    then have u: "unat (nack_range n) = nack_len n" by (simp add: nack_len_def)
    have "word_of_nat (nack_len n - 1) = (ucast (nack_range n) - 1 :: u32)" using j by (simp add: of_nat_diff flip: u)
    then have "nack_last_sn n = nack_sn n + word_of_nat (nack_len n - 1)" by (simp add: nack_last_sn_def add_diff_eq)
    then show ?thesis using p [of "nack_len n - 1"] vs True l by simp
  next
    case False
    then show ?thesis using vs by (simp add: nack_len_def)
  qed
  then show "at_pos s (range_sn (at_mod s) n j) = at_pos s (nack_sn n) + j \<and> at_pos s (nack_sn n) + j < at_pos s (sp_ack_sn st)"
    using pj j by linarith
qed

text \<open>
  Two kinds of accepted reports the code is not prepared for: a NACK for TX_Next although nothing of its SDU has been sent, and
  the acknowledgement of TX_Next while its SDU is still being segmented.
\<close>

definition at_nacks_unsent :: "rlc_tx_am \<Rightarrow> rlc_am_status_pdu \<Rightarrow> bool" where
  "at_nacks_unsent s st \<longleftrightarrow> at_sn_under_segmentation s \<noteq> at_next s \<and>
    (\<exists>n \<in> set (sp_nacks st). \<exists>j \<in> {..<nack_len n}. range_sn (at_mod s) n j = at_next s)"

definition at_acks_partial :: "rlc_tx_am \<Rightarrow> rlc_am_status_pdu \<Rightarrow> bool" where
  "at_acks_partial s st \<longleftrightarrow> at_sn_under_segmentation s = at_next s \<and> sp_nacks st = [] \<and>
    sp_ack_sn st = (at_next s + 1) mod at_mod s"

lemma accepted_safe:
  assumes "at_inv s" "status_wf (at_sz s) st" "at_accept_status st s = (True, s)" "\<not> at_nacks_unsent s st"
    and "n \<in> set (sp_nacks st)"
  shows "nacks_safe s (sp_ack_sn st) n"
proof -
  note a = accept_spec [OF at_invD(1) [OF assms(1)] assms(3)]
  have ok: "am_sn_ok (at_sz s) (nack_sn n)" using assms(2,5) by (simp add: status_wf_def)
  moreover have "nack_safe s (range_sn (at_mod s) n j) \<and> range_sn (at_mod s) n j \<noteq> sp_ack_sn st" if "j < nack_len n" for j
    using a(7) [OF TrueI assms(5) that] assms(4,5) that
    by (auto simp: nack_safe_def at_nacks_unsent_def range_sn_def at_mod_sz)
  ultimately show ?thesis by (simp add: nacks_safe_def)
qed

text \<open>The acknowledgement of a sequence number beyond TX_Next releases no more than one of TX_Next.\<close>

lemma ack_loop_beyond:
  assumes "at_base s" "at_sn_under_segmentation s \<noteq> at_next s" "am_sn_ok (at_sz s) stop" "at_pos s stop = Suc (at_n s)"
  shows "at_ack_loop fuel (at_next_ack s) stop mx s = at_ack_loop fuel (at_next_ack s) (at_next s) mx s"
  using assms
proof (induction fuel arbitrary: s mx)
  case (Suc fuel)
  have v: "at_vars s" and w: "at_win s" using Suc.prems(1) by (simp_all add: at_base_def)
  have ok: "am_sn_ok (at_sz s) (at_next_ack s)" "am_sn_ok (at_sz s) (at_next s)" using v by (simp_all add: at_vars_def)
  have z: "at_pos s (at_next_ack s) = 0" by (simp add: at_pos_def)
  have lt: "tx_mod_base s (at_next_ack s) < tx_mod_base s stop" using Suc.prems(4) z by (simp add: tx_mod_base_compare)
  show ?case
  proof (cases "at_n s = 0")
    case True
    then have "at_next_ack s = at_next s" using am_pos_zero [OF ok(2,1)] by (simp add: at_n_def at_pos_def)
    then have "\<not> at_live s (at_next_ack s)" using True Suc.prems(2) by (simp add: at_live_def)
    then have "cm_at (at_window s) (at_next_ack s) = None" using w unfolding at_win_def by blast
    moreover have "\<not> tx_mod_base s (at_next_ack s) < tx_mod_base s (at_next s)" using True z by (simp add: tx_mod_base_compare at_n_def)
    ultimately show ?thesis using lt by simp
  next
    case False
    then have n0: "0 < at_n s" by simp
    have "at_live s (at_next_ack s)" using ok z n0 by (simp add: at_live_def)
    then have i: "cm_at (at_window s) (at_next_ack s) = Some (at_info s (at_next_ack s))" by (rule at_info_at [OF w])
    note r = release_spec [OF Suc.prems(1) n0 i]
    let ?t = "at_release (at_next_ack s) (at_info s (at_next_ack s)) s"
    have sz: "at_sz ?t = at_sz s" using r(5) by (simp add: at_sz_def)
    have "stop \<noteq> at_next_ack s" using Suc.prems(4) z by auto
    then have p: "at_pos ?t stop = Suc (at_n ?t)" using r(10) [OF Suc.prems(3)] Suc.prems(4) r(2) by simp
    have lt2: "tx_mod_base s (at_next_ack s) < tx_mod_base s (at_next s)" using n0 z by (simp add: tx_mod_base_compare at_n_def)
    have "at_ack_loop fuel (at_next_ack ?t) stop mx' ?t = at_ack_loop fuel (at_next_ack ?t) (at_next ?t) mx' ?t" for mx'
      by (rule Suc.IH) (use r(1,4,6) Suc.prems(2,3) sz p in simp_all)
    then show ?thesis using lt lt2 i by (simp add: r(3,4))
  qed
qed simp
text \<open>Where the code stops releasing: the first NACK, or ACK_SN (TX_Next, when ACK_SN is one beyond it).\<close>

definition at_stop_sn :: "rlc_am_status_pdu \<Rightarrow> u32" where
  "at_stop_sn st = (case sp_nacks st of [] \<Rightarrow> sp_ack_sn st | n # _ \<Rightarrow> nack_sn n)"

definition at_released :: "rlc_tx_am \<Rightarrow> rlc_am_status_pdu \<Rightarrow> nat" where
  "at_released s st = min (at_pos s (at_stop_sn st)) (at_n s)"

definition delivery_notes :: "u32 option \<times> u32 option \<Rightarrow> am_tx_output list" where
  "delivery_notes mx = (case fst mx of None \<Rightarrow> [] | Some sn \<Rightarrow> [At_on_delivered_sdu sn]) @
    (case snd mx of None \<Rightarrow> [] | Some sn \<Rightarrow> [At_on_delivered_retransmitted_sdu sn])"

lemma process_acks_spec:
  assumes "at_inv s" "status_wf (at_sz s) st" "at_accept_status st s = (True, s)" "\<not> at_acks_partial s st"
  defines "r \<equiv> at_released s st" and "u \<equiv> at_process_acks st s"
  shows "at_base u" "at_next u = at_next s" "at_cfg u = at_cfg s" "at_sn_under_segmentation u = at_sn_under_segmentation s"
    "at_retx_queue u = at_retx_queue s" "at_next_ack u = am_at (at_sz s) (at_next_ack s) r" "at_n s = r + at_n u"
    "\<forall>k. am_sn_ok (at_sz s) k \<longrightarrow> cm_at (at_window u) k = (if at_pos s k < r then None else cm_at (at_window s) k)"
    "\<forall>k. am_sn_ok (at_sz s) k \<longrightarrow> r \<le> at_pos s k \<longrightarrow> at_pos s k = r + at_pos u k"
    "at_out u = at_out s @ delivery_notes (fold mx_step (map (at_info s) (at_first s r)) (None, None))"
proof -
  note a = accept_spec [OF at_invD(1) [OF assms(1)] assms(3)]
  have v: "at_vars s" using assms(1) by (simp add: at_inv_def)
  have okn: "am_sn_ok (at_sz s) (at_next s)" using v by (simp add: at_vars_def)
  define s1 where "s1 = (if tx_mod_base s (at_poll_sn s) < tx_mod_base s (sp_ack_sn st) then s\<lparr>at_poll_retransmit_timer := False\<rparr> else s)"
  have sv: "at_view s1 = at_view s" by (simp add: s1_def at_view_def)
  note sf = at_view_fields [OF sv] and se = at_view_eq [OF sv]
  have so: "at_out s1 = at_out s" "at_queue s1 = at_queue s" by (simp_all add: s1_def)
  have base: "at_base s1" using se(1) assms(1) by (simp add: at_inv_base)
  have oks: "am_sn_ok (at_sz s) (at_stop_sn st)" using assms(2) by (auto simp: status_wf_def at_stop_sn_def split: list.split)
  have le: "at_pos s (at_stop_sn st) \<le> Suc (at_n s)" "at_pos s (at_stop_sn st) = Suc (at_n s) \<Longrightarrow> sp_nacks st = []"
    using a(5) a(6) [OF TrueI] by (fastforce simp: at_stop_sn_def split: list.splits)+
  have fuel: "am_M (at_sz s) \<le> unat (at_mod s)" by (simp add: at_mod_sz am_M_def)
  obtain mx u' where l: "at_ack_loop (unat (at_mod s1)) (at_next_ack s1) (at_stop_sn st) (None, None) s1 = (mx, u')" by (metis surj_pair)
  have u: "u = at_notify_delivery mx u'" using l unfolding u_def at_process_acks_def Let_def s1_def [symmetric] at_stop_sn_def by simp
  define stop where "stop = (if at_pos s (at_stop_sn st) = Suc (at_n s) then at_next s else at_stop_sn st)"
  have "at_ack_loop (unat (at_mod s1)) (at_next_ack s1) stop (None, None) s1 = (mx, u')"
  proof (cases "at_pos s (at_stop_sn st) = Suc (at_n s)")
    case True
    then have "sp_ack_sn st = at_stop_sn st" using le(2) by (simp add: at_stop_sn_def)
    have nW: "at_n s \<le> am_W (at_sz s)" using v by (auto simp: at_vars_def split: if_splits)
    have "Suc (at_n s) < am_M (at_sz s)" using at_pos_less_M(1) [of s "at_stop_sn st"] True by simp
    then have "at_pos s ((at_next s + 1) mod at_mod s) = Suc (at_n s)"
      using am_pos_Suc [of "at_sz s" "at_next_ack s" "at_next s"] by (simp add: at_pos_def at_n_def at_mod_sz)
    then have "at_stop_sn st = (at_next s + 1) mod at_mod s"
      using True at_pos_eqD [of s "at_stop_sn st" "(at_next s + 1) mod at_mod s"] oks by (simp add: at_mod_sz)
    then have "at_sn_under_segmentation s \<noteq> at_next s"
      using assms(4) le(2) [OF True] \<open>sp_ack_sn st = at_stop_sn st\<close> by (auto simp: at_acks_partial_def)
    then show ?thesis using ack_loop_beyond [OF base, of "at_stop_sn st"] l True oks sf se stop_def by simp
  next
    case False
    then show ?thesis using l by (simp add: stop_def)
  qed
  moreover have ps: "at_pos s stop = r" "am_sn_ok (at_sz s) stop"
    using le(1) oks okn by (auto simp: stop_def r_def at_released_def at_n_def)
  moreover have rn: "r \<le> at_n s" by (simp add: r_def at_released_def)
  moreover have "r < unat (at_mod s)" using rn fuel at_pos_less_M(2) [of s] by linarith
  ultimately obtain L: "mx = fold mx_step (map (at_info s1) (at_first s1 r)) (None, None)" "at_base u'" "at_next_ack u' = stop"
    "at_next u' = at_next s1" "at_cfg u' = at_cfg s1" "at_out u' = at_out s1" "at_sn_under_segmentation u' = at_sn_under_segmentation s1"
    "at_retx_queue u' = at_retx_queue s1"
    "\<forall>k. am_sn_ok (at_sz s1) k \<longrightarrow> cm_at (at_window u') k = (if at_pos s1 k < r then None else cm_at (at_window s1) k)"
    "at_n s1 = r + at_n u'"
    "\<forall>k. am_sn_ok (at_sz s1) k \<longrightarrow> r \<le> at_pos s1 k \<longrightarrow> at_pos s1 k = r + at_pos u' k"
    using ack_loop_spec [OF base, of stop "unat (at_mod s1)" "(None, None)"] se by auto
  have uv: "at_view u = at_view u'" unfolding u by simp
  note uf = at_view_fields [OF uv] and ue = at_view_eq [OF uv]
  have q: "at_queue u = at_queue u'" by (simp add: u at_notify_delivery_def at_emit_def Let_def split: option.split)
  show "at_base u"
    using L(2) uf ue by (simp add: at_base_def at_vars_def at_win_def at_inputs_def at_info_ok_def)
  show "at_next u = at_next s" "at_cfg u = at_cfg s" "at_sn_under_segmentation u = at_sn_under_segmentation s"
    "at_retx_queue u = at_retx_queue s" "at_n s = r + at_n u" using uf ue L sf se by simp_all
  show "at_next_ack u = am_at (at_sz s) (at_next_ack s) r"
    using uf L(3) am_at_pos [OF ps(2), of "at_next_ack s"] ps(1) by (simp add: at_pos_def)
  show "\<forall>k. am_sn_ok (at_sz s) k \<longrightarrow> cm_at (at_window u) k = (if at_pos s k < r then None else cm_at (at_window s) k)"
    "\<forall>k. am_sn_ok (at_sz s) k \<longrightarrow> r \<le> at_pos s k \<longrightarrow> at_pos s k = r + at_pos u k"
    using L(9,11) uf ue sf se by simp_all
  have "at_info s1 = at_info s" "at_first s1 = at_first s" using sf se by (simp_all add: at_info_def at_first_def fun_eq_iff)
  then show "at_out u = at_out s @ delivery_notes (fold mx_step (map (at_info s) (at_first s r)) (None, None))"
    using L(1,6) so by (simp add: u at_notify_delivery_def delivery_notes_def at_emit_def Let_def split: option.split)
qed
text \<open>Deliveries are announced by the processing of acknowledgements only.\<close>

definition at_quiet :: "rlc_tx_am \<Rightarrow> rlc_tx_am \<Rightarrow> bool" where
  "at_quiet s t \<longleftrightarrow> (\<exists>es. at_out t = at_out s @ es \<and> set es \<inter> (range At_on_delivered_sdu \<union> range At_on_delivered_retransmitted_sdu) = {})"

lemma at_quiet_refl [simp]: "at_quiet s s" "at_out t = at_out s \<Longrightarrow> at_quiet s t"
  by (simp_all add: at_quiet_def)

lemma at_quiet_trans: "at_quiet s t \<Longrightarrow> at_quiet t u \<Longrightarrow> at_quiet s u"
  unfolding at_quiet_def by (elim exE conjE) (rule_tac x = "es @ esa" in exI, auto)

lemma at_quiet_emit:
  "e \<notin> range At_on_delivered_sdu \<union> range At_on_delivered_retransmitted_sdu \<Longrightarrow> at_quiet s (at_emit e s)"
  unfolding at_quiet_def by (rule exI [of _ "[e]"]) (auto simp: at_emit_def)

lemma sane_offsets_quiet: "nack_sane_offsets len r s = (xy, t) \<Longrightarrow> at_quiet s t"
  unfolding at_quiet_def nack_sane_offsets_def at_emit_def Let_def
  by (auto split: prod.splits if_splits)

lemma handle_nack_quiet: "at_handle_nack n s = Some (b, t) \<Longrightarrow> at_quiet s t"
  by (auto simp: at_handle_nack_def Let_def split: if_splits option.splits prod.splits
      dest!: sane_offsets_quiet simp: at_quiet_def)

lemma increment_quiet: "at_increment_retx_count sn s = Some t \<Longrightarrow> at_quiet s t"
  by (auto simp: at_increment_retx_count_def at_check_sn_reached_max_retx_def at_quiet_def at_emit_def at_assign_def split: option.splits)

lemma apply_nack_quiet: "at_apply_nack n (prev, s) = Some (prev', t) \<Longrightarrow> at_quiet s t"
  by (auto simp: at_apply_nack_def split: option.splits prod.splits if_splits
      dest!: handle_nack_quiet increment_quiet intro: at_quiet_trans)

lemma nack_range_quiet: "at_nack_range fuel ack n sn (prev, s) = Some (prev', t) \<Longrightarrow> at_quiet s t"
proof (induction fuel arbitrary: sn prev s)
  case (Suc fuel)
  show ?case
  proof (cases "at_apply_nack (nack_of_range (at_mod s) n sn) (prev, s)")
    case None
    then show ?thesis using Suc.prems by (auto simp: Let_def split: if_splits)
  next
    case (Some p)
    obtain prev1 u where p: "p = (prev1, u)" by (cases p)
    have "at_quiet s u" using apply_nack_quiet Some p by blast
    then show ?thesis using Suc.prems Some p Suc.IH [of _ prev1 u]
      by (auto simp: Let_def split: if_splits intro: at_quiet_trans)
  qed
qed simp

lemma apply_nacks_quiet: "at_apply_nacks ack ns (prev, s) = Some (prev', t) \<Longrightarrow> at_quiet s t"
proof (induction ns arbitrary: prev s)
  case (Cons n ns)
  obtain p u where p: "(if has_nack_range n then at_nack_range 256 ack n (nack_sn n) (prev, s) else at_apply_nack n (prev, s)) = Some (p, u)"
    "at_apply_nacks ack ns (p, u) = Some (prev', t)"
    using Cons.prems by (auto split: option.splits)
  have "at_quiet s u" using p(1) nack_range_quiet apply_nack_quiet by (metis (full_types))
  then show ?case using Cons.IH [OF p(2)] at_quiet_trans by blast
qed simp

section \<open>The whole report\<close>

lemma handle_status_spec:
  assumes "at_inv s" "status_wf (at_sz s) st" "at_accept_status st s = (True, s)" "\<not> at_acks_partial s st" "\<not> at_nacks_unsent s st"
  defines "r \<equiv> at_released s st"
  shows "\<exists>t. at_handle_status_pdu ok st rx s = Some t \<and> at_inv t \<and> at_cfg t = at_cfg s \<and> at_next t = at_next s \<and>
    at_sn_under_segmentation t = at_sn_under_segmentation s \<and> at_next_ack t = am_at (at_sz s) (at_next_ack s) r \<and> at_n s = r + at_n t \<and>
    (\<forall>k. am_sn_ok (at_sz s) k \<longrightarrow> map_option at_plain (cm_at (at_window t) k) =
      (if at_pos s k < r then None else map_option at_plain (cm_at (at_window s) k))) \<and>
    (\<exists>es. at_out t = at_out s @ delivery_notes (fold mx_step (map (at_info s) (at_first s r)) (None, None)) @ es \<and>
      set es \<inter> (range At_on_delivered_sdu \<union> range At_on_delivered_retransmitted_sdu) = {}) \<and>
    ((\<forall>n \<in> set (sp_nacks st). nacks_fit t n) \<longrightarrow>
      retx_spans (rq_abs (at_retx_queue t)) \<subseteq> \<Union> (nack_missing (at_mod s) ` set (sp_nacks st)) \<and>
      (length (rq_items (at_retx_queue t)) < am_W (at_sz s) \<longrightarrow>
        \<Union> (nack_missing (at_mod s) ` set (sp_nacks st)) \<inter> at_sent_set t \<subseteq> retx_spans (rq_abs (at_retx_queue t))))"
proof -
  let ?u = "at_process_acks st s"
  note p = process_acks_spec [OF assms(1-4), folded r_def]
  obtain c where c: "at_clear_retx ?u = Some c" "at_base c" "at_same ?u c" "rq_abs (at_retx_queue c) = []" "at_out c = at_out ?u"
    using clear_retx_spec [OF p(1)] by blast
  let ?c = "c\<lparr>at_retx_sn := INVALID_RLC_SN\<rparr>"
  have cv: "at_view ?c = at_view c" by (simp add: at_view_def)
  have cinv: "at_inv ?c" using at_view_eq(1) [OF cv] c(2,4) by (simp add: at_inv_base)
  have cwf: "cm_wf (at_window c)" using c(2) by (simp add: at_base_def at_win_def)
  have cs: "at_same ?u ?c" using at_same_trans [OF c(3) at_same_view [OF cwf cv]] by simp
  note sc = at_same_facts [OF cs]
  have sz: "at_sz ?u = at_sz s" "at_mod ?u = at_mod s" using p(3) by (simp_all add: at_sz_def at_mod_def)
  have safe: "\<forall>n \<in> set (sp_nacks st). nacks_safe ?c (sp_ack_sn st) n"
    using accepted_safe [OF assms(1-3,5)] sc(1,9) sz p(2,4) cs
    by (simp add: nacks_safe_def nack_safe_def at_same_def)
  obtain prev a where a: "at_apply_nacks (sp_ack_sn st) (sp_nacks st) (INVALID_RLC_SN, ?c) = Some (prev, a)"
    "at_queues ?c (\<Union> (nack_missing (at_mod ?c) ` set (sp_nacks st))) (\<forall>n \<in> set (sp_nacks st). nacks_fit ?c n) a"
    using apply_nacks_spec [OF cinv safe] by blast
  define t where "t = (let s = at_update_mac_buffer_state True rx a; s = s\<lparr>at_recycler := recycler_swap (at_recycler s)\<rparr>
    in if ok then s\<lparr>at_clear_tasks := at_clear_tasks s + 1\<rparr> else s)"
  have h: "at_handle_status_pdu ok st rx s = Some t"
    using assms(3) c(1) a(1) by (simp add: at_handle_status_pdu_def t_def Let_def)
  have tv: "at_view t = at_view a"
  proof -
    have "at_view t = at_view (at_update_mac_buffer_state True rx a)" by (simp add: t_def Let_def at_view_def)
    then show ?thesis by simp
  qed
  have tq: "at_queue t = at_queue a" by (simp add: t_def Let_def at_update_mac_buffer_state_def at_emit_def)
  note tf = at_view_fields [OF tv] and te = at_view_eq [OF tv]
  have q: "at_inv a" "at_same ?c a" using a(2) by (simp_all add: at_queues_def)
  note sa = at_same_facts [OF q(2)]
  have awf: "cm_wf (at_window a)" using q(1) by (simp add: at_inv_def at_win_def)
  have st: "at_same ?c t" using at_same_trans [OF q(2) at_same_view [OF awf tv tq]] .
  have su: "at_same ?u t" using at_same_trans [OF cs st] .
  have e: "at_sz t = at_sz s" "at_n s = r + at_n t" using at_same_facts(1,3) [OF su] sz p(7) by simp_all
  have fields: "at_cfg t = at_cfg s" "at_next t = at_next s" "at_sn_under_segmentation t = at_sn_under_segmentation s"
    "at_next_ack t = am_at (at_sz s) (at_next_ack s) r" using su p(2-4,6) by (simp_all add: at_same_def)
  have win: "\<forall>k. am_sn_ok (at_sz s) k \<longrightarrow> map_option at_plain (cm_at (at_window t) k) =
      (if at_pos s k < r then None else map_option at_plain (cm_at (at_window s) k))"
    using su p(8) by (simp add: at_same_def)
  have out: "\<exists>es. at_out t = at_out s @ delivery_notes (fold mx_step (map (at_info s) (at_first s r)) (None, None)) @ es \<and>
      set es \<inter> (range At_on_delivered_sdu \<union> range At_on_delivered_retransmitted_sdu) = {}"
  proof -
    have "at_quiet a (at_update_mac_buffer_state True rx a)"
      unfolding at_quiet_def by (rule exI [of _ "[At_on_buffer_state_update (at_get_buffer_state rx (a\<lparr>at_pending_buffer_state := False\<rparr>))]"])
        (simp add: at_update_mac_buffer_state_def at_emit_def Let_def image_iff)
    moreover have "at_out t = at_out (at_update_mac_buffer_state True rx a)" by (simp add: t_def Let_def)
    ultimately have "at_quiet a t" by (simp add: at_quiet_def)
    then have "at_quiet ?c t" using apply_nacks_quiet [OF a(1)] at_quiet_trans by blast
    then show ?thesis using c(5) p(10) by (auto simp: at_quiet_def)
  qed
  have mem: "nacks_fit t = nacks_fit ?c" "at_sent_set t = at_sent_set ?c"
    using at_same_nacks [OF st] at_same_sent [OF st] cinv by (simp_all add: at_inv_def)
  have inv: "at_inv t" using te(1) q(1) by simp
  have rx: "(\<forall>n \<in> set (sp_nacks st). nacks_fit t n) \<longrightarrow>
      retx_spans (rq_abs (at_retx_queue t)) \<subseteq> \<Union> (nack_missing (at_mod s) ` set (sp_nacks st)) \<and>
      (length (rq_items (at_retx_queue t)) < am_W (at_sz s) \<longrightarrow>
        \<Union> (nack_missing (at_mod s) ` set (sp_nacks st)) \<inter> at_sent_set t \<subseteq> retx_spans (rq_abs (at_retx_queue t)))"
    using a(2) c(4) tf(5) mem sc(1,9) sz by (auto simp: at_queues_def)
  show ?thesis using h inv fields e(2) win out rx by (intro exI [of _ t] conjI)
qed
section \<open>The assertion that a report can reach\<close>

lemma apply_nack_abort:
  assumes "at_inv s" "\<not> has_nack_range n" "nack_sn n = at_next s" "at_sn_under_segmentation s \<noteq> at_next s"
  shows "at_apply_nack n (prev, s) = None"
proof -
  have "\<not> at_live s (at_next s)" using assms(4) by (simp add: at_live_def at_n_def)
  then have "cm_at (at_window s) (at_next s) = None" using at_invD(2) [OF assms(1)] unfolding at_win_def by blast
  moreover have "tx_mod_base s (at_next_ack s) \<le> tx_mod_base s (at_next s)" unfolding tx_mod_base_compare by (simp add: at_pos_def)
  ultimately show ?thesis using assms(2,3) by (simp add: at_apply_nack_def at_handle_nack_def)
qed

lemma unsafe_is_next: "am_sn_ok (at_sz s) k \<Longrightarrow> \<not> nack_safe s k \<Longrightarrow> k = at_next s \<and> at_sn_under_segmentation s \<noteq> at_next s"
  by (auto simp: nack_safe_def)

lemma nack_range_abort:
  assumes "at_inv s" "has_nack_range n" "am_sn_ok (at_sz s) (nack_sn n)" "i \<le> j" "j < nack_len n" "nack_len n - i < fuel"
    and "\<not> nack_safe s (range_sn (at_mod s) n j)" "\<forall>j < nack_len n. range_sn (at_mod s) n j \<noteq> ack"
  shows "at_nack_range fuel ack n (range_sn (at_mod s) n i) (prev, s) = None"
  using assms
proof (induction fuel arbitrary: s i prev)
  case (Suc fuel)
  let ?m = "at_mod s"
  have i: "i < nack_len n" using Suc.prems(4,5) by simp
  have "nack_len n = unat (nack_range n)" using assms(2) by (simp add: nack_len_def)
  then have end_sn: "range_sn ?m n (nack_len n) = (nack_sn n + ucast (nack_range n)) mod ?m" by (simp add: range_sn_def)
  have "range_sn ?m n i \<noteq> range_sn ?m n (nack_len n)"
    using range_sn_inj [of "at_sz s" n i "nack_len n"] i nack_len_256 [of n] unfolding at_mod_sz by auto
  then have ne: "range_sn ?m n i \<noteq> (nack_sn n + ucast (nack_range n)) mod ?m" unfolding end_sn .
  let ?e = "nack_elem ?m n i"
  have e: "nack_sn ?e = range_sn ?m n i" "\<not> has_nack_range ?e"
    using nack_elem_sn [OF Suc.prems(3) i] nack_elem_plain by (simp_all add: at_mod_sz)
  have ok: "am_sn_ok (at_sz s) (range_sn ?m n k)" for k by (simp add: range_sn_def at_mod_sz)
  have step: "at_nack_range (Suc fuel) ack n (range_sn ?m n i) (prev, s) =
      (case at_apply_nack ?e (prev, s) of None \<Rightarrow> None | Some ps \<Rightarrow> at_nack_range fuel ack n ((range_sn ?m n i + 1) mod ?m) ps)"
    using ne Suc.prems(8) i assms(2) by (simp add: nack_elem_def Let_def)
  show ?case
  proof (cases "nack_safe s (range_sn ?m n i)")
    case False
    then have "nack_sn ?e = at_next s" "at_sn_under_segmentation s \<noteq> at_next s" using unsafe_is_next [OF ok [of i] False] e(1) by simp_all
    then show ?thesis using apply_nack_abort [OF Suc.prems(1) e(2)] step by simp
  next
    case True
    then have "i \<noteq> j" using Suc.prems(7) by auto
    then have ij: "Suc i \<le> j" using Suc.prems(4) by simp
    have "nack_safe s (nack_sn ?e)" using True e(1) by simp
    then obtain p t where t: "at_apply_nack ?e (prev, s) = Some (p, t)" "at_inv t" "at_same s t"
      using apply_nack_spec [OF Suc.prems(1) e(2), of prev] by (auto simp: at_queues_def)
    note sf = at_same_facts [OF t(3)]
    have nxt: "(range_sn ?m n i + 1) mod ?m = range_sn ?m n (Suc i)" unfolding range_sn_def at_mod_sz mod_am_modulus_add by (simp add: add_ac)
    have fu: "nack_len n - Suc i < fuel" using Suc.prems(6) i by linarith
    have "at_nack_range fuel ack n (range_sn (at_mod t) n (Suc i)) (p, t) = None"
      by (rule Suc.IH) (use t(2) assms(2) Suc.prems(3,5,7,8) ij fu sf(1,9) nack_safe_same [OF t(3)] in simp_all)
    then show ?thesis using step t(1) nxt sf(9) by simp
  qed
qed simp

lemma apply_nacks_abort:
  assumes "at_inv s" "\<forall>n \<in> set ns. am_sn_ok (at_sz s) (nack_sn n) \<and> (\<forall>j < nack_len n. range_sn (at_mod s) n j \<noteq> ack)"
    and "\<exists>n \<in> set ns. \<exists>j < nack_len n. \<not> nack_safe s (range_sn (at_mod s) n j)"
  shows "at_apply_nacks ack ns (prev, s) = None"
  using assms
proof (induction ns arbitrary: s prev)
  case (Cons n ns)
  let ?m = "at_mod s"
  have n: "am_sn_ok (at_sz s) (nack_sn n)" "\<forall>j < nack_len n. range_sn ?m n j \<noteq> ack" using Cons.prems(2) by simp_all
  have first: "range_sn ?m n 0 = nack_sn n" using n(1) by (simp add: range_sn_def at_mod_sz am_sn_mod_id)
  show ?case
  proof (cases "\<exists>j < nack_len n. \<not> nack_safe s (range_sn ?m n j)")
    case True
    then obtain j where j: "j < nack_len n" "\<not> nack_safe s (range_sn ?m n j)" by blast
    show ?thesis
    proof (cases "has_nack_range n")
      case True
      have "at_nack_range 256 ack n (range_sn ?m n 0) (prev, s) = None"
        by (rule nack_range_abort [OF Cons.prems(1) True n(1) _ j(1) _ j(2) n(2)]) (use nack_len_256 [of n] in auto)
      then show ?thesis using True first by simp
    next
      case False
      then have "j = 0" using j(1) by (simp add: nack_len_def)
      then have "nack_sn n = at_next s \<and> at_sn_under_segmentation s \<noteq> at_next s" using unsafe_is_next [OF n(1)] j(2) first by simp
      then show ?thesis using apply_nack_abort [OF Cons.prems(1) False] False by simp
    qed
  next
    case False
    then have "\<forall>k \<in> set [n]. nacks_safe s ack k" using n by (simp add: nacks_safe_def)
    then obtain p t where t: "at_apply_nacks ack [n] (prev, s) = Some (p, t)" "at_inv t" "at_same s t"
      using apply_nacks_spec [OF Cons.prems(1), of "[n]" ack prev] by (auto simp: at_queues_def)
    note sf = at_same_facts [OF t(3)]
    have "at_apply_nacks ack ns (p, t) = None"
      by (rule Cons.IH) (use t(2) Cons.prems(2,3) False sf(1,9) nack_safe_same [OF t(3)] in auto)
    then show ?thesis using t(1) by (auto split: option.splits)
  qed
qed simp

text \<open>An accepted report brings the process down exactly when it NACKs TX_Next and nothing of that SDU has been sent.\<close>

lemma handle_status_abort:
  assumes "at_inv s" "status_wf (at_sz s) st" "at_accept_status st s = (True, s)" "at_nacks_unsent s st"
  shows "at_handle_status_pdu ok st rx s = None"
proof -
  let ?u = "at_process_acks st s"
  have np: "\<not> at_acks_partial s st" using assms(4) by (simp add: at_acks_partial_def at_nacks_unsent_def)
  note p = process_acks_spec [OF assms(1-3) np] and acc = accept_spec(7) [OF at_invD(1) [OF assms(1)] assms(3) TrueI]
  obtain c where c: "at_clear_retx ?u = Some c" "at_base c" "at_same ?u c" "rq_abs (at_retx_queue c) = []"
    using clear_retx_spec [OF p(1)] by blast
  let ?c = "c\<lparr>at_retx_sn := INVALID_RLC_SN\<rparr>"
  have cv: "at_view ?c = at_view c" by (simp add: at_view_def)
  have cinv: "at_inv ?c" using at_view_eq(1) [OF cv] c(2,4) by (simp add: at_inv_base)
  have cwf: "cm_wf (at_window c)" using c(2) by (simp add: at_base_def at_win_def)
  have cs: "at_same ?u ?c" using at_same_trans [OF c(3) at_same_view [OF cwf cv]] by simp
  note sc = at_same_facts [OF cs]
  have sz: "at_sz ?c = at_sz s" "at_mod ?c = at_mod s" using p(3) sc(1,9) by (simp_all add: at_sz_def at_mod_def)
  have f: "at_next ?c = at_next s" "at_sn_under_segmentation ?c = at_sn_under_segmentation s" using cs p(2,4) by (simp_all add: at_same_def)
  have "at_apply_nacks (sp_ack_sn st) (sp_nacks st) (INVALID_RLC_SN, ?c) = None"
  proof (rule apply_nacks_abort [OF cinv])
    show "\<forall>n \<in> set (sp_nacks st). am_sn_ok (at_sz ?c) (nack_sn n) \<and> (\<forall>j < nack_len n. range_sn (at_mod ?c) n j \<noteq> sp_ack_sn st)"
      using assms(2) acc sz by (fastforce simp: status_wf_def)
    show "\<exists>n \<in> set (sp_nacks st). \<exists>j < nack_len n. \<not> nack_safe ?c (range_sn (at_mod ?c) n j)"
      using assms(4) sz f by (auto simp: at_nacks_unsent_def nack_safe_def)
  qed
  then show ?thesis using assms(3) c(1) by (simp add: at_handle_status_pdu_def)
qed

section \<open>Expiry of t-PollRetransmit\<close>

text \<open>Nothing is lost: the SDU at TX_Next_Ack is queued once more, or the next PDU carries a poll.\<close>

lemma expiry_inv:
  assumes "at_inv s"
  shows "\<exists>t. at_on_expired_poll_retransmit_timer rx s = Some t \<and> at_inv t \<and> at_same s t"
proof -
  let ?s = "s\<lparr>at_poll_retransmit_timer := False\<rparr>"
  have sv: "at_view ?s = at_view s" by (simp add: at_view_def)
  note se = at_view_eq [OF sv]
  have wf: "cm_wf (at_window s)" using assms by (simp add: at_inv_def at_win_def)
  have inv: "at_inv ?s" using se(1) assms by simp
  have plain: "at_inv t \<and> at_same s t" if "at_view t = at_view s" "at_queue t = at_queue s" for t
    using at_view_eq(1) [OF that(1)] assms at_same_view [OF wf that] by simp
  show ?thesis
  proof (cases "(at_buffers_empty ?s \<or> is_tx_window_full ?s) \<and> \<not> cm_empty (at_window ?s) \<and> cm_at (at_window s) (at_next_ack s) \<noteq> None")
    case False
    have "\<exists>t. at_on_expired_poll_retransmit_timer rx s = Some t \<and> at_view t = at_view s \<and> at_queue t = at_queue s"
    proof (cases "at_buffers_empty ?s \<or> is_tx_window_full ?s")
      case True
      then have "at_on_expired_poll_retransmit_timer rx s = Some ?s"
        using False by (cases "cm_empty (at_window ?s)") (auto simp: at_on_expired_poll_retransmit_timer_def Let_def split: option.split)
      then show ?thesis using sv by simp
    next
      case False
      then have "at_on_expired_poll_retransmit_timer rx s = Some (?s\<lparr>at_poll_retransmit_timer_expired := True\<rparr>)"
        by (simp add: at_on_expired_poll_retransmit_timer_def)
      then show ?thesis using sv by (simp add: at_view_def)
    qed
    then show ?thesis using plain by blast
  next
    case True
    then obtain i where i: "cm_at (at_window s) (at_next_ack s) = Some i" by auto
    note w = at_invD(2) [OF assms] and rt = at_invD(3) [OF assms, unfolded at_rtx_def]
    have live: "at_live s (at_next_ack s)" using w i unfolding at_win_def by blast
    have inf: "at_info_ok s (at_next_ack s) i" using w i unfolding at_win_def by blast
    then have L: "0 < length (ti_sdu i)" "length (ti_sdu i) < 2 ^ 15" by (simp_all add: at_info_ok_def am_sdu_fits_def)
    have l32: "unat (word_of_nat (length (ti_sdu i)) :: u32) = length (ti_sdu i)" using L by (intro unat_of_nat32) simp
    define r where "r = \<lparr>rx_sn = at_next_ack s, rx_so = 0, rx_length = word_of_nat (length (ti_sdu i))\<rparr>"
    have rok: "retx_ok s r" using live i L l32 by (simp add: retx_ok_def r_def at_sdu_def)
    obtain p q where pq: "rq_try_push r (at_retx_queue s) = (p, q)" by (metis surj_pair)
    have ok: "\<forall>q \<in> set (r # rq_abs (at_retx_queue s)). retx_ok s q" using rok rt by simp
    have "retx_total (r # rq_abs (at_retx_queue s)) < 2 ^ 32"
      using retx_total_small [OF w ok] rt rq_abs_length [of "at_retx_queue s"] by (simp add: rq_inv_def)
    note ps = rq_push_spec [OF _ pq this]
    let ?u = "?s\<lparr>at_retx_queue := q\<rparr>"
    have su: "at_same s ?u" using wf by (simp add: at_same_def)
    note sf = at_same_facts [OF su]
    have "retx_ok ?s = retx_ok s" using se by (simp add: retx_ok_def fun_eq_iff)
    then have uinv: "at_inv ?u" using at_retx_inv [OF inv, of q] ps rt ok se(5) by auto
    have uwf: "cm_wf (at_window ?u)" using wf by simp
    have "\<exists>v. (if p then at_increment_retx_count (at_next_ack s) ?u else Some ?u) = Some v \<and> at_same ?u v \<and> at_retx_queue v = q"
      using increment_spec [OF uwf, of "at_next_ack s"] i wf by (cases p) (auto simp: at_same_def)
    then obtain v where v: "(if p then at_increment_retx_count (at_next_ack s) ?u else Some ?u) = Some v" "at_same ?u v" "at_retx_queue v = q" by blast
    have vinv: "at_inv v" using at_same_inv [OF uinv v(2)] v(3) by simp
    have vwf: "cm_wf (at_window v)" using v(2) by (simp add: at_same_def)
    define t where "t = (at_update_mac_buffer_state True rx v)\<lparr>at_poll_retransmit_timer_expired := True\<rparr>"
    have "at_view t = at_view (at_update_mac_buffer_state True rx v)" by (simp add: t_def at_view_def)
    then have tv: "at_view t = at_view v" by simp
    have tq: "at_queue t = at_queue v" by (simp add: t_def at_update_mac_buffer_state_def at_emit_def Let_def)
    have "at_poll_retx rx i ?s = Some (at_update_mac_buffer_state True rx v)"
      using pq v(1) by (cases p) (simp_all add: at_poll_retx_def r_def [symmetric] Let_def)
    then have "at_on_expired_poll_retransmit_timer rx s = Some t"
      using True i by (auto simp: at_on_expired_poll_retransmit_timer_def t_def Let_def)
    moreover have "at_inv t" using at_view_eq(1) [OF tv] vinv by simp
    moreover have "at_same s t" using at_same_trans [OF su at_same_trans [OF v(2) at_same_view [OF vwf tv tq]]] .
    ultimately show ?thesis by blast
  qed
qed

end
