(* ===== verification/Rlc_Am_Rx_Inv.thy ===== *)
theory Rlc_Am_Rx_Inv
  imports Rlc_Am_Rx Rlc_Am_Window
begin

text \<open>
  The invariant of the receiving AM entity, the end of the loops that move RX_Next and RX_Highest_Status, and what one
  PDU and one expiry of t-Reassembly do to the state.
\<close>

section \<open>Positions\<close>

abbreviation ar_sz :: "rlc_rx_am \<Rightarrow> rlc_am_sn_size" where
  "ar_sz s \<equiv> ra_sn_field_length (ar_cfg s)"

definition ar_pos :: "rlc_rx_am \<Rightarrow> u32 \<Rightarrow> nat" where
  "ar_pos s x = am_pos (ar_sz s) (ar_next s) x"

abbreviation ar_ok :: "rlc_rx_am \<Rightarrow> u32 \<Rightarrow> bool" where
  "ar_ok s \<equiv> am_sn_ok (ar_sz s)"

abbreviation ar_W :: "rlc_rx_am \<Rightarrow> nat" where
  "ar_W s \<equiv> am_W (ar_sz s)"

lemma ar_pos_unat: "unat (ar_mod_base s x) = ar_pos s x"
  by (simp add: ar_mod_base_def ar_pos_def am_pos_def ar_mod_def)

lemma ar_mod_base_compare:
  "ar_mod_base s x < ar_mod_base s y \<longleftrightarrow> ar_pos s x < ar_pos s y"
  "ar_mod_base s x \<le> ar_mod_base s y \<longleftrightarrow> ar_pos s x \<le> ar_pos s y"
  "ar_mod_base s x = ar_mod_base s y \<longleftrightarrow> ar_pos s x = ar_pos s y"
  "inside_rx_window s x \<longleftrightarrow> ar_pos s x < ar_W s"
  "ar_valid_ack_sn s x \<longleftrightarrow> 0 < ar_pos s x \<and> ar_pos s x \<le> ar_W s"
  by (simp_all add: word_less_nat_alt word_le_nat_alt word_unat_eq_iff ar_pos_unat inside_rx_window_def ar_valid_ack_sn_def
      ar_window_size_def am_window_size_of_def am_W_def)

lemma ar_pos_facts [simp]:
  "ar_pos s x < am_M (ar_sz s)" "ar_pos s (ar_next s) = 0" "ar_pos s (x mod ar_mod s) = ar_pos s x"
  "ar_ok s (x mod ar_mod s)" "ar_pos s (ar_next s + 1) = 1"
  by (simp_all add: ar_pos_def ar_mod_def am_pos_next)

lemma ar_pos_Suc: "ar_pos s x < ar_W s \<Longrightarrow> ar_pos s (x + 1) = Suc (ar_pos s x)"
  using am_sizes(2,3) [of "ar_sz s"] by (simp add: ar_pos_def am_pos_Suc)

lemma ar_pos_inj: "ar_pos s x = ar_pos s y \<Longrightarrow> ar_ok s x \<Longrightarrow> ar_ok s y \<Longrightarrow> x = y"
  unfolding ar_pos_def by (rule am_pos_inj)

lemma ar_pos_zero: "ar_pos s x = 0 \<Longrightarrow> ar_ok s x \<Longrightarrow> ar_ok s (ar_next s) \<Longrightarrow> x = ar_next s"
  by (rule ar_pos_inj [of s]) simp_all

text \<open>States with the same configuration and the same RX_Next.\<close>

lemma ar_same_base:
  assumes "ar_cfg t = ar_cfg s" "ar_next t = ar_next s"
  shows "ar_pos t = ar_pos s" "ar_mod t = ar_mod s" "ar_mod_base t = ar_mod_base s" "ar_window_size t = ar_window_size s"
  using assms by (simp_all add: fun_eq_iff ar_pos_def ar_mod_def ar_mod_base_def ar_window_size_def)

section \<open>Invariant\<close>

text \<open>
  The segments of an SDU that is not complete are sorted and free of overlaps, and end below the range of the 16 bits of
  the offset; the flags agree with them.
\<close>

definition am_segs_ok :: "um_segment list \<Rightarrow> bool" where
  "am_segs_ok segs \<longleftrightarrow> segs_ok segs \<and> (\<forall>s \<in> set segs. seg_end s < 2 ^ 16)"

definition ar_info_ok :: "am_sdu_info \<Rightarrow> bool" where
  "ar_info_ok i \<longleftrightarrow> ai_fully_received i \<or> (\<exists>segs. ai_data i = Segment_set segs \<and> segs \<noteq> [] \<and> am_segs_ok segs \<and>
    update_segment_inventory segs = (False, ai_has_gap i))"

text \<open>Everything in the window lies below RX_Next_Highest, and the SDU just below RX_Next_Highest is there.\<close>

definition ar_vars :: "rlc_rx_am \<Rightarrow> bool" where
  "ar_vars s \<longleftrightarrow>
    ar_ok s (ar_next s) \<and> ar_ok s (ar_next_highest s) \<and> ar_ok s (ar_highest_status s) \<and> ar_ok s (ar_next_status_trigger s) \<and>
    ar_pos s (ar_highest_status s) \<le> ar_pos s (ar_next_highest s) \<and> ar_pos s (ar_next_highest s) \<le> ar_W s \<and>
    cm_wf (ar_window s) \<and> cm_size (ar_window s) = ar_W s \<and>
    (\<forall>k i. cm_at (ar_window s) k = Some i \<longrightarrow> ar_ok s k \<and> ar_pos s k < ar_pos s (ar_next_highest s) \<and> ar_info_ok i) \<and>
    (0 < ar_pos s (ar_next_highest s) \<longrightarrow>
      (\<exists>k. cm_at (ar_window s) k \<noteq> None \<and> Suc (ar_pos s k) = ar_pos s (ar_next_highest s)))"

text \<open>RX_Next and RX_Highest_Status wait for data.\<close>

definition ar_waits :: "rlc_rx_am \<Rightarrow> bool" where
  "ar_waits s \<longleftrightarrow> \<not> ar_fully_received s (ar_next s) \<and> \<not> ar_fully_received s (ar_highest_status s)"

text \<open>The SDU just below RX_Next_Status_Trigger is there.\<close>

definition ar_triggered :: "rlc_rx_am \<Rightarrow> bool" where
  "ar_triggered s \<longleftrightarrow> (\<exists>k. cm_at (ar_window s) k \<noteq> None \<and> Suc (ar_pos s k) = ar_pos s (ar_next_status_trigger s)) \<and>
    ar_pos s (ar_next_status_trigger s) \<le> ar_pos s (ar_next_highest s)"

definition ar_inv :: "rlc_rx_am \<Rightarrow> bool" where
  "ar_inv s \<longleftrightarrow> ar_vars s \<and> ar_waits s \<and> (ar_reassembly_timer s \<longrightarrow> ar_triggered s)"

lemmas ar_inv_defs = ar_inv_def ar_vars_def ar_waits_def ar_triggered_def

lemma ar_varsD:
  assumes "ar_vars s"
  shows "ar_ok s (ar_next s)" "ar_ok s (ar_next_highest s)" "ar_ok s (ar_highest_status s)" "ar_ok s (ar_next_status_trigger s)"
    "ar_pos s (ar_highest_status s) \<le> ar_pos s (ar_next_highest s)" "ar_pos s (ar_next_highest s) \<le> ar_W s"
    "cm_wf (ar_window s)" "cm_size (ar_window s) = ar_W s"
    "cm_at (ar_window s) k = Some i \<Longrightarrow> ar_ok s k \<and> ar_pos s k < ar_pos s (ar_next_highest s) \<and> ar_info_ok i"
    "0 < ar_pos s (ar_next_highest s) \<Longrightarrow> \<exists>k. cm_at (ar_window s) k \<noteq> None \<and> Suc (ar_pos s k) = ar_pos s (ar_next_highest s)"
  using assms unfolding ar_vars_def by simp_all

lemma ar_vars_window: "ar_vars s \<Longrightarrow> am_window_ok (ar_sz s) (ar_next s) (ar_W s) (cm_at (ar_window s))"
  unfolding ar_vars_def am_window_ok_def ar_pos_def by fastforce

text \<open>What the invariant reads.\<close>

definition ar_core :: "rlc_rx_am \<Rightarrow> rlc_rx_am \<Rightarrow> bool" where
  "ar_core s t \<longleftrightarrow> ar_cfg t = ar_cfg s \<and> ar_next t = ar_next s \<and> ar_next_highest t = ar_next_highest s \<and>
    ar_highest_status t = ar_highest_status s \<and> ar_next_status_trigger t = ar_next_status_trigger s \<and>
    ar_window t = ar_window s \<and> ar_reassembly_timer t = ar_reassembly_timer s \<and>
    ar_max_nof_sn_per_status_report t = ar_max_nof_sn_per_status_report s"

lemma core_fully: "ar_core s t \<Longrightarrow> ar_fully_received t = ar_fully_received s"
  by (simp add: ar_core_def ar_fully_received_def fun_eq_iff)

lemma core_inv: "ar_core s t \<Longrightarrow> ar_inv t = ar_inv s"
  using ar_same_base(1) [of t s] core_fully [of s t] by (simp add: ar_inv_defs ar_core_def)

lemma core_refl [simp]: "ar_core s s"
  by (simp add: ar_core_def)

lemma core_trans: "ar_core s t \<Longrightarrow> ar_core t u \<Longrightarrow> ar_core s u"
  by (simp add: ar_core_def)

lemma core_ops [simp]:
  "ar_core s (ar_metric f s)" "ar_core s (ar_emit e s)" "ar_core s (s\<lparr>ar_do_status := b\<rparr>)"
  "ar_core s (ar_notify_status_report_changed s)" "ar_core s (ar_store_status_report s)"
  "ar_core s (s\<lparr>ar_status_builder := r\<rparr>)" "ar_core s (snd (ar_get_status_pdu d s))" "ar_core s (s\<lparr>ar_status_shared := r\<rparr>)"
  by (simp_all add: ar_core_def ar_metric_def ar_emit_def ar_notify_status_report_changed_def ar_store_status_report_def
      ar_get_status_pdu_def Let_def)

lemma fully_at: "ar_fully_received s k \<longleftrightarrow> (\<exists>i. cm_at (ar_window s) k = Some i \<and> ai_fully_received i)"
  by (auto simp: ar_fully_received_def split: option.split)

lemma inv_initial:
  assumes "rlc_rx_am_entity m cfg = Some s"
  shows "ar_inv s"
proof -
  have f: "ar_cfg s = cfg" "ar_next s = 0" "ar_next_highest s = 0" "ar_highest_status s = 0" "ar_next_status_trigger s = 0"
    "ar_window s = am_create_rx_window (ra_sn_field_length cfg)" "\<not> ar_reassembly_timer s"
    using assms by (auto simp: rlc_rx_am_entity_def Let_def split: option.splits)
  have "ar_pos s 0 = 0" using ar_pos_facts(2) [of s] by (simp add: f)
  then show ?thesis using am_sizes(3) [of "ra_sn_field_length cfg"]
    by (simp add: ar_inv_defs f am_sn_ok_def ar_fully_received_def am_create_rx_window_def am_window_size_of_def am_W_def)
qed

section \<open>The loops\<close>

lemma skip_spec:
  assumes "ar_ok s x" "ar_pos s x \<le> ar_pos s (ar_next_highest s)" "ar_pos s (ar_next_highest s) \<le> ar_W s"
    and "ar_pos s (ar_next_highest s) - ar_pos s x \<le> n"
  defines "y \<equiv> ar_skip_received n x s"
  shows "ar_ok s y \<and> ar_pos s x \<le> ar_pos s y \<and> ar_pos s y \<le> ar_pos s (ar_next_highest s) \<and>
    (ar_pos s y < ar_pos s (ar_next_highest s) \<longrightarrow> \<not> ar_fully_received s y) \<and>
    (\<forall>k. ar_ok s k \<longrightarrow> ar_pos s x \<le> ar_pos s k \<longrightarrow> ar_pos s k < ar_pos s y \<longrightarrow> ar_fully_received s k)"
  using assms(1,2,4) unfolding y_def
proof (induction n arbitrary: x)
  case 0
  then show ?case by simp
next
  case (Suc n)
  show ?case
  proof (cases "ar_pos s x < ar_pos s (ar_next_highest s) \<and> ar_fully_received s x")
    case False
    then have "ar_skip_received (Suc n) x s = x" by (auto simp: ar_mod_base_compare)
    then show ?thesis using False Suc.prems by auto
  next
    case True
    let ?x = "(x + 1) mod ar_mod s"
    have p: "ar_pos s ?x = Suc (ar_pos s x)" using ar_pos_Suc [of s x] True assms(3) by simp
    have e: "ar_skip_received (Suc n) x s = ar_skip_received n ?x s" using True by (simp add: ar_mod_base_compare)
    have ih: "ar_ok s (ar_skip_received n ?x s) \<and> ar_pos s ?x \<le> ar_pos s (ar_skip_received n ?x s) \<and>
      ar_pos s (ar_skip_received n ?x s) \<le> ar_pos s (ar_next_highest s) \<and>
      (ar_pos s (ar_skip_received n ?x s) < ar_pos s (ar_next_highest s) \<longrightarrow> \<not> ar_fully_received s (ar_skip_received n ?x s)) \<and>
      (\<forall>k. ar_ok s k \<longrightarrow> ar_pos s ?x \<le> ar_pos s k \<longrightarrow> ar_pos s k < ar_pos s (ar_skip_received n ?x s) \<longrightarrow> ar_fully_received s k)"
      using Suc.prems True p by (intro Suc.IH) simp_all
    have "k = x \<or> ar_pos s ?x \<le> ar_pos s k" if "ar_ok s k" "ar_pos s x \<le> ar_pos s k" for k
      using that ar_pos_inj [of s k x] Suc.prems(1) p by (cases "ar_pos s k = ar_pos s x") auto
    then show ?thesis unfolding e using ih p True by auto
  qed
qed

text \<open>The removing loop stops at the same place, and clears what it passes.\<close>

lemma remove_spec:
  assumes "ar_ok s x" "cm_wf (ar_window s)" "ar_pos s x \<le> ar_pos s (ar_next_highest s)" "ar_pos s (ar_next_highest s) \<le> ar_W s"
    and "ar_pos s (ar_next_highest s) - ar_pos s x \<le> n"
  shows "\<exists>w. ar_remove_received n x s = (ar_skip_received n x s, s\<lparr>ar_window := w\<rparr>) \<and> cm_wf w \<and> cm_size w = cm_size (ar_window s) \<and>
    (\<forall>k. cm_at w k = (if ar_ok s k \<and> ar_pos s x \<le> ar_pos s k \<and> ar_pos s k < ar_pos s (ar_skip_received n x s) then None
      else cm_at (ar_window s) k))"
  using assms
proof (induction n arbitrary: x s)
  case 0
  then show ?case by (intro exI [of _ "ar_window s"]) auto
next
  case (Suc n)
  show ?case
  proof (cases "ar_pos s x < ar_pos s (ar_next_highest s) \<and> ar_fully_received s x")
    case False
    then have "ar_skip_received (Suc n) x s = x" "ar_remove_received (Suc n) x s = (x, s)" by (auto simp: ar_mod_base_compare)
    then show ?thesis using Suc.prems(2) by (intro exI [of _ "ar_window s"]) auto
  next
    case True
    let ?x = "(x + 1) mod ar_mod s" and ?t = "s\<lparr>ar_window := remove_sn (ar_window s) x\<rparr>"
    have b: "ar_pos ?t = ar_pos s" "ar_mod ?t = ar_mod s" using ar_same_base [of ?t s] by simp_all
    have p: "ar_pos s ?x = Suc (ar_pos s x)" using ar_pos_Suc [of s x] True Suc.prems(4) by simp
    have e: "ar_skip_received (Suc n) x s = ar_skip_received n ?x s" "ar_remove_received (Suc n) x s = ar_remove_received n ?x ?t"
      using True by (simp_all add: ar_mod_base_compare)
    have at: "cm_at (ar_window ?t) k = (if k = x then None else cm_at (ar_window s) k)" for k
      using Suc.prems(2) by (simp add: window_simps)
    have same: "ar_skip_received n y ?t = ar_skip_received n y s" if "ar_ok s y" "ar_pos s x < ar_pos s y" for n y
      using that
    proof (induction n arbitrary: y)
      case (Suc n)
      have "ar_fully_received ?t y = ar_fully_received s y" using Suc.prems(2) at [of y] by (auto simp: fully_at)
      moreover have "ar_pos s x < ar_pos s ((y + 1) mod ar_mod s)" if "ar_pos s y < ar_pos s (ar_next_highest s)"
        using ar_pos_Suc [of s y] that Suc.prems(2) \<open>ar_pos s (ar_next_highest s) \<le> ar_W s\<close> by simp
      ultimately show ?case using Suc.IH [of "(y + 1) mod ar_mod s"] by (simp add: ar_mod_base_compare b)
    qed simp
    have pre: "ar_ok ?t ?x" "cm_wf (ar_window ?t)" "ar_pos ?t ?x \<le> ar_pos ?t (ar_next_highest ?t)"
      "ar_pos ?t (ar_next_highest ?t) \<le> ar_W ?t" "ar_pos ?t (ar_next_highest ?t) - ar_pos ?t ?x \<le> n"
      using Suc.prems True p unfolding b by (simp_all add: window_simps)
    have sk: "ar_skip_received n ?x ?t = ar_skip_received n ?x s" using p by (intro same) simp_all
    obtain w where w: "ar_remove_received n ?x ?t = (ar_skip_received n ?x s, ?t\<lparr>ar_window := w\<rparr>)" "cm_wf w"
      "cm_size w = cm_size (ar_window ?t)"
      "\<And>k. cm_at w k = (if ar_ok s k \<and> ar_pos s ?x \<le> ar_pos s k \<and> ar_pos s k < ar_pos s (ar_skip_received n ?x s) then None
        else cm_at (ar_window ?t) k)"
      using Suc.IH [OF pre] unfolding b sk by auto
    have "ar_pos s ?x \<le> ar_pos s (ar_skip_received n ?x s)"
      using skip_spec [of s ?x n] Suc.prems True p by simp
    then have "cm_at w k = (if ar_ok s k \<and> ar_pos s x \<le> ar_pos s k \<and> ar_pos s k < ar_pos s (ar_skip_received n ?x s) then None
        else cm_at (ar_window s) k)" for k
      using w(4) [of k] at [of k] p ar_pos_inj [of s k x] Suc.prems(1) by (auto simp: le_Suc_eq not_le split: if_splits)
    then show ?thesis unfolding e using w(1-3) by (intro exI [of _ w]) simp
  qed
qed

section \<open>Storing the data of a PDU\<close>

lemma am_store_segment:
  assumes "am_segs_ok segs" "seg_payload new \<noteq> []" "seg_end new < 2 ^ 16"
  shows "am_segs_ok (snd (store_segment new segs))" "snd (store_segment new segs) \<noteq> []"
    "seg_cover (snd (store_segment new segs)) = seg_range new \<union> seg_cover segs"
proof -
  have ok: "segs_ok segs" "seg_ok new" using assms by (simp_all add: am_segs_ok_def seg_ok_def)
  note r = merge_result [OF ok] and m = store_segment_merge [OF ok]
  show c: "seg_cover (snd (store_segment new segs)) = seg_range new \<union> seg_cover segs" using r m by simp
  have "unat (seg_so new) \<in> seg_range new" using seg_end_pos [OF ok(2)] by (simp add: seg_range_def)
  then show "snd (store_segment new segs) \<noteq> []" using c by auto
  have "seg_end t < 2 ^ 16" if "t \<in> set (seg_merge new segs)" for t
  proof -
    obtain u where u: "u \<in> set (new # segs)" "seg_suffix t u" using r \<open>t \<in> set (seg_merge new segs)\<close> by blast
    then have "seg_end u < 2 ^ 16" using assms(1,3) by (auto simp: am_segs_ok_def)
    then show ?thesis using u(2) by (simp add: seg_suffix_def)
  qed
  then show "am_segs_ok (snd (store_segment new segs))" using r m by (simp add: am_segs_ok_def)
qed

text \<open>The SDU after a PDU of it has been stored, and whether that changed the status.\<close>

definition ar_new_info :: "rlc_am_pdu_header \<Rightarrow> bytes \<Rightarrow> am_sdu_info \<Rightarrow> bool \<times> am_sdu_info" where
  "ar_new_info h payload i =
    (if am_si h = full_sdu then (True, i\<lparr>ai_data := Full_sdu_data payload, ai_fully_received := True, ai_has_gap := False\<rparr>)
     else
       let (stored, segs) = store_segment \<lparr>seg_si = am_si h, seg_so = am_so h, seg_payload = payload\<rparr> (am_segments i);
           (full, gap) = update_segment_inventory segs
       in (stored, i\<lparr>ai_data := Segment_set segs, ai_fully_received := full, ai_has_gap := gap\<rparr>))"

definition ar_info :: "rlc_rx_am \<Rightarrow> u32 \<Rightarrow> am_sdu_info" where
  "ar_info s sn = (case cm_at (ar_window s) sn of None \<Rightarrow> am_sdu_info_new | Some i \<Rightarrow> i)"

definition ar_store :: "rlc_am_pdu_header \<Rightarrow> bytes \<Rightarrow> rlc_rx_am \<Rightarrow> bool \<times> rlc_rx_am" where
  "ar_store h payload s =
    (if am_si h = full_sdu then ar_handle_full_data_sdu h payload s else ar_handle_segment_data_sdu h payload s)"

text \<open>The payload of a segment ends within the range of the offset.\<close>

definition am_in_range :: "rlc_am_pdu_header \<Rightarrow> bytes \<Rightarrow> bool" where
  "am_in_range h payload \<longleftrightarrow> payload \<noteq> [] \<and> (am_si h \<noteq> full_sdu \<longrightarrow> unat (am_so h) + length payload < 2 ^ 16)"

lemma info_segments:
  assumes "ar_vars s" "\<not> ar_fully_received s sn"
  shows "am_segs_ok (am_segments (ar_info s sn))"
proof (cases "cm_at (ar_window s) sn")
  case None
  then show ?thesis by (simp add: ar_info_def am_segments_def am_sdu_info_new_def am_segs_ok_def)
next
  case (Some i)
  then have "ar_info_ok i" "\<not> ai_fully_received i" using ar_varsD(9) [OF assms(1) Some] assms(2) by (auto simp: fully_at)
  then show ?thesis using Some by (auto simp: ar_info_def ar_info_ok_def am_segments_def)
qed

lemma new_info_ok:
  assumes "am_segs_ok (am_segments i)" "am_in_range h payload"
  shows "ar_info_ok (snd (ar_new_info h payload i))"
proof (cases "am_si h = full_sdu")
  case True
  then show ?thesis by (simp add: ar_new_info_def ar_info_ok_def)
next
  case False
  let ?n = "\<lparr>seg_si = am_si h, seg_so = am_so h, seg_payload = payload\<rparr>"
  have "seg_payload ?n \<noteq> []" "seg_end ?n < 2 ^ 16" using assms(2) False by (simp_all add: am_in_range_def seg_end_def)
  note st = am_store_segment [OF assms(1) this]
  obtain c segs where c: "store_segment ?n (am_segments i) = (c, segs)" by (cases "store_segment ?n (am_segments i)")
  obtain full gap where u: "update_segment_inventory segs = (full, gap)" by (cases "update_segment_inventory segs")
  have "snd (ar_new_info h payload i) = i\<lparr>ai_data := Segment_set segs, ai_fully_received := full, ai_has_gap := gap\<rparr>"
    using False c u by (simp add: ar_new_info_def)
  then show ?thesis using st(1,2) c u by (cases full) (simp_all add: ar_info_ok_def)
qed

lemma ar_assign_present:
  assumes "cm_wf w" "cm_at w k \<noteq> None"
  shows "cm_at (cm_assign w k v) = (cm_at w)(k \<mapsto> v)"
  using assms by (auto simp: fun_eq_iff window_simps)

lemma store_spec:
  assumes "ar_vars s" "ar_ok s (am_sn h)" "ar_pos s (am_sn h) < ar_W s"
  shows "\<exists>w. ar_store h payload s = (fst (ar_new_info h payload (ar_info s (am_sn h))), s\<lparr>ar_window := w\<rparr>) \<and> cm_wf w \<and>
    cm_size w = ar_W s \<and> cm_at w = (cm_at (ar_window s))(am_sn h \<mapsto> snd (ar_new_info h payload (ar_info s (am_sn h))))"
proof -
  let ?sn = "am_sn h"
  note v = ar_varsD [OF assms(1)]
  obtain w where w: "ar_lookup_or_add ?sn s = (ar_info s ?sn, s\<lparr>ar_window := w\<rparr>)" "cm_wf w" "cm_size w = ar_W s"
    "cm_at w = (cm_at (ar_window s))(?sn \<mapsto> ar_info s ?sn)"
  proof (cases "cm_at (ar_window s) ?sn")
    case None
    have "cm_at (add_sn (ar_window s) ?sn am_sdu_info_new) = (cm_at (ar_window s))(?sn \<mapsto> am_sdu_info_new)"
      using ar_vars_window [OF assms(1)] v(7,8) assms(2,3) by (intro am_at_add_sn) (simp_all add: ar_pos_def)
    then show ?thesis using None v(7,8) that by (simp add: ar_lookup_or_add_def ar_info_def window_simps)
  next
    case (Some i)
    then show ?thesis using v(7,8) that [of "ar_window s"]
      by (simp add: ar_lookup_or_add_def ar_info_def fun_upd_idem)
  qed
  have a: "ar_assign ?sn i (s\<lparr>ar_window := w\<rparr>) = s\<lparr>ar_window := cm_assign w ?sn i\<rparr>" for i by (simp add: ar_assign_def)
  have e: "ar_store h payload s = (fst (ar_new_info h payload (ar_info s ?sn)),
      s\<lparr>ar_window := cm_assign w ?sn (snd (ar_new_info h payload (ar_info s ?sn)))\<rparr>)"
    by (simp add: ar_store_def ar_handle_full_data_sdu_def ar_handle_segment_data_sdu_def ar_new_info_def w(1) a Let_def
        split: prod.splits)
  show ?thesis unfolding e using w(2-4) 
    by (intro exI [of _ "cm_assign w ?sn (snd (ar_new_info h payload (ar_info s ?sn)))"]) (simp add: window_simps ar_assign_present)
qed

section \<open>The state variables after a PDU\<close>

text \<open>RX_Next_Highest after a PDU of \<open>sn\<close>.\<close>

definition ar_raise_highest :: "u32 \<Rightarrow> rlc_rx_am \<Rightarrow> rlc_rx_am" where
  "ar_raise_highest sn s =
    (if ar_mod_base s sn \<ge> ar_mod_base s (ar_next_highest s) then s\<lparr>ar_next_highest := (sn + 1) mod ar_mod s\<rparr> else s)"

lemma stored_vars:
  assumes "ar_vars s" "ar_ok s sn" "ar_pos s sn < ar_W s" "ar_info_ok i"
    and "cm_wf w" "cm_size w = ar_W s" "cm_at w = (cm_at (ar_window s))(sn \<mapsto> i)"
  defines "t \<equiv> ar_raise_highest sn (s\<lparr>ar_window := w\<rparr>)"
  shows "ar_vars t" "ar_pos t = ar_pos s" "ar_pos s (ar_next_highest t) = max (ar_pos s (ar_next_highest s)) (Suc (ar_pos s sn))"
    "ar_window t = w" "ar_next t = ar_next s" "ar_cfg t = ar_cfg s" "ar_highest_status t = ar_highest_status s"
    "ar_next_status_trigger t = ar_next_status_trigger s" "ar_reassembly_timer t = ar_reassembly_timer s"
proof -
  let ?u = "s\<lparr>ar_window := w\<rparr>"
  note v = ar_varsD [OF assms(1)]
  have b: "ar_pos ?u = ar_pos s" "ar_mod ?u = ar_mod s" "ar_mod_base ?u = ar_mod_base s" using ar_same_base [of ?u s] by simp_all
  have t: "t = (if ar_pos s (ar_next_highest s) \<le> ar_pos s sn then ?u\<lparr>ar_next_highest := (sn + 1) mod ar_mod s\<rparr> else ?u)"
    by (simp add: t_def ar_raise_highest_def b ar_mod_base_compare)
  show f: "ar_window t = w" "ar_next t = ar_next s" "ar_cfg t = ar_cfg s" "ar_highest_status t = ar_highest_status s"
    "ar_next_status_trigger t = ar_next_status_trigger s" "ar_reassembly_timer t = ar_reassembly_timer s" by (simp_all add: t)
  show p: "ar_pos t = ar_pos s" using ar_same_base [of t s] f by simp
  show n: "ar_pos s (ar_next_highest t) = max (ar_pos s (ar_next_highest s)) (Suc (ar_pos s sn))"
    using ar_pos_Suc [OF assms(3)] by (simp add: t)
  have o: "ar_ok s (ar_next_highest t)" using v(2) by (simp add: t)
  have "\<exists>k. cm_at w k \<noteq> None \<and> Suc (ar_pos s k) = ar_pos s (ar_next_highest t)"
  proof (cases "ar_pos s (ar_next_highest s) \<le> ar_pos s sn")
    case True
    then show ?thesis by (intro exI [of _ sn]) (simp add: assms(7) n)
  next
    case False
    then obtain k where "cm_at (ar_window s) k \<noteq> None" "Suc (ar_pos s k) = ar_pos s (ar_next_highest s)" using v(10) by auto
    then show ?thesis using False by (intro exI [of _ k]) (simp add: assms(7) n)
  qed
  moreover have "ar_ok s k \<and> ar_pos s k < ar_pos s (ar_next_highest t) \<and> ar_info_ok j" if "cm_at w k = Some j" for k j
    using that v(9) [of k j] assms(2,4) by (auto simp: assms(7) n less_max_iff_disj split: if_splits)
  moreover have "ar_pos s (ar_highest_status s) \<le> ar_pos s (ar_next_highest t)" "ar_pos s (ar_next_highest t) \<le> ar_W s"
    using v(5,6) assms(3) by (simp_all add: n)
  ultimately show "ar_vars t" unfolding ar_vars_def f p using v(1,3,4) o assms(5,6) by blast
qed

text \<open>\<open>t\<close> has the same data as \<open>s\<close>, as far as the invariant reads it.\<close>

lemma fully_upd:
  assumes "cm_at (ar_window t) = (cm_at (ar_window s))(sn \<mapsto> i)"
  shows "ar_fully_received t k \<longleftrightarrow> (if k = sn then ai_fully_received i else ar_fully_received s k)"
  using assms by (simp add: ar_fully_received_def)

text \<open>RX_Highest_Status moves on when its SDU is complete.\<close>

definition ar_raise_status :: "u32 \<Rightarrow> rlc_rx_am \<Rightarrow> rlc_rx_am" where
  "ar_raise_status sn s =
    (if ar_mod_base s sn = ar_mod_base s (ar_highest_status s)
     then s\<lparr>ar_highest_status := ar_skip_received (unat (ar_mod s)) ((ar_highest_status s + 1) mod ar_mod s) s\<rparr> else s)"

definition ar_raise_next :: "u32 \<Rightarrow> rlc_rx_am \<Rightarrow> rlc_rx_am" where
  "ar_raise_next sn s =
    (if ar_mod_base s sn = ar_mod_base s (ar_next s)
     then let (sn_upd, s) = ar_remove_received (unat (ar_mod s)) (ar_next s mod ar_mod s) s in s\<lparr>ar_next := sn_upd\<rparr> else s)"

lemma complete_steps:
  "ar_complete_sdu ok sn i s = ar_raise_next sn (ar_raise_status sn (ar_assign sn (i\<lparr>ai_data := Full_sdu_data []\<rparr>) (ar_deliver ok i s)))"
  by (simp add: ar_complete_sdu_def ar_raise_next_def ar_raise_status_def Let_def)

lemma am_M_fuel: "am_M (ar_sz s) \<le> unat (ar_mod s)"
  by (simp add: ar_mod_def am_M_def)

lemma beyond_highest: "ar_vars s \<Longrightarrow> ar_pos s (ar_next_highest s) \<le> ar_pos s k \<Longrightarrow> \<not> ar_fully_received s k"
  using ar_varsD(9) [of s k] by (auto simp: fully_at)

lemma raise_status_spec:
  assumes "ar_vars s" "ar_ok s sn" "ar_fully_received s sn"
    and "\<And>k. ar_fully_received s k \<Longrightarrow> k = sn \<or> k \<noteq> ar_highest_status s"
  defines "t \<equiv> ar_raise_status sn s"
  shows "ar_vars t" "\<not> ar_fully_received t (ar_highest_status t)" "\<exists>y. t = s\<lparr>ar_highest_status := y\<rparr>"
    "ar_pos s (ar_highest_status s) \<le> ar_pos s (ar_highest_status t)"
    "sn \<noteq> ar_highest_status s \<Longrightarrow> t = s"
    "\<forall>k. ar_ok s k \<longrightarrow> ar_pos s (ar_highest_status s) \<le> ar_pos s k \<longrightarrow> ar_pos s k < ar_pos s (ar_highest_status t) \<longrightarrow>
      ar_fully_received s k"
proof -
  note v = ar_varsD [OF assms(1)]
  have iff: "ar_mod_base s sn = ar_mod_base s (ar_highest_status s) \<longleftrightarrow> sn = ar_highest_status s"
    using ar_pos_inj [of s sn "ar_highest_status s"] assms(2) v(3) by (auto simp: ar_mod_base_compare)
  have *: "ar_vars t \<and> \<not> ar_fully_received t (ar_highest_status t) \<and> (\<exists>y. t = s\<lparr>ar_highest_status := y\<rparr>) \<and>
    ar_pos s (ar_highest_status s) \<le> ar_pos s (ar_highest_status t) \<and> (sn \<noteq> ar_highest_status s \<longrightarrow> t = s) \<and>
    (\<forall>k. ar_ok s k \<longrightarrow> ar_pos s (ar_highest_status s) \<le> ar_pos s k \<longrightarrow> ar_pos s k < ar_pos s (ar_highest_status t) \<longrightarrow>
      ar_fully_received s k)"
  proof (cases "sn = ar_highest_status s")
    case False
    then have t: "t = s" by (simp add: t_def ar_raise_status_def iff)
    then show ?thesis using assms(1,4) False by (auto intro: exI [of _ "ar_highest_status s"])
  next
    case True
    let ?x = "(sn + 1) mod ar_mod s"
    let ?y = "ar_skip_received (unat (ar_mod s)) ?x s"
    have t: "t = s\<lparr>ar_highest_status := ?y\<rparr>" using True by (simp add: t_def ar_raise_status_def)
    have sn: "ar_pos s sn < ar_pos s (ar_next_highest s)" using assms(1,3) beyond_highest [of s sn] not_less by blast
    then have p: "ar_pos s ?x = Suc (ar_pos s sn)" using ar_pos_Suc [of s sn] v(6) by simp
    have "ar_pos s (ar_next_highest s) - ar_pos s ?x \<le> unat (ar_mod s)" using am_M_fuel [of s] ar_pos_facts(1) [of s "ar_next_highest s"] by linarith
    note sk = skip_spec [of s ?x "unat (ar_mod s)", OF _ _ v(6) this]
    have y: "ar_ok s ?y" "Suc (ar_pos s sn) \<le> ar_pos s ?y" "ar_pos s ?y \<le> ar_pos s (ar_next_highest s)"
      "ar_pos s ?y < ar_pos s (ar_next_highest s) \<Longrightarrow> \<not> ar_fully_received s ?y"
      "\<And>k. ar_ok s k \<Longrightarrow> Suc (ar_pos s sn) \<le> ar_pos s k \<Longrightarrow> ar_pos s k < ar_pos s ?y \<Longrightarrow> ar_fully_received s k"
      using sk sn p by auto
    have b: "ar_pos t = ar_pos s" "ar_fully_received t = ar_fully_received s"
      using ar_same_base [of t s] by (simp_all add: t ar_fully_received_def fun_eq_iff)
    have vt: "ar_vars t" using assms(1) y(1,3) unfolding ar_vars_def b by (simp add: t)
    have nf: "\<not> ar_fully_received s ?y" using y(4) beyond_highest [OF assms(1), of ?y] by (cases "ar_pos s ?y < ar_pos s (ar_next_highest s)") auto
    have all: "ar_fully_received s k" if "ar_ok s k" "ar_pos s sn \<le> ar_pos s k" "ar_pos s k < ar_pos s ?y" for k
    proof (cases "ar_pos s k = ar_pos s sn")
      case True
      then have "k = sn" using ar_pos_inj that(1) assms(2) by blast
      then show ?thesis using assms(3) by simp
    next
      case False
      then show ?thesis using that y(5) [of k] by simp
    qed
    show ?thesis
    proof (intro conjI)
      show "\<exists>y. t = s\<lparr>ar_highest_status := y\<rparr>" using t by blast
    qed (use vt nf all y(2) b True t in auto)
  qed
  then show "ar_vars t" "\<not> ar_fully_received t (ar_highest_status t)" "\<exists>y. t = s\<lparr>ar_highest_status := y\<rparr>"
    "ar_pos s (ar_highest_status s) \<le> ar_pos s (ar_highest_status t)" "sn \<noteq> ar_highest_status s \<Longrightarrow> t = s"
    "\<forall>k. ar_ok s k \<longrightarrow> ar_pos s (ar_highest_status s) \<le> ar_pos s k \<longrightarrow> ar_pos s k < ar_pos s (ar_highest_status t) \<longrightarrow>
      ar_fully_received s k" by blast+
qed

text \<open>Positions once RX_Next has moved.\<close>

lemma ar_pos_rebase:
  assumes "ar_cfg t = ar_cfg s"
  shows "ar_pos t x = (if ar_pos s (ar_next t) \<le> ar_pos s x then ar_pos s x - ar_pos s (ar_next t)
    else ar_pos s x + 2 * ar_W s - ar_pos s (ar_next t))"
  unfolding ar_pos_def assms am_pos_rebase [of "ar_sz s" "ar_next t" x "ar_next s"] by (simp add: am_sizes(2))

text \<open>A trigger that RX_Next has passed is outside the window.\<close>

definition ar_timer_weak :: "rlc_rx_am \<Rightarrow> bool" where
  "ar_timer_weak s \<longleftrightarrow> ar_reassembly_timer s \<longrightarrow>
    ar_pos s (ar_next_status_trigger s) = 0 \<or> ar_W s \<le> ar_pos s (ar_next_status_trigger s) \<or> ar_triggered s"

lemma raise_next_spec:
  assumes "ar_vars s" "ar_ok s sn" "ar_fully_received s sn" "\<not> ar_fully_received s (ar_highest_status s)"
    and "sn \<noteq> ar_next s \<longrightarrow> \<not> ar_fully_received s (ar_next s)" "ar_reassembly_timer s \<longrightarrow> ar_triggered s"
  shows "\<exists>y w. ar_raise_next sn s = s\<lparr>ar_next := y, ar_window := w\<rparr> \<and> ar_ok s y \<and> ar_pos s y \<le> ar_pos s (ar_highest_status s) \<and>
      (sn \<noteq> ar_next s \<longrightarrow> y = ar_next s) \<and>
      (\<forall>k. cm_at w k = (if ar_ok s k \<and> ar_pos s k < ar_pos s y then None else cm_at (ar_window s) k)) \<and>
      (\<forall>k. ar_ok s k \<longrightarrow> ar_pos s k < ar_pos s y \<longrightarrow> ar_fully_received s k)" (is ?A)
    and "ar_vars (ar_raise_next sn s)" "ar_waits (ar_raise_next sn s)" "ar_timer_weak (ar_raise_next sn s)"
proof -
  note v = ar_varsD [OF assms(1)]
  have iff: "ar_mod_base s sn = ar_mod_base s (ar_next s) \<longleftrightarrow> sn = ar_next s"
    using ar_pos_inj [of s sn "ar_next s"] assms(2) v(1) by (auto simp: ar_mod_base_compare)
  have "ar_pos s (ar_next_highest s) \<le> unat (ar_mod s)" using am_M_fuel [of s] ar_pos_facts(1) [of s "ar_next_highest s"] by linarith
  moreover have m: "ar_next s mod ar_mod s = ar_next s" using ar_pos_inj [of s "ar_next s mod ar_mod s" "ar_next s"] v(1) by simp
  ultimately have sk: "ar_ok s y \<and> ar_pos s y \<le> ar_pos s (ar_next_highest s) \<and>
      (ar_pos s y < ar_pos s (ar_next_highest s) \<longrightarrow> \<not> ar_fully_received s y) \<and>
      (\<forall>k. ar_ok s k \<longrightarrow> ar_pos s k < ar_pos s y \<longrightarrow> ar_fully_received s k) \<and>
      (\<exists>w. ar_remove_received (unat (ar_mod s)) (ar_next s) s = (y, s\<lparr>ar_window := w\<rparr>) \<and> cm_wf w \<and> cm_size w = ar_W s \<and>
        (\<forall>k. cm_at w k = (if ar_ok s k \<and> ar_pos s k < ar_pos s y then None else cm_at (ar_window s) k)))"
    if "y = ar_skip_received (unat (ar_mod s)) (ar_next s) s" for y
    using skip_spec [of s "ar_next s" "unat (ar_mod s)"] remove_spec [of s "ar_next s" "unat (ar_mod s)"] v(1,6,7,8) that by auto
  have "\<exists>y w. ar_raise_next sn s = s\<lparr>ar_next := y, ar_window := w\<rparr> \<and> ar_ok s y \<and> ar_pos s y \<le> ar_pos s (ar_highest_status s) \<and>
      (sn \<noteq> ar_next s \<longrightarrow> y = ar_next s) \<and> cm_wf w \<and> cm_size w = ar_W s \<and> \<not> ar_fully_received s y \<and>
      (\<forall>k. cm_at w k = (if ar_ok s k \<and> ar_pos s k < ar_pos s y then None else cm_at (ar_window s) k)) \<and>
      (\<forall>k. ar_ok s k \<longrightarrow> ar_pos s k < ar_pos s y \<longrightarrow> ar_fully_received s k)"
  proof (cases "sn = ar_next s")
    case False
    then have "ar_raise_next sn s = s\<lparr>ar_next := ar_next s, ar_window := ar_window s\<rparr>" by (simp add: ar_raise_next_def iff)
    then show ?thesis using v(1,7,8) False assms(5) by (intro exI [of _ "ar_next s"] exI [of _ "ar_window s"]) simp
  next
    case True
    define y where "y = ar_skip_received (unat (ar_mod s)) (ar_next s) s"
    obtain w where w: "ar_remove_received (unat (ar_mod s)) (ar_next s) s = (y, s\<lparr>ar_window := w\<rparr>)" "cm_wf w" "cm_size w = ar_W s"
      "\<forall>k. cm_at w k = (if ar_ok s k \<and> ar_pos s k < ar_pos s y then None else cm_at (ar_window s) k)" using sk [OF y_def] by blast
    have "\<not> ar_fully_received s y"
      using sk [OF y_def] beyond_highest [OF assms(1), of y] by (cases "ar_pos s y < ar_pos s (ar_next_highest s)") auto
    moreover have "ar_pos s y \<le> ar_pos s (ar_highest_status s)"
      using sk [OF y_def] v(3) assms(4) not_less by blast
    moreover have "ar_raise_next sn s = s\<lparr>ar_next := y, ar_window := w\<rparr>" using True w(1) m by (simp add: ar_raise_next_def)
    ultimately show ?thesis using sk [OF y_def] w True by (intro exI [of _ y] exI [of _ w]) simp
  qed
  then obtain y w where y: "ar_raise_next sn s = s\<lparr>ar_next := y, ar_window := w\<rparr>" "ar_ok s y" "ar_pos s y \<le> ar_pos s (ar_highest_status s)"
      "sn \<noteq> ar_next s \<longrightarrow> y = ar_next s" "cm_wf w" "cm_size w = ar_W s" "\<not> ar_fully_received s y"
      "\<And>k. cm_at w k = (if ar_ok s k \<and> ar_pos s k < ar_pos s y then None else cm_at (ar_window s) k)"
      "\<forall>k. ar_ok s k \<longrightarrow> ar_pos s k < ar_pos s y \<longrightarrow> ar_fully_received s k" by blast
  show ?A using y by blast
  let ?t = "s\<lparr>ar_next := y, ar_window := w\<rparr>"
  have p: "ar_pos ?t x = (if ar_pos s y \<le> ar_pos s x then ar_pos s x - ar_pos s y else ar_pos s x + 2 * ar_W s - ar_pos s y)" for x
    using ar_pos_rebase [of ?t s x] by simp
  have yh: "ar_pos s y \<le> ar_pos s (ar_next_highest s)" using y(3) v(5) by simp
  have at: "ar_ok s k \<and> ar_pos s y \<le> ar_pos s k \<and> cm_at (ar_window s) k = Some i" if "cm_at w k = Some i" for k i
    using that y(8) [of k] v(9) [of k i] by (auto simp: not_less split: if_splits)
  have ent: "ar_ok ?t k \<and> ar_pos ?t k < ar_pos ?t (ar_next_highest s) \<and> ar_info_ok i" if "cm_at w k = Some i" for k i
    using at [OF that] v(9) [of k i] yh by (auto simp: p intro: diff_less_mono)
  have below: "\<exists>k. cm_at w k \<noteq> None \<and> Suc (ar_pos ?t k) = ar_pos ?t (ar_next_highest s)" if "0 < ar_pos ?t (ar_next_highest s)"
  proof -
    have "ar_pos s y < ar_pos s (ar_next_highest s)" using that yh by (simp add: p)
    then obtain k where k: "cm_at (ar_window s) k \<noteq> None" "Suc (ar_pos s k) = ar_pos s (ar_next_highest s)" using v(10) by auto
    then show ?thesis using \<open>ar_pos s y < _\<close> y(8) [of k] by (intro exI [of _ k]) (simp add: p)
  qed
  show "ar_vars (ar_raise_next sn s)"
    unfolding y(1) ar_vars_def using v(2-4,6) y(2,5,6) ent below yh y(3) v(5) by (simp add: p diff_le_mono)
  have ft: "ar_fully_received ?t k \<longleftrightarrow> ar_fully_received s k \<and> ar_pos s y \<le> ar_pos s k" if "ar_ok s k" for k
    using that y(8) [of k] by (auto simp: fully_at)
  show "ar_waits (ar_raise_next sn s)" unfolding y(1) ar_waits_def using ft [OF y(2)] ft [OF v(3)] y(7) assms(4) by simp
  show "ar_timer_weak (ar_raise_next sn s)" unfolding y(1) ar_timer_weak_def
  proof
    assume "ar_reassembly_timer ?t"
    then obtain k where k: "cm_at (ar_window s) k \<noteq> None" "Suc (ar_pos s k) = ar_pos s (ar_next_status_trigger s)"
      "ar_pos s (ar_next_status_trigger s) \<le> ar_pos s (ar_next_highest s)" using assms(6) by (auto simp: ar_triggered_def)
    consider "ar_pos s (ar_next_status_trigger s) \<le> ar_pos s y" | "ar_pos s y < ar_pos s (ar_next_status_trigger s)" by linarith
    then show "ar_pos ?t (ar_next_status_trigger ?t) = 0 \<or> ar_W ?t \<le> ar_pos ?t (ar_next_status_trigger ?t) \<or> ar_triggered ?t"
    proof cases
      case 1
      then show ?thesis using yh v(6) by (auto simp: p)
    next
      case 2
      then have "cm_at w k \<noteq> None" using k y(8) [of k] by auto
      then show ?thesis using 2 k yh unfolding ar_triggered_def by (intro disjI2 conjI exI [of _ k]) (simp_all add: p)
    qed
  qed
qed

section \<open>t-Reassembly\<close>

lemma restart_spec:
  assumes "ar_vars s" "\<not> ar_reassembly_timer s" "ar_pos s (x + 1) \<noteq> 0"
  shows "\<exists>b y. ar_restart_timer x s = s\<lparr>ar_reassembly_timer := b, ar_next_status_trigger := y\<rparr> \<and> ar_ok s y \<and>
    (b \<longleftrightarrow> ar_restart_condition x s) \<and> (b \<longrightarrow> y = ar_next_highest s \<and> ar_triggered (ar_restart_timer x s))"
proof (cases "ar_restart_condition x s")
  case True
  let ?t = "s\<lparr>ar_reassembly_timer := True, ar_next_status_trigger := ar_next_highest s\<rparr>"
  have "0 < ar_pos s (ar_next_highest s)" using True assms(3) by (auto simp: ar_restart_condition_def ar_mod_base_compare)
  then have "ar_triggered ?t" using ar_varsD(10) [OF assms(1)] ar_same_base(1) [of ?t s] by (simp add: ar_triggered_def)
  then show ?thesis using True ar_varsD(2) [OF assms(1)]
    by (intro exI [of _ True] exI [of _ "ar_next_highest s"]) (simp add: ar_restart_timer_def)
next
  case False
  then show ?thesis using assms(2) ar_varsD(4) [OF assms(1)]
    by (intro exI [of _ False] exI [of _ "ar_next_status_trigger s"]) (simp add: ar_restart_timer_def)
qed

lemma ar_timer_inv:
  assumes "ar_vars s" "ar_waits s" "ar_ok s y" "t = s\<lparr>ar_reassembly_timer := b, ar_next_status_trigger := y\<rparr>" "b \<longrightarrow> ar_triggered t"
  shows "ar_inv t"
proof -
  have "ar_pos t = ar_pos s" "ar_fully_received t = ar_fully_received s"
    using ar_same_base [of t s] by (simp_all add: assms(4) ar_fully_received_def fun_eq_iff)
  then have "ar_vars t" "ar_waits t" using assms(1-3) unfolding ar_vars_def ar_waits_def by (simp_all add: assms(4))
  then show ?thesis using assms(4,5) by (simp add: ar_inv_def)
qed

lemma stop_spec:
  assumes "ar_vars s" "ar_reassembly_timer s" "ar_timer_weak s"
  shows "\<exists>b. ar_stop_condition s = Some b \<and> (\<not> b \<longrightarrow> ar_triggered s)"
proof -
  note v = ar_varsD [OF assms(1)]
  let ?p = "ar_pos s (ar_next_status_trigger s)"
  have c: "?p = 0 \<or> ar_W s \<le> ?p \<or> ar_triggered s" using assms(2,3) by (simp add: ar_timer_weak_def)
  have z: "?p = 0 \<longleftrightarrow> ar_next_status_trigger s = ar_next s" using ar_pos_zero [OF _ v(4,1)] by auto
  show ?thesis
  proof (cases "?p = 1")
    case True
    then have "ar_triggered s" using c am_sizes(4) [of "ar_sz s"] by auto
    then obtain k where "cm_at (ar_window s) k \<noteq> None" "ar_pos s k = 0" using True by (auto simp: ar_triggered_def)
    moreover then have "k = ar_next s" using ar_pos_zero v(1,9) by blast
    ultimately obtain i where "cm_at (ar_window s) (ar_next s) = Some i" by auto
    then show ?thesis using \<open>ar_triggered s\<close> unfolding ar_stop_condition_def Let_def by (simp split: if_split)
  next
    case False
    then show ?thesis using c z by (auto simp: ar_stop_condition_def ar_mod_base_compare)
  qed
qed

lemma update_timer_spec:
  assumes "ar_vars s" "ar_waits s" "ar_timer_weak s"
  shows "\<exists>b y. ar_update_timer s = Some (s\<lparr>ar_reassembly_timer := b, ar_next_status_trigger := y\<rparr>) \<and>
    ar_inv (s\<lparr>ar_reassembly_timer := b, ar_next_status_trigger := y\<rparr>)"
proof -
  have restart: ?thesis if u: "ar_update_timer s = Some (ar_restart_timer (ar_next s) (s\<lparr>ar_reassembly_timer := False\<rparr>))"
  proof -
    let ?s = "s\<lparr>ar_reassembly_timer := False\<rparr>"
    have "ar_pos ?s = ar_pos s" "ar_fully_received ?s = ar_fully_received s"
      using ar_same_base [of ?s s] by (simp_all add: ar_fully_received_def fun_eq_iff)
    then have v: "ar_vars ?s" "ar_waits ?s" using assms(1,2) unfolding ar_vars_def ar_waits_def by simp_all
    have nt: "\<not> ar_reassembly_timer ?s" and nz: "ar_pos ?s (ar_next s + 1) \<noteq> 0" using ar_pos_facts(5) [of ?s] by simp_all
    obtain b y where b: "ar_restart_timer (ar_next s) ?s = ?s\<lparr>ar_reassembly_timer := b, ar_next_status_trigger := y\<rparr>" "ar_ok ?s y"
      "b \<longrightarrow> ar_triggered (ar_restart_timer (ar_next s) ?s)"
      using restart_spec [OF v(1) nt nz] by blast
    have "ar_inv (?s\<lparr>ar_reassembly_timer := b, ar_next_status_trigger := y\<rparr>)"
      by (rule ar_timer_inv [OF v b(2) refl]) (use b in simp)
    then show ?thesis using u b(1) by (intro exI [of _ b] exI [of _ y]) simp
  qed
  show ?thesis
  proof (cases "ar_reassembly_timer s")
    case False
    then have e: "s\<lparr>ar_reassembly_timer := False\<rparr> = s" by simp
    have "ar_update_timer s = Some (ar_restart_timer (ar_next s) (s\<lparr>ar_reassembly_timer := False\<rparr>))"
      unfolding e using False by (simp add: ar_update_timer_def)
    then show ?thesis by (rule restart)
  next
    case True
    then obtain b where b: "ar_stop_condition s = Some b" "\<not> b \<longrightarrow> ar_triggered s" using stop_spec assms(1,3) by blast
    show ?thesis
    proof (cases b)
      case True
      then have "ar_update_timer s = Some (ar_restart_timer (ar_next s) (s\<lparr>ar_reassembly_timer := False\<rparr>))"
        using b(1) \<open>ar_reassembly_timer s\<close> by (simp add: ar_update_timer_def)
      then show ?thesis by (rule restart)
    next
      case False
      then have "ar_update_timer s = Some s" using b(1) True by (simp add: ar_update_timer_def)
      moreover have "s\<lparr>ar_reassembly_timer := True, ar_next_status_trigger := ar_next_status_trigger s\<rparr> = s"
        using True by (cases s) simp
      ultimately show ?thesis using assms(1,2) b(2) False
        by (intro exI [of _ True] exI [of _ "ar_next_status_trigger s"]) (simp add: ar_inv_def)
    qed
  qed
qed

section \<open>The effect of one PDU\<close>

text \<open>What a data PDU leaves alone before the status report is refreshed.\<close>

definition ar_same_status :: "rlc_rx_am \<Rightarrow> rlc_rx_am \<Rightarrow> bool" where
  "ar_same_status s t \<longleftrightarrow> ar_cfg t = ar_cfg s \<and> ar_max_nof_sn_per_status_report t = ar_max_nof_sn_per_status_report s \<and>
    ar_status_builder t = ar_status_builder s \<and> ar_status_cached t = ar_status_cached s \<and>
    ar_status_shared t = ar_status_shared s \<and> ar_status_report_size t = ar_status_report_size s \<and>
    ar_do_status t = ar_do_status s \<and> ar_status_prohibit_timer t = ar_status_prohibit_timer s \<and>
    ar_status_prohibit_timer_is_running t = ar_status_prohibit_timer_is_running s"

lemma ar_deliver_frame:
  "\<exists>m. ar_deliver ok i s = s\<lparr>ar_metrics := m, ar_out := ar_out s @ (case am_reassemble_sdu ok i of None \<Rightarrow> [] | Some sdu \<Rightarrow> [Ar_on_new_sdu sdu])\<rparr>"
  by (auto simp: ar_deliver_def ar_emit_def ar_add_lost_pdus_def ar_add_sdus_def ar_metric_def split: option.split
      intro: exI [of _ "ar_metrics s"])

text \<open>An SDU as it stays in the window: only the flags of a complete one are kept.\<close>

definition ar_kept :: "am_sdu_info \<Rightarrow> am_sdu_info" where
  "ar_kept i = (if ai_fully_received i then i\<lparr>ai_data := Full_sdu_data []\<rparr> else i)"

lemma kept_simps [simp]: "ai_fully_received (ar_kept i) = ai_fully_received i" "ai_has_gap (ar_kept i) = ai_has_gap i"
  "ar_info_ok i \<Longrightarrow> ar_info_ok (ar_kept i)"
  by (auto simp: ar_kept_def ar_info_ok_def)

definition ar_delivered :: "(nat \<Rightarrow> bool) \<Rightarrow> am_sdu_info \<Rightarrow> am_rx_output list" where
  "ar_delivered ok i = (if ai_fully_received i then case am_reassemble_sdu ok i of None \<Rightarrow> [] | Some sdu \<Rightarrow> [Ar_on_new_sdu sdu] else [])"

lemma place_steps:
  "ar_place ok h payload s =
    (let (c, s) = ar_store h payload s; s = ar_raise_highest (am_sn h) s;
         s = (case cm_at (ar_window s) (am_sn h) of
                None \<Rightarrow> s
              | Some i \<Rightarrow> if ai_fully_received i then ar_complete_sdu ok (am_sn h) i s else s)
     in map_option (\<lambda>s. (c, s)) (ar_update_timer s))"
  by (simp add: ar_place_def ar_store_def ar_raise_highest_def)

text \<open>A stored SDU that is complete: the state variables move on, and it is delivered.\<close>

lemma complete_spec:
  assumes "ar_vars s" "ar_ok s sn" "cm_at (ar_window s) sn = Some i" "ai_fully_received i"
    and "\<And>k. ar_fully_received s k \<Longrightarrow> k = sn \<or> k \<noteq> ar_highest_status s \<and> k \<noteq> ar_next s"
    and "ar_reassembly_timer s \<longrightarrow> ar_triggered s"
  shows "\<exists>t. ar_complete_sdu ok sn i s = t \<and> ar_vars t \<and> ar_waits t \<and> ar_timer_weak t \<and> ar_same_status s t \<and>
    ar_out t = ar_out s @ ar_delivered ok i \<and> ar_next_highest t = ar_next_highest s \<and>
    ar_pos s (ar_highest_status s) \<le> ar_pos s (ar_highest_status t) \<and>
    (\<forall>k. ar_ok s k \<longrightarrow> ar_pos s (ar_highest_status s) \<le> ar_pos s k \<longrightarrow> ar_pos s k < ar_pos s (ar_highest_status t) \<longrightarrow>
      ar_fully_received s k) \<and>
    (\<forall>k. cm_at (ar_window t) k = (if ar_ok s k \<and> ar_pos s k < ar_pos s (ar_next t) then None
      else ((cm_at (ar_window s))(sn \<mapsto> ar_kept i)) k)) \<and>
    (\<forall>k. ar_ok s k \<longrightarrow> ar_pos s k < ar_pos s (ar_next t) \<longrightarrow> ar_fully_received s k)"
proof -
  note v = ar_varsD [OF assms(1)]
  define a where "a = ar_assign sn (i\<lparr>ai_data := Full_sdu_data []\<rparr>) (ar_deliver ok i s)"
  obtain m where m: "a = s\<lparr>ar_metrics := m, ar_out := ar_out s @ ar_delivered ok i,
      ar_window := cm_assign (ar_window s) sn (i\<lparr>ai_data := Full_sdu_data []\<rparr>)\<rparr>"
    using ar_deliver_frame [of ok i s] assms(4) by (auto simp: a_def ar_assign_def ar_delivered_def)
  have w: "cm_at (ar_window a) = (cm_at (ar_window s))(sn \<mapsto> ar_kept i)" "cm_wf (ar_window a)" "cm_size (ar_window a) = ar_W s"
    using v(7,8) assms(3,4) by (simp_all add: m ar_assign_present window_simps ar_kept_def)
  have b: "ar_pos a = ar_pos s" using ar_same_base [of a s] by (simp add: m)
  have fa: "ar_fully_received a k \<longleftrightarrow> ar_fully_received s k" for k
    using fully_upd [OF w(1), of k] assms(3,4) fully_at [of s sn] by (cases "k = sn") auto
  have none: "cm_at (ar_window a) k = None \<longleftrightarrow> cm_at (ar_window s) k = None" for k using assms(3) by (simp add: w(1))
  have va: "ar_vars a" unfolding ar_vars_def b none using v w(2,3) assms(3) by (auto simp: m w(1)[unfolded m, simplified] split: if_splits)
  have ta: "ar_reassembly_timer a \<longrightarrow> ar_triggered a" using assms(6) none unfolding ar_triggered_def b by (simp add: m)
  have sn: "ar_ok a sn" "ar_fully_received a sn" using assms(2-4) fa by (simp_all add: m fully_at)
  have hs: "\<And>k. ar_fully_received a k \<Longrightarrow> k = sn \<or> k \<noteq> ar_highest_status a" using assms(5) fa by (auto simp: m)
  note r = raise_status_spec [OF va sn hs]
  define c where "c = ar_raise_status sn a"
  obtain y where y: "c = a\<lparr>ar_highest_status := y\<rparr>" using r(3) unfolding c_def by blast
  have fc: "ar_fully_received c = ar_fully_received a" "ar_pos c = ar_pos s" using ar_same_base [of c a] b
    by (simp_all add: y ar_fully_received_def fun_eq_iff)
  have nx: "sn \<noteq> ar_next c \<longrightarrow> \<not> ar_fully_received c (ar_next c)" using assms(5) fa fc by (auto simp: y m)
  have tc: "ar_reassembly_timer c \<longrightarrow> ar_triggered c" using ta b unfolding ar_triggered_def fc by (simp add: y)
  have scn: "ar_ok c sn" "ar_fully_received c sn" using sn fc by (simp_all add: y)
  note n = raise_next_spec [OF r(1) [folded c_def] scn r(2) [folded c_def] nx tc]
  obtain z w' where z: "ar_raise_next sn c = c\<lparr>ar_next := z, ar_window := w'\<rparr>"
    "\<And>k. cm_at w' k = (if ar_ok s k \<and> ar_pos s k < ar_pos s z then None else cm_at (ar_window c) k)"
    "\<And>k. ar_ok s k \<Longrightarrow> ar_pos s k < ar_pos s z \<Longrightarrow> ar_fully_received c k"
    using n(1) unfolding fc by (auto simp: y m)
  define t where "t = ar_raise_next sn c"
  have t: "t = c\<lparr>ar_next := z, ar_window := w'\<rparr>" using z(1) by (simp add: t_def)
  have "ar_complete_sdu ok sn i s = t" by (simp add: complete_steps t_def c_def a_def)
  moreover have "ar_same_status s t" "ar_out t = ar_out s @ ar_delivered ok i" "ar_next_highest t = ar_next_highest s"
    by (simp_all add: ar_same_status_def t y m)
  moreover have "ar_pos s (ar_highest_status s) \<le> ar_pos s (ar_highest_status t)" using r(4) b by (simp add: t c_def [symmetric] y) (simp add: m)
  moreover have "ar_fully_received s k" if "ar_ok s k" "ar_pos s (ar_highest_status s) \<le> ar_pos s k" "ar_pos s k < ar_pos s (ar_highest_status t)" for k
    using r(6) that fa by (simp add: b t c_def [symmetric] y) (simp add: m)
  moreover have "cm_at (ar_window t) k = (if ar_ok s k \<and> ar_pos s k < ar_pos s (ar_next t) then None
      else ((cm_at (ar_window s))(sn \<mapsto> ar_kept i)) k)" for k
    using z(2) [of k] by (simp add: t) (simp add: y w(1))
  moreover have "ar_fully_received s k" if "ar_ok s k" "ar_pos s k < ar_pos s (ar_next t)" for k
    using z(3) [of k] that fc fa by (simp add: t)
  ultimately show ?thesis using n(2-4) by (simp add: t_def)
qed

text \<open>A PDU that is inside the window and of an SDU that is not complete.\<close>

lemma place_spec:
  assumes "ar_inv s" "ar_ok s (am_sn h)" "ar_pos s (am_sn h) < ar_W s" "\<not> ar_fully_received s (am_sn h)" "am_in_range h payload"
  defines "i \<equiv> snd (ar_new_info h payload (ar_info s (am_sn h)))"
  shows "\<exists>t. ar_place ok h payload s = Some (fst (ar_new_info h payload (ar_info s (am_sn h))), t) \<and> ar_inv t \<and> ar_same_status s t \<and>
    ar_out t = ar_out s @ ar_delivered ok i \<and>
    ar_pos s (ar_next_highest t) = max (ar_pos s (ar_next_highest s)) (Suc (ar_pos s (am_sn h))) \<and>
    ar_pos s (ar_highest_status s) \<le> ar_pos s (ar_highest_status t) \<and>
    (\<forall>k. ar_ok s k \<longrightarrow> ar_pos s (ar_highest_status s) \<le> ar_pos s k \<longrightarrow> ar_pos s k < ar_pos s (ar_highest_status t) \<longrightarrow>
      ar_fully_received s k \<or> k = am_sn h \<and> ai_fully_received i) \<and>
    (\<forall>k. cm_at (ar_window t) k = (if ar_ok s k \<and> ar_pos s k < ar_pos s (ar_next t) then None
      else ((cm_at (ar_window s))(am_sn h \<mapsto> ar_kept i)) k)) \<and>
    (\<forall>k. ar_ok s k \<longrightarrow> ar_pos s k < ar_pos s (ar_next t) \<longrightarrow> ar_fully_received s k \<or> k = am_sn h \<and> ai_fully_received i)"
proof -
  let ?sn = "am_sn h"
  have inv: "ar_vars s" "ar_waits s" "ar_reassembly_timer s \<longrightarrow> ar_triggered s" using assms(1) by (simp_all add: ar_inv_def)
  obtain w where w: "ar_store h payload s = (fst (ar_new_info h payload (ar_info s ?sn)), s\<lparr>ar_window := w\<rparr>)" "cm_wf w"
    "cm_size w = ar_W s" "cm_at w = (cm_at (ar_window s))(?sn \<mapsto> i)"
    using store_spec [OF inv(1) assms(2,3), of payload] by (auto simp: i_def)
  have i: "ar_info_ok i" unfolding i_def by (rule new_info_ok [OF info_segments [OF inv(1) assms(4)] assms(5)])
  define u where "u = ar_raise_highest ?sn (s\<lparr>ar_window := w\<rparr>)"
  note u = stored_vars [OF inv(1) assms(2,3) i w(2-4), folded u_def]
  have at: "cm_at (ar_window u) = (cm_at (ar_window s))(?sn \<mapsto> i)" by (simp add: u(4) w(4))
  have fu: "ar_fully_received u k \<longleftrightarrow> (if k = ?sn then ai_fully_received i else ar_fully_received s k)" for k
    by (rule fully_upd [OF at])
  have su: "ar_same_status s u" "ar_out u = ar_out s" by (simp_all add: u_def ar_raise_highest_def ar_same_status_def)
  have tu: "ar_reassembly_timer u \<longrightarrow> ar_triggered u"
  proof
    assume "ar_reassembly_timer u"
    then obtain k where k: "cm_at (ar_window s) k \<noteq> None" "Suc (ar_pos s k) = ar_pos s (ar_next_status_trigger s)"
      "ar_pos s (ar_next_status_trigger s) \<le> ar_pos s (ar_next_highest s)" using inv(3) u(9) by (auto simp: ar_triggered_def)
    show "ar_triggered u" unfolding ar_triggered_def u(2,3,8) using k by (intro conjI exI [of _ k]) (auto simp: at)
  qed
  have pl: "ar_place ok h payload s = map_option (Pair (fst (ar_new_info h payload (ar_info s ?sn))))
      (ar_update_timer (if ai_fully_received i then ar_complete_sdu ok ?sn i u else u))"
    unfolding place_steps w(1) by (simp add: u_def [symmetric] at Let_def)
  have "\<exists>t. (if ai_fully_received i then ar_complete_sdu ok ?sn i u else u) = t \<and> ar_vars t \<and> ar_waits t \<and> ar_timer_weak t \<and>
    ar_same_status s t \<and> ar_out t = ar_out s @ ar_delivered ok i \<and> ar_next_highest t = ar_next_highest u \<and>
    ar_pos s (ar_highest_status s) \<le> ar_pos s (ar_highest_status t) \<and>
    (\<forall>k. ar_ok s k \<longrightarrow> ar_pos s (ar_highest_status s) \<le> ar_pos s k \<longrightarrow> ar_pos s k < ar_pos s (ar_highest_status t) \<longrightarrow>
      ar_fully_received u k) \<and>
    (\<forall>k. cm_at (ar_window t) k = (if ar_ok s k \<and> ar_pos s k < ar_pos s (ar_next t) then None
      else ((cm_at (ar_window s))(?sn \<mapsto> ar_kept i)) k)) \<and>
    (\<forall>k. ar_ok s k \<longrightarrow> ar_pos s k < ar_pos s (ar_next t) \<longrightarrow> ar_fully_received u k)"
  proof (cases "ai_fully_received i")
    case True
    have "cm_at (ar_window u) ?sn = Some i" by (simp add: at)
    moreover have "k = ?sn \<or> k \<noteq> ar_highest_status u \<and> k \<noteq> ar_next u" if "ar_fully_received u k" for k
      using that inv(2) by (auto simp: fu u ar_waits_def split: if_splits)
    ultimately show ?thesis using complete_spec [of u ?sn i ok, OF u(1) _ _ True _ tu] True assms(2) su
      unfolding u(2,6,7) at su(2) by (auto simp: ar_same_status_def)
  next
    case False
    have "ar_waits u" using inv(2) False by (auto simp: ar_waits_def fu u)
    moreover have "ar_timer_weak u" using tu by (simp add: ar_timer_weak_def)
    ultimately show ?thesis using False u(1,5,7) su by (simp add: at ar_kept_def ar_delivered_def)
  qed
  then obtain t where t: "(if ai_fully_received i then ar_complete_sdu ok ?sn i u else u) = t" "ar_vars t" "ar_waits t" "ar_timer_weak t"
    "ar_same_status s t" "ar_out t = ar_out s @ ar_delivered ok i" "ar_next_highest t = ar_next_highest u"
    "ar_pos s (ar_highest_status s) \<le> ar_pos s (ar_highest_status t)"
    "\<And>k. ar_ok s k \<Longrightarrow> ar_pos s (ar_highest_status s) \<le> ar_pos s k \<Longrightarrow> ar_pos s k < ar_pos s (ar_highest_status t) \<Longrightarrow>
      ar_fully_received u k"
    "\<And>k. cm_at (ar_window t) k = (if ar_ok s k \<and> ar_pos s k < ar_pos s (ar_next t) then None
      else ((cm_at (ar_window s))(?sn \<mapsto> ar_kept i)) k)"
    "\<And>k. ar_ok s k \<Longrightarrow> ar_pos s k < ar_pos s (ar_next t) \<Longrightarrow> ar_fully_received u k" by blast
  obtain b y where b: "ar_update_timer t = Some (t\<lparr>ar_reassembly_timer := b, ar_next_status_trigger := y\<rparr>)"
    "ar_inv (t\<lparr>ar_reassembly_timer := b, ar_next_status_trigger := y\<rparr>)" using update_timer_spec [OF t(2-4)] by blast
  let ?v = "t\<lparr>ar_reassembly_timer := b, ar_next_status_trigger := y\<rparr>"
  have "ar_same_status s ?v" using t(5) by (simp add: ar_same_status_def)
  moreover have "ar_fully_received s k \<or> k = ?sn \<and> ai_fully_received i" if "ar_fully_received u k" for k
    using that by (simp add: fu split: if_splits)
  moreover have "ar_place ok h payload s = Some (fst (ar_new_info h payload (ar_info s ?sn)), ?v)" by (simp add: pl t(1) b(1))
  ultimately show ?thesis using b(2) t(6,8-11) by (intro exI [of _ ?v]) (simp add: t(7) u(3))
qed

end
