(* ===== verification/Rlc_Am_Status.thy ===== *)
theory Rlc_Am_Status
  imports Rlc_Am_Rx_Inv
begin

text \<open>
  The status reports of the receiving AM entity: the loops of \<open>refresh_status_report\<close> push a list of NACKs, and what these
  report as missing is what the entity lacks.
\<close>

section \<open>One SDU\<close>

text \<open>The end of the stored data of an SDU.\<close>

definition segs_end :: "nat \<Rightarrow> um_segment list \<Rightarrow> nat" where
  "segs_end n segs = (if segs = [] then n else seg_end (last segs))"

definition has_last :: "um_segment list \<Rightarrow> bool" where
  "has_last segs \<longleftrightarrow> (\<exists>s \<in> set segs. seg_si s = last_segment)"

fun gap_nacks :: "u32 \<Rightarrow> nat \<Rightarrow> um_segment list \<Rightarrow> rlc_am_status_nack list" where
  "gap_nacks i n [] = []"
| "gap_nacks i n (s # segs) =
    (if unat (seg_so s) \<noteq> n
     then [rlc_am_nack_new\<lparr>nack_sn := i, nack_has_so := True, so_start := word_of_nat n, so_end := seg_so s - 1\<rparr>] else [])
    @ gap_nacks i (seg_end s) segs"

lemma unat_small: "n < 2 ^ LENGTH('a) \<Longrightarrow> unat (word_of_nat n :: 'a::len word) = n"
  by (simp add: unsigned_of_nat take_bit_nat_eq_self)

lemma so_nack:
  assumes "n < unat so" "am_sn_ok sz i"
  defines "k \<equiv> rlc_am_nack_new\<lparr>nack_sn := i, nack_has_so := True, so_start := word_of_nat n, so_end := so - 1\<rparr>"
  shows "nack_ok sz k" "nack_missing (am_modulus sz) k = {i} \<times> {n ..< unat so}" "so_start k \<le> so_end k"
proof -
  have i: "i mod am_modulus sz = i" using assms(2) by (rule am_sn_mod_id)
  have u: "unat (so - 1) = unat so - 1" using assms(1) by (intro unat_minus_one) auto
  have "unat so < 2 ^ LENGTH(16)" by (rule unsigned_less)
  then have n: "unat (word_of_nat n :: u16) = n" using assms(1) by (intro unat_small) simp
  have e: "so - 1 \<noteq> so_end_of_sdu"
  proof
    assume "so - 1 = so_end_of_sdu"
    then have "so = 0" by (simp add: so_end_of_sdu_def)
    then show False using assms(1) by simp
  qed
  show "nack_ok sz k" using assms(2) by (simp add: k_def nack_ok_def rlc_am_nack_new_def am_sn_ok_iff am_modulus_power)
  show "nack_missing (am_modulus sz) k = {i} \<times> {n ..< unat so}"
    using e n u assms(1) by (auto simp: k_def nack_missing_def rlc_am_nack_new_def nack_len_def i)
  show "so_start k \<le> so_end k" using assms(1) n u by (simp add: k_def word_le_nat_alt)
qed

lemma segment_nacks_spec:
  assumes "segs_ok segs" "\<forall>s \<in> set segs. n \<le> unat (seg_so s) \<and> seg_end s < 2 ^ 16" "n < 2 ^ 16" "am_sn_ok sz i"
  shows "ar_segment_nacks i (word_of_nat n) l segs b =
      Some (word_of_nat (segs_end n segs), l \<or> has_last segs, fold push_nack (gap_nacks i n segs) b) \<and>
    (\<forall>k \<in> set (gap_nacks i n segs). nack_ok sz k \<and> nack_sn k = i \<and> nack_len k = 1) \<and>
    \<Union> (nack_missing (am_modulus sz) ` set (gap_nacks i n segs)) = {i} \<times> ({n ..< segs_end n segs} - seg_cover segs) \<and>
    n \<le> segs_end n segs \<and> segs_end n segs < 2 ^ 16"
  using assms(1-3)
proof (induction segs arbitrary: n l b)
  case Nil
  then show ?case by (simp add: segs_end_def has_last_def)
next
  case (Cons s segs)
  have ok: "seg_ok s" "segs_ok segs" "\<forall>t \<in> set segs. seg_end s \<le> unat (seg_so t) \<and> seg_end t < 2 ^ 16" "seg_end s < 2 ^ 16"
    "n \<le> unat (seg_so s)" using Cons.prems by auto
  note pos = seg_end_pos [OF ok(1)]
  let ?k = "rlc_am_nack_new\<lparr>nack_sn := i, nack_has_so := True, so_start := word_of_nat n, so_end := seg_so s - 1\<rparr>"
  have cmp: "ucast (seg_so s) \<noteq> (word_of_nat n :: u32) \<longleftrightarrow> unat (seg_so s) \<noteq> n"
    using Cons.prems(3) unat_small [of n, where 'a = 32] by (simp add: word_unat_eq_iff)
  have st: "ucast (word_of_nat n :: u32) = (word_of_nat n :: u16)"
    by (rule bit_word_eqI) (simp add: bit_simps)
  have nx: "ucast (seg_so s) + word_of_nat (length (seg_payload s)) = (word_of_nat (seg_end s) :: u32)"
    by (simp add: seg_end_def)
  note ih = Cons.IH [OF ok(2,3,4)]
  have e: "segs_end n (s # segs) = segs_end (seg_end s) segs" "has_last (s # segs) \<longleftrightarrow> seg_si s = last_segment \<or> has_last segs"
    by (auto simp: segs_end_def has_last_def)
  have low: "x \<in> seg_cover segs \<Longrightarrow> seg_end s \<le> x" for x using cover_after [of segs "seg_end s" x] ok(3) by blast
  have le: "seg_end s \<le> segs_end (seg_end s) segs" using ih by blast
  show ?case
  proof (cases "unat (seg_so s) = n")
    case True
    have c: "{n ..< segs_end (seg_end s) segs} - seg_cover (s # segs) = {seg_end s ..< segs_end (seg_end s) segs} - seg_cover segs"
      using True pos le by (auto simp: seg_range_def)
    have "ar_segment_nacks i (word_of_nat n) l (s # segs) b =
        ar_segment_nacks i (word_of_nat (seg_end s)) (l \<or> seg_si s = last_segment) segs b"
      unfolding ar_segment_nacks.simps Let_def nx using cmp True by simp
    then show ?thesis unfolding e c using ih [of "l \<or> seg_si s = last_segment" b] True pos by (simp add: disj_assoc)
  next
    case False
    then have lt: "n < unat (seg_so s)" using ok(5) by simp
    note k = so_nack [OF lt assms(4)]
    have c: "{n ..< segs_end (seg_end s) segs} - seg_cover (s # segs) =
        {n ..< unat (seg_so s)} \<union> ({seg_end s ..< segs_end (seg_end s) segs} - seg_cover segs)"
      using lt pos le by (auto simp: seg_range_def dest: low)
    have "ar_segment_nacks i (word_of_nat n) l (s # segs) b = ar_segment_nacks i (word_of_nat (seg_end s)) (l \<or> seg_si s = last_segment) segs
        (push_nack ?k b)" using False cmp k(3) by (simp add: nx st Let_def not_less [symmetric])
    then show ?thesis unfolding e c using ih [of "l \<or> seg_si s = last_segment" "push_nack ?k b"] False k pos ok(5)
      by (auto simp: disj_assoc nack_len_def rlc_am_nack_new_def)
  qed
qed

lemma cover_below_end: "segs_ok segs \<Longrightarrow> x \<in> seg_cover segs \<Longrightarrow> x < segs_end n segs"
proof (induction segs rule: rev_induct)
  case (snoc s segs)
  then have "\<forall>t \<in> set segs. seg_end t \<le> unat (seg_so s)" "seg_ok s" by (simp_all add: segs_ok_def sorted_wrt_append)
  then show ?case using snoc.prems(2) seg_end_pos [of s]
    by (fastforce simp: segs_end_def seg_cover_def seg_range_def)
qed simp

text \<open>The bytes of an SDU that the entity lacks: with no segment flagged as the last one, everything behind the stored data.\<close>

definition ar_lacking :: "rlc_rx_am \<Rightarrow> u32 \<Rightarrow> nat set" where
  "ar_lacking s k =
    (case cm_at (ar_window s) k of
       None \<Rightarrow> UNIV
     | Some i \<Rightarrow> if ai_fully_received i then {}
                else {b. b \<notin> seg_cover (am_segments i) \<and> (has_last (am_segments i) \<longrightarrow> b < segs_end 0 (am_segments i))})"

definition sdu_nacks :: "rlc_rx_am \<Rightarrow> u32 \<Rightarrow> rlc_am_status_nack list" where
  "sdu_nacks s k =
    (case cm_at (ar_window s) k of
       None \<Rightarrow> [rlc_am_nack_new\<lparr>nack_sn := k, nack_has_so := False\<rparr>]
     | Some i \<Rightarrow> if ai_fully_received i then []
                else gap_nacks k 0 (am_segments i) @
                  (if has_last (am_segments i) then []
                   else [rlc_am_nack_new\<lparr>nack_sn := k, nack_has_so := True, so_start := word_of_nat (segs_end 0 (am_segments i)),
                           so_end := so_end_of_sdu\<rparr>]))"

lemma sdu_nacks_spec:
  assumes "ar_vars s" "ar_ok s k"
  shows "ar_sdu_nacks s k b = Some (fold push_nack (sdu_nacks s k) b) \<and>
    (\<forall>n \<in> set (sdu_nacks s k). nack_ok (ar_sz s) n \<and> nack_sn n = k \<and> nack_len n = 1) \<and>
    \<Union> (nack_missing (ar_mod s) ` set (sdu_nacks s k)) = {k} \<times> ar_lacking s k"
proof (cases "cm_at (ar_window s) k")
  case None
  have "nack_ok (ar_sz s) (rlc_am_nack_new\<lparr>nack_sn := k, nack_has_so := False\<rparr>)"
    using assms(2) by (simp add: nack_ok_def rlc_am_nack_new_def am_sn_ok_iff am_modulus_power)
  moreover have "nack_missing (ar_mod s) (rlc_am_nack_new\<lparr>nack_sn := k, nack_has_so := False\<rparr>) = {k} \<times> UNIV"
    using am_sn_mod_id [OF assms(2)] by (auto simp: nack_missing_def rlc_am_nack_new_def nack_len_def ar_mod_def)
  ultimately show ?thesis using None
    by (simp add: ar_sdu_nacks_def sdu_nacks_def ar_lacking_def) (simp add: rlc_am_nack_new_def nack_len_def)
next
  case (Some i)
  show ?thesis
  proof (cases "ai_fully_received i")
    case True
    then show ?thesis using Some by (simp add: ar_sdu_nacks_def sdu_nacks_def ar_lacking_def)
  next
    case False
    obtain segs where segs: "ai_data i = Segment_set segs" "segs_ok segs" "\<forall>t \<in> set segs. seg_end t < 2 ^ 16"
      using False ar_varsD(9) [OF assms(1) Some] by (auto simp: ar_info_ok_def am_segs_ok_def)
    then have e: "am_segments i = segs" by (simp add: am_segments_def)
    note g = segment_nacks_spec [OF segs(2), of 0 "ar_sz s" k False b]
    have g: "ar_segment_nacks k 0 False segs b = Some (word_of_nat (segs_end 0 segs), has_last segs, fold push_nack (gap_nacks k 0 segs) b)"
      "\<forall>n \<in> set (gap_nacks k 0 segs). nack_ok (ar_sz s) n \<and> nack_sn n = k \<and> nack_len n = 1"
      "\<Union> (nack_missing (am_modulus (ar_sz s)) ` set (gap_nacks k 0 segs)) = {k} \<times> ({0 ..< segs_end 0 segs} - seg_cover segs)"
      "segs_end 0 segs < 2 ^ 16"
      using g segs(3) assms(2) by simp_all
    let ?n = "rlc_am_nack_new\<lparr>nack_sn := k, nack_has_so := True, so_start := word_of_nat (segs_end 0 segs), so_end := so_end_of_sdu\<rparr>"
    have u: "unat (word_of_nat (segs_end 0 segs) :: u16) = segs_end 0 segs" using g(4) by (intro unat_small) simp
    have st: "ucast (word_of_nat (segs_end 0 segs) :: u32) = (word_of_nat (segs_end 0 segs) :: u16)"
      by (rule bit_word_eqI) (simp add: bit_simps)
    have n: "nack_ok (ar_sz s) ?n" "nack_sn ?n = k" "nack_len ?n = 1"
      using assms(2) by (simp_all add: nack_ok_def rlc_am_nack_new_def am_sn_ok_iff am_modulus_power so_end_of_sdu_def nack_len_def)
    have m: "nack_missing (am_modulus (ar_sz s)) ?n = {k} \<times> {segs_end 0 segs ..}"
      using am_sn_mod_id [OF assms(2)] u by (auto simp: nack_missing_def rlc_am_nack_new_def nack_len_def)
    have below: "x < segs_end 0 segs" if "x \<in> seg_cover segs" for x using that by (rule cover_below_end [OF segs(2)])
    have lack: "ar_lacking s k = ({0 ..< segs_end 0 segs} - seg_cover segs) \<union> (if has_last segs then {} else {segs_end 0 segs ..})"
      using Some False by (auto simp: ar_lacking_def e not_less dest: below)
    show ?thesis unfolding lack ar_mod_def
      using Some False segs(1) g(1-3) n m by (auto simp: ar_sdu_nacks_def sdu_nacks_def e st)
  qed
qed

section \<open>All of them\<close>

text \<open>The loop goes through \<open>n\<close> sequence numbers, those up to \<open>stop_sn\<close>.\<close>

definition ar_range :: "rlc_rx_am \<Rightarrow> u32 \<Rightarrow> u32 \<Rightarrow> u32 set" where
  "ar_range s x y = {k. ar_ok s k \<and> ar_pos s x \<le> ar_pos s k \<and> ar_pos s k < ar_pos s y}"

fun range_nacks :: "rlc_rx_am \<Rightarrow> nat \<Rightarrow> u32 \<Rightarrow> rlc_am_status_nack list" where
  "range_nacks s 0 x = []"
| "range_nacks s (Suc n) x = sdu_nacks s x @ range_nacks s n ((x + 1) mod ar_mod s)"

lemma range_first:
  assumes "ar_ok s x" "ar_pos s x < ar_pos s y" "ar_pos s y \<le> ar_W s"
  shows "ar_range s x y = insert x (ar_range s ((x + 1) mod ar_mod s) y)" "ar_pos s ((x + 1) mod ar_mod s) = Suc (ar_pos s x)"
proof -
  show p: "ar_pos s ((x + 1) mod ar_mod s) = Suc (ar_pos s x)" using ar_pos_Suc [of s x] assms(2,3) by simp
  have "k = x \<or> Suc (ar_pos s x) \<le> ar_pos s k" if "ar_ok s k" "ar_pos s x \<le> ar_pos s k" for k
    using that ar_pos_inj [of s k x] assms(1) by (cases "ar_pos s k = ar_pos s x") auto
  then show "ar_range s x y = insert x (ar_range s ((x + 1) mod ar_mod s) y)" using assms p by (auto simp: ar_range_def)
qed

lemma ar_range_empty: "ar_pos s y \<le> ar_pos s x \<Longrightarrow> ar_range s x y = {}"
  by (auto simp: ar_range_def)

lemma nack_loop_spec:
  assumes "ar_vars s" "ar_ok s x" "ar_pos s x \<le> ar_pos s y" "ar_pos s y \<le> ar_W s" "ar_pos s y - ar_pos s x \<le> n"
  shows "ar_nack_loop s n x y b = Some (fold push_nack (range_nacks s (ar_pos s y - ar_pos s x) x) b) \<and>
    (\<forall>k \<in> set (range_nacks s (ar_pos s y - ar_pos s x) x). nack_ok (ar_sz s) k \<and> nack_len k = 1 \<and>
      ar_pos s x \<le> ar_pos s (nack_sn k) \<and> ar_pos s (nack_sn k) < ar_pos s y) \<and>
    sorted_wrt (\<lambda>k l. ar_pos s (nack_sn k) \<le> ar_pos s (nack_sn l)) (range_nacks s (ar_pos s y - ar_pos s x) x) \<and>
    \<Union> (nack_missing (ar_mod s) ` set (range_nacks s (ar_pos s y - ar_pos s x) x)) = (SIGMA k : ar_range s x y. ar_lacking s k)"
  using assms(2,3,5)
proof (induction n arbitrary: x b)
  case 0
  then show ?case by (simp add: ar_range_empty)
next
  case (Suc n)
  show ?case
  proof (cases "ar_pos s x < ar_pos s y")
    case False
    then have "ar_pos s y - ar_pos s x = 0" "ar_range s x y = {}" by (auto simp: ar_range_empty)
    then show ?thesis using False by (simp add: ar_mod_base_compare)
  next
    case True
    let ?x = "(x + 1) mod ar_mod s"
    note f = range_first [OF Suc.prems(1) True assms(4)]
    define m where "m = ar_pos s y - ar_pos s ?x"
    have m: "ar_pos s y - ar_pos s x = Suc m" using True f(2) by (simp add: m_def)
    note k = sdu_nacks_spec [OF assms(1) Suc.prems(1), of b]
    have l: "ar_nack_loop s (Suc n) x y b = ar_nack_loop s n ?x y (fold push_nack (sdu_nacks s x) b)"
      using True k by (simp add: ar_mod_base_compare)
    have ih: "ar_nack_loop s n ?x y (fold push_nack (sdu_nacks s x) b) = Some (fold push_nack (range_nacks s m ?x) (fold push_nack (sdu_nacks s x) b)) \<and>
      (\<forall>k \<in> set (range_nacks s m ?x). nack_ok (ar_sz s) k \<and> nack_len k = 1 \<and>
        ar_pos s ?x \<le> ar_pos s (nack_sn k) \<and> ar_pos s (nack_sn k) < ar_pos s y) \<and>
      sorted_wrt (\<lambda>k l. ar_pos s (nack_sn k) \<le> ar_pos s (nack_sn l)) (range_nacks s m ?x) \<and>
      \<Union> (nack_missing (ar_mod s) ` set (range_nacks s m ?x)) = (SIGMA k : ar_range s ?x y. ar_lacking s k)"
      using Suc.IH [of ?x "fold push_nack (sdu_nacks s x) b"] Suc.prems(3) True f(2) unfolding m_def by simp
    have sm: "sorted_wrt (\<lambda>k l. ar_pos s (nack_sn k) \<le> ar_pos s (nack_sn l)) (sdu_nacks s x)"
      using k by (intro sorted_wrt_mono_rel [OF _ sorted_wrt_true]) simp
    have "sorted_wrt (\<lambda>k l. ar_pos s (nack_sn k) \<le> ar_pos s (nack_sn l)) (range_nacks s (Suc m) x)"
      using ih sm k f(2) unfolding range_nacks.simps sorted_wrt_append by fastforce
    moreover have "(SIGMA k : ar_range s x y. ar_lacking s k) = {x} \<times> ar_lacking s x \<union> (SIGMA k : ar_range s ?x y. ar_lacking s k)"
      unfolding f(1) by auto
    ultimately show ?thesis unfolding m l using ih k True f(2) by (auto simp: image_Un Un_assoc)
  qed
qed

section \<open>Reports in order\<close>

text \<open>The NACKs of a report are in the order of their first sequence numbers, and end before \<open>hi\<close>.\<close>

definition nacks_within :: "rlc_rx_am \<Rightarrow> nat \<Rightarrow> rlc_am_status_nack list \<Rightarrow> bool" where
  "nacks_within s hi ns \<longleftrightarrow> sorted_wrt (\<lambda>k l. ar_pos s (nack_sn k) \<le> ar_pos s (nack_sn l)) ns \<and>
    (\<forall>n \<in> set ns. ar_pos s (nack_sn n) + nack_len n \<le> hi)"

lemma nack_next_pos:
  assumes "ar_pos s (nack_sn p) + nack_len p \<le> ar_W s"
  shows "ar_pos s ((nack_sn p + word_of_nat (nack_len p)) mod ar_mod s) = ar_pos s (nack_sn p) + nack_len p"
  using assms am_pos_add [of "ar_sz s" "ar_next s" "nack_sn p" "nack_len p"] am_sizes(2,3) [of "ar_sz s"]
  unfolding ar_pos_facts by (simp add: ar_pos_def)

lemma push_within:
  assumes "sp_ok r" "sp_sn_size r = ar_sz s" "nacks_within s hi (sp_nacks r)" "nack_ok (ar_sz s) n" "nack_len n = 1"
    and "\<forall>l \<in> set (sp_nacks r). ar_pos s (nack_sn l) \<le> ar_pos s (nack_sn n)" "ar_pos s (nack_sn n) < hi" "hi \<le> ar_W s"
  shows "nacks_within s hi (sp_nacks (push_nack n r)) \<and>
    (\<forall>l \<in> set (sp_nacks (push_nack n r)). ar_pos s (nack_sn l) \<le> ar_pos s (nack_sn n))"
  using assms(1,4)[folded assms(2)]
proof (cases rule: push_nack_cases)
  case append
  then show ?thesis using assms(3,5-7) by (auto simp: nacks_within_def sorted_wrt_append)
next
  case (merge xs p)
  note f = merge_nack_fields [OF merge(3,4) assms(4)[folded assms(2)]]
  have "sp_mod_nr r = ar_mod s" using assms(2) by (simp add: sp_mod_nr_def ar_mod_def)
  then have "nack_sn n = (nack_sn p + word_of_nat (nack_len p)) mod ar_mod s" using merge(3) by (simp add: can_be_merged_iff)
  moreover have "ar_pos s (nack_sn p) + nack_len p \<le> hi" using assms(3) merge(1) by (simp add: nacks_within_def)
  ultimately have "ar_pos s (nack_sn n) = ar_pos s (nack_sn p) + nack_len p" using assms(8) nack_next_pos [of s p] by simp
  then show ?thesis using assms(3,5-7) merge(1,2) f(1,3) by (auto simp: nacks_within_def sorted_wrt_append)
qed

lemma push_all_within:
  assumes "sp_ok r" "sp_sn_size r = ar_sz s" "nacks_within s hi (sp_nacks r)" "hi \<le> ar_W s"
    and "\<forall>n \<in> set ns. nack_ok (ar_sz s) n \<and> nack_len n = 1 \<and> ar_pos s (nack_sn n) < hi"
    and "sorted_wrt (\<lambda>k l. ar_pos s (nack_sn k) \<le> ar_pos s (nack_sn l)) ns"
    and "\<forall>l \<in> set (sp_nacks r). \<forall>n \<in> set ns. ar_pos s (nack_sn l) \<le> ar_pos s (nack_sn n)"
  shows "nacks_within s hi (sp_nacks (fold push_nack ns r))"
  using assms(1-3,5-7)
proof (induction ns arbitrary: r)
  case (Cons n ns)
  have p: "nacks_within s hi (sp_nacks (push_nack n r)) \<and>
      (\<forall>l \<in> set (sp_nacks (push_nack n r)). ar_pos s (nack_sn l) \<le> ar_pos s (nack_sn n))"
    using Cons.prems assms(4) by (intro push_within) simp_all
  have "sp_ok (push_nack n r)" using push_keeps_ok(1) [of r n] Cons.prems by simp
  then show ?case using Cons.IH [of "push_nack n r"] Cons.prems p by (fastforce intro: order_trans)
qed simp

section \<open>Refreshing the report\<close>

definition ar_bufs :: "rlc_rx_am \<Rightarrow> bool" where
  "ar_bufs s \<longleftrightarrow> sp_sn_size (ar_status_builder s) = ar_sz s \<and> sp_sn_size (ar_status_cached s) = ar_sz s \<and>
    sp_sn_size (ar_status_shared s) = ar_sz s"

text \<open>A report that tells what the entity lacks below its ACK_SN, and nothing else.\<close>

definition ar_report :: "rlc_rx_am \<Rightarrow> rlc_am_status_pdu \<Rightarrow> bool" where
  "ar_report s r \<longleftrightarrow> sp_ok r \<and> sp_sn_size r = ar_sz s \<and> ar_ok s (sp_ack_sn r) \<and>
    ar_pos s (sp_ack_sn r) \<le> ar_pos s (ar_highest_status s) \<and> nacks_within s (ar_pos s (sp_ack_sn r)) (sp_nacks r) \<and>
    sp_missing r = (SIGMA k : ar_range s (ar_next s) (sp_ack_sn r). ar_lacking s k)"

text \<open>The limit on the number of sequence numbers looked at.\<close>

definition ar_limit_ok :: "rlc_rx_am \<Rightarrow> bool" where
  "ar_limit_ok s \<longleftrightarrow> 0 < unat (ar_max_nof_sn_per_status_report s) \<and> unat (ar_max_nof_sn_per_status_report s) \<le> ar_W s"

lemma stop_sn_spec:
  assumes "ar_vars s" "ar_limit_ok s"
  shows "ar_ok s (ar_stop_sn s)"
    "ar_pos s (ar_stop_sn s) = min (ar_pos s (ar_highest_status s)) (unat (ar_max_nof_sn_per_status_report s))"
proof -
  let ?m = "ar_max_nof_sn_per_status_report s"
  have "ar_next s + ?m = ar_next s + word_of_nat (unat ?m)" by simp
  moreover have "unat ?m < am_M (ar_sz s)" using assms(2) am_sizes(2,3) [of "ar_sz s"] by (simp add: ar_limit_ok_def)
  ultimately have "ar_pos s ((ar_next s + ?m) mod ar_mod s) = unat ?m"
    using am_pos_add [of "ar_sz s" "ar_next s" "ar_next s" "unat ?m"] unfolding ar_pos_facts by (simp add: ar_pos_def)
  then show "ar_ok s (ar_stop_sn s)" "ar_pos s (ar_stop_sn s) = min (ar_pos s (ar_highest_status s)) (unat ?m)"
    using ar_varsD(3) [OF assms(1)] by (simp_all add: ar_stop_sn_def ar_mod_base_compare)
qed

lemma refresh_spec:
  assumes "ar_vars s" "ar_bufs s" "ar_limit_ok s"
  shows "\<exists>r. ar_refresh_status_report s = Some (s\<lparr>ar_status_builder := ar_status_cached s, ar_status_cached := r,
      ar_status_report_size := sp_packed_size r\<rparr>) \<and> ar_report s r \<and> sp_ack_sn r = ar_stop_sn s"
proof -
  note v = ar_varsD [OF assms(1)] and st = stop_sn_spec [OF assms(1,3)]
  have le: "ar_pos s (ar_stop_sn s) \<le> ar_W s" using st(2) v(5,6) by simp
  have fuel: "ar_pos s (ar_stop_sn s) - ar_pos s (ar_next s) \<le> unat (ar_mod s)"
    using am_M_fuel [of s] ar_pos_facts(1) [of s "ar_stop_sn s"] by linarith
  let ?b = "sp_reset (ar_status_builder s)"
  define ns where "ns = range_nacks s (ar_pos s (ar_stop_sn s)) (ar_next s)"
  have l: "ar_nack_loop s (unat (ar_mod s)) (ar_next s) (ar_stop_sn s) ?b = Some (fold push_nack ns ?b)"
    "\<forall>k \<in> set ns. nack_ok (ar_sz s) k \<and> nack_len k = 1 \<and> ar_pos s (nack_sn k) < ar_pos s (ar_stop_sn s)"
    "sorted_wrt (\<lambda>k l. ar_pos s (nack_sn k) \<le> ar_pos s (nack_sn l)) ns"
    "\<Union> (nack_missing (ar_mod s) ` set ns) = (SIGMA k : ar_range s (ar_next s) (ar_stop_sn s). ar_lacking s k)"
    using nack_loop_spec [OF assms(1) v(1) _ le fuel, of ?b] by (simp_all add: ns_def)
  define r where "r = (fold push_nack ns ?b)\<lparr>sp_ack_sn := ar_stop_sn s\<rparr>"
  have "\<forall>n \<in> set ns. nack_ok (sp_sn_size (ar_status_builder s)) n" using l(2) assms(2) by (simp add: ar_bufs_def)
  note p = push_all_reset [OF this]
  have w: "nacks_within s (ar_pos s (ar_stop_sn s)) (sp_nacks (fold push_nack ns ?b))"
    using l(2,3) le assms(2) by (intro push_all_within) (simp_all add: ar_bufs_def nacks_within_def)
  have "ar_report s r" unfolding ar_report_def
    using p w st assms(2) l(4) by (simp add: r_def sp_ok_def sp_mod_nr_def sp_missing_def ar_bufs_def ar_mod_def)
  moreover have "sp_ack_sn r = ar_stop_sn s" by (simp add: r_def)
  ultimately show ?thesis
    by (intro exI [of _ r]) (simp add: ar_refresh_status_report_def l(1) ar_store_status_report_def r_def)
qed

section \<open>Trimming a report\<close>

lemma nack_missing_pos:
  assumes "(k, b) \<in> nack_missing (ar_mod s) n" "ar_pos s (nack_sn n) + nack_len n \<le> ar_W s"
  shows "ar_pos s (nack_sn n) \<le> ar_pos s k"
proof -
  obtain i where i: "k = (nack_sn n + word_of_nat i) mod ar_mod s" "i < nack_len n" using assms(1) by (auto simp: nack_missing_def)
  have "ar_pos s (nack_sn n) + i < am_M (ar_sz s)" using i(2) assms(2) am_sizes(2) [of "ar_sz s"] by simp
  then have "ar_pos s k = ar_pos s (nack_sn n) + i" unfolding i(1) ar_pos_facts using am_pos_add by (simp add: ar_pos_def)
  then show ?thesis by simp
qed

lemma trim_report:
  assumes "ar_vars s" "ar_report s r" "sp_trim mx r = (True, t)"
  shows "ar_ok s (sp_ack_sn t)" "ar_pos s (sp_ack_sn t) \<le> ar_pos s (sp_ack_sn r)"
    "ar_ok s k \<Longrightarrow> ar_pos s k < ar_pos s (sp_ack_sn t) \<Longrightarrow> (k, b) \<in> sp_missing t \<longleftrightarrow> b \<in> ar_lacking s k"
    "(k, b) \<in> sp_missing t \<Longrightarrow> b \<in> ar_lacking s k"
proof -
  have r: "sp_ok r" "sp_sn_size r = ar_sz s" "ar_ok s (sp_ack_sn r)" "nacks_within s (ar_pos s (sp_ack_sn r)) (sp_nacks r)"
    "ar_pos s (sp_ack_sn r) \<le> ar_W s"
    "sp_missing r = (SIGMA k : ar_range s (ar_next s) (sp_ack_sn r). ar_lacking s k)"
    using assms(2) ar_varsD(5,6) [OF assms(1)] unfolding ar_report_def by auto
  obtain ns ms where t: "sp_nacks r = ns @ ms" "t = r\<lparr>sp_nacks := ns, sp_ack_sn := (if ms = [] then sp_ack_sn r else nack_sn (hd ms)),
      sp_packed_size := status_pdu_sizeof_header_ack_sn + nacks_size (sp_sn_size r) ns\<rparr>"
    using trim_result [OF r(1) assms(3)] by blast
  have m: "sp_mod_nr r = ar_mod s" "sp_mod_nr t = ar_mod s" using r(2) t(2) by (simp_all add: sp_mod_nr_def ar_mod_def)
  have mt: "sp_missing r = sp_missing t \<union> \<Union> (nack_missing (ar_mod s) ` set ms)"
    unfolding sp_missing_def m by (simp add: t image_Un)
  have hd: "nack_ok (ar_sz s) (hd ms)" "ar_pos s (nack_sn (hd ms)) \<le> ar_pos s (sp_ack_sn r)" if "ms \<noteq> []"
    using r(1,2,4) that by (cases ms; simp add: t(1) sp_ok_def nacks_within_def)+
  show ok: "ar_ok s (sp_ack_sn t)"
  proof (cases "ms = []")
    case False
    then show ?thesis using hd(1) by (simp add: t(2) nack_ok_def am_sn_ok_iff am_modulus_power)
  qed (use r(3) t(2) in simp)
  show le: "ar_pos s (sp_ack_sn t) \<le> ar_pos s (sp_ack_sn r)" using hd(2) by (simp add: t(2))
  have dropped: "ar_pos s (sp_ack_sn t) \<le> ar_pos s k" if "(k, b) \<in> nack_missing (ar_mod s) n" "n \<in> set ms" for k b n
  proof -
    have "ar_pos s (nack_sn n) + nack_len n \<le> ar_W s" using r(4,5) that(2) unfolding nacks_within_def t(1) by (auto intro: order_trans)
    then have "ar_pos s (nack_sn n) \<le> ar_pos s k" using nack_missing_pos that(1) by blast
    moreover have "ar_pos s (nack_sn (hd ms)) \<le> ar_pos s (nack_sn n)"
      using r(4) that(2) unfolding t(1) nacks_within_def by (cases ms) (auto simp: sorted_wrt_append)
    moreover have "ms \<noteq> []" using that(2) by auto
    ultimately show ?thesis by (simp add: t(2))
  qed
  show "(k, b) \<in> sp_missing t \<longleftrightarrow> b \<in> ar_lacking s k" if k: "ar_ok s k" "ar_pos s k < ar_pos s (sp_ack_sn t)"
  proof -
    have "(k, b) \<in> sp_missing t \<longleftrightarrow> (k, b) \<in> sp_missing r" unfolding mt using dropped k(2) by fastforce
    moreover have "k \<in> ar_range s (ar_next s) (sp_ack_sn r)" using k le by (simp add: ar_range_def)
    ultimately show ?thesis by (simp add: r(6))
  qed
  show "b \<in> ar_lacking s k" if "(k, b) \<in> sp_missing t" using that mt r(6) by blast
qed

end
