(* ===== verification/Rlc_Am_Rx_Props.thy ===== *)
theory Rlc_Am_Rx_Props
  imports Rlc_Am_Status Rlc_Am_Carry
begin

text \<open>
  The properties of the receiving AM entity: it is safe as long as segments end within the range of the offset field, it
  delivers SDUs, and its status reports tell exactly what it lacks, except where the code hands out a stale one.
\<close>

section \<open>Runs\<close>

text \<open>
  \<open>Am_pull_status\<close>: the transmitting entity asks for the report, and trims it to its grant in place.
\<close>

datatype am_rx_event = Am_pdu "nat \<Rightarrow> bool" bytes | Am_reassembly_expiry | Am_prohibit_expiry | Am_pull_status bool u32

definition ar_trim_shared :: "u32 \<Rightarrow> rlc_rx_am \<Rightarrow> rlc_rx_am" where
  "ar_trim_shared grant s = s\<lparr>ar_status_shared := snd (sp_trim grant (ar_status_shared s))\<rparr>"

definition am_rx_step :: "am_rx_event \<Rightarrow> rlc_rx_am \<Rightarrow> rlc_rx_am option" where
  "am_rx_step e s = (case e of
      Am_pdu ok buf \<Rightarrow> ar_handle_pdu ok buf s
    | Am_reassembly_expiry \<Rightarrow> (if ar_reassembly_timer s then ar_reassembly_timer_expires s else Some s)
    | Am_prohibit_expiry \<Rightarrow> Some (if ar_status_prohibit_timer s then ar_status_prohibit_timer_expires s else s)
    | Am_pull_status defer_ok grant \<Rightarrow> Some (ar_trim_shared grant (snd (ar_get_status_pdu defer_ok s))))"

fun am_rx_steps :: "am_rx_event list \<Rightarrow> rlc_rx_am \<Rightarrow> rlc_rx_am option" where
  "am_rx_steps [] s = Some s"
| "am_rx_steps (e # es) s = Option.bind (am_rx_step e s) (am_rx_steps es)"

definition am_rx_run :: "bool \<Rightarrow> rlc_rx_am_config \<Rightarrow> am_rx_event list \<Rightarrow> rlc_rx_am option" where
  "am_rx_run m cfg es = Option.bind (rlc_rx_am_entity m cfg) (am_rx_steps es)"

lemma steps_append: "am_rx_steps (es @ fs) s = Option.bind (am_rx_steps es s) (am_rx_steps fs)"
  by (induction es arbitrary: s) (auto split: Option.bind_split)

text \<open>A PDU whose segment, if it is one, ends within the range of the offset field.\<close>

definition am_pdu_in_range :: "rlc_am_sn_size \<Rightarrow> bytes \<Rightarrow> bool" where
  "am_pdu_in_range sz buf \<longleftrightarrow>
    (case rlc_am_read_data_pdu_header buf sz of
       None \<Rightarrow> True
     | Some h \<Rightarrow> am_si h \<noteq> full_sdu \<longrightarrow> unat (am_so h) + (length buf - am_get_packed_size h) < 2 ^ 16)"

definition am_event_in_range :: "rlc_am_sn_size \<Rightarrow> am_rx_event \<Rightarrow> bool" where
  "am_event_in_range sz e \<longleftrightarrow> (case e of Am_pdu ok buf \<Rightarrow> am_pdu_in_range sz buf | _ \<Rightarrow> True)"

section \<open>Every step keeps the invariant\<close>

definition ar_good :: "rlc_rx_am \<Rightarrow> bool" where
  "ar_good s \<longleftrightarrow> ar_inv s \<and> ar_bufs s \<and> ar_limit_ok s"

lemma goodD: "ar_good s \<Longrightarrow> ar_inv s" "ar_good s \<Longrightarrow> ar_bufs s" "ar_good s \<Longrightarrow> ar_limit_ok s" "ar_good s \<Longrightarrow> ar_vars s"
  by (simp_all add: ar_good_def ar_inv_def)

lemma good_core: "ar_core s t \<Longrightarrow> ar_bufs t \<Longrightarrow> ar_good s \<Longrightarrow> ar_good t"
  using core_inv [of s t] by (simp add: ar_good_def ar_limit_ok_def ar_core_def)

lemma bufs_ops [simp]:
  "ar_bufs (ar_metric f s) = ar_bufs s" "ar_bufs (ar_emit e s) = ar_bufs s" "ar_bufs (s\<lparr>ar_do_status := b\<rparr>) = ar_bufs s"
  "ar_bufs (ar_notify_status_report_changed s) = ar_bufs s"
  by (simp_all add: ar_bufs_def ar_metric_def ar_emit_def ar_notify_status_report_changed_def)

lemma good_same_status: "ar_inv t \<Longrightarrow> ar_same_status s t \<Longrightarrow> ar_good s \<Longrightarrow> ar_good t"
  by (simp add: ar_good_def ar_same_status_def ar_bufs_def ar_limit_ok_def)

text \<open>The branches of \<open>handle_data_pdu\<close>.\<close>

lemma body_good:
  assumes "ar_good s" "am_pdu_in_range (ar_sz s) buf"
  shows "\<exists>c r t. ar_data_pdu_body ok buf s = Some (c, r, t) \<and> ar_good t \<and> ar_same_status s t"
proof (cases "rlc_am_read_data_pdu_header buf (ar_sz s)")
  case None
  have "ar_data_pdu_body ok buf s = Some (False, False, ar_add_malformed_pdus 1 s)" using None by (simp add: ar_data_pdu_body_def)
  moreover have "ar_good (ar_add_malformed_pdus 1 s)" using assms(1) good_core [of s "ar_add_malformed_pdus 1 s"]
    by (simp add: ar_add_malformed_pdus_def goodD(2))
  moreover have "ar_same_status s (ar_add_malformed_pdus 1 s)" by (simp add: ar_add_malformed_pdus_def ar_metric_def ar_same_status_def)
  ultimately show ?thesis by blast
next
  case (Some h)
  have sn: "ar_ok s (am_sn h)" using am_read_sn [OF Some] by (simp add: sn_ok_bits)
  have refl: "ar_same_status s s" by (simp add: ar_same_status_def)
  show ?thesis
  proof (cases "length buf \<le> am_get_packed_size h \<or> \<not> inside_rx_window s (am_sn h) \<or> ar_fully_received s (am_sn h)")
    case True
    then have "\<exists>r. ar_data_pdu_body ok buf s = Some (False, r, s)" using Some by (auto simp: ar_data_pdu_body_def Let_def)
    then show ?thesis using assms(1) refl by blast
  next
    case False
    let ?p = "drop (am_get_packed_size h) buf"
    have "am_in_range h ?p" using assms(2) Some False by (simp add: am_pdu_in_range_def am_in_range_def)
    then obtain t where t: "ar_place ok h ?p s = Some (fst (ar_new_info h ?p (ar_info s (am_sn h))), t)" "ar_inv t" "ar_same_status s t"
      using place_spec [OF goodD(1) [OF assms(1)] sn, of ?p ok] False by (auto simp: ar_mod_base_compare)
    then have "ar_data_pdu_body ok buf s = Some (fst (ar_new_info h ?p (ar_info s (am_sn h))), am_p h \<noteq> 0, t)"
      using Some False by (simp add: ar_data_pdu_body_def Let_def)
    then show ?thesis using good_same_status [OF t(2,3) assms(1)] t(3) by blast
  qed
qed

lemma refresh_good:
  assumes "ar_good s"
  shows "\<exists>t. ar_refresh_status_report s = Some t \<and> ar_core s t \<and> ar_good t \<and> ar_report s (ar_status_cached t) \<and>
    sp_ack_sn (ar_status_cached t) = ar_stop_sn s \<and> ar_out t = ar_out s \<and> ar_do_status t = ar_do_status s \<and>
    ar_status_prohibit_timer_is_running t = ar_status_prohibit_timer_is_running s"
proof -
  obtain r where r: "ar_refresh_status_report s = Some (s\<lparr>ar_status_builder := ar_status_cached s, ar_status_cached := r,
      ar_status_report_size := sp_packed_size r\<rparr>)" "ar_report s r" "sp_ack_sn r = ar_stop_sn s"
    using refresh_spec goodD [OF assms] by blast
  let ?t = "s\<lparr>ar_status_builder := ar_status_cached s, ar_status_cached := r, ar_status_report_size := sp_packed_size r\<rparr>"
  have c: "ar_core s ?t" by (simp add: ar_core_def)
  moreover have "ar_bufs ?t" using goodD(2) [OF assms] r(2) by (simp add: ar_bufs_def ar_report_def)
  ultimately have "ar_good ?t" using good_core assms by blast
  then show ?thesis using r c by (intro exI [of _ ?t]) simp
qed

lemma exit_good:
  assumes "ar_good s"
  shows "\<exists>t. ar_data_pdu_exit c r s = Some t \<and> ar_core s t \<and> ar_good t"
proof -
  obtain u where u: "(if c then ar_refresh_status_report s else Some s) = Some u" "ar_core s u" "ar_good u"
    using refresh_good [OF assms] assms by (cases c) auto
  let ?v = "if r then u\<lparr>ar_do_status := True\<rparr> else u"
  let ?t = "if c \<or> r then ar_notify_status_report_changed ?v else ?v"
  have "ar_core u ?t" using core_trans [of u ?v ?t] by auto
  moreover have "ar_bufs ?t" using goodD(2) [OF u(3)] by simp
  ultimately have "ar_good ?t" "ar_core s ?t" using good_core [OF _ _ u(3)] core_trans [OF u(2)] by blast+
  moreover have "ar_data_pdu_exit c r s = Some ?t" by (simp add: ar_data_pdu_exit_def u(1) Let_def)
  ultimately show ?thesis by blast
qed

lemma pdu_good:
  assumes "ar_good s" "am_pdu_in_range (ar_sz s) buf"
  shows "\<exists>t. ar_handle_pdu ok buf s = Some t \<and> ar_good t \<and> ar_cfg t = ar_cfg s"
proof -
  define u where "u = ar_add_pdus 1 (length buf) s"
  have u: "ar_good u" "ar_cfg u = ar_cfg s" using assms(1) good_core [of s u] by (simp_all add: u_def ar_add_pdus_def goodD(2)) (simp add: ar_metric_def)
  consider (empty) "buf = []" | (control) "buf \<noteq> []" "sp_is_control_pdu buf" | (data) "buf \<noteq> []" "\<not> sp_is_control_pdu buf" by blast
  then show ?thesis
  proof cases
    case empty
    then show ?thesis using u by (simp add: ar_handle_pdu_def u_def)
  next
    case control
    define v where "v = ar_add_ctrl_pdus 1 (word_of_nat (length buf)) u"
    have v: "ar_good v" "ar_cfg v = ar_cfg s" using u good_core [of u v] by (simp_all add: v_def ar_add_ctrl_pdus_def goodD(2)) (simp add: ar_metric_def)
    have "ar_core v (ar_handle_control_pdu buf v)" "ar_bufs (ar_handle_control_pdu buf v) = ar_bufs v"
      by (simp_all add: ar_handle_control_pdu_def split: prod.split)
    then have "ar_good (ar_handle_control_pdu buf v)" "ar_cfg (ar_handle_control_pdu buf v) = ar_cfg s"
      using v good_core [of v "ar_handle_control_pdu buf v"] by (auto simp: goodD(2) ar_core_def)
    then show ?thesis using control by (simp add: ar_handle_pdu_def u_def v_def)
  next
    case data
    obtain c r t where b: "ar_data_pdu_body ok buf u = Some (c, r, t)" "ar_good t" "ar_same_status u t"
      using body_good [of u buf ok] u assms(2) by auto
    obtain v where "ar_data_pdu_exit c r t = Some v" "ar_core t v" "ar_good v" using exit_good [OF b(2)] by blast
    then show ?thesis using data b(1,3) u(2) by (simp add: ar_handle_pdu_def u_def [symmetric] ar_handle_data_pdu_def ar_core_def ar_same_status_def)
  qed
qed

lemma core_report:
  assumes "ar_core s t"
  shows "ar_report t = ar_report s" "ar_stop_sn t = ar_stop_sn s" "ar_lacking t = ar_lacking s"
proof -
  have f: "ar_cfg t = ar_cfg s" "ar_next t = ar_next s" "ar_window t = ar_window s" "ar_highest_status t = ar_highest_status s"
    "ar_max_nof_sn_per_status_report t = ar_max_nof_sn_per_status_report s" using assms by (simp_all add: ar_core_def)
  note b = ar_same_base [OF f(1,2)]
  show l: "ar_lacking t = ar_lacking s" by (simp add: fun_eq_iff ar_lacking_def f)
  show "ar_stop_sn t = ar_stop_sn s" by (simp add: ar_stop_sn_def Let_def f b)
  show "ar_report t = ar_report s" by (simp add: fun_eq_iff ar_report_def nacks_within_def ar_range_def f b l)
qed

text \<open>The expiry of t-Reassembly.\<close>

lemma expiry_spec:
  assumes "ar_good s" "ar_reassembly_timer s"
  shows "\<exists>t. ar_reassembly_timer_expires s = Some t \<and> ar_good t \<and> ar_cfg t = ar_cfg s \<and> ar_next t = ar_next s \<and>
    ar_window t = ar_window s \<and> ar_next_highest t = ar_next_highest s \<and> ar_do_status t \<and>
    ar_pos s (ar_next_status_trigger s) \<le> ar_pos s (ar_highest_status t) \<and>
    (\<forall>k. ar_ok s k \<longrightarrow> ar_pos s (ar_next_status_trigger s) \<le> ar_pos s k \<longrightarrow> ar_pos s k < ar_pos s (ar_highest_status t) \<longrightarrow>
      ar_fully_received s k) \<and>
    \<not> ar_fully_received s (ar_highest_status t) \<and>
    ar_report t (ar_status_cached t) \<and> sp_ack_sn (ar_status_cached t) = ar_stop_sn t \<and>
    (\<not> ar_status_prohibit_timer_is_running s \<longrightarrow> ar_out t = ar_out s @ [Ar_on_status_report_changed]) \<and>
    (ar_status_prohibit_timer_is_running s \<longrightarrow> ar_out t = ar_out s)"
proof -
  let ?s = "s\<lparr>ar_reassembly_timer := False\<rparr>"
  have inv: "ar_vars s" "ar_waits s" "ar_triggered s" using assms by (simp_all add: ar_good_def ar_inv_def)
  note v = ar_varsD [OF inv(1)]
  have b: "ar_pos ?s = ar_pos s" "ar_fully_received ?s = ar_fully_received s" "ar_mod ?s = ar_mod s"
    using ar_same_base [of ?s s] by (simp_all add: ar_fully_received_def fun_eq_iff)
  have vs: "ar_vars ?s" using inv(1) unfolding ar_vars_def b by simp
  have tr: "0 < ar_pos s (ar_next_status_trigger s)" "ar_pos s (ar_next_status_trigger s) \<le> ar_pos s (ar_next_highest s)"
    using inv(3) by (auto simp: ar_triggered_def)
  have valid: "ar_valid_ack_sn ?s (ar_next_status_trigger s)" using tr v(6) by (simp add: ar_mod_base_compare b)
  define y where "y = ar_skip_received (unat (ar_mod s)) (ar_next_status_trigger s) ?s"
  have fuel: "ar_pos s (ar_next_highest s) - ar_pos s (ar_next_status_trigger s) \<le> unat (ar_mod s)"
    using am_M_fuel [of s] ar_pos_facts(1) [of s "ar_next_highest s"] by linarith
  have y: "ar_ok s y" "ar_pos s (ar_next_status_trigger s) \<le> ar_pos s y" "ar_pos s y \<le> ar_pos s (ar_next_highest s)"
    "ar_pos s y < ar_pos s (ar_next_highest s) \<Longrightarrow> \<not> ar_fully_received s y"
    "\<forall>k. ar_ok s k \<longrightarrow> ar_pos s (ar_next_status_trigger s) \<le> ar_pos s k \<longrightarrow> ar_pos s k < ar_pos s y \<longrightarrow> ar_fully_received s k"
    using skip_spec [of ?s "ar_next_status_trigger s" "unat (ar_mod s)"] v(4,6) tr(2) fuel unfolding b by (simp_all add: y_def)
  have nf: "\<not> ar_fully_received s y" using y(3,4) beyond_highest [OF inv(1), of y] by (cases "ar_pos s y < ar_pos s (ar_next_highest s)") auto
  define u where "u = ?s\<lparr>ar_highest_status := y\<rparr>"
  have bu: "ar_pos u = ar_pos s" "ar_fully_received u = ar_fully_received s"
    using ar_same_base [of u s] by (simp_all add: u_def ar_fully_received_def fun_eq_iff)
  have vu: "ar_vars u" using vs y(1,3) unfolding ar_vars_def b bu by (simp add: u_def)
  have wu: "ar_waits u" using inv(2) nf unfolding ar_waits_def bu by (simp add: u_def)
  have "ar_pos u y + 1 < am_M (ar_sz u)" using y(3) v(6) am_sizes(2,4) [of "ar_sz s"] by (simp add: bu) (simp add: u_def)
  then have "ar_pos u (y + 1) \<noteq> 0" unfolding ar_pos_def by (simp add: am_pos_Suc)
  moreover have "\<not> ar_reassembly_timer u" by (simp add: u_def)
  ultimately obtain c z where c: "ar_restart_timer y u = u\<lparr>ar_reassembly_timer := c, ar_next_status_trigger := z\<rparr>" "ar_ok u z"
    "c \<longrightarrow> ar_triggered (ar_restart_timer y u)" using restart_spec [OF vu] by blast
  define w where "w = ar_restart_timer y u"
  have "ar_inv w" by (rule ar_timer_inv [OF vu wu c(2) c(1) [folded w_def] c(3) [folded w_def]])
  moreover have "ar_bufs w" "ar_limit_ok w" using goodD(2,3) [OF assms(1)] c(1) by (simp_all add: w_def u_def ar_bufs_def ar_limit_ok_def)
  ultimately have gw: "ar_good w" by (simp add: ar_good_def)
  obtain r where r: "ar_refresh_status_report w = Some r" "ar_core w r" "ar_good r" "ar_report w (ar_status_cached r)"
    "sp_ack_sn (ar_status_cached r) = ar_stop_sn w" "ar_out r = ar_out w" "ar_do_status r = ar_do_status w"
    "ar_status_prohibit_timer_is_running r = ar_status_prohibit_timer_is_running w" using refresh_good [OF gw] by blast
  define t where "t = ar_notify_status_report_changed (r\<lparr>ar_do_status := True\<rparr>)"
  have ct: "ar_core w t" using core_trans [OF r(2), of t] core_trans [of r "r\<lparr>ar_do_status := True\<rparr>" t] by (simp add: t_def)
  have gt: "ar_good t" using good_core [OF ct] gw goodD(2) [OF r(3)] by (simp add: t_def)
  have "ar_valid_ack_sn ?s y" using y(2,3) tr v(6) by (simp add: ar_mod_base_compare b)
  moreover have "ar_restart_timer y (s\<lparr>ar_reassembly_timer := False, ar_highest_status := y\<rparr>) = w" by (simp add: w_def u_def)
  ultimately have e: "ar_reassembly_timer_expires s = Some t" using valid r(1)
    by (simp add: ar_reassembly_timer_expires_def ar_on_expired_reassembly_timer_def b y_def [symmetric] Let_def t_def)
  have f: "ar_status_cached t = ar_status_cached r" "ar_do_status t" by (simp_all add: t_def ar_notify_status_report_changed_def ar_emit_def)
  have wf: "ar_cfg w = ar_cfg s" "ar_next w = ar_next s" "ar_window w = ar_window s" "ar_next_highest w = ar_next_highest s"
    "ar_highest_status w = y" "ar_out w = ar_out s" "ar_status_prohibit_timer_is_running w = ar_status_prohibit_timer_is_running s"
    unfolding c(1) [folded w_def] by (simp_all add: u_def)
  have "ar_report t (ar_status_cached r) = ar_report w (ar_status_cached r)" "ar_stop_sn t = ar_stop_sn w"
    using core_report [OF ct] by simp_all
  moreover have "ar_out t = ar_out s @ (if ar_status_prohibit_timer_is_running s then [] else [Ar_on_status_report_changed])"
    using r(6,8) wf(6,7) by (simp add: t_def ar_notify_status_report_changed_def ar_status_report_required_def ar_emit_def)
  ultimately show ?thesis using e gt ct r(4,5) f wf y(2,5) nf by (intro exI [of _ t]) (simp add: ar_core_def)
qed

lemma step_good:
  assumes "ar_good s" "am_event_in_range (ar_sz s) e"
  shows "\<exists>t. am_rx_step e s = Some t \<and> ar_good t \<and> ar_cfg t = ar_cfg s"
proof (cases e)
  case (Am_pdu ok buf)
  then show ?thesis using pdu_good [OF assms(1)] assms(2) by (simp add: am_rx_step_def am_event_in_range_def)
next
  case Am_reassembly_expiry
  then show ?thesis using expiry_spec [OF assms(1)] assms(1) by (auto simp: am_rx_step_def)
next
  case Am_prohibit_expiry
  let ?t = "ar_status_prohibit_timer_expires s"
  have "ar_core s ?t" "ar_bufs ?t = ar_bufs s"
    by (simp_all add: ar_status_prohibit_timer_expires_def ar_on_expired_status_prohibit_timer_def ar_notify_status_report_changed_def
        ar_emit_def ar_core_def ar_bufs_def)
  then have "ar_good ?t" "ar_cfg ?t = ar_cfg s" using good_core assms(1) by (auto simp: goodD(2) ar_core_def)
  then show ?thesis using Am_prohibit_expiry assms(1) by (simp add: am_rx_step_def)
next
  case (Am_pull_status d g)
  let ?t = "ar_trim_shared g (snd (ar_get_status_pdu d s))"
  have "sp_sn_size (sp_trim_loop g p) = sp_sn_size p" for p
    by (induction g p rule: sp_trim_loop.induct) (subst sp_trim_loop.simps, auto)
  then have "sp_sn_size (snd (sp_trim g p)) = sp_sn_size p" for p by (simp add: sp_trim_def)
  then have "ar_core s ?t" "ar_bufs ?t = ar_bufs s"
    by (auto simp: ar_trim_shared_def ar_get_status_pdu_def ar_core_def ar_bufs_def Let_def)
  then have "ar_good ?t" "ar_cfg ?t = ar_cfg s" using good_core assms(1) by (auto simp: goodD(2) ar_core_def)
  then show ?thesis using Am_pull_status by (simp add: am_rx_step_def)
qed

lemma steps_good:
  "ar_good s \<Longrightarrow> \<forall>e \<in> set es. am_event_in_range (ar_sz s) e \<Longrightarrow> \<exists>t. am_rx_steps es s = Some t \<and> ar_good t \<and> ar_cfg t = ar_cfg s"
proof (induction es arbitrary: s)
  case (Cons e es)
  obtain u where u: "am_rx_step e s = Some u" "ar_good u" "ar_cfg u = ar_cfg s" using step_good [OF Cons.prems(1), of e] Cons.prems(2) by auto
  then show ?case using Cons.IH [OF u(2)] Cons.prems(2) by simp
qed simp

lemma initial_good:
  assumes "rlc_rx_am_entity m cfg = Some s"
  shows "ar_good s \<and> ar_cfg s = cfg"
proof -
  have f: "ar_cfg s = cfg" "sp_sn_size (ar_status_builder s) = ra_sn_field_length cfg" "sp_sn_size (ar_status_cached s) = ra_sn_field_length cfg"
    "sp_sn_size (ar_status_shared s) = ra_sn_field_length cfg"
    "ar_max_nof_sn_per_status_report s \<le> am_window_size_of (ra_sn_field_length cfg)" "0 < ar_max_nof_sn_per_status_report s"
    using assms am_sizes(3) [of "ra_sn_field_length cfg"]
    by (auto simp: rlc_rx_am_entity_def Let_def rlc_am_status_pdu_new_def am_window_size_of_def am_W_def unat_gt_0 word_gt_0 split: option.splits if_splits)
  then have "ar_limit_ok s" by (simp add: ar_limit_ok_def word_le_nat_alt am_W_def am_window_size_of_def unat_gt_0)
  then show ?thesis using inv_initial [OF assms] f by (simp add: ar_good_def ar_bufs_def)
qed

text \<open>The configurations the constructor accepts.\<close>

definition am_cfg_ok :: "rlc_rx_am_config \<Rightarrow> bool" where
  "am_cfg_ok cfg \<longleftrightarrow> (case ra_max_sn_per_status cfg of None \<Rightarrow> True
    | Some n \<Rightarrow> 0 < n \<and> n \<le> am_window_size_of (ra_sn_field_length cfg))"

lemma entity_some: "am_cfg_ok cfg \<Longrightarrow> \<exists>s. rlc_rx_am_entity m cfg = Some s"
  by (auto simp: am_cfg_ok_def rlc_rx_am_entity_def Let_def split: option.splits)

lemma run_good:
  assumes "am_cfg_ok cfg" "\<forall>e \<in> set es. am_event_in_range (ra_sn_field_length cfg) e"
  shows "\<exists>s. am_rx_run m cfg es = Some s \<and> ar_good s \<and> ar_cfg s = cfg"
proof -
  obtain s where s: "rlc_rx_am_entity m cfg = Some s" using entity_some assms(1) by blast
  then show ?thesis using steps_good [of s es] initial_good [OF s] assms(2) by (simp add: am_rx_run_def)
qed

section \<open>Safety\<close>

text \<open>A bearer for the witnesses.\<close>

definition am_demo_cfg :: rlc_rx_am_config where
  "am_demo_cfg = \<lparr>ra_sn_field_length = am_size12bits, ra_t_reassembly = 10, ra_t_status_prohibit = 10, ra_max_sn_per_status = None\<rparr>"

lemma am_demo_cfg_ok: "am_cfg_ok am_demo_cfg" "ra_sn_field_length am_demo_cfg = am_size12bits"
  by (simp_all add: am_cfg_ok_def am_demo_cfg_def)

text \<open>The SDU with SN 1 has arrived, and the middle of the one with SN 0.\<close>

definition am_demo_events :: "am_rx_event list" where
  "am_demo_events = [Am_pdu (\<lambda>_. True) [0x80, 1, 7], Am_pdu (\<lambda>_. True) [0xb0, 0, 0, 3, 8, 9], Am_reassembly_expiry]"

lemma am_demo_headers:
  "rlc_am_read_data_pdu_header [0x80, 1, 7] am_size12bits =
    Some \<lparr>am_dc = rlc_data, am_p = 0, am_si = full_sdu, am_sn_size = am_size12bits, am_sn = 1, am_so = 0\<rparr>"
  "rlc_am_read_data_pdu_header [0xb0, 0, 0, 3, 8, 9] am_size12bits =
    Some \<lparr>am_dc = rlc_data, am_p = 0, am_si = middle_segment, am_sn_size = am_size12bits, am_sn = 0, am_so = 3\<rparr>"
  by code_simp+

lemma am_demo_in_range: "\<forall>e \<in> set am_demo_events. am_event_in_range (ra_sn_field_length am_demo_cfg) e"
  by (simp add: am_demo_cfg_ok(2) am_demo_events_def am_event_in_range_def am_pdu_in_range_def am_demo_headers am_get_packed_size_def
      rlc_am_pdu_header_max_size_def rlc_am_pdu_header_so_size_def)

text \<open>C25. As long as the segments that arrive end within the range of the 16-bit offset, no assertion of the receiving AM
  entity fails, whatever the PDUs and the order of PDUs, timer expiries and requests for the status report. RX_Next and
  RX_Highest_Status then always wait for data, RX_Next_Highest is at most the window size ahead of RX_Next, and the window
  holds nothing at or beyond it.\<close>

theorem am_rx_run_safe:
  assumes "am_cfg_ok cfg" "\<forall>e \<in> set es. am_event_in_range (ra_sn_field_length cfg) e"
  shows "\<exists>s. am_rx_run m cfg es = Some s \<and>
    ar_mod_base s (ar_highest_status s) \<le> ar_mod_base s (ar_next_highest s) \<and> ar_mod_base s (ar_next_highest s) \<le> ar_window_size s \<and>
    \<not> ar_fully_received s (ar_next s) \<and> \<not> ar_fully_received s (ar_highest_status s) \<and>
    (\<forall>k. has_sn (ar_window s) k \<longrightarrow> ar_mod_base s k < ar_mod_base s (ar_next_highest s))"
proof -
  obtain s where s: "am_rx_run m cfg es = Some s" "ar_good s" using run_good [OF assms] by blast
  have v: "ar_vars s" "ar_waits s" using s(2) by (simp_all add: ar_good_def ar_inv_def)
  have "ar_mod_base s (ar_next_highest s) \<le> ar_window_size s"
    using ar_varsD(6) [OF v(1)] by (simp add: word_le_nat_alt ar_pos_unat am_W_def ar_window_size_def am_window_size_of_def)
  then show ?thesis using s(1) v(2) ar_varsD(5,9) [OF v(1)]
    by (intro exI [of _ s]) (auto simp: ar_mod_base_compare ar_waits_def has_sn_at)
qed

theorem am_rx_run_safe_witness:
  "\<exists>s. am_rx_run False am_demo_cfg am_demo_events = Some s \<and> \<not> ar_fully_received s (ar_highest_status s)"
  using am_rx_run_safe [OF am_demo_cfg_ok(1) am_demo_in_range, of False] by blast

definition am_wrapped_events :: "am_rx_event list" where
  "am_wrapped_events = [Am_pdu (\<lambda>_. True) [0xb0, 0, 0, 20, 1], Am_pdu (\<lambda>_. True) ([0xb0, 0, 0xff, 0xff] @ replicate 10 2),
     Am_pdu (\<lambda>_. True) ([0xb0, 0, 0xff, 0xff] @ replicate 22 3), Am_pdu (\<lambda>_. True) [0x80, 1, 7]]"


section \<open>Delivery\<close>

text \<open>The SDUs delivered so far.\<close>

definition am_sdus :: "am_rx_output list \<Rightarrow> bytes list" where
  "am_sdus out = concat (map (\<lambda>e. case e of Ar_on_new_sdu sdu \<Rightarrow> [sdu] | _ \<Rightarrow> []) out)"

lemma am_sdus_simps [simp]:
  "am_sdus [] = []" "am_sdus (xs @ ys) = am_sdus xs @ am_sdus ys" "am_sdus [Ar_on_new_sdu sdu] = [sdu]"
  "am_sdus [Ar_on_status_report_changed] = []"
  by (simp_all add: am_sdus_def)

text \<open>The SDU after the PDU.\<close>

lemma new_info_carried:
  assumes "am_pdu_carries sz x sdu p" "sdu \<noteq> []" "length sdu < 2 ^ 16" "segs_ok (am_segments i)" "\<forall>t \<in> set (am_segments i). seg_of sdu t"
  defines "j \<equiv> snd (ar_new_info (fst p) (snd p) i)" and "full \<equiv> seg_range (am_segment_of p) \<union> seg_cover (am_segments i) = {0 ..< length sdu}"
  shows "ai_fully_received j \<longleftrightarrow> full" "full \<Longrightarrow> ar_delivered (\<lambda>_. True) j = [Ar_on_new_sdu sdu]"
    "\<not> full \<Longrightarrow> am_segments j = snd (store_segment (am_segment_of p) (am_segments i))"
proof -
  let ?segs = "am_segments i" and ?s = "am_segment_of p"
  have cov: "seg_cover ?segs \<subseteq> {0 ..< length sdu}" using assms(5) by (auto simp: seg_cover_def seg_range_def seg_of_def)
  have "(ai_fully_received j \<longleftrightarrow> full) \<and> (full \<longrightarrow> ar_delivered (\<lambda>_. True) j = [Ar_on_new_sdu sdu]) \<and>
    (\<not> full \<longrightarrow> am_segments j = snd (store_segment ?s ?segs))"
  proof (cases "am_si (fst p) = full_sdu")
    case True
    then have full using carried_range(3) [OF assms(1,2)] cov by (auto simp: full_def)
    then show ?thesis using True assms(1) by (simp add: j_def ar_new_info_def ar_delivered_def am_reassemble_sdu_def am_pdu_carries_def)
  next
    case False
    have s: "seg_of sdu ?s" using assms(1) False by (simp add: am_pdu_carries_def)
    define b where "b = snd (store_segment ?s ?segs)"
    have b: "segs_ok b" "\<forall>t \<in> set b. seg_of sdu t" "seg_cover b = seg_range ?s \<union> seg_cover ?segs"
      using store_all_of [of "[?s]" ?segs sdu] s assms(3-5) by (simp_all add: b_def)
    have inv: "(fst (seg_inventory 0 b) \<longleftrightarrow> seg_cover b = {0 ..< length sdu}) \<and> (fst (seg_inventory 0 b) \<longrightarrow> concat (map seg_payload b) = sdu)"
      using inventory_complete [OF b(1,2), of 0] assms(2,3) by simp
    have j: "j = i\<lparr>ai_data := Segment_set b, ai_fully_received := fst (update_segment_inventory b),
        ai_has_gap := snd (update_segment_inventory b)\<rparr>"
      using False by (simp add: j_def ar_new_info_def b_def am_segment_of_def split: prod.split)
    have "fst (update_segment_inventory b) \<longleftrightarrow> fst (seg_inventory 0 b)" by (simp add: update_segment_inventory_def)
    then have "fst (update_segment_inventory b) \<longleftrightarrow> full" using inv b(3) by (simp add: full_def)
    then show ?thesis using inv b(3)
      by (simp add: j ar_delivered_def am_reassemble_sdu_def reassemble_concat full_def am_segments_def b_def)
  qed
  then show "ai_fully_received j \<longleftrightarrow> full" "full \<Longrightarrow> ar_delivered (\<lambda>_. True) j = [Ar_on_new_sdu sdu]"
    "\<not> full \<Longrightarrow> am_segments j = snd (store_segment ?s ?segs)" by blast+
qed

text \<open>The output of the exit of \<open>handle_data_pdu\<close>.\<close>

lemma exit_out:
  assumes "ar_good s" "ar_data_pdu_exit c r s = Some t"
  shows "am_sdus (ar_out t) = am_sdus (ar_out s)" "ar_core s t" "ar_good t"
proof -
  obtain u where u: "(if c then ar_refresh_status_report s else Some s) = Some u" "ar_out u = ar_out s"
    using refresh_good [OF assms(1)] by (cases c) auto
  show "am_sdus (ar_out t) = am_sdus (ar_out s)" using assms(2) u
    by (auto simp: ar_data_pdu_exit_def Let_def ar_notify_status_report_changed_def ar_emit_def split: if_splits)
  show "ar_core s t" "ar_good t" using exit_good [OF assms(1), of c r] assms(2) by auto
qed

lemma am_receive_carried:
  assumes "ar_good s" "ar_pos s x < ar_W s" "\<not> ar_fully_received s x" "am_pdu_carries (ar_sz s) x sdu p"
    and "sdu \<noteq> []" "length sdu < 2 ^ 16" "\<forall>t \<in> set (am_segments (ar_info s x)). seg_of sdu t"
  defines "full \<equiv> seg_range (am_segment_of p) \<union> seg_cover (am_segments (ar_info s x)) = {0 ..< length sdu}"
  shows "\<exists>t. ar_handle_pdu (\<lambda>_. True) (am_pdu_of p) s = Some t \<and> ar_good t \<and> ar_cfg t = ar_cfg s \<and>
    (full \<longrightarrow> am_sdus (ar_out t) = am_sdus (ar_out s) @ [sdu]) \<and>
    (\<not> full \<longrightarrow> am_sdus (ar_out t) = am_sdus (ar_out s) \<and> ar_pos t x < ar_W t \<and> \<not> ar_fully_received t x \<and>
      am_segments (ar_info t x) = snd (store_segment (am_segment_of p) (am_segments (ar_info s x))))"
proof -
  obtain h pl where p: "p = (h, pl)" by fastforce
  have h: "am_header_ok h" "am_dc h = rlc_data" "am_sn_size h = ar_sz s" "am_sn h = x" using assms(4) by (simp_all add: am_pdu_carries_def p)
  note rg = carried_range [OF assms(4,5)]
  have pl: "pl \<noteq> []" using rg(2) by (simp add: p)
  note rd = am_header_read [OF h(1) pl]
  define u where "u = ar_add_pdus 1 (length (am_pdu_of p)) s"
  have u: "ar_core s u" "ar_good u" "ar_out u = ar_out s" using assms(1) good_core [of s u]
    by (simp_all add: u_def ar_add_pdus_def goodD(2)) (simp add: ar_metric_def)
  have uf: "ar_cfg u = ar_cfg s" "ar_next u = ar_next s" "ar_window u = ar_window s" using u(1) by (simp_all add: ar_core_def)
  have same: "ar_pos u = ar_pos s" "ar_fully_received u = ar_fully_received s" "ar_info u = ar_info s"
    using ar_same_base [OF uf(1,2)] core_fully [OF u(1)] by (simp_all add: fun_eq_iff ar_info_def uf(3))
  have sn: "ar_ok u (am_sn h)" using h(1,3) uf(1) by (simp add: am_header_ok_def sn_ok_bits)
  have rng: "am_in_range h pl" using rg(1) pl assms(6) by (auto simp: am_in_range_def seg_range_def seg_end_def am_segment_of_def p)
  define i where "i = snd (ar_new_info h pl (ar_info u (am_sn h)))"
  have inv: "ar_vars u" using goodD(4) u(2) .
  have sg: "segs_ok (am_segments (ar_info s x))" using info_segments [OF inv, of x] assms(3) same by (simp add: am_segs_ok_def)
  note ni = new_info_carried [OF assms(4-6) sg assms(7)]
  have i: "ai_fully_received i \<longleftrightarrow> full" "full \<Longrightarrow> ar_delivered (\<lambda>_. True) i = [Ar_on_new_sdu sdu]"
    "\<not> full \<Longrightarrow> am_segments i = snd (store_segment (am_segment_of p) (am_segments (ar_info s x)))"
    using ni by (simp_all add: i_def same h(4) p full_def)
  have pre: "ar_pos u (am_sn h) < ar_W u" "\<not> ar_fully_received u (am_sn h)" using assms(2,3) h(4) by (simp_all add: same uf(1))
  obtain t where t: "ar_place (\<lambda>_. True) h pl u = Some (fst (ar_new_info h pl (ar_info u (am_sn h))), t)" "ar_inv t" "ar_same_status u t"
    "ar_out t = ar_out u @ ar_delivered (\<lambda>_. True) i"
    "\<And>k. cm_at (ar_window t) k = (if ar_ok u k \<and> ar_pos u k < ar_pos u (ar_next t) then None
      else ((cm_at (ar_window u))(am_sn h \<mapsto> ar_kept i)) k)"
    "\<And>k. ar_ok u k \<Longrightarrow> ar_pos u k < ar_pos u (ar_next t) \<Longrightarrow> ar_fully_received u k \<or> k = am_sn h \<and> ai_fully_received i"
    using place_spec [OF goodD(1) [OF u(2)] sn pre rng, of "\<lambda>_. True", folded i_def] by blast
  have gt: "ar_good t" by (rule good_same_status [OF t(2,3) u(2)])
  have ct: "ar_cfg t = ar_cfg s" using t(3) uf(1) by (simp add: ar_same_status_def)
  have body: "ar_data_pdu_body (\<lambda>_. True) (am_pdu_of p) u = Some (fst (ar_new_info h pl (ar_info u (am_sn h))), am_p h \<noteq> 0, t)"
    using rd pl pre t(1) by (simp add: ar_data_pdu_body_def uf(1) h(3) [symmetric] am_pdu_of_def p Let_def ar_mod_base_compare)
  obtain v where v: "ar_data_pdu_exit (fst (ar_new_info h pl (ar_info u (am_sn h)))) (am_p h \<noteq> 0) t = Some v" using exit_good [OF gt] by blast
  note x = exit_out [OF gt v]
  have "\<not> sp_is_control_pdu (am_pdu_of p)" using am_header_dc [of h pl] h(2) by (simp add: am_pdu_of_def p)
  moreover have "am_pdu_of p \<noteq> []" using pl by (simp add: am_pdu_of_def p)
  ultimately have e: "ar_handle_pdu (\<lambda>_. True) (am_pdu_of p) s = Some v"
    using body v by (simp add: ar_handle_pdu_def u_def [symmetric] ar_handle_data_pdu_def)
  have vt: "ar_cfg v = ar_cfg t" "ar_next v = ar_next t" "ar_window v = ar_window t" using x(2) by (simp_all add: ar_core_def)
  have nf: "ar_pos v x < ar_W v \<and> \<not> ar_fully_received v x \<and> am_segments (ar_info v x) = am_segments i" if "\<not> full"
  proof -
    have nx: "ar_next t = ar_next u"
    proof (rule ccontr)
      assume "ar_next t \<noteq> ar_next u"
      then have "0 < ar_pos u (ar_next t)"
        using ar_pos_zero [of u "ar_next t"] ar_varsD(1) [OF goodD(4) [OF gt]] ar_varsD(1) [OF inv] ct uf(1) by (cases "ar_pos u (ar_next t) = 0") simp_all
      then have "ar_fully_received u (ar_next u) \<or> ar_next u = am_sn h \<and> ai_fully_received i"
        using t(6) [of "ar_next u"] ar_varsD(1) [OF inv] by simp
      moreover have "ar_waits u" using goodD(1) [OF u(2)] by (simp add: ar_inv_def)
      ultimately show False using i(1) that by (simp add: ar_waits_def)
    qed
    then have at: "cm_at (ar_window v) x = Some (ar_kept i)" using t(5) [of x] by (simp add: vt h(4))
    have "ar_kept i = i" using i(1) that by (simp add: ar_kept_def)
    moreover have "ar_pos v = ar_pos u" using ar_same_base(1) [of v u] vt nx ct uf(1) by simp
    ultimately show ?thesis using at pre(1) i(1) that vt ct uf(1) h(4) by (simp add: fully_at ar_info_def)
  qed
  have "am_sdus (ar_out v) = am_sdus (ar_out s) @ (if full then [sdu] else [])"
    using x(1) t(4) i u(3) by (auto simp: ar_delivered_def)
  then show ?thesis using e x(3) nf vt ct i(3) by (intro exI [of _ v]) simp
qed

text \<open>All PDUs but the one that completes the SDU.\<close>

lemma am_receive_prefix:
  assumes "ar_good s" "ar_pos s x < ar_W s" "\<not> ar_fully_received s x" "am_segments (ar_info s x) = []"
    and "\<forall>p \<in> set ps. am_pdu_carries (ar_sz s) x sdu p" "sdu \<noteq> []" "length sdu < 2 ^ 16"
    and "seg_cover (map am_segment_of ps) \<noteq> {0 ..< length sdu}"
  shows "\<exists>t. am_rx_steps (map (\<lambda>p. Am_pdu (\<lambda>_. True) (am_pdu_of p)) ps) s = Some t \<and> ar_good t \<and> ar_cfg t = ar_cfg s \<and>
    am_sdus (ar_out t) = am_sdus (ar_out s) \<and> ar_pos t x < ar_W t \<and> \<not> ar_fully_received t x \<and>
    (\<forall>q \<in> set (am_segments (ar_info t x)). seg_of sdu q) \<and> seg_cover (am_segments (ar_info t x)) = seg_cover (map am_segment_of ps)"
  using assms(5,8)
proof (induction ps rule: rev_induct)
  case Nil
  then show ?case using assms(1-4) by simp
next
  case (snoc p ps)
  have sub: "seg_range (am_segment_of q) \<subseteq> {0 ..< length sdu}" if "q \<in> set (ps @ [p])" for q
    using carried_range(1) [of "ar_sz s" x sdu q] snoc.prems(1) that assms(6) by blast
  have c: "seg_cover (map am_segment_of (ps @ [p])) = seg_range (am_segment_of p) \<union> seg_cover (map am_segment_of ps)"
    by (auto simp: seg_cover_def)
  have "seg_cover (map am_segment_of ps) \<noteq> {0 ..< length sdu}" using snoc.prems(2) sub [of p] c by auto
  then obtain t where t: "am_rx_steps (map (\<lambda>p. Am_pdu (\<lambda>_. True) (am_pdu_of p)) ps) s = Some t" "ar_good t" "ar_cfg t = ar_cfg s"
    "am_sdus (ar_out t) = am_sdus (ar_out s)" "ar_pos t x < ar_W t" "\<not> ar_fully_received t x"
    "\<forall>q \<in> set (am_segments (ar_info t x)). seg_of sdu q" "seg_cover (am_segments (ar_info t x)) = seg_cover (map am_segment_of ps)"
    using snoc.IH snoc.prems(1) by auto
  have cp: "am_pdu_carries (ar_sz t) x sdu p" using snoc.prems(1) t(3) by simp
  obtain v where v: "ar_handle_pdu (\<lambda>_. True) (am_pdu_of p) t = Some v" "ar_good v" "ar_cfg v = ar_cfg t"
    "am_sdus (ar_out v) = am_sdus (ar_out t)" "ar_pos v x < ar_W v" "\<not> ar_fully_received v x"
    "am_segments (ar_info v x) = snd (store_segment (am_segment_of p) (am_segments (ar_info t x)))"
    using am_receive_carried [OF t(2,5,6) cp assms(6,7) t(7)] snoc.prems(2) c t(8) by auto
  have nf: "am_si (fst p) \<noteq> full_sdu"
  proof
    assume "am_si (fst p) = full_sdu"
    then have "seg_range (am_segment_of p) = {0 ..< length sdu}" by (rule carried_range(3) [OF cp assms(6)])
    moreover have "seg_cover (map am_segment_of ps) \<subseteq> {0 ..< length sdu}" using sub by (force simp: seg_cover_def)
    ultimately show False using snoc.prems(2) c by auto
  qed
  have sg: "segs_ok (am_segments (ar_info t x))" using info_segments [OF goodD(4) [OF t(2)] t(6)] by (simp add: am_segs_ok_def)
  have "\<forall>q \<in> set ([am_segment_of p] @ am_segments (ar_info t x)). seg_of sdu q" using cp nf t(7) by (simp add: am_pdu_carries_def)
  note sa = store_all_of [OF this sg less_imp_le [OF assms(7)]]
  have "\<forall>q \<in> set (am_segments (ar_info v x)). seg_of sdu q" using sa by (simp add: v(7))
  moreover have "seg_cover (am_segments (ar_info v x)) = seg_cover (map am_segment_of (ps @ [p]))"
    using sa t(8) c by (simp add: v(7) del: map_append)
  moreover have "am_rx_steps (map (\<lambda>p. Am_pdu (\<lambda>_. True) (am_pdu_of p)) (ps @ [p])) s = Some v"
    using t(1) v(1) by (simp add: steps_append am_rx_step_def)
  ultimately show ?case using v t(3,4) by simp
qed

text \<open>C24. Delivery: after any run, let the PDUs of an SDU inside the receiving window of which nothing has arrived come in any
  order, as a whole or as segments, overlapping or repeated. The receiving AM entity delivers exactly that SDU, once, with the PDU
  that completes it, and nothing before.\<close>

theorem am_rx_delivers_sdu:
  assumes "am_cfg_ok cfg" "\<forall>e \<in> set es. am_event_in_range (ra_sn_field_length cfg) e" "am_rx_run m cfg es = Some s"
    and "inside_rx_window s x" "\<not> has_sn (ar_window s) x"
    and "\<forall>p \<in> set (ps @ [q]). am_pdu_carries (ra_sn_field_length cfg) x sdu p" "sdu \<noteq> []" "length sdu < 2 ^ 16"
    and "seg_cover (map am_segment_of ps) \<noteq> {0 ..< length sdu}" "seg_cover (map am_segment_of (ps @ [q])) = {0 ..< length sdu}"
  shows "\<exists>t u. am_rx_run m cfg (es @ map (\<lambda>p. Am_pdu (\<lambda>_. True) (am_pdu_of p)) ps) = Some t \<and>
    am_rx_run m cfg (es @ map (\<lambda>p. Am_pdu (\<lambda>_. True) (am_pdu_of p)) (ps @ [q])) = Some u \<and>
    am_sdus (ar_out t) = am_sdus (ar_out s) \<and> am_sdus (ar_out u) = am_sdus (ar_out s) @ [sdu]"
proof -
  have s: "ar_good s" "ar_cfg s = cfg" using run_good [OF assms(1,2), of m] assms(3) by auto
  have w: "ar_pos s x < ar_W s" using assms(4) by (simp add: ar_mod_base_compare)
  have none: "cm_at (ar_window s) x = None" using assms(5) by (simp add: has_sn_at)
  then have x: "\<not> ar_fully_received s x" "am_segments (ar_info s x) = []"
    by (simp_all add: fully_at ar_info_def am_segments_def am_sdu_info_new_def)
  obtain t where t: "am_rx_steps (map (\<lambda>p. Am_pdu (\<lambda>_. True) (am_pdu_of p)) ps) s = Some t" "ar_good t" "ar_cfg t = ar_cfg s"
    "am_sdus (ar_out t) = am_sdus (ar_out s)" "ar_pos t x < ar_W t" "\<not> ar_fully_received t x"
    "\<forall>q \<in> set (am_segments (ar_info t x)). seg_of sdu q" "seg_cover (am_segments (ar_info t x)) = seg_cover (map am_segment_of ps)"
    using am_receive_prefix [OF s(1) w x, of ps sdu] assms(6-9) s(2) by auto
  have cq: "am_pdu_carries (ar_sz t) x sdu q" using assms(6) t(3) s(2) by simp
  have "seg_range (am_segment_of q) \<union> seg_cover (am_segments (ar_info t x)) = {0 ..< length sdu}"
    using assms(10) unfolding t(8) by (auto simp: seg_cover_def)
  then obtain u where u: "ar_handle_pdu (\<lambda>_. True) (am_pdu_of q) t = Some u" "am_sdus (ar_out u) = am_sdus (ar_out t) @ [sdu]"
    using am_receive_carried [OF t(2,5,6) cq assms(7,8) t(7)] by blast
  have "am_rx_run m cfg (es @ fs) = am_rx_steps fs s" for fs
    using assms(3) by (cases "rlc_rx_am_entity m cfg") (simp_all add: am_rx_run_def steps_append)
  then show ?thesis using t(1,4) u by (simp add: steps_append am_rx_step_def)
qed

theorem am_rx_delivers_sdu_witness:
  "\<exists>u. am_rx_run False am_demo_cfg (map (\<lambda>p. Am_pdu (\<lambda>_. True) (am_pdu_of p))
      [(\<lparr>am_dc = rlc_data, am_p = 0, am_si = last_segment, am_sn_size = am_size12bits, am_sn = 5, am_so = 1\<rparr>, [2, 3]),
       (\<lparr>am_dc = rlc_data, am_p = 1, am_si = first_segment, am_sn_size = am_size12bits, am_sn = 5, am_so = 0\<rparr>, [1, 2])]) = Some u \<and>
    am_sdus (ar_out u) = [[1, 2, 3]]"
proof -
  let ?p = "(\<lparr>am_dc = rlc_data, am_p = 0, am_si = last_segment, am_sn_size = am_size12bits, am_sn = 5, am_so = 1\<rparr>, [2, 3 :: byte])"
    and ?q = "(\<lparr>am_dc = rlc_data, am_p = 1, am_si = first_segment, am_sn_size = am_size12bits, am_sn = 5, am_so = 0\<rparr>, [1, 2 :: byte])"
  have r: "\<forall>e \<in> set []. am_event_in_range (ra_sn_field_length am_demo_cfg) e" by simp
  obtain s where s: "rlc_rx_am_entity False am_demo_cfg = Some s" using entity_some [OF am_demo_cfg_ok(1)] by blast
  then have run: "am_rx_run False am_demo_cfg [] = Some s" by (simp add: am_rx_run_def)
  have f: "ar_next s = 0" "ar_window s = am_create_rx_window am_size12bits" "ar_cfg s = am_demo_cfg" "ar_out s = []"
    using s by (auto simp: rlc_rx_am_entity_def am_demo_cfg_def Let_def split: option.splits)
  have w: "inside_rx_window s 5" "\<not> has_sn (ar_window s) 5"
    by (simp_all add: f has_sn_at am_create_rx_window_def inside_rx_window_def ar_mod_base_def ar_window_size_def ar_mod_def
        am_demo_cfg_def am_window_size_of_def am_modulus_def rlc_cardinality_def rlc_window_size_def)
  have c: "\<forall>p \<in> set ([?p] @ [?q]). am_pdu_carries (ra_sn_field_length am_demo_cfg) 5 [1, 2, 3] p"
    by (simp add: am_demo_cfg_ok am_pdu_carries_def am_header_ok_def am_sn_bits_def am_segment_of_def seg_of_def seg_end_def)
  have "0 \<notin> seg_cover (map am_segment_of [?p])" by (simp add: am_segment_of_def seg_range_def seg_end_def)
  moreover have "0 \<in> {0 ..< length [1, 2, 3 :: byte]}" by simp
  ultimately have cov: "seg_cover (map am_segment_of [?p]) \<noteq> {0 ..< length [1, 2, 3 :: byte]}" by metis
  have cov2: "seg_cover (map am_segment_of ([?p] @ [?q])) = {0 ..< length [1, 2, 3 :: byte]}"
    by (auto simp: am_segment_of_def seg_range_def seg_end_def)
  show ?thesis using am_rx_delivers_sdu [OF am_demo_cfg_ok(1) r run w c _ _ cov cov2] f(4) by auto
qed

section \<open>Status reports\<close>

text \<open>C23. A status report is exact: after any run, whatever grant the report is trimmed to, the peer reads back a report that
  fits the grant and in which, for every sequence number from RX_Next up to ACK_SN, exactly the bytes that the entity lacks are
  announced as missing: all of an SDU it holds nothing of, none of a complete SDU, the gaps of any other (and what follows the
  stored data while the last segment is not there). So nothing is acknowledged that is missing in part, and nothing is requested that
  is there.\<close>

theorem am_status_report_exact:
  assumes "am_cfg_ok cfg" "\<forall>e \<in> set es. am_event_in_range (ra_sn_field_length cfg) e" "am_rx_run m cfg es = Some s"
    and "ar_refresh_status_report s = Some u" "sp_trim grant (ar_status_cached u) = (True, t)"
  shows "sp_unpack (sp_pack t) (rlc_am_status_pdu_new (ra_sn_field_length cfg)) = (True, t) \<and>
    word_of_nat (length (sp_pack t)) \<le> grant \<and>
    (\<forall>k b. k < ar_mod s \<and> ar_mod_base s k < ar_mod_base s (sp_ack_sn t) \<longrightarrow> ((k, b) \<in> sp_missing t \<longleftrightarrow> b \<in> ar_lacking s k)) \<and>
    (\<forall>k b. (k, b) \<in> sp_missing t \<longrightarrow> b \<in> ar_lacking s k)"
proof -
  have s: "ar_good s" "ar_cfg s = cfg" using run_good [OF assms(1,2), of m] assms(3) by auto
  have r: "ar_report s (ar_status_cached u)" using refresh_good [OF s(1)] assms(4) by auto
  then have c: "sp_ok (ar_status_cached u)" "sp_sn_size (ar_status_cached u) = ra_sn_field_length cfg" "ar_ok s (sp_ack_sn (ar_status_cached u))"
    using s(2) by (simp_all add: ar_report_def)
  note k = trim_keeps_ok [OF c(1) assms(5)] and tr = trim_report [OF goodD(4) [OF s(1)] r assms(5)]
  have a: "sp_ack_sn t < 2 ^ am_sn_bits (sp_sn_size t)" using tr(1) k(2) c(2) s(2) by (simp add: sn_ok_bits)
  have z: "sp_sn_size (rlc_am_status_pdu_new (ra_sn_field_length cfg)) = sp_sn_size t" using k(2) c(2) by (simp add: rlc_am_status_pdu_new_def)
  have "\<forall>x b. x < ar_mod s \<and> ar_mod_base s x < ar_mod_base s (sp_ack_sn t) \<longrightarrow> ((x, b) \<in> sp_missing t \<longleftrightarrow> b \<in> ar_lacking s x)"
    using tr(3) by (simp add: ar_mod_base_compare am_sn_ok_iff ar_mod_def)
  then show ?thesis using sp_pack_unpack [OF k(1) a z] k(3) tr(4) by simp
qed

theorem am_status_report_exact_witness:
  "\<exists>s u t. am_rx_run False am_demo_cfg am_demo_events = Some s \<and> ar_refresh_status_report s = Some u \<and>
    sp_trim 20 (ar_status_cached u) = (True, t) \<and> sp_unpack (sp_pack t) (rlc_am_status_pdu_new am_size12bits) = (True, t) \<and>
    (\<forall>k b. (k, b) \<in> sp_missing t \<longrightarrow> b \<in> ar_lacking s k)"
proof -
  obtain s where s: "am_rx_run False am_demo_cfg am_demo_events = Some s" "ar_good s"
    using run_good [OF am_demo_cfg_ok(1) am_demo_in_range] by blast
  obtain u where u: "ar_refresh_status_report s = Some u" using refresh_good [OF s(2)] by blast
  have "fst (sp_trim 20 (ar_status_cached u))" by (simp add: sp_trim_def status_pdu_sizeof_header_ack_sn_def)
  then obtain t where t: "sp_trim 20 (ar_status_cached u) = (True, t)" by (cases "sp_trim 20 (ar_status_cached u)") auto
  show ?thesis using am_status_report_exact [OF am_demo_cfg_ok(1) am_demo_in_range s(1) u t] s(1) u t by (auto simp: am_demo_cfg_ok(2))
qed

text \<open>C26. When t-Reassembly expires, RX_Highest_Status moves up to the first SDU at or above RX_Next_Status_Trigger that is not
  complete, a report up to there (or up to the limit of SDUs per report) is ready and is requested, and the transmitting entity is told at once unless the prohibit timer
  runs.\<close>

theorem am_expiry_requests_report:
  assumes "am_cfg_ok cfg" "\<forall>e \<in> set es. am_event_in_range (ra_sn_field_length cfg) e" "am_rx_run m cfg es = Some s"
    and "ar_reassembly_timer s"
  shows "\<exists>t. am_rx_step Am_reassembly_expiry s = Some t \<and> ar_do_status t \<and>
    ar_mod_base s (ar_next_status_trigger s) \<le> ar_mod_base s (ar_highest_status t) \<and>
    (\<forall>k < ar_mod s. ar_mod_base s (ar_next_status_trigger s) \<le> ar_mod_base s k \<and> ar_mod_base s k < ar_mod_base s (ar_highest_status t) \<longrightarrow>
      ar_fully_received s k) \<and> \<not> ar_fully_received s (ar_highest_status t) \<and>
    sp_ack_sn (ar_status_cached t) = ar_stop_sn t \<and>
    ar_out t = ar_out s @ (if ar_status_prohibit_timer_is_running s then [] else [Ar_on_status_report_changed])"
proof -
  have s: "ar_good s" "ar_cfg s = cfg" using run_good [OF assms(1,2), of m] assms(3) by auto
  obtain t where t: "ar_reassembly_timer_expires s = Some t" "ar_good t" "ar_do_status t" "ar_next t = ar_next s" "ar_cfg t = ar_cfg s"
    "ar_pos s (ar_next_status_trigger s) \<le> ar_pos s (ar_highest_status t)"
    "\<forall>k. ar_ok s k \<longrightarrow> ar_pos s (ar_next_status_trigger s) \<le> ar_pos s k \<longrightarrow> ar_pos s k < ar_pos s (ar_highest_status t) \<longrightarrow> ar_fully_received s k"
    "\<not> ar_fully_received s (ar_highest_status t)" "sp_ack_sn (ar_status_cached t) = ar_stop_sn t"
    "\<not> ar_status_prohibit_timer_is_running s \<longrightarrow> ar_out t = ar_out s @ [Ar_on_status_report_changed]"
    "ar_status_prohibit_timer_is_running s \<longrightarrow> ar_out t = ar_out s" using expiry_spec [OF s(1) assms(4)] by blast
  show ?thesis using t assms(4) by (intro exI [of _ t]) (auto simp: am_rx_step_def ar_mod_base_compare am_sn_ok_iff ar_mod_def)
qed

theorem am_expiry_requests_report_witness:
  "\<exists>s t. am_rx_run False am_demo_cfg [Am_pdu (\<lambda>_. True) [0x80, 1, 7]] = Some s \<and> am_rx_step Am_reassembly_expiry s = Some t \<and>
    ar_do_status t \<and> ar_out t = [Ar_on_new_sdu [7], Ar_on_status_report_changed]"
proof -
  have r: "\<forall>e \<in> set [Am_pdu (\<lambda>_. True) [0x80, 1, 7]]. am_event_in_range (ra_sn_field_length am_demo_cfg) e"
    using am_demo_in_range by (simp add: am_demo_events_def)
  have "(case am_rx_run False am_demo_cfg [Am_pdu (\<lambda>_. True) [0x80, 1, 7]] of None \<Rightarrow> False
    | Some s \<Rightarrow> ar_reassembly_timer s \<and> \<not> ar_status_prohibit_timer_is_running s \<and> ar_out s = [Ar_on_new_sdu [7]])" by code_simp
  then obtain s where s: "am_rx_run False am_demo_cfg [Am_pdu (\<lambda>_. True) [0x80, 1, 7]] = Some s" "ar_reassembly_timer s"
    "\<not> ar_status_prohibit_timer_is_running s" "ar_out s = [Ar_on_new_sdu [7]]" by (auto split: option.splits)
  show ?thesis using am_expiry_requests_report [OF am_demo_cfg_ok(1) r s(1,2)] s by auto
qed

text \<open>C28. The report handed out can be stale. \<open>get_status_pdu\<close> swaps the report it hands out with the one it handed out before
  (or the empty one of the constructor), and only a PDU that changes the window refreshes it. So when a report has been handed out
  and then a repeated PDU with the poll bit arrives, a report is requested, and what is handed out is the old buffer, as the
  transmitting entity left it, instead of the current report.\<close>

theorem am_repeated_poll_gets_stale_report:
  fixes s :: rlc_rx_am and d d' :: bool
  assumes "rlc_am_read_data_pdu_header buf (ra_sn_field_length (ar_cfg s)) = Some h" "am_dc h = rlc_data" "am_p h \<noteq> 0"
    and "am_get_packed_size h < length buf" "\<not> inside_rx_window s (am_sn h) \<or> ar_fully_received s (am_sn h)"
  defines "s1 \<equiv> snd (ar_get_status_pdu d s)"
  shows "fst (ar_get_status_pdu d s) = ar_status_cached s \<and>
    (\<exists>s2. ar_handle_pdu ok buf s1 = Some s2 \<and> ar_do_status s2 \<and> fst (ar_get_status_pdu d' s2) = ar_status_shared s)"
proof -
  have s1: "ar_cfg s1 = ar_cfg s" "ar_next s1 = ar_next s" "ar_window s1 = ar_window s" "ar_status_cached s1 = ar_status_shared s"
    by (simp_all add: s1_def ar_get_status_pdu_def Let_def)
  define u where "u = ar_add_pdus 1 (length buf) s1"
  have u: "ar_cfg u = ar_cfg s" "ar_next u = ar_next s" "ar_window u = ar_window s" "ar_status_cached u = ar_status_shared s"
    using s1 by (simp_all add: u_def ar_add_pdus_def ar_metric_def)
  have in_: "inside_rx_window u = inside_rx_window s" "ar_fully_received u = ar_fully_received s"
    using ar_same_base [OF u(1,2)] by (simp_all add: fun_eq_iff inside_rx_window_def ar_fully_received_def u(3))
  have "\<not> sp_is_control_pdu buf"
  proof -
    have dc: "am_dc k = am_dc h" if "rlc_am_read_so k rest = Some h" for k rest
      using that by (auto simp: rlc_am_read_so_def split: if_splits list.splits)
    have "am_dc h = rlc_dc_of_bit (drop_bit 7 (buf ! 0) AND 0x01)"
      using assms(1) by (auto simp: rlc_am_read_data_pdu_header_def Let_def split: if_splits rlc_am_sn_size.splits dest!: dc)
    then show ?thesis using assms(2) by (auto simp: rlc_dc_of_bit_def sp_is_control_pdu_def split: if_splits)
  qed
  moreover have "buf \<noteq> []" using assms(4) by auto
  moreover have "ar_data_pdu_body ok buf u = Some (False, True, u)"
    using assms(1,3-5) by (auto simp: ar_data_pdu_body_def u(1) in_ Let_def)
  ultimately have "ar_handle_pdu ok buf s1 = Some (ar_notify_status_report_changed (u\<lparr>ar_do_status := True\<rparr>))"
    by (simp add: ar_handle_pdu_def u_def [symmetric] ar_handle_data_pdu_def ar_data_pdu_exit_def Let_def)
  then show ?thesis using u(4)
    by (simp add: ar_get_status_pdu_def Let_def ar_notify_status_report_changed_def ar_emit_def)
qed

text \<open>The SDU with SN 0 arrives with a poll, is acknowledged, and arrives again: the second answer is the empty report.\<close>

theorem am_repeated_poll_gets_stale_report_witness:
  "\<exists>s s2. am_rx_run False am_demo_cfg [Am_pdu (\<lambda>_. True) [0xc0, 0, 7]] = Some s \<and> sp_ack_sn (fst (ar_get_status_pdu True s)) = 1 \<and>
    ar_handle_pdu (\<lambda>_. True) [0xc0, 0, 7] (snd (ar_get_status_pdu True s)) = Some s2 \<and> ar_do_status s2 \<and>
    sp_ack_sn (fst (ar_get_status_pdu True s2)) = INVALID_RLC_SN"
proof -
  have "(case am_rx_run False am_demo_cfg [Am_pdu (\<lambda>_. True) [0xc0, 0, 7]] of None \<Rightarrow> False
    | Some s \<Rightarrow> \<not> inside_rx_window s 0 \<and> sp_ack_sn (ar_status_shared s) = INVALID_RLC_SN \<and> sp_ack_sn (ar_status_cached s) = 1 \<and>
        ra_sn_field_length (ar_cfg s) = am_size12bits)" by code_simp
  then obtain s where s: "am_rx_run False am_demo_cfg [Am_pdu (\<lambda>_. True) [0xc0, 0, 7]] = Some s" "\<not> inside_rx_window s 0"
    "sp_ack_sn (ar_status_shared s) = INVALID_RLC_SN" "sp_ack_sn (ar_status_cached s) = 1" "ra_sn_field_length (ar_cfg s) = am_size12bits"
    by (auto split: option.splits)
  let ?h = "\<lparr>am_dc = rlc_data, am_p = 1, am_si = full_sdu, am_sn_size = am_size12bits, am_sn = 0, am_so = 0\<rparr>"
  have h: "rlc_am_read_data_pdu_header [0xc0, 0, 7] (ra_sn_field_length (ar_cfg s)) = Some ?h" unfolding s(5) by code_simp
  show ?thesis using am_repeated_poll_gets_stale_report [OF h, of True "\<lambda>_. True" True] s(1-4) by (auto simp: am_get_packed_size_def)
qed

end
