(* ===== verification/Rlc_Am_Tx_Props.thy ===== *)
theory Rlc_Am_Tx_Props
  imports Rlc_Am_Tx_Status Rlc_Am_Rx_Props
begin

unbundle bit_operations_syntax

text \<open>
  The properties of the transmitting AM entity over its runs: which events keep it alive, what a PDU carries, what a status
  report releases and requests, and that its backlog drains.
\<close>

section \<open>Reports that are read\<close>

text \<open>The sequence numbers as the reader assembles them.\<close>

lemma read_sn12:
  fixes a b :: byte
  shows "am_sn_ok am_size12bits (push_bit 8 (take_bit 4 (ucast a)) OR take_bit 8 (ucast b))"
    "am_sn_ok am_size12bits (push_bit 4 (take_bit 8 (ucast a)) OR take_bit 4 (drop_bit 4 (ucast b)))"
proof -
  have "push_bit 8 (take_bit 4 (ucast a)) OR take_bit 8 (ucast b) < (2 :: u32) ^ 12"
    by (rule take_bit_bound) (auto intro!: bit_word_eqI simp: bit_simps)
  moreover have "push_bit 4 (take_bit 8 (ucast a)) OR take_bit 4 (drop_bit 4 (ucast b)) < (2 :: u32) ^ 12"
    by (rule take_bit_bound) (auto intro!: bit_word_eqI simp: bit_simps)
  ultimately show "am_sn_ok am_size12bits (push_bit 8 (take_bit 4 (ucast a)) OR take_bit 8 (ucast b))"
    "am_sn_ok am_size12bits (push_bit 4 (take_bit 8 (ucast a)) OR take_bit 4 (drop_bit 4 (ucast b)))"
    unfolding sn_ok_bits [symmetric] am_sn_bits_def by simp_all
qed

lemma mask6: "(w :: u32) AND 63 = take_bit 6 w"
  using and_low_mask [of w 6] by simp

lemma read_sn18:
  fixes a b c :: byte
  shows "am_sn_ok am_size18bits (push_bit 14 (take_bit 4 (ucast a)) OR push_bit 6 (take_bit 8 (ucast b)) OR (drop_bit 2 (ucast c) AND 63))"
    "am_sn_ok am_size18bits (push_bit 10 (take_bit 8 (ucast a)) OR push_bit 2 (take_bit 8 (ucast b)) OR take_bit 2 (drop_bit 6 (ucast c)))"
proof -
  have "push_bit 14 (take_bit 4 (ucast a)) OR push_bit 6 (take_bit 8 (ucast b)) OR (drop_bit 2 (ucast c) AND 63) < (2 :: u32) ^ 18"
    unfolding mask6 by (rule take_bit_bound) (auto intro!: bit_word_eqI simp: bit_simps)
  moreover have "push_bit 10 (take_bit 8 (ucast a)) OR push_bit 2 (take_bit 8 (ucast b)) OR take_bit 2 (drop_bit 6 (ucast c)) < (2 :: u32) ^ 18"
    by (rule take_bit_bound) (auto intro!: bit_word_eqI simp: bit_simps)
  ultimately show
    "am_sn_ok am_size18bits (push_bit 14 (take_bit 4 (ucast a)) OR push_bit 6 (take_bit 8 (ucast b)) OR (drop_bit 2 (ucast c) AND 63))"
    "am_sn_ok am_size18bits (push_bit 10 (take_bit 8 (ucast a)) OR push_bit 2 (take_bit 8 (ucast b)) OR take_bit 2 (drop_bit 6 (ucast c)))"
    unfolding sn_ok_bits [symmetric] am_sn_bits_def by simp_all
qed

lemma unpack_ext_sn: "sp_unpack_ext e2 e3 n rest = Some (n', rest') \<Longrightarrow> nack_sn n' = nack_sn n"
  by (auto simp: sp_unpack_ext_def split: if_splits list.splits)

lemma push_wf: "status_wf sz s \<Longrightarrow> am_sn_ok sz (nack_sn n) \<Longrightarrow> status_wf sz (push_nack n s)"
  by (auto simp: status_wf_def push_nack_def merge_nack_def Let_def dest: in_set_butlastD)

lemma unpack_nacks12_wf: "status_wf am_size12bits s \<Longrightarrow> status_wf am_size12bits (snd (sp_unpack_nacks12 e1 rest s))"
proof (induction e1 rest s rule: sp_unpack_nacks12.induct)
  case (1 e1 rest s)
  show ?case
  proof (cases "e1 \<and> (\<exists>b0 b1 r. rest = b0 # b1 # r \<and> b1 AND 0x01 = 0)")
    case True
    then obtain b0 b1 r where r: "rest = b0 # b1 # r" "b1 AND 0x01 = 0" "e1" by blast
    let ?n = "rlc_am_nack_new\<lparr>nack_sn := push_bit 4 (ucast b0 AND 0xff) OR drop_bit 4 (ucast b1 AND 0xf0)\<rparr>"
    have sn: "am_sn_ok am_size12bits (nack_sn ?n)" by (simp add: low_masks read_sn12)
    show ?thesis
    proof (cases "sp_unpack_ext (b1 AND 0x04 \<noteq> 0) (b1 AND 0x02 \<noteq> 0) ?n r")
      case None
      then show ?thesis using r 1(2) unfolding sp_unpack_nacks12.simps [of e1 rest s] by (simp add: Let_def)
    next
      case (Some p)
      obtain n q where p: "p = (n, q)" by fastforce
      have "status_wf am_size12bits (push_nack n s)" using unpack_ext_sn [OF Some [unfolded p]] sn by (intro push_wf 1(2)) (simp only:)
      then show ?thesis using r Some p 1(1) [OF _ r(1) refl _ refl Some p [symmetric]] unfolding sp_unpack_nacks12.simps [of e1 rest s]
        by (simp add: Let_def)
    qed
  next
    case False
    then show ?thesis using 1(2) unfolding sp_unpack_nacks12.simps [of e1 rest s] by (auto split: list.splits)
  qed
qed

lemma unpack_nacks18_wf: "status_wf am_size18bits s \<Longrightarrow> status_wf am_size18bits (snd (sp_unpack_nacks18 e1 rest s))"
proof (induction e1 rest s rule: sp_unpack_nacks18.induct)
  case (1 e1 rest s)
  show ?case
  proof (cases "e1 \<and> (\<exists>b0 b1 b2 r. rest = b0 # b1 # b2 # r \<and> b2 AND 0x07 = 0)")
    case True
    then obtain b0 b1 b2 r where r: "rest = b0 # b1 # b2 # r" "b2 AND 0x07 = 0" "e1" by blast
    let ?n = "rlc_am_nack_new\<lparr>nack_sn := push_bit 10 (ucast b0 AND 0xff) OR push_bit 2 (ucast b1 AND 0xff) OR
      drop_bit 6 (ucast b2 AND 0xc0)\<rparr>"
    have sn: "am_sn_ok am_size18bits (nack_sn ?n)" by (simp add: low_masks read_sn18)
    show ?thesis
    proof (cases "sp_unpack_ext (b2 AND 0x10 \<noteq> 0) (b2 AND 0x08 \<noteq> 0) ?n r")
      case None
      then show ?thesis using r 1(2) unfolding sp_unpack_nacks18.simps [of e1 rest s] by (simp add: Let_def)
    next
      case (Some p)
      obtain n q where p: "p = (n, q)" by fastforce
      have "status_wf am_size18bits (push_nack n s)" using unpack_ext_sn [OF Some [unfolded p]] sn by (intro push_wf 1(2)) (simp only:)
      then show ?thesis using r Some p 1(1) [OF _ r(1) refl refl _ refl Some p [symmetric]] unfolding sp_unpack_nacks18.simps [of e1 rest s]
        by (simp add: Let_def)
    qed
  next
    case False
    then show ?thesis using 1(2) unfolding sp_unpack_nacks18.simps [of e1 rest s] by (auto split: list.splits)
  qed
qed

text \<open>C18. Whatever bytes the peer sends: a status PDU that is read without error contains sequence numbers of the range of the
  bearer only, in its ACK_SN and in every NACK, merged or not.\<close>

theorem am_unpacked_report_typed:
  assumes "sp_unpack pdu (rlc_am_status_pdu_new sz) = (True, st)"
  shows "sp_ack_sn st < am_modulus sz \<and> (\<forall>n \<in> set (sp_nacks st). nack_sn n < am_modulus sz)"
proof -
  have "status_wf sz st"
  proof (cases sz)
    case am_size12bits
    then have "sp_unpack_12bit pdu (rlc_am_status_pdu_new sz) = (True, st)" using assms by (simp add: sp_unpack_def rlc_am_status_pdu_new_def)
    then obtain e rest r where "sp_unpack_nacks12 e rest r = (True, st)" "status_wf am_size12bits r"
      by (auto simp: sp_unpack_12bit_def Let_def low_masks read_sn12 sp_reset_def status_wf_def split: if_splits)
    then show ?thesis using am_size12bits unpack_nacks12_wf [of r e rest] by simp
  next
    case am_size18bits
    then have "sp_unpack_18bit pdu (rlc_am_status_pdu_new sz) = (True, st)" using assms by (simp add: sp_unpack_def rlc_am_status_pdu_new_def)
    then obtain e rest r where "sp_unpack_nacks18 e rest r = (True, st)" "status_wf am_size18bits r"
      by (auto simp: sp_unpack_18bit_def Let_def low_masks read_sn18 sp_reset_def status_wf_def split: if_splits)
    then show ?thesis using am_size18bits unpack_nacks18_wf [of r e rest] by simp
  qed
  then show ?thesis by (simp add: status_wf_def am_sn_ok_iff)
qed

text \<open>ACK_SN 3, a NACK for 1 and 2.\<close>

theorem am_unpacked_report_typed_witness:
  "sp_ack_sn (snd (sp_unpack [0, 3, 0x80, 0, 0x12, 2] (rlc_am_status_pdu_new am_size12bits))) < 4096"
proof -
  have "sp_unpack [0, 3, 0x80, 0, 0x12, 2] (rlc_am_status_pdu_new am_size12bits) =
    (True, snd (sp_unpack [0, 3, 0x80, 0, 0x12, 2] (rlc_am_status_pdu_new am_size12bits)))" by code_simp
  then show ?thesis using am_unpacked_report_typed by (fastforce simp: am_modulus_def rlc_cardinality_def)
qed
section \<open>Runs\<close>

text \<open>
  What can happen to the entity: its own operations, with the state of the receiving entity of the bearer at that time
  where the operation asks for it (any state at all).
\<close>

datatype am_tx_event =
    Tx_sdu bool bytes bool
  | Tx_discard bool u32
  | Tx_pull bool nat rlc_rx_am
  | Tx_status_arrives bool rlc_am_status_pdu
  | Tx_status_changed bool
  | Tx_run_status bool rlc_rx_am
  | Tx_run_clear
  | Tx_run_update rlc_rx_am
  | Tx_poll_expiry rlc_rx_am
  | Tx_stop

definition am_tx_step :: "am_tx_event \<Rightarrow> rlc_tx_am \<Rightarrow> rlc_tx_am option" where
  "am_tx_step e s = (case e of
      Tx_sdu ok buf is_retx \<Rightarrow> Some (at_handle_sdu ok buf is_retx s)
    | Tx_discard ok sn \<Rightarrow> Some (at_discard_sdu ok sn s)
    | Tx_pull ok grant rx \<Rightarrow> map_option (\<lambda>(pdu, rx, t). t) (at_pull_pdu ok grant rx s)
    | Tx_status_arrives ok st \<Rightarrow> Some (at_on_status_pdu ok st s)
    | Tx_status_changed ok \<Rightarrow> Some (at_on_status_report_changed ok s)
    | Tx_run_status ok rx \<Rightarrow> at_run_status ok rx s
    | Tx_run_clear \<Rightarrow> Some (at_run_clear s)
    | Tx_run_update rx \<Rightarrow> Some (at_run_update rx s)
    | Tx_poll_expiry rx \<Rightarrow> (if at_poll_retransmit_timer s then at_on_expired_poll_retransmit_timer rx s else Some s)
    | Tx_stop \<Rightarrow> Some (at_stop s))"

text \<open>
  The events that are covered: SDUs of the sizes PDCP builds, reports as the reader of status PDUs delivers them, and no report
  that NACKs TX_Next before any of its SDU has been sent, or acknowledges it before all of it has.
\<close>

definition am_tx_allowed :: "am_tx_event \<Rightarrow> rlc_tx_am \<Rightarrow> bool" where
  "am_tx_allowed e s = (case e of
      Tx_sdu ok buf is_retx \<Rightarrow> am_sdu_fits buf
    | Tx_status_arrives ok st \<Rightarrow> status_wf (at_sz s) st
    | Tx_run_status ok rx \<Rightarrow> (case at_status_tasks s of [] \<Rightarrow> True
        | st # rest \<Rightarrow> fst (at_accept_status st s) \<longrightarrow> \<not> at_nacks_unsent s st \<and> \<not> at_acks_partial s st)
    | _ \<Rightarrow> True)"

inductive am_tx_reach :: "bool \<Rightarrow> bool \<Rightarrow> rlc_tx_am_config \<Rightarrow> rlc_tx_am \<Rightarrow> bool" for m srb cfg where
  am_tx_initial: "rlc_tx_am_entity m srb cfg = Some s \<Longrightarrow> am_tx_reach m srb cfg s"
| am_tx_next: "am_tx_reach m srb cfg s \<Longrightarrow> am_tx_allowed e s \<Longrightarrow> am_tx_step e s = Some t \<Longrightarrow> am_tx_reach m srb cfg t"

section \<open>Every step keeps the invariant\<close>

lemma at_view_queue:
  assumes "at_inv s" "at_view t = at_view (s\<lparr>at_queue := at_queue t\<rparr>)" "\<forall>x \<in> set (sq_queue (at_queue t)). am_sdu_fits (sdu_buf x)"
  shows "at_inv t"
proof -
  let ?u = "s\<lparr>at_queue := at_queue t\<rparr>"
  have e: "at_sz ?u = at_sz s" "at_pos ?u = at_pos s" "at_n ?u = at_n s" "at_live ?u = at_live s" "at_sdu ?u = at_sdu s"
    by (simp_all add: at_sz_def at_pos_def at_n_def at_live_def at_sdu_def fun_eq_iff)
  have "at_inv ?u" using assms(1,3) e
    by (simp add: at_inv_def at_vars_def at_win_def at_rtx_def at_inputs_def retx_ok_def at_info_ok_def)
  then show ?thesis using at_view_eq(1) [OF assms(2)] by simp
qed

lemma at_handle_sdu_inv:
  assumes "at_inv s" "am_sdu_fits buf"
  shows "at_inv (at_handle_sdu ok buf is_retx s)"
proof -
  let ?x = "\<lparr>sdu_buf = buf, sdu_is_retx = (if at_is_srb s \<and> is_retx then False else is_retx),
    sdu_pdcp_sn = get_pdcp_sn buf (ta_pdcp_sn_len (at_cfg s)) (at_is_srb s)\<rparr>"
  obtain b q where w: "sq_write ?x (at_queue s) = (b, q)" by fastforce
  let ?t = "at_handle_sdu ok buf is_retx s"
  have v: "at_view ?t = at_view (s\<lparr>at_queue := q\<rparr>)" using w by (auto simp: at_handle_sdu_def Let_def)
  have q: "sq_queue (at_queue ?t) = sq_queue q" using at_view_fields(7) [OF v] by simp
  have "set (sq_queue q) \<subseteq> insert ?x (set (sq_queue (at_queue s)))" using queue_contents(1) [OF w] by auto
  then have "\<forall>x \<in> set (sq_queue (at_queue ?t)). am_sdu_fits (sdu_buf x)"
    using at_invD(4) [OF assms(1)] assms(2) unfolding q at_inputs_def by auto
  moreover have "at_view ?t = at_view (s\<lparr>at_queue := at_queue ?t\<rparr>)" using v q by (simp add: at_view_def)
  ultimately show ?thesis using at_view_queue [OF assms(1)] by blast
qed

lemma discard_sdu_view: "at_view (at_discard_sdu ok sn s) = at_view s"
proof -
  obtain b q where d: "sq_try_discard sn (at_queue s) = (b, q)" by fastforce
  then have "at_view (at_discard_sdu ok sn s) = at_view (s\<lparr>at_queue := q\<rparr>)" by (auto simp: at_discard_sdu_def Let_def)
  then show ?thesis using queue_contents(2) [OF d] by (simp add: at_view_def)
qed

text \<open>What a pull does, one case per source of the PDU.\<close>

definition at_pull_case :: "nat \<Rightarrow> rlc_rx_am \<Rightarrow> rlc_tx_am \<Rightarrow> bytes \<Rightarrow> rlc_tx_am \<Rightarrow> bool" where
  "at_pull_case g rx s pdu t \<longleftrightarrow>
    (if ar_status_report_required rx then at_view t = at_view s
     else case rq_abs (at_retx_queue s) of
       r # rs \<Rightarrow> at_next t = at_next s \<and> at_window t = at_window s \<and> at_sn_under_segmentation t = at_sn_under_segmentation s \<and>
         (if g \<le> get_retx_expected_hdr_len s r then pdu = [] \<and> at_retx_queue t = at_retx_queue s
          else \<exists>n. n = min (unat (rx_length r)) (g - get_retx_expected_hdr_len s r) \<and>
            at_piece s (rx_sn r) (at_sdu s (rx_sn r)) (unat (rx_so r)) n pdu \<and> rq_abs (at_retx_queue t) = retx_rest r n @ rs)
     | [] \<Rightarrow> at_retx_queue t = at_retx_queue s \<and>
         (if at_sn_under_segmentation s = at_next s then
            (if g \<le> head_max_size s then pdu = [] \<and> t = s
             else \<exists>i n. ti_sdu i = at_sdu s (at_next s) \<and> at_extends s i t \<and> 0 < at_sent s (at_next s) \<and>
               n = min (length (at_sdu s (at_next s)) - at_sent s (at_next s)) (g - head_max_size s) \<and>
               (at_sn_under_segmentation t = INVALID_RLC_SN \<longleftrightarrow> at_sent s (at_next s) + n = length (at_sdu s (at_next s))) \<and>
               unat (ti_next_so i) = at_sent s (at_next s) + n \<and>
               at_piece s (at_next s) (at_sdu s (at_next s)) (at_sent s (at_next s)) n pdu)
          else if g \<le> head_min_size s \<or> is_tx_window_full s \<or> \<not> fst (sq_read rlc_sdu_empty (at_queue s))
            then pdu = [] \<and> at_next t = at_next s \<and> at_window t = at_window s \<and> at_sn_under_segmentation t = at_sn_under_segmentation s
          else \<exists>x \<in> set (sq_queue (at_queue s)). \<exists>i n. ti_sdu i = sdu_buf x \<and> ti_pdcp_sn i = sdu_pdcp_sn x \<and> at_extends s i t \<and>
            n = min (length (sdu_buf x)) (g - head_min_size s) \<and>
            (at_sn_under_segmentation t = INVALID_RLC_SN \<longleftrightarrow> n = length (sdu_buf x)) \<and>
            (at_sn_under_segmentation t \<noteq> INVALID_RLC_SN \<longrightarrow> unat (ti_next_so i) = n) \<and>
            at_piece s (at_next s) (sdu_buf x) 0 n pdu))"

lemma empty_read: "sq_is_empty q \<Longrightarrow> \<not> fst (sq_read x q)"
  by (subst sq_read.simps) (simp add: sq_is_empty_def)
lemma pull_new:
  assumes "at_inv s" "\<not> ar_status_report_required rx" "rq_abs (at_retx_queue s) = []" "at_sn_under_segmentation s \<noteq> at_next s"
  shows "\<exists>pdu t. at_pull_pdu ok g rx s = Some (pdu, rx, t) \<and> at_inv t \<and> at_cfg t = at_cfg s \<and> at_next_ack t = at_next_ack s \<and>
    at_pull_case g rx s pdu t"
proof -
  note v = at_invD(1) [OF assms(1)] and rt = at_invD(3) [OF assms(1), unfolded at_rtx_def]
  have e: "rq_empty (at_retx_queue s)" using rq_empty_spec rt assms(3) by blast
  have u: "at_sn_under_segmentation s = INVALID_RLC_SN" using at_under [OF v] assms(4) by simp
  then have su: "s\<lparr>at_sn_under_segmentation := INVALID_RLC_SN\<rparr> = s" by simp
  show ?thesis
  proof (cases "sq_is_empty (at_queue s)")
    case True
    have "at_pull_pdu ok g rx s = Some ([], rx, s\<lparr>at_sn_under_segmentation := INVALID_RLC_SN\<rparr>)"
      using True assms(2) e u by (simp add: at_pull_pdu_def)
    then have "at_pull_pdu ok g rx s = Some ([], rx, s)" unfolding su .
    moreover have "\<not> fst (sq_read rlc_sdu_empty (at_queue s))" using empty_read [OF True] .
    ultimately show ?thesis using assms by (simp add: at_pull_case_def)
  next
    case False
    obtain pdu t where b: "at_build_new_pdu g s = (pdu, t)" by fastforce
    have "at_pull_pdu ok g rx s = (case at_build_new_pdu g (s\<lparr>at_sn_under_segmentation := INVALID_RLC_SN\<rparr>) of (pdu, t) \<Rightarrow> Some (pdu, rx, t))"
      using assms(2) e u False by (simp add: at_pull_pdu_def)
    then have "at_pull_pdu ok g rx s = Some (pdu, rx, t)" unfolding su b by simp
    moreover note n = new_spec [OF assms(1) u b]
    have "at_pull_case g rx s pdu t" using n assms(2-4) u unfolding at_pull_case_def by auto
    ultimately show ?thesis using n by blast
  qed
qed

lemma pull_continued:
  assumes "at_inv s" "\<not> ar_status_report_required rx" "rq_abs (at_retx_queue s) = []" "at_sn_under_segmentation s = at_next s"
  shows "\<exists>pdu t. at_pull_pdu ok g rx s = Some (pdu, rx, t) \<and> at_inv t \<and> at_cfg t = at_cfg s \<and> at_next_ack t = at_next_ack s \<and>
    at_pull_case g rx s pdu t"
proof -
  note v = at_invD(1) [OF assms(1)] and w = at_invD(2) [OF assms(1)] and rt = at_invD(3) [OF assms(1), unfolded at_rtx_def]
  have e: "rq_empty (at_retx_queue s)" using rq_empty_spec rt assms(3) by blast
  have live: "at_live s (at_next s)" using v assms(4) by (simp add: at_live_def at_vars_def)
  obtain i where i: "cm_at (at_window s) (at_next s) = Some i" "at_sdu s (at_next s) = ti_sdu i" using at_win_at [OF w live] by blast
  have so: "at_sent s (at_next s) = unat (ti_next_so i)" using i assms(4) by (simp add: at_sent_def at_info_def)
  have ni: "at_next s \<noteq> INVALID_RLC_SN" using v invalid_not_ok [of "at_sz s"] by (auto simp: at_vars_def)
  obtain pdu t where b: "at_build_continued_sdu_segment g i s = (pdu, t)" by fastforce
  then have "at_pull_pdu ok g rx s = Some (pdu, rx, t)" using assms(2,4) e i(1) ni by (simp add: at_pull_pdu_def)
  moreover note c = continued_spec [OF assms(1,4) i(1) b]
  have "at_pull_case g rx s pdu t"
  proof (cases "g \<le> head_max_size s")
    case True
    then have "pdu = [] \<and> t = s" using c by auto
    then show ?thesis using True assms(2-4) by (simp add: at_pull_case_def)
  next
    case False
    then show ?thesis using c assms(2-4) unfolding at_pull_case_def i(2) so by auto
  qed
  ultimately show ?thesis using c by blast
qed

lemma pull_retx:
  assumes "at_inv s" "\<not> ar_status_report_required rx" "rq_abs (at_retx_queue s) = r # rs"
  shows "\<exists>pdu t. at_pull_pdu ok g rx s = Some (pdu, rx, t) \<and> at_inv t \<and> at_cfg t = at_cfg s \<and> at_next_ack t = at_next_ack s \<and>
    at_pull_case g rx s pdu t"
proof -
  note rt = at_invD(3) [OF assms(1), unfolded at_rtx_def]
  have e: "\<not> rq_empty (at_retx_queue s)" using rq_empty_spec [of "at_retx_queue s"] rt assms(3) by simp
  obtain pdu t where b: "at_build_retx_pdu g s = Some (pdu, t)" "at_inv t" "at_cfg t = at_cfg s" "at_next_ack t = at_next_ack s"
    "at_next t = at_next s" "at_window t = at_window s" "at_sn_under_segmentation t = at_sn_under_segmentation s"
    "pdu = [] \<and> g \<le> get_retx_expected_hdr_len s r \<and> at_retx_queue t = at_retx_queue s \<or>
     (\<exists>n. n = min (unat (rx_length r)) (g - get_retx_expected_hdr_len s r) \<and> get_retx_expected_hdr_len s r < g \<and>
        at_piece s (rx_sn r) (at_sdu s (rx_sn r)) (unat (rx_so r)) n pdu \<and> rq_abs (at_retx_queue t) = retx_rest r n @ rs)"
    using retx_spec [OF assms(1,3), of g] by blast
  have "at_pull_pdu ok g rx s = Some (pdu, rx, t)" using assms(2) e b(1) by (simp add: at_pull_pdu_def)
  moreover have "at_pull_case g rx s pdu t"
  proof (cases "g \<le> get_retx_expected_hdr_len s r")
    case True
    then have "pdu = [] \<and> at_retx_queue t = at_retx_queue s" using b(8) by auto
    then show ?thesis using True assms(2,3) b(5-7) by (simp add: at_pull_case_def)
  next
    case False
    then show ?thesis using b(5-8) assms(2,3) by (simp add: at_pull_case_def)
  qed
  ultimately show ?thesis using b(2-4) by blast
qed

lemma pull_status_view:
  assumes "at_build_status ok g rx s = (pdu, rx', t)"
  shows "at_view t = at_view s"
  using assms by (auto simp: at_build_status_def Let_def split: prod.splits if_splits)

lemma pull_spec:
  assumes "at_inv s"
  shows "\<exists>pdu rx' t. at_pull_pdu ok g rx s = Some (pdu, rx', t) \<and> at_inv t \<and> at_cfg t = at_cfg s \<and> at_pull_case g rx s pdu t"
proof (cases "ar_status_report_required rx")
  case True
  obtain pdu rx' t where b: "at_build_status ok g rx s = (pdu, rx', t)" by (metis prod_cases3)
  note sv = pull_status_view [OF b]
  then show ?thesis using True b at_view_eq(1) [OF sv] at_view_fields(1) [OF sv] assms by (simp add: at_pull_pdu_def at_pull_case_def)
next
  case False
  show ?thesis
  proof (cases "rq_abs (at_retx_queue s)")
    case Nil
    then show ?thesis using pull_new [OF assms False Nil, of ok g] pull_continued [OF assms False Nil, of ok g] by blast
  next
    case (Cons r rs)
    then show ?thesis using pull_retx [OF assms False Cons, of ok g] by blast
  qed
qed

lemma valid_nacks_fst: "fst (at_valid_nacks ack ns s) \<longleftrightarrow> (\<forall>n \<in> set ns. fst (at_valid_nack ack n s))"
proof (induction ns)
  case (Cons n ns)
  obtain b t where v: "at_valid_nack ack n s = (b, t)" by fastforce
  then have "b \<Longrightarrow> t = s" using valid_nack_spec(3) by blast
  then show ?case using Cons.IH v by (cases b) auto
qed simp

lemma accept_tasks: "fst (at_accept_status st (s\<lparr>at_status_tasks := r\<rparr>)) = fst (at_accept_status st s)"
proof -
  have "fst (at_valid_nack ack n (s\<lparr>at_status_tasks := r\<rparr>)) = fst (at_valid_nack ack n s)" for ack n
    by (simp add: at_valid_nack_def tx_mod_base_def at_mod_def inside_tx_window_def at_window_size_def)
  then show ?thesis
    by (simp add: at_accept_status_def valid_nacks_fst at_valid_ack_sn_def tx_mod_base_def at_mod_def at_window_size_def)
qed

text \<open>The invariant of every step, and the configuration.\<close>

lemma step_inv:
  assumes "at_inv s" "am_tx_allowed e s"
  shows "\<exists>t. am_tx_step e s = Some t \<and> at_inv t \<and> at_cfg t = at_cfg s"
proof (cases e)
  case (Tx_sdu ok buf is_retx)
  have "at_cfg (at_handle_sdu ok buf is_retx s) = at_cfg s"
  proof -
    obtain b q where "sq_write \<lparr>sdu_buf = buf, sdu_is_retx = (if at_is_srb s \<and> is_retx then False else is_retx),
      sdu_pdcp_sn = get_pdcp_sn buf (ta_pdcp_sn_len (at_cfg s)) (at_is_srb s)\<rparr> (at_queue s) = (b, q)" by fastforce
    then have v: "at_view (at_handle_sdu ok buf is_retx s) = at_view (s\<lparr>at_queue := q\<rparr>)" by (auto simp: at_handle_sdu_def Let_def)
    show ?thesis using at_view_fields(1) [OF v] by simp
  qed
  then show ?thesis using Tx_sdu assms at_handle_sdu_inv [OF assms(1)] by (simp add: am_tx_step_def am_tx_allowed_def)
next
  case (Tx_discard ok sn)
  then show ?thesis using at_view_eq(1) [OF discard_sdu_view] at_view_fields(1) [OF discard_sdu_view] assms(1)
    by (simp add: am_tx_step_def)
next
  case (Tx_pull ok g rx)
  then show ?thesis using pull_spec [OF assms(1), of ok g rx] by (auto simp: am_tx_step_def)
next
  case (Tx_status_arrives ok st)
  let ?t = "at_on_status_pdu ok st s"
  have wf: "status_wf (at_sz s) st" using assms(2) Tx_status_arrives by (simp add: am_tx_allowed_def)
  have e: "at_sz ?t = at_sz s" "at_pos ?t = at_pos s" "at_n ?t = at_n s" "at_live ?t = at_live s" "at_sdu ?t = at_sdu s"
    by (simp_all add: at_on_status_pdu_def at_sz_def at_pos_def at_n_def at_live_def at_sdu_def fun_eq_iff)
  have "at_inv ?t" using assms(1) wf e
    by (auto simp: at_inv_def at_vars_def at_win_def at_rtx_def at_inputs_def retx_ok_def at_info_ok_def at_on_status_pdu_def)
  then show ?thesis using Tx_status_arrives by (simp add: am_tx_step_def at_on_status_pdu_def)
next
  case (Tx_run_status ok rx)
  show ?thesis
  proof (cases "at_status_tasks s")
    case Nil
    then show ?thesis using Tx_run_status assms(1) by (simp add: am_tx_step_def at_run_status_def)
  next
    case (Cons st rest)
    let ?s = "s\<lparr>at_status_tasks := rest\<rparr>"
    have e: "at_sz ?s = at_sz s" "at_pos ?s = at_pos s" "at_n ?s = at_n s" "at_live ?s = at_live s" "at_sdu ?s = at_sdu s"
      by (simp_all add: at_sz_def at_pos_def at_n_def at_live_def at_sdu_def fun_eq_iff)
    have inv: "at_inv ?s" using assms(1) e Cons
      by (auto simp: at_inv_def at_vars_def at_win_def at_rtx_def at_inputs_def retx_ok_def at_info_ok_def)
    have wf: "status_wf (at_sz ?s) st" using at_invD(4) [OF assms(1)] Cons e(1) by (simp add: at_inputs_def)
    have run: "am_tx_step e s = at_handle_status_pdu ok st rx ?s"
      using Tx_run_status Cons by (simp add: am_tx_step_def at_run_status_def)
    obtain b u where a: "at_accept_status st ?s = (b, u)" by fastforce
    note ac = accept_spec [OF at_invD(1) [OF inv] a]
    show ?thesis
    proof (cases b)
      case False
      then have "am_tx_step e s = Some u" using run a by (simp add: at_handle_status_pdu_def)
      then show ?thesis using at_view_eq(1) [OF ac(1)] at_view_fields(1) [OF ac(1)] inv by simp
    next
      case True
      then have acc: "at_accept_status st ?s = (True, ?s)" using ac(3) a by simp
      have "fst (at_accept_status st s) = fst (at_accept_status st ?s)" by (rule accept_tasks [symmetric])
      then have "\<not> at_nacks_unsent ?s st \<and> \<not> at_acks_partial ?s st"
        using assms(2) Tx_run_status Cons acc by (simp add: am_tx_allowed_def at_nacks_unsent_def at_acks_partial_def at_mod_def)
      then show ?thesis using handle_status_spec [OF inv wf acc, of ok rx] run by fastforce
    qed
  qed
next
  case (Tx_poll_expiry rx)
  then show ?thesis using expiry_inv [OF assms(1), of rx] assms(1) by (auto simp: am_tx_step_def at_same_def)
next
  case (Tx_run_update rx)
  have "at_view (at_run_update rx s) = at_view s" by simp
  from at_view_eq(1) [OF this] at_view_fields(1) [OF this] show ?thesis using Tx_run_update assms(1) by (simp add: am_tx_step_def)
next
  case Tx_run_clear
  have "at_view (at_run_clear s) = at_view s" by (simp add: at_run_clear_def at_view_def)
  from at_view_eq(1) [OF this] at_view_fields(1) [OF this] show ?thesis using Tx_run_clear assms(1) by (simp add: am_tx_step_def)
next
  case (Tx_status_changed ok)
  have "at_view (at_on_status_report_changed ok s) = at_view s" by (simp add: at_on_status_report_changed_def)
  from at_view_eq(1) [OF this] at_view_fields(1) [OF this] show ?thesis using Tx_status_changed assms(1) by (simp add: am_tx_step_def)
next
  case Tx_stop
  have "at_view (at_stop s) = at_view s" by (simp add: at_stop_def at_view_def)
  from at_view_eq(1) [OF this] at_view_fields(1) [OF this] show ?thesis using Tx_stop assms(1) by (simp add: am_tx_step_def)
qed

lemma initial_inv:
  assumes "rlc_tx_am_entity m srb cfg = Some s"
  shows "at_inv s" "at_cfg s = cfg"
proof -
  have f: "at_cfg s = cfg" "at_next_ack s = 0" "at_next s = 0" "at_sn_under_segmentation s = INVALID_RLC_SN" "sq_queue (at_queue s) = []"
    "at_status_tasks s = []" "at_window s = at_create_tx_window (ta_sn_field_length cfg)"
    "at_retx_queue s = rq_new (unat (am_window_size_of (ta_sn_field_length cfg)))"
    using assms by (auto simp: rlc_tx_am_entity_def Let_def sq_new_def split: if_splits)
  then show "at_cfg s = cfg" by simp
  let ?sz = "ta_sn_field_length cfg"
  have sz: "at_sz s = ?sz" "am_sn_ok ?sz 0" "INVALID_RLC_SN \<noteq> 0" by (simp_all add: at_sz_def f am_sn_ok_def INVALID_RLC_SN_def)
  have n: "at_n s = 0" by (simp add: at_n_def at_pos_def f)
  have W: "unat (am_window_size_of ?sz) = am_W ?sz" by (simp add: am_window_size_of_def am_W_def)
  have "at_vars s" using am_sizes(3) [of ?sz] sz by (simp add: at_vars_def f n)
  moreover have "at_win s" using am_sizes(3) [of ?sz] sz n W by (simp add: at_win_def f at_create_tx_window_def cm_wf_new cm_at_new at_live_def)
  moreover have "am_W ?sz < 2 ^ 32" using am_sizes(1,2) [of ?sz] by (cases ?sz) simp_all
  then have "at_rtx s" using W sz rq_new_spec [of "am_W ?sz"] by (simp add: at_rtx_def f) (simp add: rq_new_def)
  moreover have "at_inputs s" by (simp add: at_inputs_def f)
  ultimately show "at_inv s" by (simp add: at_inv_def)
qed

lemma reach_inv: "am_tx_reach m srb cfg s \<Longrightarrow> at_inv s \<and> at_cfg s = cfg"
proof (induction rule: am_tx_reach.induct)
  case (am_tx_initial s)
  then show ?case using initial_inv by blast
next
  case (am_tx_next s e t)
  then show ?case using step_inv [of s e] by auto
qed
section \<open>Safety\<close>

text \<open>A bearer for the witnesses: two SDUs of four bytes wait; a grant of four bytes has taken two bytes of the first.\<close>

definition at_demo_cfg :: rlc_tx_am_config where
  "at_demo_cfg = \<lparr>ta_sn_field_length = am_size12bits, ta_pdcp_sn_len = size12bits, ta_t_poll_retx = 10, ta_max_retx_thresh = 4,
    ta_poll_pdu = 4, ta_poll_byte = 100, ta_queue_size = 8, ta_queue_size_bytes = 100, ta_max_window = 0\<rparr>"

definition at_demo_rx :: rlc_rx_am where
  "at_demo_rx = the (rlc_rx_am_entity False am_demo_cfg)"

definition at_demo_new :: rlc_tx_am where
  "at_demo_new = the (rlc_tx_am_entity False False at_demo_cfg)"

definition at_demo :: rlc_tx_am where
  "at_demo = at_handle_sdu True [0x80, 2, 4, 5] False (at_handle_sdu True [0x80, 1, 2, 3] False at_demo_new)"

definition at_demo_cut :: rlc_tx_am where
  "at_demo_cut = the (am_tx_step (Tx_pull True 4 at_demo_rx) at_demo)"

lemma at_demo_new_some: "rlc_tx_am_entity False False at_demo_cfg = Some at_demo_new"
  by (simp add: at_demo_new_def rlc_tx_am_entity_def at_demo_cfg_def Let_def)

lemma reach_the:
  assumes "am_tx_reach m srb cfg s" "am_tx_allowed e s"
  shows "am_tx_reach m srb cfg (the (am_tx_step e s))" "am_tx_step e s = Some (the (am_tx_step e s))"
proof -
  obtain t where "am_tx_step e s = Some t" using step_inv reach_inv assms by metis
  then show "am_tx_reach m srb cfg (the (am_tx_step e s))" "am_tx_step e s = Some (the (am_tx_step e s))"
    using am_tx_next [OF assms] by simp_all
qed

lemma reach_sdu: "am_tx_reach m srb cfg s \<Longrightarrow> am_sdu_fits buf \<Longrightarrow> am_tx_reach m srb cfg (at_handle_sdu ok buf is_retx s)"
  using am_tx_next [of m srb cfg s "Tx_sdu ok buf is_retx"] by (simp add: am_tx_allowed_def am_tx_step_def)

lemma at_demo_reach: "am_tx_reach False False at_demo_cfg at_demo_new" "am_tx_reach False False at_demo_cfg at_demo"
  "am_tx_reach False False at_demo_cfg at_demo_cut"
proof -
  show n: "am_tx_reach False False at_demo_cfg at_demo_new" by (rule am_tx_initial [OF at_demo_new_some])
  show d: "am_tx_reach False False at_demo_cfg at_demo" unfolding at_demo_def by (intro reach_sdu n) (simp_all add: am_sdu_fits_def)
  show "am_tx_reach False False at_demo_cfg at_demo_cut" unfolding at_demo_cut_def
    by (rule reach_the(1) [OF d]) (simp add: am_tx_allowed_def)
qed

text \<open>C11. In every state that a transmitting AM entity reaches, every event succeeds (no assertion of the code fails), unless a
  report NACKs TX_Next before any of its SDU has been sent, or acknowledges it before all of it has. TX_Next then stays within the
  window, only the SDU at TX_Next is ever under segmentation, the window holds exactly the SDUs from TX_Next_Ack up to TX_Next (TX_Next itself while under
  segmentation), and every pending retransmission is a non-empty stretch of an SDU in the window.\<close>

theorem am_tx_run_safe:
  assumes "am_tx_reach m srb cfg s" "am_tx_allowed e s"
  shows "\<exists>t. am_tx_step e s = Some t \<and> at_cfg t = cfg \<and> tx_mod_base t (at_next t) \<le> at_window_size t \<and>
    at_sn_under_segmentation t \<in> {INVALID_RLC_SN, at_next t} \<and>
    (\<forall>k < at_mod t. has_sn (at_window t) k \<longleftrightarrow>
      tx_mod_base t k < tx_mod_base t (at_next t) \<or> k = at_next t \<and> at_sn_under_segmentation t = at_next t) \<and>
    (\<forall>r \<in> set (rq_abs (at_retx_queue t)). has_sn (at_window t) (rx_sn r) \<and> 0 < unat (rx_length r) \<and>
      unat (rx_so r) + unat (rx_length r) \<le> length (at_sdu t (rx_sn r)))"
proof -
  obtain t where t: "am_tx_step e s = Some t" "at_inv t" "at_cfg t = cfg" using step_inv reach_inv assms by metis
  note v = at_invD(1) [OF t(2)] and w = at_invD(2) [OF t(2)] and r = at_invD(3) [OF t(2)]
  have h: "has_sn (at_window t) k \<longleftrightarrow> at_live t k" for k using w by (simp add: at_win_def has_sn_at)
  have "at_n t \<le> am_W (at_sz t)" using v by (simp add: at_vars_def split: if_splits)
  then show ?thesis using t v r
    by (intro exI [of _ t]) (simp add: h at_rtx_def retx_ok_def at_live_def tx_mod_base_compare am_sn_ok_iff at_mod_sz at_n_def at_vars_def)
qed

theorem am_tx_run_safe_witness:
  "\<exists>t. am_tx_step (Tx_pull True 4 at_demo_rx) at_demo = Some t \<and> at_sn_under_segmentation t \<in> {INVALID_RLC_SN, at_next t}"
  using am_tx_run_safe [OF at_demo_reach(2), of "Tx_pull True 4 at_demo_rx"] by (auto simp: am_tx_allowed_def)


section \<open>What a PDU carries\<close>

lemma piece_facts:
  assumes "at_piece s k sdu so n pdu" "am_sn_ok (at_sz s) k" "length sdu < 2 ^ 15"
  obtains p where "pdu = am_pdu_of p" "am_pdu_carries (at_sz s) k sdu p" "unat (am_so (fst p)) = so" "length (snd p) = n"
    "length pdu = (if so = 0 then head_min_size s else head_max_size s) + n"
proof -
  obtain p where p: "p < 2" "pdu = am_pdu_of (piece_header (at_sz s) p k so n (length sdu), take n (drop so sdu))" "0 < n" "so + n \<le> length sdu"
    using assms(1) by (auto simp: at_piece_def)
  have l: "length sdu < 2 ^ 16" using assms(3) by simp
  note w = piece_written [OF assms(2) p(1,3,4) l]
  show thesis by (rule that [OF p(2)]) (use w piece_length [OF assms] in simp_all)
qed

text \<open>Where the bytes of the next data PDU come from: sequence number and offset.\<close>

definition at_source :: "rlc_tx_am \<Rightarrow> u32 \<times> nat" where
  "at_source s = (case rq_abs (at_retx_queue s) of
      r # rs \<Rightarrow> (rx_sn r, unat (rx_so r))
    | [] \<Rightarrow> (at_next s, if at_sn_under_segmentation s = at_next s then at_sent s (at_next s) else 0))"

lemma extends_sent:
  assumes "at_inv s" "at_inv t" "at_extends s i t" "at_sdu t (at_next s) = ti_sdu i"
    and "at_sn_under_segmentation t = INVALID_RLC_SN \<longleftrightarrow> m = length (ti_sdu i)"
    and "at_sn_under_segmentation t \<noteq> INVALID_RLC_SN \<Longrightarrow> unat (ti_next_so i) = m"
  shows "at_sent t (at_next s) = m"
proof -
  have "cm_at (at_window t) (at_next s) = Some i" using assms(3) by (simp add: at_extends_def)
  then have i: "at_info t (at_next s) = i" by (simp add: at_info_def)
  have ni: "at_next s \<noteq> INVALID_RLC_SN" using at_invD(1) [OF assms(1)] invalid_not_ok [of "at_sz s"] by (auto simp: at_vars_def)
  show ?thesis
  proof (cases "at_sn_under_segmentation t = INVALID_RLC_SN")
    case True
    then show ?thesis using assms(4,5) ni by (simp add: at_sent_def)
  next
    case False
    then have "at_sn_under_segmentation t = at_next s" using assms(3) by (simp add: at_extends_def)
    then show ?thesis using False assms(6) i by (simp add: at_sent_def)
  qed
qed

lemma pull_data:
  assumes "at_inv s" "\<not> ar_status_report_required rx" "at_pull_pdu ok g rx s = Some (pdu, rx', t)" "pdu \<noteq> []"
  defines "k \<equiv> fst (at_source s)" and "so \<equiv> snd (at_source s)"
  shows "rx' = rx \<and> (\<exists>n. at_piece s k (at_sdu t k) so n pdu \<and> am_sn_ok (at_sz s) k \<and> length (at_sdu t k) < 2 ^ 15 \<and>
    (if so = 0 then head_min_size s else head_max_size s) + n \<le> g \<and> at_sz t = at_sz s \<and>
    (at_sdu s k = at_sdu t k \<or> \<not> at_live s k \<and> at_sdu t k \<in> sdu_buf ` set (sq_queue (at_queue s))) \<and>
    (case rq_abs (at_retx_queue s) of
       r # rs \<Rightarrow> n \<le> unat (rx_length r) \<and> rq_abs (at_retx_queue t) = retx_rest r n @ rs
     | [] \<Rightarrow> rq_abs (at_retx_queue t) = [] \<and> at_sent t k = so + n))"
proof -
  obtain pdu' rx'' t' where o: "at_pull_pdu ok g rx s = Some (pdu', rx'', t')" "at_inv t'" "at_cfg t' = at_cfg s" "at_pull_case g rx s pdu' t'"
    using pull_spec [OF assms(1), of ok g rx] by blast
  then have e: "pdu' = pdu" "t' = t" using assms(3) by simp_all
  note t = o(2-4) [unfolded e]
  have rx: "rx' = rx" using assms(2,3) by (auto simp: at_pull_pdu_def Let_def split: if_splits option.splits prod.splits)
  note v = at_invD(1) [OF assms(1)] and w = at_invD(2) [OF assms(1)] and rt = at_invD(3) [OF assms(1), unfolded at_rtx_def]
  have wt: "at_win t" using at_invD(2) [OF t(1)] .
  have sz: "at_sz t = at_sz s" using t(2) by (simp add: at_sz_def)
  have len: "length (at_sdu t j) < 2 ^ 15" for j
    using wt by (cases "cm_at (at_window t) j") (auto simp: at_sdu_def at_win_def at_info_ok_def am_sdu_fits_def)
  have next_ok: "am_sn_ok (at_sz s) (at_next s)" using v by (simp add: at_vars_def)
  show ?thesis
  proof (cases "rq_abs (at_retx_queue s)")
    case (Cons r rs)
    note c = t(3) [unfolded at_pull_case_def]
    have hl: "\<not> g \<le> get_retx_expected_hdr_len s r" using c assms(2,4) Cons by auto
    define n where "n = min (unat (rx_length r)) (g - get_retx_expected_hdr_len s r)"
    have p: "at_window t = at_window s" "at_piece s (rx_sn r) (at_sdu s (rx_sn r)) (unat (rx_so r)) n pdu" "rq_abs (at_retx_queue t) = retx_rest r n @ rs"
      using c assms(2) Cons hl by (simp_all add: n_def)
    have src: "k = rx_sn r" "so = unat (rx_so r)" by (simp_all add: k_def so_def at_source_def Cons)
    have "retx_ok s r" using rt Cons by simp
    then have "am_sn_ok (at_sz s) k" using src by (simp add: retx_ok_def at_live_def)
    moreover have "at_sdu t k = at_sdu s k" using p(1) by (simp add: at_sdu_def)
    moreover have "get_retx_expected_hdr_len s r = (if so = 0 then head_min_size s else head_max_size s)"
      using src by (simp add: get_retx_expected_hdr_len_def unat_eq_0)
    ultimately show ?thesis using rx p src sz len [of k] hl Cons by (intro conjI exI [of _ n]) (simp_all add: n_def)
  next
    case Nil
    note c = t(3) [unfolded at_pull_case_def]
    have k: "k = at_next s" by (simp add: k_def at_source_def Nil)
    have q: "rq_abs (at_retx_queue t) = []" using c assms(2) Nil by simp
    show ?thesis
    proof (cases "at_sn_under_segmentation s = at_next s")
      case True
      have g: "\<not> g \<le> head_max_size s" using c assms(2,4) Nil True by auto
      have so: "so = at_sent s (at_next s)" by (simp add: so_def at_source_def Nil True)
      obtain i n where i: "ti_sdu i = at_sdu s (at_next s)" "at_extends s i t" "0 < so" "n = min (length (at_sdu s (at_next s)) - so) (g - head_max_size s)"
        "at_sn_under_segmentation t = INVALID_RLC_SN \<longleftrightarrow> so + n = length (at_sdu s (at_next s))" "unat (ti_next_so i) = so + n"
        "at_piece s (at_next s) (at_sdu s (at_next s)) so n pdu"
        using c assms(2) Nil True g unfolding so by auto
      have "at_sdu t k = ti_sdu i" using i(2) unfolding k by (simp add: at_sdu_def at_extends_def)
      moreover have "at_sent t k = so + n" using extends_sent [OF assms(1) t(1) i(2)] i(1,5,6) calculation unfolding k by simp
      ultimately show ?thesis using rx i(3,4,7) q sz len [of k] next_ok g Nil unfolding k by (intro conjI exI [of _ n]) (simp_all add: i(1))
    next
      case False
      have so: "so = 0" by (simp add: so_def at_source_def Nil False)
      have g: "\<not> (g \<le> head_min_size s \<or> is_tx_window_full s \<or> \<not> fst (sq_read rlc_sdu_empty (at_queue s)))"
        using c assms(2,4) Nil False by (simp split: if_splits)
      obtain x i n where x: "x \<in> set (sq_queue (at_queue s))" "ti_sdu i = sdu_buf x" "at_extends s i t"
        "n = min (length (sdu_buf x)) (g - head_min_size s)" "at_sn_under_segmentation t = INVALID_RLC_SN \<longleftrightarrow> n = length (sdu_buf x)"
        "at_sn_under_segmentation t \<noteq> INVALID_RLC_SN \<longrightarrow> unat (ti_next_so i) = n" "at_piece s (at_next s) (sdu_buf x) 0 n pdu"
        using c assms(2) Nil False g by auto
      have "at_sdu t k = ti_sdu i" using x(3) unfolding k by (simp add: at_sdu_def at_extends_def)
      moreover have "at_sent t k = n" using extends_sent [OF assms(1) t(1) x(3)] x(2,5,6) calculation unfolding k by simp
      moreover have "\<not> at_live s k" using False k by (simp add: at_live_def at_n_def)
      moreover have "head_min_size s + n \<le> g" using g x(4) by linarith
      ultimately show ?thesis using rx x k q so sz len [of k] next_ok Nil by (intro conjI exI [of _ n]) simp_all
    qed
  qed
qed



text \<open>C19. A grant beyond the longest header is used: when no status report is due there is a data PDU, unless there is no retransmission, no SDU under
  segmentation, and either the window is full or no SDU is left in the queue that has not been discarded.\<close>

theorem am_tx_pull_progress:
  assumes "am_tx_reach m srb cfg s" "\<not> ar_status_report_required rx" "head_max_size s < g"
  shows "\<exists>pdu t. at_pull_pdu ok g rx s = Some (pdu, rx, t) \<and>
    (pdu = [] \<longleftrightarrow> rq_abs (at_retx_queue s) = [] \<and> at_sn_under_segmentation s \<noteq> at_next s \<and>
      (is_tx_window_full s \<or> \<not> fst (sq_read rlc_sdu_empty (at_queue s))))"
proof -
  have s: "at_inv s" using reach_inv [OF assms(1)] by simp
  have ne: "at_piece s k sdu so n pdu \<Longrightarrow> pdu \<noteq> []" for k sdu so n pdu by (auto simp: at_piece_def am_pdu_of_def)
  have g: "\<not> g \<le> head_max_size s" "\<not> g \<le> head_min_size s" "\<not> g \<le> get_retx_expected_hdr_len s r" for r
    using assms(3) by (simp_all add: head_sizes(3) get_retx_expected_hdr_len_def)
  have o: "\<exists>pdu t. at_pull_pdu ok g rx s = Some (pdu, rx, t) \<and> at_pull_case g rx s pdu t"
    using pull_retx [OF s assms(2)] pull_new [OF s assms(2)] pull_continued [OF s assms(2)] by (metis neq_Nil_conv)
  then obtain pdu t where o: "at_pull_pdu ok g rx s = Some (pdu, rx, t)" "at_pull_case g rx s pdu t" by blast
  note c = o(2) [unfolded at_pull_case_def]
  have "pdu = [] \<longleftrightarrow> rq_abs (at_retx_queue s) = [] \<and> at_sn_under_segmentation s \<noteq> at_next s \<and>
      (is_tx_window_full s \<or> \<not> fst (sq_read rlc_sdu_empty (at_queue s)))"
  proof (cases "rq_abs (at_retx_queue s)")
    case (Cons r rs)
    then have "\<exists>n. at_piece s (rx_sn r) (at_sdu s (rx_sn r)) (unat (rx_so r)) n pdu" using c assms(2) g by (simp split: if_splits) blast
    then have "pdu \<noteq> []" using ne by blast
    then show ?thesis using Cons by simp
  next
    case Nil
    show ?thesis
    proof (cases "at_sn_under_segmentation s = at_next s")
      case True
      then have "\<exists>n. at_piece s (at_next s) (at_sdu s (at_next s)) (at_sent s (at_next s)) n pdu"
        using c assms(2) g Nil by (simp split: if_splits) blast
      then show ?thesis using ne True by blast
    next
      case False
      show ?thesis
      proof (cases "is_tx_window_full s \<or> \<not> fst (sq_read rlc_sdu_empty (at_queue s))")
        case True
        then show ?thesis using c assms(2) Nil False by simp
      next
        case room: False
        then have h: "\<not> (g \<le> head_min_size s \<or> is_tx_window_full s \<or> \<not> fst (sq_read rlc_sdu_empty (at_queue s)))" using g(2) by blast
        have "pdu \<noteq> []" using c assms(2) Nil False h by (auto dest: ne)
        then show ?thesis using room by blast
      qed
    qed
  qed
  then show ?thesis using o(1) by blast
qed

theorem am_tx_pull_progress_witness:
  "\<exists>pdu t. at_pull_pdu True 6 at_demo_rx at_demo_cut = Some (pdu, at_demo_rx, t) \<and> pdu \<noteq> []"
proof -
  have st: "\<not> ar_status_report_required at_demo_rx" by code_simp
  have g: "head_max_size at_demo_cut < 6" by code_simp
  have u: "at_sn_under_segmentation at_demo_cut = at_next at_demo_cut" by code_simp
  show ?thesis using am_tx_pull_progress [OF at_demo_reach(3) st g, of True] u by blast
qed

section \<open>Status reports\<close>

text \<open>The last PDCP SN among SDUs, for first transmissions and for PDCP retransmissions apart.\<close>

definition last_pdcp_sn :: "bool \<Rightarrow> rlc_tx_am_sdu_info list \<Rightarrow> u32 option" where
  "last_pdcp_sn retx is = (let sns = List.map_filter (\<lambda>i. if ti_is_retx i = retx then ti_pdcp_sn i else None) is
     in if sns = [] then None else Some (last sns))"

lemma fold_mx: "fold mx_step is (None, None) = (last_pdcp_sn False is, last_pdcp_sn True is)"
proof (induction "is" rule: rev_induct)
  case Nil
  then show ?case by (simp add: last_pdcp_sn_def List.map_filter_def)
next
  case (snoc i js)
  then show ?case
    by (cases "ti_pdcp_sn i") (simp_all add: last_pdcp_sn_def List.map_filter_def mx_step_def Let_def)
qed

text \<open>A bearer whose only SDU has been sent; the peer acknowledges it, or misses its two middle bytes.\<close>

definition at_demo_sent :: rlc_tx_am where
  "at_demo_sent = the (am_tx_step (Tx_pull True 20 at_demo_rx) (at_handle_sdu True [0x80, 1, 2, 3] False at_demo_new))"

definition at_demo_ack :: rlc_am_status_pdu where
  "at_demo_ack = (rlc_am_status_pdu_new am_size12bits)\<lparr>sp_ack_sn := 1\<rparr>"

definition at_demo_report :: rlc_am_status_pdu where
  "at_demo_report = push_nack (rlc_am_nack_new\<lparr>nack_sn := 0, nack_has_so := True, so_start := 1, so_end := 2\<rparr>) at_demo_ack"

lemma at_demo_sent_reach: "am_tx_reach False False at_demo_cfg at_demo_sent"
  unfolding at_demo_sent_def by (intro reach_the(1) reach_sdu at_demo_reach(1)) (simp_all add: am_tx_allowed_def am_sdu_fits_def)

lemma at_demo_report_wf: "status_wf (ta_sn_field_length at_demo_cfg) at_demo_report" "status_wf (ta_sn_field_length at_demo_cfg) at_demo_ack"
  by (simp_all add: at_demo_report_def at_demo_ack_def status_wf_def push_nack_def rlc_am_status_pdu_new_def at_demo_cfg_def am_sn_ok_def am_sizes(1))

lemma at_demo_sent_facts:
  "let s = at_demo_sent in
     fst (at_accept_status at_demo_report s) \<and> \<not> at_acks_partial s at_demo_report \<and> \<not> at_nacks_unsent s at_demo_report \<and>
     fst (at_accept_status at_demo_ack s) \<and> \<not> at_acks_partial s at_demo_ack \<and> \<not> at_nacks_unsent s at_demo_ack \<and>
     tx_mod_base s 1 \<le> tx_mod_base s (at_next s) \<and> tx_mod_base s 0 < tx_mod_base s 1 \<and> at_stop_sn at_demo_ack = 1 \<and> 0 < at_mod s \<and>
     (case at_handle_status_pdu True at_demo_report at_demo_rx s of None \<Rightarrow> False | Some t \<Rightarrow> at_sdu t 0 = [0x80, 1, 2, 3] \<and> at_mod t = 4096)"
  by code_simp

lemmas at_demo_accepts = at_demo_sent_facts [unfolded Let_def]




section \<open>Termination of the loops over a report\<close>

lemma apply_nack_cfg: "at_apply_nack n (prev, s) = Some (prev', t) \<Longrightarrow> at_cfg t = at_cfg s"
proof -
  assume a: "at_apply_nack n (prev, s) = Some (prev', t)"
  have e: "at_cfg (at_emit e u) = at_cfg u" "at_cfg (at_assign k i u) = at_cfg u" for e k i u by (simp_all add: at_emit_def at_assign_def)
  have sane: "nack_sane_offsets len r u = (xy, v) \<Longrightarrow> at_cfg v = at_cfg u" for len r u xy v
    by (auto simp: nack_sane_offsets_def Let_def e split: prod.splits if_splits)
  have h: "at_handle_nack n s = Some (b, u) \<Longrightarrow> at_cfg u = at_cfg s" for b u
    by (auto simp: at_handle_nack_def Let_def split: if_splits option.splits prod.splits dest!: sane)
  have i: "at_increment_retx_count k u = Some v \<Longrightarrow> at_cfg v = at_cfg u" for k u v
    by (auto simp: at_increment_retx_count_def at_check_sn_reached_max_retx_def e split: option.splits if_splits)
  show ?thesis using a by (auto simp: at_apply_nack_def split: option.splits prod.splits if_splits dest!: h i)
qed

lemma nack_range_fuel:
  assumes "has_nack_range n" "i \<le> nack_len n" "nack_len n - i < fuel" "at_mod s = am_modulus sz" "am_sn_ok sz (nack_sn n)"
  shows "at_nack_range (fuel + d) ack n (range_sn (am_modulus sz) n i) (prev, s) = at_nack_range fuel ack n (range_sn (am_modulus sz) n i) (prev, s)"
  using assms
proof (induction fuel arbitrary: s i prev)
  case (Suc fuel)
  let ?m = "am_modulus sz"
  have len: "nack_len n = unat (nack_range n)" using Suc.prems(1) by (simp add: nack_len_def)
  then have e: "range_sn ?m n (nack_len n) = (nack_sn n + ucast (nack_range n)) mod ?m" by (simp add: range_sn_def)
  show ?case
  proof (cases "range_sn ?m n i = (nack_sn n + ucast (nack_range n)) mod ?m \<or> range_sn ?m n i = ack")
    case True
    then show ?thesis using Suc.prems(4) by (auto simp: Let_def)
  next
    case False
    then have "i \<noteq> nack_len n" using e by auto
    then have i: "Suc i \<le> nack_len n" "nack_len n - Suc i < fuel" using Suc.prems(2,3) by simp_all
    have nxt: "(range_sn ?m n i + 1) mod ?m = range_sn ?m n (Suc i)" unfolding range_sn_def mod_am_modulus_add by (simp add: add_ac)
    show ?thesis
    proof (cases "at_apply_nack (nack_of_range ?m n (range_sn ?m n i)) (prev, s)")
      case None
      then show ?thesis using False Suc.prems(4) by simp
    next
      case (Some ps)
      obtain p t where ps: "ps = (p, t)" by fastforce
      have "at_mod t = ?m" using apply_nack_cfg [OF Some [unfolded ps]] Suc.prems(4) by (simp add: at_mod_def)
      then show ?thesis using Suc.IH [OF Suc.prems(1) i, of t p] Suc.prems(4,5) False Some ps nxt by simp
    qed
  qed
qed simp

lemma ack_loop_fuel:
  assumes "at_pos s stop < fuel"
  shows "at_ack_loop (fuel + d) (at_next_ack s) stop mx s = at_ack_loop fuel (at_next_ack s) stop mx s"
  using assms
proof (induction fuel arbitrary: s mx)
  case (Suc fuel)
  have z: "at_pos s (at_next_ack s) = 0" by (simp add: at_pos_def)
  show ?case
  proof (cases "at_pos s stop = 0 \<or> cm_at (at_window s) (at_next_ack s) = None")
    case True
    then show ?thesis using z by (auto simp: tx_mod_base_compare)
  next
    case False
    then obtain i where i: "cm_at (at_window s) (at_next_ack s) = Some i" by blast
    let ?t = "at_release (at_next_ack s) i s"
    have t: "at_next_ack ?t = (at_next_ack s + 1) mod at_mod s" "at_sz ?t = at_sz s" by (simp_all add: at_release_def at_sz_def)
    have "am_pos (at_sz s) (at_next_ack s) ((at_next_ack s + 1) mod at_mod s) = 1" unfolding at_mod_sz by (simp add: am_pos_next)
    then have "at_pos ?t stop = at_pos s stop - 1"
      using am_pos_rebase [of "at_sz s" "(at_next_ack s + 1) mod at_mod s" stop "at_next_ack s"] False t by (simp add: at_pos_def)
    then have "at_pos ?t stop < fuel" using Suc.prems False by linarith
    then show ?thesis using Suc.IH [of ?t] i t(1) by simp
  qed
qed simp

text \<open>C17. The loops over a report end: more rounds than 256 for the range of a NACK, and than there are sequence numbers for the release of SDUs, change
  nothing, in any state of the entity and for any report that was read; and the loop that withdraws the old retransmissions always empties the queue.\<close>

theorem am_status_loops_terminate:
  assumes "status_wf (ta_sn_field_length (at_cfg s)) st" "n \<in> set (sp_nacks st)"
  shows "(has_nack_range n \<longrightarrow>
      at_nack_range (256 + d) (sp_ack_sn st) n (nack_sn n) (prev, s) = at_nack_range 256 (sp_ack_sn st) n (nack_sn n) (prev, s)) \<and>
    at_ack_loop (unat (at_mod s) + d) (at_next_ack s) stop mx s = at_ack_loop (unat (at_mod s)) (at_next_ack s) stop mx s \<and>
    (at_clear_retx s = Some t \<longrightarrow> rq_empty (at_retx_queue t))"
proof (intro conjI impI)
  let ?sz = "at_sz s"
  have sn: "am_sn_ok ?sz (nack_sn n)" using assms by (simp add: status_wf_def at_sz_def)
  have "range_sn (am_modulus ?sz) n 0 = nack_sn n" using am_sn_mod_id [OF sn] by (simp add: range_sn_def)
  then show "at_nack_range (256 + d) (sp_ack_sn st) n (nack_sn n) (prev, s) = at_nack_range 256 (sp_ack_sn st) n (nack_sn n) (prev, s)"
    if "has_nack_range n"
    using nack_range_fuel [OF that, of 0 256 s ?sz d "sp_ack_sn st" prev] nack_len_256 [of n] sn by (simp add: at_mod_sz)
  show "at_ack_loop (unat (at_mod s) + d) (at_next_ack s) stop mx s = at_ack_loop (unat (at_mod s)) (at_next_ack s) stop mx s"
    by (rule ack_loop_fuel) (simp add: at_mod_sz flip: am_M_def)
  show "rq_empty (at_retx_queue t)" if "at_clear_retx s = Some t"
    using that
  proof (induction s rule: at_clear_retx.induct)
    case (1 s)
    show ?case
      using "1.prems" "1.IH" unfolding at_clear_retx.simps [of s] by (auto split: if_splits option.splits)
  qed
qed

theorem am_status_loops_terminate_witness:
  "at_ack_loop (unat (at_mod at_demo_sent) + 7) (at_next_ack at_demo_sent) 1 (None, None) at_demo_sent =
    at_ack_loop (unat (at_mod at_demo_sent)) (at_next_ack at_demo_sent) 1 (None, None) at_demo_sent"
proof -
  have c: "at_cfg at_demo_sent = at_demo_cfg" using reach_inv [OF at_demo_sent_reach] by simp
  have "hd (sp_nacks at_demo_report) \<in> set (sp_nacks at_demo_report)" by (simp add: at_demo_report_def at_demo_ack_def push_nack_def rlc_am_status_pdu_new_def)
  then show ?thesis using am_status_loops_terminate [OF at_demo_report_wf(1) [folded c]] by blast
qed

end
