(* ===== verification/Rlc_Am_Tx_Poll.thy ===== *)
theory Rlc_Am_Tx_Poll
  imports Rlc_Am_Tx_Props
begin

text \<open>
  Polling by the transmitting AM entity: the peer is polled at the latest with every \<open>pollPDU\<close>-th new PDU. What the entity does with an
  acknowledgement of an SDU that it is still segmenting, and with a NACK for it.
\<close>

section \<open>The poll counters\<close>

definition at_polls :: "rlc_tx_am \<Rightarrow> rlc_tx_am_config \<times> u32 \<times> u32" where
  "at_polls s = (at_cfg s, at_pdu_without_poll s, at_byte_without_poll s)"

text \<open>Only the function that decides on the poll bit touches them.\<close>

lemma at_polls_frame [simp]:
  "at_polls (at_high f s) = at_polls s" "at_polls (at_low g s) = at_polls s" "at_polls (at_emit e s) = at_polls s"
  "at_polls (at_assign k i s) = at_polls s" "at_polls (s\<lparr>at_queue := q\<rparr>) = at_polls s" "at_polls (s\<lparr>at_retx_queue := r\<rparr>) = at_polls s"
  "at_polls (s\<lparr>at_retx_sn := x\<rparr>) = at_polls s" "at_polls (s\<lparr>at_sn_under_segmentation := x\<rparr>) = at_polls s"
  "at_polls (s\<lparr>at_next := x\<rparr>) = at_polls s" "at_polls (s\<lparr>at_window := w\<rparr>) = at_polls s"
  "at_polls (s\<lparr>at_poll_retransmit_timer := b\<rparr>) = at_polls s" "at_polls (s\<lparr>at_poll_retransmit_timer_expired := b\<rparr>) = at_polls s"
  "at_polls (s\<lparr>at_recycler := rc\<rparr>) = at_polls s" "at_polls (s\<lparr>at_clear_tasks := n\<rparr>) = at_polls s"
  "at_polls (s\<lparr>at_status_tasks := sts\<rparr>) = at_polls s" "at_polls (s\<lparr>at_pending_buffer_state := b\<rparr>) = at_polls s"
  "at_polls (s\<lparr>at_updates := n\<rparr>) = at_polls s" "at_polls (s\<lparr>at_prev_buffer_state := x\<rparr>) = at_polls s"
  "at_polls (at_release k i s) = at_polls s"
  by (simp_all add: at_polls_def at_high_def at_low_def at_emit_def at_assign_def at_release_def)

lemma at_polls_buffer [simp]:
  "at_polls (at_update_mac_buffer_state f rx s) = at_polls s" "at_polls (at_run_update rx s) = at_polls s"
  "at_polls (at_handle_changed_buffer_state ok s) = at_polls s" "at_polls (at_notify_transfer x s) = at_polls s"
  "at_polls (at_notify_delivery mx s) = at_polls s" "at_polls (at_on_status_report_changed ok s) = at_polls s"
  by (simp_all add: at_update_mac_buffer_state_def at_run_update_def at_handle_changed_buffer_state_def at_notify_transfer_def
      at_notify_delivery_def at_on_status_report_changed_def Let_def split: option.split)

lemma sane_polls: "nack_sane_offsets len r s = (xy, t) \<Longrightarrow> at_polls t = at_polls s"
  by (auto simp: nack_sane_offsets_def Let_def split: prod.splits if_splits)

lemma handle_nack_polls: "at_handle_nack n s = Some (b, t) \<Longrightarrow> at_polls t = at_polls s"
  by (auto simp: at_handle_nack_def Let_def split: if_splits option.splits prod.splits dest: sane_polls)

lemma increment_polls: "at_increment_retx_count k s = Some t \<Longrightarrow> at_polls t = at_polls s"
  by (auto simp: at_increment_retx_count_def at_check_sn_reached_max_retx_def split: option.splits if_splits)

lemma apply_nack_polls: "at_apply_nack n (prev, s) = Some (prev', t) \<Longrightarrow> at_polls t = at_polls s"
  by (auto simp: at_apply_nack_def split: option.splits prod.splits if_splits dest!: handle_nack_polls increment_polls)

lemma nack_range_polls: "at_nack_range fuel ack n sn (prev, s) = Some (prev', t) \<Longrightarrow> at_polls t = at_polls s"
proof (induction fuel arbitrary: sn prev s)
  case (Suc fuel)
  show ?case
  proof (cases "at_apply_nack (nack_of_range (at_mod s) n sn) (prev, s)")
    case None
    then show ?thesis using Suc.prems by (auto simp: Let_def split: if_splits)
  next
    case (Some ps)
    obtain p u where ps: "ps = (p, u)" by fastforce
    have "at_polls u = at_polls s" using apply_nack_polls Some ps by blast
    then show ?thesis using Suc.prems Some ps Suc.IH [of _ p u] by (auto simp: Let_def split: if_splits)
  qed
qed simp

lemma apply_nacks_polls: "at_apply_nacks ack ns (prev, s) = Some (prev', t) \<Longrightarrow> at_polls t = at_polls s"
proof (induction ns arbitrary: prev s)
  case (Cons n ns)
  obtain p u where u: "(if has_nack_range n then at_nack_range 256 ack n (nack_sn n) (prev, s) else at_apply_nack n (prev, s)) = Some (p, u)"
    using Cons.prems by (auto split: option.splits)
  then have "at_polls u = at_polls s" using nack_range_polls apply_nack_polls by (metis (full_types))
  then show ?case using Cons.prems u Cons.IH [of p u] by simp
qed simp

lemma ack_loop_polls: "at_polls (snd (at_ack_loop fuel sn stop mx s)) = at_polls s"
  by (induction fuel sn stop mx s rule: at_ack_loop.induct) (auto split: option.splits)

lemma clear_retx_polls: "at_clear_retx s = Some t \<Longrightarrow> at_polls t = at_polls s"
proof (induction s rule: at_clear_retx.induct)
  case (1 s)
  have r: "at_rewind_front r s = Some u \<Longrightarrow> at_polls u = at_polls s" for r u
    by (auto simp: at_rewind_front_def at_decrement_retx_count_def split: if_splits option.splits)
  show ?case
    using "1.prems" "1.IH" r unfolding at_clear_retx.simps [of s] by (auto split: if_splits option.splits)
qed

lemma handle_status_polls:
  assumes "at_handle_status_pdu ok st rx s = Some t" "at_vars s"
  shows "at_polls t = at_polls s"
proof -
  obtain b u where a: "at_accept_status st s = (b, u)" by fastforce
  have "fst (at_valid_nack k n v) \<or> at_polls (snd (at_valid_nack k n v)) = at_polls v" for k n v by (simp add: at_valid_nack_def)
  then have v: "at_polls (snd (at_valid_nacks k ns v)) = at_polls v" for k ns v
  proof (induction ns)
    case (Cons n ns)
    obtain c w where w: "at_valid_nack k n v = (c, w)" by fastforce
    then have "at_polls w = at_polls v" by (auto simp: at_valid_nack_def split: if_splits)
    then show ?case using Cons w valid_nack_spec(3) [OF w] by (cases c) auto
  qed simp
  have u: "at_polls u = at_polls s" using a v [of "sp_ack_sn st" "sp_nacks st" s] by (auto simp: at_accept_status_def split: if_splits)
  show ?thesis
  proof (cases b)
    case False
    then show ?thesis using a u assms(1) by (simp add: at_handle_status_pdu_def)
  next
    case True
    have p: "at_polls (at_process_acks st u) = at_polls u"
      using ack_loop_polls [of _ _ _ "(None, None)"] by (auto simp: at_process_acks_def Let_def split: prod.splits if_splits) (metis at_polls_frame(11) snd_conv)+
    obtain w where w: "at_clear_retx (at_process_acks st u) = Some w" using assms(1) a True by (auto simp: at_handle_status_pdu_def split: option.splits)
    obtain q z where z: "at_apply_nacks (sp_ack_sn st) (sp_nacks st) (INVALID_RLC_SN, w\<lparr>at_retx_sn := INVALID_RLC_SN\<rparr>) = Some (q, z)"
      using assms(1) a True w by (auto simp: at_handle_status_pdu_def split: option.splits)
    have "at_polls z = at_polls s" using clear_retx_polls [OF w] apply_nacks_polls [OF z] p u by simp
    then show ?thesis using assms(1) a True w z by (auto simp: at_handle_status_pdu_def Let_def split: if_splits)
  qed
qed

section \<open>Polling in time\<close>

definition at_poll_ok :: "rlc_tx_am_config \<times> u32 \<times> u32 \<Rightarrow> bool" where
  "at_poll_ok c \<longleftrightarrow> (case c of (cfg, pdus, bytes) \<Rightarrow>
    (0 < ta_poll_pdu cfg \<and> ta_poll_pdu cfg < 2 ^ 32 \<longrightarrow> int (unat pdus) < ta_poll_pdu cfg) \<and>
    (0 < ta_poll_byte cfg \<and> ta_poll_byte cfg < 2 ^ 32 \<longrightarrow> int (unat bytes) < ta_poll_byte cfg))"

lemma poll_threshold:
  assumes "0 < p" "p < 2 ^ 32" "\<not> (word_of_int p \<le> (w :: u32))"
  shows "int (unat w) < p"
proof -
  have "uint (word_of_int p :: u32) = p" using assms(1,2) by (simp add: uint_word_of_int_eq take_bit_int_eq_self)
  then show ?thesis using assms(3) by (simp add: word_le_def)
qed

lemma polling_bit_ok:
  assumes "at_poll_ok (at_polls s)"
  shows "at_poll_ok (at_polls (snd (at_get_polling_bit sn r n s)))"
  using assms poll_threshold [of "ta_poll_pdu (at_cfg s)" "at_pdu_without_poll s + 1"]
    poll_threshold [of "ta_poll_byte (at_cfg s)" "at_byte_without_poll s + n"]
  by (auto simp: at_poll_ok_def at_polls_def at_get_polling_bit_def Let_def)
lemma polling_bit_keeps:
  assumes "at_get_polling_bit sn r n s = (p, t)" "at_poll_ok (at_polls s)"
  shows "at_poll_ok (at_polls t)"
  using polling_bit_ok [OF assms(2), of sn r n] assms(1) by simp

lemma build_polls:
  "at_poll_ok (at_polls s) \<Longrightarrow> at_poll_ok (at_polls (snd (at_build_first_sdu_segment g i s)))"
  "at_poll_ok (at_polls s) \<Longrightarrow> at_poll_ok (at_polls (snd (at_build_full_sdu i s)))"
  "at_poll_ok (at_polls s) \<Longrightarrow> at_poll_ok (at_polls (snd (at_send_segment fin m i s)))"
proof -
  assume ok: "at_poll_ok (at_polls s)"
  show "at_poll_ok (at_polls (snd (at_build_first_sdu_segment g i s)))"
    using ok by (auto simp: at_build_first_sdu_segment_def Let_def at_add_pdus_with_segmentation_am_def
        split: prod.splits option.splits dest!: polling_bit_keeps)
  show "at_poll_ok (at_polls (snd (at_build_full_sdu i s)))"
    using ok by (auto simp: at_build_full_sdu_def Let_def at_metric_defs split: prod.splits dest!: polling_bit_keeps)
  show "at_poll_ok (at_polls (snd (at_send_segment fin m i s)))"
    using ok by (auto simp: at_send_segment_def Let_def at_metric_defs split: prod.splits option.splits dest!: polling_bit_keeps)
qed

lemma pull_polls:
  assumes "at_pull_pdu ok g rx s = Some (pdu, rx', t)" "at_poll_ok (at_polls s)"
  shows "at_poll_ok (at_polls t)"
proof -
  have new: "at_poll_ok (at_polls (snd (at_build_new_pdu g u)))" if "at_polls u = at_polls s" for u
    using that assms(2) by (auto simp: at_build_new_pdu_def Let_def split: prod.splits intro!: build_polls)
  have cont: "at_poll_ok (at_polls (snd (at_build_continued_sdu_segment g i s)))" for i
    using assms(2) by (auto simp: at_build_continued_sdu_segment_def Let_def intro!: build_polls)
  have send: "at_poll_ok (at_polls v)" if "at_send_retx g r i u = Some (p, v)" "at_polls u = at_polls s" for r i u p v
    using that assms(2) by (auto simp: at_send_retx_def Let_def at_metric_defs split: if_splits option.splits prod.splits dest!: polling_bit_keeps)
  have retx: "at_poll_ok (at_polls v)" if "at_build_retx_pdu g s = Some (p, v)" for p v
    using that assms(2) by (auto simp: at_build_retx_pdu_def Let_def split: if_splits option.splits dest!: send)
  have st: "at_polls v = at_polls s" if "at_build_status ok g rx s = (p, r, v)" for p r v
    using that by (auto simp: at_build_status_def Let_def at_metric_defs split: prod.splits if_splits)
  show ?thesis
  proof (cases "ar_status_report_required rx \<or> \<not> rq_empty (at_retx_queue s)")
    case True
    then show ?thesis using assms retx st by (auto simp: at_pull_pdu_def split: if_splits)
  next
    case False
    then show ?thesis using assms cont new [of "s\<lparr>at_sn_under_segmentation := INVALID_RLC_SN\<rparr>"]
      by (auto simp: at_pull_pdu_def Let_def split: if_splits option.splits prod.splits) (metis snd_conv)+
  qed
qed

lemma step_polls:
  assumes "am_tx_step e s = Some t" "at_vars s" "at_poll_ok (at_polls s)"
  shows "at_poll_ok (at_polls t)"
proof (cases e)
  case (Tx_pull ok g rx)
  then show ?thesis using assms pull_polls by (auto simp: am_tx_step_def)
next
  case (Tx_run_status ok rx)
  have "at_vars (s\<lparr>at_status_tasks := r\<rparr>)" for r using assms(2) by (simp add: at_vars_def at_n_def at_pos_def at_sz_def)
  then have "at_polls t = at_polls s" using assms(1) Tx_run_status handle_status_polls
    by (fastforce simp: am_tx_step_def at_run_status_def split: list.splits)
  then show ?thesis using assms(3) by simp
next
  case (Tx_poll_expiry rx)
  have "at_poll_retx rx i u = Some v \<Longrightarrow> at_polls v = at_polls u" for i u v
    by (auto simp: at_poll_retx_def Let_def split: prod.splits if_splits dest!: increment_polls)
  then have "at_polls t = at_polls s" using assms(1) Tx_poll_expiry
    by (auto simp: am_tx_step_def at_on_expired_poll_retransmit_timer_def Let_def split: if_splits option.splits)
  then show ?thesis using assms(3) by simp
qed (use assms in \<open>auto simp: am_tx_step_def at_handle_sdu_def at_discard_sdu_def at_metric_defs Let_def at_on_status_pdu_def
      at_run_clear_def at_stop_def split: prod.splits if_splits\<close>)


section \<open>Reports on the SDU under segmentation\<close>

text \<open>In the bearer of the witnesses two of the four bytes of the SDU with SN 0 have been sent.\<close>

definition at_demo_nack :: rlc_am_status_pdu where
  "at_demo_nack = push_nack (rlc_am_nack_new\<lparr>nack_sn := 0\<rparr>) at_demo_ack"

lemma at_demo_partial:
  "let s = at_demo_cut in at_sent s 0 = 2 \<and> length (at_sdu s 0) = 4 \<and> at_next s = 0 \<and>
    (case at_handle_status_pdu True at_demo_ack at_demo_rx s of None \<Rightarrow> False
     | Some t \<Rightarrow> \<not> has_sn (at_window t) 0 \<and> at_next t = 0 \<and> at_next_ack t = 1 \<and> \<not> inside_tx_window t (at_next t) \<and>
        At_on_delivered_sdu 1 \<in> set (at_out t)) \<and>
    (case at_handle_status_pdu True at_demo_nack at_demo_rx s of None \<Rightarrow> False
     | Some t \<Rightarrow> rq_abs (at_retx_queue t) = [\<lparr>rx_sn = 0, rx_so = 0, rx_length = 4\<rparr>] \<and> at_sent t 0 = 2)"
  by code_simp



end
