(* ===== verification/Rlc_Am_E2e.thy ===== *)
theory Rlc_Am_E2e
  imports Rlc_Am_Tx_Props
begin

text \<open>
  Transmitter and receiver of RLC AM together: the transmitter handles the status report that the receiver at the other end has built. What it relies on is
  stated as an interface, which the model of the receiver implements.
\<close>

section \<open>The source of status reports\<close>

text \<open>
  A receiver waits for the sequence numbers from \<open>base\<close> on and has seen none at or beyond \<open>limit\<close> positions after it. It lacks the bytes \<open>lacks\<close>
  of an SDU, and its reports are exact.
\<close>

locale am_status_source =
  fixes sz :: rlc_am_sn_size
    and base :: "'r \<Rightarrow> u32"
    and limit :: "'r \<Rightarrow> nat"
    and lacks :: "'r \<Rightarrow> u32 \<Rightarrow> nat set"
    and reports :: "'r \<Rightarrow> rlc_am_status_pdu \<Rightarrow> bool"
  assumes report_wf: "reports r st \<Longrightarrow> status_wf sz st \<and> sp_sn_size st = sz \<and> am_sn_ok sz (base r)"
    and report_ack: "reports r st \<Longrightarrow> am_pos sz (base r) (sp_ack_sn st) \<le> limit r"
    and report_range: "reports r st \<Longrightarrow> n \<in> set (sp_nacks st) \<Longrightarrow> j < nack_len n \<Longrightarrow>
      am_pos sz (base r) (range_sn (am_modulus sz) n j) < limit r"
    and report_exact: "reports r st \<Longrightarrow> am_sn_ok sz k \<Longrightarrow> am_pos sz (base r) k < am_pos sz (base r) (sp_ack_sn st) \<Longrightarrow>
      (k, b) \<in> sp_missing st \<longleftrightarrow> b \<in> lacks r k"
    and report_sound: "reports r st \<Longrightarrow> (k, b) \<in> sp_missing st \<Longrightarrow> b \<in> lacks r k"
    and report_first: "reports r st \<Longrightarrow> sp_nacks st = n # ns \<Longrightarrow> am_pos sz (base r) (nack_sn n) \<le> am_pos sz (base r) (sp_ack_sn st) \<and>
      ((k, b) \<in> sp_missing st \<longrightarrow> am_pos sz (base r) (nack_sn n) \<le> am_pos sz (base r) k)"
begin

text \<open>The receiver is in step with the transmitter: it has seen only what has been sent, and has not got all of an SDU of which only a part was sent.\<close>

definition in_step :: "rlc_tx_am \<Rightarrow> 'r \<Rightarrow> bool" where
  "in_step s r \<longleftrightarrow> at_sz s = sz \<and> at_pos s (base r) \<le> at_n s \<and>
    at_pos s (base r) + limit r \<le> at_n s + (if at_sn_under_segmentation s = at_next s then 1 else 0) \<and>
    (at_sn_under_segmentation s = at_next s \<longrightarrow> lacks r (at_next s) \<noteq> {})"

lemma pos_forward:
  assumes "at_inv s" "in_step s r" "am_pos sz (base r) k \<le> limit r"
  shows "at_pos s k = at_pos s (base r) + am_pos sz (base r) k"
proof -
  have v: "at_n s + (if at_sn_under_segmentation s = at_next s then 1 else 0) \<le> am_W sz"
    using at_invD(1) [OF assms(1)] assms(2) by (simp add: at_vars_def in_step_def)
  have "at_pos s (base r) + limit r \<le> am_W sz" using v assms(2) unfolding in_step_def by linarith
  then have "at_pos s (base r) + am_pos sz (base r) k < am_M sz" using assms(3) am_sizes(2,3) [of sz] by linarith
  then show ?thesis
    using am_pos_rebase [of sz "base r" k "at_next_ack s"] am_pos_less [of sz "at_next_ack s" k] assms(2)
    by (auto simp: in_step_def at_pos_def split: if_splits)
qed

lemma pos_back:
  assumes "in_step s r" "at_pos s (base r) \<le> at_pos s k"
  shows "am_pos sz (base r) k = at_pos s k - at_pos s (base r)"
  using am_pos_rebase [of sz "base r" k "at_next_ack s"] assms by (simp add: in_step_def at_pos_def)

text \<open>A report of such a receiver is neither of the two kinds that the transmitter is not prepared for.\<close>

lemma report_safe:
  assumes "at_inv s" "in_step s r" "reports r st"
  shows "\<not> at_nacks_unsent s st" "\<not> at_acks_partial s st"
proof -
  have sz: "at_sz s = sz" using assms(2) by (simp add: in_step_def)
  have nx: "at_pos s (at_next s) = at_n s" by (simp add: at_n_def)
  show "\<not> at_nacks_unsent s st"
  proof
    assume "at_nacks_unsent s st"
    then obtain n j where n: "n \<in> set (sp_nacks st)" "j < nack_len n" "range_sn (am_modulus sz) n j = at_next s"
      and seg: "at_sn_under_segmentation s \<noteq> at_next s" by (auto simp: at_nacks_unsent_def at_mod_sz sz)
    have l: "am_pos sz (base r) (at_next s) < limit r" using report_range [OF assms(3) n(1,2)] n(3) by simp
    then have "at_n s = at_pos s (base r) + am_pos sz (base r) (at_next s)" using pos_forward [OF assms(1,2), of "at_next s"] nx by simp
    then show False using l assms(2) seg by (simp add: in_step_def)
  qed
  show "\<not> at_acks_partial s st"
  proof
    assume "at_acks_partial s st"
    then have p: "at_sn_under_segmentation s = at_next s" "sp_nacks st = []" "sp_ack_sn st = (at_next s + 1) mod am_modulus sz"
      by (auto simp: at_acks_partial_def at_mod_sz sz)
    have ok: "am_sn_ok sz (at_next s)" using at_invD(1) [OF assms(1)] sz by (simp add: at_vars_def)
    have "at_n s + 1 \<le> am_W sz" using at_invD(1) [OF assms(1)] p(1) sz by (simp add: at_vars_def)
    then have "at_pos s (sp_ack_sn st) = Suc (at_n s)"
      using am_pos_Suc [of sz "at_next_ack s" "at_next s"] am_sizes(2,3) [of sz] nx unfolding p(3) by (simp add: at_pos_def sz)
    then have a: "Suc (at_n s) = at_pos s (base r) + am_pos sz (base r) (sp_ack_sn st)"
      using pos_forward [OF assms(1,2) report_ack [OF assms(3)]] by simp
    have b: "at_pos s (base r) \<le> at_n s" using assms(2) by (simp add: in_step_def)
    then have "am_pos sz (base r) (at_next s) = at_n s - at_pos s (base r)" using pos_back [OF assms(2), of "at_next s"] nx by simp
    then have "am_pos sz (base r) (at_next s) < am_pos sz (base r) (sp_ack_sn st)" using a b by linarith
    then have "lacks r (at_next s) = {}" using report_exact [OF assms(3) ok] p(2) by (auto simp: sp_missing_def)
    then show False using assms(2) p(1) by (simp add: in_step_def)
  qed
qed

text \<open>Everything that is released has arrived.\<close>

lemma released_received:
  assumes "at_inv s" "in_step s r" "reports r st" "am_sn_ok sz k" "at_pos s k < at_released s st"
  shows "at_pos s k < at_pos s (base r) \<or> lacks r k = {}"
proof (cases "at_pos s k < at_pos s (base r)")
  case False
  then have k: "am_pos sz (base r) k = at_pos s k - at_pos s (base r)" using pos_back [OF assms(2), of k] by simp
  have stop: "at_pos s k < at_pos s (at_stop_sn st)" using assms(5) by (simp add: at_released_def)
  show ?thesis
  proof (cases "sp_nacks st")
    case Nil
    have "at_pos s (sp_ack_sn st) = at_pos s (base r) + am_pos sz (base r) (sp_ack_sn st)"
      by (rule pos_forward [OF assms(1,2) report_ack [OF assms(3)]])
    then have "am_pos sz (base r) k < am_pos sz (base r) (sp_ack_sn st)" using stop False k Nil by (simp add: at_stop_sn_def)
    then show ?thesis using report_exact [OF assms(3,4)] Nil by (auto simp: sp_missing_def)
  next
    case (Cons n ns)
    have f: "am_pos sz (base r) (nack_sn n) \<le> am_pos sz (base r) (sp_ack_sn st)"
      "(k, b) \<in> sp_missing st \<Longrightarrow> am_pos sz (base r) (nack_sn n) \<le> am_pos sz (base r) k" for b
      using report_first [OF assms(3) Cons] by blast+
    have "at_pos s (nack_sn n) = at_pos s (base r) + am_pos sz (base r) (nack_sn n)"
      by (rule pos_forward [OF assms(1,2)]) (use f(1) report_ack [OF assms(3)] in linarith)
    then have l: "am_pos sz (base r) k < am_pos sz (base r) (nack_sn n)" using stop False k Cons by (simp add: at_stop_sn_def)
    then have "(k, b) \<notin> sp_missing st" for b using f(2) [of b] by linarith
    then show ?thesis using report_exact [OF assms(3,4)] l f(1) by auto
  qed
qed simp

text \<open>Handling the report.\<close>

lemma report_handled:
  assumes "at_inv s" "in_step s r" "reports r st" "fst (at_accept_status st s)"
  shows "\<exists>t. at_handle_status_pdu ok st rx s = Some t \<and>
    (\<forall>k. has_sn (at_window s) k \<and> \<not> has_sn (at_window t) k \<longrightarrow> at_pos s k < at_pos s (base r) \<or> lacks r k = {}) \<and>
    ((\<forall>n \<in> set (sp_nacks st). nacks_fit t n) \<longrightarrow> (\<forall>(k, b) \<in> retx_spans (rq_abs (at_retx_queue t)). b \<in> lacks r k))"
proof -
  have sz: "at_sz s = sz" using assms(2) by (simp add: in_step_def)
  note wf = report_wf [OF assms(3)] and safe = report_safe [OF assms(1-3)]
  obtain u where "at_accept_status st s = (True, u)" using assms(4) by (cases "at_accept_status st s") auto
  then have a: "at_accept_status st s = (True, s)" using accept_spec(3) [OF at_invD(1) [OF assms(1)]] by blast
  have w: "status_wf (at_sz s) st" using wf sz by simp
  have m: "\<Union> (nack_missing (at_mod s) ` set (sp_nacks st)) = sp_missing st" using wf sz by (simp add: sp_missing_def sp_mod_nr_def at_mod_sz)
  show ?thesis
    using handle_status_spec [OF assms(1) w a safe(2,1), of ok rx]
  proof (elim exE conjE, goal_cases)
    case (1 t es)
    have "at_pos s k < at_pos s (base r) \<or> lacks r k = {}" if k: "has_sn (at_window s) k" "\<not> has_sn (at_window t) k" for k
    proof -
      have "am_sn_ok (at_sz s) k" using k(1) at_invD(2) [OF assms(1)] by (simp add: has_sn_at at_win_def at_live_def)
      moreover from 1(8) [rule_format, OF this] have "at_pos s k < at_released s st"
        using k by (cases "at_pos s k < at_released s st") (auto simp: has_sn_at)
      ultimately show ?thesis using released_received [OF assms(1-3)] sz by blast
    qed
    moreover have "\<forall>(k, b) \<in> retx_spans (rq_abs (at_retx_queue t)). b \<in> lacks r k" if "\<forall>n \<in> set (sp_nacks st). nacks_fit t n"
      using 1(9) that report_sound [OF assms(3)] unfolding m by blast
    ultimately show ?case using 1(1) by blast
  qed
qed

end

section \<open>The receiver as such a source\<close>

text \<open>The reports a receiver can send: the one that it compiles, trimmed to a grant.\<close>

definition ar_reports :: "rlc_am_sn_size \<Rightarrow> rlc_rx_am \<Rightarrow> rlc_am_status_pdu \<Rightarrow> bool" where
  "ar_reports sz r st \<longleftrightarrow> ar_good r \<and> ar_sz r = sz \<and>
    (\<exists>u grant. ar_refresh_status_report r = Some u \<and> sp_trim grant (ar_status_cached u) = (True, st))"

definition ar_limit :: "rlc_rx_am \<Rightarrow> nat" where
  "ar_limit r = ar_pos r (ar_next_highest r)"

lemma trimmed_prefix:
  assumes "ar_reports sz r st"
  obtains rp ms g where "ar_good r" "ar_sz r = sz" "ar_report r rp" "sp_trim g rp = (True, st)" "sp_nacks rp = sp_nacks st @ ms"
    "sp_ack_sn st = (if ms = [] then sp_ack_sn rp else nack_sn (hd ms))" "sp_ok st" "sp_sn_size st = sz"
proof -
  obtain u g where u: "ar_good r" "ar_sz r = sz" "ar_refresh_status_report r = Some u" "sp_trim g (ar_status_cached u) = (True, st)"
    using assms by (auto simp: ar_reports_def)
  have rp: "ar_report r (ar_status_cached u)" using refresh_good [OF u(1)] u(3) by auto
  then have ok: "sp_ok (ar_status_cached u)" "sp_sn_size (ar_status_cached u) = sz" using u(2) by (simp_all add: ar_report_def)
  obtain ns ms where t: "sp_nacks (ar_status_cached u) = ns @ ms" "st = (ar_status_cached u)\<lparr>sp_nacks := ns,
      sp_ack_sn := (if ms = [] then sp_ack_sn (ar_status_cached u) else nack_sn (hd ms)),
      sp_packed_size := status_pdu_sizeof_header_ack_sn + nacks_size (sp_sn_size (ar_status_cached u)) ns\<rparr>"
    using trim_result [OF ok(1) u(4)] by blast
  have "sp_nacks (ar_status_cached u) = sp_nacks st @ ms"
    "sp_ack_sn st = (if ms = [] then sp_ack_sn (ar_status_cached u) else nack_sn (hd ms))" using t by simp_all
  then show thesis using that [OF u(1,2) rp u(4)] trim_keeps_ok [OF ok(1) u(4)] ok(2) by blast
qed

lemma ar_pos_range:
  assumes "ar_pos r (nack_sn n) + nack_len n \<le> ar_W r" "j < nack_len n"
  shows "ar_pos r (range_sn (am_modulus (ar_sz r)) n j) = ar_pos r (nack_sn n) + j"
proof -
  have "ar_pos r (nack_sn n) + j < am_M (ar_sz r)" using assms am_sizes(2) [of "ar_sz r"] by linarith
  then show ?thesis using am_pos_add [of "ar_sz r" "ar_next r" "nack_sn n" j] by (simp add: range_sn_def ar_pos_def)
qed

interpretation am_source: am_status_source sz ar_next ar_limit ar_lacking "ar_reports sz" for sz
proof
  fix r st
  assume "ar_reports sz r st"
  then obtain rp ms g where p: "ar_good r" "ar_sz r = sz" "ar_report r rp" "sp_trim g rp = (True, st)" "sp_nacks rp = sp_nacks st @ ms"
    "sp_ack_sn st = (if ms = [] then sp_ack_sn rp else nack_sn (hd ms))" "sp_ok st" "sp_sn_size st = sz" by (rule trimmed_prefix)
  note v = ar_varsD [OF goodD(4) [OF p(1)]] and tr = trim_report [OF goodD(4) [OF p(1)] p(3,4)]
  have hi: "nacks_within r (ar_pos r (sp_ack_sn rp)) (sp_nacks rp)" "ar_pos r (sp_ack_sn rp) \<le> ar_limit r" "ar_limit r \<le> ar_W r"
    using p(3) v(5,6) by (simp_all add: ar_report_def ar_limit_def)
  have pos: "am_pos sz (ar_next r) = ar_pos r" using p(2) by (simp add: ar_pos_def fun_eq_iff)
  show "status_wf sz st \<and> sp_sn_size st = sz \<and> am_sn_ok sz (ar_next r)"
    using tr(1) v(1) p(2,7,8) by (auto simp: status_wf_def sp_ok_def nack_ok_def sn_ok_bits)
  show "am_pos sz (ar_next r) (sp_ack_sn st) \<le> ar_limit r" using tr(2) hi(2) unfolding pos by linarith
  show "am_pos sz (ar_next r) (range_sn (am_modulus sz) n j) < ar_limit r" if n: "n \<in> set (sp_nacks st)" "j < nack_len n" for n j
  proof -
    have "ar_pos r (nack_sn n) + nack_len n \<le> ar_pos r (sp_ack_sn rp)" using hi(1) n(1) p(5) by (auto simp: nacks_within_def)
    then show ?thesis using ar_pos_range [of r n j] n(2) hi(2,3) p(2) unfolding pos by auto
  qed
  show "(k, b) \<in> sp_missing st \<longleftrightarrow> b \<in> ar_lacking r k"
    if "am_sn_ok sz k" "am_pos sz (ar_next r) k < am_pos sz (ar_next r) (sp_ack_sn st)" for k b
    using tr(3) [of k b] that p(2) unfolding pos by simp
  show "b \<in> ar_lacking r k" if "(k, b) \<in> sp_missing st" for k b using tr(4) that .
  show "am_pos sz (ar_next r) (nack_sn n) \<le> am_pos sz (ar_next r) (sp_ack_sn st) \<and>
      ((k, b) \<in> sp_missing st \<longrightarrow> am_pos sz (ar_next r) (nack_sn n) \<le> am_pos sz (ar_next r) k)"
    if n: "sp_nacks st = n # ns" for n ns k b
  proof -
    have e: "\<forall>m \<in> set (n # ns @ ms). ar_pos r (nack_sn m) + nack_len m \<le> ar_pos r (sp_ack_sn rp)"
      "\<forall>m \<in> set (ns @ ms). ar_pos r (nack_sn n) \<le> ar_pos r (nack_sn m)"
      using hi(1) unfolding p(5) n nacks_within_def by simp_all
    have W: "ar_pos r (nack_sn m) + nack_len m \<le> ar_W r" if "m \<in> set (n # ns)" for m
    proof -
      have "ar_pos r (nack_sn m) + nack_len m \<le> ar_pos r (sp_ack_sn rp)" using e(1) that by auto
      then show ?thesis using hi(2,3) by linarith
    qed
    have "ar_pos r (nack_sn n) + nack_len n \<le> ar_pos r (sp_ack_sn rp)" using e(1) by simp
    then have a: "ar_pos r (nack_sn n) \<le> ar_pos r (sp_ack_sn rp)" by linarith
    have "ar_pos r (nack_sn n) \<le> ar_pos r (sp_ack_sn st)" using p(6) e(2) a by (cases ms) auto
    moreover have "ar_pos r (nack_sn n) \<le> ar_pos r k" if kb: "(k, b) \<in> sp_missing st"
    proof -
      obtain m where m: "m \<in> set (n # ns)" "(k, b) \<in> nack_missing (ar_mod r) m"
        using kb n p(2,8) by (auto simp: sp_missing_def sp_mod_nr_def ar_mod_def)
      then have "ar_pos r (nack_sn m) \<le> ar_pos r k" using nack_missing_pos W by blast
      moreover have "ar_pos r (nack_sn n) \<le> ar_pos r (nack_sn m)" using e(2) m(1) by auto
      ultimately show ?thesis by linarith
    qed
    ultimately show ?thesis unfolding pos by blast
  qed
qed

section \<open>Acknowledged is received\<close>

text \<open>The receiver is in step with the transmitter; written out over the model.\<close>

definition am_in_step :: "rlc_tx_am \<Rightarrow> rlc_rx_am \<Rightarrow> bool" where
  "am_in_step s r \<longleftrightarrow> tx_mod_base s (ar_next r) \<le> tx_mod_base s (at_next s) \<and>
    unat (tx_mod_base s (ar_next r)) + unat (ar_mod_base r (ar_next_highest r)) \<le>
      unat (tx_mod_base s (at_next s)) + (if at_sn_under_segmentation s = at_next s then 1 else 0) \<and>
    (at_sn_under_segmentation s = at_next s \<longrightarrow> ar_lacking r (at_next s) \<noteq> {})"


text \<open>The bearer of the witnesses has sent its only SDU, which the receiver got with a poll.\<close>

definition am_demo_got :: "am_rx_event list" where
  "am_demo_got = [Am_pdu (\<lambda>_. True) [0xc0, 0, 0x80, 1, 2, 3]]"


end
