(* ===== verification/Spec2Isabelle.thy ===== *)
theory Spec2Isabelle
  imports Pdcp_E2e Rlc_Um_E2e Rlc_Am_Tx_Poll Rlc_Am_E2e
begin

text \<open>
  A verification library for the user plane of the 5G base station srsRAN (directory \<open>src/srsRAN\<close>): the PDCP layer
  with its security engines, the RLC layer below it, and the data structures both rest on.

  \<^bold>\<open>How the parts interact.\<close> PDCP (\<open>lib/pdcp\<close>) numbers the SDUs of the upper layer with a COUNT, protects them
  with a security engine (\<open>lib/security\<close>) and hands the PDUs to RLC; the receiving entity verifies, reorders and
  delivers them. RLC (\<open>lib/rlc\<close>) queues the PDCP PDUs in a lock-free queue, cuts them into PDUs as large as the
  grants of MAC, and reassembles them at the other side. Both keep their SDUs in \<open>sdu_window_impl\<close> over
  \<open>circular_map\<close>. RLC finds the PDCP SN in an SDU with \<open>get_pdcp_sn\<close>, so that PDCP can discard it.

  \<^bold>\<open>Theories.\<close>
  \<^item> \<open>Prelude\<close>: types of machine words, bytes, generic lemmas and collections of rules.
  \<^item> \<open>Bit_Codec\<close>: \<open>bit_encoder\<close>, \<open>bit_decoder\<close> (\<open>lib/support/bit_encoding.cpp\<close>); round trips of bit fields.
  \<^item> \<open>Sdu_Window\<close>: \<open>circular_map\<close>, \<open>sdu_window_impl\<close>; the contract of a window as a locale, interpreted on them.
  \<^item> \<open>Zuc\<close>, \<open>Snow3g\<close>: the key stream generators (\<open>lib/security/zuc.cpp\<close>, \<open>s3g.cpp\<close>).
  \<^item> \<open>Security_Engine\<close>, \<open>Security_Laws\<close>: algorithms, engines, selection of algorithms, key derivation; the round
    trip of every combination. AES and HMAC of mbedTLS are parameters (\<open>crypto_lib\<close>) with their laws as hypotheses.
  \<^item> \<open>Pdcp_Base\<close>: configuration, COUNT arithmetic, headers. \<open>Pdcp_Rx\<close>, \<open>Pdcp_Tx\<close>: the entities
    (\<open>pdcp_entity_rx.cpp\<close>, \<open>pdcp_entity_tx.cpp\<close>), one definition per method; their invariants in \<open>Pdcp_Rx_Inv\<close>,
    \<open>Pdcp_Tx_Inv\<close>, their properties in \<open>Pdcp_Rx_Props\<close>, \<open>Pdcp_Tx_Props\<close>, both together in \<open>Pdcp_E2e\<close>.
  \<^item> \<open>Rlc_Um_Pdu\<close>: configuration and headers of RLC UM. \<open>Rlc_Segments\<close>: the store of segments that UM and AM
    share. \<open>Rlc_Sdu_Queue\<close>: \<open>rlc_sdu_queue_lockfree.h\<close>, with the interleavings of its two threads.
  \<^item> \<open>Rlc_Um_Tx\<close>, \<open>Rlc_Um_Rx\<close>: the UM entities (\<open>rlc_tx_um_entity.cpp\<close>, \<open>rlc_rx_um_entity.cpp\<close>); invariants in
    \<open>Rlc_Um_Tx_Inv\<close>, \<open>Rlc_Um_Rx_Inv\<close>, properties in \<open>Rlc_Um_Tx_Props\<close>, \<open>Rlc_Um_Rx_Props\<close>, both together in
    \<open>Rlc_Um_E2e\<close>.
  \<^item> \<open>Rlc_Am_Pdu\<close>: headers and status PDUs of RLC AM (\<open>rlc_am_pdu.cpp\<close>); \<open>Rlc_Am_Pdu_Props\<close>: their round trips and
    what their readers reject. \<open>Rlc_Am_Sn\<close>, \<open>Rlc_Am_Window\<close>: arithmetic of sequence numbers relative to a window
    base, and windows in which no two live sequence numbers share a slot.
  \<^item> \<open>Rlc_Am_Rx\<close>: the AM receiver (\<open>rlc_rx_am_entity.cpp\<close>), one definition per method; \<open>Rlc_Am_Rx_Inv\<close>: its
    invariant; \<open>Rlc_Am_Status\<close>: the report it builds, against the segments that are really missing;
    \<open>Rlc_Am_Rx_Props\<close>: runs over arbitrary PDUs and expiries. \<open>Rlc_Am_Carry\<close>: when a PDU carries a stretch of an SDU,
    which both ends share.
  \<^item> \<open>Rlc_Retx_Queue\<close>: the queue of retransmissions (\<open>rlc_retx_queue.h\<close>), with the list it implements.
  \<^item> \<open>Rlc_Am_Tx\<close>: the AM transmitter (\<open>rlc_tx_am_entity.cpp\<close>) and the recycler of released SDUs (\<open>rlc_pdu_recycler.h\<close>);
    \<open>Rlc_Am_Tx_Inv\<close>: its invariant and how building PDUs keeps it; \<open>Rlc_Am_Tx_Status\<close>: what a status report does, step by
    step; \<open>Rlc_Am_Tx_Props\<close>: runs over arbitrary grants, reports and expiries; \<open>Rlc_Am_Tx_Poll\<close>: the counters of polling and
    the reports the code is not prepared for.
  \<^item> \<open>Rlc_Am_E2e\<close>: both ends of RLC AM. What the transmitter assumes of the source of a report is a locale, interpreted on
    the model of the receiver.

  \<^bold>\<open>Conventions.\<close> A class is a record of its members and a method a function on that record; \<open>uint32_t\<close> is
  \<open>32 word\<close>; a \<open>byte_buffer\<close> is the list of its bytes; \<open>std::optional\<close> and \<open>expected\<close> are options and sums; a
  notifier is a trace of the calls to it, kept in the record. Where an assertion of the code can fail (\<open>srsran_assert\<close>,
  \<open>operator[]\<close> of \<open>circular_map\<close>) the operation is an option, and None is the abort. A timer is a flag, its expiry
  an operation. Results of
  executors and of memory allocation that the code reacts to are arguments (\<open>ok\<close>, \<open>defer_ok\<close>).

  \<^bold>\<open>Lemma groups.\<close> For each entity: an invariant and its preservation by every operation (\<open>..._inv\<close>,
  \<open>..._keeps_inv\<close>), the effect of each operation (\<open>..._effect\<close>), and on top of these the properties, named C1 to C40
  in the text blocks. Runs are lists or inductive predicates over the operations with arbitrary arguments, so the
  invariants hold whatever the peer sends.

  \<^bold>\<open>Bounds and fuel.\<close> The loops of the UM receiver over sequence numbers take the modulus as fuel; \<open>upward_walk\<close> and
  \<open>outside_walk\<close> show that they end within it, and C-properties state the exit condition. The loops of the AM entities over sequence numbers take the modulus too; the
  distance to their end decreases with each turn (\<open>skip_spec\<close>, \<open>nack_loop_spec\<close>). A NACK range has 8 bits, so its loop
  takes 256; \<open>am_status_loops_terminate\<close> shows that neither bound of the transmitter is ever reached. All other loops are
  structural or have a termination measure. The segment offset has 16 bits, so the properties on SDUs assume at
  most \<open>2 ^ 16\<close> bytes, as does the code. The properties of the AM transmitter take SDUs of at least one and less than \<open>2 ^ 15\<close> bytes, so that the
  sums of its queue of retransmissions do not wrap.

  \<^bold>\<open>Not modelled.\<close> Logging, pcap, tracing and the metrics that read a clock; construction and wiring (factories);
  RLC TM, GTP-U, F1-U, SDAP, MAC and the control plane; generated ASN.1 code; PHY and hardware.
\<close>

end
